(* ===== verification/LilacBase.thy ===== *)
theory LilacBase imports Main "HOL-Library.Word" "HOL-Library.Signed_Division" begin

text \<open>
  The prelude of the development: the machine integers and error codes the components share,
  the C operations on them that differ from HOL's, memory blocks with bounds-checked copies,
  and the interfaces (locales) that several components provide: a component driven by events and
  a system of interleaved steps, each with an invariant, and a byte channel.

  Conventions.  An error return is the negated errno the code returns (an \<open>int\<close>).
  An access outside a memory block, undefined behaviour in C, is the value \<open>None\<close> of an
  option type, called a fault below.
\<close>

unbundle bit_operations_syntax

section \<open>Configuration\<close>

definition CONFIG_MAX_CPUS :: nat where
  "CONFIG_MAX_CPUS = 32"

section \<open>Machine integers\<close>

type_synonym u8 = "8 word"
type_synonym u16 = "16 word"
type_synonym u32 = "32 word"
type_synonym u64 = "64 word"

named_theorems lilac_arith \<open>arithmetic on the code's integers, reduced under range hypotheses\<close>
named_theorems ring_simps \<open>facts on blocks of memory and ring indices\<close>

text \<open>
  An \<open>unsigned int\<close> field whose arithmetic the proofs do on \<open>nat\<close>: addition and
  subtraction wrap at \<open>2 ^ 32\<close> as C's do.
\<close>

definition u32_add :: "nat \<Rightarrow> nat \<Rightarrow> nat" where
  "u32_add a b = (a + b) mod 4294967296"

definition u32_sub :: "nat \<Rightarrow> nat \<Rightarrow> nat" where
  "u32_sub a b = (a + (4294967296 - b mod 4294967296)) mod 4294967296"

lemma u32_add_small [lilac_arith]: "a + b < 4294967296 \<Longrightarrow> u32_add a b = a + b"
  by (simp add: u32_add_def)

lemma u32_sub_small [lilac_arith]:
  assumes "b \<le> a" and "a < 4294967296"
  shows "u32_sub a b = a - b"
proof -
  from assms have "a + (4294967296 - b mod 4294967296) = (a - b) + 4294967296"
    by simp
  then have "u32_sub a b = (a - b) mod 4294967296"
    unfolding u32_sub_def by (simp only: mod_add_self2)
  with assms show ?thesis by simp
qed

lemma u32_sub_lt: "u32_sub a b < 4294967296"
  by (simp add: u32_sub_def)

text \<open>The value of an integer after conversion to a signed 16 or 32 bit type.\<close>

definition s16 :: "int \<Rightarrow> int" where
  "s16 i = signed_take_bit 15 i"

definition s32 :: "int \<Rightarrow> int" where
  "s32 i = signed_take_bit 31 i"

text \<open>C's \<open>%\<close> on \<open>int\<close> truncates towards zero; on non-negative operands it is \<open>mod\<close>.\<close>

lemma smod_nonneg [lilac_arith]: "0 \<le> a \<Longrightarrow> 0 < b \<Longrightarrow> (a::int) smod b = a mod b"
  by (simp add: signed_modulo_int_def sgn_if)

section \<open>Error codes (include/lilac/errno.h)\<close>

abbreviation EPERM :: int where "EPERM \<equiv> 1"
abbreviation ENOENT :: int where "ENOENT \<equiv> 2"
abbreviation ESRCH :: int where "ESRCH \<equiv> 3"
abbreviation EINTR :: int where "EINTR \<equiv> 4"
abbreviation EIO :: int where "EIO \<equiv> 5"
abbreviation ENXIO :: int where "ENXIO \<equiv> 6"
abbreviation EBADF :: int where "EBADF \<equiv> 9"
abbreviation ECHILD :: int where "ECHILD \<equiv> 10"
abbreviation EAGAIN :: int where "EAGAIN \<equiv> 11"
abbreviation ENOMEM :: int where "ENOMEM \<equiv> 12"
abbreviation EFAULT :: int where "EFAULT \<equiv> 14"
abbreviation EEXIST :: int where "EEXIST \<equiv> 17"
abbreviation ENODEV :: int where "ENODEV \<equiv> 19"
abbreviation ENOTDIR :: int where "ENOTDIR \<equiv> 20"
abbreviation EISDIR :: int where "EISDIR \<equiv> 21"
abbreviation EINVAL :: int where "EINVAL \<equiv> 22"
abbreviation EMFILE :: int where "EMFILE \<equiv> 24"
abbreviation ENOTTY :: int where "ENOTTY \<equiv> 25"
abbreviation EPIPE :: int where "EPIPE \<equiv> 32"
abbreviation ERANGE :: int where "ERANGE \<equiv> 34"
abbreviation ENAMETOOLONG :: int where "ENAMETOOLONG \<equiv> 36"
abbreviation ENOSYS :: int where "ENOSYS \<equiv> 38"
abbreviation ENOTEMPTY :: int where "ENOTEMPTY \<equiv> 39"
abbreviation EOPNOTSUPP :: int where "EOPNOTSUPP \<equiv> 95"

lemma sint_eq: "sint (a :: u8) = sint b \<longleftrightarrow> a = b"
  by (rule word_eq_iff_signed [symmetric])

lemma sint_eq_0: "sint (c :: u8) = 0 \<longleftrightarrow> c = 0"
  using sint_eq [of c 0] by simp

text \<open>The string in a buffer: its bytes up to the first 0.\<close>

definition cstr :: "u8 list \<Rightarrow> u8 list" where
  "cstr bs = takeWhile (\<lambda>c. c \<noteq> 0) bs"

definition toupper :: "u8 \<Rightarrow> u8" where
  "toupper c = (if 97 \<le> sint c \<and> sint c \<le> 122 then c - 32 else c)"

section \<open>Blocks of memory\<close>

text \<open>
  \<open>mem_read\<close> is the source of a \<open>memcpy\<close> of \<open>n\<close> bytes from offset \<open>pos\<close> of a
  block, \<open>mem_write\<close> its destination; both fault outside the block.
\<close>

definition mem_read :: "'a list \<Rightarrow> nat \<Rightarrow> nat \<Rightarrow> 'a list option" where
  "mem_read blk pos n = (if pos + n \<le> length blk then Some (take n (drop pos blk)) else None)"

definition mem_write :: "'a list \<Rightarrow> nat \<Rightarrow> 'a list \<Rightarrow> 'a list option" where
  "mem_write blk pos src =
     (if pos + length src \<le> length blk
      then Some (take pos blk @ src @ drop (pos + length src) blk) else None)"

lemma mem_read_SomeD: "mem_read blk pos n = Some out \<Longrightarrow> length out = n \<and> pos + n \<le> length blk"
  by (auto simp: mem_read_def split: if_splits)

lemma mem_write_length: "mem_write blk pos src = Some blk' \<Longrightarrow> length blk' = length blk"
  by (auto simp: mem_write_def split: if_splits)

lemma mem_write_nth:
  "mem_write blk pos src = Some blk' \<Longrightarrow> i < length blk \<Longrightarrow>
   blk' ! i = (if pos \<le> i \<and> i < pos + length src then src ! (i - pos) else blk ! i)"
  by (auto simp: mem_write_def nth_append split: if_splits)

text \<open>The elements of a block at ring positions \<open>lo\<close>, \<open>lo + 1\<close>, \dots, \<open>lo + n - 1\<close>.\<close>

definition ring_slice :: "'a list \<Rightarrow> nat \<Rightarrow> nat \<Rightarrow> 'a list" where
  "ring_slice blk lo n = map (\<lambda>i. blk ! ((lo + i) mod length blk)) [0..<n]"

lemma ring_slice_0 [simp]: "ring_slice blk lo 0 = []"
  by (simp add: ring_slice_def)

lemma length_ring_slice [simp]: "length (ring_slice blk lo n) = n"
  by (simp add: ring_slice_def)

lemma nth_ring_slice [ring_simps]:
  "i < n \<Longrightarrow> ring_slice blk lo n ! i = blk ! ((lo + i) mod length blk)"
  by (simp add: ring_slice_def)

lemma ring_slice_Suc:
  "ring_slice blk lo (Suc n) = ring_slice blk lo n @ [blk ! ((lo + n) mod length blk)]"
  by (simp add: ring_slice_def)

lemma ring_slice_Cons:
  "0 < n \<Longrightarrow> ring_slice blk lo n = blk ! (lo mod length blk) # ring_slice blk (Suc lo) (n - 1)"
  by (rule nth_equalityI) (auto simp: ring_slice_def nth_Cons split: nat.splits)

lemma take_ring_slice [ring_simps]: "m \<le> n \<Longrightarrow> take m (ring_slice blk lo n) = ring_slice blk lo m"
  by (simp add: ring_slice_def take_map)

lemma drop_ring_slice [ring_simps]:
  "m \<le> n \<Longrightarrow> drop m (ring_slice blk lo n) = ring_slice blk (lo + m) (n - m)"
  by (rule nth_equalityI) (auto simp: ring_slice_def add.assoc)

lemma ring_slice_mod: "ring_slice blk (lo mod length blk) n = ring_slice blk lo n"
  by (simp add: ring_slice_def mod_simps)

lemma ring_slice_append:
  "ring_slice blk lo (m + n) = ring_slice blk lo m @ ring_slice blk (lo + m) n"
  by (rule nth_equalityI) (auto simp: ring_slice_def nth_append add.assoc)

text \<open>Two ring positions less than a block length apart are different cells.\<close>

lemma ring_index_neq:
  assumes "i < j" and "j < i + (n::nat)"
  shows "i mod n \<noteq> j mod n"
proof
  assume "i mod n = j mod n"
  then have "(j - i) mod n = 0" using assms(1)
    by (metis less_imp_le mod_eq_dvd_iff_nat mod_0_imp_dvd dvd_imp_mod_0)
  moreover from assms have "j - i < n" and "0 < j - i" by auto
  ultimately show False by simp
qed

lemma ring_slice_update_outside:
  assumes "k < lo + length blk" and "lo + n \<le> k"
  shows "ring_slice (blk[k mod length blk := x]) lo n = ring_slice blk lo n"
proof (rule nth_equalityI)
  show "length (ring_slice (blk[k mod length blk := x]) lo n) = length (ring_slice blk lo n)"
    by simp
next
  fix i assume "i < length (ring_slice (blk[k mod length blk := x]) lo n)"
  then have i: "i < n" by simp
  have "(lo + i) mod length blk \<noteq> k mod length blk"
    using assms i by (intro ring_index_neq) auto
  with i show "ring_slice (blk[k mod length blk := x]) lo n ! i = ring_slice blk lo n ! i"
    by (simp add: ring_simps)
qed

section \<open>Searching a list\<close>

lemma find_append:
  "List.find P (xs @ ys) = (case List.find P xs of None \<Rightarrow> List.find P ys | Some x \<Rightarrow> Some x)"
  by (induction xs) auto

lemma find_SomeD: "List.find P xs = Some x \<Longrightarrow> x \<in> set xs \<and> P x"
  by (induction xs) (auto split: if_splits)

lemma find_unique:
  assumes "x \<in> set xs" and "P x" and "\<And>y. y \<in> set xs \<Longrightarrow> P y \<Longrightarrow> y = x"
  shows "List.find P xs = Some x"
proof (cases "List.find P xs")
  case None
  with assms(1,2) show ?thesis by (simp add: find_None_iff)
next
  case (Some y)
  with find_SomeD [OF this] assms(3) [of y] show ?thesis by simp
qed

section \<open>Interface: a component driven by events that keeps an invariant\<close>

locale stepped_component =
  fixes step :: "'e \<Rightarrow> 's \<Rightarrow> 's"
    and inv :: "'s \<Rightarrow> bool"
  assumes step_inv: "inv s \<Longrightarrow> inv (step e s)"
begin

lemma run_inv: "inv s \<Longrightarrow> inv (fold step es s)"
  by (induction es arbitrary: s) (auto intro: step_inv)

lemma run_prefix_inv: "inv s \<Longrightarrow> inv (fold step (take k es) s)"
  by (rule run_inv)

end

section \<open>Interface: a system of interleaved steps that keeps an invariant\<close>

locale step_system =
  fixes step :: "'s \<Rightarrow> 's \<Rightarrow> bool"
    and inv :: "'s \<Rightarrow> bool"
  assumes step_keeps: "inv s \<Longrightarrow> step s s' \<Longrightarrow> inv s'"
begin

lemma reach_keeps: "step\<^sup>*\<^sup>* s s' \<Longrightarrow> inv s \<Longrightarrow> inv s'"
  by (induction rule: rtranclp_induct) (auto intro: step_keeps)

end

section \<open>Interface: a byte channel\<close>

text \<open>
  A channel accepts a prefix of the bytes offered and hands bytes out in the order in which it
  accepted them.  Both operations may fault (\<open>None\<close>).
\<close>

datatype 'b chan_op = Put "'b list" | Get nat

locale byte_channel =
  fixes content :: "'s \<Rightarrow> 'b list"
    and valid :: "'s \<Rightarrow> bool"
    and put :: "'b list \<Rightarrow> 's \<Rightarrow> (nat \<times> 's) option"
    and get :: "nat \<Rightarrow> 's \<Rightarrow> ('b list \<times> 's) option"
  assumes put_content:
      "valid s \<Longrightarrow> put bs s = Some (n, s') \<Longrightarrow>
       valid s' \<and> n \<le> length bs \<and> content s' = content s @ take n bs"
    and get_content:
      "valid s \<Longrightarrow> get k s = Some (bs, s') \<Longrightarrow>
       valid s' \<and> length bs \<le> k \<and> content s = bs @ content s'"
begin

text \<open>A run returns what was accepted, what was delivered, and the final state.\<close>

primrec chan_run :: "'b chan_op list \<Rightarrow> 's \<Rightarrow> ('b list \<times> 'b list \<times> 's) option" where
  "chan_run [] s = Some ([], [], s)"
| "chan_run (x # xs) s =
     (case x of
        Put bs \<Rightarrow> (case put bs s of None \<Rightarrow> None
          | Some (n, s') \<Rightarrow> (case chan_run xs s' of None \<Rightarrow> None
              | Some (acc, del, s'') \<Rightarrow> Some (take n bs @ acc, del, s'')))
      | Get k \<Rightarrow> (case get k s of None \<Rightarrow> None
          | Some (bs, s') \<Rightarrow> (case chan_run xs s' of None \<Rightarrow> None
              | Some (acc, del, s'') \<Rightarrow> Some (acc, bs @ del, s''))))"

lemma chan_run_fifo:
  "valid s \<Longrightarrow> chan_run xs s = Some (acc, del, s') \<Longrightarrow>
   valid s' \<and> content s @ acc = del @ content s'"
proof (induction xs arbitrary: s acc del)
  case Nil
  then show ?case by simp
next
  case (Cons x xs)
  show ?case
  proof (cases x)
    case (Put bs)
    with Cons.prems obtain n s1 acc1 where
      p: "put bs s = Some (n, s1)" and r: "chan_run xs s1 = Some (acc1, del, s')"
      and acc: "acc = take n bs @ acc1"
      by (auto split: option.splits)
    from put_content [OF Cons.prems(1) p] Cons.IH [OF _ r] acc show ?thesis by simp
  next
    case (Get k)
    with Cons.prems obtain bs s1 del1 where
      g: "get k s = Some (bs, s1)" and r: "chan_run xs s1 = Some (acc, del1, s')"
      and del: "del = bs @ del1"
      by (auto split: option.splits)
    from get_content [OF Cons.prems(1) g] Cons.IH [OF _ r] del show ?thesis by simp
  qed
qed

end

section \<open>Interface: an allocator of numbered units\<close>

text \<open>
  \<open>alloc n s\<close> gives the first unit of a block of \<open>n\<close> units, \<open>release a n s\<close> takes
  the block back; \<open>avail s\<close> is the set of units not handed out.
\<close>

datatype region_op = Alloc nat | Release nat

definition region :: "nat \<times> nat \<Rightarrow> nat set" where
  "region b = {fst b..<fst b + snd b}"

locale region_allocator =
  fixes alloc :: "nat \<Rightarrow> 's \<Rightarrow> (nat \<times> 's) option"
    and release :: "nat \<Rightarrow> nat \<Rightarrow> 's \<Rightarrow> 's option"
    and avail :: "'s \<Rightarrow> nat set"
    and valid :: "'s \<Rightarrow> bool"
  assumes alloc_law: "valid s \<Longrightarrow> alloc n s = Some (a, s') \<Longrightarrow>
      valid s' \<and> region (a, n) \<subseteq> avail s \<and> avail s' = avail s - region (a, n)"
    and release_law: "valid s \<Longrightarrow> region (a, n) \<inter> avail s = {} \<Longrightarrow> release a n s = Some s' \<Longrightarrow>
      valid s' \<and> avail s' = avail s \<union> region (a, n)"
begin

text \<open>A client allocates, and releases the \<open>i\<close>-th of the blocks it owns.\<close>

fun region_run :: "region_op list \<Rightarrow> (nat \<times> nat) list \<Rightarrow> 's \<Rightarrow> ((nat \<times> nat) list \<times> 's) option" where
  "region_run [] owned s = Some (owned, s)"
| "region_run (Alloc n # xs) owned s =
     (case alloc n s of None \<Rightarrow> None | Some (a, s') \<Rightarrow> region_run xs ((a, n) # owned) s')"
| "region_run (Release i # xs) owned s =
     (if i < length owned
      then case release (fst (owned ! i)) (snd (owned ! i)) s of None \<Rightarrow> None
         | Some s' \<Rightarrow> region_run xs (take i owned @ drop (Suc i) owned) s'
      else None)"

definition apart :: "(nat \<times> nat) list \<Rightarrow> 's \<Rightarrow> bool" where
  "apart owned s \<longleftrightarrow> (\<forall>b \<in> set owned. region b \<inter> avail s = {})
     \<and> sorted_wrt (\<lambda>b b'. region b \<inter> region b' = {}) owned"

text \<open>No unit is owned twice or both owned and available, and none is lost.\<close>

lemma region_run_apart:
  "valid s \<Longrightarrow> apart owned s \<Longrightarrow> region_run xs owned s = Some (owned', s') \<Longrightarrow>
   valid s' \<and> apart owned' s' \<and>
   avail s' \<union> \<Union> (region ` set owned') = avail s \<union> \<Union> (region ` set owned)"
proof (induction xs owned s rule: region_run.induct)
  case (1 owned s)
  then show ?case by simp
next
  case (2 n xs owned s)
  then obtain a t where a: "alloc n s = Some (a, t)" and r: "region_run xs ((a, n) # owned) t = Some (owned', s')"
    by (auto split: option.splits)
  from alloc_law [OF 2(2) a] have l: "valid t" "region (a, n) \<subseteq> avail s" "avail t = avail s - region (a, n)"
    by auto
  have "apart ((a, n) # owned) t" using 2(3) l by (auto simp: apart_def)
  with 2(1) [OF a refl l(1) _ r] l show ?case by auto
next
  case (3 i xs owned s)
  let ?rest = "take i owned @ drop (Suc i) owned"
  from 3 obtain t where i: "i < length owned" and t: "release (fst (owned ! i)) (snd (owned ! i)) s = Some t"
    and r: "region_run xs ?rest t = Some (owned', s')" by (auto split: if_splits option.splits)
  have own: "owned = take i owned @ owned ! i # drop (Suc i) owned" using i by (simp add: id_take_nth_drop)
  have "region (owned ! i) \<inter> avail s = {}" using 3(3) i by (simp add: apart_def)
  with release_law [OF 3(2) _ t] have l: "valid t" "avail t = avail s \<union> region (owned ! i)" by simp_all
  have "sorted_wrt (\<lambda>b b'. region b \<inter> region b' = {}) (take i owned @ owned ! i # drop (Suc i) owned)"
    using 3(3) own by (simp add: apart_def)
  then have s: "sorted_wrt (\<lambda>b b'. region b \<inter> region b' = {}) ?rest"
    "\<forall>b \<in> set ?rest. region b \<inter> region (owned ! i) = {}"
    by (auto simp: sorted_wrt_append)
  have sub: "set owned = insert (owned ! i) (set ?rest)" using arg_cong [OF own, of set] by simp
  then have "apart ?rest t" using 3(3) s l(2) by (auto simp: apart_def)
  with 3(1) [OF i t l(1) _ r] l(2) show ?case unfolding sub by auto
qed

end

section \<open>Interface: an allocator of blocks of bytes, called from several CPUs\<close>

datatype block_op = Balloc nat nat | Bfree nat nat

locale block_allocator =
  fixes alloc :: "nat \<Rightarrow> nat \<Rightarrow> 's \<Rightarrow> (nat \<times> 's) option"
    and release :: "nat \<Rightarrow> nat \<Rightarrow> 's \<Rightarrow> 's option"
    and blocks :: "'s \<Rightarrow> (nat \<times> nat) set"
    and valid :: "'s \<Rightarrow> bool"
    and limit :: nat
  assumes alloc_law: "valid s \<Longrightarrow> 0 < n \<Longrightarrow> n \<le> limit \<Longrightarrow> alloc c n s = Some (a, s') \<Longrightarrow>
      valid s' \<and> (\<exists>m \<ge> n. (a, m) \<notin> blocks s \<and> blocks s' = insert (a, m) (blocks s))"
    and release_law: "valid s \<Longrightarrow> (a, m) \<in> blocks s \<Longrightarrow> release c a s = Some s' \<Longrightarrow>
      valid s' \<and> blocks s' = blocks s - {(a, m)}"
    and blocks_apart: "valid s \<Longrightarrow> x \<in> blocks s \<Longrightarrow> y \<in> blocks s \<Longrightarrow> x \<noteq> y \<Longrightarrow> region x \<inter> region y = {}"
begin

text \<open>Clients on any CPU ask for 1 to \<open>limit\<close> bytes, and free the \<open>i\<close>-th of the blocks they own.\<close>

fun block_run :: "block_op list \<Rightarrow> (nat \<times> nat) list \<Rightarrow> 's \<Rightarrow> ((nat \<times> nat) list \<times> 's) option" where
  "block_run [] owned s = Some (owned, s)"
| "block_run (Balloc c n # xs) owned s =
     (if 0 < n \<and> n \<le> limit
      then case alloc c n s of None \<Rightarrow> None | Some (a, s') \<Rightarrow> block_run xs ((a, n) # owned) s'
      else None)"
| "block_run (Bfree c i # xs) owned s =
     (if i < length owned
      then case release c (fst (owned ! i)) s of None \<Rightarrow> None
         | Some s' \<Rightarrow> block_run xs (take i owned @ drop (Suc i) owned) s'
      else None)"

text \<open>Every block owned lies in a block of the allocator of its own.\<close>

definition backed :: "(nat \<times> nat) list \<Rightarrow> 's \<Rightarrow> bool" where
  "backed owned s \<longleftrightarrow> (\<exists>bs. list_all2 (\<lambda>b w. fst b = fst w \<and> snd w \<le> snd b) bs owned \<and> distinct bs \<and> set bs \<subseteq> blocks s)"

lemma block_run_backed:
  "valid s \<Longrightarrow> backed owned s \<Longrightarrow> block_run xs owned s = Some (owned', s') \<Longrightarrow> valid s' \<and> backed owned' s'"
proof (induction xs owned s rule: block_run.induct)
  case (1 owned s)
  then show ?case by simp
next
  case (2 c n xs owned s)
  then obtain a t where n: "0 < n \<and> n \<le> limit" and a: "alloc c n s = Some (a, t)"
    and r: "block_run xs ((a, n) # owned) t = Some (owned', s')" by (auto split: option.splits if_splits)
  obtain m where l: "valid t" "n \<le> m" "(a, m) \<notin> blocks s" "blocks t = insert (a, m) (blocks s)"
    using alloc_law [OF 2(2) _ _ a] n by blast
  obtain bs where bs: "list_all2 (\<lambda>b w. fst b = fst w \<and> snd w \<le> snd b) bs owned" "distinct bs" "set bs \<subseteq> blocks s"
    using 2(3) by (auto simp: backed_def)
  have "backed ((a, n) # owned) t" unfolding backed_def
    by (rule exI [of _ "(a, m) # bs"]) (use bs l in auto)
  then show ?case by (rule 2(1) [OF n a refl l(1) _ r])
next
  case (3 c i xs owned s)
  let ?rest = "take i owned @ drop (Suc i) owned"
  from 3 obtain t where i: "i < length owned" and t: "release c (fst (owned ! i)) s = Some t"
    and r: "block_run xs ?rest t = Some (owned', s')" by (auto split: if_splits option.splits)
  obtain bs where bs: "list_all2 (\<lambda>b w. fst b = fst w \<and> snd w \<le> snd b) bs owned" "distinct bs" "set bs \<subseteq> blocks s"
    using 3(3) by (auto simp: backed_def)
  have ib: "i < length bs" using i bs(1) by (simp add: list_all2_lengthD)
  have "fst (bs ! i) = fst (owned ! i)" using bs(1) ib by (simp add: list_all2_conv_all_nth)
  moreover have "bs ! i \<in> blocks s" using bs(3) ib by auto
  ultimately have l: "valid t" "blocks t = blocks s - {bs ! i}"
    using release_law [OF 3(2) _ t, of "snd (bs ! i)"] by (metis prod.collapse)+
  have "bs = take i bs @ bs ! i # drop (Suc i) bs" using ib by (simp add: id_take_nth_drop)
  then have "distinct (take i bs @ bs ! i # drop (Suc i) bs)" using bs(2) by simp
  then have d: "distinct (take i bs @ drop (Suc i) bs)" "bs ! i \<notin> set (take i bs @ drop (Suc i) bs)" by auto
  have "set (take i bs @ drop (Suc i) bs) \<subseteq> set bs" using set_take_subset set_drop_subset by (metis le_sup_iff set_append)
  then have "backed ?rest t" unfolding backed_def
    using bs(1,3) d l(2) ib i
    by (intro exI [of _ "take i bs @ drop (Suc i) bs"]) (auto intro!: list_all2_appendI list_all2_takeI list_all2_dropI)
  then show ?case by (rule 3(1) [OF i t l(1) _ r])
qed

text \<open>No byte belongs to two of the blocks owned.\<close>

lemma block_run_apart:
  assumes "valid s" and "block_run xs [] s = Some (owned, s')"
  shows "valid s' \<and> sorted_wrt (\<lambda>b b'. region b \<inter> region b' = {}) owned"
proof -
  have "backed [] s" by (auto simp: backed_def)
  from block_run_backed [OF assms(1) this assms(2)] obtain bs where v: "valid s'" and
    bs: "list_all2 (\<lambda>b w. fst b = fst w \<and> snd w \<le> snd b) bs owned" "distinct bs" "set bs \<subseteq> blocks s'"
    by (auto simp: backed_def)
  have sub: "region (owned ! i) \<subseteq> region (bs ! i)" if "i < length owned" for i
    using bs(1) that by (auto simp: list_all2_conv_all_nth region_def split: prod.splits)
  have "region (owned ! i) \<inter> region (owned ! j) = {}" if "i < j" "j < length owned" for i j
  proof -
    have l: "i < length bs" "j < length bs" using that list_all2_lengthD [OF bs(1)] by simp_all
    then have "bs ! i \<noteq> bs ! j" using bs(2) that by (simp add: nth_eq_iff_index_eq)
    moreover have "bs ! i \<in> blocks s'" "bs ! j \<in> blocks s'" using bs(3) l by auto
    ultimately have "region (bs ! i) \<inter> region (bs ! j) = {}" using blocks_apart [OF v] by blast
    then show ?thesis using sub that by (meson disjoint_iff order.strict_trans subset_iff)
  qed
  then show ?thesis using v by (simp add: sorted_wrt_iff_nth_less)
qed

end

end
