(* ===== verification/Sched.thy ===== *)
theory Sched imports LilacBase begin

text \<open>
  The scheduler, \<open>kernel/kernel/sched.c\<close>: tasks, one run queue per CPU, the state
  changes of a task, the choice of the next task and the clock tick.

  A task is named by its address (\<open>tid\<close>) and stored in \<open>tk\<close>.  A run queue's red-black
  tree is kept as its in-order sequence of tasks (the leftmost node first);
  \<open>rb_add_cached\<close> below is what the tree insertion with \<open>prio_comp\<close> does to that
  sequence while it is sorted; for a tree that is not, see \<open>reorder\<close> below.  Spin locks bracket each operation
  and are left out: one operation is one atomic step; the remote locks that
  \<open>cross_cpu_task\<close> only tries to take are an argument.  A panic (and a failed
  \<open>assert\<close>) is \<open>None\<close>.
\<close>

section \<open>Data\<close>

type_synonym tid = nat

datatype task_state =
  TASK_RUNNING | TASK_SLEEPING | TASK_ZOMBIE | TASK_STOPPED | TASK_UNINTERRUPTIBLE

datatype handler = SIG_DFL | SIG_IGN | Handler u64

record ksigaction =
  sa_handler :: handler
  sa_flags :: u64
  sa_mask :: u64

record task =
  pid :: int
  ppid :: int
  state :: task_state
  need_resched :: bool
  sig_pending :: bool
  signaled :: bool
  interrupted :: bool
  state_change :: bool
  cpu :: nat
  on_rq :: bool
  runtime :: u64
  vruntime :: u64
  exec_started :: u64
  parent :: "tid option"
  children :: "tid list"
  pgid :: int
  sid :: int
  exit_status :: int
  parent_wait :: bool
  waiting_any :: bool
  actions :: "ksigaction list"
  pending :: u64
  blocked :: u64

record rq =
  nr_running :: nat
  curr :: tid
  idle :: tid
  queue :: "tid list"

record sched =
  tk :: "tid \<Rightarrow> task"
  rqs :: "nat \<Rightarrow> rq"
  ncpus :: nat

abbreviation upd_task :: "tid \<Rightarrow> (task \<Rightarrow> task) \<Rightarrow> sched \<Rightarrow> sched" where
  "upd_task p f s \<equiv> s\<lparr>tk := (tk s)(p := f (tk s p))\<rparr>"

abbreviation upd_rq :: "nat \<Rightarrow> (rq \<Rightarrow> rq) \<Rightarrow> sched \<Rightarrow> sched" where
  "upd_rq c f s \<equiv> s\<lparr>rqs := (rqs s)(c := f (rqs s c))\<rparr>"

section \<open>The run queue\<close>

definition get_current_task :: "nat \<Rightarrow> sched \<Rightarrow> tid" where
  "get_current_task c s = curr (rqs s c)"

definition find_child_by_pid :: "sched \<Rightarrow> tid \<Rightarrow> int \<Rightarrow> tid option" where
  "find_child_by_pid s par pd = List.find (\<lambda>p. pid (tk s p) = pd) (children (tk s par))"

definition prio_comp :: "sched \<Rightarrow> tid \<Rightarrow> tid \<Rightarrow> bool" where
  "prio_comp s a b \<longleftrightarrow> vruntime (tk s a) < vruntime (tk s b)"

primrec rb_add_cached :: "('a \<Rightarrow> 'a \<Rightarrow> bool) \<Rightarrow> 'a \<Rightarrow> 'a list \<Rightarrow> 'a list" where
  "rb_add_cached lt x [] = [x]"
| "rb_add_cached lt x (y # ys) = (if lt x y then x # y # ys else y # rb_add_cached lt x ys)"

definition rb_first_cached :: "'a list \<Rightarrow> 'a option" where
  "rb_first_cached q = (case q of [] \<Rightarrow> None | p # _ \<Rightarrow> Some p)"

definition rq_del_locked :: "nat \<Rightarrow> tid \<Rightarrow> sched \<Rightarrow> sched option" where
  "rq_del_locked c p s =
     (if \<not> on_rq (tk s p) then None
      else Some (upd_task p (on_rq_update (\<lambda>_. False))
             (upd_rq c (\<lambda>r. r\<lparr>queue := remove1 p (queue r), nr_running := u32_sub (nr_running r) 1\<rparr>) s)))"

definition rq_del :: "tid \<Rightarrow> sched \<Rightarrow> sched option" where
  "rq_del p s = rq_del_locked (cpu (tk s p)) p s"

definition rq_add_locked :: "nat \<Rightarrow> tid \<Rightarrow> sched \<Rightarrow> sched option" where
  "rq_add_locked c p s =
     (if on_rq (tk s p) then None
      else Some (upd_task p (on_rq_update (\<lambda>_. True))
             (upd_rq c (\<lambda>r. r\<lparr>queue := rb_add_cached (prio_comp s) p (queue r),
                             nr_running := u32_add (nr_running r) 1\<rparr>) s)))"

definition rq_add :: "tid \<Rightarrow> sched \<Rightarrow> sched option" where
  "rq_add p s = rq_add_locked (cpu (tk s p)) p s"

section \<open>State changes of a task\<close>

definition set_task_running :: "tid \<Rightarrow> sched \<Rightarrow> sched option" where
  "set_task_running p s =
     (if state (tk s p) = TASK_ZOMBIE then None
      else if state (tk s p) \<noteq> TASK_RUNNING then
        (let s1 = upd_task p (state_update (\<lambda>_. TASK_RUNNING)) s; c = cpu (tk s p) in
         if \<not> on_rq (tk s1 p) \<and> p \<noteq> curr (rqs s1 c) then rq_add_locked c p s1 else Some s1)
      else Some s)"

definition set_task_stopped :: "tid \<Rightarrow> sched \<Rightarrow> sched option" where
  "set_task_stopped p s =
     (case (if on_rq (tk s p) then rq_del_locked (cpu (tk s p)) p s else Some s) of
        None \<Rightarrow> None
      | Some s1 \<Rightarrow> Some (upd_task p (\<lambda>t. t\<lparr>state := TASK_STOPPED, state_change := True\<rparr>) s1))"

definition set_task_sleeping :: "tid \<Rightarrow> sched \<Rightarrow> sched option" where
  "set_task_sleeping p s =
     (if state (tk s p) = TASK_RUNNING then
        (case (if on_rq (tk s p) then rq_del_locked (cpu (tk s p)) p s else Some s) of
           None \<Rightarrow> None
         | Some s1 \<Rightarrow> Some (upd_task p (state_update (\<lambda>_. TASK_SLEEPING)) s1))
      else Some s)"

definition set_task_uninterruptible :: "tid \<Rightarrow> sched \<Rightarrow> sched option" where
  "set_task_uninterruptible p s =
     (if state (tk s p) = TASK_RUNNING then
        (case (if on_rq (tk s p) then rq_del_locked (cpu (tk s p)) p s else Some s) of
           None \<Rightarrow> None
         | Some s1 \<Rightarrow> Some (upd_task p (state_update (\<lambda>_. TASK_UNINTERRUPTIBLE)) s1))
      else Some s)"

definition set_current_state :: "nat \<Rightarrow> task_state \<Rightarrow> sched \<Rightarrow> sched option" where
  "set_current_state c st s =
     (let p = get_current_task c s in
      case st of
        TASK_RUNNING \<Rightarrow> set_task_running p s
      | TASK_SLEEPING \<Rightarrow> set_task_sleeping p s
      | TASK_UNINTERRUPTIBLE \<Rightarrow> set_task_uninterruptible p s
      | TASK_ZOMBIE \<Rightarrow>
          (let s1 = upd_task p (\<lambda>t. t\<lparr>state := TASK_ZOMBIE, state_change := True\<rparr>) s in
           if on_rq (tk s1 p) then rq_del p s1 else Some s1)
      | TASK_STOPPED \<Rightarrow> Some s)"

definition MIN_GRANULARITY :: u64 where
  "MIN_GRANULARITY = 2"

definition schedule_task :: "nat \<Rightarrow> tid \<Rightarrow> sched \<Rightarrow> sched option" where
  "schedule_task c p s =
     rq_add p (upd_task p (\<lambda>t. t\<lparr>state := TASK_RUNNING,
        vruntime := vruntime (tk s (get_current_task c s)) + MIN_GRANULARITY\<rparr>) s)"

section \<open>Choosing the next task\<close>

text \<open>
  \<open>busy c\<close>: the lock of CPU \<open>c\<close>'s queue is held by another CPU at the time of the
  attempt.  The result is \<open>None\<close> for the panic, else the migrated task, if any, and the
  state.  The loop runs over the CPUs not visited yet.
\<close>

fun cross_cpu_loop :: "(nat \<Rightarrow> bool) \<Rightarrow> nat \<Rightarrow> nat list \<Rightarrow> sched \<Rightarrow> (tid option \<times> sched) option" where
  "cross_cpu_loop busy this [] s = Some (None, s)"
| "cross_cpu_loop busy this (c # cs) s =
     (if c = this then cross_cpu_loop busy this cs s
      else if busy c then cross_cpu_loop busy this cs s
      else if nr_running (rqs s c) > 1 then
        (case rb_first_cached (queue (rqs s c)) of
           None \<Rightarrow> cross_cpu_loop busy this cs s
         | Some p \<Rightarrow>
             if p = curr (rqs s c) \<or> p = idle (rqs s c) then None
             else (case rq_del_locked c p s of
                 None \<Rightarrow> None
               | Some s1 \<Rightarrow> Some (Some p, upd_task p (cpu_update (\<lambda>_. this)) s1)))
      else cross_cpu_loop busy this cs s)"

definition cross_cpu_task :: "(nat \<Rightarrow> bool) \<Rightarrow> nat \<Rightarrow> sched \<Rightarrow> (tid option \<times> sched) option" where
  "cross_cpu_task busy this s = cross_cpu_loop busy this [0..<ncpus s] s"

text \<open>
  \<open>schedule\<close> up to the context switch: the task chosen and the state, in which it is
  \<open>curr\<close>.  What follows the switch, \<open>schedule_resume\<close>, runs when the switched-out task
  is chosen again.
\<close>

definition schedule_pick :: "(nat \<Rightarrow> bool) \<Rightarrow> nat \<Rightarrow> sched \<Rightarrow> (tid \<times> sched) option" where
  "schedule_pick busy c s =
     (let cur = get_current_task c s in
      case rb_first_cached (queue (rqs s c)) of
        None \<Rightarrow>
          (case cross_cpu_task busy c s of
             None \<Rightarrow> None
           | Some (None, s1) \<Rightarrow>
               Some (if state (tk s1 cur) \<noteq> TASK_RUNNING then idle (rqs s1 c) else cur, s1)
           | Some (Some nxt, s1) \<Rightarrow> Some (nxt, s1))
      | Some nxt \<Rightarrow> map_option (\<lambda>s1. (nxt, s1)) (rq_del_locked c nxt s))"

definition schedule :: "(nat \<Rightarrow> bool) \<Rightarrow> nat \<Rightarrow> sched \<Rightarrow> (tid \<times> sched) option" where
  "schedule busy c s =
     (let cur = get_current_task c s in
      case schedule_pick busy c s of
        None \<Rightarrow> None
      | Some (nxt, s1) \<Rightarrow>
          (case (if state (tk s1 cur) = TASK_RUNNING \<and> cur \<noteq> idle (rqs s1 c) \<and> \<not> on_rq (tk s1 cur)
                 then rq_add_locked c cur s1 else Some s1) of
             None \<Rightarrow> None
           | Some s2 \<Rightarrow> Some (nxt, if nxt \<noteq> cur then upd_rq c (curr_update (\<lambda>_. nxt)) s2 else s2)))"

definition schedule_resume :: "u64 \<Rightarrow> tid \<Rightarrow> sched \<Rightarrow> sched" where
  "schedule_resume ticks p s = upd_task p (exec_started_update (\<lambda>_. ticks)) s"

text \<open>
  The clock tick.  \<open>enabled\<close> is \<open>sched_timer != -1\<close>, \<open>now\<close> what \<open>read_ticks\<close>
  returns and \<open>to_ns\<close> the conversion of the clock source.
\<close>

definition tick_account :: "u64 \<Rightarrow> (u64 \<Rightarrow> u64) \<Rightarrow> tid \<Rightarrow> sched \<Rightarrow> sched" where
  "tick_account now to_ns cur s =
     (let delta = now - exec_started (tk s cur) in
      if state (tk s cur) = TASK_RUNNING \<and> delta \<noteq> 0
      then upd_task cur (\<lambda>t. t\<lparr>exec_started := now, runtime := runtime t + to_ns delta,
                               vruntime := vruntime t + delta\<rparr>) s
      else s)"

definition sched_tick :: "bool \<Rightarrow> u64 \<Rightarrow> (u64 \<Rightarrow> u64) \<Rightarrow> nat \<Rightarrow> sched \<Rightarrow> sched" where
  "sched_tick enabled now to_ns c s =
     (if \<not> enabled then s else
      let cur = get_current_task c s; s1 = tick_account now to_ns cur s in
      case rb_first_cached (queue (rqs s1 c)) of
        None \<Rightarrow> s1
      | Some leftmost \<Rightarrow>
          if leftmost \<noteq> cur \<and>
             sint (vruntime (tk s1 cur) - vruntime (tk s1 leftmost)) > sint MIN_GRANULARITY
          then upd_task cur (need_resched_update (\<lambda>_. True)) s1 else s1)"

section \<open>The run-queue invariant\<close>

text \<open>
  Two parts of the invariant do not survive every operation, so they are switched by a flag:
  \<open>srt\<close>, that the queue is sorted by virtual runtime, and \<open>run\<close>, that the queued tasks
  are \<open>TASK_RUNNING\<close>.  The other components need the second only, \<open>sched_inv\<close>.
\<close>

definition queue_ok :: "bool \<Rightarrow> bool \<Rightarrow> (tid \<Rightarrow> task) \<Rightarrow> nat \<Rightarrow> rq \<Rightarrow> bool" where
  "queue_ok srt run t c r \<longleftrightarrow>
     distinct (queue r) \<and> (srt \<longrightarrow> sorted (map (\<lambda>p. vruntime (t p)) (queue r))) \<and>
     nr_running r = length (queue r) mod 4294967296 \<and>
     (\<forall>p \<in> set (queue r). on_rq (t p) \<and> cpu (t p) = c \<and> (run \<longrightarrow> state (t p) = TASK_RUNNING))"

definition sched_inv_at :: "bool \<Rightarrow> bool \<Rightarrow> sched \<Rightarrow> bool" where
  "sched_inv_at srt run s \<longleftrightarrow>
     (\<forall>c. queue_ok srt run (tk s) c (rqs s c)) \<and>
     (\<forall>p. on_rq (tk s p) \<longrightarrow> p \<in> set (queue (rqs s (cpu (tk s p))))) \<and>
     (\<forall>c. curr (rqs s c) \<noteq> idle (rqs s c) \<longrightarrow> cpu (tk s (curr (rqs s c))) = c)"

abbreviation sched_inv :: "sched \<Rightarrow> bool" where
  "sched_inv \<equiv> sched_inv_at False True"

lemma set_rb_add_cached [simp]: "set (rb_add_cached lt x ys) = insert x (set ys)"
  by (induction ys) auto

lemma length_rb_add_cached [simp]: "length (rb_add_cached lt x ys) = Suc (length ys)"
  by (induction ys) auto

lemma distinct_rb_add_cached [simp]:
  "distinct (rb_add_cached lt x ys) \<longleftrightarrow> x \<notin> set ys \<and> distinct ys"
  by (induction ys) auto

lemma sorted_rb_add_cached:
  "sorted (map f ys) \<Longrightarrow> sorted (map f (rb_add_cached (\<lambda>a b. f a < (f b :: _ :: linorder)) x ys))"
  by (induction ys) auto

lemma sorted_map_remove1_key: "sorted (map f ys) \<Longrightarrow> sorted (map f (remove1 x ys))"
proof (induction ys)
  case (Cons y ys)
  then show ?case using set_remove1_subset [of x ys] by auto
qed simp

lemma u32_add_Suc_mod: "u32_add (n mod 4294967296) 1 = Suc n mod 4294967296"
  by (simp add: u32_add_def mod_simps)

lemma u32_sub_pred_mod:
  assumes "0 < n" shows "u32_sub (n mod 4294967296) 1 = (n - 1) mod 4294967296"
proof -
  have "u32_sub (n mod 4294967296) 1 = (n + 4294967295) mod 4294967296"
    by (simp add: u32_sub_def mod_simps)
  also have "n + 4294967295 = (n - 1) + 4294967296" using assms by simp
  also have "\<dots> mod 4294967296 = (n - 1) mod 4294967296" by (simp only: mod_add_self2)
  finally show ?thesis .
qed

lemma queue_ok_cong:
  "queue_ok srt run t c r \<Longrightarrow> (\<And>p. p \<in> set (queue r) \<Longrightarrow> t' p = t p) \<Longrightarrow> queue_ok srt run t' c r"
  unfolding queue_ok_def by (metis (mono_tags, lifting) map_eq_conv)

lemma queue_ok_remove:
  assumes "queue_ok srt run t c r" and "p \<in> set (queue r)"
  shows "queue_ok srt run t c (r\<lparr>queue := remove1 p (queue r), nr_running := u32_sub (nr_running r) 1\<rparr>)"
proof -
  from assms(2) have "0 < length (queue r)" by (cases "queue r") auto
  with assms show ?thesis
    by (simp add: queue_ok_def u32_sub_pred_mod [simplified] sorted_map_remove1_key length_remove1
        distinct_remove1 set_remove1_eq)
qed

lemma queue_ok_insert:
  assumes "queue_ok srt run t c r" and "p \<notin> set (queue r)"
    and "on_rq (t p)" and "cpu (t p) = c" and "state (t p) = TASK_RUNNING"
    and lt: "\<And>a b. lt a b \<longleftrightarrow> vruntime (t a) < vruntime (t b)"
  shows "queue_ok srt run t c (r\<lparr>queue := rb_add_cached lt p (queue r), nr_running := u32_add (nr_running r) 1\<rparr>)"
proof -
  from lt have "lt = (\<lambda>a b. vruntime (t a) < vruntime (t b))" by (intro ext) auto
  with assms show ?thesis
    using sorted_rb_add_cached [of "\<lambda>p. vruntime (t p)" "queue r" p]
    by (simp add: queue_ok_def u32_add_Suc_mod [simplified])
qed

lemma sched_invD:
  assumes "sched_inv_at srt run s"
  shows "queue_ok srt run (tk s) c (rqs s c)"
    and "on_rq (tk s p) \<Longrightarrow> p \<in> set (queue (rqs s (cpu (tk s p))))"
    and "curr (rqs s c) \<noteq> idle (rqs s c) \<Longrightarrow> cpu (tk s (curr (rqs s c))) = c"
  using assms by (auto simp: sched_inv_at_def)

lemma queued_iff_on_rq:
  assumes "sched_inv_at srt run s"
  shows "p \<in> set (queue (rqs s c)) \<longleftrightarrow> on_rq (tk s p) \<and> cpu (tk s p) = c"
  using sched_invD(1,2) [OF assms] by (auto simp: queue_ok_def)

lemma on_rq_running:
  assumes "sched_inv_at srt True s" and "on_rq (tk s p)"
  shows "state (tk s p) = TASK_RUNNING"
  using sched_invD(1) [OF assms(1), of "cpu (tk s p)"] sched_invD(2) [OF assms]
  unfolding queue_ok_def by blast

text \<open>
  A task that is not queued may change in any way that keeps it off the queue and, where it is
  the current task of a CPU, on its CPU.
\<close>

lemma upd_unqueued_inv:
  assumes inv: "sched_inv_at srt run s" and off: "\<not> on_rq (tk s p)" and f: "\<not> on_rq (f (tk s p))"
    and c: "cpu (f (tk s p)) = cpu (tk s p) \<or> (\<forall>c. curr (rqs s c) = p \<longrightarrow> idle (rqs s c) = p)"
  shows "sched_inv_at srt run (upd_task p f s)"
proof -
  have "p \<notin> set (queue (rqs s c))" for c using queued_iff_on_rq [OF inv] off by blast
  then have q: "queue_ok srt run ((tk s)(p := f (tk s p))) c (rqs s c)" for c
    by (intro queue_ok_cong [OF sched_invD(1) [OF inv]]) auto
  from sched_invD(2,3) [OF inv] f c q show ?thesis by (auto simp: sched_inv_at_def)
qed

text \<open>
  A queued task may change as long as it stays queued and keeps what the flags ask for.
\<close>

lemma upd_queued_inv:
  assumes inv: "sched_inv_at srt run s" and f: "on_rq (f (tk s p)) = on_rq (tk s p)" "cpu (f (tk s p)) = cpu (tk s p)"
    and v: "srt \<Longrightarrow> vruntime (f (tk s p)) = vruntime (tk s p)"
    and r: "run \<Longrightarrow> state (f (tk s p)) = state (tk s p)"
  shows "sched_inv_at srt run (upd_task p f s)"
proof -
  have "queue_ok srt run ((tk s)(p := f (tk s p))) c (rqs s c)" for c
  proof -
    have "(\<lambda>x. vruntime (((tk s)(p := f (tk s p))) x)) = (\<lambda>x. vruntime (tk s x))" if srt
      using v [OF that] by (intro ext) simp
    then have "srt \<longrightarrow> sorted (map (\<lambda>x. vruntime (((tk s)(p := f (tk s p))) x)) (queue (rqs s c)))"
      using sched_invD(1) [OF inv, of c] by (simp add: queue_ok_def)
    with sched_invD(1) [OF inv, of c] f r show ?thesis unfolding queue_ok_def by auto
  qed
  with sched_invD(2,3) [OF inv] f show ?thesis by (auto simp: sched_inv_at_def)
qed

lemma rq_del_locked_inv:
  assumes inv: "sched_inv_at srt run s" and c: "cpu (tk s p) = c" and d: "rq_del_locked c p s = Some s'"
  shows "sched_inv_at srt run s'"
proof -
  let ?t = "(tk s)(p := (tk s p)\<lparr>on_rq := False\<rparr>)"
  let ?r = "(rqs s c)\<lparr>queue := remove1 p (queue (rqs s c)), nr_running := u32_sub (nr_running (rqs s c)) 1\<rparr>"
  from d have on: "on_rq (tk s p)" and s': "s' = s\<lparr>tk := ?t, rqs := (rqs s)(c := ?r)\<rparr>"
    by (auto simp: rq_del_locked_def split: if_splits)
  have pin: "p \<in> set (queue (rqs s c))" using sched_invD(2) [OF inv on] c by simp
  have dist: "distinct (queue (rqs s c))" using sched_invD(1) [OF inv] by (simp add: queue_ok_def)
  have "queue_ok srt run ?t c ?r"
    by (rule queue_ok_cong [OF queue_ok_remove [OF sched_invD(1) [OF inv] pin]])
      (auto simp: set_remove1_eq [OF dist])
  moreover have "queue_ok srt run ?t d (rqs s d)" if "d \<noteq> c" for d
    using that c queued_iff_on_rq [OF inv, of p d]
    by (intro queue_ok_cong [OF sched_invD(1) [OF inv]]) auto
  ultimately have q: "queue_ok srt run (tk s') d (rqs s' d)" for d by (simp add: s')
  moreover have "x \<in> set (queue (rqs s' (cpu (tk s' x))))" if "on_rq (tk s' x)" for x
    using that sched_invD(2) [OF inv, of x] by (auto simp: s' split: if_splits)
  moreover have "cpu (tk s' (curr (rqs s' d))) = d" if "curr (rqs s' d) \<noteq> idle (rqs s' d)" for d
    using that sched_invD(3) [OF inv, of d] by (auto simp: s' split: if_splits)
  ultimately show ?thesis by (simp add: sched_inv_at_def)
qed

lemma rq_add_locked_inv:
  assumes inv: "sched_inv_at srt run s" and c: "cpu (tk s p) = c" and r: "state (tk s p) = TASK_RUNNING"
    and d: "rq_add_locked c p s = Some s'"
  shows "sched_inv_at srt run s'"
proof -
  let ?t = "(tk s)(p := (tk s p)\<lparr>on_rq := True\<rparr>)"
  let ?r = "(rqs s c)\<lparr>queue := rb_add_cached (prio_comp s) p (queue (rqs s c)),
                      nr_running := u32_add (nr_running (rqs s c)) 1\<rparr>"
  from d have off: "\<not> on_rq (tk s p)" and s': "s' = s\<lparr>tk := ?t, rqs := (rqs s)(c := ?r)\<rparr>"
    by (auto simp: rq_add_locked_def split: if_splits)
  have out: "p \<notin> set (queue (rqs s e))" for e using queued_iff_on_rq [OF inv] off by blast
  have old: "queue_ok srt run ?t e (rqs s e)" for e
    using out by (intro queue_ok_cong [OF sched_invD(1) [OF inv]]) auto
  have "queue_ok srt run ?t c ?r"
    by (rule queue_ok_insert [OF old]) (use out c r in \<open>auto simp: prio_comp_def\<close>)
  with old have q: "queue_ok srt run (tk s') d (rqs s' d)" for d by (simp add: s')
  moreover have "x \<in> set (queue (rqs s' (cpu (tk s' x))))" if "on_rq (tk s' x)" for x
    using that c sched_invD(2) [OF inv, of x] by (auto simp: s' split: if_splits)
  moreover have "cpu (tk s' (curr (rqs s' d))) = d" if "curr (rqs s' d) \<noteq> idle (rqs s' d)" for d
    using that sched_invD(3) [OF inv, of d] by (auto simp: s' split: if_splits)
  ultimately show ?thesis by (simp add: sched_inv_at_def)
qed

subsection \<open>Every operation keeps the invariant\<close>

lemma rq_del_locked_frame:
  "rq_del_locked c p s = Some s' \<Longrightarrow>
   tk s' = (tk s)(p := (tk s p)\<lparr>on_rq := False\<rparr>) \<and> curr (rqs s' d) = curr (rqs s d) \<and>
   idle (rqs s' d) = idle (rqs s d) \<and> ncpus s' = ncpus s"
  by (auto simp: rq_del_locked_def split: if_splits)

lemma rq_add_locked_frame:
  "rq_add_locked c p s = Some s' \<Longrightarrow>
   tk s' = (tk s)(p := (tk s p)\<lparr>on_rq := True\<rparr>) \<and> curr (rqs s' d) = curr (rqs s d) \<and>
   idle (rqs s' d) = idle (rqs s d) \<and> ncpus s' = ncpus s"
  by (auto simp: rq_add_locked_def split: if_splits)

lemma dequeue_then_update_inv:
  assumes inv: "sched_inv_at srt run s"
    and d: "(if on_rq (tk s p) then rq_del_locked (cpu (tk s p)) p s else Some s) = Some s1"
    and f: "\<And>t. on_rq (f t) = on_rq t \<and> cpu (f t) = cpu t"
  shows "sched_inv_at srt run (upd_task p f s1)"
proof -
  have i1: "sched_inv_at srt run s1" and off: "\<not> on_rq (tk s1 p)"
    using d inv rq_del_locked_inv [OF inv refl, of p s1] rq_del_locked_frame [of _ p s s1]
    by (auto split: if_splits)
  show ?thesis by (rule upd_unqueued_inv [OF i1 off]) (use f off in auto)
qed

lemma set_task_running_inv:
  assumes inv: "sched_inv_at srt run s" and r: "set_task_running p s = Some s'"
  shows "sched_inv_at srt run s'"
proof (cases "state (tk s p) = TASK_RUNNING \<or> state (tk s p) = TASK_ZOMBIE \<or> on_rq (tk s p)")
  case True
  have "sched_inv_at srt run (upd_task p (state_update (\<lambda>_. TASK_RUNNING)) s)" if "on_rq (tk s p)"
  proof -
    have "state (tk s p) = TASK_RUNNING" if run
      using that on_rq_running [of srt s p] inv \<open>on_rq (tk s p)\<close> by simp
    then show ?thesis by (intro upd_queued_inv [OF inv]) simp_all
  qed
  with True inv r show ?thesis by (auto simp: set_task_running_def Let_def split: if_splits)
next
  case False
  let ?s1 = "upd_task p (state_update (\<lambda>_. TASK_RUNNING)) s"
  have off: "\<not> on_rq (tk s p)" using False by simp
  have i1: "sched_inv_at srt run ?s1" by (rule upd_unqueued_inv [OF inv off]) (use off in auto)
  show ?thesis
  proof (cases "p \<noteq> curr (rqs s (cpu (tk s p)))")
    case True
    with False off r have "rq_add_locked (cpu (tk s p)) p ?s1 = Some s'"
      by (simp add: set_task_running_def Let_def)
    then show ?thesis by (rule rq_add_locked_inv [OF i1, rotated 2]) simp_all
  next
    case not_added: False
    with False off r i1 show ?thesis by (auto simp: set_task_running_def Let_def)
  qed
qed

lemma set_task_off_inv:
  assumes "sched_inv_at srt run s"
  shows "set_task_sleeping p s = Some s' \<Longrightarrow> sched_inv_at srt run s'"
    and "set_task_uninterruptible p s = Some s' \<Longrightarrow> sched_inv_at srt run s'"
    and "set_task_stopped p s = Some s' \<Longrightarrow> sched_inv_at srt run s'"
  using dequeue_then_update_inv [OF assms, of p _ "state_update (\<lambda>_. TASK_SLEEPING)"]
    dequeue_then_update_inv [OF assms, of p _ "state_update (\<lambda>_. TASK_UNINTERRUPTIBLE)"]
    dequeue_then_update_inv [OF assms, of p _ "\<lambda>t. t\<lparr>state := TASK_STOPPED, state_change := True\<rparr>"] assms
  by (auto simp: set_task_sleeping_def set_task_uninterruptible_def set_task_stopped_def
      split: if_splits option.splits)

lemma set_current_state_inv:
  assumes inv: "sched_inv_at srt run s" and r: "set_current_state c st s = Some s'"
  shows "sched_inv_at srt run s'"
proof (cases "st = TASK_ZOMBIE")
  case True
  let ?p = "curr (rqs s c)" and ?f = "\<lambda>t. t\<lparr>state := TASK_ZOMBIE, state_change := True\<rparr>"
  show ?thesis
  proof (cases "on_rq (tk s ?p)")
    case on: True
    obtain s1 where d: "rq_del_locked (cpu (tk s ?p)) ?p s = Some s1"
      using on by (auto simp: rq_del_locked_def)
    have "s' = upd_task ?p ?f s1" using True on r d
      by (auto simp: set_current_state_def Let_def get_current_task_def rq_del_def rq_del_locked_def
          fun_eq_iff)
    with dequeue_then_update_inv [OF inv, of ?p s1 ?f] d on show ?thesis by simp
  next
    case off: False
    then have "s' = upd_task ?p ?f s" using True r
      by (auto simp: set_current_state_def Let_def get_current_task_def)
    with upd_unqueued_inv [OF inv off, of ?f] off show ?thesis by simp
  qed
next
  case False
  with r set_task_running_inv [OF inv] set_task_off_inv [OF inv] inv show ?thesis
    by (cases st) (auto simp: set_current_state_def Let_def)
qed

lemma cross_cpu_loop_inv:
  "sched_inv_at srt run s \<Longrightarrow> cross_cpu_loop busy this cs s = Some (r, s') \<Longrightarrow>
   sched_inv_at srt run s' \<and> (\<forall>d. curr (rqs s' d) = curr (rqs s d) \<and> idle (rqs s' d) = idle (rqs s d)) \<and>
   (\<forall>p. r = Some p \<longrightarrow> cpu (tk s' p) = this \<and> \<not> on_rq (tk s' p)) \<and>
   (\<forall>p. state (tk s' p) = state (tk s p) \<and> (on_rq (tk s' p) \<longrightarrow> on_rq (tk s p)))"
proof (induction cs)
  case Nil
  then show ?case by simp
next
  case (Cons c cs)
  show ?case
  proof (cases "c = this \<or> busy c \<or> \<not> nr_running (rqs s c) > 1 \<or> queue (rqs s c) = []")
    case True
    then have "cross_cpu_loop busy this (c # cs) s = cross_cpu_loop busy this cs s"
      by (auto simp: rb_first_cached_def)
    with Cons show ?thesis by simp
  next
    case False
    then obtain p q where q: "queue (rqs s c) = p # q" by (cases "queue (rqs s c)") auto
    with False Cons.prems(2) have ne: "p \<noteq> curr (rqs s c)" "p \<noteq> idle (rqs s c)"
      by (auto simp: rb_first_cached_def split: if_splits)
    with q False Cons.prems(2) obtain s1 where d: "rq_del_locked c p s = Some s1"
      and s': "s' = upd_task p (cpu_update (\<lambda>_. this)) s1" and r: "r = Some p"
      by (auto simp: rb_first_cached_def split: option.splits)
    have pc: "on_rq (tk s p)" "cpu (tk s p) = c"
      using queued_iff_on_rq [OF Cons.prems(1), of p c] q by auto
    note fr = rq_del_locked_frame [OF d]
    have "curr (rqs s d) = p \<longrightarrow> idle (rqs s d) = p" for d
      using sched_invD(3) [OF Cons.prems(1), of d] ne pc by metis
    then have "sched_inv_at srt run s'" unfolding s' using fr
      by (intro upd_unqueued_inv [OF rq_del_locked_inv [OF Cons.prems(1) pc(2) d]]) auto
    with fr r s' pc show ?thesis by auto
  qed
qed

lemma schedule_pick_inv:
  assumes inv: "sched_inv_at srt run s" and r: "schedule_pick busy c s = Some (nxt, s1)"
  shows "sched_inv_at srt run s1 \<and> curr (rqs s1 c) = curr (rqs s c) \<and> idle (rqs s1 c) = idle (rqs s c) \<and>
    (nxt \<noteq> curr (rqs s c) \<longrightarrow> nxt \<noteq> idle (rqs s c) \<longrightarrow> cpu (tk s1 nxt) = c)"
proof (cases "queue (rqs s c)")
  case Nil
  with r obtain m t where x: "cross_cpu_task busy c s = Some (m, t)"
    by (auto simp: schedule_pick_def Let_def rb_first_cached_def split: option.splits)
  note i = cross_cpu_loop_inv [OF inv x [unfolded cross_cpu_task_def]]
  show ?thesis using Nil r x i
    by (auto simp: schedule_pick_def Let_def get_current_task_def rb_first_cached_def
        split: option.splits if_splits)
next
  case (Cons p q)
  with r have d: "rq_del_locked c p s = Some s1" and n: "nxt = p"
    by (auto simp: schedule_pick_def Let_def rb_first_cached_def)
  have pc: "cpu (tk s p) = c" using queued_iff_on_rq [OF inv, of p c] Cons by simp
  from rq_del_locked_inv [OF inv pc d] rq_del_locked_frame [OF d] pc n show ?thesis by simp
qed

lemma requeue_inv:
  assumes inv: "sched_inv_at srt run s" and c: "b \<Longrightarrow> cpu (tk s p) = c \<and> state (tk s p) = TASK_RUNNING"
    and r: "(if b then rq_add_locked c p s else Some s) = Some s'"
  shows "sched_inv_at srt run s' \<and> (\<forall>x. cpu (tk s' x) = cpu (tk s x)) \<and> idle (rqs s' d) = idle (rqs s d)"
proof (cases b)
  case True
  with r have a: "rq_add_locked c p s = Some s'" by simp
  with True c rq_add_locked_inv [OF inv _ _ a] rq_add_locked_frame [OF a, of d] show ?thesis by simp
next
  case False
  with r have "s' = s" by (simp only: if_False option.inject)
  with inv show ?thesis by simp
qed

lemma set_curr_inv:
  assumes inv: "sched_inv_at srt run s" and n: "nxt \<noteq> idle (rqs s c) \<Longrightarrow> cpu (tk s nxt) = c"
  shows "sched_inv_at srt run (upd_rq c (curr_update (\<lambda>_. nxt)) s)"
proof -
  have "queue_ok srt run t d (r\<lparr>curr := nxt\<rparr>) = queue_ok srt run t d r" for t d r by (simp add: queue_ok_def)
  with inv n show ?thesis by (auto simp: sched_inv_at_def)
qed

lemma schedule_inv:
  assumes inv: "sched_inv_at srt run s" and r: "schedule busy c s = Some (nxt, s')"
  shows "sched_inv_at srt run s'"
proof -
  let ?cur = "curr (rqs s c)"
  from r obtain s1 s2 where pick: "schedule_pick busy c s = Some (nxt, s1)"
    and s2: "(if state (tk s1 ?cur) = TASK_RUNNING \<and> ?cur \<noteq> idle (rqs s1 c) \<and> \<not> on_rq (tk s1 ?cur)
              then rq_add_locked c ?cur s1 else Some s1) = Some s2"
    and s': "s' = (if nxt \<noteq> ?cur then upd_rq c (curr_update (\<lambda>_. nxt)) s2 else s2)"
    by (auto simp: schedule_def Let_def get_current_task_def split: option.splits)
  note p = schedule_pick_inv [OF inv pick]
  have cc: "cpu (tk s1 ?cur) = c \<and> state (tk s1 ?cur) = TASK_RUNNING"
    if "state (tk s1 ?cur) = TASK_RUNNING \<and> ?cur \<noteq> idle (rqs s1 c) \<and> \<not> on_rq (tk s1 ?cur)"
    using that p sched_invD(3) [of srt run s1 c] by simp
  note i2 = requeue_inv [OF conjunct1 [OF p] cc s2, of c]
  show ?thesis
  proof (cases "nxt = ?cur")
    case True
    with s' i2 show ?thesis by simp
  next
    case False
    with s' have "s' = upd_rq c (curr_update (\<lambda>_. nxt)) s2" by simp
    with set_curr_inv [of srt run s2 nxt c] i2 p False show ?thesis by simp
  qed
qed

lemma schedule_task_inv:
  assumes inv: "sched_inv_at srt run s" and r: "schedule_task c p s = Some s'"
  shows "sched_inv_at srt run s'"
proof -
  let ?f = "\<lambda>t. t\<lparr>state := TASK_RUNNING,
      vruntime := vruntime (tk s (get_current_task c s)) + MIN_GRANULARITY\<rparr>"
  have off: "\<not> on_rq (tk s p)"
    using r by (auto simp: schedule_task_def rq_add_def rq_add_locked_def split: if_splits)
  have "sched_inv_at srt run (upd_task p ?f s)" by (rule upd_unqueued_inv [OF inv off]) (use off in auto)
  from rq_add_locked_inv [OF this refl, of p s'] r show ?thesis
    by (simp add: schedule_task_def rq_add_def)
qed

lemma sched_tick_inv:
  assumes inv: "sched_inv_at srt run s" and late: "srt \<Longrightarrow> \<not> on_rq (tk s (curr (rqs s c)))"
  shows "sched_inv_at srt run (sched_tick enabled now to_ns c s)"
proof -
  let ?cur = "curr (rqs s c)" and ?s1 = "tick_account now to_ns (curr (rqs s c)) s"
  have charge: "sched_inv_at srt run (upd_task ?cur f t)"
    if "sched_inv_at srt run t" "srt \<Longrightarrow> \<not> on_rq (tk t ?cur)"
      "\<And>x. on_rq (f x) = on_rq x \<and> cpu (f x) = cpu x \<and> state (f x) = state x" for f t
  proof (cases srt)
    case True
    with that show ?thesis by (intro upd_unqueued_inv) auto
  next
    case False
    with that show ?thesis by (intro upd_queued_inv) auto
  qed
  have i1: "sched_inv_at srt run ?s1"
  proof (cases "state (tk s ?cur) = TASK_RUNNING \<and> now - exec_started (tk s ?cur) \<noteq> 0")
    case True
    then show ?thesis unfolding tick_account_def Let_def
      by (simp only: if_True simp_thms) (rule charge [OF inv late], auto)
  next
    case False
    with inv show ?thesis by (auto simp: tick_account_def Let_def)
  qed
  have "sched_inv_at srt run (upd_task ?cur (need_resched_update (\<lambda>_. True)) ?s1)"
    by (rule upd_queued_inv [OF i1]) auto
  with i1 inv show ?thesis
    by (simp add: sched_tick_def Let_def get_current_task_def split: option.splits)
qed

section \<open>Boot\<close>


text \<open>
  The static initialisers: every queue is empty with \<open>__rootp\<close> (address 0) as current and
  idle task; CPU \<open>c > 0\<close> then gets its own idle task \<open>__idle_tasks[c]\<close> (address \<open>c\<close>).
\<close>

definition root_sighand :: "ksigaction list" where
  "root_sighand =
     (let ign = \<lparr>sa_handler = SIG_IGN, sa_flags = 0x10000000, sa_mask = 0\<rparr> in
      (replicate 32 \<lparr>sa_handler = SIG_DFL, sa_flags = 0, sa_mask = 0\<rparr>)
        [2 := ign, 3 := ign, 15 := ign,
         17 := \<lparr>sa_handler = SIG_DFL, sa_flags = 0x10000003, sa_mask = 0\<rparr>, 9 := ign])"

definition root_task :: task where
  "root_task = \<lparr>pid = 0, ppid = 0, state = TASK_RUNNING, need_resched = False, sig_pending = False,
     signaled = False, interrupted = False, state_change = False, cpu = 0, on_rq = False,
     runtime = 0, vruntime = 0, exec_started = 0, parent = None, children = [], pgid = 0, sid = 0,
     exit_status = 0, parent_wait = False, waiting_any = False,
     actions = root_sighand,
     pending = 0, blocked = 0\<rparr>"

definition sched_boot :: "nat \<Rightarrow> sched" where
  "sched_boot n = \<lparr>tk = (\<lambda>_. root_task),
     rqs = (\<lambda>_. \<lparr>nr_running = 0, curr = 0, idle = 0, queue = []\<rparr>), ncpus = n\<rparr>"

definition sched_ap_rq_init :: "nat \<Rightarrow> sched \<Rightarrow> sched option" where
  "sched_ap_rq_init c s =
     (if c = 0 \<or> CONFIG_MAX_CPUS \<le> c then None
      else Some (upd_rq c (\<lambda>r. r\<lparr>curr := c, idle := c\<rparr>) s))"

lemma sched_boot_inv: "sched_inv_at srt run (sched_boot n)"
  by (simp add: sched_inv_at_def sched_boot_def queue_ok_def root_task_def)

lemma sched_ap_rq_init_inv:
  "sched_ap_rq_init c s = Some s' \<Longrightarrow> sched_inv_at srt run s \<Longrightarrow> sched_inv_at srt run s'"
  by (auto simp: sched_ap_rq_init_def sched_inv_at_def queue_ok_def split: if_splits)

section \<open>Runs of the scheduler\<close>

text \<open>
  A run interleaves the operations on any CPU in any order, with what the rest of the kernel does
  to tasks: it fills in a task that is off the queues and not running (\<open>fresh\<close>), changes fields
  the scheduler does not look at (\<open>other\<close>), and assigns the state of the running task without
  going through \<open>set_current_state\<close> (\<open>direct\<close>: \<open>do_exit\<close>, \<open>sigsuspend\<close>,
  \<open>exec_and_return\<close>).  A step is labelled with what it may break: a tick that finds the running
  task on the queue charges it there and leaves the tree unsorted (\<open>Late_tick\<close>), and a direct
  assignment to a queued task leaves a task on the queue that is not \<open>TASK_RUNNING\<close>
  (\<open>Direct_state\<close>).  Insertion into a tree that is not sorted depends on its shape;
  \<open>reorder\<close> lets such a queue take any order.
\<close>

datatype disorder = Orderly | Late_tick | Direct_state

definition queue_sorted :: "sched \<Rightarrow> nat \<Rightarrow> bool" where
  "queue_sorted s c \<longleftrightarrow> sorted (map (\<lambda>p. vruntime (tk s p)) (queue (rqs s c)))"

inductive sched_step :: "disorder \<Rightarrow> sched \<Rightarrow> sched \<Rightarrow> bool" where
  running: "set_task_running p s = Some s' \<Longrightarrow> sched_step Orderly s s'"
| sleeping: "set_task_sleeping p s = Some s' \<Longrightarrow> sched_step Orderly s s'"
| uninterruptible: "set_task_uninterruptible p s = Some s' \<Longrightarrow> sched_step Orderly s s'"
| stopped: "set_task_stopped p s = Some s' \<Longrightarrow> sched_step Orderly s s'"
| set_state: "set_current_state c st s = Some s' \<Longrightarrow> sched_step Orderly s s'"
| new_task: "schedule_task c p s = Some s' \<Longrightarrow> sched_step Orderly s s'"
| switch: "schedule busy c s = Some (nxt, s') \<Longrightarrow> sched_step Orderly s s'"
| resume: "sched_step Orderly s (schedule_resume ticks p s)"
| ap_init: "sched_ap_rq_init c s = Some s' \<Longrightarrow> sched_step Orderly s s'"
| tick: "sched_step (if on_rq (tk s (curr (rqs s c))) then Late_tick else Orderly) s
           (sched_tick e now to_ns c s)"
| fresh: "\<not> on_rq (tk s p) \<Longrightarrow> \<not> on_rq t \<Longrightarrow> (\<forall>c. curr (rqs s c) \<noteq> p) \<Longrightarrow>
    sched_step Orderly s (upd_task p (\<lambda>_. t) s)"
| other: "on_rq (f (tk s p)) = on_rq (tk s p) \<Longrightarrow> cpu (f (tk s p)) = cpu (tk s p) \<Longrightarrow>
    state (f (tk s p)) = state (tk s p) \<Longrightarrow> vruntime (f (tk s p)) = vruntime (tk s p) \<Longrightarrow>
    sched_step Orderly s (upd_task p f s)"
| direct: "p = curr (rqs s c) \<Longrightarrow>
    sched_step (if on_rq (tk s p) then Direct_state else Orderly) s (upd_task p (state_update (\<lambda>_. st)) s)"
| reorder: "\<not> queue_sorted s c \<Longrightarrow> distinct q \<Longrightarrow> set q = set (queue (rqs s c)) \<Longrightarrow>
    sched_step Late_tick s (upd_rq c (queue_update (\<lambda>_. q)) s)"

inductive sched_run :: "disorder set \<Rightarrow> sched \<Rightarrow> sched \<Rightarrow> bool" where
  start: "sched_run {} s s"
| more: "sched_run ls s t \<Longrightarrow> sched_step l t u \<Longrightarrow> sched_run (insert l ls) s u"

lemma sched_step_inv:
  "sched_step l s s' \<Longrightarrow> sched_inv_at srt run s \<Longrightarrow> (srt \<longrightarrow> l \<noteq> Late_tick) \<Longrightarrow>
   (run \<longrightarrow> l \<noteq> Direct_state) \<Longrightarrow> sched_inv_at srt run s'"
proof (induction rule: sched_step.induct)
  case (resume s ticks p)
  then show ?case unfolding schedule_resume_def by (intro upd_queued_inv) auto
next
  case (tick s c e now to_ns)
  then show ?case by (intro sched_tick_inv) auto
next
  case (fresh s p t)
  then show ?case by (intro upd_unqueued_inv) auto
next
  case (other f s p)
  then show ?case by (intro upd_queued_inv) auto
next
  case (direct p s c st)
  show ?case
  proof (cases "on_rq (tk s p)")
    case True
    with direct show ?thesis by (intro upd_queued_inv) auto
  next
    case False
    with direct show ?thesis by (intro upd_unqueued_inv) auto
  qed
next
  case (reorder s c q)
  then have "length q = length (queue (rqs s c))"
    using distinct_card [of q] distinct_card [of "queue (rqs s c)"] by (simp add: sched_inv_at_def queue_ok_def)
  with reorder show ?case by (auto simp: sched_inv_at_def queue_ok_def)
qed (auto intro: set_task_running_inv set_task_off_inv set_current_state_inv schedule_task_inv
    schedule_inv sched_ap_rq_init_inv)

lemma sched_run_inv:
  "sched_run ls s s' \<Longrightarrow> sched_inv_at srt run s \<Longrightarrow> (srt \<longrightarrow> Late_tick \<notin> ls) \<Longrightarrow>
   (run \<longrightarrow> Direct_state \<notin> ls) \<Longrightarrow> sched_inv_at srt run s'"
  by (induction rule: sched_run.induct) (auto intro: sched_step_inv)

lemmas boot_run_inv = sched_run_inv [OF _ sched_boot_inv]

text \<open>
  A run from boot on two CPUs (a task is started, yields while it is alone, a
  second task is started) ends in a state \<open>panic_state\<close> in which an idle CPU that looks
  for work panics, because the leftmost task of the other queue is that queue's current task.
\<close>

definition two_cpus :: "sched" where
  "two_cpus = the (sched_ap_rq_init 1 (sched_boot 2))"

definition alone_state :: "sched" where
  "alone_state = two_cpus\<lparr>
     tk := (tk two_cpus)(10 := root_task\<lparr>vruntime := 2, on_rq := False\<rparr>),
     rqs := (rqs two_cpus)(0 := \<lparr>nr_running = 0, curr = 10, idle = 0, queue = []\<rparr>)\<rparr>"

definition panic_state :: "sched" where
  "panic_state = two_cpus\<lparr>
     tk := (tk two_cpus)(10 := root_task\<lparr>vruntime := 2, on_rq := True\<rparr>,
                         11 := root_task\<lparr>vruntime := 4, on_rq := True\<rparr>),
     rqs := (rqs two_cpus)(0 := \<lparr>nr_running = Suc (Suc 0), curr = 10, idle = 0, queue = [10, 11]\<rparr>)\<rparr>"

lemma two_cpus_eq:
  "two_cpus = \<lparr>tk = (\<lambda>_. root_task),
     rqs = (\<lambda>_. \<lparr>nr_running = 0, curr = 0, idle = 0, queue = []\<rparr>)
             (1 := \<lparr>nr_running = 0, curr = 1, idle = 1, queue = []\<rparr>), ncpus = 2\<rparr>"
  by (simp add: two_cpus_def sched_ap_rq_init_def CONFIG_MAX_CPUS_def sched_boot_def)

lemmas sched_eval = schedule_def schedule_pick_def cross_cpu_task_def Let_def get_current_task_def
  rb_first_cached_def rq_del_locked_def rq_add_locked_def rq_add_def schedule_task_def
  MIN_GRANULARITY_def prio_comp_def u32_add_def u32_sub_def upt_rec

lemma demo_states_reached:
  "sched_run {Orderly} (sched_boot 2) alone_state" "sched_run {Orderly} (sched_boot 2) panic_state"
proof -
  let ?s1 = "two_cpus\<lparr>
     tk := (tk two_cpus)(10 := root_task\<lparr>vruntime := 2, on_rq := True\<rparr>),
     rqs := (rqs two_cpus)(0 := \<lparr>nr_running = 1, curr = 0, idle = 0, queue = [10]\<rparr>)\<rparr>"
  let ?s3 = "two_cpus\<lparr>
     tk := (tk two_cpus)(10 := root_task\<lparr>vruntime := 2, on_rq := True\<rparr>),
     rqs := (rqs two_cpus)(0 := \<lparr>nr_running = 1, curr = 10, idle = 0, queue = [10]\<rparr>)\<rparr>"
  have 0: "sched_ap_rq_init 1 (sched_boot 2) = Some two_cpus"
    by (simp add: two_cpus_def sched_ap_rq_init_def CONFIG_MAX_CPUS_def)
  have 1: "schedule_task 0 10 two_cpus = Some ?s1"
    by (simp add: two_cpus_eq sched_eval root_task_def)
  have 2: "schedule (\<lambda>_. False) 0 ?s1 = Some (10, alone_state)"
    by (simp add: alone_state_def two_cpus_eq sched_eval root_task_def)
  have 3: "schedule (\<lambda>_. False) 0 alone_state = Some (10, ?s3)"
    by (simp add: alone_state_def two_cpus_eq sched_eval root_task_def)
  have 4: "schedule_task 0 11 ?s3 = Some panic_state"
    by (simp add: two_cpus_eq sched_eval root_task_def panic_state_def)
  have "sched_run {Orderly} (sched_boot 2) two_cpus"
    using more [OF start ap_init [OF 0]] by simp
  from more [OF more [OF this new_task [OF 1]] switch [OF 2]]
  show a: "sched_run {Orderly} (sched_boot 2) alone_state" by simp
  from more [OF more [OF a switch [OF 3]] new_task [OF 4]]
  show "sched_run {Orderly} (sched_boot 2) panic_state" by simp
qed

lemma two_cpus_inv: "sched_inv two_cpus"
  unfolding two_cpus_def
  by (rule sched_ap_rq_init_inv [OF _ sched_boot_inv [of _ _ 2], of 1])
    (simp add: sched_ap_rq_init_def CONFIG_MAX_CPUS_def)

lemma demo_states_inv: "sched_inv alone_state" "sched_inv panic_state"
  using demo_states_reached [THEN boot_run_inv, of False True] by simp_all

section \<open>Properties\<close>





text \<open>
  A running task that gives up its CPU when there is no other task to run is chosen again,
  but it is put on the run queue all the same, although \<open>struct rq\<close> says of \<open>curr\<close> that
  it is never there.
\<close>

theorem yield_alone_enqueues_current:
  assumes "queue (rqs s c) = []" and "cross_cpu_task busy c s = Some (None, s)"
    and "state (tk s (curr (rqs s c))) = TASK_RUNNING"
    and "curr (rqs s c) \<noteq> idle (rqs s c)" and "\<not> on_rq (tk s (curr (rqs s c)))"
  shows "\<exists>s'. schedule busy c s = Some (curr (rqs s c), s') \<and> curr (rqs s' c) = curr (rqs s c)
    \<and> queue (rqs s' c) = [curr (rqs s c)] \<and> on_rq (tk s' (curr (rqs s c)))"
  using assms
  by (simp add: schedule_def schedule_pick_def Let_def get_current_task_def rb_first_cached_def
      rq_add_locked_def)

theorem yield_alone_enqueues_current_witness:
  "\<exists>s'. schedule (\<lambda>_. False) 0 alone_state = Some (10, s') \<and> queue (rqs s' 0) = [10]"
proof -
  have x: "cross_cpu_task (\<lambda>_. False) 0 alone_state = Some (None, alone_state)"
    by (simp add: cross_cpu_task_def alone_state_def two_cpus_eq upt_rec)
  have c: "curr (rqs alone_state 0) = 10" by (simp add: alone_state_def)
  have "queue (rqs alone_state 0) = []" "state (tk alone_state (curr (rqs alone_state 0))) = TASK_RUNNING"
    "curr (rqs alone_state 0) \<noteq> idle (rqs alone_state 0)"
    "\<not> on_rq (tk alone_state (curr (rqs alone_state 0)))"
    by (simp_all add: alone_state_def root_task_def)
  from yield_alone_enqueues_current [OF this(1) x this(2-4)] c show ?thesis by auto
qed

text \<open>
  So the panic of \<open>cross_cpu_task\<close> is reachable from boot.
\<close>

theorem queued_current_panics_other_cpu:
  "\<exists>s. sched_run {Orderly} (sched_boot 2) s \<and> schedule (\<lambda>_. False) 1 s = None"
proof -
  have "schedule (\<lambda>_. False) 1 panic_state = None"
    by (simp add: panic_state_def two_cpus_eq sched_eval)
  with demo_states_reached(2) show ?thesis by blast
qed

text \<open>
  The clock tick charges the current task even while it is queued, so a reachable queue can
  lose its order, and then \<open>schedule\<close> passes over a task of smaller virtual runtime.
\<close>

theorem tick_breaks_order:
  "\<exists>s. sched_run {Orderly, Late_tick} (sched_boot 2) s \<and> \<not> queue_sorted s 0 \<and>
     (\<exists>nxt s'. schedule (\<lambda>_. False) 0 s = Some (nxt, s') \<and>
        (\<exists>p \<in> set (queue (rqs s 0)). vruntime (tk s p) < vruntime (tk s nxt)))"
proof (intro exI conjI)
  let ?s = "sched_tick True 10 id 0 panic_state"
  have on: "on_rq (tk panic_state (curr (rqs panic_state 0)))"
    by (simp add: panic_state_def)
  show run: "sched_run {Orderly, Late_tick} (sched_boot 2) ?s"
    using more [OF demo_states_reached(2) tick [of panic_state 0 True 10 id]] on
    by (simp add: insert_commute)
  note ev = sched_tick_def tick_account_def Let_def get_current_task_def panic_state_def
        two_cpus_eq rb_first_cached_def root_task_def MIN_GRANULARITY_def
  have vr: "vruntime (tk ?s 10) = 12" "vruntime (tk ?s 11) = 4" "queue (rqs ?s 0) = [10, 11]"
    by (simp_all add: ev)
  then show "\<not> queue_sorted ?s 0" by (simp add: queue_sorted_def)
  have "sched_inv_at False False ?s" by (rule boot_run_inv [OF run]) simp_all
  then have on: "on_rq (tk ?s 10)" using queued_iff_on_rq [of False False ?s 10 0] vr by simp
  have cur: "curr (rqs ?s 0) = 10" "idle (rqs ?s 0) = 0" by (simp_all add: ev)
  then show "schedule (\<lambda>_. False) 0 ?s = Some (10, snd (the (schedule (\<lambda>_. False) 0 ?s)))"
    using on vr by (simp add: schedule_def schedule_pick_def Let_def get_current_task_def
      rb_first_cached_def rq_del_locked_def rq_add_locked_def)
  show "\<exists>p \<in> set (queue (rqs ?s 0)). vruntime (tk ?s p) < vruntime (tk ?s 10)"
    using vr by auto
qed

lemma cross_cpu_loop_total:
  assumes inv: "sched_inv s"
    and off: "\<And>d. \<not> on_rq (tk s (curr (rqs s d))) \<and> \<not> on_rq (tk s (idle (rqs s d)))"
  shows "\<exists>r s'. cross_cpu_loop busy this cs s = Some (r, s') \<and>
     (case r of
        None \<Rightarrow> s' = s \<and> (\<forall>d \<in> set cs. d = this \<or> busy d \<or> queue (rqs s d) = [] \<or> nr_running (rqs s d) \<le> 1)
      | Some p \<Rightarrow> \<exists>d \<in> set cs. d \<noteq> this \<and> p \<in> set (queue (rqs s d)) \<and>
          cpu (tk s' p) = this \<and> \<not> on_rq (tk s' p) \<and> state (tk s' p) = TASK_RUNNING)"
proof (induction cs)
  case Nil
  then show ?case by simp
next
  case (Cons c cs)
  show ?case
  proof (cases "c = this \<or> busy c \<or> queue (rqs s c) = [] \<or> nr_running (rqs s c) \<le> 1")
    case True
    then have "cross_cpu_loop busy this (c # cs) s = cross_cpu_loop busy this cs s"
      by (auto simp: rb_first_cached_def)
    with Cons True show ?thesis by (fastforce split: option.splits)
  next
    case False
    then obtain p q where q: "queue (rqs s c) = p # q" by (cases "queue (rqs s c)") auto
    then have on: "on_rq (tk s p)" using queued_iff_on_rq [OF inv, of p c] by simp
    with off [of c] have "p \<noteq> curr (rqs s c)" "p \<noteq> idle (rqs s c)" by auto
    moreover from on obtain s1 where d: "rq_del_locked c p s = Some s1"
      by (auto simp: rq_del_locked_def)
    ultimately show ?thesis using False q on_rq_running [OF inv on] on
      by (auto simp: rb_first_cached_def rq_del_locked_def)
  qed
qed

text \<open>
  While no current or idle task is queued, \<open>schedule\<close> never panics on a CPU with an empty
  queue, and it leaves that CPU without a task of another queue only if every other CPU it could
  lock had at most one task waiting.
\<close>

theorem idle_cpu_steals_work:
  assumes inv: "sched_inv s" and empty: "queue (rqs s c) = []"
    and off: "\<And>d. \<not> on_rq (tk s (curr (rqs s d))) \<and> \<not> on_rq (tk s (idle (rqs s d)))"
  shows "\<exists>nxt s'. schedule busy c s = Some (nxt, s') \<and> curr (rqs s' c) = nxt \<and>
    ((\<exists>d. d \<noteq> c \<and> nxt \<in> set (queue (rqs s d)) \<and> cpu (tk s' nxt) = c \<and> \<not> on_rq (tk s' nxt))
     \<or> ((nxt = curr (rqs s c) \<or> nxt = idle (rqs s c)) \<and>
        (\<forall>d < ncpus s. d = c \<or> busy d \<or> queue (rqs s d) = [] \<or> nr_running (rqs s d) \<le> 1)))"
proof -
  let ?cur = "curr (rqs s c)"
  obtain r s1 where x: "cross_cpu_loop busy c [0..<ncpus s] s = Some (r, s1)" and
    r: "case r of
        None \<Rightarrow> s1 = s \<and> (\<forall>d \<in> set [0..<ncpus s]. d = c \<or> busy d \<or> queue (rqs s d) = [] \<or> nr_running (rqs s d) \<le> 1)
      | Some p \<Rightarrow> \<exists>d \<in> set [0..<ncpus s]. d \<noteq> c \<and> p \<in> set (queue (rqs s d)) \<and>
          cpu (tk s1 p) = c \<and> \<not> on_rq (tk s1 p) \<and> state (tk s1 p) = TASK_RUNNING"
    using cross_cpu_loop_total [OF inv off] by blast
  define nxt where "nxt = (case r of Some p \<Rightarrow> p
      | None \<Rightarrow> if state (tk s1 ?cur) \<noteq> TASK_RUNNING then idle (rqs s1 c) else ?cur)"
  have pick: "schedule_pick busy c s = Some (nxt, s1)"
    by (simp add: schedule_pick_def cross_cpu_task_def x rb_first_cached_def empty nxt_def
        get_current_task_def split: option.splits)
  obtain s2 where s2: "(if state (tk s1 ?cur) = TASK_RUNNING \<and> ?cur \<noteq> idle (rqs s1 c) \<and> \<not> on_rq (tk s1 ?cur)
      then rq_add_locked c ?cur s1 else Some s1) = Some s2"
    unfolding rq_add_locked_def by (metis (full_types))
  have sch: "schedule busy c s = Some (nxt, if nxt \<noteq> ?cur then upd_rq c (curr_update (\<lambda>_. nxt)) s2 else s2)"
    by (simp add: schedule_def Let_def get_current_task_def pick s2)
  have fr: "curr (rqs s2 c) = curr (rqs s1 c) \<and>
      (\<forall>p. p \<noteq> ?cur \<longrightarrow> cpu (tk s2 p) = cpu (tk s1 p) \<and> on_rq (tk s2 p) = on_rq (tk s1 p))"
    using s2 by (auto simp: rq_add_locked_def split: if_splits)
  have c1: "curr (rqs s1 c) = ?cur" using schedule_pick_inv [OF inv pick] by simp
  show ?thesis
  proof (cases r)
    case None
    with r fr c1 sch show ?thesis by (auto simp: nxt_def)
  next
    case (Some p)
    with r obtain d where d: "d \<noteq> c" "p \<in> set (queue (rqs s d))" "cpu (tk s1 p) = c" "\<not> on_rq (tk s1 p)"
      by auto
    moreover have "p \<noteq> ?cur" using d(2) queued_iff_on_rq [OF inv, of p d] off [of c] by auto
    ultimately show ?thesis using Some sch fr by (auto simp: nxt_def)
  qed
qed

theorem idle_cpu_steals_work_witness:
  "\<exists>nxt s'. schedule (\<lambda>_. False) 1 two_cpus = Some (nxt, s') \<and> curr (rqs s' 1) = nxt"
proof -
  have "queue (rqs two_cpus 1) = []" by (simp add: two_cpus_eq)
  moreover have "\<not> on_rq (tk two_cpus (curr (rqs two_cpus d))) \<and> \<not> on_rq (tk two_cpus (idle (rqs two_cpus d)))" for d
    by (simp add: two_cpus_eq root_task_def)
  ultimately show ?thesis using idle_cpu_steals_work [OF two_cpus_inv, of 1 "\<lambda>_. False"] by blast
qed

text \<open>
  Waking a task that is not a zombie never fails and loses no wake-up: afterwards the task is
  \<open>TASK_RUNNING\<close> and either on its CPU's queue or current there; other tasks keep their
  state.
\<close>

theorem wake_makes_runnable:
  assumes "sched_inv s" and "state (tk s p) \<noteq> TASK_ZOMBIE" and "state (tk s p) \<noteq> TASK_RUNNING"
  shows "\<exists>s'. set_task_running p s = Some s' \<and> state (tk s' p) = TASK_RUNNING
    \<and> (p \<in> set (queue (rqs s' (cpu (tk s p)))) \<or> p = curr (rqs s' (cpu (tk s p))))
    \<and> (\<forall>q. q \<noteq> p \<longrightarrow> tk s' q = tk s q)"
  using assms on_rq_running [OF assms(1), of p]
  by (auto simp: set_task_running_def Let_def rq_add_locked_def)

theorem wake_makes_runnable_witness:
  "\<exists>s'. set_task_running 10 (upd_task 10 (state_update (\<lambda>_. TASK_SLEEPING)) alone_state) = Some s'
     \<and> state (tk s' 10) = TASK_RUNNING"
proof -
  let ?s = "upd_task 10 (state_update (\<lambda>_. TASK_SLEEPING)) alone_state"
  have "sched_inv ?s"
    by (rule upd_unqueued_inv [OF demo_states_inv(1)]) (simp_all add: alone_state_def)
  from wake_makes_runnable [OF this, of 10] show ?thesis by auto
qed

end
