(* ===== verification/Signals.thy ===== *)
theory Signals imports Sched begin

text \<open>
  Signals, \<open>kernel/kernel/signal.c\<close>: raising a signal, sending one to a child or a process
  group, and the system calls that change a task's actions and masks.  The delivery of a pending
  signal (\<open>handle_signal\<close>) is in \<open>Process\<close>, because it may end the task.

  \<open>sigset_t\<close> is an \<open>unsigned long\<close>, but the bit of a signal is computed as the
  \<open>int\<close> \<open>1 << sig\<close> and sign extended when it meets a set; \<open>sigbit\<close> keeps this.
  Whether a user pointer is readable (\<open>access_ok\<close>) is a boolean argument; a null
  pointer is \<open>None\<close>.
\<close>

section \<open>Signal sets\<close>

abbreviation SIGHUP :: int where "SIGHUP \<equiv> 1"
abbreviation SIGINT :: int where "SIGINT \<equiv> 2"
abbreviation SIGQUIT :: int where "SIGQUIT \<equiv> 3"
abbreviation SIGKILL :: int where "SIGKILL \<equiv> 9"
abbreviation SIGTERM :: int where "SIGTERM \<equiv> 15"
abbreviation SIGCHLD :: int where "SIGCHLD \<equiv> 17"
abbreviation SIGCONT :: int where "SIGCONT \<equiv> 18"
abbreviation SIGSTOP :: int where "SIGSTOP \<equiv> 19"

definition NSIG :: int where
  "NSIG = 32"

definition sigbit :: "int \<Rightarrow> u64" where
  "sigbit sig = scast (push_bit (nat sig) (1 :: u32))"

definition unblockable :: u64 where
  "unblockable = sigbit SIGKILL OR sigbit SIGSTOP"

definition SIG_APPLY_MASK :: "u64 \<Rightarrow> u64 \<Rightarrow> u64" where
  "SIG_APPLY_MASK sgs msk = sgs AND NOT msk"

definition sig_get_active :: "task \<Rightarrow> u64" where
  "sig_get_active t = SIG_APPLY_MASK (pending t) (blocked t)"

definition sigisblocked :: "task \<Rightarrow> int \<Rightarrow> bool" where
  "sigisblocked t sig \<longleftrightarrow> blocked t AND sigbit sig \<noteq> 0"

definition sigaddset :: "u64 \<Rightarrow> int \<Rightarrow> u64" where
  "sigaddset sgs sig = sgs OR sigbit sig"

definition sigdelset :: "u64 \<Rightarrow> int \<Rightarrow> u64" where
  "sigdelset sgs sig = sgs AND NOT (sigbit sig)"

text \<open>A handler as the pointer the code stores.\<close>

definition handler_of :: "u64 \<Rightarrow> handler" where
  "handler_of w = (if w = 0 then SIG_DFL else if w = 1 then SIG_IGN else Handler w)"

definition handler_val :: "handler \<Rightarrow> u64" where
  "handler_val h = (case h of SIG_DFL \<Rightarrow> 0 | SIG_IGN \<Rightarrow> 1 | Handler w \<Rightarrow> w)"

section \<open>Raising\<close>

definition do_raise :: "tid \<Rightarrow> int \<Rightarrow> sched \<Rightarrow> (int \<times> sched) option" where
  "do_raise p sig s =
     (if sig \<le> 0 \<or> sig \<ge> NSIG then Some (- EINVAL, s)
      else
        (let old = pending (tk s p); ka = actions (tk s p) ! nat sig in
         case (if sig = SIGCONT \<and> state (tk s p) = TASK_STOPPED then set_task_running p s else Some s) of
           None \<Rightarrow> None
         | Some s1 \<Rightarrow>
             if word_of_int sig AND old \<noteq> 0 then Some (0, s1)
             else if sa_handler ka = SIG_IGN then Some (1, s1)
             else
               (let s2 = upd_task p (\<lambda>t. t\<lparr>pending := sigaddset (pending t) sig, sig_pending := True\<rparr>) s1 in
                if state (tk s2 p) = TASK_SLEEPING \<and> \<not> sigisblocked (tk s2 p) sig
                then map_option (\<lambda>s3. (0, s3))
                       (set_task_running p (upd_task p (interrupted_update (\<lambda>_. True)) s2))
                else Some (0, s2))))"

text \<open>The loop of \<open>kill_pgrp\<close> over the tasks of the group, its results ignored.\<close>

fun raise_each :: "tid list \<Rightarrow> int \<Rightarrow> sched \<Rightarrow> sched option" where
  "raise_each [] sig s = Some s"
| "raise_each (p # ps) sig s =
     (case do_raise p sig s of None \<Rightarrow> None | Some (_, s1) \<Rightarrow> raise_each ps sig s1)"

text \<open>\<open>tbl\<close> is the contents of \<open>pgid_table\<close>, in the order of its hash chains.\<close>

definition pgrp_members :: "tid list \<Rightarrow> int \<Rightarrow> sched \<Rightarrow> tid list" where
  "pgrp_members tbl pg s = filter (\<lambda>p. pgid (tk s p) = pg) tbl"

definition kill_pgrp :: "tid list \<Rightarrow> int \<Rightarrow> int \<Rightarrow> sched \<Rightarrow> (int \<times> sched) option" where
  "kill_pgrp tbl pg sig s =
     (if sig < 0 \<or> sig > NSIG then Some (- EINVAL, s)
      else if pg < 0 then Some (- ESRCH, s)
      else case raise_each (pgrp_members tbl pg s) sig s of
          None \<Rightarrow> None
        | Some s1 \<Rightarrow> Some (if pgrp_members tbl pg s = [] then - ESRCH else 0, s1))"

definition sys_kill :: "tid list \<Rightarrow> tid \<Rightarrow> int \<Rightarrow> int \<Rightarrow> sched \<Rightarrow> (int \<times> sched) option" where
  "sys_kill tbl cur pd sig s =
     (if sig < 0 \<or> sig > NSIG then Some (- EINVAL, s)
      else if pd = 0 then kill_pgrp tbl (pgid (tk s cur)) sig s
      else if pd = -1 then Some (- EOPNOTSUPP, s)
      else if pd < -1 then kill_pgrp tbl (- pd) sig s
      else case find_child_by_pid s cur pd of
          None \<Rightarrow> Some (- ESRCH, s)
        | Some p \<Rightarrow> if sig = 0 then Some (0, s) else do_raise p sig s)"

section \<open>Actions and masks\<close>

abbreviation set_action :: "tid \<Rightarrow> int \<Rightarrow> (ksigaction \<Rightarrow> ksigaction) \<Rightarrow> sched \<Rightarrow> sched" where
  "set_action p sig f s \<equiv> upd_task p (\<lambda>t. t\<lparr>actions := (actions t)[nat sig := f (actions t ! nat sig)]\<rparr>) s"

definition sys_signal :: "tid \<Rightarrow> int \<Rightarrow> u64 \<Rightarrow> sched \<Rightarrow> int \<times> sched" where
  "sys_signal cur sig h s =
     (if sig < 0 \<or> sig \<ge> NSIG then (- EINVAL, s)
      else if sig = SIGKILL \<or> sig = SIGSTOP then (- EINVAL, s)
      else (sint (handler_val (sa_handler (actions (tk s cur) ! nat sig))),
            set_action cur sig (sa_handler_update (\<lambda>_. handler_of h)) s))"

text \<open>
  \<open>sigaction\<close>: the new action (with the outcome of its \<open>access_ok\<close>), whether an old
  action is asked for (with its \<open>access_ok\<close>); the result has the old action written to the
  user, if any.
\<close>

definition sys_sigaction ::
  "tid \<Rightarrow> int \<Rightarrow> (ksigaction \<times> bool) option \<Rightarrow> bool option \<Rightarrow> sched \<Rightarrow> int \<times> ksigaction option \<times> sched" where
  "sys_sigaction cur sig act oldact s =
     (if sig \<le> 0 \<or> sig \<ge> NSIG \<or> sig = SIGKILL \<or> sig = SIGSTOP then (- EINVAL, None, s)
      else if (case act of Some (_, ok) \<Rightarrow> \<not> ok | None \<Rightarrow> False) then (- EFAULT, None, s)
      else if oldact = Some False then (- EFAULT, None, s)
      else (0,
        (if oldact = None then None else Some (actions (tk s cur) ! nat sig)),
        (case act of None \<Rightarrow> s | Some (a, _) \<Rightarrow> set_action cur sig (\<lambda>_. a) s)))"

definition sys_sigprocmask ::
  "tid \<Rightarrow> int \<Rightarrow> (u64 \<times> bool) option \<Rightarrow> bool option \<Rightarrow> sched \<Rightarrow> int \<times> u64 option \<times> sched" where
  "sys_sigprocmask cur how sgs old s =
     (if (case sgs of Some (_, ok) \<Rightarrow> \<not> ok | None \<Rightarrow> False) then (- EFAULT, None, s)
      else if old = Some False then (- EFAULT, None, s)
      else
        (let out = (if old = None then None else Some (blocked (tk s cur))) in
         case sgs of
           None \<Rightarrow> (0, out, s)
         | Some (m, _) \<Rightarrow>
             (let new_mask = SIG_APPLY_MASK m unblockable in
              if how = 1 then (0, out, upd_task cur (blocked_update (\<lambda>b. b OR new_mask)) s)
              else if how = 2 then (0, out, upd_task cur (blocked_update (\<lambda>b. b AND NOT new_mask)) s)
              else if how = 0 then (0, out, upd_task cur (blocked_update (\<lambda>_. new_mask)) s)
              else (- EINVAL, out, s))))"

definition sys_sigpending :: "tid \<Rightarrow> bool \<Rightarrow> sched \<Rightarrow> int \<times> u64 option" where
  "sys_sigpending cur ok s = (if \<not> ok then (- EFAULT, None) else (0, Some (pending (tk s cur))))"

text \<open>
  \<open>sigsuspend\<close> and \<open>pause\<close> sleep in a loop; below are the parts before the loop, one
  round of it up to its \<open>yield\<close> (\<open>None\<close>: the loop ends), and the part after it.
\<close>

definition sigsuspend_begin :: "tid \<Rightarrow> u64 \<Rightarrow> sched \<Rightarrow> u64 \<times> sched" where
  "sigsuspend_begin cur m s =
     (blocked (tk s cur), upd_task cur (blocked_update (\<lambda>_. SIG_APPLY_MASK m unblockable)) s)"

definition sigsuspend_round :: "tid \<Rightarrow> sched \<Rightarrow> sched option" where
  "sigsuspend_round cur s =
     (if sig_pending (tk s cur) then None
      else Some (upd_task cur (state_update (\<lambda>_. TASK_SLEEPING)) s))"

definition sigsuspend_end :: "tid \<Rightarrow> u64 \<Rightarrow> sched \<Rightarrow> int \<times> sched" where
  "sigsuspend_end cur oldmask s = (- EINTR, upd_task cur (blocked_update (\<lambda>_. oldmask)) s)"

section \<open>Facts on raising\<close>

lemma set_task_running_frame:
  assumes "set_task_running p s = Some s'"
  shows "q \<noteq> p \<Longrightarrow> tk s' q = tk s q"
    and "tk s' p = (tk s p)\<lparr>state := TASK_RUNNING, on_rq := on_rq (tk s' p)\<rparr>"
    and "\<And>c. curr (rqs s' c) = curr (rqs s c)"
  using assms
  by (auto simp: set_task_running_def Let_def rq_add_locked_def split: if_splits)

lemma set_task_running_total: 
  assumes "sched_inv s" and "state (tk s p) \<noteq> TASK_ZOMBIE"
  shows "\<exists>s'. set_task_running p s = Some s'"
  using assms on_rq_running [OF assms(1), of p]
  by (auto simp: set_task_running_def Let_def rq_add_locked_def)

lemma upd_flags_inv:
  assumes inv: "sched_inv s"
    and f: "\<And>t. on_rq (f t) = on_rq t \<and> cpu (f t) = cpu t \<and> state (f t) = state t \<and> vruntime (f t) = vruntime t"
  shows "sched_inv (upd_task p f s)"
proof -
  have m: "map (\<lambda>x. vruntime (if x = p then f (tk s p) else tk s x)) q = map (\<lambda>x. vruntime (tk s x)) q" for q
    by (rule map_cong [OF refl]) (simp add: f)
  show ?thesis using inv by (auto simp: sched_inv_at_def queue_ok_def f m)
qed

lemma do_raise_inv:
  assumes inv: "sched_inv s" and r: "do_raise p sig s = Some (ret, s')"
  shows "sched_inv s'"
proof (cases "sig \<le> 0 \<or> sig \<ge> NSIG")
  case True
  with inv r show ?thesis by (auto simp: do_raise_def)
next
  case False
  with r obtain s1 where s1: "(if sig = SIGCONT \<and> state (tk s p) = TASK_STOPPED
      then set_task_running p s else Some s) = Some s1"
    by (auto simp: do_raise_def Let_def split: option.splits)
  then have i1: "sched_inv s1" using inv set_task_running_inv [OF inv] by (auto split: if_splits)
  let ?s2 = "upd_task p (\<lambda>t. t\<lparr>pending := sigaddset (pending t) sig, sig_pending := True\<rparr>) s1"
  have i2: "sched_inv ?s2" by (rule upd_flags_inv [OF i1]) simp
  have i3: "sched_inv (upd_task p (interrupted_update (\<lambda>_. True)) ?s2)"
    by (rule upd_flags_inv [OF i2]) simp
  from False r s1 i1 i2 set_task_running_inv [OF i3] show ?thesis
    by (simp add: do_raise_def Let_def split: if_splits) blast+
qed

lemma do_raise_other: "do_raise p sig s = Some (ret, s') \<Longrightarrow> q \<noteq> p \<Longrightarrow> tk s' q = tk s q"
  by (auto simp: do_raise_def Let_def set_task_running_frame(1) split: if_splits option.splits
      dest!: set_task_running_frame(1) [of p _ _ q])

lemma do_raise_delivers:
  assumes inv: "sched_inv s" and sig: "0 < sig" "sig < NSIG"
    and z: "state (tk s p) \<noteq> TASK_ZOMBIE" and m: "word_of_int sig AND pending (tk s p) = 0"
    and h: "sa_handler (actions (tk s p) ! nat sig) \<noteq> SIG_IGN"
  shows "\<exists>s'. do_raise p sig s = Some (0, s')
    \<and> pending (tk s' p) = sigaddset (pending (tk s p)) sig \<and> sig_pending (tk s' p)
    \<and> (state (tk s p) = TASK_SLEEPING \<and> \<not> sigisblocked (tk s p) sig
       \<longrightarrow> state (tk s' p) = TASK_RUNNING \<and> interrupted (tk s' p))"
proof (cases "sig = SIGCONT \<and> state (tk s p) = TASK_STOPPED")
  case True
  obtain s1 where s1: "set_task_running p s = Some s1" using set_task_running_total [OF inv z] by blast
  note t = set_task_running_frame(2) [OF s1]
  have "state (tk s1 p) = TASK_RUNNING" "pending (tk s1 p) = pending (tk s p)"
    by (subst t, simp)+
  with True s1 sig m h show ?thesis by (simp add: do_raise_def Let_def)
next
  case no_cont: False
  let ?s2 = "upd_task p (\<lambda>t. t\<lparr>pending := sigaddset (pending t) sig, sig_pending := True\<rparr>) s"
  let ?s3 = "upd_task p (interrupted_update (\<lambda>_. True)) ?s2"
  have s1: "(if sig = SIGCONT \<and> state (tk s p) = TASK_STOPPED then set_task_running p s else Some s) = Some s"
    by (rule if_not_P [OF no_cont])
  show ?thesis
  proof (cases "state (tk s p) = TASK_SLEEPING \<and> \<not> sigisblocked (tk s p) sig")
    case True
    have "sched_inv ?s3" by (intro upd_flags_inv inv) simp_all
    moreover have "state (tk ?s3 p) \<noteq> TASK_ZOMBIE" using z by simp
    ultimately obtain s4 where s4: "set_task_running p ?s3 = Some s4"
      using set_task_running_total by blast
    note t = set_task_running_frame(2) [OF s4]
    have "state (tk s4 p) = TASK_RUNNING" "interrupted (tk s4 p)" "sig_pending (tk s4 p)"
      "pending (tk s4 p) = sigaddset (pending (tk s p)) sig"
      by (subst t, simp)+
    moreover have "do_raise p sig s = Some (0, s4)"
      using True s4 sig m h unfolding do_raise_def Let_def s1
      by (simp add: sigisblocked_def del: fun_upd_apply) (simp add: sigisblocked_def)
    ultimately show ?thesis by blast
  next
    case False
    then have "do_raise p sig s = Some (0, ?s2)"
      using sig m h unfolding do_raise_def Let_def s1 by (auto simp: sigisblocked_def)
    with False show ?thesis by auto
  qed
qed

lemma raise_each_delivers:
  assumes "sched_inv s" and sig: "0 < sig" "sig < NSIG" and d: "distinct ps"
    and ok: "\<forall>p \<in> set ps. state (tk s p) \<noteq> TASK_ZOMBIE \<and> word_of_int sig AND pending (tk s p) = 0
               \<and> sa_handler (actions (tk s p) ! nat sig) \<noteq> SIG_IGN"
  shows "\<exists>s'. raise_each ps sig s = Some s' \<and>
    (\<forall>p \<in> set ps. pending (tk s' p) = sigaddset (pending (tk s p)) sig \<and> sig_pending (tk s' p)
       \<and> (state (tk s p) = TASK_SLEEPING \<and> \<not> sigisblocked (tk s p) sig
          \<longrightarrow> state (tk s' p) = TASK_RUNNING \<and> interrupted (tk s' p)))
    \<and> (\<forall>q. q \<notin> set ps \<longrightarrow> tk s' q = tk s q)"
  using assms(1) d ok
proof (induction ps arbitrary: s)
  case Nil
  then show ?case by simp
next
  case (Cons p ps)
  then have "state (tk s p) \<noteq> TASK_ZOMBIE" "word_of_int sig AND pending (tk s p) = 0"
    "sa_handler (actions (tk s p) ! nat sig) \<noteq> SIG_IGN" by auto
  from do_raise_delivers [OF Cons.prems(1) sig this] obtain s1 where
    r: "do_raise p sig s = Some (0, s1)" and
    p: "pending (tk s1 p) = sigaddset (pending (tk s p)) sig \<and> sig_pending (tk s1 p)
      \<and> (state (tk s p) = TASK_SLEEPING \<and> \<not> sigisblocked (tk s p) sig
         \<longrightarrow> state (tk s1 p) = TASK_RUNNING \<and> interrupted (tk s1 p))" by blast
  have other: "tk s1 q = tk s q" if "q \<noteq> p" for q using do_raise_other [OF r that] .
  have i1: "sched_inv s1" by (rule do_raise_inv [OF Cons.prems(1) r])
  have "p \<notin> set ps" using Cons.prems(2) by simp
  then have eq: "tk s1 q = tk s q" if "q \<in> set ps" for q using other that by metis
  have "\<forall>q \<in> set ps. state (tk s1 q) \<noteq> TASK_ZOMBIE \<and> word_of_int sig AND pending (tk s1 q) = 0
          \<and> sa_handler (actions (tk s1 q) ! nat sig) \<noteq> SIG_IGN"
    using Cons.prems(3) eq by simp
  with Cons.IH [OF i1] Cons.prems(2) obtain s2 where r2: "raise_each ps sig s1 = Some s2"
    and ps: "\<forall>q \<in> set ps. pending (tk s2 q) = sigaddset (pending (tk s1 q)) sig \<and> sig_pending (tk s2 q)
       \<and> (state (tk s1 q) = TASK_SLEEPING \<and> \<not> sigisblocked (tk s1 q) sig
          \<longrightarrow> state (tk s2 q) = TASK_RUNNING \<and> interrupted (tk s2 q))"
    and rest: "\<forall>q. q \<notin> set ps \<longrightarrow> tk s2 q = tk s1 q" by auto
  have "raise_each (p # ps) sig s = Some s2" by (simp add: r r2)
  moreover have "tk s2 p = tk s1 p" using rest \<open>p \<notin> set ps\<close> by simp
  ultimately show ?case using p ps eq rest other by (intro exI [of _ s2]) auto
qed

text \<open>
  What a signal other than SIGCONT does to a task.  It is lost on a task that ignores it, and on one whose pending set has a
  bit in common with the number of the signal (the test of \<open>do_raise\<close> for a signal that is already pending).
\<close>

definition raised :: "int \<Rightarrow> task \<Rightarrow> task \<Rightarrow> bool" where
  "raised sig t t' \<longleftrightarrow>
     (if word_of_int sig AND pending t \<noteq> 0 \<or> sa_handler (actions t ! nat sig) = SIG_IGN then t' = t
      else pending t' = sigaddset (pending t) sig \<and> sig_pending t'
        \<and> (state t = TASK_SLEEPING \<and> \<not> sigisblocked t sig \<longrightarrow> state t' = TASK_RUNNING \<and> interrupted t'))"

lemma do_raise_raised:
  assumes inv: "sched_inv s" and sig: "0 < sig" "sig < NSIG" "sig \<noteq> SIGCONT"
  shows "\<exists>r s'. do_raise p sig s = Some (r, s') \<and> raised sig (tk s p) (tk s' p)"
proof (cases "word_of_int sig AND pending (tk s p) \<noteq> 0 \<or> sa_handler (actions (tk s p) ! nat sig) = SIG_IGN")
  case True
  then have "raised sig (tk s p) (tk s p)" by (simp add: raised_def)
  then show ?thesis using True sig by (auto simp: do_raise_def Let_def)
next
  case False
  then have m: "word_of_int sig AND pending (tk s p) = 0" "sa_handler (actions (tk s p) ! nat sig) \<noteq> SIG_IGN" by simp_all
  show ?thesis
  proof (cases "state (tk s p) = TASK_ZOMBIE")
    case True
    then have "raised sig (tk s p) ((tk s p)\<lparr>pending := sigaddset (pending (tk s p)) sig, sig_pending := True\<rparr>)"
      using True m by (simp add: raised_def)
    then show ?thesis using True m sig by (simp add: do_raise_def Let_def)
  next
    case nz: False
    from do_raise_delivers [OF inv sig(1,2) nz m] obtain s' where "do_raise p sig s = Some (0, s')"
      "pending (tk s' p) = sigaddset (pending (tk s p)) sig \<and> sig_pending (tk s' p)
        \<and> (state (tk s p) = TASK_SLEEPING \<and> \<not> sigisblocked (tk s p) sig \<longrightarrow> state (tk s' p) = TASK_RUNNING \<and> interrupted (tk s' p))" by blast
    then show ?thesis using m by (intro exI [of _ 0] exI [of _ s']) (simp add: raised_def)
  qed
qed

lemma raise_each_raised:
  assumes "sched_inv s" and sig: "0 < sig" "sig < NSIG" "sig \<noteq> SIGCONT" and "distinct ps"
  shows "\<exists>s'. raise_each ps sig s = Some s' \<and> (\<forall>p \<in> set ps. raised sig (tk s p) (tk s' p)) \<and> (\<forall>q. q \<notin> set ps \<longrightarrow> tk s' q = tk s q)"
  using assms(1,5)
proof (induction ps arbitrary: s)
  case (Cons p ps)
  from do_raise_raised [OF Cons.prems(1) sig] obtain r s1 where r: "do_raise p sig s = Some (r, s1)" "raised sig (tk s p) (tk s1 p)" by blast
  note o = do_raise_other [OF r(1)]
  from Cons.IH [OF do_raise_inv [OF Cons.prems(1) r(1)]] Cons.prems(2) obtain s2 where s2: "raise_each ps sig s1 = Some s2"
    "\<forall>q \<in> set ps. raised sig (tk s1 q) (tk s2 q)" "\<forall>q. q \<notin> set ps \<longrightarrow> tk s2 q = tk s1 q" by auto
  have "raised sig (tk s q) (tk s2 q)" if "q \<in> set (p # ps)" for q
  proof (cases "q = p")
    case True
    then show ?thesis using r(2) s2(3) Cons.prems(2) by simp
  next
    case False
    then have "raised sig (tk s1 q) (tk s2 q)" using s2(2) that by simp
    then show ?thesis using o [OF False] by simp
  qed
  then show ?case using r(1) s2(1,3) o by auto
qed simp

lemma sigbits_eval:
  "sigbit SIGKILL = 512" "sigbit SIGSTOP = 524288" "sigbit SIGQUIT = 8" "sigbit SIGINT = 4"
  "sigbit SIGHUP = 2"
  by (simp_all add: sigbit_def)

lemma unblockable_apply: "SIG_APPLY_MASK m unblockable AND unblockable = 0"
  by (rule bit_word_eqI) (auto simp: SIG_APPLY_MASK_def bit_simps)

section \<open>Properties\<close>

text \<open>
  \<open>kill_pgrp\<close> reaches every process of the group: for a valid signal that no member
  ignores (and that the test on pending signals does not drop), it returns 0, the signal is
  pending in each member, and each member that slept without blocking it runs again, marked
  interrupted; tasks outside the group are unchanged.
\<close>

theorem kill_pgrp_reaches_members:
  assumes "sched_inv s" and "0 < sig" "sig < NSIG" and "0 \<le> pg"
    and "distinct tbl" and "pgrp_members tbl pg s \<noteq> []"
    and "\<forall>p \<in> set (pgrp_members tbl pg s). state (tk s p) \<noteq> TASK_ZOMBIE
           \<and> word_of_int sig AND pending (tk s p) = 0
           \<and> sa_handler (actions (tk s p) ! nat sig) \<noteq> SIG_IGN"
  shows "\<exists>s'. kill_pgrp tbl pg sig s = Some (0, s') \<and>
    (\<forall>p \<in> set tbl. pgid (tk s p) = pg \<longrightarrow>
       pending (tk s' p) = sigaddset (pending (tk s p)) sig \<and> sig_pending (tk s' p)
       \<and> (state (tk s p) = TASK_SLEEPING \<and> \<not> sigisblocked (tk s p) sig
          \<longrightarrow> state (tk s' p) = TASK_RUNNING \<and> interrupted (tk s' p)))
    \<and> (\<forall>q. q \<in> set tbl \<longrightarrow> pgid (tk s q) \<noteq> pg \<longrightarrow> tk s' q = tk s q)"
  using raise_each_delivers [OF assms(1,2,3) _ assms(7)] assms
  by (fastforce simp: kill_pgrp_def pgrp_members_def)

theorem kill_pgrp_reaches_members_witness:
  "\<exists>s'. kill_pgrp [10] 0 17 alone_state = Some (0, s') \<and> sig_pending (tk s' 10)"
proof -
  have "pgrp_members [10] 0 alone_state = [10]"
    by (simp add: pgrp_members_def alone_state_def root_task_def)
  moreover have "state (tk alone_state 10) \<noteq> TASK_ZOMBIE
      \<and> word_of_int 17 AND pending (tk alone_state 10) = 0
      \<and> sa_handler (actions (tk alone_state 10) ! nat 17) \<noteq> SIG_IGN"
    by (simp add: alone_state_def root_task_def root_sighand_def Let_def)
  ultimately show ?thesis
    using kill_pgrp_reaches_members [OF demo_states_inv(1), of 17 0 "[10]"]
    by (auto simp: NSIG_def alone_state_def root_task_def)
qed

text \<open>
  The test for an already pending signal in \<open>do_raise\<close> masks the pending set with the
  signal's number instead of its bit: a pending SIGQUIT (bit 3) makes a SIGKILL (number 9) vanish.
  The call reports success and the task is unchanged.
\<close>

theorem pending_sigquit_drops_sigkill:
  assumes "pending (tk s p) = sigbit SIGQUIT"
  shows "do_raise p SIGKILL s = Some (0, s) \<and> pending (tk s p) AND sigbit SIGKILL = 0"
  using assms by (simp add: do_raise_def NSIG_def sigbits_eval)

theorem pending_sigquit_drops_sigkill_witness:
  "\<exists>s. pending (tk s 10) = sigbit SIGQUIT \<and> do_raise 10 SIGKILL s = Some (0, s)"
  using pending_sigquit_drops_sigkill
    [of "upd_task 10 (pending_update (\<lambda>_. sigbit SIGQUIT)) alone_state" 10]
  by (intro exI [of _ "upd_task 10 (pending_update (\<lambda>_. sigbit SIGQUIT)) alone_state"]) simp

text \<open>
  \<open>sigprocmask\<close>, whatever it is asked, leaves SIGKILL and SIGSTOP blocked only if they
  were before (with SIG_SETMASK never), and it changes nothing when it reports an error.
\<close>

theorem sigprocmask_keeps_kill_unblocked:
  "case sys_sigprocmask cur how sgs old s of (ret, out, s') \<Rightarrow>
     (blocked (tk s' cur) AND unblockable) AND NOT (blocked (tk s cur)) = 0
     \<and> (ret = 0 \<longrightarrow> how = 0 \<longrightarrow> sgs \<noteq> None \<longrightarrow> blocked (tk s' cur) AND unblockable = 0)
     \<and> (ret \<noteq> 0 \<longrightarrow> s' = s) \<and> (ret = 0 \<longrightarrow> (out = Some (blocked (tk s cur)) \<longleftrightarrow> old = Some True))"
proof -
  have a: "(b AND unblockable) AND NOT b = 0"
    "((b OR SIG_APPLY_MASK m unblockable) AND unblockable) AND NOT b = 0"
    "((b AND NOT (SIG_APPLY_MASK m unblockable)) AND unblockable) AND NOT b = 0"
    "(SIG_APPLY_MASK m unblockable AND unblockable) AND NOT b = 0" for b m :: u64
    by (rule bit_word_eqI, auto simp: SIG_APPLY_MASK_def bit_simps)+
  show ?thesis
    by (auto simp: sys_sigprocmask_def Let_def a unblockable_apply split: option.splits if_splits)
qed

theorem sigprocmask_keeps_kill_unblocked_witness:
  "blocked (tk (snd (snd (sys_sigprocmask 10 0 (Some (0xFFFFFFFF, True)) None alone_state))) 10) AND unblockable = 0"
proof -
  have "fst (sys_sigprocmask 10 0 (Some (0xFFFFFFFF, True)) None alone_state) = 0"
    by (simp add: sys_sigprocmask_def Let_def)
  with sigprocmask_keeps_kill_unblocked
    [where cur = 10 and how = 0 and sgs = "Some (0xFFFFFFFF, True)" and old = None and s = alone_state]
  show ?thesis by (auto split: prod.splits)
qed

end
