(* ===== verification/WaitQueue.thy ===== *)
theory WaitQueue imports Signals begin

text \<open>
  Wait queues, \<open>kernel/kernel/wait.c\<close>.  A queue is the list of its entries, oldest first;
  an entry is the address \<open>kmalloc\<close> gave it and the task that waits.  A task sleeps in three
  parts: \<open>sleep_enter\<close> up to the \<open>yield\<close> of \<open>sleep_task_on\<close>, whatever other tasks do
  meanwhile, and \<open>finish_wait\<close>.  The \<open>wakeup\<close> callback of an entry is never called by
  the code and is left out.
\<close>

section \<open>Data and operations\<close>

type_synonym wq = "(nat \<times> tid) list"

definition add_wait_entry :: "nat \<Rightarrow> tid \<Rightarrow> wq \<Rightarrow> wq" where
  "add_wait_entry e p q = q @ [(e, p)]"

definition remove_wait_entry :: "nat \<Rightarrow> wq \<Rightarrow> wq" where
  "remove_wait_entry e q = filter (\<lambda>x. fst x \<noteq> e) q"

definition find_waiting_task :: "sched \<Rightarrow> wq \<Rightarrow> int \<Rightarrow> (nat \<times> tid) option" where
  "find_waiting_task s q pd = List.find (\<lambda>x. pid (tk s (snd x)) = pd) q"

definition task_interrupted_ack :: "tid \<Rightarrow> sched \<Rightarrow> bool \<times> sched" where
  "task_interrupted_ack cur s =
     (if interrupted (tk s cur) then (True, upd_task cur (interrupted_update (\<lambda>_. False)) s)
      else (False, s))"

definition finish_wait :: "tid \<Rightarrow> nat \<Rightarrow> wq \<Rightarrow> sched \<Rightarrow> (int \<times> wq \<times> sched) option" where
  "finish_wait cur e q s =
     (case set_task_running cur s of
        None \<Rightarrow> None
      | Some s1 \<Rightarrow>
          (let q1 = remove_wait_entry e q; r = task_interrupted_ack cur s1 in
           Some (if fst r then - EINTR else 0, q1, snd r)))"

text \<open>
  \<open>ent\<close> is what \<open>alloc_wq_entry\<close> returns.  The result is an error, or the entry to
  finish the wait with.
\<close>

definition sleep_enter :: "tid \<Rightarrow> nat option \<Rightarrow> wq \<Rightarrow> sched \<Rightarrow> ((int + nat) \<times> wq \<times> sched) option" where
  "sleep_enter p ent q s =
     (case set_task_sleeping p s of
        None \<Rightarrow> None
      | Some s1 \<Rightarrow>
          (case ent of
             None \<Rightarrow> Some (Inl (- ENOMEM), q, s1)
           | Some e \<Rightarrow> Some (Inr e, add_wait_entry e p q, s1)))"

text \<open>The whole of \<open>sleep_on\<close>; \<open>others\<close> is what the rest of the system does in between.\<close>

definition sleep_on ::
  "tid \<Rightarrow> nat option \<Rightarrow> (wq \<times> sched \<Rightarrow> wq \<times> sched) \<Rightarrow> wq \<Rightarrow> sched \<Rightarrow> (int \<times> wq \<times> sched) option" where
  "sleep_on cur ent others q s =
     (case sleep_enter cur ent q s of
        None \<Rightarrow> None
      | Some (Inl err, q1, s1) \<Rightarrow> Some (err, q1, s1)
      | Some (Inr e, q1, s1) \<Rightarrow> (case others (q1, s1) of (q2, s2) \<Rightarrow> finish_wait cur e q2 s2))"

definition wakeup_by_pid_on :: "int \<Rightarrow> wq \<Rightarrow> sched \<Rightarrow> (wq \<times> sched) option" where
  "wakeup_by_pid_on pd q s =
     (case find_waiting_task s q pd of
        None \<Rightarrow> Some (q, s)
      | Some (e, p) \<Rightarrow> map_option (\<lambda>s1. (remove_wait_entry e q, s1)) (set_task_running p s))"

definition wake_first :: "wq \<Rightarrow> sched \<Rightarrow> (tid option \<times> wq \<times> sched) option" where
  "wake_first q s =
     (case q of
        [] \<Rightarrow> Some (None, q, s)
      | (e, p) # _ \<Rightarrow>
          map_option (\<lambda>s1. (Some p, remove_wait_entry e q, s1)) (set_task_running p s))"

fun wake_each :: "wq \<Rightarrow> sched \<Rightarrow> sched option" where
  "wake_each [] s = Some s"
| "wake_each ((e, p) # q) s =
     (case set_task_running p s of None \<Rightarrow> None | Some s1 \<Rightarrow> wake_each q s1)"

definition wake_all :: "wq \<Rightarrow> sched \<Rightarrow> (wq \<times> sched) option" where
  "wake_all q s = map_option (\<lambda>s1. ([], s1)) (wake_each q s)"

definition notify_parent :: "tid option \<Rightarrow> tid option \<Rightarrow> wq \<Rightarrow> sched \<Rightarrow> (wq \<times> sched) option" where
  "notify_parent par chld wait_q s =
     (case (par, chld) of
        (Some pa, Some ch) \<Rightarrow>
          (case (if parent_wait (tk s ch) \<or> waiting_any (tk s pa)
                 then wakeup_by_pid_on (pid (tk s pa)) wait_q
                        (upd_task pa (waiting_any_update (\<lambda>_. False)) s)
                 else Some (wait_q, s)) of
             None \<Rightarrow> None
           | Some (q1, s1) \<Rightarrow> map_option (\<lambda>r. (q1, snd r)) (do_raise pa SIGCHLD s1))
      | _ \<Rightarrow> Some (wait_q, s))"

section \<open>Waking: the interface to the scheduler\<close>

text \<open>
  What the wait queues rely on: waking a live task succeeds and makes it runnable, keeps the
  invariant, and takes nothing away from the other tasks.
\<close>

locale waker =
  fixes inv :: "'s \<Rightarrow> bool"
    and wake :: "'p \<Rightarrow> 's \<Rightarrow> 's option"
    and alive :: "'s \<Rightarrow> 'p \<Rightarrow> bool"
    and runnable :: "'s \<Rightarrow> 'p \<Rightarrow> bool"
  assumes wake_ok: "inv s \<Longrightarrow> alive s p \<Longrightarrow> \<exists>s'. wake p s = Some s'"
    and wake_inv: "inv s \<Longrightarrow> wake p s = Some s' \<Longrightarrow> inv s'"
    and wake_runnable: "wake p s = Some s' \<Longrightarrow> runnable s' p"
    and wake_mono: "wake p s = Some s' \<Longrightarrow> runnable s q \<Longrightarrow> runnable s' q"
    and wake_alive: "wake p s = Some s' \<Longrightarrow> alive s q \<Longrightarrow> alive s' q"
begin

primrec wake_list :: "'p list \<Rightarrow> 's \<Rightarrow> 's option" where
  "wake_list [] s = Some s"
| "wake_list (p # ps) s = (case wake p s of None \<Rightarrow> None | Some s1 \<Rightarrow> wake_list ps s1)"

lemma wake_list_runs_all:
  "inv s \<Longrightarrow> \<forall>p \<in> set ps. alive s p \<Longrightarrow>
   \<exists>s'. wake_list ps s = Some s' \<and> inv s' \<and> (\<forall>p \<in> set ps. runnable s' p) \<and>
        (\<forall>q. runnable s q \<longrightarrow> runnable s' q)"
proof (induction ps arbitrary: s)
  case Nil
  then show ?case by simp
next
  case (Cons p ps)
  from Cons.prems wake_ok [of s p] obtain s1 where s1: "wake p s = Some s1" by auto
  have "inv s1" "\<forall>q \<in> set ps. alive s1 q"
    using Cons.prems wake_inv [OF _ s1] wake_alive [OF s1] by auto
  from Cons.IH [OF this] obtain s2 where "wake_list ps s1 = Some s2" "inv s2"
    "\<forall>q \<in> set ps. runnable s2 q" "\<forall>q. runnable s1 q \<longrightarrow> runnable s2 q" by blast
  with s1 wake_runnable [OF s1] wake_mono [OF s1] show ?case by auto
qed

end

abbreviation task_alive :: "sched \<Rightarrow> tid \<Rightarrow> bool" where
  "task_alive s p \<equiv> state (tk s p) \<noteq> TASK_ZOMBIE"

abbreviation task_runnable :: "sched \<Rightarrow> tid \<Rightarrow> bool" where
  "task_runnable s p \<equiv> state (tk s p) = TASK_RUNNING"

lemma set_task_running_state:
  "set_task_running p s = Some s' \<Longrightarrow>
   state (tk s' q) = (if q = p then TASK_RUNNING else state (tk s q))"
  by (auto simp: set_task_running_def Let_def rq_add_locked_def split: if_splits)

interpretation sw: waker sched_inv set_task_running task_alive task_runnable
proof
  show "\<exists>s'. set_task_running p s = Some s'" if "sched_inv s" "task_alive s p" for s p
    by (rule set_task_running_total [OF that])
  show "sched_inv s'" if "sched_inv s" "set_task_running p s = Some s'" for s p s'
    by (rule set_task_running_inv [OF that])
qed (simp_all add: set_task_running_state)

lemma wake_each_list: "wake_each q s = sw.wake_list (map snd q) s"
  by (induction q s rule: wake_each.induct) (auto split: option.splits)

section \<open>Properties\<close>

text \<open>
  \<open>wake_all\<close> on a queue of live tasks never panics, empties the queue and leaves every
  task that waited in it able to run; no task that could run is lost.
\<close>

theorem wake_all_wakes_all:
  assumes "sched_inv s" and "\<forall>(e, p) \<in> set q. state (tk s p) \<noteq> TASK_ZOMBIE"
  shows "\<exists>s'. wake_all q s = Some ([], s') \<and> sched_inv s' \<and>
    (\<forall>(e, p) \<in> set q. state (tk s' p) = TASK_RUNNING) \<and>
    (\<forall>p. state (tk s p) = TASK_RUNNING \<longrightarrow> state (tk s' p) = TASK_RUNNING)"
  using sw.wake_list_runs_all [OF assms(1), of "map snd q"] assms(2)
  by (fastforce simp: wake_all_def wake_each_list)

theorem wake_all_wakes_all_witness:
  "\<exists>s'. wake_all [(1, 10), (2, 11)] panic_state = Some ([], s') \<and> sched_inv s'"
  using wake_all_wakes_all [OF demo_states_inv(2), of "[(1, 10), (2, 11)]"]
  by (auto simp: panic_state_def root_task_def)

lemma set_task_sleeping_running:
  assumes "state (tk s p) = TASK_RUNNING"
  shows "\<exists>s'. set_task_sleeping p s = Some s' \<and> state (tk s' p) = TASK_SLEEPING \<and> \<not> on_rq (tk s' p)
    \<and> interrupted (tk s' p) = interrupted (tk s p) \<and> (\<forall>q. q \<noteq> p \<longrightarrow> tk s' q = tk s q)"
  using assms by (cases "on_rq (tk s p)") (simp_all add: set_task_sleeping_def rq_del_locked_def)

lemma finish_wait_result:
  assumes inv: "sched_inv s" and live: "state (tk s cur) \<noteq> TASK_ZOMBIE"
  shows "\<exists>s'. finish_wait cur e q s =
      Some (if interrupted (tk s cur) then - EINTR else 0, remove_wait_entry e q, s')
    \<and> state (tk s' cur) = TASK_RUNNING \<and> \<not> interrupted (tk s' cur) \<and> sched_inv s'"
proof -
  obtain s1 where s1: "set_task_running cur s = Some s1" using set_task_running_total [OF inv live] by blast
  have i1: "sched_inv s1" by (rule set_task_running_inv [OF inv s1])
  have "interrupted (tk s1 cur) = interrupted (tk s cur)" "state (tk s1 cur) = TASK_RUNNING"
    by (subst set_task_running_frame(2) [OF s1], simp)+
  moreover have "sched_inv (upd_task cur (interrupted_update (\<lambda>_. False)) s1)"
    by (rule upd_flags_inv [OF i1]) simp
  ultimately show ?thesis using i1 by (simp add: finish_wait_def s1 task_interrupted_ack_def Let_def)
qed

text \<open>
  A running task that sleeps on a queue is on it, off its run queue and not runnable while
  the others run; if they leave it alive, the call returns 0, or -EINTR exactly when it was
  interrupted meanwhile, with the mark taken back, the task running and its entry gone.
\<close>

theorem sleep_on_result:
  assumes "state (tk s cur) = TASK_RUNNING"
    and "\<And>q1 s1. (e, cur) \<in> set q1 \<Longrightarrow> state (tk s1 cur) = TASK_SLEEPING \<Longrightarrow> \<not> on_rq (tk s1 cur) \<Longrightarrow>
           others (q1, s1) = (q2 q1 s1, s2 q1 s1) \<and> sched_inv (s2 q1 s1) \<and>
           state (tk (s2 q1 s1) cur) \<noteq> TASK_ZOMBIE"
  shows "\<exists>q1 s1 q3 s3. (e, cur) \<in> set q1 \<and> state (tk s1 cur) = TASK_SLEEPING \<and> \<not> on_rq (tk s1 cur)
    \<and> sleep_on cur (Some e) others q s =
        Some (if interrupted (tk (s2 q1 s1) cur) then - EINTR else 0, q3, s3)
    \<and> q3 = filter (\<lambda>x. fst x \<noteq> e) (q2 q1 s1)
    \<and> state (tk s3 cur) = TASK_RUNNING \<and> \<not> interrupted (tk s3 cur) \<and> sched_inv s3"
proof -
  obtain s1 where s1: "set_task_sleeping cur s = Some s1" "state (tk s1 cur) = TASK_SLEEPING"
    "\<not> on_rq (tk s1 cur)"
    using set_task_sleeping_running [OF assms(1)] by blast
  let ?q1 = "add_wait_entry e cur q"
  have q1: "(e, cur) \<in> set ?q1" by (simp add: add_wait_entry_def)
  note o = assms(2) [OF q1 s1(2,3)]
  obtain s3 where "finish_wait cur e (q2 ?q1 s1) (s2 ?q1 s1) =
      Some (if interrupted (tk (s2 ?q1 s1) cur) then - EINTR else 0, remove_wait_entry e (q2 ?q1 s1), s3)"
    "state (tk s3 cur) = TASK_RUNNING" "\<not> interrupted (tk s3 cur)" "sched_inv s3"
    using finish_wait_result o by blast
  then show ?thesis using o q1 s1
    by (intro exI [of _ ?q1] exI [of _ s1] exI [of _ "remove_wait_entry e (q2 ?q1 s1)"] exI [of _ s3])
      (simp add: sleep_on_def sleep_enter_def remove_wait_entry_def)
qed

theorem sleep_on_result_witness:
  "\<exists>q3 s3. sleep_on 10 (Some 1) (\<lambda>_. ([], alone_state)) [] alone_state = Some (0, q3, s3)
     \<and> state (tk s3 10) = TASK_RUNNING"
proof -
  have a: "state (tk alone_state 10) = TASK_RUNNING" "\<not> interrupted (tk alone_state 10)"
    by (simp_all add: alone_state_def root_task_def)
  from sleep_on_result [where s = alone_state and cur = 10 and e = 1 and q = "[]"
      and others = "\<lambda>_. ([], alone_state)" and ?q2.0 = "\<lambda>_ _. []" and ?s2.0 = "\<lambda>_ _. alone_state"]
  show ?thesis using a demo_states_inv(1) by auto
qed

text \<open>
  \<open>wake_first\<close> serves the waiters in the order in which they came: it wakes the oldest
  one only, and takes exactly its entry off the queue.
\<close>

theorem wake_first_oldest:
  assumes inv: "sched_inv s" and q: "q \<noteq> []" and dist: "distinct (map fst q)"
    and live: "state (tk s (snd (hd q))) \<noteq> TASK_ZOMBIE"
  shows "\<exists>s'. wake_first q s = Some (Some (snd (hd q)), tl q, s')
    \<and> state (tk s' (snd (hd q))) = TASK_RUNNING
    \<and> (\<forall>p. p \<noteq> snd (hd q) \<longrightarrow> tk s' p = tk s p)"
proof -
  obtain e p r where q': "q = (e, p) # r" using q by (cases q) auto
  have "remove_wait_entry e q = r"
    using dist by (auto simp: q' remove_wait_entry_def filter_id_conv image_iff)
  moreover obtain s' where "set_task_running p s = Some s'"
    using set_task_running_total [OF inv, of p] live q' by auto
  ultimately show ?thesis using set_task_running_frame(1) [of p s s'] set_task_running_state [of p s s' p]
    by (simp add: wake_first_def q')
qed

theorem wake_first_oldest_witness:
  "\<exists>s'. wake_first [(1, 10), (2, 11)] panic_state = Some (Some 10, [(2, 11)], s')"
  using wake_first_oldest [OF demo_states_inv(2), of "[(1, 10), (2, 11)]"]
  by (auto simp: panic_state_def root_task_def)

text \<open>
  When the entry of the queue cannot be allocated, \<open>sleep_on\<close> returns -ENOMEM with the
  caller left marked sleeping, off the run queue and on no wait queue: the next time it gives up
  the CPU nothing but a signal can wake it.
\<close>

theorem sleep_on_enomem_leaves_task_asleep:
  assumes "state (tk s cur) = TASK_RUNNING"
  shows "\<exists>s'. sleep_on cur None others q s = Some (- ENOMEM, q, s')
    \<and> state (tk s' cur) = TASK_SLEEPING \<and> \<not> on_rq (tk s' cur)"
  using set_task_sleeping_running [OF assms] by (auto simp: sleep_on_def sleep_enter_def)

theorem sleep_on_enomem_leaves_task_asleep_witness:
  "\<exists>s'. sleep_on 10 None id [] alone_state = Some (- ENOMEM, [], s') \<and> state (tk s' 10) = TASK_SLEEPING"
  using sleep_on_enomem_leaves_task_asleep [of alone_state 10 id "[]"]
  by (auto simp: alone_state_def root_task_def)

end
