(* ===== verification/Sync.thy ===== *)
theory Sync imports Sched begin

text \<open>
  Mutexes and semaphores, \<open>kernel/kernel/sync.c\<close>, as step relations in which the atomic
  parts of the operations of any number of tasks interleave.  What runs under
  \<open>wait_lock\<close> is one step, as is each atomic operation outside it.  A task is named by its
  pid; of the scheduler's state only \<open>task.state\<close> matters here (\<open>mst\<close>): a task takes
  a step only while it is \<open>TASK_RUNNING\<close>.
\<close>

section \<open>Mutexes\<close>

text \<open>
  Where a task is in \<open>mutex_lock\<close> or \<open>mutex_unlock\<close>: outside, after the fast path failed,
  in the \<open>schedule\<close> of the slow path, in the critical section, before the
  \<open>set_task_running\<close> of the waiter it handed the mutex to.
\<close>

datatype mpc = MOut | MSlow | MAsleep | MHolds | MWake nat

record mutex =
  owner :: int
  waiters :: "nat list"
  mpc :: "nat \<Rightarrow> mpc"
  mst :: "nat \<Rightarrow> task_state"

definition mutex_init :: "mutex" where
  "mutex_init = \<lparr>owner = -1, waiters = [], mpc = (\<lambda>_. MOut), mst = (\<lambda>_. TASK_RUNNING)\<rparr>"

definition mutex_lock_fast :: "nat \<Rightarrow> mutex \<Rightarrow> mutex" where
  "mutex_lock_fast t m =
     (if owner m = -1 then m\<lparr>owner := int t, mpc := (mpc m)(t := MHolds)\<rparr>
      else m\<lparr>mpc := (mpc m)(t := MSlow)\<rparr>)"

text \<open>One round of the loop of \<open>__mutex_lock_slow\<close>, from taking \<open>wait_lock\<close> to releasing it.\<close>

definition mutex_slow_round :: "nat \<Rightarrow> mutex \<Rightarrow> mutex" where
  "mutex_slow_round t m =
     (let m1 = (if mst m t = TASK_RUNNING then m\<lparr>mst := (mst m)(t := TASK_UNINTERRUPTIBLE)\<rparr> else m) in
      if owner m1 = int t
      then m1\<lparr>mst := (mst m1)(t := TASK_RUNNING), mpc := (mpc m1)(t := MHolds)\<rparr>
      else m1\<lparr>mpc := (mpc m1)(t := MAsleep)\<rparr>)"

definition mutex_lock_slow :: "nat \<Rightarrow> mutex \<Rightarrow> mutex" where
  "mutex_lock_slow t m = mutex_slow_round t (m\<lparr>waiters := waiters m @ [t]\<rparr>)"

definition mutex_unlock :: "nat \<Rightarrow> mutex \<Rightarrow> mutex" where
  "mutex_unlock t m =
     (case waiters m of
        [] \<Rightarrow> m\<lparr>owner := -1, mpc := (mpc m)(t := MOut)\<rparr>
      | w # ws \<Rightarrow> m\<lparr>owner := int w, waiters := ws, mpc := (mpc m)(t := MWake w)\<rparr>)"

definition mutex_wake :: "nat \<Rightarrow> nat \<Rightarrow> mutex \<Rightarrow> mutex" where
  "mutex_wake t w m = m\<lparr>mst := (mst m)(w := TASK_RUNNING), mpc := (mpc m)(t := MOut)\<rparr>"

inductive mutex_step :: "mutex \<Rightarrow> mutex \<Rightarrow> bool" where
  fast: "mst m t = TASK_RUNNING \<Longrightarrow> mpc m t = MOut \<Longrightarrow> mutex_step m (mutex_lock_fast t m)"
| slow: "mst m t = TASK_RUNNING \<Longrightarrow> mpc m t = MSlow \<Longrightarrow> mutex_step m (mutex_lock_slow t m)"
| resume: "mst m t = TASK_RUNNING \<Longrightarrow> mpc m t = MAsleep \<Longrightarrow> mutex_step m (mutex_slow_round t m)"
| unlock: "mst m t = TASK_RUNNING \<Longrightarrow> mpc m t = MHolds \<Longrightarrow> mutex_step m (mutex_unlock t m)"
| wake: "mst m t = TASK_RUNNING \<Longrightarrow> mpc m t = MWake w \<Longrightarrow> mutex_step m (mutex_wake t w m)"

text \<open>
  The invariant: the holder is the owner; the waiters are the tasks asleep that have not been
  handed the mutex; a task that has been handed it is awake or about to be woken.
\<close>

definition mtask_ok :: "mutex \<Rightarrow> nat \<Rightarrow> bool" where
  "mtask_ok m t \<longleftrightarrow>
     (if mpc m t = MAsleep
      then (t \<in> set (waiters m) \<longleftrightarrow> owner m \<noteq> int t) \<and>
           (owner m = int t \<longrightarrow> mst m t = TASK_RUNNING \<or> (\<exists>u. mpc m u = MWake t)) \<and>
           (mst m t = TASK_RUNNING \<or> mst m t = TASK_UNINTERRUPTIBLE)
      else (mpc m t = MHolds \<longleftrightarrow> owner m = int t) \<and> t \<notin> set (waiters m) \<and>
           mst m t = TASK_RUNNING)"

definition mutex_inv :: "mutex \<Rightarrow> bool" where
  "mutex_inv m \<longleftrightarrow> distinct (waiters m) \<and> (\<forall>t. mtask_ok m t)"

lemma mutex_invD: "mutex_inv m \<Longrightarrow> mtask_ok m t" "mutex_inv m \<Longrightarrow> distinct (waiters m)"
  by (simp_all add: mutex_inv_def)

lemma mutex_invI: "distinct (waiters m) \<Longrightarrow> (\<And>t. mtask_ok m t) \<Longrightarrow> mutex_inv m"
  by (simp add: mutex_inv_def)

lemma mtask_frame:
  assumes "mtask_ok m x" and "mpc m' x = mpc m x" and "mst m' x = mst m x"
    and "x \<in> set (waiters m') \<longleftrightarrow> x \<in> set (waiters m)"
    and "owner m' = int x \<longleftrightarrow> owner m = int x"
    and "\<And>u. mpc m u = MWake x \<Longrightarrow> mpc m' u = MWake x"
  shows "mtask_ok m' x"
  using assms unfolding mtask_ok_def by (cases "mpc m x = MAsleep") auto

lemma mtask_out:
  "mtask_ok m x \<Longrightarrow> mpc m x \<noteq> MAsleep \<Longrightarrow> mpc m x \<noteq> MHolds \<Longrightarrow>
   owner m \<noteq> int x \<and> x \<notin> set (waiters m) \<and> mst m x = TASK_RUNNING"
  by (simp add: mtask_ok_def)

lemma mtask_holds:
  "mtask_ok m x \<Longrightarrow> mpc m x = MHolds \<Longrightarrow>
   owner m = int x \<and> x \<notin> set (waiters m) \<and> mst m x = TASK_RUNNING"
  by (simp add: mtask_ok_def)

lemma mutex_init_inv: "mutex_inv mutex_init"
  by (simp add: mutex_inv_def mtask_ok_def mutex_init_def)

lemma mutex_lock_fast_inv:
  assumes inv: "mutex_inv m" and pc: "mpc m t = MOut"
  shows "mutex_inv (mutex_lock_fast t m)"
proof (rule mutex_invI)
  let ?m = "mutex_lock_fast t m"
  have w: "waiters ?m = waiters m" "mst ?m = mst m" by (simp_all add: mutex_lock_fast_def)
  with mutex_invD(2) [OF inv] show "distinct (waiters ?m)" by simp
  have t: "owner m \<noteq> int t" "t \<notin> set (waiters m)" "mst m t = TASK_RUNNING"
    using mtask_out [OF mutex_invD(1) [OF inv], of t] pc by auto
  show "mtask_ok ?m x" for x
  proof (cases "x = t")
    case True
    with t w show ?thesis by (simp add: mtask_ok_def mutex_lock_fast_def)
  next
    case False
    have "mpc m u = MWake x \<Longrightarrow> mpc ?m u = MWake x" for u using pc by (cases "u = t") (auto simp: mutex_lock_fast_def)
    with False w show ?thesis
      by (intro mtask_frame [OF mutex_invD(1) [OF inv]]) (simp_all add: mutex_lock_fast_def)
  qed
qed

text \<open>A round of the slow path by a task that is on the queue or has been handed the mutex.\<close>

lemma mutex_slow_round_inv:
  assumes d: "distinct (waiters m)" and other: "\<And>x. x \<noteq> t \<Longrightarrow> mtask_ok m x"
    and t: "t \<in> set (waiters m) \<longleftrightarrow> owner m \<noteq> int t" "mst m t = TASK_RUNNING"
    and pc: "\<And>w. mpc m t \<noteq> MWake w"
  shows "mutex_inv (mutex_slow_round t m)"
proof (rule mutex_invI)
  let ?m = "mutex_slow_round t m"
  have w: "waiters ?m = waiters m" "owner ?m = owner m"
    by (simp_all add: mutex_slow_round_def Let_def)
  with d show "distinct (waiters ?m)" by simp
  show "mtask_ok ?m x" for x
  proof (cases "x = t")
    case True
    with t w show ?thesis by (simp add: mtask_ok_def mutex_slow_round_def Let_def)
  next
    case False
    have "mpc m u = MWake x \<Longrightarrow> mpc ?m u = MWake x" for u
      using pc by (cases "u = t") (auto simp: mutex_slow_round_def Let_def)
    with False w show ?thesis
      by (intro mtask_frame [OF other]) (simp_all add: mutex_slow_round_def Let_def)
  qed
qed

lemma mutex_resume_inv:
  assumes inv: "mutex_inv m" and "mpc m t = MAsleep" and "mst m t = TASK_RUNNING"
  shows "mutex_inv (mutex_slow_round t m)"
  using mutex_slow_round_inv [OF mutex_invD(2,1) [OF inv], of t] mutex_invD(1) [OF inv, of t] assms(2,3)
  by (simp add: mtask_ok_def)

lemma mutex_lock_slow_inv:
  assumes inv: "mutex_inv m" and pc: "mpc m t = MSlow"
  shows "mutex_inv (mutex_lock_slow t m)"
proof -
  let ?m = "m\<lparr>waiters := waiters m @ [t]\<rparr>"
  have t: "owner m \<noteq> int t" "t \<notin> set (waiters m)" "mst m t = TASK_RUNNING"
    using mtask_out [OF mutex_invD(1) [OF inv], of t] pc by auto
  have "mtask_ok ?m x" if "x \<noteq> t" for x
    using that by (intro mtask_frame [OF mutex_invD(1) [OF inv]]) auto
  with t mutex_invD(2) [OF inv] pc show ?thesis unfolding mutex_lock_slow_def
    by (intro mutex_slow_round_inv) simp_all
qed

lemma mutex_unlock_inv:
  assumes inv: "mutex_inv m" and pc: "mpc m t = MHolds"
  shows "mutex_inv (mutex_unlock t m)"
proof -
  have t: "owner m = int t" "t \<notin> set (waiters m)" "mst m t = TASK_RUNNING"
    using mtask_holds [OF mutex_invD(1) [OF inv], of t] pc by auto
  note x = mtask_frame [OF mutex_invD(1) [OF inv]]
  show ?thesis
  proof (cases "waiters m")
    case Nil
    then have m': "mutex_unlock t m = m\<lparr>owner := -1, mpc := (mpc m)(t := MOut)\<rparr>"
      by (simp add: mutex_unlock_def)
    have "mtask_ok (m\<lparr>owner := -1, mpc := (mpc m)(t := MOut)\<rparr>) x" for x
    proof (cases "x = t")
      case False
      have "mpc m u = MWake x \<Longrightarrow> u \<noteq> t" for u using pc by force
      with False t show ?thesis by (intro x) simp_all
    qed (use t in \<open>simp add: mtask_ok_def\<close>)
    then show ?thesis unfolding m' using Nil by (intro mutex_invI) simp_all
  next
    case (Cons w ws)
    let ?m = "m\<lparr>owner := int w, waiters := ws, mpc := (mpc m)(t := MWake w)\<rparr>"
    have m': "mutex_unlock t m = ?m" using Cons by (simp add: mutex_unlock_def)
    have d: "w \<notin> set ws" "distinct ws" using mutex_invD(2) [OF inv] Cons by auto
    have w: "mpc m w = MAsleep" "mst m w = TASK_RUNNING \<or> mst m w = TASK_UNINTERRUPTIBLE" "w \<noteq> t"
      using mutex_invD(1) [OF inv, of w] Cons t by (auto simp: mtask_ok_def split: if_splits)
    have "mtask_ok ?m x" for x
    proof -
      consider "x = t" | "x = w" | "x \<noteq> t" "x \<noteq> w" by blast
      then show ?thesis
      proof cases
        case 1
        with t w Cons show ?thesis by (simp add: mtask_ok_def)
      next
        case 2
        with w d show ?thesis by (auto simp: mtask_ok_def)
      next
        case 3
        have "mpc m u = MWake x \<Longrightarrow> mpc ?m u = MWake x" for u using pc by (cases "u = t") auto
        with 3 t Cons show ?thesis by (intro x) auto
      qed
    qed
    with d show ?thesis unfolding m' by (intro mutex_invI) simp_all
  qed
qed

lemma mutex_wake_inv:
  assumes inv: "mutex_inv m" and pc: "mpc m t = MWake w"
  shows "mutex_inv (mutex_wake t w m)"
proof (rule mutex_invI)
  let ?m = "mutex_wake t w m"
  have m: "waiters ?m = waiters m" "owner ?m = owner m" by (simp_all add: mutex_wake_def)
  with mutex_invD(2) [OF inv] show "distinct (waiters ?m)" by simp
  have t: "owner m \<noteq> int t" "t \<notin> set (waiters m)" "mst m t = TASK_RUNNING"
    using mtask_out [OF mutex_invD(1) [OF inv], of t] pc by auto
  show "mtask_ok ?m x" for x
  proof (cases "x = t")
    case True
    with t m show ?thesis by (simp add: mtask_ok_def mutex_wake_def)
  next
    case False
    show ?thesis
    proof (cases "x = w")
      case True
      with False mutex_invD(1) [OF inv, of x] show ?thesis by (simp add: mtask_ok_def mutex_wake_def)
    next
      case neq: False
      have "mpc m u = MWake x \<Longrightarrow> mpc ?m u = MWake x" for u
        using pc neq by (cases "u = t") (auto simp: mutex_wake_def)
      with False neq m show ?thesis
        by (intro mtask_frame [OF mutex_invD(1) [OF inv]]) (simp_all add: mutex_wake_def)
    qed
  qed
qed

interpretation mx: step_system mutex_step mutex_inv
proof
  show "mutex_inv m'" if "mutex_inv m" "mutex_step m m'" for m m'
    using that(2,1)
    by cases (auto intro: mutex_lock_fast_inv mutex_lock_slow_inv mutex_resume_inv
        mutex_unlock_inv mutex_wake_inv)
qed

abbreviation mutex_reachable :: "mutex \<Rightarrow> bool" where
  "mutex_reachable m \<equiv> mutex_step\<^sup>*\<^sup>* mutex_init m"

text \<open>When one task sleeps and the others are outside the code, only new calls are possible.\<close>

lemma idle_but_sleeper:
  assumes "mpc m s = MAsleep" and "mst m s \<noteq> TASK_RUNNING"
    and "\<And>t. t \<noteq> s \<Longrightarrow> mpc m t = MOut \<and> mst m t = TASK_RUNNING"
  shows "{m'. mutex_step m m'} = (\<lambda>t. mutex_lock_fast t m) ` {t. t \<noteq> s}"
proof (intro equalityI subsetI)
  fix m' assume "m' \<in> {m'. mutex_step m m'}"
  then have "mutex_step m m'" by simp
  then show "m' \<in> (\<lambda>t. mutex_lock_fast t m) ` {t. t \<noteq> s}"
  proof cases
    case (fast t)
    with assms(2) show ?thesis by auto
  next
    case (slow t)
    with assms(1) assms(3) [of t] show ?thesis by (cases "t = s") auto
  next
    case (resume t)
    with assms(2) assms(3) [of t] show ?thesis by (cases "t = s") auto
  next
    case (unlock t)
    with assms(1) assms(3) [of t] show ?thesis by (cases "t = s") auto
  next
    case (wake t w)
    with assms(1) assms(3) [of t] show ?thesis by (cases "t = s") auto
  qed
qed (use assms(3) in \<open>auto intro: mutex_step.fast\<close>)

section \<open>Semaphores\<close>

text \<open>
  A task waits for the count to be positive, may then decrement it, and takes the decrement back
  if the count was no longer positive.
\<close>

datatype spc = SOut | SSpin | STry | SUndo | SHolds

record sem =
  count :: int
  spc :: "nat \<Rightarrow> spc"

definition sem_init :: "int \<Rightarrow> sem" where
  "sem_init n = \<lparr>count = n, spc = (\<lambda>_. SOut)\<rparr>"

definition sem_spin :: "nat \<Rightarrow> sem \<Rightarrow> sem" where
  "sem_spin t s = (if count s < 1 then s else s\<lparr>spc := (spc s)(t := STry)\<rparr>)"

definition sem_take :: "nat \<Rightarrow> sem \<Rightarrow> sem" where
  "sem_take t s = s\<lparr>count := count s - 1, spc := (spc s)(t := if count s \<ge> 1 then SHolds else SUndo)\<rparr>"

definition sem_undo :: "nat \<Rightarrow> sem \<Rightarrow> sem" where
  "sem_undo t s = s\<lparr>count := count s + 1, spc := (spc s)(t := SSpin)\<rparr>"

definition sem_post :: "nat \<Rightarrow> sem \<Rightarrow> sem" where
  "sem_post t s = s\<lparr>count := count s + 1, spc := (spc s)(t := SOut)\<rparr>"

inductive sem_step :: "sem \<Rightarrow> sem \<Rightarrow> bool" where
  enter: "spc s t = SOut \<Longrightarrow> sem_step s (s\<lparr>spc := (spc s)(t := SSpin)\<rparr>)"
| spin: "spc s t = SSpin \<Longrightarrow> sem_step s (sem_spin t s)"
| try_take: "spc s t = STry \<Longrightarrow> sem_step s (sem_take t s)"
| undo: "spc s t = SUndo \<Longrightarrow> sem_step s (sem_undo t s)"
| post: "spc s t = SHolds \<Longrightarrow> sem_step s (sem_post t s)"

text \<open>
  The decrements not taken back are those of the tasks in \<open>SHolds\<close> and \<open>SUndo\<close>.
\<close>

definition sem_debt :: "sem \<Rightarrow> nat set" where
  "sem_debt s = {t. spc s t = SHolds \<or> spc s t = SUndo}"

definition sem_holders :: "sem \<Rightarrow> nat set" where
  "sem_holders s = {t. spc s t = SHolds}"

definition sem_inv :: "int \<Rightarrow> sem \<Rightarrow> bool" where
  "sem_inv n s \<longleftrightarrow> finite (sem_debt s) \<and> count s + int (card (sem_debt s)) = n \<and>
     int (card (sem_holders s)) \<le> n"

lemma sem_holders_debt: "finite (sem_debt s) \<Longrightarrow> card (sem_holders s) \<le> card (sem_debt s)"
  by (rule card_mono) (auto simp: sem_holders_def sem_debt_def)

lemma sem_neutral_inv:
  assumes "sem_inv n s" and "spc s t \<noteq> SHolds" "spc s t \<noteq> SUndo" and "x \<noteq> SHolds" "x \<noteq> SUndo"
  shows "sem_inv n (s\<lparr>spc := (spc s)(t := x)\<rparr>)"
proof -
  from assms have "sem_debt (s\<lparr>spc := (spc s)(t := x)\<rparr>) = sem_debt s"
    "sem_holders (s\<lparr>spc := (spc s)(t := x)\<rparr>) = sem_holders s"
    by (auto simp: sem_debt_def sem_holders_def)
  with assms(1) show ?thesis by (simp add: sem_inv_def)
qed

lemma sem_take_inv:
  assumes inv: "sem_inv n s" and pc: "spc s t = STry"
  shows "sem_inv n (sem_take t s)"
proof -
  have d: "sem_debt (sem_take t s) = insert t (sem_debt s)" "t \<notin> sem_debt s" "t \<notin> sem_holders s"
    using pc by (auto simp: sem_debt_def sem_holders_def sem_take_def)
  have h: "sem_holders (sem_take t s) = (if count s \<ge> 1 then insert t (sem_holders s) else sem_holders s)"
    using pc by (auto simp: sem_holders_def sem_take_def)
  have fin: "finite (sem_debt s)" "finite (sem_holders s)"
    using inv by (auto simp: sem_inv_def sem_debt_def sem_holders_def elim: rev_finite_subset)
  have "int (card (sem_holders s)) \<le> int (card (sem_debt s))"
    using sem_holders_debt [OF fin(1)] by simp
  with inv d h fin show ?thesis by (simp add: sem_inv_def) (simp add: sem_take_def)
qed

lemma sem_release_inv:
  assumes inv: "sem_inv n s" and pc: "spc s t = SUndo \<or> spc s t = SHolds"
    and x: "x \<noteq> SHolds" "x \<noteq> SUndo"
  shows "sem_inv n (s\<lparr>count := count s + 1, spc := (spc s)(t := x)\<rparr>)"
proof -
  let ?s = "s\<lparr>count := count s + 1, spc := (spc s)(t := x)\<rparr>"
  have d: "sem_debt ?s = sem_debt s - {t}" "t \<in> sem_debt s" "sem_holders ?s = sem_holders s - {t}"
    using pc x by (auto simp: sem_debt_def sem_holders_def)
  have fin: "finite (sem_debt s)" using inv by (simp add: sem_inv_def)
  then have pos: "0 < card (sem_debt s)" using d(2) by (auto simp: card_gt_0_iff)
  have "card (sem_holders s - {t}) \<le> card (sem_holders s)" by (rule card_Diff1_le)
  with inv d fin pos show ?thesis
    by (simp add: sem_inv_def card_Diff_singleton)
qed

interpretation sm: step_system sem_step "sem_inv n" for n
proof
  show "sem_inv n s'" if "sem_inv n s" "sem_step s s'" for s s'
    using that(2,1)
  proof cases
    case (spin t)
    with that(1) show ?thesis by (cases "count s < 1") (simp_all add: sem_spin_def sem_neutral_inv)
  qed (auto simp: sem_undo_def sem_post_def intro: sem_neutral_inv sem_take_inv sem_release_inv)
qed

lemma sem_init_inv: "0 \<le> n \<Longrightarrow> sem_inv n (sem_init n)"
  by (simp add: sem_inv_def sem_init_def sem_debt_def sem_holders_def)

section \<open>Properties\<close>

text \<open>
  C3. In every interleaving of any number of tasks at most one of them is in the critical
  section of a mutex, and a hand-over is never lost: a task the mutex was handed to that is not
  awake is about to be woken by the task that handed it over.
\<close>

theorem mutex_exclusion_and_handover:
  assumes "mutex_reachable m"
  shows "(mpc m t = MHolds \<longrightarrow> mpc m u = MHolds \<longrightarrow> t = u)
    \<and> (owner m = int t \<longrightarrow> mpc m t = MHolds \<or> mpc m t = MAsleep)
    \<and> (owner m = int t \<longrightarrow> mst m t \<noteq> TASK_RUNNING \<longrightarrow> (\<exists>v. mpc m v = MWake t))"
proof -
  have "mutex_inv m" by (rule mx.reach_keeps [OF assms mutex_init_inv])
  then have t: "mtask_ok m t" and u: "mtask_ok m u" by (rule mutex_invD(1))+
  have "t = u" if "mpc m t = MHolds" "mpc m u = MHolds"
    using mtask_holds [OF t that(1)] mtask_holds [OF u that(2)] by simp
  with t show ?thesis by (auto simp: mtask_ok_def split: if_splits)
qed

theorem mutex_exclusion_and_handover_witness:
  "\<exists>m. mutex_reachable m \<and> mpc m 1 = MHolds \<and> (mpc m 2 = MHolds \<longrightarrow> (1::nat) = 2)"
proof -
  have r: "mutex_reachable (mutex_lock_fast 1 mutex_init)"
    by (rule r_into_rtranclp, rule mutex_step.fast) (simp_all add: mutex_init_def)
  have "mpc (mutex_lock_fast 1 mutex_init) 1 = MHolds" by (simp add: mutex_lock_fast_def mutex_init_def)
  with r mutex_exclusion_and_handover [OF r, of 1 2] show ?thesis by blast
qed

text \<open>
  C4. A waiter can be lost: between the failed fast path and the queueing of the slow path the
  holder may release the mutex, and the slow path does not try the free mutex again.  The task is
  then asleep in the queue of a mutex that nobody owns, and every step that is still possible is
  a new \<open>mutex_lock\<close> by another task: unless one comes, nothing wakes the waiter.
\<close>

theorem mutex_waiter_lost:
  "\<exists>m. mutex_reachable m \<and> owner m = -1 \<and> waiters m = [2] \<and> mpc m 2 = MAsleep
     \<and> mst m 2 = TASK_UNINTERRUPTIBLE \<and> {m'. mutex_step m m'} = (\<lambda>t. mutex_lock_fast t m) ` {t. t \<noteq> 2}"
proof -
  let ?m1 = "mutex_lock_fast 1 mutex_init"
  let ?m2 = "mutex_lock_fast 2 ?m1"
  let ?m3 = "mutex_unlock 1 ?m2"
  let ?m4 = "mutex_lock_slow 2 ?m3"
  note ev = mutex_init_def mutex_lock_fast_def mutex_unlock_def
  have "mutex_step mutex_init ?m1" by (rule mutex_step.fast) (simp_all add: ev)
  moreover have "mutex_step ?m1 ?m2" by (rule mutex_step.fast) (simp_all add: ev)
  moreover have "mutex_step ?m2 ?m3" by (rule mutex_step.unlock) (simp_all add: ev)
  moreover have "mutex_step ?m3 ?m4" by (rule mutex_step.slow) (simp_all add: ev)
  ultimately have r: "mutex_reachable ?m4" by (meson rtranclp.rtrancl_into_rtrancl rtranclp.rtrancl_refl)
  have st: "owner ?m4 = -1 \<and> waiters ?m4 = [2] \<and> mpc ?m4 2 = MAsleep \<and> mst ?m4 2 = TASK_UNINTERRUPTIBLE"
    by (simp add: ev mutex_lock_slow_def mutex_slow_round_def Let_def)
  have others: "mpc ?m4 t = MOut \<and> mst ?m4 t = TASK_RUNNING" if "t \<noteq> 2" for t
    using that by (simp add: ev mutex_lock_slow_def mutex_slow_round_def Let_def)
  define m where "m = ?m4"
  have "{m'. mutex_step m m'} = (\<lambda>t. mutex_lock_fast t m) ` {t. t \<noteq> 2}"
    by (rule idle_but_sleeper) (use st others in \<open>simp_all add: m_def\<close>)
  with r st show ?thesis unfolding m_def [symmetric] by blast
qed

text \<open>
  A semaphore initialised to \<open>n\<close> never admits more than \<open>n\<close> tasks, and its count
  is \<open>n\<close> less the tasks admitted and the decrements about to be taken back, however the
  tasks interleave.
\<close>

theorem semaphore_bound:
  assumes "0 \<le> n" and "sem_step\<^sup>*\<^sup>* (sem_init n) s"
  shows "int (card (sem_holders s)) \<le> n \<and> count s + int (card (sem_debt s)) = n"
  using sm.reach_keeps [OF assms(2) sem_init_inv [OF assms(1)]] by (simp add: sem_inv_def)

theorem semaphore_bound_witness:
  "int (card (sem_holders (sem_take 7 \<lparr>count = 1, spc = (\<lambda>_. SOut)(7 := STry)\<rparr>))) \<le> 1"
proof -
  have "sem_step (sem_init 1) \<lparr>count = 1, spc = (\<lambda>_. SOut)(7 := SSpin)\<rparr>"
    using sem_step.enter [of "sem_init 1" 7] by (simp add: sem_init_def)
  moreover have "sem_step \<lparr>count = 1, spc = (\<lambda>_. SOut)(7 := SSpin)\<rparr> \<lparr>count = 1, spc = (\<lambda>_. SOut)(7 := STry)\<rparr>"
    using sem_step.spin [of "\<lparr>count = 1, spc = (\<lambda>_. SOut)(7 := SSpin)\<rparr>" 7] by (simp add: sem_spin_def)
  moreover have "sem_step \<lparr>count = 1, spc = (\<lambda>_. SOut)(7 := STry)\<rparr>
      (sem_take 7 \<lparr>count = 1, spc = (\<lambda>_. SOut)(7 := STry)\<rparr>)"
    by (rule sem_step.try_take) simp
  ultimately have "sem_step\<^sup>*\<^sup>* (sem_init 1) (sem_take 7 \<lparr>count = 1, spc = (\<lambda>_. SOut)(7 := STry)\<rparr>)"
    by (meson rtranclp.rtrancl_into_rtrancl rtranclp.rtrancl_refl)
  from semaphore_bound [OF _ this] show ?thesis by simp
qed

end
