(* ===== verification/Process.thy ===== *)
theory Process imports WaitQueue begin

text \<open>
  Processes: identity, groups and sessions, fork, exit, reaping and \<open>waitpid\<close>
  (\<open>kernel/kernel/process.c\<close>, the second half of \<open>kernel/kernel/wait.c\<close>) and the
  delivery of signals (\<open>handle_signal\<close> of \<open>kernel/kernel/signal.c\<close>).

  A hash table is the list of its tasks, the last added first; a lookup filters by key, so the
  bucket a task is in does not matter.  A task freed by \<open>kfree\<close> stays in the store but is
  in \<open>freed\<close>; using it is a fault (\<open>None\<close>).  Address spaces, files and the registers of a
  process are not in this state.
\<close>

section \<open>State\<close>

record ksys =
  sch :: sched
  pid_table :: "tid list"
  pgid_table :: "tid list"
  sid_table :: "tid list"
  num_tasks :: int
  waitq :: wq
  freed :: "tid set"

abbreviation upd_sch :: "(sched \<Rightarrow> sched) \<Rightarrow> ksys \<Rightarrow> ksys" where
  "upd_sch f k \<equiv> k\<lparr>sch := f (sch k)\<rparr>"

abbreviation tsk :: "ksys \<Rightarrow> tid \<Rightarrow> task" where
  "tsk k p \<equiv> tk (sch k) p"

section \<open>Identity, groups and sessions\<close>

definition is_session_leader :: "ksys \<Rightarrow> tid \<Rightarrow> bool" where
  "is_session_leader k p \<longleftrightarrow> pid (tsk k p) = sid (tsk k p)"

definition is_child_of :: "ksys \<Rightarrow> tid \<Rightarrow> tid \<Rightarrow> bool" where
  "is_child_of k cur p \<longleftrightarrow> p \<in> set (children (tsk k cur))"

definition get_task_by_pid :: "ksys \<Rightarrow> int \<Rightarrow> tid option" where
  "get_task_by_pid k pd =
     (if pd < 1 then None else List.find (\<lambda>p. pid (tsk k p) = pd) (pid_table k))"

definition get_pgrp_leader :: "ksys \<Rightarrow> int \<Rightarrow> tid option" where
  "get_pgrp_leader k pg =
     (if pg < 0 then None
      else List.find (\<lambda>p. pgid (tsk k p) = pg \<and> pid (tsk k p) = pg) (pgid_table k))"

definition get_any_pgrp_member :: "ksys \<Rightarrow> int \<Rightarrow> tid option" where
  "get_any_pgrp_member k pg =
     (if pg < 0 then None else List.find (\<lambda>p. pgid (tsk k p) = pg) (pgid_table k))"

definition sys_getpid :: "ksys \<Rightarrow> tid \<Rightarrow> int" where
  "sys_getpid k cur = pid (tsk k cur)"

definition sys_getppid :: "ksys \<Rightarrow> tid \<Rightarrow> int" where
  "sys_getppid k cur = ppid (tsk k cur)"

definition sys_getpgid :: "ksys \<Rightarrow> tid \<Rightarrow> int \<Rightarrow> int" where
  "sys_getpgid k cur pd =
     (if pd = 0 then pgid (tsk k cur)
      else case get_task_by_pid k pd of Some p \<Rightarrow> pgid (tsk k p) | None \<Rightarrow> - ESRCH)"

definition sys_getsid :: "ksys \<Rightarrow> tid \<Rightarrow> int \<Rightarrow> int" where
  "sys_getsid k cur pd =
     (if pd = 0 then sid (tsk k cur)
      else case get_task_by_pid k pd of Some p \<Rightarrow> sid (tsk k p) | None \<Rightarrow> - ESRCH)"

definition sys_setpgid :: "tid \<Rightarrow> int \<Rightarrow> int \<Rightarrow> ksys \<Rightarrow> int \<times> ksys" where
  "sys_setpgid cur pd pg k =
     (if pg < 0 then (- EINVAL, k)
      else case (if pd = 0 \<or> pd = pid (tsk k cur) then Some (cur, pid (tsk k cur))
                 else case get_task_by_pid k pd of
                     None \<Rightarrow> None
                   | Some p \<Rightarrow> if is_child_of k cur p then Some (p, pd) else None) of
          None \<Rightarrow> (- ESRCH, k)
        | Some (p, pd1) \<Rightarrow>
            if is_session_leader k p then (- EPERM, k)
            else if pd1 \<noteq> pg \<and> (case get_any_pgrp_member k pg of
                                   None \<Rightarrow> True
                                 | Some target \<Rightarrow> sid (tsk k target) \<noteq> sid (tsk k p)) then (- EPERM, k)
            else (0, k\<lparr>pgid_table := p # remove1 p (pgid_table k),
                       sch := upd_task p (pgid_update (\<lambda>_. pg)) (sch k)\<rparr>))"

definition sys_setsid :: "tid \<Rightarrow> ksys \<Rightarrow> int \<times> ksys" where
  "sys_setsid cur k =
     (let pd = pid (tsk k cur) in
      if pgid (tsk k cur) = pd then (- EPERM, k)
      else (pd, k\<lparr>sid_table := cur # remove1 cur (sid_table k),
                  pgid_table := cur # remove1 cur (pgid_table k),
                  sch := upd_task cur (\<lambda>t. t\<lparr>sid := pd, pgid := pd\<rparr>) (sch k)\<rparr>))"

section \<open>Fork\<close>

definition copy_sighandlers :: "ksigaction list \<Rightarrow> ksigaction list" where
  "copy_sighandlers src = map (\<lambda>i. src ! i) [0..<32]"

text \<open>\<open>mem\<close>: the new task's address, or \<open>None\<close> when it cannot be allocated.\<close>

definition clone_process :: "tid \<Rightarrow> tid option \<Rightarrow> ksys \<Rightarrow> (tid option \<times> ksys)" where
  "clone_process par mem k =
     (case mem of
        None \<Rightarrow> (None, k)
      | Some ch \<Rightarrow>
          (let t = (tsk k par)\<lparr>children := [], on_rq := False, parent_wait := False,
                 pid := num_tasks k + 1, parent := Some par, ppid := pid (tsk k par),
                 actions := copy_sighandlers (actions (tsk k par)), pending := 0\<rparr> in
           (Some ch, k\<lparr>num_tasks := num_tasks k + 1,
              pid_table := ch # pid_table k, pgid_table := ch # pgid_table k,
              sid_table := ch # sid_table k, freed := freed k - {ch},
              sch := upd_task par (children_update (\<lambda>l. l @ [ch])) (upd_task ch (\<lambda>_. t) (sch k))\<rparr>)))"

definition do_fork :: "nat \<Rightarrow> tid option \<Rightarrow> ksys \<Rightarrow> (int \<times> ksys) option" where
  "do_fork c mem k =
     (case clone_process (get_current_task c (sch k)) mem k of
        (None, k1) \<Rightarrow> Some (- ENOMEM, k1)
      | (Some ch, k1) \<Rightarrow>
          map_option (\<lambda>s. (pid (tk s ch), k1\<lparr>sch := s\<rparr>))
            (schedule_task c ch (upd_task ch (state_update (\<lambda>_. TASK_RUNNING)) (sch k1))))"

text \<open>\<open>exec_and_return\<close> keeps ignored signals ignored and resets the handlers.\<close>

definition exec_reset_handlers :: "ksigaction list \<Rightarrow> ksigaction list" where
  "exec_reset_handlers acts =
     map (\<lambda>a. if sint (handler_val (sa_handler a)) > 1 then a\<lparr>sa_handler := SIG_DFL\<rparr> else a) acts"

section \<open>Exit and reaping\<close>

definition reap_task :: "tid \<Rightarrow> ksys \<Rightarrow> ksys" where
  "reap_task p k =
     (if state (tsk k p) \<noteq> TASK_ZOMBIE then k
      else k\<lparr>pid_table := remove1 p (pid_table k), pgid_table := remove1 p (pgid_table k),
             sid_table := remove1 p (sid_table k),
             sch := (case parent (tsk k p) of
                 None \<Rightarrow> sch k
               | Some q \<Rightarrow> upd_task q (children_update (remove1 p)) (sch k))\<rparr>)"

abbreviation free_task :: "tid \<Rightarrow> ksys \<Rightarrow> ksys" where
  "free_task p k \<equiv> k\<lparr>freed := insert p (freed k)\<rparr>"

text \<open>
  \<open>do_exit\<close> never returns: the result is the task that \<open>schedule\<close> switches to.  Init's
  exit, the use of a freed parent and a \<open>schedule\<close> that comes back are faults.
\<close>

definition do_exit :: "(nat \<Rightarrow> bool) \<Rightarrow> nat \<Rightarrow> ksys \<Rightarrow> (tid \<times> ksys) option" where
  "do_exit busy c k =
     (let cur = get_current_task c (sch k);
          par = parent (tsk k cur);
          k1 = upd_sch (upd_task cur (state_update (\<lambda>_. TASK_ZOMBIE))) k in
      if pid (tsk k cur) = 1 then None
      else case (case par of
                   None \<Rightarrow> Some k1
                 | Some q \<Rightarrow>
                     if q \<in> freed k then None
                     else map_option (\<lambda>(w, s). k1\<lparr>waitq := w, sch := s\<rparr>)
                            (notify_parent (Some q) (Some cur) (waitq k1) (sch k1))) of
          None \<Rightarrow> None
        | Some k2 \<Rightarrow>
            (case schedule busy c (sch k2) of
               None \<Rightarrow> None
             | Some (nxt, s3) \<Rightarrow> if nxt = cur then None else Some (nxt, k2\<lparr>sch := s3\<rparr>)))"

definition WEXITED :: "int \<Rightarrow> int" where
  "WEXITED v = sint (push_bit 8 (word_of_int v :: u32))"

definition WSIGNALED :: "int \<Rightarrow> int" where
  "WSIGNALED sig = sint (word_of_int sig AND 0x7f :: u32)"

definition WSTOPPED :: "int \<Rightarrow> int" where
  "WSTOPPED sig = sint (0x7f OR push_bit 8 (word_of_int sig AND 0x7f) :: u32)"

definition sys_exit :: "(nat \<Rightarrow> bool) \<Rightarrow> nat \<Rightarrow> int \<Rightarrow> ksys \<Rightarrow> (tid \<times> ksys) option" where
  "sys_exit busy c status k =
     do_exit busy c (upd_sch (upd_task (get_current_task c (sch k))
       (exit_status_update (\<lambda>_. WEXITED status))) k)"

section \<open>Waiting for children\<close>

definition find_exited_child :: "sched \<Rightarrow> tid \<Rightarrow> int \<Rightarrow> tid option" where
  "find_exited_child s par pd =
     List.find (\<lambda>ch. state (tk s ch) = TASK_ZOMBIE \<and> (pd = -1 \<or> pid (tk s ch) = pd))
       (children (tk s par))"

definition find_stopped_child :: "sched \<Rightarrow> tid \<Rightarrow> int \<Rightarrow> tid option \<times> sched" where
  "find_stopped_child s par pd =
     (case List.find (\<lambda>ch. state (tk s ch) = TASK_STOPPED \<and> (pd = -1 \<or> pid (tk s ch) = pd) \<and>
                           state_change (tk s ch)) (children (tk s par)) of
        None \<Rightarrow> (None, s)
      | Some ch \<Rightarrow> (Some ch, upd_task ch (state_change_update (\<lambda>_. False)) s))"

text \<open>The results carry the status written through the user's pointer, if there is one.\<close>

definition handle_exited_child :: "tid \<Rightarrow> ksys \<Rightarrow> int \<times> int option \<times> ksys" where
  "handle_exited_child ch k =
     (pid (tsk k ch), Some (exit_status (tsk k ch)), free_task ch (reap_task ch k))"

definition handle_stopped_child :: "tid \<Rightarrow> ksys \<Rightarrow> int \<times> int option \<times> ksys" where
  "handle_stopped_child ch k = (pid (tsk k ch), Some (exit_status (tsk k ch)), k)"

definition check_children :: "tid \<Rightarrow> bool \<Rightarrow> ksys \<Rightarrow> int \<times> int option \<times> ksys" where
  "check_children cur wait_stopped k =
     (case find_exited_child (sch k) cur (-1) of
        Some ch \<Rightarrow> handle_exited_child ch k
      | None \<Rightarrow>
          if wait_stopped then
            (case find_stopped_child (sch k) cur (-1) of
               (Some ch, s1) \<Rightarrow> handle_stopped_child ch (k\<lparr>sch := s1\<rparr>)
             | (None, s1) \<Rightarrow> (0, None, k\<lparr>sch := s1\<rparr>))
          else (0, None, k))"

text \<open>
  \<open>ent\<close> and \<open>others\<close> are the wait-queue entry and what the rest of the system does while the
  caller sleeps, as for \<open>sleep_on\<close>.
\<close>

definition ksleep :: "tid \<Rightarrow> nat option \<Rightarrow> (ksys \<Rightarrow> ksys) \<Rightarrow> ksys \<Rightarrow> (int \<times> ksys) option" where
  "ksleep cur ent others k =
     (case sleep_enter cur ent (waitq k) (sch k) of
        None \<Rightarrow> None
      | Some (Inl err, q1, s1) \<Rightarrow> Some (err, k\<lparr>waitq := q1, sch := s1\<rparr>)
      | Some (Inr e, q1, s1) \<Rightarrow>
          (let k2 = others (k\<lparr>waitq := q1, sch := s1\<rparr>) in
           map_option (\<lambda>(r, q3, s3). (r, k2\<lparr>waitq := q3, sch := s3\<rparr>))
             (finish_wait cur e (waitq k2) (sch k2))))"

definition wait_any ::
  "tid \<Rightarrow> nat option \<Rightarrow> (ksys \<Rightarrow> ksys) \<Rightarrow> bool \<Rightarrow> bool \<Rightarrow> ksys \<Rightarrow> (int \<times> int option \<times> ksys) option" where
  "wait_any cur ent others nohang wait_stopped k =
     (if children (tsk k cur) = [] then Some (- ECHILD, None, k)
      else case check_children cur wait_stopped k of
        (r, st, k1) \<Rightarrow>
          if r \<noteq> 0 then Some (r, st, k1)
          else if nohang then Some (0, None, k1)
          else case ksleep cur ent others (upd_sch (upd_task cur (waiting_any_update (\<lambda>_. True))) k1) of
              None \<Rightarrow> None
            | Some (_, k2) \<Rightarrow>
                (case check_children cur wait_stopped k2 of
                   (r2, st2, k3) \<Rightarrow>
                     Some (if r2 \<noteq> 0 then (r2, st2, k3)
                           else if children (tsk k3 cur) \<noteq> [] then (- EINTR, None, k3)
                           else (- ECHILD, None, k3))))"

definition wait_for ::
  "tid \<Rightarrow> nat option \<Rightarrow> (ksys \<Rightarrow> ksys) \<Rightarrow> tid \<Rightarrow> bool \<Rightarrow> bool \<Rightarrow> ksys \<Rightarrow> (int \<times> int option \<times> ksys) option" where
  "wait_for cur ent others p nohang wait_stopped k =
     (if state (tsk k p) = TASK_ZOMBIE then Some (handle_exited_child p k)
      else if state (tsk k p) = TASK_STOPPED \<and> wait_stopped then Some (handle_stopped_child p k)
      else if nohang then Some (0, None, k)
      else case ksleep cur ent others (upd_sch (upd_task p (parent_wait_update (\<lambda>_. True))) k) of
          None \<Rightarrow> None
        | Some (ret, k1) \<Rightarrow>
            if ret < 0 then Some (ret, None, k1)
            else if p \<in> freed k1 then None
            else Some (pid (tsk k1 p), Some (exit_status (tsk k1 p)),
                       if state (tsk k1 p) = TASK_ZOMBIE then free_task p (reap_task p k1) else k1))"

text \<open>\<open>status\<close>: whether the pointer is given and, if so, accessible.\<close>

definition sys_waitpid ::
  "tid \<Rightarrow> nat option \<Rightarrow> (ksys \<Rightarrow> ksys) \<Rightarrow> int \<Rightarrow> bool option \<Rightarrow> bool \<Rightarrow> bool \<Rightarrow> ksys
    \<Rightarrow> (int \<times> int option \<times> ksys) option" where
  "sys_waitpid cur ent others pd status nohang untraced k =
     (if status = Some False then Some (- EFAULT, None, k)
      else if pd = -1 then wait_any cur ent others nohang untraced k
      else if pd < -1 \<or> pd = 0 then Some (- EINVAL, None, k)
      else case find_child_by_pid (sch k) cur pd of
          None \<Rightarrow> Some (- ECHILD, None, k)
        | Some p \<Rightarrow>
            if ppid (tsk k p) \<noteq> pid (tsk k cur) then Some (- ECHILD, None, k)
            else wait_for cur ent others p nohang untraced k)"

section \<open>Delivering a signal\<close>

definition TERM_SIG :: u64 where
  "TERM_SIG = sigbit 1 OR sigbit 2 OR sigbit 9 OR sigbit 13 OR sigbit 14 OR sigbit 15"

definition CORE_SIG :: u64 where
  "CORE_SIG = sigbit 3 OR sigbit 4 OR sigbit 6 OR sigbit 11 OR sigbit 8"

definition STOP_SIG :: u64 where
  "STOP_SIG = sigbit 19 OR sigbit 20 OR sigbit 21 OR sigbit 22"

text \<open>\<open>__builtin_ffs\<close> takes an \<open>int\<close>: the upper half of the set is cut off.\<close>

definition builtin_ffs :: "u64 \<Rightarrow> int" where
  "builtin_ffs w =
     (case List.find (\<lambda>i. bit (ucast w :: u32) i) [0..<32] of None \<Rightarrow> 0 | Some i \<Rightarrow> int i + 1)"

definition choose_signal :: "u64 \<Rightarrow> int" where
  "choose_signal active =
     (if active AND sigbit SIGKILL \<noteq> 0 then SIGKILL
      else if active AND sigbit SIGSTOP \<noteq> 0 then SIGSTOP
      else builtin_ffs active - 1)"

text \<open>
  What \<open>handle_signal\<close> did: nothing, one of the default actions, or the start of a user
  handler (\<open>arch_prepare_signal\<close>).  Termination gives the task switched to instead.
\<close>

datatype sig_outcome =
  NoSignal | Ignored int | Terminated tid | Stopped int | Continued | ChldIgnored
  | Unhandled int | Delivered u64 int

definition handle_signal :: "(nat \<Rightarrow> bool) \<Rightarrow> nat \<Rightarrow> ksys \<Rightarrow> (sig_outcome \<times> ksys) option" where
  "handle_signal busy c k =
     (let p = get_current_task c (sch k); active = sig_get_active (tsk k p) in
      if active = 0 then Some (NoSignal, k)
      else
        (let sig = choose_signal active in
         if sig < 0 then None
         else
        (let ka = actions (tsk k p) ! nat sig;
             k1 = upd_sch (upd_task p (\<lambda>t. t\<lparr>pending := sigdelset (pending t) sig,
                     sig_pending := (if sigdelset (pending t) sig = 0 then False else sig_pending t)\<rparr>)) k;
             b = sigbit sig in
         case sa_handler ka of
           SIG_IGN \<Rightarrow> Some (Ignored sig, k1)
         | SIG_DFL \<Rightarrow>
             if b AND (TERM_SIG OR CORE_SIG) \<noteq> 0 then
               map_option (\<lambda>(nxt, k2). (Terminated nxt, k2))
                 (do_exit busy c (upd_sch (upd_task p (exit_status_update (\<lambda>_. WSIGNALED sig))) k1))
             else if b AND STOP_SIG \<noteq> 0 then
               (case set_task_stopped p (sch k1) of
                  None \<Rightarrow> None
                | Some s2 \<Rightarrow>
                    (let s3 = upd_task p (exit_status_update (\<lambda>_. WSTOPPED sig)) s2 in
                     case parent (tk s3 p) of
                       None \<Rightarrow> None
                     | Some q \<Rightarrow>
                         if q \<in> freed k1 then None
                         else map_option (\<lambda>(_, s4). (Stopped sig,
                                k1\<lparr>sch := upd_task p (need_resched_update (\<lambda>_. True)) s4\<rparr>))
                              (do_raise q SIGCHLD s3)))
             else if b AND sigbit SIGCONT \<noteq> 0 then Some (Continued, k1)
             else if b AND sigbit SIGCHLD \<noteq> 0 then Some (ChldIgnored, k1)
             else Some (Unhandled sig, k1)
         | Handler h \<Rightarrow>
             Some (Delivered h sig, upd_sch (upd_task p (\<lambda>t. t\<lparr>
               blocked := (if sa_flags ka AND 0x40000000 = 0 then blocked t OR sa_mask ka OR b
                           else blocked t OR sa_mask ka),
               signaled := True\<rparr>)) k1))))"

section \<open>Facts\<close>

text \<open>
  Every live process has its own pid, none above \<open>num_tasks\<close>.
\<close>

definition pids_ok :: "ksys \<Rightarrow> bool" where
  "pids_ok k \<longleftrightarrow> distinct (pid_table k) \<and> inj_on (\<lambda>p. pid (tsk k p)) (set (pid_table k)) \<and>
     (\<forall>p \<in> set (pid_table k). pid (tsk k p) \<le> num_tasks k)"

lemma schedule_task_frame:
  "schedule_task c p s = Some s' \<Longrightarrow>
   (\<forall>q. q \<noteq> p \<longrightarrow> tk s' q = tk s q) \<and> pid (tk s' p) = pid (tk s p) \<and>
   state (tk s' p) = TASK_RUNNING \<and> parent (tk s' p) = parent (tk s p)
   \<and> pending (tk s' p) = pending (tk s p) \<and> children (tk s' p) = children (tk s p)
   \<and> ppid (tk s' p) = ppid (tk s p) \<and> pgid (tk s' p) = pgid (tk s p) \<and> sid (tk s' p) = sid (tk s p)
   \<and> on_rq (tk s' p) \<and> p \<in> set (queue (rqs s' (cpu (tk s p))))
   \<and> tk s' p = (tk s p)\<lparr>state := TASK_RUNNING, on_rq := True,
        vruntime := vruntime (tk s (get_current_task c s)) + MIN_GRANULARITY\<rparr>"
  by (auto simp: schedule_task_def rq_add_def rq_add_locked_def split: if_splits)

lemma reap_task_zombie:
  assumes "state (tsk k p) = TASK_ZOMBIE" and "parent (tsk k p) = Some q"
  shows "pid_table (reap_task p k) = remove1 p (pid_table k)"
    and "children (tsk (reap_task p k) q) = remove1 p (children (tsk k q))"
    and "\<And>x. x \<noteq> q \<Longrightarrow> tsk (reap_task p k) x = tsk k x"
    and "parent (tsk (reap_task p k) x) = parent (tsk k x)"
    and "pid (tsk (reap_task p k) x) = pid (tsk k x)"
  using assms by (simp_all add: reap_task_def)

section \<open>Properties\<close>

text \<open>
  C5. \<open>fork\<close> by a live process that gets fresh memory and a pid within \<open>int\<close> succeeds:
  the child has a pid no process has, is found under it by its parent and in the table, and is
  queued; it is the parent's task, with its group, session, blocked signals and handlers, except
  for its identity, its empty lists of children and pending signals and its virtual runtime.  The
  parent only gains the child, every other task is as it was, and pids stay unique.
\<close>

theorem fork_creates_fresh_child:
  assumes ok: "pids_ok k" and new: "ch \<notin> set (pid_table k)" and ne: "ch \<noteq> curr (rqs (sch k) c)"
    and par: "curr (rqs (sch k) c) \<in> set (pid_table k)" and pos: "0 \<le> num_tasks k"
    and int: "num_tasks k < 2 ^ 31 - 1"
    and own: "set (children (tsk k (curr (rqs (sch k) c)))) \<subseteq> set (pid_table k)"
  shows "\<exists>k' acts. do_fork c (Some ch) k = Some (num_tasks k + 1, k') \<and> pids_ok k'
    \<and> (\<forall>p \<in> set (pid_table k). pid (tsk k' p) \<noteq> num_tasks k + 1)
    \<and> get_task_by_pid k' (num_tasks k + 1) = Some ch
    \<and> find_child_by_pid (sch k') (curr (rqs (sch k) c)) (num_tasks k + 1) = Some ch
    \<and> ch \<in> set (queue (rqs (sch k') (cpu (tsk k (curr (rqs (sch k) c))))))
    \<and> tsk k' ch = (tsk k (curr (rqs (sch k) c)))\<lparr>pid := num_tasks k + 1,
         ppid := pid (tsk k (curr (rqs (sch k) c))), parent := Some (curr (rqs (sch k) c)),
         children := [], parent_wait := False, pending := 0, actions := acts,
         state := TASK_RUNNING, on_rq := True,
         vruntime := vruntime (tsk k (curr (rqs (sch k) c))) + MIN_GRANULARITY\<rparr>
    \<and> length acts = 32 \<and> (\<forall>i < 32. acts ! i = actions (tsk k (curr (rqs (sch k) c))) ! i)
    \<and> tsk k' (curr (rqs (sch k) c)) = (tsk k (curr (rqs (sch k) c)))\<lparr>
         children := children (tsk k (curr (rqs (sch k) c))) @ [ch]\<rparr>
    \<and> (\<forall>p. p \<noteq> ch \<longrightarrow> p \<noteq> curr (rqs (sch k) c) \<longrightarrow> tsk k' p = tsk k p)"
proof -
  let ?par = "curr (rqs (sch k) c)" and ?n = "num_tasks k + 1"
  obtain k1 where cl: "clone_process ?par (Some ch) k = (Some ch, k1)"
    and num: "num_tasks k1 = ?n" and tbl: "pid_table k1 = ch # pid_table k"
    and ch1: "pid (tsk k1 ch) = ?n" "on_rq (tsk k1 ch) = False" "pending (tsk k1 ch) = 0"
      "pgid (tsk k1 ch) = pgid (tsk k ?par)" "sid (tsk k1 ch) = sid (tsk k ?par)"
    and other: "\<And>p. p \<noteq> ch \<Longrightarrow> pid (tsk k1 p) = pid (tsk k p)"
    and cs: "children (tsk k1 ?par) = children (tsk k ?par) @ [ch]"
    and new1: "tsk k1 ch = (tsk k ?par)\<lparr>pid := ?n, ppid := pid (tsk k ?par), parent := Some ?par,
         children := [], parent_wait := False, pending := 0,
         actions := copy_sighandlers (actions (tsk k ?par)), on_rq := False\<rparr>"
    and par1: "tsk k1 ?par = (tsk k ?par)\<lparr>children := children (tsk k ?par) @ [ch]\<rparr>"
    and rest1: "\<And>p. p \<noteq> ch \<Longrightarrow> p \<noteq> ?par \<Longrightarrow> tsk k1 p = tsk k p" and rq1: "rqs (sch k1) = rqs (sch k)"
    using ne by (simp add: clone_process_def Let_def)
  let ?s = "upd_task ch (state_update (\<lambda>_. TASK_RUNNING)) (sch k1)"
  obtain s where s: "schedule_task c ch ?s = Some s"
    using ch1(2) by (simp add: schedule_task_def rq_add_def rq_add_locked_def)
  note fr = schedule_task_frame [OF s]
  have pch: "pid (tk s ch) = ?n" using fr ch1 by simp
  have pids: "pid (tk s p) = pid (tsk k p)" if "p \<noteq> ch" for p using fr other that by simp
  have low: "pid (tk s p) \<le> num_tasks k" if "p \<in> set (pid_table k)" for p
    using ok new that pids by (cases "p = ch") (auto simp: pids_ok_def)
  let ?k = "k1\<lparr>sch := s\<rparr>"
  have fork: "do_fork c (Some ch) k = Some (?n, ?k)"
    using pch by (simp add: do_fork_def get_current_task_def cl s)
  have "inj_on (\<lambda>p. pid (tk s p)) (set (pid_table k))"
  proof -
    have "pid (tk s p) = pid (tsk k p)" if "p \<in> set (pid_table k)" for p using that new pids by metis
    with ok show ?thesis by (simp add: pids_ok_def cong: inj_on_cong)
  qed
  moreover have ne': "pid (tk s p) \<noteq> ?n" if "p \<in> set (pid_table k)" for p using low [OF that] by simp
  ultimately have "pids_ok ?k" using ok new pch low
    by (fastforce simp: pids_ok_def num tbl inj_on_def intro: order_trans)
  moreover have "get_task_by_pid ?k ?n = Some ch" using pos pch by (simp add: get_task_by_pid_def tbl)
  moreover have "children (tk s ?par) = children (tsk k ?par) @ [ch]"
    using fr ne cs by simp
  then have "find_child_by_pid s ?par ?n = Some ch"
  proof -
    assume cs': "children (tk s ?par) = children (tsk k ?par) @ [ch]"
    show ?thesis unfolding find_child_by_pid_def
      by (rule find_unique) (use cs' pch ne' own in auto)
  qed
  moreover have "tk s ch = (tsk k ?par)\<lparr>pid := ?n, ppid := pid (tsk k ?par), parent := Some ?par,
      children := [], parent_wait := False, pending := 0,
      actions := copy_sighandlers (actions (tsk k ?par)), state := TASK_RUNNING, on_rq := True,
      vruntime := vruntime (tsk k ?par) + MIN_GRANULARITY\<rparr>"
    using fr ne new1 par1 rq1 by (simp add: get_current_task_def)
  moreover have "ch \<in> set (queue (rqs s (cpu (tsk k ?par))))" using fr new1 by simp
  moreover have "tk s ?par = (tsk k ?par)\<lparr>children := children (tsk k ?par) @ [ch]\<rparr>"
    using fr ne par1 by simp
  moreover have "\<forall>p. p \<noteq> ch \<longrightarrow> p \<noteq> ?par \<longrightarrow> tk s p = tsk k p" using fr rest1 by simp
  moreover have "length (copy_sighandlers (actions (tsk k ?par))) = 32"
    "\<forall>i < 32. copy_sighandlers (actions (tsk k ?par)) ! i = actions (tsk k ?par) ! i"
    by (simp_all add: copy_sighandlers_def)
  ultimately show ?thesis using fork ne'
    by (intro exI [of _ ?k] exI [of _ "copy_sighandlers (actions (tsk k ?par))"]) simp
qed

theorem fork_creates_fresh_child_witness:
  "\<exists>k'. do_fork 0 (Some 12) \<lparr>sch = alone_state, pid_table = [10], pgid_table = [10], sid_table = [10],
      num_tasks = 3, waitq = [], freed = {}\<rparr> = Some (4, k') \<and> pids_ok k'"
proof -
  let ?k = "\<lparr>sch = alone_state, pid_table = [10], pgid_table = [10], sid_table = [10],
      num_tasks = 3, waitq = [], freed = {}\<rparr>"
  have c: "curr (rqs (sch ?k) 0) = 10" by (simp add: alone_state_def)
  have "pids_ok ?k" "set (children (tsk ?k 10)) \<subseteq> {10}"
    by (simp_all add: pids_ok_def alone_state_def root_task_def)
  with c fork_creates_fresh_child [of ?k 12 0] show ?thesis by auto
qed

definition ids :: "task \<Rightarrow> int \<times> int \<times> tid option \<times> tid list \<times> int" where
  "ids t = (pid t, ppid t, parent t, children t, exit_status t)"

lemma ids_upd [simp]:
  "ids (t\<lparr>state := a\<rparr>) = ids t" "ids (t\<lparr>on_rq := b\<rparr>) = ids t" "ids (t\<lparr>cpu := n\<rparr>) = ids t"
  "ids (t\<lparr>pending := x\<rparr>) = ids t" "ids (t\<lparr>sig_pending := b\<rparr>) = ids t"
  "ids (t\<lparr>pending := x, sig_pending := b\<rparr>) = ids t"
  "ids (t\<lparr>interrupted := b\<rparr>) = ids t" "ids (t\<lparr>waiting_any := b\<rparr>) = ids t"
  by (simp_all add: ids_def)

text \<open>The scheduler, wake-ups and signals leave a task's identity, family and status alone.\<close>

lemma rq_del_locked_ids: "rq_del_locked c p s = Some s' \<Longrightarrow>
    ids (tk s' q) = ids (tk s q) \<and> state (tk s' q) = state (tk s q)"
  by (auto simp: rq_del_locked_def split: if_splits)

lemma rq_add_locked_ids: "rq_add_locked c p s = Some s' \<Longrightarrow>
    ids (tk s' q) = ids (tk s q) \<and> state (tk s' q) = state (tk s q)"
  by (auto simp: rq_add_locked_def split: if_splits)

lemma set_task_running_ids: "set_task_running p s = Some s' \<Longrightarrow> ids (tk s' q) = ids (tk s q)"
  by (auto simp: set_task_running_def Let_def rq_add_locked_def split: if_splits)

lemma cross_cpu_loop_ids:
  "cross_cpu_loop busy this cs s = Some (r, s') \<Longrightarrow>
   ids (tk s' q) = ids (tk s q) \<and> state (tk s' q) = state (tk s q)"
proof (induction busy this cs s rule: cross_cpu_loop.induct)
  case (2 busy this c cs s)
  show ?case
  proof (cases "c = this \<or> busy c \<or> \<not> nr_running (rqs s c) > 1 \<or> queue (rqs s c) = []")
    case True
    then show ?thesis using 2 by (auto simp: rb_first_cached_def split: if_splits)
  next
    case False
    with 2(5) obtain p s1 where d: "rq_del_locked c p s = Some s1"
      and s': "s' = upd_task p (cpu_update (\<lambda>_. this)) s1"
      by (auto simp: rb_first_cached_def split: if_splits list.splits option.splits)
    with rq_del_locked_ids [OF d, of q] show ?thesis by (cases "q = p") auto
  qed
qed simp

lemma schedule_pick_ids:
  assumes "schedule_pick busy c s = Some (nxt, s1)"
  shows "ids (tk s1 q) = ids (tk s q) \<and> state (tk s1 q) = state (tk s q)"
proof (cases "rb_first_cached (queue (rqs s c))")
  case None
  with assms obtain m where "cross_cpu_loop busy c [0..<ncpus s] s = Some (m, s1)"
    by (auto simp: schedule_pick_def cross_cpu_task_def Let_def split: option.splits)
  then show ?thesis by (rule cross_cpu_loop_ids)
next
  case (Some p)
  with assms have "rq_del_locked c p s = Some s1" by (auto simp: schedule_pick_def Let_def)
  then show ?thesis by (rule rq_del_locked_ids)
qed

lemma schedule_ids:
  assumes "schedule busy c s = Some (nxt, s')"
  shows "ids (tk s' q) = ids (tk s q) \<and> state (tk s' q) = state (tk s q)"
proof -
  let ?cur = "curr (rqs s c)"
  from assms obtain s1 s2 where pick: "schedule_pick busy c s = Some (nxt, s1)"
    and s2: "(if state (tk s1 ?cur) = TASK_RUNNING \<and> ?cur \<noteq> idle (rqs s1 c) \<and> \<not> on_rq (tk s1 ?cur)
              then rq_add_locked c ?cur s1 else Some s1) = Some s2"
    and s': "s' = (if nxt \<noteq> ?cur then upd_rq c (curr_update (\<lambda>_. nxt)) s2 else s2)"
    by (auto simp: schedule_def Let_def get_current_task_def split: option.splits)
  have "ids (tk s2 q) = ids (tk s1 q) \<and> state (tk s2 q) = state (tk s1 q)"
    using s2 rq_add_locked_ids [of c ?cur s1 s2 q] by (auto split: if_splits)
  with schedule_pick_ids [OF pick, of q] s' show ?thesis by simp
qed

lemma do_raise_ids:
  assumes "do_raise p sig s = Some (r, s')" shows "ids (tk s' q) = ids (tk s q)"
proof (cases "sig \<le> 0 \<or> sig \<ge> NSIG")
  case False
  with assms obtain s1 where s1: "(if sig = SIGCONT \<and> state (tk s p) = TASK_STOPPED
      then set_task_running p s else Some s) = Some s1"
    by (auto simp: do_raise_def Let_def split: option.splits)
  then have 1: "ids (tk s1 q) = ids (tk s q)" using set_task_running_ids [of p s s1 q] by (auto split: if_splits)
  let ?s2 = "upd_task p (\<lambda>t. t\<lparr>pending := sigaddset (pending t) sig, sig_pending := True\<rparr>) s1"
  let ?s3 = "upd_task p (interrupted_update (\<lambda>_. True)) ?s2"
  have 2: "ids (tk ?s2 q) = ids (tk s q)" "ids (tk ?s3 q) = ids (tk s q)" using 1 by auto
  from False assms s1 have "s' = s1 \<or> s' = ?s2 \<or> set_task_running p ?s3 = Some s'"
    unfolding do_raise_def Let_def by (auto split: if_splits)
  with 1 2 set_task_running_ids [of p ?s3 s' q] show ?thesis by auto
qed (use assms in \<open>auto simp: do_raise_def\<close>)

lemma do_raise_state_zombie:
  assumes "do_raise p sig s = Some (r, s')" and "q \<noteq> p"
  shows "state (tk s' q) = state (tk s q)"
  using do_raise_other [OF assms] by simp

lemma notify_parent_ids:
  assumes "notify_parent (Some pa) (Some ch) w s = Some (w', s')"
  shows "ids (tk s' q) = ids (tk s q)"
proof -
  from assms obtain w1 s1 r where
    s1: "(if parent_wait (tk s ch) \<or> waiting_any (tk s pa)
          then wakeup_by_pid_on (pid (tk s pa)) w (upd_task pa (waiting_any_update (\<lambda>_. False)) s)
          else Some (w, s)) = Some (w1, s1)" and r: "do_raise pa SIGCHLD s1 = Some (r, s')"
    unfolding notify_parent_def by (auto split: option.splits)
  have "ids (tk s1 q) = ids (tk s q)"
  proof (cases "parent_wait (tk s ch) \<or> waiting_any (tk s pa)")
    case False
    with s1 show ?thesis by simp
  next
    case True
    let ?s = "upd_task pa (waiting_any_update (\<lambda>_. False)) s"
    have "ids (tk ?s q) = ids (tk s q)" by simp
    moreover have "s1 = ?s \<or> (\<exists>p. set_task_running p ?s = Some s1)"
      using True s1 by (auto simp: wakeup_by_pid_on_def split: option.splits)
    ultimately show ?thesis using set_task_running_ids [of _ ?s s1 q] by metis
  qed
  with do_raise_ids [OF r, of q] show ?thesis by simp
qed

lemma do_exit_child:
  assumes r: "do_exit busy c k = Some (nxt, k')" and p: "p = curr (rqs (sch k) c)"
  shows "ids (tsk k' q) = ids (tsk k q)" and "freed k' = freed k" and "pid_table k' = pid_table k"
    and "parent (tsk k p) = Some pa \<Longrightarrow> pa \<noteq> p \<Longrightarrow>
         (\<forall>x \<in> set (map snd (waitq k)). x \<noteq> p) \<Longrightarrow> state (tsk k' p) = TASK_ZOMBIE"
proof -
  let ?k1 = "upd_sch (upd_task p (state_update (\<lambda>_. TASK_ZOMBIE))) k"
  from r p obtain k2 s3 where
    k2: "(case parent (tsk k p) of None \<Rightarrow> Some ?k1
          | Some q \<Rightarrow> if q \<in> freed k then None
              else map_option (\<lambda>(w, s). ?k1\<lparr>waitq := w, sch := s\<rparr>)
                     (notify_parent (Some q) (Some p) (waitq ?k1) (sch ?k1))) = Some k2"
    and s3: "schedule busy c (sch k2) = Some (nxt, s3)" and k': "k' = k2\<lparr>sch := s3\<rparr>"
    by (auto simp: do_exit_def Let_def get_current_task_def split: if_splits option.splits)
  have 1: "ids (tsk k2 q) = ids (tsk k q) \<and> freed k2 = freed k \<and> pid_table k2 = pid_table k" for q
  proof (cases "parent (tsk k p)")
    case None
    with k2 have "k2 = ?k1" by simp
    then show ?thesis by simp
  next
    case (Some pa)
    with k2 obtain w s where n: "notify_parent (Some pa) (Some p) (waitq ?k1) (sch ?k1) = Some (w, s)"
      and "k2 = ?k1\<lparr>waitq := w, sch := s\<rparr>" by (auto split: if_splits)
    with notify_parent_ids [OF n, of q] show ?thesis by auto
  qed
  from 1 schedule_ids [OF s3] k' show "ids (tsk k' q) = ids (tsk k q)" "freed k' = freed k"
    "pid_table k' = pid_table k" by simp_all
  assume pa: "parent (tsk k p) = Some pa" "pa \<noteq> p" and nw: "\<forall>x \<in> set (map snd (waitq k)). x \<noteq> p"
  with k2 obtain w s where n: "notify_parent (Some pa) (Some p) (waitq ?k1) (sch ?k1) = Some (w, s)"
    and k2': "k2 = ?k1\<lparr>waitq := w, sch := s\<rparr>" by (auto split: if_splits)
  let ?s1 = "sch ?k1" let ?s2 = "upd_task pa (waiting_any_update (\<lambda>_. False)) ?s1"
  from n obtain w1 s1 rr where
    s1: "(if parent_wait (tk ?s1 p) \<or> waiting_any (tk ?s1 pa)
          then wakeup_by_pid_on (pid (tk ?s1 pa)) (waitq ?k1) ?s2 else Some (waitq ?k1, ?s1)) = Some (w1, s1)"
    and rr: "do_raise pa SIGCHLD s1 = Some (rr, s)"
    unfolding notify_parent_def by (auto split: option.splits)
  have "state (tk s1 p) = TASK_ZOMBIE"
  proof (cases "parent_wait (tk ?s1 p) \<or> waiting_any (tk ?s1 pa)")
    case False
    with s1 show ?thesis by auto
  next
    case True
    have z: "state (tk ?s2 p) = TASK_ZOMBIE" using pa by simp
    from True s1 have w: "wakeup_by_pid_on (pid (tk ?s1 pa)) (waitq ?k1) ?s2 = Some (w1, s1)" by simp
    show ?thesis
    proof (cases "find_waiting_task ?s2 (waitq ?k1) (pid (tk ?s1 pa))")
      case None
      with w have "s1 = ?s2" by (simp add: wakeup_by_pid_on_def)
      with z show ?thesis by simp
    next
      case (Some ep)
      then have "ep \<in> set (waitq k)" by (auto simp: find_waiting_task_def dest: find_SomeD)
      with nw have "snd ep \<noteq> p" by auto
      moreover from w Some have "set_task_running (snd ep) ?s2 = Some s1"
        by (auto simp: wakeup_by_pid_on_def split: prod.splits)
      ultimately show ?thesis using set_task_running_frame(1) [of "snd ep" ?s2 s1 p] z by simp
    qed
  qed
  with do_raise_state_zombie [OF rr, of p] pa schedule_ids [OF s3, of p] k2' k'
  show "state (tsk k' p) = TASK_ZOMBIE" by simp
qed

lemma builtin_ffs_least:
  assumes "(ucast w :: u32) \<noteq> 0"
  shows "\<exists>i < 32. builtin_ffs w = int i + 1 \<and> bit w i \<and> (\<forall>j < i. \<not> bit w j)"
proof -
  let ?P = "\<lambda>i. bit (ucast w :: u32) i"
  have P: "?P i \<longleftrightarrow> i < 32 \<and> bit w i" for i by (auto simp: bit_simps)
  obtain n where "?P n" using assms by (auto simp: bit_eq_iff)
  then have "n < 32" using P by simp
  with \<open>?P n\<close> have "List.find ?P [0..<32] \<noteq> None" by (auto simp: find_None_iff)
  then obtain i where i: "List.find ?P [0..<32] = Some i" by auto
  then have b: "i < 32" "bit w i" using P [of i] by (auto dest: find_SomeD)
  have "\<not> bit w j" if "j < i" for j
  proof -
    from i obtain m where m: "m < 32" "[0..<32] ! m = i" "\<forall>l < m. \<not> ?P ([0..<32] ! l)"
      by (auto simp: find_Some_iff)
    then have "m = i" by simp
    with m(3) that b show ?thesis using P [of j] by auto
  qed
  with b i show ?thesis by (intro exI [of _ i]) (simp add: builtin_ffs_def)
qed

lemma and_sigbit_iff: "(w :: u64) AND sigbit 9 \<noteq> 0 \<longleftrightarrow> bit w 9" "w AND sigbit 19 \<noteq> 0 \<longleftrightarrow> bit w 19"
proof -
  have "sigbit 9 = 2 ^ 9" "sigbit 19 = 2 ^ 19" by (simp_all add: sigbit_def)
  then show "w AND sigbit 9 \<noteq> 0 \<longleftrightarrow> bit w 9" "w AND sigbit 19 \<noteq> 0 \<longleftrightarrow> bit w 19"
    by (simp_all only: and_exp_eq_0_iff_not_bit not_not)
qed

text \<open>A family for the concrete instances: task 10 (pid 5), current on CPU 0, child of 11 (pid 4).\<close>

definition family :: "ksys" where
  "family = \<lparr>sch = alone_state\<lparr>tk := (tk alone_state)(
        10 := root_task\<lparr>pid := 5, ppid := 4, parent := Some 11, vruntime := 2,
                actions := (root_sighand)[3 := \<lparr>sa_handler = Handler 64, sa_flags = 0, sa_mask = 0\<rparr>],
                pending := 8, sig_pending := True\<rparr>,
        11 := root_task\<lparr>pid := 4, children := [10], state := TASK_SLEEPING\<rparr>)\<rparr>,
     pid_table = [10, 11], pgid_table = [10, 11], sid_table = [10, 11], num_tasks = 5,
     waitq = [], freed = {}\<rparr>"

lemma family_eval:
  "tsk family 10 = root_task\<lparr>pid := 5, ppid := 4, parent := Some 11, vruntime := 2,
     actions := (root_sighand)[3 := \<lparr>sa_handler = Handler 64, sa_flags = 0, sa_mask = 0\<rparr>],
     pending := 8, sig_pending := True\<rparr>"
  "tsk family 11 = root_task\<lparr>pid := 4, children := [10], state := TASK_SLEEPING\<rparr>"
  "curr (rqs (sch family) 0) = 10" "queue (rqs (sch family) 0) = []" "waitq family = []"
  "pid_table family = [10, 11]" "freed family = {}"
  by (simp_all add: family_def alone_state_def)

lemma family_exits: "\<exists>nxt k1. sys_exit (\<lambda>_. False) 0 7 family = Some (nxt, k1)"
  by (simp add: sys_exit_def do_exit_def Let_def get_current_task_def family_eval notify_parent_def
      root_task_def do_raise_def NSIG_def set_task_running_def schedule_def schedule_pick_def
      rb_first_cached_def rq_add_locked_def rq_del_locked_def sigisblocked_def root_sighand_def
      sigaddset_def)

text \<open>
  C6. When a child exits, its parent's \<open>waitpid\<close> for it, whatever its options, returns the
  child's pid and the exit status in the encoding of \<open>WEXITED\<close>, without sleeping, and the
  child is gone from its parent's children and from the pid table.
\<close>

theorem exit_then_waitpid:
  assumes ex: "sys_exit busy c status k = Some (nxt, k1)"
    and p: "p = curr (rqs (sch k) c)" and pa: "parent (tsk k p) = Some pa" "pa \<noteq> p"
    and kid: "p \<in> set (children (tsk k pa))" "distinct (children (tsk k pa))"
      "inj_on (\<lambda>x. pid (tsk k x)) (set (children (tsk k pa)))"
    and ppid: "ppid (tsk k p) = pid (tsk k pa)" "0 < pid (tsk k p)"
    and awake: "\<forall>x \<in> set (map snd (waitq k)). x \<noteq> p" and tbl: "distinct (pid_table k)"
  shows "\<exists>k2. sys_waitpid pa ent others (pid (tsk k p)) (Some True) nohang untraced k1
      = Some (pid (tsk k p), Some (WEXITED status), k2)
    \<and> p \<notin> set (children (tsk k2 pa)) \<and> p \<notin> set (pid_table k2)"
proof -
  let ?k = "upd_sch (upd_task p (exit_status_update (\<lambda>_. WEXITED status))) k"
  have e: "do_exit busy c ?k = Some (nxt, k1)" using ex p by (simp add: sys_exit_def get_current_task_def)
  have pc: "p = curr (rqs (sch ?k) c)" using p by simp
  note d = do_exit_child [OF e pc]
  have z: "state (tsk k1 p) = TASK_ZOMBIE" using d(4) pa awake by simp
  have fields: "pid (tsk k1 x) = pid (tsk k x)" "ppid (tsk k1 x) = ppid (tsk k x)"
    "parent (tsk k1 x) = parent (tsk k x)" "children (tsk k1 x) = children (tsk k x)"
    "exit_status (tsk k1 p) = WEXITED status" for x
    using d(1) [of x] d(1) [of p] by (auto simp: ids_def split: if_splits)
  have "find_child_by_pid (sch k1) pa (pid (tsk k p)) = Some p"
    unfolding find_child_by_pid_def fields
    by (rule find_unique) (use kid inj_onD [OF kid(3)] in auto)
  then have "sys_waitpid pa ent others (pid (tsk k p)) (Some True) nohang untraced k1
      = Some (handle_exited_child p k1)"
    using ppid fields z by (simp add: sys_waitpid_def wait_for_def)
  moreover have "p \<notin> set (children (tsk (reap_task p k1) pa))"
    using reap_task_zombie(2) [OF z, of pa] fields pa kid by simp
  moreover have "p \<notin> set (pid_table (reap_task p k1))"
    using reap_task_zombie(1) [OF z, of pa] fields pa d(3) tbl by simp
  ultimately show ?thesis using fields by (simp add: handle_exited_child_def)
qed

theorem exit_then_waitpid_witness:
  "\<exists>nxt k1 k2. sys_exit (\<lambda>_. False) 0 7 family = Some (nxt, k1)
     \<and> sys_waitpid 11 None id 5 (Some True) False False k1 = Some (5, Some 1792, k2)"
proof -
  obtain nxt k1 where e: "sys_exit (\<lambda>_. False) 0 7 family = Some (nxt, k1)" using family_exits by blast
  have "WEXITED 7 = 1792" by (simp add: WEXITED_def)
  with e exit_then_waitpid [OF e, of 10 11 None id False False] show ?thesis
    by (auto simp: family_eval root_task_def)
qed

text \<open>
  A process that is reaped while it has children leaves them a pointer to its freed task:
  the exit of such an orphan uses it.
\<close>

theorem orphan_exit_uses_freed_parent:
  assumes "handle_exited_child q k = (r, st, k1)" and "state (tsk k q) = TASK_ZOMBIE"
    and "parent (tsk k p) = Some q" and "curr (rqs (sch k) c) = p"
  shows "do_exit busy c k1 = None"
proof -
  have k1: "k1 = free_task q (reap_task q k)" using assms(1) by (simp add: handle_exited_child_def)
  have "parent (tsk k1 p) = Some q" "q \<in> freed k1" "curr (rqs (sch k1) c) = p"
    using assms(2,3,4) by (auto simp: k1 reap_task_def split: option.splits)
  then show ?thesis by (simp add: do_exit_def Let_def get_current_task_def)
qed

theorem orphan_exit_uses_freed_parent_witness:
  "do_exit (\<lambda>_. False) 0 (snd (snd (handle_exited_child 11
     (upd_sch (upd_task 11 (state_update (\<lambda>_. TASK_ZOMBIE))) family)))) = None"
  by (rule orphan_exit_uses_freed_parent
      [where q = 11 and p = 10 and k = "upd_sch (upd_task 11 (state_update (\<lambda>_. TASK_ZOMBIE))) family"
       and r = 4 and st = "Some 0"])
    (simp_all add: handle_exited_child_def family_eval root_task_def)

text \<open>
  A task that exits while the scheduler has it queued as the leftmost task (as it is after a
  yield while alone) is scheduled again: \<open>do_exit\<close> returns from \<open>schedule\<close> and runs
  into code marked unreachable.
\<close>

theorem exit_while_queued_returns:
  assumes "curr (rqs (sch k) c) = p" and "parent (tsk k p) = None" and "queue (rqs (sch k) c) = p # q"
  shows "do_exit busy c k = None"
  using assms
  by (simp add: do_exit_def Let_def get_current_task_def schedule_def schedule_pick_def rb_first_cached_def
      rq_del_locked_def split: if_splits)

theorem exit_while_queued_returns_witness:
  "do_exit (\<lambda>_. False) 0 (family\<lparr>sch := panic_state\<rparr>) = None"
  by (rule exit_while_queued_returns [where p = 10 and q = "[11]"])
    (simp_all add: panic_state_def root_task_def)

text \<open>
  A pending signal that is not blocked is served in the order SIGKILL, SIGSTOP, then by
  number, and it is always an active one; with a user handler the handler is entered, the signal is
  no longer pending, and it is blocked meanwhile unless SA_NODEFER is set.
\<close>

theorem pending_signal_served:
  assumes active: "(ucast (sig_get_active (tsk k p)) :: u32) \<noteq> 0" and p: "curr (rqs (sch k) c) = p"
    and sig: "sig = choose_signal (sig_get_active (tsk k p))"
    and h: "sa_handler (actions (tsk k p) ! nat sig) = Handler h"
  shows "\<exists>k'. handle_signal busy c k = Some (Delivered h sig, k')
    \<and> 0 \<le> sig \<and> sig < 32 \<and> bit (sig_get_active (tsk k p)) (nat sig)
    \<and> (bit (sig_get_active (tsk k p)) 9 \<longrightarrow> sig = SIGKILL)
    \<and> (\<not> bit (sig_get_active (tsk k p)) 9 \<longrightarrow> bit (sig_get_active (tsk k p)) 19 \<longrightarrow> sig = SIGSTOP)
    \<and> (sig \<noteq> SIGKILL \<longrightarrow> sig \<noteq> SIGSTOP \<longrightarrow> (\<forall>j < nat sig. \<not> bit (sig_get_active (tsk k p)) j))
    \<and> pending (tsk k' p) = sigdelset (pending (tsk k p)) sig
    \<and> (sa_flags (actions (tsk k p) ! nat sig) AND 0x40000000 = 0 \<longrightarrow>
         blocked (tsk k' p) AND sigbit sig = sigbit sig)"
proof -
  let ?a = "sig_get_active (tsk k p)"
  have nz: "?a \<noteq> 0" using active by auto
  have b9: "?a AND sigbit SIGKILL \<noteq> 0 \<longleftrightarrow> bit ?a 9" and b19: "?a AND sigbit SIGSTOP \<noteq> 0 \<longleftrightarrow> bit ?a 19"
    by (auto simp: and_sigbit_iff)
  obtain i where i: "i < 32" "builtin_ffs ?a = int i + 1" "bit ?a i" "\<forall>j < i. \<not> bit ?a j"
    using builtin_ffs_least [OF active] by blast
  have sg: "sig = (if bit ?a 9 then SIGKILL else if bit ?a 19 then SIGSTOP else int i)"
    unfolding sig choose_signal_def b9 b19 i by simp
  have r: "0 \<le> sig" "sig < 32" "bit ?a (nat sig)" using sg i by (auto split: if_splits)
  have bl: "(b OR m OR sigbit sig) AND sigbit sig = sigbit sig" for b m :: u64
    by (rule bit_word_eqI) (auto simp: bit_simps)
  show ?thesis
    using nz r sg i(4) h p bl unfolding sig [symmetric]
    by (simp add: handle_signal_def Let_def get_current_task_def sig [symmetric])
qed

theorem pending_signal_served_witness:
  "\<exists>k'. handle_signal (\<lambda>_. False) 0 family = Some (Delivered 64 SIGQUIT, k') \<and> pending (tsk k' 10) = 0"
proof -
  have a: "sig_get_active (tsk family 10) = 8"
    by (simp add: sig_get_active_def SIG_APPLY_MASK_def family_eval root_task_def)
  have "SIGQUIT = choose_signal (sig_get_active (tsk family 10))"
    unfolding a by (simp add: choose_signal_def sigbits_eval builtin_ffs_def upt_rec)
  moreover have "sa_handler (actions (tsk family 10) ! nat SIGQUIT) = Handler 64"
    by (simp add: family_eval root_sighand_def Let_def)
  moreover have "sigdelset (pending (tsk family 10)) SIGQUIT = 0"
    by (simp add: family_eval sigdelset_def sigbits_eval)
  ultimately show ?thesis
    using pending_signal_served [of family 10 0 SIGQUIT 64 "\<lambda>_. False"] a family_eval(3) by auto
qed

end
