(* ===== verification/Pipe.thy ===== *)
theory Pipe imports WaitQueue begin

text \<open>
  Pipes, \<open>kernel/kernel/pipe.c\<close>.  A pipe is a ring buffer, two wait queues and its
  reference counts.  A transfer copies with one \<open>memcpy\<close> from or to the current position; a
  copy that leaves the buffer is a fault (\<open>None\<close>).  The body of \<open>pipe_read\<close> and
  \<open>pipe_write\<close> under the pipe's lock is \<open>pipe_take\<close> and \<open>pipe_give\<close>; what other
  tasks do while the caller sleeps is the argument \<open>others\<close>, as for \<open>sleep_on\<close>.
\<close>

section \<open>Data\<close>

record pipe =
  buffer :: "u8 list"
  buf_size :: nat
  read_pos :: nat
  write_pos :: nat
  data_size :: nat
  read_wq :: wq
  write_wq :: wq
  files :: nat
  n_readers :: nat
  n_writers :: nat

text \<open>A pipe and the scheduler; \<open>destroyed\<close> once \<open>destroy_pipe\<close> has freed it.\<close>

record pworld =
  pip :: pipe
  psch :: sched
  destroyed :: bool

section \<open>Creation\<close>

datatype pipe_object = PipeStruct | PipeInode | PipeBuffer

definition PAGE_ROUND_UP :: "nat \<Rightarrow> nat" where
  "PAGE_ROUND_UP n = (n + 4095) div 4096 * 4096"

text \<open>
  The arguments say which allocations succeed, the buffer with its contents.  The result is an
  error or the pipe, and the objects that stay allocated.
\<close>

definition create_pipe :: "nat \<Rightarrow> bool \<Rightarrow> bool \<Rightarrow> u8 list option \<Rightarrow> (int + pipe) \<times> pipe_object list" where
  "create_pipe want struct_ok inode_ok mem =
     (let sz = PAGE_ROUND_UP want in
      if \<not> struct_ok then (Inl (- ENOMEM), [])
      else if \<not> inode_ok then (Inl (- ENOMEM), [])
      else case mem of
          None \<Rightarrow> (Inl (- ENOMEM), [PipeInode])
        | Some blk \<Rightarrow>
            (Inr \<lparr>buffer = blk, buf_size = sz, read_pos = 0, write_pos = 0, data_size = 0,
                  read_wq = [], write_wq = [], files = 2, n_readers = 1, n_writers = 1\<rparr>,
             [PipeStruct, PipeInode, PipeBuffer]))"

section \<open>Transfers\<close>

definition pipe_take :: "nat \<Rightarrow> pipe \<Rightarrow> (u8 list \<times> pipe) option" where
  "pipe_take count p =
     (let pos = read_pos p; to_read = min count (data_size p) in
      case mem_read (buffer p) pos to_read of
        None \<Rightarrow> None
      | Some bs \<Rightarrow> Some (bs, p\<lparr>read_pos := (pos + to_read) mod buf_size p,
                              data_size := u32_sub (data_size p) to_read\<rparr>))"

definition pipe_give :: "u8 list \<Rightarrow> pipe \<Rightarrow> (nat \<times> pipe) option" where
  "pipe_give bs p =
     (let pos = write_pos p; to_write = min (length bs) (u32_sub (buf_size p) (data_size p)) in
      case mem_write (buffer p) pos (take to_write bs) of
        None \<Rightarrow> None
      | Some blk \<Rightarrow> Some (to_write, p\<lparr>buffer := blk, write_pos := (pos + to_write) mod buf_size p,
                              data_size := u32_add (data_size p) to_write\<rparr>))"

text \<open>Sleeping on one of the two queues; the result of \<open>sleep_on\<close> is not looked at.\<close>

definition pipe_sleep ::
  "(pipe \<Rightarrow> wq) \<Rightarrow> ((wq \<Rightarrow> wq) \<Rightarrow> pipe \<Rightarrow> pipe) \<Rightarrow> tid \<Rightarrow> nat option \<Rightarrow> (pworld \<Rightarrow> pworld) \<Rightarrow>
   pworld \<Rightarrow> pworld option" where
  "pipe_sleep wq_of upd_wq cur ent others w =
     (case sleep_enter cur ent (wq_of (pip w)) (psch w) of
        None \<Rightarrow> None
      | Some (Inl err, q1, s1) \<Rightarrow> Some (w\<lparr>pip := upd_wq (\<lambda>_. q1) (pip w), psch := s1\<rparr>)
      | Some (Inr e, q1, s1) \<Rightarrow>
          (let w2 = others (w\<lparr>pip := upd_wq (\<lambda>_. q1) (pip w), psch := s1\<rparr>) in
           map_option (\<lambda>(r, q3, s3). w2\<lparr>pip := upd_wq (\<lambda>_. q3) (pip w2), psch := s3\<rparr>)
             (finish_wait cur e (wq_of (pip w2)) (psch w2))))"

definition pipe_read ::
  "tid \<Rightarrow> nat option \<Rightarrow> (pworld \<Rightarrow> pworld) \<Rightarrow> bool \<Rightarrow> bool \<Rightarrow> nat \<Rightarrow> pworld \<Rightarrow> (int \<times> u8 list \<times> pworld) option" where
  "pipe_read cur ent others buf_ok has_pipe count w =
     (if count = 0 \<or> \<not> buf_ok then Some (0, [], w)
      else if \<not> has_pipe then Some (- EIO, [], w)
      else if data_size (pip w) = 0 \<and> n_writers (pip w) = 0 then Some (0, [], w)
      else case (if data_size (pip w) = 0 then pipe_sleep read_wq read_wq_update cur ent others w
                 else Some w) of
          None \<Rightarrow> None
        | Some w1 \<Rightarrow>
            (case pipe_take count (pip w1) of
               None \<Rightarrow> None
             | Some (bs, p2) \<Rightarrow>
                 map_option (\<lambda>(_, q, s). (int (length bs), bs, w1\<lparr>pip := p2\<lparr>write_wq := q\<rparr>, psch := s\<rparr>))
                   (wake_first (write_wq p2) (psch w1))))"

definition pipe_write ::
  "tid \<Rightarrow> nat option \<Rightarrow> (pworld \<Rightarrow> pworld) \<Rightarrow> bool \<Rightarrow> bool \<Rightarrow> u8 list \<Rightarrow> pworld \<Rightarrow> (int \<times> pworld) option" where
  "pipe_write cur ent others buf_ok has_pipe bs w =
     (if length bs = 0 \<or> \<not> buf_ok then Some (0, w)
      else if \<not> has_pipe then Some (- EIO, w)
      else if n_readers (pip w) = 0 then
        map_option (\<lambda>(_, s). (- EPIPE, w\<lparr>psch := s\<rparr>)) (do_raise cur 13 (psch w))
      else case (if data_size (pip w) = buf_size (pip w)
                 then pipe_sleep write_wq write_wq_update cur ent others w else Some w) of
          None \<Rightarrow> None
        | Some w1 \<Rightarrow>
            if data_size (pip w) = buf_size (pip w) \<and> n_readers (pip w1) = 0 then
              map_option (\<lambda>(_, s). (- EPIPE, w1\<lparr>psch := s\<rparr>)) (do_raise cur 13 (psch w1))
            else
            (case pipe_give bs (pip w1) of
               None \<Rightarrow> None
             | Some (n, p2) \<Rightarrow>
                 map_option (\<lambda>(_, q, s). (int n, w1\<lparr>pip := p2\<lparr>read_wq := q\<rparr>, psch := s\<rparr>))
                   (wake_first (read_wq p2) (psch w1))))"

definition pipe_close :: "bool \<Rightarrow> nat \<Rightarrow> pworld \<Rightarrow> (int \<times> pworld) option" where
  "pipe_close has_pipe mode w =
     (if \<not> has_pipe then Some (- EINVAL, w)
      else
        (let p = pip w; acc = mode mod 4 in
         case (if acc = 1 then Some (p\<lparr>n_writers := u32_sub (n_writers p) 1\<rparr>, psch w)
               else if acc = 0 then
                 (let p1 = p\<lparr>n_readers := u32_sub (n_readers p) 1\<rparr> in
                  if n_readers p1 = 0
                  then map_option (\<lambda>(q, s). (p1\<lparr>write_wq := q\<rparr>, s)) (wake_all (write_wq p1) (psch w))
                  else Some (p1, psch w))
               else Some (p, psch w)) of
           None \<Rightarrow> None
         | Some (p2, s2) \<Rightarrow>
             (let p3 = p2\<lparr>files := u32_sub (files p2) 1\<rparr> in
              Some (0, w\<lparr>pip := p3, psch := s2, destroyed := destroyed w \<or> files p3 = 0\<rparr>))))"

section \<open>The ring\<close>

definition pipe_ok :: "pipe \<Rightarrow> bool" where
  "pipe_ok p \<longleftrightarrow> length (buffer p) = buf_size p \<and> 0 < buf_size p \<and> buf_size p < 2147483648 \<and>
     read_pos p < buf_size p \<and> data_size p \<le> buf_size p \<and>
     write_pos p = (read_pos p + data_size p) mod buf_size p"

definition pipe_content :: "pipe \<Rightarrow> u8 list" where
  "pipe_content p = ring_slice (buffer p) (read_pos p) (data_size p)"

lemma mem_read_ring:
  "lo + n \<le> length blk \<Longrightarrow> mem_read blk lo n = Some (ring_slice blk lo n)"
  by (auto simp: mem_read_def ring_slice_def intro!: nth_equalityI)

lemma pipe_take_eq:
  assumes ok: "pipe_ok p"
  shows "pipe_take count p =
    (if read_pos p + min count (data_size p) \<le> buf_size p
     then Some (take count (pipe_content p),
                p\<lparr>read_pos := (read_pos p + min count (data_size p)) mod buf_size p,
                  data_size := data_size p - min count (data_size p)\<rparr>)
     else None)"
proof -
  let ?n = "min count (data_size p)"
  have "u32_sub (data_size p) ?n = data_size p - ?n"
    using ok by (intro u32_sub_small) (auto simp: pipe_ok_def)
  moreover have "take count (pipe_content p) = ring_slice (buffer p) (read_pos p) ?n"
    unfolding pipe_content_def
    by (cases "count \<le> data_size p") (simp_all add: take_ring_slice min_def)
  ultimately show ?thesis using ok mem_read_ring [of "read_pos p" ?n "buffer p"]
    by (auto simp: pipe_take_def Let_def pipe_ok_def mem_read_def)
qed

lemma mem_write_ring:
  assumes w: "mem_write blk pos src = Some blk'" and pos: "pos = (lo + n) mod length blk"
    and fit: "n + length src \<le> length blk"
  shows "ring_slice blk' lo (n + length src) = ring_slice blk lo n @ src"
proof (rule nth_equalityI)
  show "length (ring_slice blk' lo (n + length src)) = length (ring_slice blk lo n @ src)" by simp
next
  fix i assume "i < length (ring_slice blk' lo (n + length src))"
  then have i: "i < n + length src" by simp
  have len: "length blk' = length blk" by (rule mem_write_length [OF w])
  have bound: "pos + length src \<le> length blk" using w by (auto simp: mem_write_def split: if_splits)
  have pos0: "0 < length blk" using i fit by auto
  let ?j = "(lo + i) mod length blk"
  have j: "?j < length blk" using pos0 by simp
  show "ring_slice blk' lo (n + length src) ! i = (ring_slice blk lo n @ src) ! i"
  proof (cases "i < n")
    case True
    have "\<not> (pos \<le> ?j \<and> ?j < pos + length src)"
    proof
      assume a: "pos \<le> ?j \<and> ?j < pos + length src"
      then obtain d where d: "?j = pos + d" "d < length src" by (metis le_Suc_ex add_less_cancel_left)
      then have "(lo + n + d) mod length blk = ?j" using pos j by (metis mod_add_left_eq mod_less)
      moreover have "lo + i < lo + n + d" "lo + n + d < lo + i + length blk" using True d fit by auto
      ultimately show False using ring_index_neq by metis
    qed
    with True i j show ?thesis
      by (auto simp: ring_simps len nth_append mem_write_nth [OF w])
  next
    case False
    then obtain d where d: "i = n + d" by (metis le_Suc_ex not_le)
    with i have dl: "d < length src" by simp
    have "pos + d < length blk" using bound dl by simp
    then have "?j = pos + d" using pos d by (metis add.assoc mod_add_left_eq mod_less)
    with i j dl d False show ?thesis
      by (simp add: ring_simps len nth_append mem_write_nth [OF w])
  qed
qed

lemma pipe_give_eq:
  assumes ok: "pipe_ok p"
  shows "pipe_give bs p =
    (let n = min (length bs) (buf_size p - data_size p) in
     map_option (\<lambda>blk. (n, p\<lparr>buffer := blk, write_pos := (write_pos p + n) mod buf_size p,
                          data_size := data_size p + n\<rparr>))
       (mem_write (buffer p) (write_pos p) (take n bs)))"
proof -
  have "u32_sub (buf_size p) (data_size p) = buf_size p - data_size p"
    using ok by (intro u32_sub_small) (auto simp: pipe_ok_def)
  moreover have "u32_add (data_size p) (min (length bs) (buf_size p - data_size p))
      = data_size p + min (length bs) (buf_size p - data_size p)"
    using ok by (intro u32_add_small) (auto simp: pipe_ok_def)
  ultimately show ?thesis by (simp add: pipe_give_def Let_def split: option.splits)
qed

lemma pipe_take_content:
  assumes ok: "pipe_ok p" and r: "pipe_take count p = Some (bs, p')"
  shows "pipe_ok p' \<and> length bs \<le> count \<and> pipe_content p = bs @ pipe_content p'"
proof -
  let ?n = "min count (data_size p)"
  from r have bs: "bs = take count (pipe_content p)" and p': "p' = p\<lparr>read_pos := (read_pos p + ?n) mod buf_size p,
      data_size := data_size p - ?n\<rparr>"
    unfolding pipe_take_eq [OF ok] by (auto split: if_splits)
  have "((read_pos p + ?n) mod buf_size p + (data_size p - ?n)) mod buf_size p = write_pos p"
    using ok unfolding mod_add_left_eq by (simp add: pipe_ok_def)
  moreover have "data_size p - ?n \<le> buf_size p" using ok by (auto simp: pipe_ok_def)
  ultimately have "pipe_ok p'" using ok by (simp add: pipe_ok_def p')
  moreover have "length (buffer p) = buf_size p" using ok by (simp add: pipe_ok_def)
  with ring_slice_mod [of "buffer p" "read_pos p + ?n" "data_size p - ?n"]
  have "pipe_content p' = drop ?n (pipe_content p)"
    by (simp add: pipe_content_def p' drop_ring_slice)
  then have "pipe_content p = bs @ pipe_content p'"
    by (cases "count \<le> data_size p") (simp_all add: bs min_def pipe_content_def)
  ultimately show ?thesis by (simp add: bs)
qed

lemma pipe_give_content:
  assumes ok: "pipe_ok p" and r: "pipe_give bs p = Some (n, p')"
  shows "pipe_ok p' \<and> n \<le> length bs \<and> pipe_content p' = pipe_content p @ take n bs"
proof -
  let ?n = "min (length bs) (buf_size p - data_size p)"
  from r obtain blk where w: "mem_write (buffer p) (write_pos p) (take ?n bs) = Some blk" and n: "n = ?n"
    and p': "p' = p\<lparr>buffer := blk, write_pos := (write_pos p + ?n) mod buf_size p, data_size := data_size p + ?n\<rparr>"
    unfolding pipe_give_eq [OF ok] by (auto simp: Let_def)
  have len: "length (take ?n bs) = ?n" by simp
  have fit: "data_size p + ?n \<le> buf_size p" using ok by (auto simp: pipe_ok_def)
  have "length blk = buf_size p" using mem_write_length [OF w] ok by (simp add: pipe_ok_def)
  with fit ok have "pipe_ok p'" by (auto simp: pipe_ok_def p' mod_add_left_eq add.assoc)
  moreover have "ring_slice blk (read_pos p) (data_size p + length (take ?n bs))
      = ring_slice (buffer p) (read_pos p) (data_size p) @ take ?n bs"
    by (rule mem_write_ring [OF w]) (use ok fit len in \<open>simp_all add: pipe_ok_def\<close>)
  ultimately show ?thesis using n len by (simp add: pipe_content_def p')
qed

interpretation pp: byte_channel pipe_content pipe_ok pipe_give pipe_take
proof
  show "pipe_ok p' \<and> n \<le> length bs \<and> pipe_content p' = pipe_content p @ take n bs"
    if "pipe_ok p" "pipe_give bs p = Some (n, p')" for p bs n p'
    by (rule pipe_give_content [OF that])
  show "pipe_ok p' \<and> length bs \<le> k \<and> pipe_content p = bs @ pipe_content p'"
    if "pipe_ok p" "pipe_take k p = Some (bs, p')" for p k bs p'
    by (rule pipe_take_content [OF that])
qed

lemma create_pipe_ok:
  assumes "length blk = PAGE_ROUND_UP want" and "0 < want" "want < 2147479552"
    and "create_pipe want True True (Some blk) = (Inr p, objs)"
  shows "pipe_ok p \<and> pipe_content p = []"
proof -
  have "PAGE_ROUND_UP want < 2147483648"
    using assms(3) div_times_less_eq_dividend [of "want + 4095" 4096]
    unfolding PAGE_ROUND_UP_def by linarith
  moreover have "0 < PAGE_ROUND_UP want" using assms(2) by (simp add: PAGE_ROUND_UP_def div_greater_zero_iff)
  ultimately show ?thesis using assms(1,4)
    by (auto simp: create_pipe_def Let_def pipe_ok_def pipe_content_def)
qed

section \<open>Properties\<close>

text \<open>
  C7. A pipe is a FIFO: whatever sequence of transfers is made on it, as long as none leaves the
  buffer, the bytes delivered followed by the bytes still inside are the bytes it held followed by
  the bytes it accepted, in order.
\<close>

theorem pipe_is_fifo:
  assumes "pipe_ok p" and "pp.chan_run ops p = Some (accepted, delivered, p')"
  shows "pipe_content p @ accepted = delivered @ pipe_content p' \<and> pipe_ok p'"
  using pp.chan_run_fifo [OF assms] by simp

definition small_pipe :: "pipe" where
  "small_pipe = \<lparr>buffer = [1, 2, 3, 4, 5, 6, 7, 8], buf_size = 8, read_pos = 6, write_pos = 1,
     data_size = 3, read_wq = [], write_wq = [], files = 2, n_readers = 1, n_writers = 1\<rparr>"

lemma small_pipe_ok: "pipe_ok small_pipe"
  by (simp add: pipe_ok_def small_pipe_def)

theorem pipe_is_fifo_witness:
  "\<exists>p'. pp.chan_run [Get 2, Put [20, 21], Get 9] small_pipe = Some ([20, 21], [7, 8, 1, 20, 21], p')
     \<and> pipe_content small_pipe @ [20, 21] = [7, 8, 1, 20, 21] @ pipe_content p'"
proof -
  let ?p = "small_pipe\<lparr>buffer := [1, 20, 21, 4, 5, 6, 7, 8], read_pos := 3, write_pos := 3, data_size := 0\<rparr>"
  have r: "pp.chan_run [Get 2, Put [20, 21], Get 9] small_pipe = Some ([20, 21], [7, 8, 1, 20, 21], ?p)"
    by (simp add: small_pipe_def pipe_take_def pipe_give_def mem_read_def mem_write_def u32_sub_def
        u32_add_def)
  from pipe_is_fifo [OF small_pipe_ok r] r show ?thesis by blast
qed

text \<open>
  The copies do not wrap around the end of the buffer: a write leaves the buffer exactly when
  the write position plus the bytes it moves pass its end, however much room there is, and the
  same holds for reads.
\<close>

theorem pipe_copy_faults_iff:
  assumes "pipe_ok p"
  shows "(pipe_give bs p = None \<longleftrightarrow>
            buf_size p < write_pos p + min (length bs) (buf_size p - data_size p))
    \<and> (pipe_take count p = None \<longleftrightarrow> buf_size p < read_pos p + min count (data_size p))"
  using assms unfolding pipe_give_eq [OF assms] pipe_take_eq [OF assms]
  by (auto simp: Let_def mem_write_def pipe_ok_def)

theorem pipe_copy_faults_iff_witness:
  "pipe_give [1, 2, 3] (small_pipe\<lparr>read_pos := 6, write_pos := 6, data_size := 0\<rparr>) = None"
proof -
  have "pipe_ok (small_pipe\<lparr>read_pos := 6, write_pos := 6, data_size := 0\<rparr>)"
    by (simp add: pipe_ok_def small_pipe_def)
  from pipe_copy_faults_iff [OF this, of "[1, 2, 3]"] show ?thesis by (simp add: small_pipe_def)
qed

lemma full_transfer:
  assumes ok: "pipe_ok p" and e: "data_size p = 0" and len: "0 < length bs" "write_pos p + length bs < buf_size p"
  shows "\<exists>p1 p2. pipe_give bs p = Some (length bs, p1) \<and> pipe_take (length bs) p1 = Some (bs, p2)
    \<and> pipe_ok p2 \<and> data_size p2 = 0 \<and> write_pos p2 = write_pos p + length bs \<and> buf_size p2 = buf_size p"
proof -
  have n: "min (length bs) (buf_size p - data_size p) = length bs" using e len by simp
  obtain blk where w: "mem_write (buffer p) (write_pos p) bs = Some blk"
    using ok len by (auto simp: mem_write_def pipe_ok_def)
  let ?p1 = "p\<lparr>buffer := blk, write_pos := (write_pos p + length bs) mod buf_size p, data_size := length bs\<rparr>"
  have g: "pipe_give bs p = Some (length bs, ?p1)"
    unfolding pipe_give_eq [OF ok] Let_def n using w e by simp
  note c1 = pipe_give_content [OF ok g]
  have "pipe_content p = []" using e by (simp add: pipe_content_def)
  with c1 have cont: "pipe_content ?p1 = bs" by simp
  have "read_pos p = write_pos p" using ok e by (simp add: pipe_ok_def)
  with len c1 cont have t: "pipe_take (length bs) ?p1 = Some (bs, ?p1\<lparr>read_pos := (read_pos p + length bs) mod buf_size p, data_size := 0\<rparr>)"
    by (simp add: pipe_take_eq)
  from pipe_take_content [OF conjunct1 [OF c1] t] len
  have "pipe_ok (?p1\<lparr>read_pos := (read_pos p + length bs) mod buf_size p, data_size := 0\<rparr>)" by simp
  with g t len show ?thesis by (intro exI conjI) (assumption | simp)+
qed

text \<open>
  A new pipe is empty and consistent, and ordinary use reaches such a fault: 3000 bytes
  written and read back, then 2000 bytes written, although the pipe is empty and holds 4096.
\<close>

theorem new_pipe_can_overflow:
  assumes "create_pipe 4096 True True (Some blk) = (Inr p, objs)" and "length blk = 4096"
    and bs: "length bs = 3000" and cs: "length cs = 2000"
  shows "\<exists>p2. pp.chan_run [Put bs, Get 3000] p = Some (bs, bs, p2) \<and> pipe_ok p2 \<and> pipe_content p2 = []
    \<and> pp.chan_run [Put bs, Get 3000, Put cs] p = None"
proof -
  have ok: "pipe_ok p" and p: "data_size p = 0" "write_pos p = 0" "buf_size p = 4096"
    using create_pipe_ok [OF _ _ _ assms(1)] assms(1,2)
    by (auto simp: create_pipe_def PAGE_ROUND_UP_def)
  from full_transfer [OF ok p(1), of bs] bs p obtain p1 p2 where
    t: "pipe_give bs p = Some (3000, p1)" "pipe_take 3000 p1 = Some (bs, p2)"
      "pipe_ok p2" "data_size p2 = 0" "write_pos p2 = 3000" "buf_size p2 = 4096" by auto
  have "pipe_give cs p2 = None" using pipe_copy_faults_iff [OF t(3), of cs 0] t cs by simp
  with t bs show ?thesis by (intro exI [of _ p2]) (simp add: pipe_content_def)
qed

theorem new_pipe_can_overflow_witness:
  "\<exists>p. fst (create_pipe 4096 True True (Some (replicate 4096 0))) = Inr p
     \<and> pp.chan_run [Put (replicate 3000 7), Get 3000, Put (replicate 2000 7)] p = None"
proof -
  obtain p objs where c: "create_pipe 4096 True True (Some (replicate 4096 0)) = (Inr p, objs)"
    by (simp add: create_pipe_def Let_def)
  have l: "length (replicate 4096 (0::u8)) = 4096" "length (replicate 3000 (7::u8)) = 3000"
    "length (replicate 2000 (7::u8)) = 2000" by simp_all
  from new_pipe_can_overflow [OF c l] have
    "pp.chan_run [Put (replicate 3000 7), Get 3000, Put (replicate 2000 7)] p = None" by blast
  with c show ?thesis by (intro exI [of _ p]) (simp del: pp.chan_run.simps)
qed

text \<open>
  The emptiness test of \<open>pipe_read\<close> and its \<open>sleep_on\<close> are not one step: a write
  that falls between them wakes nobody, and the reader goes to sleep on a pipe that holds data.
\<close>

theorem reader_sleeps_on_data:
  assumes "data_size (pip w) = 0" and "pipe_ok (pip w)"
    and "read_wq (pip w) = []" and "state (tk (psch w) cur) = TASK_RUNNING"
    and "pipe_write wr ent id True True bs w = Some (n, w')" and "0 < n"
  shows "0 < data_size (pip w') \<and> (\<exists>s. sleep_enter cur (Some e) (read_wq (pip w')) (psch w')
           = Some (Inr e, [(e, cur)], s)
    \<and> state (tk s cur) = TASK_SLEEPING \<and> \<not> on_rq (tk s cur))"
proof -
  have nf: "data_size (pip w) \<noteq> buf_size (pip w)" using assms(1,2) by (auto simp: pipe_ok_def)
  from assms(5,6) have "bs \<noteq> []" "n_readers (pip w) \<noteq> 0" by (auto simp: pipe_write_def split: if_splits)
  with assms(5) nf obtain m p2 where g: "pipe_give bs (pip w) = Some (m, p2)"
    and w: "map_option (\<lambda>(_, q, s). (int m, w\<lparr>pip := p2\<lparr>read_wq := q\<rparr>, psch := s\<rparr>))
              (wake_first (read_wq p2) (psch w)) = Some (n, w')"
    by (auto simp: pipe_write_def split: option.splits)
  have rq: "read_wq p2 = []" and d: "data_size p2 = data_size (pip w) + m"
    using g assms(3) unfolding pipe_give_eq [OF assms(2)] by (auto simp: Let_def)
  with w have n: "n = int m" and w': "pip w' = p2\<lparr>read_wq := []\<rparr>" "psch w' = psch w"
    by (auto simp: wake_first_def)
  obtain s where "set_task_sleeping cur (psch w) = Some s" "state (tk s cur) = TASK_SLEEPING"
    "\<not> on_rq (tk s cur)"
    using set_task_sleeping_running [OF assms(4)] by blast
  with w' n d assms(6) show ?thesis by (simp add: sleep_enter_def add_wait_entry_def)
qed

theorem reader_sleeps_on_data_witness:
  "\<exists>w' s. pipe_write 11 None id True True [42] \<lparr>pip = small_pipe\<lparr>read_pos := 1, data_size := 0\<rparr>,
       psch = alone_state, destroyed = False\<rparr> = Some (1, w')
     \<and> sleep_enter 10 (Some 1) (read_wq (pip w')) (psch w') = Some (Inr 1, [(1, 10)], s)"
proof -
  let ?w = "\<lparr>pip = small_pipe\<lparr>read_pos := 1, data_size := 0\<rparr>, psch = alone_state, destroyed = False\<rparr>"
  obtain w' where w: "pipe_write 11 None id True True [42] ?w = Some (1, w')"
    by (simp add: pipe_write_def small_pipe_def pipe_give_def Let_def mem_write_def u32_sub_def
        wake_first_def)
  have "pipe_ok (pip ?w)" by (simp add: pipe_ok_def small_pipe_def)
  with w reader_sleeps_on_data [OF _ _ _ _ w, of 10 1] show ?thesis
    by (auto simp: small_pipe_def alone_state_def root_task_def)
qed

text \<open>
  Closing the last reader wakes every sleeping writer, but closing the last writer leaves the
  sleeping readers asleep, although a read would now return end of file.
\<close>

theorem close_wakes_writers_not_readers:
  assumes "sched_inv (psch w)" and "\<forall>(e, p) \<in> set (write_wq (pip w)). state (tk (psch w) p) \<noteq> TASK_ZOMBIE"
  shows "(n_readers (pip w) = 1 \<longrightarrow> (\<exists>w'. pipe_close True 0 w = Some (0, w') \<and> write_wq (pip w') = []
      \<and> (\<forall>(e, p) \<in> set (write_wq (pip w)). state (tk (psch w') p) = TASK_RUNNING)))
    \<and> (n_writers (pip w) = 1 \<longrightarrow> (\<exists>w'. pipe_close True 1 w = Some (0, w') \<and> n_writers (pip w') = 0
      \<and> read_wq (pip w') = read_wq (pip w) \<and> psch w' = psch w))"
proof (intro conjI impI)
  assume r: "n_readers (pip w) = 1"
  let ?p1 = "(pip w)\<lparr>n_readers := 0\<rparr>"
  obtain s where "wake_all (write_wq ?p1) (psch w) = Some ([], s)"
    "\<forall>(e, p) \<in> set (write_wq (pip w)). state (tk s p) = TASK_RUNNING"
    using sw.wake_list_runs_all [OF assms(1), of "map snd (write_wq (pip w))"] assms(2)
    by (fastforce simp: wake_all_def wake_each_list)
  with r show "\<exists>w'. pipe_close True 0 w = Some (0, w') \<and> write_wq (pip w') = []
      \<and> (\<forall>(e, p) \<in> set (write_wq (pip w)). state (tk (psch w') p) = TASK_RUNNING)"
    by (simp add: pipe_close_def Let_def u32_sub_def)
next
  assume "n_writers (pip w) = 1"
  then show "\<exists>w'. pipe_close True 1 w = Some (0, w') \<and> n_writers (pip w') = 0
      \<and> read_wq (pip w') = read_wq (pip w) \<and> psch w' = psch w"
    by (simp add: pipe_close_def Let_def u32_sub_def)
qed

theorem close_wakes_writers_not_readers_witness:
  "\<exists>w'. pipe_close True 1 \<lparr>pip = small_pipe\<lparr>read_wq := [(1, 11)]\<rparr>, psch = alone_state, destroyed = False\<rparr>
     = Some (0, w') \<and> read_wq (pip w') = [(1, 11)]"
  using close_wakes_writers_not_readers
    [of "\<lparr>pip = small_pipe\<lparr>read_wq := [(1, 11)]\<rparr>, psch = alone_state, destroyed = False\<rparr>"]
    demo_states_inv(1) by (auto simp: small_pipe_def)

end
