(* ===== verification/FdTable.thy ===== *)
theory FdTable imports Pipe begin

text \<open>
  File descriptors: the table of a process (\<open>fs/fd.c\<close>), the reference counts of open files
  (\<open>fs/file.c\<close>), and the system calls that move descriptors: the end of \<open>open\<close>,
  \<open>close\<close>, \<open>dup\<close>, \<open>dup2\<close> (\<open>fs/vfs.c\<close>), \<open>fcntl\<close>, \<open>pipe\<close>, and the copy of the
  table in \<open>fork\<close> (\<open>copy_fs_info\<close>, \<open>kernel/process.c\<close>).

  An open file is named by its address.  The table is the array \<open>fdarray\<close>, whose length is
  \<open>max\<close>; \<open>mem\<close> says whether \<open>krealloc\<close> succeeds.  Writing outside the array and using a
  file that \<open>fput\<close> has freed are faults (\<open>None\<close>).  \<open>f_count\<close> is a natural number:
  it would need 2^32 references to wrap.
\<close>

section \<open>The table\<close>

type_synonym fid = nat
type_synonym fdtable = "fid option list"

definition set_fdtsize :: "bool \<Rightarrow> nat \<Rightarrow> fdtable \<Rightarrow> int \<times> fdtable" where
  "set_fdtsize mem n t =
     (if n \<le> length t then (int (length t), t)
      else if length t \<ge> 1024 \<or> n > 1024 then (- EMFILE, t)
      else if \<not> mem then (- ENOMEM, t)
      else (int n, t @ replicate (n - length t) None))"

fun first_free :: "nat \<Rightarrow> fdtable \<Rightarrow> nat option" where
  "first_free i [] = None"
| "first_free i (x # t) = (if x = None then Some i else first_free (Suc i) t)"

definition get_fd_for :: "bool \<Rightarrow> fdtable \<Rightarrow> int \<times> fdtable" where
  "get_fd_for mem t =
     (case first_free 0 t of
        Some i \<Rightarrow> (int i, t)
      | None \<Rightarrow>
          if length t < 256 then
            (case set_fdtsize mem (length t * 2) t of
               (r, t1) \<Rightarrow> if r < 0 then (r, t1) else (int (length t), t1))
          else (- EMFILE, t))"

definition fd_store :: "int \<Rightarrow> fid \<Rightarrow> fdtable \<Rightarrow> fdtable option" where
  "fd_store fd f t = (if 0 \<le> fd \<and> nat fd < length t then Some (t[nat fd := Some f]) else None)"

definition get_next_fd :: "bool \<Rightarrow> fid option \<Rightarrow> fdtable \<Rightarrow> (int \<times> fdtable) option" where
  "get_next_fd mem fo t =
     (case fo of
        None \<Rightarrow> Some (- EINVAL, t)
      | Some f \<Rightarrow>
          (case get_fd_for mem t of
             (fd, t1) \<Rightarrow> if fd < 0 then Some (fd, t1)
                        else map_option (\<lambda>t2. (fd, t2)) (fd_store fd f t1)))"

definition get_fd_start_at :: "bool \<Rightarrow> int \<Rightarrow> fid \<Rightarrow> fdtable \<Rightarrow> (int \<times> fdtable) option" where
  "get_fd_start_at mem start f t =
     (if start < 0 \<or> start \<ge> 1023 then Some (- EINVAL, t)
      else
        (case (if start \<ge> int (length t) then set_fdtsize mem (min (nat start * 2) 1024) t
               else (int (length t), t)) of
           (r, t1) \<Rightarrow>
             if r < 0 then Some (r, t1)
             else (case first_free (nat start) (drop (nat start) t1) of
                 None \<Rightarrow> Some (- EMFILE, t1)
               | Some i \<Rightarrow> Some (int i, t1[i := Some f]))))"

definition get_file_handle :: "int \<Rightarrow> fdtable \<Rightarrow> int + fid" where
  "get_file_handle fd t =
     (if fd < 0 \<or> nat fd \<ge> length t then Inl (- EBADF)
      else case t ! nat fd of None \<Rightarrow> Inl (- EBADF) | Some f \<Rightarrow> Inr f)"

section \<open>Open files\<close>

record fstore =
  f_count :: "fid \<Rightarrow> nat"
  f_mode :: "fid \<Rightarrow> u32"
  gone :: "fid set"

text \<open>\<open>alloc_file\<close> gives a file that is not in use a count of one.\<close>

definition alloc_file :: "fid \<Rightarrow> fstore \<Rightarrow> fstore" where
  "alloc_file f st = st\<lparr>f_count := (f_count st)(f := 1), f_mode := (f_mode st)(f := 0), gone := gone st - {f}\<rparr>"

definition fget :: "fid \<Rightarrow> fstore \<Rightarrow> fstore option" where
  "fget f st =
     (if f \<in> gone st then None else Some (st\<lparr>f_count := (f_count st)(f := f_count st f + 1)\<rparr>))"

definition fput :: "fid \<Rightarrow> fstore \<Rightarrow> fstore option" where
  "fput f st =
     (if f \<in> gone st then None
      else
        (let st1 = st\<lparr>f_count := (f_count st)(f := f_count st f - 1)\<rparr> in
         if f_count st1 f \<noteq> 0 then Some st1 else Some (st1\<lparr>gone := insert f (gone st1)\<rparr>)))"

abbreviation vfs_close :: "fid \<Rightarrow> fstore \<Rightarrow> fstore option" where
  "vfs_close \<equiv> fput"

definition get_fd_exact_replace ::
  "bool \<Rightarrow> int \<Rightarrow> fid \<Rightarrow> fdtable \<times> fstore \<Rightarrow> (int \<times> fdtable \<times> fstore) option" where
  "get_fd_exact_replace mem fd f w =
     (case w of (t, st) \<Rightarrow>
      if fd < 0 \<or> fd \<ge> 1024 then Some (- EINVAL, t, st)
      else
        (case (if fd \<ge> int (length t) then set_fdtsize mem (min (nat fd * 2) 1024) t
               else (int (length t), t)) of
           (r, t1) \<Rightarrow>
             if r < 0 then Some (r, t1, st)
             else if nat fd \<ge> length t1 then None
             else (case (case t1 ! nat fd of None \<Rightarrow> Some st | Some old \<Rightarrow> vfs_close old st) of
                 None \<Rightarrow> None
               | Some st1 \<Rightarrow> Some (fd, t1[nat fd := Some f], st1))))"

section \<open>System calls\<close>

text \<open>The end of \<open>open\<close>: a new file gets a descriptor, or is dropped.\<close>

definition sys_open_fd :: "bool \<Rightarrow> fid \<Rightarrow> fdtable \<times> fstore \<Rightarrow> (int \<times> fdtable \<times> fstore) option" where
  "sys_open_fd mem f w =
     (case w of (t, st) \<Rightarrow>
      case get_next_fd mem (Some f) t of
        None \<Rightarrow> None
      | Some (fd, t1) \<Rightarrow>
          if fd < 0 then map_option (\<lambda>st1. (fd, t1, st1)) (fput f st)
          else Some (fd, t1, st))"

definition sys_close :: "int \<Rightarrow> fdtable \<times> fstore \<Rightarrow> (int \<times> fdtable \<times> fstore) option" where
  "sys_close fd w =
     (case w of (t, st) \<Rightarrow>
      case get_file_handle fd t of
        Inl err \<Rightarrow> Some (err, t, st)
      | Inr f \<Rightarrow> map_option (\<lambda>st1. (0, t[nat fd := None], st1)) (vfs_close f st))"

definition vfs_dupf :: "bool \<Rightarrow> int \<Rightarrow> fdtable \<times> fstore \<Rightarrow> (int \<times> fdtable \<times> fstore) option" where
  "vfs_dupf mem fd w =
     (case w of (t, st) \<Rightarrow>
      case get_file_handle fd t of
        Inl err \<Rightarrow> Some (err, t, st)
      | Inr f \<Rightarrow>
          (case fget f st of
             None \<Rightarrow> None
           | Some st1 \<Rightarrow>
               (case get_next_fd mem (Some f) t of
                  None \<Rightarrow> None
                | Some (n, t1) \<Rightarrow>
                    if n < 0 then map_option (\<lambda>st2. (n, t1, st2)) (fput f st1)
                    else Some (n, t1, st1))))"

definition vfs_dup :: "bool \<Rightarrow> int \<Rightarrow> int \<Rightarrow> fdtable \<times> fstore \<Rightarrow> (int \<times> fdtable \<times> fstore) option" where
  "vfs_dup mem oldfd newfd w =
     (case w of (t, st) \<Rightarrow>
      if newfd < 0 \<or> newfd \<ge> 1024 then Some (- EBADF, t, st)
      else if oldfd = newfd then Some (newfd, t, st)
      else case get_file_handle oldfd t of
          Inl err \<Rightarrow> Some (err, t, st)
        | Inr f \<Rightarrow>
            (case fget f st of
               None \<Rightarrow> None
             | Some st1 \<Rightarrow>
                 (case get_fd_exact_replace mem newfd f (t, st1) of
                    None \<Rightarrow> None
                  | Some (ret, t1, st2) \<Rightarrow>
                      if ret < 0 then map_option (\<lambda>st3. (ret, t1, st3)) (fput f st2)
                      else Some (ret, t1, st2))))"

text \<open>\<open>arg\<close> is an \<open>unsigned long\<close>; \<open>(int)arg\<close> and the \<open>int\<close> parameter take its low half.\<close>

definition sys_fcntl :: "bool \<Rightarrow> int \<Rightarrow> int \<Rightarrow> u64 \<Rightarrow> fdtable \<times> fstore \<Rightarrow> (int \<times> fdtable \<times> fstore) option" where
  "sys_fcntl mem fd cmd arg w =
     (case w of (t, st) \<Rightarrow>
      case get_file_handle fd t of
        Inl err \<Rightarrow> Some (err, t, st)
      | Inr f \<Rightarrow>
          (let iarg = sint (ucast arg :: u32); m = f_mode st f in
           if cmd = 0 \<or> cmd = 14 then
             (if fd < 0 then Some (- EBADF, t, st)
              else if iarg < 0 then Some (- EINVAL, t, st)
              else if arg = 0 then vfs_dupf mem fd (t, st)
              else case fget f st of
                  None \<Rightarrow> None
                | Some st1 \<Rightarrow>
                    (case get_fd_start_at mem iarg f t of
                       None \<Rightarrow> None
                     | Some (n, t1) \<Rightarrow>
                         if n < 0 then map_option (\<lambda>st2. (n, t1, st2)) (fput f st1)
                         else Some (n, t1, st1)))
           else if cmd = 3 then Some (sint m, t, st)
           else if cmd = 4 then
             Some (0, t, st\<lparr>f_mode := (f_mode st)(f := (m AND 3) OR (ucast arg AND NOT 0x8e03))\<rparr>)
           else if cmd = 1 then Some (if m AND 0x40000 \<noteq> 0 then 1 else 0, t, st)
           else if cmd = 2 then
             Some (0, t, st\<lparr>f_mode := (f_mode st)(f :=
                (if arg AND 1 \<noteq> 0 then m OR 0x40000 else m AND NOT 0x40000))\<rparr>)
           else Some (- EINVAL, t, st)))"

text \<open>
  \<open>pipe\<close>: the outcome of \<open>create_pipe\<close>, the two files \<open>alloc_file\<close> gives, and whether the
  table can grow for each descriptor.  The result has the descriptors written to the user.
\<close>

definition sys_pipe ::
  "bool \<Rightarrow> int + pipe \<Rightarrow> fid option \<Rightarrow> fid option \<Rightarrow> bool \<Rightarrow> bool \<Rightarrow> fdtable \<times> fstore \<Rightarrow>
   (int \<times> (int \<times> int) option \<times> fdtable \<times> fstore) option" where
  "sys_pipe ok cp rend wend mem1 mem2 w =
     (case w of (t, st) \<Rightarrow>
      if \<not> ok then Some (- EFAULT, None, t, st)
      else case cp of
          Inl err \<Rightarrow> Some (err, None, t, st)
        | Inr p \<Rightarrow>
            (case (rend, wend) of
               (Some r, Some v) \<Rightarrow>
                 (let st1 = alloc_file v (alloc_file r st);
                      st2 = st1\<lparr>f_mode := (f_mode st1)(r := 0, v := 1)\<rparr> in
                  case get_next_fd mem1 (Some r) t of
                    None \<Rightarrow> None
                  | Some (rfd, t1) \<Rightarrow>
                      (case get_next_fd mem2 (Some v) t1 of
                         None \<Rightarrow> None
                       | Some (wfd, t2) \<Rightarrow>
                           if rfd < 0 \<or> wfd < 0
                           then Some (- EMFILE, None, t2, st2\<lparr>gone := gone st2 \<union> {r, v}\<rparr>)
                           else Some (0, Some (rfd, wfd), t2, st2)))
             | _ \<Rightarrow> Some (- ENOMEM, None, t, st)))"

text \<open>The loop of \<open>copy_fs_info\<close>: the child's slots, each a new reference.\<close>

fun fget_all :: "fdtable \<Rightarrow> fstore \<Rightarrow> fstore option" where
  "fget_all [] st = Some st"
| "fget_all (None # t) st = fget_all t st"
| "fget_all (Some f # t) st = (case fget f st of None \<Rightarrow> None | Some st1 \<Rightarrow> fget_all t st1)"

definition copy_fdtable :: "fdtable \<times> fstore \<Rightarrow> (fdtable \<times> fstore) option" where
  "copy_fdtable w = (case w of (t, st) \<Rightarrow> map_option (\<lambda>st1. (t, st1)) (fget_all t st))"

text \<open>The loop of \<open>cleanup_files\<close> at exit.\<close>

fun cleanup_files :: "fdtable \<Rightarrow> fstore \<Rightarrow> fstore option" where
  "cleanup_files [] st = Some st"
| "cleanup_files (None # t) st = cleanup_files t st"
| "cleanup_files (Some f # t) st = (case vfs_close f st of None \<Rightarrow> None | Some st1 \<Rightarrow> cleanup_files t st1)"

section \<open>Reference counts\<close>

definition refs :: "fdtable \<Rightarrow> fid \<Rightarrow> nat" where
  "refs t f = count_list t (Some f)"

text \<open>
  \<open>other f\<close> are the references to \<open>f\<close> outside the table: other processes' tables and
  system calls in progress.  A file that is not freed is counted exactly; a freed one is not
  referenced.
\<close>

definition balanced :: "(fid \<Rightarrow> nat) \<Rightarrow> fdtable \<Rightarrow> fstore \<Rightarrow> bool" where
  "balanced other t st \<longleftrightarrow>
     (\<forall>f. (f \<in> gone st \<longrightarrow> other f = 0 \<and> refs t f = 0) \<and>
          (f \<notin> gone st \<longrightarrow> f_count st f = other f + refs t f))"

lemma balancedD: "balanced other t st \<Longrightarrow> 0 < other f + refs t f \<Longrightarrow>
    f \<notin> gone st \<and> f_count st f = other f + refs t f"
  unfolding balanced_def by (metis add.right_neutral less_irrefl)

lemma count_list_update:
  "i < length t \<Longrightarrow> count_list (t[i := x]) y + (if t ! i = y then 1 else 0)
     = count_list t y + (if x = y then 1 else (0::nat))"
proof (induction t arbitrary: i)
  case (Cons a t)
  show ?case
  proof (cases i)
    case (Suc n)
    with Cons.IH [of n] Cons.prems show ?thesis by (auto split: if_splits)
  qed (auto split: if_splits)
qed simp

lemma refs_update:
  "i < length t \<Longrightarrow> refs (t[i := x]) f + (if t ! i = Some f then 1 else 0)
     = refs t f + (if x = Some f then 1 else 0)"
  by (simp add: refs_def count_list_update)

lemma refs_pos: "i < length t \<Longrightarrow> t ! i = Some f \<Longrightarrow> 0 < refs t f"
  by (auto simp: refs_def count_list_0_iff intro!: Nat.gr0I) (metis nth_mem)

lemma refs_append_free: "refs (t @ replicate n None) f = refs t f"
  by (simp add: refs_def)

lemma first_free_SomeD:
  "first_free k t = Some i \<Longrightarrow> k \<le> i \<and> i < k + length t \<and> t ! (i - k) = None
    \<and> (\<forall>j. k \<le> j \<longrightarrow> j < i \<longrightarrow> t ! (j - k) \<noteq> None)"
proof (induction k t rule: first_free.induct)
  case (2 k x t)
  show ?case
  proof (cases "x = None")
    case True
    with 2 show ?thesis by auto
  next
    case False
    with 2 have IH: "Suc k \<le> i" "i < Suc k + length t" "t ! (i - Suc k) = None"
      "\<forall>j. Suc k \<le> j \<longrightarrow> j < i \<longrightarrow> t ! (j - Suc k) \<noteq> None" by auto
    have "(x # t) ! (j - k) \<noteq> None" if "k \<le> j" "j < i" for j
      using that False IH(4) by (cases "j = k") (auto simp: nth_Cons' Suc_diff_Suc)
    with IH show ?thesis by (auto simp: nth_Cons' Suc_diff_Suc)
  qed
qed simp

lemma first_free_NoneD: "first_free k t = None \<Longrightarrow> None \<notin> set t"
  by (induction k t rule: first_free.induct) (auto split: if_splits)

text \<open>What a growth of the table keeps.\<close>

lemma set_fdtsize_eq:
  assumes "set_fdtsize mem n t = (r, t1)"
  shows "(r < 0 \<and> t1 = t) \<or> (0 \<le> r \<and> t1 = t @ replicate (n - length t) None)"
  using assms by (auto simp: set_fdtsize_def split: if_splits)

lemma get_fd_for_eq:
  assumes "get_fd_for mem t = (fd, t1)"
  shows "(fd < 0 \<and> t1 = t) \<or>
    (0 \<le> fd \<and> (\<exists>n. t1 = t @ replicate n None) \<and> nat fd \<le> length t
     \<and> (nat fd < length t \<longrightarrow> t ! nat fd = None)
     \<and> (\<forall>j < nat fd. t ! j \<noteq> None) \<and> (nat fd < length t1 \<or> t = []))"
proof (cases "first_free 0 t")
  case None
  then have nn: "\<forall>j < length t. t ! j \<noteq> None" using first_free_NoneD by (metis nth_mem)
  show ?thesis
  proof (cases "length t < 256")
    case True
    obtain r t2 where s: "set_fdtsize mem (length t * 2) t = (r, t2)" by fastforce
    with True assms None have "fd = (if r < 0 then r else int (length t))" "t1 = t2"
      by (auto simp: get_fd_for_def split: if_splits)
    with set_fdtsize_eq [OF s] have
      "(fd < 0 \<and> t1 = t) \<or> (fd = int (length t) \<and> t1 = t @ replicate (length t) None)"
      by (auto split: if_splits)
    with nn show ?thesis by (cases "t = []") (auto simp del: length_0_conv)
  qed (use assms None in \<open>auto simp: get_fd_for_def\<close>)
next
  case (Some i)
  then have "fd = int i" "t1 = t" using assms by (auto simp: get_fd_for_def)
  moreover have "\<exists>n. t = t @ replicate n None" by (rule exI [of _ 0]) simp
  ultimately show ?thesis using first_free_SomeD [OF Some] by simp
qed

text \<open>A new descriptor: one more reference from the table, one that was held outside before.\<close>

lemma get_next_fd_balanced:
  assumes b: "balanced (other(f := other f + 1)) t st" and r: "get_next_fd mem (Some f) t = Some (fd, t1)"
  shows "if fd < 0 then balanced (other(f := other f + 1)) t1 st
         else balanced other t1 st \<and> nat fd < length t1 \<and> t1 ! nat fd = Some f"
proof -
  obtain fd0 t0 where g: "get_fd_for mem t = (fd0, t0)" by fastforce
  show ?thesis
  proof (cases "fd0 < 0")
    case True
    with g get_fd_for_eq [OF g] r b show ?thesis by (auto simp: get_next_fd_def)
  next
    case False
    with g r have st: "nat fd < length t0" "t1 = t0[nat fd := Some f]" "fd = fd0" "0 \<le> fd"
      by (auto simp: get_next_fd_def fd_store_def split: if_splits)
    with False get_fd_for_eq [OF g] obtain n where n: "t0 = t @ replicate n None"
      "nat fd < length t \<longrightarrow> t ! nat fd = None" by auto
    have none: "t0 ! nat fd = None" using n st by (auto simp: nth_append)
    have "refs t1 x = refs t x + (if x = f then 1 else 0)" for x
      using refs_update [OF st(1), of "Some f" x] none n(1) by (simp add: st(2) refs_append_free)
    with b have "balanced other t1 st" by (auto simp: balanced_def split: if_splits)
    with st show ?thesis by auto
  qed
qed

lemma fget_balanced:
  assumes "balanced other t st" and "0 < other f + refs t f"
  shows "\<exists>st1. fget f st = Some st1 \<and> balanced (other(f := other f + 1)) t st1"
  using balancedD [OF assms] assms(1) by (auto simp: fget_def balanced_def split: if_splits)

lemma fput_balanced:
  assumes "balanced (other(f := other f + 1)) t st"
  shows "\<exists>st1. fput f st = Some st1 \<and> balanced other t st1
    \<and> (f \<in> gone st1 \<longleftrightarrow> other f + refs t f = 0) \<and> gone st1 \<subseteq> insert f (gone st)"
proof -
  have f: "f \<notin> gone st" "f_count st f = other f + 1 + refs t f"
    using balancedD [OF assms, of f] by auto
  let ?st = "st\<lparr>f_count := (f_count st)(f := f_count st f - 1)\<rparr>"
  have o: "x \<in> gone st \<Longrightarrow> other x = 0 \<and> refs t x = 0"
    "x \<notin> gone st \<Longrightarrow> x \<noteq> f \<Longrightarrow> f_count st x = other x + refs t x" for x
    using assms f by (auto simp: balanced_def split: if_splits)
  show ?thesis
  proof (cases "other f + refs t f = 0")
    case True
    have "balanced other t (?st\<lparr>gone := insert f (gone st)\<rparr>)"
      unfolding balanced_def using o True by auto
    with True f show ?thesis by (auto simp: fput_def)
  next
    case False
    have "balanced other t ?st" unfolding balanced_def using o f by auto
    with False f show ?thesis by (auto simp: fput_def)
  qed
qed

text \<open>Each system call keeps the balance, and none faults on a table that is not empty.\<close>

lemma get_file_handle_SomeD:
  "get_file_handle fd t = Inr f \<Longrightarrow> 0 \<le> fd \<and> nat fd < length t \<and> t ! nat fd = Some f"
  by (auto simp: get_file_handle_def split: if_splits option.splits)

lemma get_file_handle_InlD: "get_file_handle fd t = Inl err \<Longrightarrow> err = - EBADF"
  by (auto simp: get_file_handle_def split: if_splits option.splits)

lemma get_next_fd_total:
  assumes "t \<noteq> []"
  shows "\<exists>fd t1. get_next_fd mem (Some f) t = Some (fd, t1) \<and> t1 \<noteq> []"
proof -
  obtain fd t0 where g: "get_fd_for mem t = (fd, t0)" by fastforce
  with get_fd_for_eq [OF g] assms show ?thesis by (auto simp: get_next_fd_def fd_store_def)
qed

lemma open_fd_balanced:
  assumes b: "balanced (other(f := other f + 1)) t st" and ne: "t \<noteq> []"
  shows "\<exists>fd t1 st1. sys_open_fd mem f (t, st) = Some (fd, t1, st1) \<and> balanced other t1 st1 \<and> t1 \<noteq> []
    \<and> (0 \<le> fd \<longrightarrow> get_file_handle fd t1 = Inr f)"
proof -
  obtain fd t1 where g: "get_next_fd mem (Some f) t = Some (fd, t1)" "t1 \<noteq> []"
    using get_next_fd_total [OF ne] by blast
  note n = get_next_fd_balanced [OF b g(1)]
  show ?thesis
  proof (cases "fd < 0")
    case True
    with n obtain st1 where "fput f st = Some st1" "balanced other t1 st1"
    proof -
      assume a: "\<And>st1. fput f st = Some st1 \<Longrightarrow> balanced other t1 st1 \<Longrightarrow> thesis"
      from True n have "balanced (other(f := other f + 1)) t1 st" by simp
      from fput_balanced [OF this] a show thesis by blast
    qed
    with True g show ?thesis by (simp add: sys_open_fd_def)
  next
    case False
    with n g show ?thesis by (simp add: sys_open_fd_def get_file_handle_def)
  qed
qed

lemma dupf_balanced:
  assumes b: "balanced other t st" and ne: "t \<noteq> []"
  shows "\<exists>fd t1 st1. vfs_dupf mem old (t, st) = Some (fd, t1, st1) \<and> balanced other t1 st1 \<and> t1 \<noteq> []"
proof (cases "get_file_handle old t")
  case (Inl err)
  with b ne show ?thesis by (simp add: vfs_dupf_def)
next
  case (Inr f)
  then have "0 < other f + refs t f" using get_file_handle_SomeD [OF Inr] refs_pos [of "nat old" t f] by simp
  from fget_balanced [OF b this] obtain st1 where s: "fget f st = Some st1"
    "balanced (other(f := other f + 1)) t st1" by blast
  from open_fd_balanced [OF s(2) ne, of mem] show ?thesis
    using Inr s(1) by (auto simp: vfs_dupf_def sys_open_fd_def split: option.splits prod.splits if_splits)
qed

lemma close_balanced:
  assumes b: "balanced other t st"
  shows "\<exists>r t1 st1. sys_close fd (t, st) = Some (r, t1, st1) \<and> balanced other t1 st1
    \<and> length t1 = length t \<and> (r = 0 \<longrightarrow> get_file_handle fd t1 = Inl (- EBADF))"
proof (cases "get_file_handle fd t")
  case (Inl err)
  then show ?thesis using b
    by (auto simp: sys_close_def get_file_handle_def split: if_splits option.splits)
next
  case (Inr f)
  note h = get_file_handle_SomeD [OF Inr]
  let ?t = "t[nat fd := None]"
  have r: "refs ?t x + (if x = f then 1 else 0) = refs t x" for x
    using refs_update [of "nat fd" t None x] h by auto
  have "refs t x = refs ?t x + (if x = f then 1 else 0)" for x using r [of x] by simp
  then have "balanced (other(f := other f + 1)) ?t st"
    using b refs_pos [of "nat fd" t f] h by (auto simp: balanced_def split: if_splits)
  from fput_balanced [OF this] Inr h show ?thesis by (auto simp: sys_close_def get_file_handle_def)
qed

lemma refs_None: "refs (None # t) f = refs t f" "refs (Some x # t) f = refs t f + (if x = f then 1 else 0)"
  by (simp_all add: refs_def)

lemma exact_replace_balanced:
  assumes b: "balanced (other(f := other f + 1)) t st" and ne: "t \<noteq> []"
  shows "\<exists>r t1 st1. get_fd_exact_replace mem fd f (t, st) = Some (r, t1, st1) \<and> t1 \<noteq> [] \<and>
    (if r < 0 then balanced (other(f := other f + 1)) t1 st1
     else r = fd \<and> balanced other t1 st1 \<and> get_file_handle fd t1 = Inr f)"
proof (cases "fd < 0 \<or> fd \<ge> 1024")
  case True
  with b ne show ?thesis by (simp add: get_fd_exact_replace_def)
next
  case range: False
  obtain r0 t0 where g: "(if fd \<ge> int (length t) then set_fdtsize mem (min (nat fd * 2) 1024) t
               else (int (length t), t)) = (r0, t0)" by fastforce
  then have t0: "(r0 < 0 \<and> t0 = t) \<or> (0 \<le> r0 \<and> (\<exists>n. t0 = t @ replicate n None))"
    using set_fdtsize_eq [of mem "min (nat fd * 2) 1024" t r0 t0]
    by (auto split: if_splits intro: exI [of _ 0])
  show ?thesis
  proof (cases "r0 < 0")
    case True
    with g t0 range b ne show ?thesis by (auto simp: get_fd_exact_replace_def)
  next
    case False
    have len: "nat fd < length t0"
    proof (cases "fd \<ge> int (length t)")
      case True
      have "0 < length t" using ne by simp
      with True have "nat fd < min (nat fd * 2) 1024" using range by linarith
      with True g False range show ?thesis by (auto simp: set_fdtsize_def split: if_splits)
    qed (use g range in auto)
    from False t0 have rf: "refs t0 x = refs t x" for x by (auto simp: refs_append_free)
    let ?t1 = "t0[nat fd := Some f]"
    have up: "refs ?t1 x + (if t0 ! nat fd = Some x then 1 else 0) = refs t x + (if x = f then 1 else 0)" for x
      using refs_update [OF len, of "Some f" x] rf by auto
    have h: "get_file_handle fd ?t1 = Inr f" using len range by (simp add: get_file_handle_def)
    show ?thesis
    proof (cases "t0 ! nat fd")
      case None
      with up have "refs ?t1 x = refs t x + (if x = f then 1 else 0)" for x by simp
      with b have "balanced other ?t1 st" by (auto simp: balanced_def split: if_splits)
      with None g False range len h show ?thesis by (auto simp: get_fd_exact_replace_def)
    next
      case (Some x)
      have "refs ?t1 y + (if y = x then 1 else 0) = refs t y + (if y = f then 1 else 0)" for y
        using up [of y] Some by (cases "y = x") auto
      note eq = this
      have px: "0 < refs t x" using refs_pos [OF len Some] rf by simp
      have "balanced (other(x := other x + 1)) ?t1 st" unfolding balanced_def
      proof (intro allI conjI impI)
        fix y assume "y \<in> gone st"
        with b have z: "(other(f := other f + 1)) y = 0" "refs t y = 0" by (simp_all add: balanced_def)
        with px have ne: "y \<noteq> x" "y \<noteq> f" by (auto split: if_splits)
        with z eq [of y] show "(other(x := other x + 1)) y = 0" "refs ?t1 y = 0" by simp_all
      next
        fix y assume "y \<notin> gone st"
        with b have "f_count st y = (other(f := other f + 1)) y + refs t y" by (simp add: balanced_def)
        with eq [of y] show "f_count st y = (other(x := other x + 1)) y + refs ?t1 y"
          by (cases "y = x"; cases "y = f") simp_all
      qed
      from fput_balanced [OF this] obtain st1 where "fput x st = Some st1" "balanced other ?t1 st1" by blast
      with Some g False range len h show ?thesis by (auto simp: get_fd_exact_replace_def)
    qed
  qed
qed

lemma dup_balanced:
  assumes b: "balanced other t st" and ne: "t \<noteq> []"
  shows "\<exists>r t1 st1. vfs_dup mem old new (t, st) = Some (r, t1, st1) \<and> balanced other t1 st1 \<and> t1 \<noteq> []
    \<and> (0 \<le> r \<longrightarrow> old \<noteq> new \<longrightarrow> r = new \<and> get_file_handle new t1 = get_file_handle old t)"
proof (cases "(new < 0 \<or> new \<ge> 1024) \<or> old = new \<or> (\<exists>err. get_file_handle old t = Inl err)")
  case True
  then have "\<exists>r. vfs_dup mem old new (t, st) = Some (r, t, st) \<and> (r < 0 \<or> old = new)"
    using get_file_handle_InlD by (fastforce simp: vfs_dup_def)
  with b ne show ?thesis by force
next
  case False
  then obtain f where h: "get_file_handle old t = Inr f" by (cases "get_file_handle old t") auto
  then have "0 < other f + refs t f" using get_file_handle_SomeD [OF h] refs_pos [of "nat old" t f] by simp
  from fget_balanced [OF b this] obtain st1 where s: "fget f st = Some st1"
    "balanced (other(f := other f + 1)) t st1" by blast
  from exact_replace_balanced [OF s(2) ne, of mem new] obtain r t1 st2 where
    e: "get_fd_exact_replace mem new f (t, st1) = Some (r, t1, st2)" "t1 \<noteq> []"
      "if r < 0 then balanced (other(f := other f + 1)) t1 st2
       else r = new \<and> balanced other t1 st2 \<and> get_file_handle new t1 = Inr f" by blast
  show ?thesis
  proof (cases "r < 0")
    case True
    with e(3) have "balanced (other(f := other f + 1)) t1 st2" by simp
    from fput_balanced [OF this] False True e h s(1) show ?thesis by (auto simp: vfs_dup_def)
  next
    case nonneg: False
    with False e h s(1) show ?thesis by (auto simp: vfs_dup_def)
  qed
qed

lemma start_at_balanced:
  assumes b: "balanced (other(f := other f + 1)) t st" and ne: "t \<noteq> []"
  shows "\<exists>r t1. get_fd_start_at mem start f t = Some (r, t1) \<and> t1 \<noteq> [] \<and>
    (if r < 0 then balanced (other(f := other f + 1)) t1 st
     else balanced other t1 st \<and> start \<le> r \<and> get_file_handle r t1 = Inr f)"
proof (cases "start < 0 \<or> start \<ge> 1023")
  case True
  with b ne show ?thesis by (simp add: get_fd_start_at_def)
next
  case range: False
  obtain r0 t0 where g: "(if start \<ge> int (length t) then set_fdtsize mem (min (nat start * 2) 1024) t
               else (int (length t), t)) = (r0, t0)" by fastforce
  then have t0: "(r0 < 0 \<and> t0 = t) \<or> (0 \<le> r0 \<and> (\<exists>n. t0 = t @ replicate n None))"
    using set_fdtsize_eq [of mem "min (nat start * 2) 1024" t r0 t0]
    by (auto split: if_splits intro: exI [of _ 0])
  then have rf: "refs t0 x = refs t x" for x by (auto simp: refs_append_free)
  have bal0: "balanced (other(f := other f + 1)) t0 st" using b by (simp add: balanced_def rf)
  have ne0: "t0 \<noteq> []" using t0 ne by auto
  show ?thesis
  proof (cases "r0 < 0 \<or> first_free (nat start) (drop (nat start) t0) = None")
    case True
    with g range have "get_fd_start_at mem start f t = Some (if r0 < 0 then r0 else - EMFILE, t0)"
      by (auto simp: get_fd_start_at_def)
    with bal0 ne0 show ?thesis by simp
  next
    case False
    then obtain i where i: "first_free (nat start) (drop (nat start) t0) = Some i" by auto
    note ff = first_free_SomeD [OF i]
    have len: "i < length t0" and none: "t0 ! i = None" using ff by auto
    let ?t1 = "t0[i := Some f]"
    have "refs ?t1 x = refs t x + (if x = f then 1 else 0)" for x
      using refs_update [OF len, of "Some f" x] none rf by simp
    with b have "balanced other ?t1 st" by (auto simp: balanced_def split: if_splits)
    moreover have "start \<le> int i" using ff range by linarith
    ultimately show ?thesis using False i g range len ne0
      by (auto simp: get_fd_start_at_def get_file_handle_def)
  qed
qed

lemma fget_all_balanced:
  "balanced other t st \<Longrightarrow> set u \<subseteq> set t \<Longrightarrow>
   \<exists>st1. fget_all u st = Some st1 \<and> balanced (\<lambda>f. other f + refs u f) t st1"
proof (induction u st arbitrary: other rule: fget_all.induct)
  case (1 st)
  then show ?case by (simp add: refs_def)
next
  case (2 u st)
  then show ?case by (simp add: refs_None)
next
  case (3 f u st)
  then have "Some f \<in> set t" by simp
  then have "0 < refs t f" by (auto simp: in_set_conv_nth intro: refs_pos)
  with fget_balanced [OF 3(2), of f] obtain st1 where s: "fget f st = Some st1"
    "balanced (other(f := other f + 1)) t st1" by auto
  from 3(1) [OF s(1) s(2)] 3(3) obtain st2 where "fget_all u st1 = Some st2"
    "balanced (\<lambda>x. (other(f := other f + 1)) x + refs u x) t st2" by auto
  moreover have "(\<lambda>x. (other(f := other f + 1)) x + refs u x) = (\<lambda>x. other x + refs (Some f # u) x)"
    by (auto simp: refs_None)
  ultimately show ?case using s by simp
qed

lemma alloc_file_balanced:
  "balanced other t st \<Longrightarrow> other f + refs t f = 0 \<Longrightarrow> balanced (other(f := other f + 1)) t (alloc_file f st)"
  by (auto simp: balanced_def alloc_file_def)

text \<open>Only the sum of the references inside and outside the table matters.\<close>

lemma balanced_cong:
  assumes "\<And>f. other f + refs t f = other' f + refs t' f"
  shows "balanced other t st \<longleftrightarrow> balanced other' t' st"
proof -
  have P: "balanced o1 u st \<longleftrightarrow> (\<forall>f. if f \<in> gone st then o1 f + refs u f = 0
      else f_count st f = o1 f + refs u f)" for o1 u
    unfolding balanced_def by auto
  show ?thesis unfolding P assms by (rule refl)
qed

lemma cleanup_files_balanced:
  "balanced (\<lambda>f. other f + refs u f) t st \<Longrightarrow>
   \<exists>st1. cleanup_files u st = Some st1 \<and> balanced other t st1"
proof (induction u st rule: cleanup_files.induct)
  case (1 st)
  then show ?case by (simp add: refs_def)
next
  case (2 u st)
  then show ?case by (simp add: refs_None)
next
  case (3 f u st)
  have "(\<lambda>x. other x + refs (Some f # u) x) = (\<lambda>x. other x + refs u x)(f := other f + refs u f + 1)"
    by (auto simp: refs_None)
  with 3(2) have "balanced ((\<lambda>x. other x + refs u x)(f := (\<lambda>x. other x + refs u x) f + 1)) t st" by simp
  from fput_balanced [OF this] obtain st1 where
    s: "fput f st = Some st1" "balanced (\<lambda>x. other x + refs u x) t st1" by blast
  from 3(1) [OF s] s(1) show ?case by simp
qed

lemma exit_balanced:
  assumes b: "balanced other t st"
  shows "\<exists>st1. cleanup_files t st = Some st1 \<and> balanced other [None] st1"
proof (rule cleanup_files_balanced)
  show "balanced (\<lambda>f. other f + refs t f) [None] st"
    using b by (rule balanced_cong [THEN iffD1, rotated]) (simp add: refs_def)
qed

text \<open>
  \<open>pipe\<close> with two new files keeps the balance when it gets both descriptors or none, that is,
  when it succeeds or leaves the table as it was.
\<close>

lemma pipe_total:
  assumes "t \<noteq> []"
  shows "sys_pipe ok cp rend wend mem1 mem2 (t, st) \<noteq> None"
proof -
  have n1: "\<exists>fd t1. get_next_fd mem1 (Some f) t = Some (fd, t1) \<and> t1 \<noteq> []" for f
    by (rule get_next_fd_total [OF assms])
  have n2: "get_next_fd mem2 (Some f) t1 \<noteq> None" if "t1 \<noteq> []" for f t1
    using get_next_fd_total [OF that] by (metis option.distinct(1))
  show ?thesis
  proof (cases "rend = None \<or> wend = None")
    case True
    then show ?thesis by (auto simp: sys_pipe_def split: sum.splits option.splits)
  next
    case False
    then obtain r v where rv: "rend = Some r" "wend = Some v" by auto
    obtain fd1 u1 where g1: "get_next_fd mem1 (Some r) t = Some (fd1, u1)" "u1 \<noteq> []" using n1 by blast
    obtain fd2 u2 where g2: "get_next_fd mem2 (Some v) u1 = Some (fd2, u2)" using n2 [OF g1(2)] by fastforce
    show ?thesis by (simp add: sys_pipe_def rv g1 g2 Let_def split: sum.splits)
  qed
qed

lemma get_next_fd_fails: "get_next_fd mem (Some f) t = Some (fd, t1) \<Longrightarrow> fd < 0 \<Longrightarrow> t1 = t"
  using get_fd_for_eq [of mem t] by (auto simp: get_next_fd_def split: if_splits prod.splits)

lemma get_next_fd_changes:
  assumes "get_next_fd mem (Some f) t = Some (fd, t1)" and "0 \<le> fd"
  shows "nat fd < length t1 \<and> t1 ! nat fd = Some f \<and> (nat fd < length t \<longrightarrow> t ! nat fd = None) \<and> t1 \<noteq> t
    \<and> length t \<le> length t1"
proof -
  obtain fd0 t0 where g: "get_fd_for mem t = (fd0, t0)" by fastforce
  with assms have e: "fd0 = fd" "nat fd < length t0" "t1 = t0[nat fd := Some f]"
    by (auto simp: get_next_fd_def fd_store_def split: if_splits)
  with get_fd_for_eq [OF g] assms(2) have "nat fd < length t \<longrightarrow> t ! nat fd = None" "length t \<le> length t0" by auto
  with e show ?thesis by (metis length_list_update nth_list_update_eq option.distinct(1))
qed

lemma balanced_drop_two:
  assumes b: "balanced (other(r := other r + 1, v := other v + 1)) t st"
    and z: "other r = 0" "refs t r = 0" "other v = 0" "refs t v = 0"
  shows "balanced other t (st\<lparr>gone := gone st \<union> {r, v}\<rparr>)"
  unfolding balanced_def
proof (intro allI conjI impI)
  fix f
  let ?o = "other(r := other r + 1, v := other v + 1)"
  assume f: "f \<in> gone (st\<lparr>gone := gone st \<union> {r, v}\<rparr>)"
  show "other f = 0" "refs t f = 0"
  proof -
    have "?o f = 0 \<and> refs t f = 0" if "f \<in> gone st" using b that unfolding balanced_def by blast
    moreover have "other f \<le> ?o f" by (simp add: fun_upd_apply)
    ultimately show "other f = 0" "refs t f = 0" using f z by auto
  qed
next
  fix f
  let ?o = "other(r := other r + 1, v := other v + 1)"
  assume f: "f \<notin> gone (st\<lparr>gone := gone st \<union> {r, v}\<rparr>)"
  then have "f_count st f = ?o f + refs t f" using b unfolding balanced_def by simp
  with f show "f_count (st\<lparr>gone := gone st \<union> {r, v}\<rparr>) f = other f + refs t f" by auto
qed

lemma pipe_balanced:
  assumes b: "balanced other t st" and ne: "t \<noteq> []"
    and new: "r \<noteq> v" "other r + refs t r = 0" "other v + refs t v = 0"
    and p: "sys_pipe ok cp rend wend mem1 mem2 (t, st) = Some (ret, fds, t1, st1)"
    and ends: "rend = None \<or> rend = Some r" "wend = None \<or> wend = Some v"
    and whole: "ret = 0 \<or> t1 = t"
  shows "balanced other t1 st1 \<and> t1 \<noteq> []"
proof (cases "ok \<and> (\<exists>q. cp = Inr q) \<and> rend \<noteq> None \<and> wend \<noteq> None")
  case False
  with p b ne show ?thesis by (auto simp: sys_pipe_def split: sum.splits option.splits if_splits)
next
  case True
  then obtain q where q: "ok" "cp = Inr q" "rend = Some r" "wend = Some v" using ends by auto
  let ?a = "alloc_file v (alloc_file r st)"
  let ?s = "?a\<lparr>f_mode := (f_mode ?a)(r := 0, v := 1)\<rparr>"
  have "balanced (other(r := other r + 1)) t (alloc_file r st)"
    by (rule alloc_file_balanced [OF b new(2)])
  then have "balanced ((other(r := other r + 1))(v := (other(r := other r + 1)) v + 1)) t ?a"
    by (rule alloc_file_balanced) (use new in simp)
  then have bal: "balanced (other(r := other r + 1, v := other v + 1)) t ?s"
    using new(1) by (simp add: balanced_def)
  obtain rfd u1 where g1: "get_next_fd mem1 (Some r) t = Some (rfd, u1)" "u1 \<noteq> []"
    using get_next_fd_total [OF ne] by blast
  obtain wfd u2 where g2: "get_next_fd mem2 (Some v) u1 = Some (wfd, u2)" "u2 \<noteq> []"
    using get_next_fd_total [OF g1(2)] by blast
  have res: "t1 = u2" "st1 = (if rfd < 0 \<or> wfd < 0 then ?s\<lparr>gone := gone ?s \<union> {r, v}\<rparr> else ?s)"
    "ret = (if rfd < 0 \<or> wfd < 0 then - EMFILE else 0)"
    using p q g1 g2 by (auto simp: sys_pipe_def Let_def split: if_splits)
  show ?thesis
  proof (cases "rfd < 0 \<or> wfd < 0")
    case True
    then have "u2 = t" using res(1,3) whole by simp
    then have "balanced (other(r := other r + 1, v := other v + 1)) u2 ?s" using bal by simp
    then have "balanced other u2 (?s\<lparr>gone := gone ?s \<union> {r, v}\<rparr>)"
      by (rule balanced_drop_two) (use new \<open>u2 = t\<close> in auto)
    with True res g2 show ?thesis by simp
  next
    case False
    have "balanced (other(v := other v + 1)) u1 ?s"
      using get_next_fd_balanced [of "other(v := other v + 1)" r t ?s mem1 rfd u1] bal False g1 new(1)
      by (simp add: fun_upd_twist)
    with get_next_fd_balanced [of other v u1 ?s mem2 wfd u2] False g2 have "balanced other u2 ?s" by simp
    with False res g2 show ?thesis by simp
  qed
qed

section \<open>Runs\<close>

text \<open>
  A process's table, the store of open files and the references held elsewhere: in the tables of
  other processes, for the programs they run, by system calls in progress.  After a fork the
  child goes on with its table, and the parent's references count as held elsewhere; a process
  that is switched away from or exits is followed by one whose table was elsewhere.  Elsewhere
  references come (\<open>fget\<close>, \<open>alloc_file\<close>) and go (\<open>vfs_close\<close>) at any time.  A
  \<open>pipe\<close> that gets only one of its two descriptors is not a step
  (\<open>failed_pipe_leaves_dangling_fd\<close>).
\<close>

inductive fd_step :: "(fid \<Rightarrow> nat) \<times> fdtable \<times> fstore \<Rightarrow> (fid \<Rightarrow> nat) \<times> fdtable \<times> fstore \<Rightarrow> bool" where
  open_file: "other f + refs t f = 0 \<Longrightarrow> sys_open_fd mem f (t, alloc_file f st) = Some (r, t1, st1) \<Longrightarrow>
     fd_step (other, t, st) (other, t1, st1)"
| close: "sys_close fd (t, st) = Some (r, t1, st1) \<Longrightarrow> fd_step (other, t, st) (other, t1, st1)"
| dup: "vfs_dupf mem fd (t, st) = Some (r, t1, st1) \<Longrightarrow> fd_step (other, t, st) (other, t1, st1)"
| dup2: "vfs_dup mem old new (t, st) = Some (r, t1, st1) \<Longrightarrow> fd_step (other, t, st) (other, t1, st1)"
| fcntl: "sys_fcntl mem fd cmd arg (t, st) = Some (r, t1, st1) \<Longrightarrow> fd_step (other, t, st) (other, t1, st1)"
| fork: "copy_fdtable (t, st) = Some (t1, st1) \<Longrightarrow>
     fd_step (other, t, st) ((\<lambda>f. other f + refs t f), t1, st1)"
| pipe: "r \<noteq> v \<Longrightarrow> other r + refs t r = 0 \<Longrightarrow> other v + refs t v = 0 \<Longrightarrow>
     rend = None \<or> rend = Some r \<Longrightarrow> wend = None \<or> wend = Some v \<Longrightarrow>
     sys_pipe ok cp rend wend mem1 mem2 (t, st) = Some (ret, fds, t1, st1) \<Longrightarrow> ret = 0 \<or> t1 = t \<Longrightarrow>
     fd_step (other, t, st) (other, t1, st1)"
| exit: "cleanup_files t st = Some st1 \<Longrightarrow> (\<forall>f. refs t1 f \<le> other f) \<Longrightarrow> t1 \<noteq> [] \<Longrightarrow>
     fd_step (other, t, st) ((\<lambda>f. other f - refs t1 f), t1, st1)"
| switch: "(\<forall>f. refs t1 f \<le> other f) \<Longrightarrow> t1 \<noteq> [] \<Longrightarrow>
     fd_step (other, t, st) ((\<lambda>f. other f + refs t f - refs t1 f), t1, st)"
| hold: "0 < other f + refs t f \<Longrightarrow> fget f st = Some st1 \<Longrightarrow>
     fd_step (other, t, st) (other(f := other f + 1), t, st1)"
| alloc: "other f + refs t f = 0 \<Longrightarrow> fd_step (other, t, st) (other(f := 1), t, alloc_file f st)"
| drop: "0 < other f \<Longrightarrow> vfs_close f st = Some st1 \<Longrightarrow>
     fd_step (other, t, st) (other(f := other f - 1), t, st1)"

definition fd_inv :: "(fid \<Rightarrow> nat) \<times> fdtable \<times> fstore \<Rightarrow> bool" where
  "fd_inv w \<longleftrightarrow> (case w of (other, t, st) \<Rightarrow> balanced other t st \<and> t \<noteq> [])"

lemma fcntl_balanced:
  assumes b: "balanced other t st" and ne: "t \<noteq> []"
  shows "\<exists>r t1 st1. sys_fcntl mem fd cmd arg (t, st) = Some (r, t1, st1) \<and> balanced other t1 st1 \<and> t1 \<noteq> []"
proof (cases "get_file_handle fd t")
  case (Inl err)
  with b ne show ?thesis by (simp add: sys_fcntl_def)
next
  case (Inr f)
  have mode: "balanced other t (st\<lparr>f_mode := m\<rparr>)" for m using b by (simp add: balanced_def)
  show ?thesis
  proof (cases "(cmd = 0 \<or> cmd = 14) \<and> 0 \<le> sint (ucast arg :: u32) \<and> arg \<noteq> 0")
    case True
    have "0 < other f + refs t f" and fd: "0 \<le> fd"
      using get_file_handle_SomeD [OF Inr] refs_pos [of "nat fd" t f] by simp_all
    from fget_balanced [OF b this(1)] obtain st1 where s: "fget f st = Some st1"
      "balanced (other(f := other f + 1)) t st1" by blast
    from start_at_balanced [OF s(2) ne, of mem "sint (ucast arg :: u32)"] obtain r t1 where
      e: "get_fd_start_at mem (sint (ucast arg :: u32)) f t = Some (r, t1)" "t1 \<noteq> []"
        "if r < 0 then balanced (other(f := other f + 1)) t1 st1 else balanced other t1 st1" 
      by (auto split: if_splits)
    show ?thesis
    proof (cases "r < 0")
      case neg: True
      with e(3) have "balanced (other(f := other f + 1)) t1 st1" by simp
      from fput_balanced [OF this] neg True Inr fd s(1) e show ?thesis
        by (auto simp: sys_fcntl_def Let_def)
    next
      case False
      with True Inr fd s(1) e show ?thesis by (auto simp: sys_fcntl_def Let_def)
    qed
  next
    case False
    from dupf_balanced [OF b ne, of mem fd] obtain r t1 st1 where
      "vfs_dupf mem fd (t, st) = Some (r, t1, st1)" "balanced other t1 st1" "t1 \<noteq> []" by blast
    with False Inr b ne mode show ?thesis by (auto simp: sys_fcntl_def Let_def)
  qed
qed

interpretation fd: step_system fd_step fd_inv
proof
  show "fd_inv w'" if "fd_inv w" "fd_step w w'" for w w'
    using that(2,1)
  proof cases
    case (open_file other f t mem st r t1 st1)
    have i: "balanced other t st" "t \<noteq> []" using that(1) open_file(1) by (auto simp: fd_inv_def)
    from open_fd_balanced [OF alloc_file_balanced [OF i(1) open_file(3)] i(2), of mem] open_file
    show ?thesis by (auto simp: fd_inv_def)
  next
    case (close fd t st r t1 st1 other)
    with that(1) close_balanced [of other t st fd] show ?thesis by (auto simp: fd_inv_def)
  next
    case (dup mem fd t st r t1 st1 other)
    with that(1) dupf_balanced [of other t st mem fd] show ?thesis by (auto simp: fd_inv_def)
  next
    case (dup2 mem old new t st r t1 st1 other)
    with that(1) dup_balanced [of other t st mem old new] show ?thesis by (auto simp: fd_inv_def)
  next
    case (fcntl mem fd cmd arg t st r t1 st1 other)
    with that(1) fcntl_balanced [of other t st mem fd cmd arg] show ?thesis by (auto simp: fd_inv_def)
  next
    case (fork t st t1 st1 other)
    with that(1) fget_all_balanced [of other t st t] show ?thesis
      by (auto simp: fd_inv_def copy_fdtable_def)
  next
    case (pipe r v other t rend wend ok cp mem1 mem2 st ret fds t1 st1)
    with that(1) pipe_balanced [of other t st r v ok cp rend wend mem1 mem2 ret fds t1 st1]
    show ?thesis by (auto simp: fd_inv_def)
  next
    case (exit t st st1 t1 other)
    with that(1) exit_balanced [of other t st] have "balanced other [None] st1" by (auto simp: fd_inv_def)
    then have "balanced (\<lambda>f. other f - refs t1 f) t1 st1"
      by (rule balanced_cong [THEN iffD1, rotated]) (use exit in \<open>simp add: refs_def\<close>)
    with exit show ?thesis by (simp add: fd_inv_def)
  next
    case (switch t1 other t st)
    then have "balanced other t st" using that(1) by (simp add: fd_inv_def)
    then have "balanced (\<lambda>f. other f + refs t f - refs t1 f) t1 st"
      by (rule balanced_cong [THEN iffD1, rotated]) (use switch in \<open>simp add: trans_le_add1\<close>)
    with switch show ?thesis by (simp add: fd_inv_def)
  next
    case (hold other f t st st1)
    with that(1) fget_balanced [of other t st f] show ?thesis by (auto simp: fd_inv_def)
  next
    case (alloc other f t st)
    with that(1) alloc_file_balanced [of other t st f] show ?thesis by (simp add: fd_inv_def)
  next
    case (drop other f st st1 t)
    have "(other(f := other f - 1))(f := (other(f := other f - 1)) f + 1) = other" using drop(3) by auto
    with that(1) drop fput_balanced [of "other(f := other f - 1)" f t st] show ?thesis
      by (auto simp: fd_inv_def)
  qed
qed

definition init_files :: "(fid \<Rightarrow> nat) \<times> fdtable \<times> fstore" where
  "init_files = (\<lambda>_. 0, [None, None, None, None], \<lparr>f_count = (\<lambda>_. 0), f_mode = (\<lambda>_. 0), gone = {}\<rparr>)"

lemma init_files_inv: "fd_inv init_files"
  by (simp add: fd_inv_def init_files_def balanced_def refs_def)

lemma fd_step_open_init:
  "fd_step init_files (\<lambda>_. 0, [Some 7, None, None, None],
     \<lparr>f_count = (\<lambda>_. 0)(7 := 1), f_mode = (\<lambda>_. 0)(7 := 0), gone = {}\<rparr>)"
  unfolding init_files_def
  by (rule fd_step.open_file [where f = 7 and mem = True and r = 0])
    (simp_all add: refs_def sys_open_fd_def get_next_fd_def get_fd_for_def fd_store_def alloc_file_def)

section \<open>Properties\<close>

text \<open>
  C8. Whatever sequence of open, close, dup, dup2, fcntl, pipe, fork and exit the processes make,
  and whatever their allocations return, as long as no \<open>pipe\<close> gets only one of its two
  descriptors: no descriptor refers to a freed file, each open file's count is the number of
  references to it (in the process and elsewhere), so a file is freed exactly when its last
  reference goes; and no such call, nor the clean-up at exit, ever faults.
\<close>

theorem descriptors_never_dangle:
  assumes "fd_step\<^sup>*\<^sup>* init_files (other, t, st)"
  shows "(\<forall>i < length t. case t ! i of None \<Rightarrow> True
            | Some f \<Rightarrow> f \<notin> gone st \<and> f_count st f = other f + count_list t (Some f))
    \<and> (\<forall>fd. sys_close fd (t, st) \<noteq> None) \<and> (\<forall>fd mem. vfs_dupf mem fd (t, st) \<noteq> None)
    \<and> (\<forall>mem old new. vfs_dup mem old new (t, st) \<noteq> None)
    \<and> (\<forall>mem fd cmd arg. sys_fcntl mem fd cmd arg (t, st) \<noteq> None)
    \<and> (\<forall>mem f. other f + count_list t (Some f) = 0 \<longrightarrow> sys_open_fd mem f (t, alloc_file f st) \<noteq> None)
    \<and> (\<forall>ok cp rend wend mem1 mem2. sys_pipe ok cp rend wend mem1 mem2 (t, st) \<noteq> None)
    \<and> copy_fdtable (t, st) \<noteq> None \<and> cleanup_files t st \<noteq> None"
proof -
  have b: "balanced other t st" "t \<noteq> []"
    using fd.reach_keeps [OF assms init_files_inv] by (simp_all add: fd_inv_def)
  have "f \<notin> gone st \<and> f_count st f = other f + refs t f" if "i < length t" "t ! i = Some f" for i f
    using balancedD [OF b(1), of f] refs_pos [OF that] by simp
  moreover have "sys_close fd (t, st) \<noteq> None" "vfs_dupf mem fd (t, st) \<noteq> None"
    "vfs_dup mem old new (t, st) \<noteq> None" "sys_fcntl mem fd cmd arg (t, st) \<noteq> None" for fd mem old new cmd arg
    using close_balanced [OF b(1), of fd] dupf_balanced [OF b, of mem fd]
      dup_balanced [OF b, of mem old new] fcntl_balanced [OF b, of mem fd cmd arg] by auto
  moreover have "sys_open_fd mem f (t, alloc_file f st) \<noteq> None" if "other f + refs t f = 0" for mem f
    using open_fd_balanced [OF alloc_file_balanced [OF b(1) that] b(2), of mem] by auto
  moreover have "copy_fdtable (t, st) \<noteq> None" "cleanup_files t st \<noteq> None"
    using fget_all_balanced [OF b(1), of t] exit_balanced [OF b(1)] by (auto simp: copy_fdtable_def)
  moreover note pipe_total [OF b(2)]
  ultimately show ?thesis by (auto simp: refs_def split: option.splits)
qed

theorem descriptors_never_dangle_witness:
  "\<exists>other t st. fd_step\<^sup>*\<^sup>* init_files (other, t, st) \<and> t ! 0 = Some 7 \<and> 7 \<notin> gone st"
proof -
  note r = r_into_rtranclp [of fd_step, OF fd_step_open_init]
  from descriptors_never_dangle [OF r] have "(7::nat) \<notin> gone (\<lparr>f_count = (\<lambda>_. 0)(7 := 1), f_mode = (\<lambda>_. 0)(7 := 0), gone = {}\<rparr>)"
    by (auto dest: spec [of _ 0])
  with r show ?thesis by (intro exI conjI) (assumption | simp)+
qed

text \<open>
  A new descriptor is the lowest one free: every smaller descriptor is in use, the others are
  unchanged, and if the table has a free slot the call succeeds without growing it.
\<close>

theorem new_descriptor_is_lowest:
  assumes "get_next_fd mem (Some f) t = Some (fd, t1)" and "0 \<le> fd"
  shows "(\<forall>j < nat fd. t ! j \<noteq> None) \<and> nat fd < length t1 \<and> t1 ! nat fd = Some f
    \<and> (nat fd < length t \<longrightarrow> t ! nat fd = None)
    \<and> (\<forall>j < length t. j \<noteq> nat fd \<longrightarrow> t1 ! j = t ! j)
    \<and> (None \<in> set t \<longrightarrow> length t1 = length t)"
proof -
  obtain fd0 t0 where g: "get_fd_for mem t = (fd0, t0)" by fastforce
  with assms have fd0: "fd0 = fd" "nat fd < length t0" "t1 = t0[nat fd := Some f]"
    by (auto simp: get_next_fd_def fd_store_def split: if_splits)
  from get_fd_for_eq [OF g] assms(2) fd0 obtain n where n: "t0 = t @ replicate n None"
    and low: "\<forall>j < nat fd. t ! j \<noteq> None" "nat fd < length t \<longrightarrow> t ! nat fd = None" by auto
  have "length t1 = length t" if "None \<in> set t"
  proof (cases "first_free 0 t")
    case None
    with that first_free_NoneD show ?thesis by blast
  next
    case (Some i)
    with g fd0 show ?thesis by (simp add: get_fd_for_def)
  qed
  with fd0 n low show ?thesis by (auto simp: nth_append)
qed

theorem new_descriptor_is_lowest_witness:
  "\<exists>t1. get_next_fd True (Some 9) [Some 1, None, Some 2, None] = Some (1, t1) \<and> t1 ! 1 = Some 9"
proof -
  have g: "get_next_fd True (Some 9) [Some 1, None, Some 2, None] = Some (1, [Some 1, Some 9, Some 2, None])"
    by (simp add: get_next_fd_def get_fd_for_def fd_store_def)
  with new_descriptor_is_lowest [OF g] show ?thesis by auto
qed

text \<open>
  After \<open>dup2\<close> succeeds on two different descriptors the new one refers to the file of the
  old one; but a descriptor that is not open can be duplicated onto itself, which POSIX rejects.
\<close>

theorem dup2_shares_file:
  assumes "balanced other t st" and "t \<noteq> []" and "vfs_dup mem old new (t, st) = Some (r, t1, st1)"
    and "0 \<le> r"
  shows "r = new \<and> balanced other t1 st1
    \<and> (old \<noteq> new \<longrightarrow> get_file_handle new t1 = get_file_handle old t)
    \<and> vfs_dup mem new new ([None], st) = Some (new, [None], st)"
proof -
  from assms(3,4) have new: "0 \<le> new" "new < 1024" by (auto simp: vfs_dup_def split: if_splits)
  from dup_balanced [OF assms(1,2), of mem old new] assms(3,4) new show ?thesis
    by (auto simp: vfs_dup_def)
qed

theorem dup2_shares_file_witness:
  "\<exists>t1 st1. vfs_dup True 0 3 ([Some 7, None], \<lparr>f_count = (\<lambda>_. 0)(7 := 1), f_mode = (\<lambda>_. 0), gone = {}\<rparr>)
     = Some (3, t1, st1) \<and> get_file_handle 3 t1 = Inr 7"
proof -
  let ?st = "\<lparr>f_count = (\<lambda>_. 0)(7 := 1), f_mode = (\<lambda>_. 0), gone = {}\<rparr> :: fstore"
  have b: "balanced (\<lambda>_. 0) [Some 7, None] ?st" by (simp add: balanced_def refs_def)
  have "\<exists>t1 st1. vfs_dup True 0 3 ([Some 7, None], ?st) = Some (3, t1, st1)"
    by (simp add: vfs_dup_def get_file_handle_def fget_def get_fd_exact_replace_def set_fdtsize_def)
  then obtain t1 st1 where d: "vfs_dup True 0 3 ([Some 7, None], ?st) = Some (3, t1, st1)" by blast
  from dup2_shares_file [OF b _ d] d show ?thesis by (simp add: get_file_handle_def)
qed

text \<open>
  C9. When exactly one of the two descriptors of a \<open>pipe\<close> can be had (the table is full after
  the first, or cannot grow for one of them), the call frees both files and leaves that descriptor
  in the table, referring to a freed file: closing it is a use after free.
\<close>

theorem failed_pipe_leaves_dangling_fd:
  assumes "r \<noteq> v" and "get_next_fd mem1 (Some r) t = Some (rfd, t1)"
    and "get_next_fd mem2 (Some v) t1 = Some (wfd, t2)" and "(rfd < 0) \<noteq> (wfd < 0)"
  shows "\<exists>st1. sys_pipe True (Inr p) (Some r) (Some v) mem1 mem2 (t, st) = Some (- EMFILE, None, t2, st1)
    \<and> get_file_handle (if wfd < 0 then rfd else wfd) t2 = Inr (if wfd < 0 then r else v)
    \<and> {r, v} \<subseteq> gone st1 \<and> sys_close (if wfd < 0 then rfd else wfd) (t2, st1) = None"
proof (cases "wfd < 0")
  case True
  with assms(3,4) get_next_fd_fails have "0 \<le> rfd" "t2 = t1" by auto
  with get_next_fd_changes [OF assms(2)] have h: "get_file_handle rfd t2 = Inr r"
    by (simp add: get_file_handle_def)
  with True assms(2,3) show ?thesis
    by (simp add: sys_pipe_def Let_def sys_close_def fput_def)
next
  case False
  with get_next_fd_changes [OF assms(3)] have h: "get_file_handle wfd t2 = Inr v"
    by (simp add: get_file_handle_def)
  with False assms(2-4) show ?thesis
    by (simp add: sys_pipe_def Let_def sys_close_def fput_def)
qed

theorem failed_pipe_leaves_dangling_fd_witness:
  "\<exists>t1 st1. sys_pipe True (Inr small_pipe) (Some 5) (Some 6) True False
      ([Some 1, None], \<lparr>f_count = (\<lambda>_. 1), f_mode = (\<lambda>_. 0), gone = {}\<rparr>)
      = Some (- EMFILE, None, t1, st1) \<and> get_file_handle 1 t1 = Inr 5 \<and> 5 \<in> gone st1"
proof -
  have g: "get_next_fd True (Some 5) [Some 1, None] = Some (1, [Some 1, Some 5])"
    "get_next_fd False (Some 6) [Some 1, Some 5] = Some (- ENOMEM, [Some 1, Some 5])"
    by (simp_all add: get_next_fd_def get_fd_for_def fd_store_def set_fdtsize_def)
  from failed_pipe_leaves_dangling_fd [OF _ g, of small_pipe "\<lparr>f_count = (\<lambda>_. 1), f_mode = (\<lambda>_. 0), gone = {}\<rparr>"]
  show ?thesis by auto
qed

end
