(* ===== verification/LineDisc.thy ===== *)
theory LineDisc imports Signals begin

text \<open>
  The terminal line discipline, \<open>drivers/tty/ldisc.c\<close>: input processing, canonical
  editing, reads in both modes and output processing.

  Positions in the input ring are C \<open>int\<close>s that only grow (they are reduced on each access,
  never stored reduced) and never negative; they are natural numbers here, which is exact for the
  first 2^31 bytes of input of a terminal.  What a function does to the outside is the list of
  events it appends to \<open>out\<close>: bytes given to \<open>ops->write\<close>, signals to the foreground
  group, and \<open>wake_first\<close> on \<open>read_wait\<close>.
\<close>

section \<open>State\<close>

record termios =
  c_iflag :: u32
  c_oflag :: u32
  c_cflag :: u32
  c_lflag :: u32
  c_cc :: "u8 list"
  c_ispeed :: u32
  c_ospeed :: u32

datatype tty_event = TWrite "u8 list" | TKill int int | TWakeFirst

record tty_data =
  ibuf :: "u8 list"
  rpos :: nat
  wpos :: nat
  epos :: nat
  line_start :: nat
  vmin_cnt :: int
  line_ready :: bool
  at_eof :: bool

record tty = tty_data +
  termios :: termios
  ctl_pgrp :: int
  ctl_session :: int
  ctl_stopped :: bool
  column :: u16
  out :: "tty_event list"

definition i_flag :: "u32 \<Rightarrow> tty \<Rightarrow> bool" where
  "i_flag f t \<longleftrightarrow> c_iflag (termios t) AND f \<noteq> 0"

definition o_flag :: "u32 \<Rightarrow> tty \<Rightarrow> bool" where
  "o_flag f t \<longleftrightarrow> c_oflag (termios t) AND f \<noteq> 0"

definition l_flag :: "u32 \<Rightarrow> tty \<Rightarrow> bool" where
  "l_flag f t \<longleftrightarrow> c_lflag (termios t) AND f \<noteq> 0"

abbreviation "IGNBRK \<equiv> 1 :: u32"
abbreviation "IGNPAR \<equiv> 4 :: u32"
abbreviation "ISTRIP \<equiv> 0x20 :: u32"
abbreviation "INLCR \<equiv> 0x40 :: u32"
abbreviation "IGNCR \<equiv> 0x80 :: u32"
abbreviation "ICRNL \<equiv> 0x100 :: u32"
abbreviation "IUCLC \<equiv> 0x200 :: u32"
abbreviation "IXON \<equiv> 0x400 :: u32"
abbreviation "IXANY \<equiv> 0x800 :: u32"
abbreviation "ONLCR \<equiv> 4 :: u32"
abbreviation "OCRNL \<equiv> 8 :: u32"
abbreviation "ONOCR \<equiv> 0x10 :: u32"
abbreviation "ONLRET \<equiv> 0x20 :: u32"
abbreviation "ISIG \<equiv> 1 :: u32"
abbreviation "ICANON \<equiv> 2 :: u32"
abbreviation "ECHO \<equiv> 8 :: u32"
abbreviation "ECHOE \<equiv> 0x10 :: u32"
abbreviation "ECHOK \<equiv> 0x20 :: u32"
abbreviation "ECHONL \<equiv> 0x40 :: u32"
abbreviation "ECHOCTL \<equiv> 0x200 :: u32"
abbreviation "ECHOPRT \<equiv> 0x400 :: u32"
abbreviation "ECHOKE \<equiv> 0x800 :: u32"

definition cc :: "nat \<Rightarrow> tty \<Rightarrow> u8" where
  "cc i t = c_cc (termios t) ! i"

abbreviation "INTR_CHAR \<equiv> cc 0"
abbreviation "QUIT_CHAR \<equiv> cc 1"
abbreviation "ERASE_CHAR \<equiv> cc 2"
abbreviation "KILL_CHAR \<equiv> cc 3"
abbreviation "EOF_CHAR \<equiv> cc 4"
abbreviation "TIME_CHAR \<equiv> cc 5"
abbreviation "MIN_CHAR \<equiv> cc 6"
abbreviation "START_CHAR \<equiv> cc 8"
abbreviation "STOP_CHAR \<equiv> cc 9"
abbreviation "SUSP_CHAR \<equiv> cc 10"
abbreviation "EOL_CHAR \<equiv> cc 11"
abbreviation "REPRINT_CHAR \<equiv> cc 12"
abbreviation "WERASE_CHAR \<equiv> cc 14"

section \<open>The input ring\<close>

definition buf_empty :: "tty \<Rightarrow> bool" where
  "buf_empty t \<longleftrightarrow> rpos t = wpos t"

definition buf_space :: "tty \<Rightarrow> int" where
  "buf_space t = 1023 - ((int (epos t) - int (rpos t) + 1024) smod 1024)"

definition edit_len :: "tty \<Rightarrow> int" where
  "edit_len t = int (epos t) - int (line_start t)"

definition buf_count :: "tty \<Rightarrow> int" where
  "buf_count t = (int (wpos t) - int (rpos t) + 1024) smod 1024"

definition nc_add_char :: "u8 \<Rightarrow> tty \<Rightarrow> tty" where
  "nc_add_char c t =
     (if buf_space t > 0
      then t\<lparr>ibuf := (ibuf t)[epos t mod 1024 := c], epos := epos t + 1, wpos := epos t + 1,
             vmin_cnt := vmin_cnt t + 1\<rparr>
      else t)"

definition c_add_char :: "u8 \<Rightarrow> tty \<Rightarrow> tty" where
  "c_add_char c t =
     (if buf_space t > 0
      then t\<lparr>ibuf := (ibuf t)[epos t mod 1024 := c], epos := epos t + 1\<rparr> else t)"

definition c_erase_char :: "tty \<Rightarrow> bool \<times> tty" where
  "c_erase_char t =
     (if epos t > line_start t then (True, t\<lparr>epos := epos t - 1\<rparr>) else (False, t))"

definition c_kill_line :: "tty \<Rightarrow> tty" where
  "c_kill_line t = t\<lparr>epos := line_start t\<rparr>"

definition c_commit_line :: "tty \<Rightarrow> tty" where
  "c_commit_line t = t\<lparr>wpos := epos t, line_start := epos t, line_ready := True\<rparr>"

text \<open>The byte read is a \<open>char\<close>, which is signed.\<close>

definition read_char :: "tty \<Rightarrow> int \<times> tty" where
  "read_char t =
     (if buf_empty t then (0, t)
      else (sint (ibuf t ! (rpos t mod 1024)),
            t\<lparr>rpos := rpos t + 1, vmin_cnt := (if vmin_cnt t > 0 then vmin_cnt t - 1 else vmin_cnt t)\<rparr>))"

definition has_readable_data :: "tty \<Rightarrow> bool" where
  "has_readable_data t =
     (if l_flag ICANON t then line_ready t \<and> \<not> buf_empty t
      else if MIN_CHAR t = 0 then \<not> buf_empty t
      else vmin_cnt t \<ge> uint (MIN_CHAR t))"

section \<open>Echo\<close>

definition tty_emit :: "u8 list \<Rightarrow> tty \<Rightarrow> tty" where
  "tty_emit bs t = t\<lparr>out := out t @ [TWrite bs]\<rparr>"

definition wake_reader :: "tty \<Rightarrow> tty" where
  "wake_reader t = t\<lparr>out := out t @ [TWakeFirst]\<rparr>"

definition echo_char :: "u8 \<Rightarrow> tty \<Rightarrow> tty" where
  "echo_char c t = (if c = 10 \<and> o_flag ONLCR t then tty_emit [13, 10] t else tty_emit [c] t)"

definition echo_erase :: "tty \<Rightarrow> tty" where
  "echo_erase t =
     (if l_flag ECHOE t then tty_emit [8, 32, 8] t
      else if l_flag ECHO t then echo_char (ERASE_CHAR t) t else t)"

definition echo_kill :: "int \<Rightarrow> tty \<Rightarrow> tty" where
  "echo_kill n t =
     (if l_flag ECHOK t then
        (if l_flag ECHOKE t then (tty_emit [8, 32, 8] ^^ nat n) t else echo_char 10 t)
      else if l_flag ECHO t then echo_char (KILL_CHAR t) t else t)"

definition echo_erase_multi :: "int \<Rightarrow> tty \<Rightarrow> tty" where
  "echo_erase_multi n t = (if l_flag ECHOE t then (tty_emit [8, 32, 8] ^^ nat n) t else t)"

definition echo_reprint_line :: "tty \<Rightarrow> tty" where
  "echo_reprint_line t =
     (if l_flag ECHOPRT t
      then fold (\<lambda>i. echo_char (ibuf t ! (i mod 1024))) [line_start t..<epos t] (tty_emit [10] t)
      else t)"

section \<open>Editing\<close>

text \<open>
  The two loops of \<open>c_erase_word\<close>: the number of bytes to drop from the end of the edited
  line, given backwards.
\<close>

definition edit_back :: "tty \<Rightarrow> u8 list" where
  "edit_back t = map (\<lambda>i. ibuf t ! ((i - 1) mod 1024)) (rev [line_start t + 1..<epos t + 1])"

definition c_erase_word :: "tty \<Rightarrow> int \<times> tty" where
  "c_erase_word t =
     (let back = edit_back t;
          blanks = length (takeWhile (\<lambda>c. c = 32 \<or> c = 9) back);
          word = length (takeWhile (\<lambda>c. \<not> (c = 32 \<or> c = 9)) (drop blanks back)) in
      (int (blanks + word), t\<lparr>epos := epos t - (blanks + word)\<rparr>))"

definition flush_input :: "tty \<Rightarrow> tty" where
  "flush_input t =
     (if l_flag ICANON t then t\<lparr>epos := line_start t\<rparr>
      else t\<lparr>rpos := epos t, wpos := epos t, vmin_cnt := 0\<rparr>)"

section \<open>Input\<close>

definition input_char :: "tty \<Rightarrow> u8 \<Rightarrow> u8" where
  "input_char t c0 =
     (let c1 = (if i_flag ISTRIP t then c0 AND 0x7f else c0) in
      if c1 = 0 \<and> i_flag IGNBRK t then 0
      else
        (let c2 = (if c1 = 10 \<and> i_flag INLCR t then 13 else c1) in
         if c2 = 13 \<and> i_flag IGNCR t then 0
         else
           (let c3 = (if c2 = 13 \<and> i_flag ICRNL t then 10 else c2) in
            if i_flag IUCLC t \<and> 65 \<le> c3 \<and> c3 \<le> 90 then c3 - 65 + 97 else c3)))"

definition signal_char :: "u8 \<Rightarrow> tty \<Rightarrow> bool \<times> tty" where
  "signal_char c t =
     (case (if c = INTR_CHAR t then Some (SIGINT, [94, 67])
            else if c = QUIT_CHAR t then Some (SIGQUIT, [94, 92])
            else if c = SUSP_CHAR t then Some (20, [94, 90])
            else None) of
        None \<Rightarrow> (False, t)
      | Some (sig, echo_str) \<Rightarrow>
          (let t1 = (if ctl_pgrp t > 0 then t\<lparr>out := out t @ [TKill (ctl_pgrp t) sig]\<rparr> else t);
               t2 = (if l_flag ECHO t1 then
                       (if l_flag ECHONL t1 then tty_emit [10] (tty_emit echo_str t1)
                        else tty_emit echo_str t1)
                     else t1) in
           (True, if sig = SIGINT \<or> sig = SIGQUIT then flush_input t2 else t2)))"

definition flow_control :: "u8 \<Rightarrow> tty \<Rightarrow> bool \<times> tty" where
  "flow_control c t =
     (if \<not> i_flag IXON t then (False, t)
      else if c = START_CHAR t then (True, t\<lparr>ctl_stopped := False\<rparr>)
      else if c = STOP_CHAR t then (True, t\<lparr>ctl_stopped := True\<rparr>)
      else (False, if i_flag IXANY t \<and> ctl_stopped t then t\<lparr>ctl_stopped := False\<rparr> else t))"

definition handle_c_char :: "u8 \<Rightarrow> tty \<Rightarrow> tty" where
  "handle_c_char c t =
     (if c = ERASE_CHAR t then
        (case c_erase_char t of (erased, t1) \<Rightarrow> if erased then echo_erase t1 else t1)
      else if c = KILL_CHAR t then echo_kill (edit_len t) (c_kill_line t)
      else if c = WERASE_CHAR t then
        (case c_erase_word t of (n, t1) \<Rightarrow> echo_erase_multi n t1)
      else if c = REPRINT_CHAR t then echo_reprint_line t
      else if c = EOF_CHAR t then
        wake_reader (if edit_len t > 0 then c_commit_line t else t\<lparr>at_eof := True\<rparr>)
      else if c = 10 \<or> (l_flag ICANON t \<and> c = EOL_CHAR t) then
        (let t1 = c_commit_line (c_add_char 10 t);
             t2 = (if l_flag ECHO t1 \<or> l_flag ECHONL t1 then echo_char 10 t1 else t1) in
         wake_reader t2)
      else if c \<ge> 32 \<or> c = 9 then
        (let t1 = c_add_char c t in if l_flag ECHO t1 then echo_char c t1 else t1)
      else
        (let t1 = c_add_char c t in
         if l_flag ECHO t1 \<and> l_flag ECHOCTL t1 \<and> c \<noteq> 9
         then tty_emit [94, if c = 0x7f then 63 else c + 65 - 1] t1 else t1))"

definition handle_nc_char :: "u8 \<Rightarrow> tty \<Rightarrow> tty" where
  "handle_nc_char c t =
     (let t1 = nc_add_char c t;
          t2 = (if l_flag ECHO t1 then
                  (if l_flag ECHOCTL t1 \<and> c < 32 \<and> c \<noteq> 9 \<and> c \<noteq> 10
                   then tty_emit [94, c + 65 - 1] t1 else echo_char c t1)
                else t1) in
      if MIN_CHAR t2 = 0 \<or> vmin_cnt t2 \<ge> uint (MIN_CHAR t2) \<or> c = 10 \<or> c = EOF_CHAR t2
      then wake_reader t2 else t2)"

definition receive_char :: "u8 \<Rightarrow> tty \<Rightarrow> tty" where
  "receive_char c0 t =
     (if c0 = 0 \<and> i_flag IGNPAR t then t
      else
        (let c = input_char t c0 in
         if c = 0 then t
         else case (if l_flag ISIG t then signal_char c t else (False, t)) of
             (True, t1) \<Rightarrow> t1
           | (False, t1) \<Rightarrow>
               (case flow_control c t1 of
                  (True, t2) \<Rightarrow> t2
                | (False, t2) \<Rightarrow> if l_flag ICANON t2 then handle_c_char c t2 else handle_nc_char c t2)))"

definition default_tty_receive_buf :: "u8 list \<Rightarrow> tty \<Rightarrow> tty" where
  "default_tty_receive_buf cp t = fold receive_char cp t"

section \<open>Changing the mode\<close>

text \<open>The loop that re-adds the buffered bytes, which runs \<open>wpos - rpos\<close> times.\<close>

fun move_to_edit :: "nat \<Rightarrow> tty \<Rightarrow> tty" where
  "move_to_edit 0 t = t"
| "move_to_edit (Suc n) t =
     (if rpos t = wpos t then t
      else move_to_edit n (c_add_char (ibuf t ! (rpos t mod 1024)) (t\<lparr>rpos := rpos t + 1\<rparr>)))"

definition default_tty_set_termios :: "termios option \<Rightarrow> tty \<Rightarrow> tty" where
  "default_tty_set_termios old t =
     (let was_canon = (case old of None \<Rightarrow> False | Some o1 \<Rightarrow> c_lflag o1 AND ICANON \<noteq> 0);
          is_canon = l_flag ICANON t;
          t1 = (if is_canon \<and> \<not> was_canon then
                  (let u = move_to_edit (wpos t - rpos t) t in
                   u\<lparr>line_start := wpos u, epos := wpos u, line_ready := False\<rparr>)
                else if \<not> is_canon \<and> was_canon then
                  (let u = (if edit_len t > 0 then c_commit_line t else t);
                       v = u\<lparr>epos := wpos u\<rparr> in v\<lparr>vmin_cnt := buf_count v\<rparr>)
                else t) in
      if \<not> is_canon then wake_reader t1 else t1)"

section \<open>Reading\<close>

text \<open>
  Each sleep of a reader ends with whether it was interrupted, after the rest of the system has
  changed the terminal.  A read consumes a list of such wake-ups; when it needs one more than there
  are it is \<open>Blocked\<close>.  \<open>Overrun\<close> is a write past the \<open>nr\<close> bytes of the caller's buffer.
  Loops that may not end are partial: \<open>None\<close> is a loop that never ends.
\<close>

type_synonym wakeups = "(bool \<times> (tty \<Rightarrow> tty)) list"

datatype rd_outcome = Done int "u8 list" tty | Blocked "u8 list" tty | Overrun

fun wait_input :: "(tty \<Rightarrow> bool) \<Rightarrow> wakeups \<Rightarrow> tty \<Rightarrow> (bool \<times> wakeups \<times> tty) option" where
  "wait_input cond ws t =
     (if \<not> cond t then Some (False, ws, t)
      else case ws of
          [] \<Rightarrow> None
        | (intr, f) # ws1 \<Rightarrow> if intr then Some (True, ws1, f t) else wait_input cond ws1 (f t))"

text \<open>
  The innermost loop of \<open>c_read\<close>, for at most \<open>n\<close> more bytes: it ends at a newline
  (\<open>True\<close>), at a byte that reads as negative (which is lost), or when there is no more.
\<close>

fun copy_line :: "nat \<Rightarrow> u8 list \<Rightarrow> tty \<Rightarrow> bool \<times> u8 list \<times> tty" where
  "copy_line 0 acc t = (False, acc, t)"
| "copy_line (Suc n) acc t =
     (if buf_empty t then (False, acc, t)
      else case read_char t of
          (c, t1) \<Rightarrow>
            if c < 0 then (False, acc, t1)
            else if c = 10 then (True, acc @ [word_of_int c], t1)
            else copy_line n (acc @ [word_of_int c]) t1)"

definition c_waits :: "tty \<Rightarrow> bool" where
  "c_waits t \<longleftrightarrow> \<not> line_ready t \<and> \<not> at_eof t \<and> buf_empty t"

partial_function (option) c_read :: "wakeups \<Rightarrow> nat \<Rightarrow> u8 list \<Rightarrow> tty \<Rightarrow> rd_outcome option" where
  "c_read ws nr acc t =
     (if length acc \<ge> nr then Some (Done (int (length acc)) acc t)
      else case wait_input c_waits ws t of
          None \<Rightarrow> Some (Blocked acc t)
        | Some (intr, ws1, t1) \<Rightarrow>
            if intr then Some (Done (if acc \<noteq> [] then int (length acc) else - EINTR) acc t1)
            else if at_eof t1 \<and> buf_empty t1 then Some (Done (int (length acc)) acc (t1\<lparr>at_eof := False\<rparr>))
            else case copy_line (nr - length acc) acc t1 of
                (fin, acc1, t2) \<Rightarrow>
                  if fin then Some (Done (int (length acc1)) acc1 t2)
                  else c_read ws1 nr acc1 (if buf_empty t2 then t2\<lparr>line_ready := False\<rparr> else t2))"

declare c_read.simps [code]

text \<open>Cases 1 and 3 of \<open>nc_read\<close>, and the inner loop of case 2: all that is there, up to \<open>nr\<close>.\<close>

partial_function (option) nc_drain :: "nat \<Rightarrow> u8 list \<Rightarrow> tty \<Rightarrow> (u8 list \<times> tty) option" where
  "nc_drain nr acc t =
     (if length acc < nr \<and> \<not> buf_empty t then
        (case read_char t of
           (c, t1) \<Rightarrow> nc_drain nr (if c \<ge> 0 then acc @ [word_of_int c] else acc) t1)
      else Some (acc, t))"

declare nc_drain.simps [code]

text \<open>Cases 2 (\<open>drain\<close>) and 4, which block until \<open>vmin\<close> bytes are read.\<close>

partial_function (option) nc_block ::
  "bool \<Rightarrow> wakeups \<Rightarrow> nat \<Rightarrow> nat \<Rightarrow> u8 list \<Rightarrow> tty \<Rightarrow> rd_outcome option" where
  "nc_block drain ws vmin nr acc t =
     (if \<not> (length acc < vmin \<or> (drain \<and> length acc < nr \<and> \<not> buf_empty t))
      then Some (Done (int (length acc)) acc t)
      else case wait_input buf_empty ws t of
          None \<Rightarrow> Some (Blocked acc t)
        | Some (intr, ws1, t1) \<Rightarrow>
            if intr then Some (Done (if acc \<noteq> [] then int (length acc) else - EINTR) acc t1)
            else case read_char t1 of
                (c, t2) \<Rightarrow>
                  if c \<ge> 0 \<and> length acc \<ge> nr then Some Overrun
                  else
                    (let acc1 = (if c \<ge> 0 then acc @ [word_of_int c] else acc) in
                     if drain \<and> length acc1 \<ge> vmin then
                       map_option (\<lambda>(acc2, t3). Done (int (length acc2)) acc2 t3) (nc_drain nr acc1 t2)
                     else nc_block drain ws1 vmin nr acc1 t2))"

declare nc_block.simps [code]

definition nc_read :: "wakeups \<Rightarrow> nat \<Rightarrow> tty \<Rightarrow> rd_outcome option" where
  "nc_read ws nr t =
     (let vmin = unat (MIN_CHAR t); vtime = unat (TIME_CHAR t) in
      if vmin = 0 then
        map_option (\<lambda>(acc, t1). Done (int (length acc)) acc t1) (nc_drain nr [] t)
      else if vtime = 0 then nc_block True ws vmin nr [] t
      else nc_block False ws vmin nr [] t)"

definition default_tty_read :: "wakeups \<Rightarrow> nat \<Rightarrow> tty \<Rightarrow> rd_outcome option" where
  "default_tty_read ws nr t = (if l_flag ICANON t then c_read ws nr [] t else nc_read ws nr t)"

section \<open>Writing\<close>

text \<open>
  \<open>process_output\<close> collects the translated bytes in a buffer of 256 and hands it to the driver
  when it is full, and at the end.  \<open>wr\<close> is what the driver's \<open>write\<close> returns.
\<close>

definition out_chars :: "tty \<Rightarrow> u8 \<Rightarrow> u8 list" where
  "out_chars t c =
     (if c = 10 \<and> o_flag ONLCR t then [13, 10]
      else if c = 13 \<and> o_flag OCRNL t then [10]
      else if c = 13 \<and> o_flag ONOCR t \<and> column t = 0 then []
      else [c])"

definition out_column :: "u8 \<Rightarrow> tty \<Rightarrow> tty" where
  "out_column c t =
     (if c = 10 \<or> c = 13 then t\<lparr>column := 0\<rparr>
      else if c = 8 \<and> column t > 0 then t\<lparr>column := column t - 1\<rparr>
      else if c \<ge> 32 then t\<lparr>column := column t + 1\<rparr> else t)"

fun process_output :: "(u8 list \<Rightarrow> int) \<Rightarrow> u8 list \<Rightarrow> nat \<Rightarrow> u8 list \<Rightarrow> tty \<Rightarrow> int \<times> tty" where
  "process_output wr [] nr ob t =
     (if ob \<noteq> [] then
        (let t1 = tty_emit ob t in if wr ob < 0 then (wr ob, t1) else (int nr, t1))
      else (int nr, t))"
| "process_output wr (c # cs) nr ob t =
     (if out_chars t c = [] then process_output wr cs nr ob t
      else if c = 10 \<and> o_flag ONLCR t \<and> length ob + 1 \<ge> 256 then
        process_output wr cs nr [10] (out_column c (tty_emit (ob @ [13]) t))
      else
        (let ob1 = ob @ out_chars t c; t1 = out_column c t in
         if length ob1 \<ge> 256 then
           (let t2 = tty_emit ob1 t1 in
            if wr ob1 < 0 then (wr ob1, t2) else process_output wr cs nr [] t2)
         else process_output wr cs nr ob1 t1))"

definition default_tty_write :: "(u8 list \<Rightarrow> int) \<Rightarrow> u8 list \<Rightarrow> tty \<Rightarrow> int \<times> tty" where
  "default_tty_write wr bs t =
     (if ctl_stopped t then (- EAGAIN, t)
      else if c_oflag (termios t) AND (ONLCR OR OCRNL OR ONLRET OR ONOCR) = 0
      then (wr bs, tty_emit bs t)
      else process_output wr bs (length bs) [] t)"

section \<open>Invariant and contents\<close>

text \<open>The flags and control characters depend on \<open>termios\<close> only.\<close>

lemma l_flag_upd [simp]:
  "l_flag f (t\<lparr>ibuf := a\<rparr>) = l_flag f t" "l_flag f (t\<lparr>rpos := n\<rparr>) = l_flag f t"
  "l_flag f (t\<lparr>wpos := n\<rparr>) = l_flag f t" "l_flag f (t\<lparr>epos := n\<rparr>) = l_flag f t"
  "l_flag f (t\<lparr>line_start := n\<rparr>) = l_flag f t" "l_flag f (t\<lparr>vmin_cnt := z\<rparr>) = l_flag f t"
  "l_flag f (t\<lparr>line_ready := b\<rparr>) = l_flag f t" "l_flag f (t\<lparr>at_eof := b\<rparr>) = l_flag f t"
  "l_flag f (t\<lparr>ctl_stopped := b\<rparr>) = l_flag f t" "l_flag f (t\<lparr>out := x\<rparr>) = l_flag f t"
  by (simp_all add: l_flag_def)

lemma i_flag_upd [simp]:
  "i_flag f (t\<lparr>ctl_stopped := b\<rparr>) = i_flag f t" "i_flag f (t\<lparr>out := x\<rparr>) = i_flag f t"
  by (simp_all add: i_flag_def)

lemma cc_upd [simp]:
  "cc i (t\<lparr>ibuf := a\<rparr>) = cc i t" "cc i (t\<lparr>rpos := n\<rparr>) = cc i t"
  "cc i (t\<lparr>wpos := n\<rparr>) = cc i t" "cc i (t\<lparr>epos := n\<rparr>) = cc i t"
  "cc i (t\<lparr>line_start := n\<rparr>) = cc i t" "cc i (t\<lparr>vmin_cnt := z\<rparr>) = cc i t"
  "cc i (t\<lparr>line_ready := b\<rparr>) = cc i t" "cc i (t\<lparr>at_eof := b\<rparr>) = cc i t"
  "cc i (t\<lparr>ctl_stopped := b\<rparr>) = cc i t" "cc i (t\<lparr>out := x\<rparr>) = cc i t"
  by (simp_all add: cc_def)

definition ld_inv :: "tty \<Rightarrow> bool" where
  "ld_inv t \<longleftrightarrow> length (ibuf t) = 1024 \<and> rpos t \<le> wpos t \<and> wpos t \<le> epos t \<and> epos t \<le> rpos t + 1023 \<and>
     (if l_flag ICANON t then line_start t = wpos t else epos t = wpos t)"

text \<open>What a reader may still get, and the line being edited.\<close>

definition committed :: "tty \<Rightarrow> u8 list" where
  "committed t = ring_slice (ibuf t) (rpos t) (wpos t - rpos t)"

definition edited :: "tty \<Rightarrow> u8 list" where
  "edited t = ring_slice (ibuf t) (wpos t) (epos t - wpos t)"

lemma buf_space_eq: "ld_inv t \<Longrightarrow> buf_space t = 1023 - (int (epos t) - int (rpos t))"
proof -
  assume inv: "ld_inv t"
  let ?d = "int (epos t) - int (rpos t)"
  have "0 \<le> ?d" "?d < 1024" using inv by (auto simp: ld_inv_def)
  then have "(?d + 1024) smod 1024 = ?d" by (simp add: smod_nonneg)
  then show ?thesis by (simp add: buf_space_def)
qed

lemma contents_length:
  "ld_inv t \<Longrightarrow> length (committed t) + length (edited t) = epos t - rpos t"
  by (auto simp: ld_inv_def committed_def edited_def)

text \<open>Functions that only append to \<open>out\<close>.\<close>

definition only_out :: "tty \<Rightarrow> tty \<Rightarrow> bool" where
  "only_out t t' \<longleftrightarrow> t' = t\<lparr>out := out t'\<rparr>"

lemma only_outD:
  assumes "only_out t t'"
  shows "ibuf t' = ibuf t" "rpos t' = rpos t" "wpos t' = wpos t" "epos t' = epos t"
    "line_start t' = line_start t" "vmin_cnt t' = vmin_cnt t" "termios t' = termios t"
    "line_ready t' = line_ready t" "at_eof t' = at_eof t" "ctl_pgrp t' = ctl_pgrp t"
    "ctl_stopped t' = ctl_stopped t"
  using arg_cong [OF assms [unfolded only_out_def], of ibuf]
    arg_cong [OF assms [unfolded only_out_def], of rpos] arg_cong [OF assms [unfolded only_out_def], of wpos]
    arg_cong [OF assms [unfolded only_out_def], of epos] arg_cong [OF assms [unfolded only_out_def], of line_start]
    arg_cong [OF assms [unfolded only_out_def], of vmin_cnt] arg_cong [OF assms [unfolded only_out_def], of termios]
    arg_cong [OF assms [unfolded only_out_def], of line_ready] arg_cong [OF assms [unfolded only_out_def], of at_eof]
    arg_cong [OF assms [unfolded only_out_def], of ctl_pgrp] arg_cong [OF assms [unfolded only_out_def], of ctl_stopped]
  by simp_all

lemma only_out_flags:
  assumes "only_out t t'"
  shows "l_flag f t' = l_flag f t" "i_flag f t' = i_flag f t" "o_flag f t' = o_flag f t" "cc n t' = cc n t"
    "ld_inv t' = ld_inv t" "committed t' = committed t" "edited t' = edited t"
  using only_outD [OF assms]
  by (simp_all add: l_flag_def i_flag_def o_flag_def cc_def ld_inv_def committed_def edited_def)

lemma only_out_refl [simp]: "only_out t t" by (simp add: only_out_def)

lemma only_out_trans [trans]: "only_out t u \<Longrightarrow> only_out u v \<Longrightarrow> only_out t v"
  unfolding only_out_def by (metis tty.update_convs(6) tty.surjective tty.select_convs(6))

lemma only_out_emit [simp]: "only_out t (tty_emit bs t)" "only_out t (wake_reader t)"
  by (simp_all add: only_out_def tty_emit_def wake_reader_def)

lemma only_out_echo_char [simp]: "only_out t (echo_char c t)"
  by (simp add: echo_char_def)

lemma only_out_funpow: "(\<And>u. only_out u (f u)) \<Longrightarrow> only_out t ((f ^^ n) t)"
  by (induction n) (auto intro: only_out_trans)

lemma only_out_fold: "(\<And>i u. only_out u (f i u)) \<Longrightarrow> only_out t (fold f is t)"
  by (induction "is" arbitrary: t) (auto intro: only_out_trans)

lemma only_out_echoes [simp]:
  "only_out t (echo_erase t)" "only_out t (echo_kill n t)" "only_out t (echo_erase_multi n t)"
  "only_out t (echo_reprint_line t)"
proof -
  show "only_out t (echo_erase t)" "only_out t (echo_kill n t)" "only_out t (echo_erase_multi n t)"
    by (simp_all add: echo_erase_def echo_kill_def echo_erase_multi_def only_out_funpow)
  show "only_out t (echo_reprint_line t)"
    using only_out_trans [OF only_out_emit(1) only_out_fold [of "\<lambda>i. echo_char (ibuf t ! (i mod 1024))"]]
    by (simp add: echo_reprint_line_def)
qed

section \<open>Canonical editing as a line editor\<close>

type_synonym editor = "u8 list \<times> u8 list"

definition ed_add :: "u8 \<Rightarrow> editor \<Rightarrow> editor" where
  "ed_add c e = (case e of (com, ed) \<Rightarrow> if length com + length ed < 1023 then (com, ed @ [c]) else (com, ed))"

definition ed_commit :: "editor \<Rightarrow> editor" where
  "ed_commit e = (case e of (com, ed) \<Rightarrow> (com @ ed, []))"

definition is_blank :: "u8 \<Rightarrow> bool" where
  "is_blank c \<longleftrightarrow> c = 32 \<or> c = 9"

text \<open>What a character does to the lines given and the line being edited.\<close>

definition line_editor :: "tty \<Rightarrow> u8 \<Rightarrow> editor \<Rightarrow> editor" where
  "line_editor t c e = (case e of (com, ed) \<Rightarrow>
     if c = ERASE_CHAR t then (com, butlast ed)
     else if c = KILL_CHAR t then (com, [])
     else if c = WERASE_CHAR t then
       (com, rev (dropWhile (\<lambda>x. \<not> is_blank x) (dropWhile is_blank (rev ed))))
     else if c = REPRINT_CHAR t then (com, ed)
     else if c = EOF_CHAR t then ed_commit (com, ed)
     else if c = 10 \<or> c = EOL_CHAR t then ed_commit (ed_add 10 (com, ed))
     else ed_add c (com, ed))"

text \<open>
  With signal characters on, the interrupt and quit characters drop the line being edited, and with
  flow control on the start and stop characters go no further.
\<close>

definition line_key :: "tty \<Rightarrow> u8 \<Rightarrow> editor \<Rightarrow> editor" where
  "line_key t c e =
     (if l_flag ISIG t \<and> (c = INTR_CHAR t \<or> c = QUIT_CHAR t) then (fst e, [])
      else if l_flag ISIG t \<and> c = SUSP_CHAR t then e
      else if i_flag IXON t \<and> (c = START_CHAR t \<or> c = STOP_CHAR t) then e
      else line_editor t c e)"

abbreviation contents :: "tty \<Rightarrow> editor" where
  "contents t \<equiv> (committed t, edited t)"

lemma c_add_char_contents:
  assumes inv: "ld_inv t" and can: "l_flag ICANON t"
  shows "ld_inv (c_add_char c t) \<and> contents (c_add_char c t) = ed_add c (contents t)
    \<and> l_flag f (c_add_char c t) = l_flag f t \<and> line_start (c_add_char c t) = line_start t"
proof (cases "buf_space t > 0")
  case False
  then have "c_add_char c t = t" by (simp add: c_add_char_def)
  moreover have "\<not> length (committed t) + length (edited t) < 1023"
    using False buf_space_eq [OF inv] contents_length [OF inv] inv by (auto simp: ld_inv_def)
  ultimately show ?thesis using inv by (simp add: ed_add_def)
next
  case True
  let ?b = "(ibuf t)[epos t mod 1024 := c]"
  have t': "c_add_char c t = t\<lparr>ibuf := ?b, epos := epos t + 1\<rparr>" using True by (simp add: c_add_char_def)
  have sp: "epos t < rpos t + 1023" using True buf_space_eq [OF inv] by linarith
  have len: "length (ibuf t) = 1024" using inv by (simp add: ld_inv_def)
  have room: "length (committed t) + length (edited t) < 1023"
    using sp contents_length [OF inv] by simp
  have com: "ring_slice ?b (rpos t) (wpos t - rpos t) = ring_slice (ibuf t) (rpos t) (wpos t - rpos t)"
    using ring_slice_update_outside [of "epos t" "rpos t" "ibuf t" "wpos t - rpos t" c] len sp inv
    by (simp add: ld_inv_def)
  have ed: "ring_slice ?b (wpos t) (epos t - wpos t) = ring_slice (ibuf t) (wpos t) (epos t - wpos t)"
    using ring_slice_update_outside [of "epos t" "wpos t" "ibuf t" "epos t - wpos t" c] len sp inv
    by (simp add: ld_inv_def)
  have "epos t + 1 - wpos t = Suc (epos t - wpos t)" "wpos t + (epos t - wpos t) = epos t"
    using inv by (auto simp: ld_inv_def)
  then have "ring_slice ?b (wpos t) (epos t + 1 - wpos t)
      = ring_slice ?b (wpos t) (epos t - wpos t) @ [?b ! (epos t mod 1024)]"
    using len by (simp add: ring_slice_Suc)
  then have "edited (c_add_char c t) = edited t @ [c]" using len ed by (simp add: t' edited_def)
  moreover have "committed (c_add_char c t) = committed t" using com by (simp add: t' committed_def)
  moreover have "ld_inv (c_add_char c t)" using inv can sp by (simp add: t' ld_inv_def)
  ultimately show ?thesis using room by (simp add: ed_add_def t')
qed

lemma c_commit_contents:
  assumes "ld_inv t" and "l_flag ICANON t"
  shows "ld_inv (c_commit_line t) \<and> contents (c_commit_line t) = ed_commit (contents t)"
proof -
  have "ring_slice (ibuf t) (rpos t) (epos t - rpos t)
      = ring_slice (ibuf t) (rpos t) (wpos t - rpos t) @ ring_slice (ibuf t) (wpos t) (epos t - wpos t)"
    using ring_slice_append [of "ibuf t" "rpos t" "wpos t - rpos t" "epos t - wpos t"] assms(1)
    by (simp add: ld_inv_def)
  with assms show ?thesis
    by (simp add: c_commit_line_def ld_inv_def committed_def edited_def ed_commit_def)
qed

text \<open>Moving \<open>epos\<close> back, not before the committed bytes, shortens the edited line.\<close>

lemma epos_back_contents:
  assumes "ld_inv t" and "l_flag ICANON t" and "n \<le> epos t - wpos t"
  shows "ld_inv (t\<lparr>epos := epos t - n\<rparr>) \<and>
    contents (t\<lparr>epos := epos t - n\<rparr>) = (committed t, take (length (edited t) - n) (edited t))"
  using assms by (auto simp: ld_inv_def committed_def edited_def take_ring_slice add.commute)

lemma edit_back_eq: "ld_inv t \<Longrightarrow> l_flag ICANON t \<Longrightarrow> edit_back t = rev (edited t)"
  by (auto simp: edit_back_def edited_def ring_slice_def ld_inv_def rev_map map_add_upt [symmetric]
      simp del: upt_Suc intro!: nth_equalityI simp: rev_nth)

lemma c_erase_contents:
  assumes inv: "ld_inv t" and can: "l_flag ICANON t"
  shows "ld_inv (snd (c_erase_char t)) \<and> contents (snd (c_erase_char t)) = (committed t, butlast (edited t))"
proof (cases "epos t > line_start t")
  case True
  then have "1 \<le> epos t - wpos t" using inv can by (auto simp: ld_inv_def)
  from epos_back_contents [OF inv can this] True show ?thesis
    by (simp add: c_erase_char_def butlast_conv_take)
next
  case False
  then have "epos t = wpos t" using inv can by (auto simp: ld_inv_def)
  with False inv show ?thesis by (simp add: c_erase_char_def edited_def)
qed

lemma c_kill_contents:
  assumes inv: "ld_inv t" and can: "l_flag ICANON t"
  shows "ld_inv (c_kill_line t) \<and> contents (c_kill_line t) = (committed t, [])"
  using assms by (auto simp: c_kill_line_def ld_inv_def committed_def edited_def)

lemma c_erase_word_contents:
  assumes inv: "ld_inv t" and can: "l_flag ICANON t"
  shows "ld_inv (snd (c_erase_word t)) \<and> contents (snd (c_erase_word t)) =
    (committed t, rev (dropWhile (\<lambda>x. \<not> is_blank x) (dropWhile is_blank (rev (edited t)))))"
proof -
  let ?bk = "rev (edited t)"
  let ?b = "length (takeWhile is_blank ?bk)"
  let ?w = "length (takeWhile (\<lambda>x. \<not> is_blank x) (drop ?b ?bk))"
  have blank: "(\<lambda>c. c = 32 \<or> c = 9) = is_blank" by (auto simp: is_blank_def)
  have nblank: "(\<lambda>c. \<not> (c = 32 \<or> c = 9)) = (\<lambda>x. \<not> is_blank x)" by (auto simp: is_blank_def)
  have t': "snd (c_erase_word t) = t\<lparr>epos := epos t - (?b + ?w)\<rparr>"
    unfolding c_erase_word_def Let_def edit_back_eq [OF inv can] blank nblank by simp
  have le: "?b \<le> length ?bk" "?w \<le> length ?bk - ?b"
    using length_takeWhile_le [of is_blank ?bk]
      length_takeWhile_le [of "\<lambda>x. \<not> is_blank x" "drop ?b ?bk"] by simp_all
  then have "?b + ?w \<le> length (edited t)" unfolding length_rev by linarith
  moreover have "length (edited t) = epos t - wpos t" by (simp add: edited_def)
  ultimately have "?b + ?w \<le> epos t - wpos t" by simp
  note e = epos_back_contents [OF inv can this]
  have "dropWhile (\<lambda>x. \<not> is_blank x) (dropWhile is_blank ?bk) = drop (?b + ?w) ?bk"
    by (simp add: dropWhile_eq_drop add.commute)
  then have "rev (dropWhile (\<lambda>x. \<not> is_blank x) (dropWhile is_blank ?bk))
      = take (length (edited t) - (?b + ?w)) (edited t)"
    by (simp add: rev_drop)
  with e t' show ?thesis by simp
qed

text \<open>The refinement, for one character in canonical mode.\<close>

lemma handle_c_char_refines:
  assumes inv: "ld_inv t" and can: "l_flag ICANON t"
  shows "ld_inv (handle_c_char c t) \<and> contents (handle_c_char c t) = line_editor t c (contents t)"
proof -
  note oo = only_out_flags
  have echo: "ld_inv (if b then f u else u) = ld_inv u \<and> contents (if b then f u else u) = contents u"
    if "\<And>u. only_out u (f u)" for b f u
    using oo [OF that] by simp
  consider "c = ERASE_CHAR t"
    | "c \<noteq> ERASE_CHAR t" "c = KILL_CHAR t"
    | "c \<noteq> ERASE_CHAR t" "c \<noteq> KILL_CHAR t" "c = WERASE_CHAR t"
    | "c \<noteq> ERASE_CHAR t" "c \<noteq> KILL_CHAR t" "c \<noteq> WERASE_CHAR t" "c = REPRINT_CHAR t"
    | "c \<noteq> ERASE_CHAR t" "c \<noteq> KILL_CHAR t" "c \<noteq> WERASE_CHAR t" "c \<noteq> REPRINT_CHAR t" "c = EOF_CHAR t"
    | "c \<noteq> ERASE_CHAR t" "c \<noteq> KILL_CHAR t" "c \<noteq> WERASE_CHAR t" "c \<noteq> REPRINT_CHAR t" "c \<noteq> EOF_CHAR t"
      "c = 10 \<or> c = EOL_CHAR t"
    | "c \<noteq> ERASE_CHAR t" "c \<noteq> KILL_CHAR t" "c \<noteq> WERASE_CHAR t" "c \<noteq> REPRINT_CHAR t" "c \<noteq> EOF_CHAR t"
      "\<not> (c = 10 \<or> c = EOL_CHAR t)"
    by blast
  then show ?thesis
  proof cases
    case 1
    obtain b u where u: "c_erase_char t = (b, u)" by fastforce
    have "handle_c_char c t = (if b then echo_erase u else u)" using 1 u by (simp add: handle_c_char_def)
    with 1 u c_erase_contents [OF inv can] echo [of echo_erase b u] show ?thesis
      by (simp add: line_editor_def)
  next
    case 2
    with c_kill_contents [OF inv can] oo [OF only_out_echoes(2) [of "c_kill_line t" "edit_len t"]] show ?thesis
      by (simp add: handle_c_char_def line_editor_def)
  next
    case 3
    obtain n u where u: "c_erase_word t = (n, u)" by fastforce
    with 3 c_erase_word_contents [OF inv can] oo [OF only_out_echoes(3) [of u n]] show ?thesis
      by (simp add: handle_c_char_def line_editor_def)
  next
    case 4
    with inv oo [OF only_out_echoes(4) [of t]] show ?thesis
      by (simp add: handle_c_char_def line_editor_def)
  next
    case 5
    let ?u = "if edit_len t > 0 then c_commit_line t else t\<lparr>at_eof := True\<rparr>"
    have "ld_inv ?u \<and> contents ?u = ed_commit (contents t)"
    proof (cases "edit_len t > 0")
      case True
      with c_commit_contents [OF inv can] show ?thesis by simp
    next
      case False
      then have "edited t = []" using inv can by (auto simp: edit_len_def edited_def ld_inv_def)
      with False inv show ?thesis by (simp add: ed_commit_def ld_inv_def committed_def edited_def)
    qed
    with 5 oo [OF only_out_emit(2) [of ?u]] show ?thesis
      by (simp add: handle_c_char_def line_editor_def)
  next
    case 6
    let ?u = "c_commit_line (c_add_char 10 t)"
    note a = c_add_char_contents [OF inv can, of 10]
    have u: "ld_inv ?u \<and> contents ?u = ed_commit (ed_add 10 (contents t))"
      using c_commit_contents [of "c_add_char 10 t"] a can by simp
    have "handle_c_char c t = wake_reader (if l_flag ECHO ?u \<or> l_flag ECHONL ?u then echo_char 10 ?u else ?u)"
      using 6 can by (auto simp: handle_c_char_def Let_def)
    with 6 u oo [OF only_out_emit(2)] echo [of "echo_char 10" "l_flag ECHO ?u \<or> l_flag ECHONL ?u" ?u] show ?thesis
      by (simp add: line_editor_def)
  next
    case 7
    let ?u = "c_add_char c t"
    note a = c_add_char_contents [OF inv can, of c]
    have "\<exists>b f. (\<forall>v. only_out v (f v)) \<and> handle_c_char c t = (if b then f ?u else ?u)"
    proof (cases "c \<ge> 32 \<or> c = 9")
      case True
      with 7 can show ?thesis
        by (intro exI [of _ "l_flag ECHO ?u"] exI [of _ "echo_char c"])
          (auto simp: handle_c_char_def Let_def)
    next
      case False
      with 7 can show ?thesis
        by (intro exI [of _ "l_flag ECHO ?u \<and> l_flag ECHOCTL ?u \<and> c \<noteq> 9"]
            exI [of _ "tty_emit [94, if c = 0x7f then 63 else c + 65 - 1]"])
          (auto simp: handle_c_char_def Let_def)
    qed
    then obtain b f where "\<And>v. only_out v (f v)" "handle_c_char c t = (if b then f ?u else ?u)" by blast
    with 7 a echo [of f b ?u] show ?thesis by (simp add: line_editor_def)
  qed
qed

section \<open>Every event keeps the invariant\<close>

lemma nc_add_char_inv:
  assumes inv: "ld_inv t" and raw: "\<not> l_flag ICANON t"
  shows "ld_inv (nc_add_char c t) \<and> \<not> l_flag ICANON (nc_add_char c t) \<and>
    committed (nc_add_char c t) = (if length (committed t) < 1023 then committed t @ [c] else committed t)"
proof (cases "buf_space t > 0")
  case False
  then have "nc_add_char c t = t" by (simp add: nc_add_char_def)
  moreover have "\<not> length (committed t) < 1023"
    using False buf_space_eq [OF inv] inv raw by (auto simp: ld_inv_def committed_def)
  ultimately show ?thesis using inv raw by simp
next
  case True
  let ?b = "(ibuf t)[epos t mod 1024 := c]"
  have sp: "epos t < rpos t + 1023" using True buf_space_eq [OF inv] by linarith
  have eq: "epos t = wpos t" "length (ibuf t) = 1024" "rpos t \<le> epos t" using inv raw by (auto simp: ld_inv_def)
  have "ring_slice ?b (rpos t) (epos t - rpos t) = ring_slice (ibuf t) (rpos t) (epos t - rpos t)"
    using ring_slice_update_outside [of "epos t" "rpos t" "ibuf t" "epos t - rpos t" c] eq sp by simp
  moreover have "epos t + 1 - rpos t = Suc (epos t - rpos t)" using eq by simp
  ultimately have "ring_slice ?b (rpos t) (epos t + 1 - rpos t)
      = ring_slice (ibuf t) (rpos t) (epos t - rpos t) @ [c]"
    using eq by (simp add: ring_slice_Suc)
  moreover have "length (committed t) < 1023" using sp eq by (simp add: committed_def)
  ultimately show ?thesis using True inv raw sp eq
    by (simp add: nc_add_char_def ld_inv_def committed_def)
qed

lemma handle_nc_char_inv:
  assumes inv: "ld_inv t" and raw: "\<not> l_flag ICANON t"
  shows "ld_inv (handle_nc_char c t) \<and> \<not> l_flag ICANON (handle_nc_char c t)
    \<and> committed (handle_nc_char c t) = committed (nc_add_char c t)"
proof -
  let ?t1 = "nc_add_char c t"
  have "only_out ?t1 (handle_nc_char c t)"
    by (auto simp: handle_nc_char_def Let_def intro: only_out_trans [OF _ only_out_emit(2)])
  from only_out_flags [OF this] nc_add_char_inv [OF inv raw, of c] show ?thesis by simp
qed

lemma flush_input_inv: "ld_inv t \<Longrightarrow> ld_inv (flush_input t)"
  by (auto simp: flush_input_def ld_inv_def)

lemma ld_inv_upd [simp]:
  "ld_inv (t\<lparr>ctl_stopped := b\<rparr>) = ld_inv t" "ld_inv (t\<lparr>at_eof := b\<rparr>) = ld_inv t"
  "ld_inv (t\<lparr>line_ready := b\<rparr>) = ld_inv t" "ld_inv (t\<lparr>out := x\<rparr>) = ld_inv t"
  by (simp_all add: ld_inv_def)

lemma signal_char_inv: "ld_inv t \<Longrightarrow> ld_inv (snd (signal_char c t))"
  by (auto simp: signal_char_def Let_def tty_emit_def intro!: flush_input_inv split: option.splits)

lemma flow_control_inv: "ld_inv t \<Longrightarrow> ld_inv (snd (flow_control c t))"
  by (simp add: flow_control_def)

lemma receive_char_inv: "ld_inv t \<Longrightarrow> ld_inv (receive_char c t)"
proof -
  assume inv: "ld_inv t"
  let ?c = "input_char t c"
  let ?s = "if l_flag ISIG t then signal_char ?c t else (False, t)"
  have 1: "ld_inv (snd ?s)" using inv signal_char_inv by simp
  have 2: "ld_inv (snd (flow_control ?c (snd ?s)))" by (rule flow_control_inv [OF 1])
  obtain b1 t1 where s: "?s = (b1, t1)" by (metis surj_pair)
  obtain b2 t2 where f: "flow_control ?c t1 = (b2, t2)" by (metis surj_pair)
  have i: "ld_inv t1" "ld_inv t2" using 1 2 unfolding s f snd_conv by (simp_all add: f)
  have h: "ld_inv (if l_flag ICANON t2 then handle_c_char ?c t2 else handle_nc_char ?c t2)"
    using handle_c_char_refines [OF i(2)] handle_nc_char_inv [OF i(2)] by simp
  have "receive_char c t = (if c = 0 \<and> i_flag IGNPAR t then t else if ?c = 0 then t else if b1 then t1
      else if b2 then t2 else if l_flag ICANON t2 then handle_c_char ?c t2 else handle_nc_char ?c t2)"
    unfolding receive_char_def Let_def s using f by (cases b1; cases b2) simp_all
  with inv i h show ?thesis by presburger
qed

interpretation ld: stepped_component receive_char ld_inv
  by unfold_locales (rule receive_char_inv)

text \<open>The loop of the mode change leaves the reader at the end of what was committed.\<close>

lemma c_add_char_frame:
  "rpos (c_add_char c t) = rpos t" "wpos (c_add_char c t) = wpos t"
  "l_flag f (c_add_char c t) = l_flag f t" "length (ibuf (c_add_char c t)) = length (ibuf t)"
  by (simp_all add: c_add_char_def)

lemma move_to_edit_frame:
  "rpos t + n = wpos t \<Longrightarrow> rpos (move_to_edit n t) = wpos t \<and> wpos (move_to_edit n t) = wpos t
    \<and> l_flag f (move_to_edit n t) = l_flag f t \<and> length (ibuf (move_to_edit n t)) = length (ibuf t)"
proof (induction n t rule: move_to_edit.induct)
  case (2 n t)
  have "rpos (c_add_char c (t\<lparr>rpos := rpos t + 1\<rparr>)) + n = wpos (c_add_char c (t\<lparr>rpos := rpos t + 1\<rparr>))" for c
    using 2(2) by (simp add: c_add_char_frame)
  from 2(1) [OF _ this] 2(2) show ?case by (auto simp: c_add_char_frame)
qed auto

text \<open>
  Any change of the terminal's modes keeps the invariant: \<open>t\<close> is the terminal with the new
  modes, \<open>old\<close> the modes before, for which the invariant held.
\<close>

lemma set_termios_inv:
  assumes inv: "ld_inv (t\<lparr>termios := old\<rparr>)"
  shows "ld_inv (default_tty_set_termios (Some old) t)"
proof -
  have was: "(c_lflag old AND ICANON \<noteq> 0) = l_flag ICANON (t\<lparr>termios := old\<rparr>)" by (simp add: l_flag_def)
  have b: "length (ibuf t) = 1024" "rpos t \<le> wpos t" "wpos t \<le> epos t" "epos t \<le> rpos t + 1023"
    "if c_lflag old AND ICANON \<noteq> 0 then line_start t = wpos t else epos t = wpos t"
    using inv unfolding was by (auto simp: ld_inv_def)
  note m = move_to_edit_frame [of t "wpos t - rpos t"]
  consider (toc) "l_flag ICANON t" "\<not> c_lflag old AND ICANON \<noteq> 0"
    | (ton) "\<not> l_flag ICANON t" "c_lflag old AND ICANON \<noteq> 0"
    | (same) "l_flag ICANON t \<longleftrightarrow> c_lflag old AND ICANON \<noteq> 0" by blast
  then show ?thesis
  proof cases
    case toc
    with b m show ?thesis by (simp add: default_tty_set_termios_def Let_def ld_inv_def)
  next
    case ton
    with b show ?thesis
      by (auto simp: default_tty_set_termios_def Let_def wake_reader_def ld_inv_def c_commit_line_def
          edit_len_def)
  next
    case same
    with b show ?thesis
      by (simp add: default_tty_set_termios_def Let_def wake_reader_def ld_inv_def)
  qed
qed

lemma read_char_inv: "ld_inv t \<Longrightarrow> ld_inv (snd (read_char t))"
  by (auto simp: read_char_def ld_inv_def buf_empty_def)

lemma copy_line_inv: "ld_inv t \<Longrightarrow> ld_inv (snd (snd (copy_line n acc t)))"
proof (induction n acc t rule: copy_line.induct)
  case (2 n acc t)
  obtain c t1 where r: "read_char t = (c, t1)" by fastforce
  with read_char_inv [OF 2(2)] have "ld_inv t1" by simp
  with 2 r show ?case by simp
qed simp

lemma sint_7bit: "(c :: u8) < 128 \<Longrightarrow> sint c = uint c \<and> 0 \<le> sint c \<and> word_of_int (sint c) = c"
proof -
  assume "c < 128"
  then have "uint c < 128" by (simp add: word_less_alt)
  moreover have "- 128 \<le> uint c" by (rule order_trans [of _ 0]) simp_all
  ultimately have "signed_take_bit 7 (uint c) = uint c"
    by (intro signed_take_bit_int_eq_self) simp_all
  then have "sint c = uint c" by (simp add: sint_uint)
  then show ?thesis by simp
qed

lemma read_char_Cons:
  assumes inv: "ld_inv t" and c: "committed t = c # rest"
  shows "\<exists>t1. read_char t = (sint c, t1) \<and> \<not> buf_empty t \<and> ld_inv t1 \<and> committed t1 = rest
    \<and> edited t1 = edited t \<and> termios t1 = termios t \<and> line_ready t1 = line_ready t \<and> at_eof t1 = at_eof t"
proof -
  have n: "rpos t < wpos t" and len: "length (ibuf t) = 1024"
    using inv arg_cong [OF c, of length] by (auto simp: ld_inv_def committed_def)
  have "committed t = ibuf t ! (rpos t mod 1024) # ring_slice (ibuf t) (Suc (rpos t)) (wpos t - rpos t - 1)"
    using n len by (simp add: committed_def ring_slice_Cons)
  with c have "ibuf t ! (rpos t mod 1024) = c" "ring_slice (ibuf t) (rpos t + 1) (wpos t - (rpos t + 1)) = rest"
    by simp_all
  with n inv show ?thesis
    by (auto simp: read_char_def buf_empty_def ld_inv_def committed_def edited_def)
qed

lemma copy_line_line:
  "ld_inv t \<Longrightarrow> committed t = line @ 10 # rest \<Longrightarrow> \<forall>c \<in> set line. c < 128 \<and> c \<noteq> 10 \<Longrightarrow>
   length line < n \<Longrightarrow>
   \<exists>t'. copy_line n acc t = (True, acc @ line @ [10], t') \<and> ld_inv t' \<and> committed t' = rest
     \<and> edited t' = edited t \<and> termios t' = termios t"
proof (induction line arbitrary: n acc t)
  case Nil
  then obtain m where n: "n = Suc m" by (cases n) auto
  have ten: "sint (10 :: u8) = 10" by simp
  from read_char_Cons [of t 10 rest] Nil(1,2) obtain t1 where
    "read_char t = (10, t1)" "\<not> buf_empty t" "ld_inv t1" "committed t1 = rest" "edited t1 = edited t"
    "termios t1 = termios t" by (auto simp: ten)
  with n show ?case by simp
next
  case (Cons c line)
  then obtain m where n: "n = Suc m" by (cases n) auto
  have c7: "c < 128" "c \<noteq> 10" using Cons.prems(3) by auto
  from read_char_Cons [of t c "line @ 10 # rest"] Cons.prems(1,2) obtain t1 where
    r: "read_char t = (sint c, t1)" "\<not> buf_empty t" "ld_inv t1" "committed t1 = line @ 10 # rest"
      "edited t1 = edited t" "termios t1 = termios t" by auto
  have s10: "sint c \<noteq> 10"
  proof
    assume "sint c = 10"
    then have "word_of_int (sint c) = (10 :: u8)" by simp
    with c7 sint_7bit [of c] show False by simp
  qed
  from Cons.IH [OF r(3,4), of m "acc @ [c]"] Cons.prems(3,4) n obtain t2 where
    "copy_line m (acc @ [c]) t1 = (True, (acc @ [c]) @ line @ [10], t2)" "ld_inv t2" "committed t2 = rest"
    "edited t2 = edited t1" "termios t2 = termios t1" by auto
  with r n s10 sint_7bit [OF c7(1)] show ?case by simp
qed

text \<open>Reading and writing raw mode as a channel of 7-bit bytes.\<close>

definition raw_valid :: "tty \<Rightarrow> bool" where
  "raw_valid t \<longleftrightarrow> ld_inv t \<and> \<not> l_flag ICANON t \<and> (\<forall>c \<in> set (committed t). c < 128)"

lemma nc_drain_content:
  assumes "raw_valid t"
  shows "\<exists>t'. nc_drain nr acc t = Some (acc @ take (nr - length acc) (committed t), t') \<and> raw_valid t'
    \<and> committed t' = drop (nr - length acc) (committed t) \<and> termios t' = termios t"
  using assms
proof (induction "nr - length acc" arbitrary: acc t)
  case 0
  then show ?case by (subst nc_drain.simps) simp
next
  case (Suc n)
  show ?case
  proof (cases "committed t")
    case Nil
    then have "buf_empty t" using Suc.prems
      by (auto simp: raw_valid_def ld_inv_def committed_def buf_empty_def dest: arg_cong [of _ _ length])
    with Nil Suc.prems show ?thesis by (subst nc_drain.simps) simp
  next
    case (Cons c rest)
    have inv: "ld_inv t" and c7: "c < 128" using Suc.prems Cons by (auto simp: raw_valid_def)
    from read_char_Cons [OF inv Cons] obtain t1 where
      r: "read_char t = (sint c, t1)" "\<not> buf_empty t" "ld_inv t1" "committed t1 = rest" "termios t1 = termios t"
      by blast
    have v: "raw_valid t1" using Suc.prems r Cons by (auto simp: raw_valid_def l_flag_def)
    have n: "n = nr - length (acc @ [c])" using Suc.hyps(2) by simp
    from Suc.hyps(1) [OF n v] r(4) obtain t' where
      "nc_drain nr (acc @ [c]) t1 = Some ((acc @ [c]) @ take n rest, t')" "raw_valid t'"
      "committed t' = drop n rest" "termios t' = termios t" unfolding n [symmetric] r(5) by blast
    moreover have "length acc < nr" using Suc.hyps(2) by simp
    moreover have "nr - length acc = Suc n" using Suc.hyps(2) by simp
    ultimately show ?thesis using r sint_7bit [OF c7] Cons by (subst nc_drain.simps) simp
  qed
qed

section \<open>Properties\<close>

text \<open>The modes and control characters are not changed by a character.\<close>

lemma termios_prims [simp]:
  "termios (tty_emit bs t) = termios t" "termios (wake_reader t) = termios t"
  "termios (c_add_char c t) = termios t" "termios (c_commit_line t) = termios t"
  "termios (c_kill_line t) = termios t" "termios (snd (c_erase_char t)) = termios t"
  "termios (snd (c_erase_word t)) = termios t"
  by (simp_all add: tty_emit_def wake_reader_def c_add_char_def c_commit_line_def c_kill_line_def
      c_erase_char_def c_erase_word_def Let_def)

lemma termios_echoes [simp]:
  "termios (echo_char c t) = termios t" "termios (echo_erase t) = termios t"
  "termios (echo_kill n t) = termios t" "termios (echo_erase_multi n t) = termios t"
  "termios (echo_reprint_line t) = termios t"
  using only_outD(7) [OF only_out_echo_char] only_outD(7) [OF only_out_echoes(1)]
    only_outD(7) [OF only_out_echoes(2)] only_outD(7) [OF only_out_echoes(3)]
    only_outD(7) [OF only_out_echoes(4)] by blast+

lemma erase_termios:
  "c_erase_char t = (b, u) \<Longrightarrow> termios u = termios t" "c_erase_word t = (n, v) \<Longrightarrow> termios v = termios t"
  using termios_prims(6,7) [of t] by (metis snd_conv)+

lemma handle_c_char_termios [simp]: "termios (handle_c_char c t) = termios t"
  by (auto simp: handle_c_char_def Let_def dest: erase_termios split: prod.splits)

lemma same_modes:
  "termios u = termios t \<Longrightarrow> l_flag f u = l_flag f t"
  "termios u = termios t \<Longrightarrow> i_flag f u = i_flag f t"
  "termios u = termios t \<Longrightarrow> input_char u = input_char t"
  "termios u = termios t \<Longrightarrow> line_editor u = line_editor t"
  by (simp_all add: l_flag_def i_flag_def input_char_def line_editor_def cc_def fun_eq_iff Let_def)

lemma same_cc: "termios u = termios t \<Longrightarrow> cc i u = cc i t"
  by (simp add: cc_def)

text \<open>What reaches the editor: the translated bytes, without those that are dropped.\<close>

definition edit_keys :: "tty \<Rightarrow> u8 list \<Rightarrow> u8 list" where
  "edit_keys t bs = filter (\<lambda>c. c \<noteq> 0) (map (input_char t) bs)"

lemma input_char_0 [simp]: "input_char t 0 = 0"
  by (simp add: input_char_def)

lemma signal_char_contents:
  assumes inv: "ld_inv t" and s: "signal_char c t = (b, u)"
  shows "termios u = termios t \<and> (b \<longleftrightarrow> c = INTR_CHAR t \<or> c = QUIT_CHAR t \<or> c = SUSP_CHAR t)
    \<and> (l_flag ICANON t \<longrightarrow>
       contents u = (if c = INTR_CHAR t \<or> c = QUIT_CHAR t then (committed t, []) else contents t))
    \<and> (\<not> b \<longrightarrow> u = t)"
proof (cases "c = INTR_CHAR t \<or> c = QUIT_CHAR t \<or> c = SUSP_CHAR t")
  case False
  with s show ?thesis by (simp add: signal_char_def)
next
  case True
  define sig where "sig = (if c = INTR_CHAR t then SIGINT else if c = QUIT_CHAR t then SIGQUIT else 20)"
  define e where "e = (if c = INTR_CHAR t then [94, 67] else if c = QUIT_CHAR t then [94, 92] else [94, 90 :: u8])"
  have se: "(if c = INTR_CHAR t then Some (SIGINT, [94, 67])
      else if c = QUIT_CHAR t then Some (SIGQUIT, [94, 92])
      else if c = SUSP_CHAR t then Some (20, [94, 90]) else None) = Some (sig, e)"
    using True by (auto simp: sig_def e_def)
  have sig: "(sig = SIGINT \<or> sig = SIGQUIT) \<longleftrightarrow> c = INTR_CHAR t \<or> c = QUIT_CHAR t"
    by (simp add: sig_def)
  let ?t1 = "if ctl_pgrp t > 0 then t\<lparr>out := out t @ [TKill (ctl_pgrp t) sig]\<rparr> else t"
  let ?t2 = "if l_flag ECHO ?t1 then
      (if l_flag ECHONL ?t1 then tty_emit [10] (tty_emit e ?t1) else tty_emit e ?t1) else ?t1"
  have "only_out t ?t1" by (simp add: only_out_def)
  moreover have "only_out ?t1 ?t2"
    using only_out_trans [OF only_out_emit(1) [of ?t1 e] only_out_emit(1) [of _ "[10]"]] by simp
  ultimately have oo: "only_out t ?t2" by (rule only_out_trans)
  have u: "b = True" "u = (if sig = SIGINT \<or> sig = SIGQUIT then flush_input ?t2 else ?t2)"
    using s unfolding signal_char_def se by (simp_all add: Let_def)
  note f = only_out_flags [OF oo]
  have fl: "flush_input ?t2 = c_kill_line ?t2" if "l_flag ICANON t"
    unfolding flush_input_def f(1) using that by (simp only: if_True c_kill_line_def)
  have "termios (flush_input ?t2) = termios ?t2" by (simp add: flush_input_def)
  then have tm: "termios u = termios t" unfolding u(2) using only_outD(7) [OF oo] by (simp split: if_split)
  have "contents u = (if c = INTR_CHAR t \<or> c = QUIT_CHAR t then (committed t, []) else contents t)"
    if can: "l_flag ICANON t"
    using c_kill_contents [of ?t2] inv can f unfolding u(2) sig fl [OF can] by (simp split: if_split)
  with True u(1) tm show ?thesis by blast
qed

lemma flow_control_contents:
  assumes "flow_control c t = (b, u)"
  shows "termios u = termios t \<and> contents u = contents t
    \<and> (b \<longleftrightarrow> i_flag IXON t \<and> (c = START_CHAR t \<or> c = STOP_CHAR t))"
proof -
  have "contents (t\<lparr>ctl_stopped := x\<rparr>) = contents t" for x by (simp add: committed_def edited_def)
  with assms show ?thesis by (auto simp: flow_control_def split: if_splits)
qed

text \<open>The three stages of \<open>receive_char\<close>.\<close>

lemma receive_char_stages:
  assumes "input_char t c = k" and "(if l_flag ISIG t then signal_char k t else (False, t)) = (b1, u1)"
    and "flow_control k u1 = (b2, u2)" and "k \<noteq> 0"
  shows "receive_char c t = (if b1 then u1 else if b2 then u2
      else if l_flag ICANON u2 then handle_c_char k u2 else handle_nc_char k u2)"
proof -
  have "c \<noteq> 0" using assms(1,4) by auto
  with assms show ?thesis by (simp add: receive_char_def Let_def split: prod.split bool.split)
qed

lemma receive_char_canon:
  assumes inv: "ld_inv t" and can: "l_flag ICANON t"
  shows "contents (receive_char c t) =
      (if input_char t c = 0 then contents t else line_key t (input_char t c) (contents t))
    \<and> termios (receive_char c t) = termios t"
proof (cases "input_char t c = 0")
  case True
  then show ?thesis by (simp add: receive_char_def Let_def)
next
  case False
  let ?k = "input_char t c"
  obtain b1 u1 where s: "(if l_flag ISIG t then signal_char ?k t else (False, t)) = (b1, u1)"
    by (metis surj_pair)
  obtain b2 u2 where f: "flow_control ?k u1 = (b2, u2)" by (metis surj_pair)
  note r = receive_char_stages [OF refl s f False]
  note fc = flow_control_contents [OF f]
  have b1: "b1 \<longleftrightarrow> l_flag ISIG t \<and> (?k = INTR_CHAR t \<or> ?k = QUIT_CHAR t \<or> ?k = SUSP_CHAR t)"
    and tm1: "termios u1 = termios t"
    and c1: "b1 \<Longrightarrow> contents u1 = (if ?k = INTR_CHAR t \<or> ?k = QUIT_CHAR t then (committed t, []) else contents t)"
    and u1: "\<not> b1 \<Longrightarrow> u1 = t"
    using signal_char_contents [OF inv, of ?k b1 u1] s can by (auto split: if_splits)
  show ?thesis
  proof (cases b1)
    case True
    with r c1 b1 tm1 False show ?thesis by (auto simp: line_key_def)
  next
    case nsig: False
    have "ld_inv u2" using flow_control_inv [of u1 ?k] f inv u1 nsig by simp
    moreover note same_modes [of u2 t] tm1 fc
    moreover have "l_flag ICANON u2" using can tm1 fc by (simp add: l_flag_def)
    ultimately show ?thesis
      using r nsig u1 False b1 handle_c_char_refines [of u2 ?k]
      by (cases b2) (auto simp: line_key_def)
  qed
qed

lemma same_keys:
  assumes "termios u = termios t"
  shows "line_key u = line_key t"
  by (intro ext) (simp only: line_key_def same_modes [OF assms] same_cc [OF assms])

lemma receive_buf_refines:
  assumes "ld_inv t" "l_flag ICANON t"
  shows "contents (default_tty_receive_buf bs t) = fold (line_key t) (edit_keys t bs) (contents t)
    \<and> termios (default_tty_receive_buf bs t) = termios t"
  using assms
proof (induction bs arbitrary: t)
  case Nil
  then show ?case by (simp add: default_tty_receive_buf_def edit_keys_def)
next
  case (Cons b bs)
  let ?u = "receive_char b t"
  note r = receive_char_canon [OF Cons.prems, of b]
  then have tm: "termios ?u = termios t" by simp
  note m = same_modes [OF tm] same_keys [OF tm]
  have e: "edit_keys ?u bs = edit_keys t bs" by (simp add: edit_keys_def m)
  have "ld_inv ?u" by (rule receive_char_inv [OF Cons.prems(1)])
  with Cons.IH [of ?u] Cons.prems tm m e have ih:
    "contents (default_tty_receive_buf bs ?u) = fold (line_key t) (edit_keys t bs) (contents ?u)"
    "termios (default_tty_receive_buf bs ?u) = termios t" by simp_all
  have "default_tty_receive_buf (b # bs) t = default_tty_receive_buf bs ?u"
    by (simp add: default_tty_receive_buf_def)
  with ih r show ?case by (simp add: edit_keys_def)
qed

lemma receive_buf_inv: "ld_inv t \<Longrightarrow> ld_inv (default_tty_receive_buf bs t)"
  using ld.run_inv [of t] by (simp add: default_tty_receive_buf_def)

subsection \<open>Raw mode as a channel\<close>

text \<open>A byte that reaches the ring as it is: neither translated, dropped nor a control character.\<close>

definition plain_byte :: "tty \<Rightarrow> u8 \<Rightarrow> bool" where
  "plain_byte t c \<longleftrightarrow> 0 < c \<and> c < 128 \<and> input_char t c = c \<and>
     (l_flag ISIG t \<longrightarrow> c \<noteq> INTR_CHAR t \<and> c \<noteq> QUIT_CHAR t \<and> c \<noteq> SUSP_CHAR t) \<and>
     (i_flag IXON t \<longrightarrow> c \<noteq> START_CHAR t \<and> c \<noteq> STOP_CHAR t)"

lemma plain_byte_same:
  assumes "termios u = termios t"
  shows "plain_byte u = plain_byte t"
  by (intro ext) (simp only: plain_byte_def same_modes [OF assms] same_cc [OF assms])

lemma nc_add_char_termios [simp]: "termios (nc_add_char c t) = termios t"
  by (simp add: nc_add_char_def)

lemma handle_nc_char_termios [simp]: "termios (handle_nc_char c t) = termios t"
  by (simp add: handle_nc_char_def Let_def)

lemma receive_char_raw:
  assumes inv: "ld_inv t" and raw: "\<not> l_flag ICANON t" and c: "plain_byte t c"
  shows "ld_inv (receive_char c t) \<and> termios (receive_char c t) = termios t \<and>
    committed (receive_char c t) = (if length (committed t) < 1023 then committed t @ [c] else committed t)"
proof -
  obtain b1 u1 where s: "(if l_flag ISIG t then signal_char c t else (False, t)) = (b1, u1)"
    by (metis surj_pair)
  obtain b2 u2 where f: "flow_control c u1 = (b2, u2)" by (metis surj_pair)
  have k: "input_char t c = c" "c \<noteq> 0" using c by (auto simp: plain_byte_def)
  have u1: "\<not> b1" "u1 = t"
    using signal_char_contents [OF inv, of c b1 u1] s c by (auto simp: plain_byte_def split: if_splits)
  note fc = flow_control_contents [OF f]
  have b2: "\<not> b2" using fc u1 c by (auto simp: plain_byte_def)
  have u2: "ld_inv u2" "\<not> l_flag ICANON u2"
    using flow_control_inv [of u1 c] f u1 inv raw fc by (simp_all add: l_flag_def)
  have "receive_char c t = handle_nc_char c u2"
    using receive_char_stages [OF k(1) s f k(2)] u1 b2 u2 by simp
  with handle_nc_char_inv [OF u2, of c] nc_add_char_inv [OF u2, of c] fc u1 show ?thesis by simp
qed

lemma receive_buf_raw:
  "ld_inv t \<Longrightarrow> \<not> l_flag ICANON t \<Longrightarrow> \<forall>c \<in> set bs. plain_byte t c \<Longrightarrow>
   ld_inv (default_tty_receive_buf bs t) \<and> termios (default_tty_receive_buf bs t) = termios t \<and>
   committed (default_tty_receive_buf bs t) = committed t @ take (1023 - length (committed t)) bs"
proof (induction bs arbitrary: t)
  case Nil
  then show ?case by (simp add: default_tty_receive_buf_def)
next
  case (Cons b bs)
  let ?u = "receive_char b t"
  have r: "ld_inv ?u" "termios ?u = termios t"
    "committed ?u = (if length (committed t) < 1023 then committed t @ [b] else committed t)"
    using receive_char_raw [OF Cons.prems(1,2), of b] Cons.prems(3) by simp_all
  have "\<not> l_flag ICANON ?u" "\<forall>c \<in> set bs. plain_byte ?u c"
    using Cons.prems(2,3) plain_byte_same [OF r(2)] r(2) by (simp_all add: l_flag_def)
  note ih = Cons.IH [OF r(1) this]
  have "default_tty_receive_buf (b # bs) t = default_tty_receive_buf bs ?u"
    by (simp add: default_tty_receive_buf_def)
  with ih r(2,3) show ?case
    by (cases "length (committed t) < 1023") (auto simp: take_Cons' Suc_diff_Suc)
qed

text \<open>A read that finds what it waits for takes bytes off the front, at most as many as asked for.\<close>

lemma nc_block_content:
  "raw_valid t \<Longrightarrow> length acc \<le> nr \<Longrightarrow> nc_block b [] vmin nr acc t = Some (Done r bs t') \<Longrightarrow>
   \<exists>xs. bs = acc @ xs \<and> committed t = xs @ committed t' \<and> raw_valid t' \<and> length bs \<le> nr \<and> r = int (length bs)"
proof (induction "length (committed t)" arbitrary: t acc)
  case 0
  then have "buf_empty t"
    by (auto simp: raw_valid_def ld_inv_def committed_def buf_empty_def)
  with 0 show ?case by (subst (asm) nc_block.simps) (auto simp: wait_input.simps split: if_splits)
next
  case (Suc n)
  then obtain c rest where c: "committed t = c # rest" by (cases "committed t") auto
  from Suc.prems(1) c have inv: "ld_inv t" "c < 128" by (auto simp: raw_valid_def)
  from read_char_Cons [OF inv(1) c] obtain t1 where
    r1: "read_char t = (sint c, t1)" "\<not> buf_empty t" "ld_inv t1" "committed t1 = rest" "termios t1 = termios t"
    by blast
  have v: "raw_valid t1" using Suc.prems r1 c by (auto simp: raw_valid_def l_flag_def)
  show ?case
  proof (cases "length acc < vmin \<or> (b \<and> length acc < nr)")
    case False
    with Suc.prems show ?thesis by (subst (asm) nc_block.simps) auto
  next
    case True
    have w: "wait_input buf_empty [] t = Some (False, [], t)" using r1(2) by (simp add: wait_input.simps)
    have step: "nc_block b [] vmin nr acc t =
        (if length acc \<ge> nr then Some Overrun
         else if b \<and> length (acc @ [c]) \<ge> vmin then
           map_option (\<lambda>(acc2, t3). Done (int (length acc2)) acc2 t3) (nc_drain nr (acc @ [c]) t1)
         else nc_block b [] vmin nr (acc @ [c]) t1)"
      using True r1(1,2) sint_7bit [OF inv(2)]
      by (subst nc_block.simps) (simp add: w Let_def)
    have len: "length acc < nr"
      and e: "(if b \<and> length (acc @ [c]) \<ge> vmin then
           map_option (\<lambda>(acc2, t3). Done (int (length acc2)) acc2 t3) (nc_drain nr (acc @ [c]) t1)
         else nc_block b [] vmin nr (acc @ [c]) t1) = Some (Done r bs t')"
      using Suc.prems(3) unfolding step by (auto split: if_splits)
    have n: "n = length (committed t1)" and l1: "length (acc @ [c]) \<le> nr"
      using Suc.hyps(2) c r1(4) len by simp_all
    show ?thesis
    proof (cases "b \<and> length (acc @ [c]) \<ge> vmin")
      case drain: True
      from nc_drain_content [OF v, of nr "acc @ [c]"] obtain t2 where
        "nc_drain nr (acc @ [c]) t1 = Some ((acc @ [c]) @ take (nr - length (acc @ [c])) rest, t2)"
        "raw_valid t2" "committed t2 = drop (nr - length (acc @ [c])) rest" unfolding r1(4) by blast
      with e drain len c show ?thesis by auto
    next
      case False
      with e Suc.hyps(1) [OF n v l1] c r1(4) show ?thesis by auto
    qed
  qed
qed

definition raw_put :: "u8 list \<Rightarrow> tty \<Rightarrow> (nat \<times> tty) option" where
  "raw_put bs t =
     (if \<forall>c \<in> set bs. plain_byte t c
      then Some (min (length bs) (1023 - length (committed t)), default_tty_receive_buf bs t) else None)"

definition raw_get :: "nat \<Rightarrow> tty \<Rightarrow> (u8 list \<times> tty) option" where
  "raw_get k t = (case default_tty_read [] k t of Some (Done r bs t') \<Rightarrow> Some (bs, t') | _ \<Rightarrow> None)"

lemma raw_get_content:
  assumes v: "raw_valid t" and g: "raw_get k t = Some (bs, t')"
  shows "raw_valid t' \<and> length bs \<le> k \<and> committed t = bs @ committed t'"
proof -
  from g obtain r where "default_tty_read [] k t = Some (Done r bs t')"
    by (auto simp: raw_get_def split: option.splits rd_outcome.splits)
  with v have n: "nc_read [] k t = Some (Done r bs t')" by (simp add: default_tty_read_def raw_valid_def)
  show ?thesis
  proof (cases "unat (MIN_CHAR t) = 0")
    case True
    with n nc_drain_content [OF v, of k "[]"] show ?thesis by (auto simp: nc_read_def Let_def)
  next
    case False
    with n obtain b where "nc_block b [] (unat (MIN_CHAR t)) k [] t = Some (Done r bs t')"
      by (auto simp: nc_read_def Let_def split: if_splits)
    from nc_block_content [OF v _ this] show ?thesis by auto
  qed
qed

interpretation rc: byte_channel committed raw_valid raw_put raw_get
proof
  show "raw_valid t' \<and> n \<le> length bs \<and> committed t' = committed t @ take n bs"
    if v: "raw_valid t" and p: "raw_put bs t = Some (n, t')" for t bs n t'
  proof -
    from p have pl: "\<forall>c \<in> set bs. plain_byte t c" and n: "n = min (length bs) (1023 - length (committed t))"
      and t': "t' = default_tty_receive_buf bs t" by (auto simp: raw_put_def split: if_splits)
    from receive_buf_raw [of t bs] v pl have f: "ld_inv t'" "termios t' = termios t"
      "committed t' = committed t @ take (1023 - length (committed t)) bs"
      by (auto simp: raw_valid_def t')
    moreover have "take n bs = take (1023 - length (committed t)) bs" by (simp add: n min_def)
    moreover have "\<forall>c \<in> set (committed t'). c < 128"
      using v pl f(3) by (auto simp: raw_valid_def plain_byte_def dest: in_set_takeD)
    ultimately show ?thesis using v by (simp add: raw_valid_def n l_flag_def)
  qed
qed (rule raw_get_content)

text \<open>A terminal for the witnesses: the modes of \<open>default_termios\<close>, or what is asked.\<close>

definition demo_tty :: "u32 \<Rightarrow> u32 \<Rightarrow> u8 \<Rightarrow> u8 list \<Rightarrow> tty" where
  "demo_tty ifl lfl vmin bs =
     \<lparr>ibuf = bs @ replicate (1024 - length bs) 0, rpos = 0, wpos = length bs, epos = length bs,
      line_start = length bs, vmin_cnt = 0, line_ready = bs \<noteq> [], at_eof = False,
      termios = \<lparr>c_iflag = ifl, c_oflag = 4, c_cflag = 0, c_lflag = lfl,
                  c_cc = [3, 28, 8, 21, 4, 0, vmin, 0, 17, 19, 26] @ replicate 8 0,
                  c_ispeed = 0, c_ospeed = 0\<rparr>,
      ctl_pgrp = 0, ctl_session = 0, ctl_stopped = False, column = 0, out = []\<rparr>"

lemma demo_tty_inv: "length bs \<le> 1023 \<Longrightarrow> ld_inv (demo_tty ifl lfl vmin bs)"
  by (simp add: demo_tty_def ld_inv_def)

lemma demo_tty_contents: "length bs \<le> 1023 \<Longrightarrow> contents (demo_tty ifl lfl vmin bs) = (bs, [])"
  by (auto simp: demo_tty_def committed_def edited_def ring_slice_def nth_append intro!: nth_equalityI)

text \<open>
  C10. A terminal in canonical mode behaves as the line editor: whatever bytes arrive, the lines a
  reader can get and the line being edited are those that the abstract editor computes from the
  translated bytes, where, if signal characters are on, interrupt and quit drop the edited line and
  suspend leaves it, and, if flow control is on, start and stop do nothing to it.  The positions
  stay consistent, and the modes are unchanged.
\<close>

theorem canonical_input_is_line_editing:
  assumes "ld_inv t" and "l_flag ICANON t"
  shows "contents (default_tty_receive_buf bs t) = fold (line_key t) (edit_keys t bs) (contents t)
    \<and> ld_inv (default_tty_receive_buf bs t) \<and> termios (default_tty_receive_buf bs t) = termios t"
  using receive_buf_refines [OF assms] receive_buf_inv [OF assms(1)] by simp

theorem canonical_input_is_line_editing_witness:
  "contents (default_tty_receive_buf [104, 105, 3, 104, 8, 111, 13, 120]
     (demo_tty (ICRNL OR IXON) (ICANON OR ECHO OR ISIG) 0 [97, 10])) = ([97, 10, 111, 10], [120])"
proof -
  let ?t = "demo_tty (ICRNL OR IXON) (ICANON OR ECHO OR ISIG) 0 [97, 10]"
  have inv: "ld_inv ?t" and con: "contents ?t = ([97, 10], [])"
    using demo_tty_inv demo_tty_contents by simp_all
  have fl: "l_flag ICANON ?t" by (simp add: l_flag_def demo_tty_def)
  have keys: "edit_keys ?t [104, 105, 3, 104, 8, 111, 13, 120] = [104, 105, 3, 104, 8, 111, 10, 120]"
    by (simp add: edit_keys_def input_char_def i_flag_def demo_tty_def)
  have "fold (line_key ?t) [104, 105, 3, 104, 8, 111, 10, 120] ([97, 10], []) = ([97, 10, 111, 10], [120])"
    by (simp add: line_key_def line_editor_def ed_add_def ed_commit_def cc_def l_flag_def i_flag_def demo_tty_def)
  with canonical_input_is_line_editing [OF inv fl, of "[104, 105, 3, 104, 8, 111, 13, 120]"] keys con
  show ?thesis by simp
qed

text \<open>
  C11. In raw mode the terminal is a first-in first-out channel of bytes that are neither zero, nor
  above 127, nor translated by the input modes, nor signal or flow control characters: over any
  sequence of arrivals and of reads that find what they wait for and stay inside their buffer,
  what was there and what was accepted (all that fits into 1023 bytes) is, in order, what was
  delivered and what is left.
\<close>

theorem raw_mode_is_fifo:
  assumes "raw_valid t" and "rc.chan_run ops t = Some (accepted, delivered, t')"
  shows "committed t @ accepted = delivered @ committed t' \<and> ld_inv t'"
  using rc.chan_run_fifo [OF assms] by (simp add: raw_valid_def)

theorem raw_mode_is_fifo_witness:
  "\<exists>t'. rc.chan_run [Put [7, 8], Get 3, Put [9]] (demo_tty 0 0 0 [5, 6]) = Some ([7, 8, 9], [5, 6, 7], t')
     \<and> committed t' = [8, 9]"
proof -
  let ?t = "demo_tty 0 0 0 [5, 6]"
  have c: "committed ?t = [5, 6]" and v: "raw_valid ?t"
    using demo_tty_contents [of "[5, 6]" 0 0 0] demo_tty_inv [of "[5, 6]" 0 0 0]
    by (auto simp: raw_valid_def l_flag_def demo_tty_def)
  have pl: "plain_byte ?t x" if "x \<in> {7, 8, 9}" for x
    using that by (auto simp: plain_byte_def input_char_def i_flag_def l_flag_def demo_tty_def Let_def)
  obtain t1 where p1: "raw_put [7, 8] ?t = Some (2, t1)" and tm1: "termios t1 = termios ?t"
    using receive_buf_raw [of ?t "[7, 8]"] pl v by (simp add: raw_put_def c raw_valid_def)
  from rc.put_content [OF v p1] c have v1: "raw_valid t1" and c1: "committed t1 = [5, 6, 7, 8]" by auto
  have m: "MIN_CHAR t1 = 0" "\<not> l_flag ICANON t1" using tm1 by (simp_all add: cc_def l_flag_def demo_tty_def)
  from nc_drain_content [OF v1, of 3 "[]"] c1 obtain t2 where
    d: "nc_drain 3 [] t1 = Some ([5, 6, 7], t2)" and v2: "raw_valid t2" and c2: "committed t2 = [8]"
    and tm2: "termios t2 = termios t1" by auto
  have g: "raw_get 3 t1 = Some ([5, 6, 7], t2)"
    by (simp add: raw_get_def default_tty_read_def nc_read_def Let_def m d)
  have "plain_byte t2 9" using pl [of 9] plain_byte_same [of t2 ?t] tm1 tm2 by simp
  then obtain t3 where p3: "raw_put [9] t2 = Some (1, t3)" by (simp add: raw_put_def c2)
  have r: "rc.chan_run [Put [7, 8], Get 3, Put [9]] ?t = Some ([7, 8, 9], [5, 6, 7], t3)"
    by (simp add: p1 g p3)
  from raw_mode_is_fifo [OF v r] c r show ?thesis by simp
qed

text \<open>
  A canonical read with room for it returns exactly the first line that was given, newline
  included, without sleeping; the lines behind it and the line being edited stay.
\<close>

theorem canonical_read_returns_first_line:
  assumes "ld_inv t" and "l_flag ICANON t" and "committed t = line @ 10 # rest"
    and "\<forall>c \<in> set line. c < 128 \<and> c \<noteq> 10" and "length line < nr"
  shows "\<exists>t'. default_tty_read ws nr t = Some (Done (int (length line) + 1) (line @ [10]) t')
    \<and> committed t' = rest \<and> edited t' = edited t \<and> ld_inv t'"
proof -
  from copy_line_line [OF assms(1,3,4,5), of "[]"] obtain t' where
    t': "copy_line nr [] t = (True, line @ [10], t')" "ld_inv t'" "committed t' = rest" "edited t' = edited t"
    by auto
  have "rpos t \<noteq> wpos t" using arg_cong [OF assms(3), of length] by (auto simp: committed_def)
  then have "\<not> buf_empty t" by (simp add: buf_empty_def)
  then have "\<not> c_waits t" by (simp add: c_waits_def)
  with t' \<open>\<not> buf_empty t\<close> assms(2,5) show ?thesis
    unfolding default_tty_read_def by (subst c_read.simps) (simp add: wait_input.simps)
qed

theorem canonical_read_returns_first_line_witness:
  "\<exists>t'. default_tty_read [] 80 (demo_tty ICRNL ICANON 0 [104, 105, 10, 97, 10]) = Some (Done 3 [104, 105, 10] t')
     \<and> committed t' = [97, 10]"
  using canonical_read_returns_first_line [of "demo_tty ICRNL ICANON 0 [104, 105, 10, 97, 10]" "[104, 105]" "[97, 10]" 80 "[]"]
    demo_tty_inv [of "[104, 105, 10, 97, 10]" ICRNL ICANON 0]
    demo_tty_contents [of "[104, 105, 10, 97, 10]" ICRNL ICANON 0]
  by (auto simp: l_flag_def demo_tty_def)

text \<open>The read of case 2 keeps taking bytes until it has \<open>vmin\<close>.\<close>

lemma nc_block_overruns:
  "raw_valid t \<Longrightarrow> length acc \<le> nr \<Longrightarrow> nr < vmin \<Longrightarrow> nr - length acc < length (committed t) \<Longrightarrow>
   nc_block b ws vmin nr acc t = Some Overrun"
proof (induction "nr - length acc" arbitrary: acc t ws)
  case 0
  then obtain c rest where c: "committed t = c # rest" by (cases "committed t") auto
  with 0 read_char_Cons [OF _ c] sint_7bit [of c] obtain t1 where
    "read_char t = (sint c, t1)" "\<not> buf_empty t" "0 \<le> sint c" by (auto simp: raw_valid_def)
  with 0 show ?case by (subst nc_block.simps) (simp add: wait_input.simps)
next
  case (Suc n)
  then obtain c rest where c: "committed t = c # rest" by (cases "committed t") auto
  from Suc.prems(1) c have inv: "ld_inv t" "c < 128" by (auto simp: raw_valid_def)
  from read_char_Cons [OF inv(1) c] obtain t1 where
    r: "read_char t = (sint c, t1)" "\<not> buf_empty t" "ld_inv t1" "committed t1 = rest" "termios t1 = termios t"
    by blast
  have v: "raw_valid t1" using Suc.prems r c by (auto simp: raw_valid_def l_flag_def)
  have n: "n = nr - length (acc @ [c])" and len: "length (acc @ [c]) \<le> nr" "length acc < vmin"
    using Suc.hyps(2) Suc.prems by simp_all
  have l: "nr - length (acc @ [c]) < length (committed t1)"
    using Suc.prems(4) Suc.hyps(2) r(4) c by simp
  from Suc.hyps(1) [OF n v len(1) Suc.prems(3) l] have ih: "nc_block b ws vmin nr (acc @ [c]) t1 = Some Overrun"
    for ws .
  with r(1,2) sint_7bit [OF inv(2)] len Suc.prems(3) show ?case
    by (subst nc_block.simps) (simp add: wait_input.simps)
qed

text \<open>
  A raw read for fewer bytes than \<open>VMIN\<close> writes past the caller's buffer: its loop ends only
  when \<open>VMIN\<close> bytes were copied, and the size asked for is not checked.  This happens on every
  terminal where more bytes wait than were asked for.
\<close>

theorem short_raw_read_overruns:
  assumes "raw_valid t" and "nr < unat (MIN_CHAR t)" and "nr < length (committed t)"
  shows "default_tty_read ws nr t = Some Overrun"
  using assms nc_block_overruns [of t "[]" nr "unat (MIN_CHAR t)"]
  by (auto simp: default_tty_read_def nc_read_def Let_def raw_valid_def)

theorem short_raw_read_overruns_witness:
  "default_tty_read [] 1 (demo_tty 0 0 3 [65, 66, 67]) = Some Overrun"
proof -
  let ?t = "demo_tty 0 0 3 [65, 66, 67]"
  have c: "committed ?t = [65, 66, 67]"
    using demo_tty_contents [of "[65, 66, 67]" 0 0 3] by simp
  have "raw_valid ?t" using demo_tty_inv [of "[65, 66, 67]" 0 0 3] c
    by (auto simp: raw_valid_def l_flag_def demo_tty_def)
  moreover have "1 < unat (MIN_CHAR ?t)" by (simp add: cc_def demo_tty_def)
  ultimately show ?thesis using short_raw_read_overruns [of ?t 1 "[]"] c by simp
qed

end
