(* ===== verification/VtConsole.thy ===== *)
theory VtConsole imports LilacBase begin

text \<open>
  The terminal emulator of a virtual console, \<open>drivers/tty/vt.c\<close>: cursor, scrolling region, line
  and screen editing, the escape sequence state machine, and reports, which the code writes back
  through its own output function.

  The calls through \<open>con_ops\<close> are the events appended to \<open>out\<close>.  The buffers that
  \<open>state7\<close> and \<open>state8\<close> keep per terminal in static arrays are fields of the console.
  \<open>int\<close> and \<open>short\<close> values are integers, narrowed where the code narrows them.
\<close>

section \<open>State\<close>

datatype vt_event =
    VClear int int int int
  | VPutc int int int
  | VScroll int int int int
  | VMove int int int int int int
  | VColor int int
  | VCursor int int int

record vc =
  vt_xs :: int
  vt_ys :: int
  curx :: int
  cury :: int
  esc_s :: nat
  vt_type :: nat
  attr :: u32
  vt_fg :: int
  vt_bg :: int
  vt_trans :: "nat option list"
  vt_charset :: int
  vt_wrap :: bool
  vt_addlf :: bool
  vt_addcr :: bool
  vt_keypad :: int
  vt_cursor_mode :: int
  vt_cursor_on :: bool
  vt_insert :: bool
  vt_crlf :: bool
  vt_om :: bool
  vt_doscroll :: bool
  escparms :: "int list"
  ptr :: nat
  vt_tabs :: "u32 list"
  scroll_top :: int
  scroll_bottom :: int
  savex :: int
  savey :: int
  saveattr :: int
  save_fg :: int
  save_bg :: int
  savecharset :: int
  savetrans :: "nat option list"
  dcs_esc :: bool
  dcs_buf :: "u8 list"
  osc_esc :: bool
  out :: "vt_event list"

abbreviation "ESC \<equiv> 27 :: u8"
abbreviation "ANSI \<equiv> 3 :: nat"
abbreviation "S_UP \<equiv> 1 :: int"
abbreviation "S_DOWN \<equiv> 2 :: int"
abbreviation "XA_NORMAL \<equiv> 0 :: int"
abbreviation "WHITE \<equiv> 7 :: int"
abbreviation "BLACK \<equiv> 0 :: int"

text \<open>An entry of \<open>vt_cons\<close>.\<close>

definition vt_cons :: "vc" where
  "vt_cons = \<lparr>vt_xs = 80, vt_ys = 25, curx = 0, cury = 0, esc_s = 0, vt_type = 0, attr = 0,
     vt_fg = WHITE, vt_bg = BLACK, vt_trans = [None, None], vt_charset = 0,
     vt_wrap = True, vt_addlf = False, vt_addcr = True, vt_keypad = 0, vt_cursor_mode = 0,
     vt_cursor_on = True, vt_insert = False, vt_crlf = False, vt_om = False, vt_doscroll = True,
     escparms = replicate 8 0, ptr = 0,
     vt_tabs = [0x01010100, 0x01010101, 0x01010101, 0x01010101, 0x01010101],
     scroll_top = 0, scroll_bottom = 24, savex = 0, savey = 0, saveattr = 0, save_fg = WHITE,
     save_bg = BLACK, savecharset = 0, savetrans = [None, None],
     dcs_esc = False, dcs_buf = [], osc_esc = False, out = []\<rparr>"

definition con_ev :: "vt_event \<Rightarrow> vc \<Rightarrow> vc" where
  "con_ev e v = v\<lparr>out := out v @ [e]\<rparr>"

section \<open>Cursor, lines and screen\<close>

definition wscroll :: "int \<Rightarrow> vc \<Rightarrow> vc" where
  "wscroll dir v = con_ev (VScroll (scroll_top v) (scroll_bottom v) dir 1) v"

definition lf :: "vc \<Rightarrow> vc" where
  "lf v =
     (if cury v < scroll_bottom v then v\<lparr>cury := cury v + 1\<rparr>
      else if cury v = scroll_bottom v \<and> vt_doscroll v then wscroll S_UP v
      else v)"

definition cr :: "vc \<Rightarrow> vc" where
  "cr v = v\<lparr>curx := 0\<rparr>"

definition bs :: "vc \<Rightarrow> vc" where
  "bs v = (if curx v \<noteq> 0 then v\<lparr>curx := curx v - 1\<rparr> else v)"

definition locate_curs :: "int \<Rightarrow> int \<Rightarrow> vc \<Rightarrow> vc" where
  "locate_curs x y v =
     (let x1 = (if x < 0 then 0 else x); x2 = (if x1 \<ge> vt_xs v then vt_xs v - 1 else x1);
          y1 = (if y < 0 then 0 else y); y2 = (if y1 \<ge> vt_ys v then vt_ys v - 1 else y1) in
      v\<lparr>curx := x2, cury := y2\<rparr>)"

definition set_scrl_reg :: "int \<Rightarrow> int \<Rightarrow> vc \<Rightarrow> vc" where
  "set_scrl_reg tp bottom v =
     (let t1 = (if tp < 0 then 0 else tp);
          b1 = (if bottom \<ge> vt_ys v then vt_ys v - 1 else bottom) in
      if t1 \<ge> b1 then v\<lparr>scroll_top := 0, scroll_bottom := s16 (vt_ys v - 1)\<rparr>
      else v\<lparr>scroll_top := s16 t1, scroll_bottom := s16 b1\<rparr>)"

definition wsetfgcol :: "int \<Rightarrow> vc \<Rightarrow> vc" where
  "wsetfgcol col v = con_ev (VColor col (vt_bg v)) (v\<lparr>vt_fg := col\<rparr>)"

definition wsetbgcol :: "int \<Rightarrow> vc \<Rightarrow> vc" where
  "wsetbgcol col v = con_ev (VColor (vt_fg v) col) (v\<lparr>vt_bg := col\<rparr>)"

text \<open>Blanks from column \<open>a\<close> to before column \<open>b\<close> of line \<open>y\<close>.\<close>

definition wblanks :: "int \<Rightarrow> int \<Rightarrow> int \<Rightarrow> vc \<Rightarrow> vc" where
  "wblanks a b y v = fold (\<lambda>x. con_ev (VPutc 32 x y)) [a..b - 1] v"

definition wclrch :: "int \<Rightarrow> vc \<Rightarrow> vc" where
  "wclrch y v = wblanks 0 (vt_xs v) y v"

definition wclreol :: "vc \<Rightarrow> vc" where
  "wclreol v = wblanks (curx v) (vt_xs v) (cury v) v"

definition wclrel :: "vc \<Rightarrow> vc" where
  "wclrel v = wblanks 0 (curx v + 1) (cury v) v"

definition wclreos :: "vc \<Rightarrow> vc" where
  "wclreos v = fold wclrch [cury v + 1..vt_ys v - 1] (wclreol v)"

definition wclrbos :: "vc \<Rightarrow> vc" where
  "wclrbos v = wclrel (fold wclrch [0..cury v - 1] v)"

definition winclr :: "vc \<Rightarrow> vc" where
  "winclr v = (con_ev (VClear 0 0 (vt_ys v) (vt_xs v)) v)\<lparr>curx := 0, cury := 0\<rparr>"

text \<open>\<open>wputc\<close> takes a \<open>char\<close>, which is signed.\<close>

definition wputc :: "int \<Rightarrow> vc \<Rightarrow> vc" where
  "wputc c v =
     (let v1 = (if c = 10 \<or> (curx v \<ge> vt_xs v \<and> vt_wrap v) then
                  (let a = (if c \<noteq> 10 then v\<lparr>curx := 0\<rparr> else v);
                       b = a\<lparr>cury := cury a + 1\<rparr>;
                       d = (if cury b > scroll_bottom b then
                              (if vt_doscroll b then wscroll S_UP b else b)\<lparr>cury := scroll_bottom b\<rparr>
                            else b) in
                   if cury d \<ge> vt_ys d then d\<lparr>cury := vt_ys d - 1\<rparr> else d)
                else v) in
      if c \<noteq> 10 then
        (let c1 = (if \<not> vt_wrap v1 \<and> curx v1 \<ge> vt_xs v1 then 62 else c);
             v2 = con_ev (VPutc c1 (curx v1) (cury v1)) v1;
             v3 = v2\<lparr>curx := curx v2 + 1\<rparr> in
         if curx v3 \<ge> vt_xs v3 \<and> \<not> vt_wrap v3 then v3\<lparr>curx := 0\<rparr> else v3)
      else v1)"

definition winsnchar :: "int \<Rightarrow> int \<Rightarrow> vc \<Rightarrow> vc" where
  "winsnchar c n v =
     (let avail = vt_xs v - curx v;
          k = (if n > avail then avail else n);
          v1 = (if curx v + k < vt_xs v
                then con_ev (VMove (cury v) (curx v) (cury v) (curx v + k) 1 (vt_xs v - curx v - k)) v
                else v);
          v2 = con_ev (VClear (cury v) (curx v) 1 k) v1 in
      fold (\<lambda>i. con_ev (VPutc c (curx v + i) (cury v))) [0..k - 1] v2)"

definition winsline :: "vc \<Rightarrow> vc" where
  "winsline v =
     (if cury v < scroll_top v \<or> cury v > scroll_bottom v then v
      else
        (let v1 = (if cury v < scroll_bottom v
                   then con_ev (VMove (cury v) 0 (cury v + 1) 0 (scroll_bottom v - cury v) (vt_xs v)) v
                   else v) in
         con_ev (VClear (cury v) 0 1 (vt_xs v)) v1))"

definition wdelline :: "vc \<Rightarrow> vc" where
  "wdelline v =
     (if cury v < scroll_top v \<or> cury v > scroll_bottom v then v
      else
        (let v1 = (if cury v < scroll_bottom v
                   then con_ev (VMove (cury v + 1) 0 (cury v) 0 (scroll_bottom v - cury v) (vt_xs v)) v
                   else v) in
         con_ev (VClear (scroll_bottom v) 0 1 (vt_xs v)) v1))"

definition wdelchar :: "vc \<Rightarrow> vc" where
  "wdelchar v =
     (let v1 = (if curx v < vt_xs v - 1
                then con_ev (VMove (cury v) (curx v + 1) (cury v) (curx v) 1 (vt_xs v - curx v - 1)) v
                else v) in
      con_ev (VClear (cury v) (vt_xs v - 1) 1 1) v1)"

definition winschar :: "vc \<Rightarrow> vc" where
  "winschar v = winsnchar 32 1 v"

definition wputs :: "int list \<Rightarrow> vc \<Rightarrow> vc" where
  "wputs cs v = fold wputc cs v"

definition save_cursor :: "vc \<Rightarrow> vc" where
  "save_cursor v = v\<lparr>savex := curx v, savey := cury v, saveattr := sint (attr v), save_fg := vt_fg v,
     save_bg := vt_bg v, savecharset := vt_charset v, savetrans := vt_trans v\<rparr>"

definition restore_cursor :: "vc \<Rightarrow> vc" where
  "restore_cursor v =
     (let v1 = wsetbgcol (save_bg v) (wsetfgcol (save_fg v)
                 (v\<lparr>vt_charset := savecharset v, vt_trans := savetrans v\<rparr>)) in
      locate_curs (savex v) (savey v) (v1\<lparr>attr := word_of_int (saveattr v)\<rparr>))"

section \<open>Escape sequences\<close>

text \<open>
  A step of the state machine returns the console and, when the code calls \<open>v_termout\<close> for a
  report, the bytes of the report and what the code does after it.
\<close>

type_synonym vt_step = "vc \<times> (u8 list \<times> (vc \<Rightarrow> vc)) option"

definition done_esc :: "vc \<Rightarrow> vc" where
  "done_esc v = v\<lparr>esc_s := 0\<rparr>"

definition set_tab :: "vc \<Rightarrow> vc" where
  "set_tab v =
     (let x = (if s16 (curx v) > 159 then 159 else nat (s16 (curx v))) in
      v\<lparr>vt_tabs := (vt_tabs v)[x div 32 := set_bit (x mod 32) (vt_tabs v ! (x div 32))]\<rparr>)"

definition clear_tab :: "vc \<Rightarrow> vc" where
  "clear_tab v =
     (let x = (if s16 (curx v) > 159 then 159 else nat (s16 (curx v))) in
      v\<lparr>vt_tabs := (vt_tabs v)[x div 32 := unset_bit (x mod 32) (vt_tabs v ! (x div 32))]\<rparr>)"

definition state1 :: "u8 \<Rightarrow> vc \<Rightarrow> vt_step" where
  "state1 c v =
     (if c = 91 then (v\<lparr>esc_s := 2\<rparr>, None)
      else if c = 40 then (v\<lparr>esc_s := 4\<rparr>, None)
      else if c = 41 then (v\<lparr>esc_s := 5\<rparr>, None)
      else if c = 35 then (v\<lparr>esc_s := 6\<rparr>, None)
      else if c = 80 then (v\<lparr>esc_s := 7\<rparr>, None)
      else if c = 93 then (v\<lparr>esc_s := 8\<rparr>, None)
      else if c = 68 then
        (let y = s16 (cury v + 1) in
         (done_esc (if y = scroll_bottom v + 1 then wscroll S_UP v
                    else if cury v < vt_ys v then locate_curs (s16 (curx v)) y v else v), None))
      else if c = 77 then
        (let y = s16 (cury v - 1) in
         (done_esc (if y = scroll_top v - 1 then wscroll S_DOWN v
                    else if y \<ge> 0 then locate_curs (s16 (curx v)) y v else v), None))
      else if c = 69 then (done_esc (wputs [13, 10] v), None)
      else if c = 55 \<or> c = 115 then (done_esc (save_cursor v), None)
      else if c = 56 \<or> c = 117 then (done_esc (restore_cursor v), None)
      else if c = 61 then (done_esc (v\<lparr>vt_keypad := signed_take_bit 1 2\<rparr>), None)
      else if c = 62 then (done_esc (v\<lparr>vt_keypad := signed_take_bit 1 1\<rparr>), None)
      else if c = 90 then (v, Some ([27, 91, 63, 49, 59, 48, 99], done_esc))
      else if c = 99 then
        (done_esc (locate_curs 0 0 (v\<lparr>attr := 0, vt_wrap := True, vt_insert := False, vt_crlf := False\<rparr>)), None)
      else if c = 72 then (done_esc (set_tab v), None)
      else (done_esc v, None))"

definition parms :: "vc \<Rightarrow> int list" where
  "parms v = take (Suc (ptr v)) (escparms v)"

definition ansi_mode :: "bool \<Rightarrow> vc \<Rightarrow> vc" where
  "ansi_mode on v =
     fold (\<lambda>p u. if p = 4 then u\<lparr>vt_insert := on\<rparr> else if p = 20 then u\<lparr>vt_crlf := on\<rparr> else u) (parms v) v"

text \<open>A digit goes into the current parameter; the products wrap at 32 bits.\<close>

definition add_digit :: "u8 \<Rightarrow> vc \<Rightarrow> vc" where
  "add_digit c v = v\<lparr>escparms := (escparms v)[ptr v := s32 (s32 (10 * (escparms v ! ptr v)) + uint c - 48)]\<rparr>"

definition reset_seq :: "vc \<Rightarrow> vc" where
  "reset_seq v = v\<lparr>esc_s := 0, ptr := 0, escparms := replicate 8 0\<rparr>"

text \<open>A parameter as a \<open>short\<close>, and with zero read as one.\<close>

definition parm :: "nat \<Rightarrow> vc \<Rightarrow> int" where
  "parm i v = s16 (escparms v ! i)"

definition parm1 :: "nat \<Rightarrow> vc \<Rightarrow> int" where
  "parm1 i v = (if parm i v = 0 then 1 else parm i v)"

definition move_cursor :: "u8 \<Rightarrow> vc \<Rightarrow> vc" where
  "move_cursor c v =
     (let f = parm1 0 v;
          x0 = s16 (s16 (curx v) + f * ((if c = 67 then 1 else 0) - (if c = 68 then 1 else 0)));
          x1 = (if x0 < 0 then 0 else x0);
          x2 = (if x1 \<ge> vt_xs v then s16 (vt_xs v - 1) else x1);
          y0 = s16 (cury v);
          y1 = (if c = 66 then
                  (let a = s16 (y0 + f); b = (if a \<ge> vt_ys v then s16 (vt_ys v - 1) else a) in
                   if b \<ge> scroll_bottom v + 1 then scroll_bottom v else b)
                else if c = 65 then
                  (let a = s16 (y0 - f); b = (if a < 0 then 0 else a) in
                   if b \<le> scroll_top v - 1 then scroll_top v else b)
                else y0) in
      locate_curs x2 y1 v)"

definition erase_chars :: "int \<Rightarrow> vc \<Rightarrow> vc" where
  "erase_chars f v = wblanks (curx v) (min (curx v + f) (vt_xs v)) (cury v) v"

definition sgr :: "int \<Rightarrow> int \<times> vc \<Rightarrow> int \<times> vc" where
  "sgr p av = (case av of (a, v) \<Rightarrow>
     let v1 = (if 30 \<le> p \<and> p \<le> 37 then wsetfgcol (p - 30) v else v);
         v2 = (if 40 \<le> p \<and> p \<le> 47 then wsetbgcol (p - 40) v1 else v1) in
     if p = 0 then (XA_NORMAL, wsetbgcol (vt_bg v2) (wsetfgcol (vt_fg v2) v2))
     else if p = 1 then (or a 2, v2)
     else if p = 4 then (or a 16, v2)
     else if p = 5 then (or a 1, v2)
     else if p = 7 then (or a 4, v2)
     else if p = 22 then (and a (not 2), v2)
     else if p = 24 then (and a (not 16), v2)
     else if p = 25 then (and a (not 1), v2)
     else if p = 27 then (and a (not 4), v2)
     else if p = 39 then (a, wsetfgcol (vt_fg v2) v2)
     else if p = 49 then (a, wsetbgcol (vt_bg v2) v2)
     else (a, v2))"

definition set_attributes :: "vc \<Rightarrow> vc" where
  "set_attributes v =
     (case fold sgr (parms v) (s16 (uint (attr v)), v) of (a, u) \<Rightarrow> u\<lparr>attr := word_of_int a\<rparr>)"

fun digits10 :: "nat \<Rightarrow> u8 list" where
  "digits10 n = (if n < 10 then [of_nat (48 + n)] else digits10 (n div 10) @ [of_nat (48 + n mod 10)])"

definition cursor_report :: "vc \<Rightarrow> u8 list" where
  "cursor_report v =
     [27, 91] @ digits10 (nat (cury v + 1)) @ [59] @ digits10 (nat (curx v + 1)) @ [82]"

definition terminal_parameters :: "vc \<Rightarrow> u8 list" where
  "terminal_parameters v =
     [27, 91, if escparms v ! 0 = 1 then 51 else 50, 59, 49, 59, 49, 59, 49, 50, 48, 59, 49, 50, 48,
      59, 49, 59, 48, 120]"

definition erase_screen :: "vc \<Rightarrow> vc" where
  "erase_screen v =
     (let v1 = (if vt_type v = ANSI
                then wsetbgcol BLACK (wsetfgcol WHITE (v\<lparr>attr := 0\<rparr>)) else v) in
      if escparms v1 ! 0 = 0 then wclreos v1
      else if escparms v1 ! 0 = 1 then wclrbos v1
      else if escparms v1 ! 0 = 2 then winclr v1 else v1)"

definition erase_line :: "vc \<Rightarrow> vc" where
  "erase_line v =
     (if escparms v ! 0 = 0 then wclreol v
      else if escparms v ! 0 = 1 then wclrel v
      else if escparms v ! 0 = 2 then wclrch (cury v) v else v)"

text \<open>The functions of a control sequence that send no report.\<close>

definition csi_action :: "u8 \<Rightarrow> vc \<Rightarrow> vc" where
  "csi_action c v =
     (if c = 65 \<or> c = 66 \<or> c = 67 \<or> c = 68 then move_cursor c v
      else if c = 88 then erase_chars (parm1 0 v) v
      else if c = 75 then erase_line v
      else if c = 74 then erase_screen v
      else if c = 115 then save_cursor v
      else if c = 117 then restore_cursor v
      else if c = 104 then ansi_mode True v
      else if c = 108 then ansi_mode False v
      else if c = 72 \<or> c = 102 then
        (let y = (if vt_om v then s16 (parm1 0 v + scroll_top v) else parm1 0 v) in
         locate_curs (parm1 1 v - 1) (y - 1) v)
      else if c = 71 \<or> c = 96 then locate_curs (parm1 1 v - 1) (cury v) v
      else if c = 103 then
        (let v1 = (if escparms v ! 0 = 0 then clear_tab v else v) in
         if escparms v ! 0 = 3 then v1\<lparr>vt_tabs := replicate 5 0\<rparr> else v1)
      else if c = 109 then set_attributes v
      else if c = 76 then (winsline ^^ nat (parm1 0 v)) v
      else if c = 77 then (wdelline ^^ nat (parm1 0 v)) v
      else if c = 80 then (wdelchar ^^ nat (parm1 0 v)) v
      else if c = 64 then (winschar ^^ nat (parm1 0 v)) v
      else if c = 114 then
        (let v1 = set_scrl_reg (escparms v ! 0) (escparms v ! 1) v in
         locate_curs 0 (scroll_top v1) v1)
      else v)"

definition state2 :: "u8 \<Rightarrow> vc \<Rightarrow> vt_step" where
  "state2 c v =
     (if 48 \<le> c \<and> c \<le> 57 then (add_digit c v, None)
      else if c = 59 then ((if ptr v < 7 then v\<lparr>ptr := ptr v + 1\<rparr> else v), None)
      else if escparms v ! 0 = 0 \<and> ptr v = 0 \<and> c = 63 then (v\<lparr>esc_s := 3\<rparr>, None)
      else if c = 110 \<and> escparms v ! 0 = 5 then (v, Some ([27, 91, 48, 110], reset_seq))
      else if c = 110 \<and> escparms v ! 0 = 6 then (v, Some (cursor_report v, reset_seq))
      else if c = 99 then (v, Some ([27, 91, 63, 49, 59, 50, 99], reset_seq))
      else if c = 120 then (v, Some (terminal_parameters v, reset_seq))
      else (reset_seq (csi_action c v), None))"

definition dec_mode :: "bool \<Rightarrow> vc \<Rightarrow> vc" where
  "dec_mode on v =
     fold (\<lambda>p u.
        if p = 1 then u\<lparr>vt_cursor_mode := signed_take_bit 1 (if on then 2 else 1)\<rparr>
        else if p = 6 then (let u1 = u\<lparr>vt_om := on\<rparr> in locate_curs 0 (scroll_top u1) u1)
        else if p = 7 then u\<lparr>vt_wrap := on\<rparr>
        else if p = 25 then u\<lparr>vt_cursor_on := on\<rparr>
        else u) (parms v) v"

definition state3 :: "u8 \<Rightarrow> vc \<Rightarrow> vc" where
  "state3 c v =
     (if 48 \<le> c \<and> c \<le> 57 then add_digit c v
      else reset_seq (if c = 104 then dec_mode True v else if c = 108 then dec_mode False v else v))"

definition state4 :: "u8 \<Rightarrow> vc \<Rightarrow> vc" where
  "state4 c v = done_esc
     (if c = 65 \<or> c = 66 then v\<lparr>vt_trans := (vt_trans v)[0 := Some 0]\<rparr>
      else if c = 48 \<or> c = 79 then v\<lparr>vt_trans := (vt_trans v)[0 := Some 1]\<rparr> else v)"

definition state5 :: "u8 \<Rightarrow> vc \<Rightarrow> vc" where
  "state5 c v = done_esc
     (if c = 65 \<or> c = 66 then v\<lparr>vt_trans := (vt_trans v)[1 := Some 0]\<rparr>
      else if c = 79 \<or> c = 48 then v\<lparr>vt_trans := (vt_trans v)[1 := Some 1]\<rparr> else v)"

definition state6 :: "u8 \<Rightarrow> vc \<Rightarrow> vc" where
  "state6 c v = done_esc
     (if c = 56 then
        (let v1 = locate_curs 0 0 (v\<lparr>vt_doscroll := False\<rparr>);
             v2 = fold (\<lambda>y u. (wputc 69 ^^ nat (vt_xs u)) (locate_curs 0 y u)) [0..vt_ys v - 1] v1 in
         (locate_curs 0 0 v2)\<lparr>vt_doscroll := True\<rparr>)
      else v)"

definition state7 :: "u8 \<Rightarrow> vc \<Rightarrow> vc" where
  "state7 c v =
     (if c = ESC then v\<lparr>dcs_esc := True\<rparr>
      else if dcs_esc v then
        (let s = dcs_buf v; u = v\<lparr>dcs_buf := [], dcs_esc := False, esc_s := 0\<rparr> in
         if c \<noteq> 92 then u
         else if s = [99, 117, 114, 115, 111, 114, 46, 111, 110] then u\<lparr>vt_cursor_on := True\<rparr>
         else if s = [99, 117, 114, 115, 111, 114, 46, 111, 102, 102] then u\<lparr>vt_cursor_on := False\<rparr>
         else if s = [108, 105, 110, 101, 119, 114, 97, 112, 46, 111, 110] then u\<lparr>vt_wrap := True\<rparr>
         else if s = [108, 105, 110, 101, 119, 114, 97, 112, 46, 111, 102, 102] then u\<lparr>vt_wrap := False\<rparr>
         else u)
      else if length (dcs_buf v) > 15 then v
      else v\<lparr>dcs_buf := dcs_buf v @ [c]\<rparr>)"

definition state8 :: "u8 \<Rightarrow> vc \<Rightarrow> vc" where
  "state8 c v =
     (if c = 7 then v\<lparr>osc_esc := False, esc_s := 0\<rparr>
      else if c = ESC then v\<lparr>osc_esc := True\<rparr>
      else if c = 92 \<and> osc_esc v then v\<lparr>osc_esc := False, esc_s := 0\<rparr>
      else v\<lparr>osc_esc := False\<rparr>)"

section \<open>Output\<close>

definition next_tab :: "vc \<Rightarrow> int" where
  "next_tab v =
     (case List.find (\<lambda>f. bit (vt_tabs v ! nat (f div 32)) (nat (f mod 32))) [curx v + 1..159] of
        Some f \<Rightarrow> f
      | None \<Rightarrow> max (curx v + 1) 160)"

text \<open>Control characters act in any state: \<open>None\<close> when the character goes to the state machine.\<close>

definition vt_control :: "u8 \<Rightarrow> vc \<Rightarrow> vc option" where
  "vt_control c v =
     (if c = 5 then Some v
      else if c = 13 then Some (let u = cr v in if vt_addlf u then lf u else u)
      else if c = 9 then
        (let f = next_tab v in Some (locate_curs (if f \<ge> vt_xs v then vt_xs v - 1 else f) (cury v) v))
      else if c = 11 then Some (locate_curs (curx v) (cury v - 1) v)
      else if c = 12 then Some (locate_curs 0 0 (winclr v))
      else if c = 14 then Some (v\<lparr>vt_charset := 1\<rparr>)
      else if c = 15 then Some (v\<lparr>vt_charset := 0\<rparr>)
      else if c = 24 \<or> c = 26 then Some (v\<lparr>esc_s := 0\<rparr>)
      else if c = ESC then Some (v\<lparr>esc_s := 1\<rparr>)
      else if c = 155 then Some (v\<lparr>esc_s := 2\<rparr>)
      else if c = 10 then Some (lf (if vt_addcr v then cr v else v))
      else if c = 8 then Some (bs v)
      else if c = 7 then (if esc_s v = 8 then None else Some v)
      else None)"

definition vt_char :: "u8 \<Rightarrow> vc \<Rightarrow> vt_step" where
  "vt_char c v =
     (if c = 0 then (v, None)
      else case vt_control c v of
          Some u \<Rightarrow> (u, None)
        | None \<Rightarrow>
            if esc_s v = 0 then
              ((if vt_insert v then winsnchar (sint c) 1 v else wputc (sint c) v), None)
            else if esc_s v = 1 then state1 c v
            else if esc_s v = 2 then state2 c v
            else if esc_s v = 3 then (state3 c v, None)
            else if esc_s v = 4 then (state4 c v, None)
            else if esc_s v = 5 then (state5 c v, None)
            else if esc_s v = 6 then (state6 c v, None)
            else if esc_s v = 7 then (state7 c v, None)
            else if esc_s v = 8 then (state8 c v, None)
            else (v, None))"

definition con_cursor :: "int \<Rightarrow> vc \<Rightarrow> vc" where
  "con_cursor mode v = con_ev (VCursor mode (curx v) (cury v)) v"

text \<open>
  The loop of \<open>v_termout\<close> with \<open>vt_out\<close>.  A report runs it again, on the console in the
  middle of its escape sequence; \<open>None\<close> is a call that never returns.
\<close>

partial_function (option) vt_outs :: "u8 list \<Rightarrow> vc \<Rightarrow> vc option" where
  "vt_outs cs v =
     (case cs of
        [] \<Rightarrow> Some v
      | c # cs1 \<Rightarrow>
          (case vt_char c v of
             (u, None) \<Rightarrow> vt_outs cs1 u
           | (u, Some (rep, fin)) \<Rightarrow>
               Option.bind (vt_outs rep (con_cursor 2 u)) (\<lambda>u1. vt_outs cs1 (fin (con_cursor 1 u1)))))"

declare vt_outs.simps [code]

definition v_termout :: "u8 list \<Rightarrow> vc \<Rightarrow> vc option" where
  "v_termout s v = map_option (con_cursor 1) (vt_outs s (con_cursor 2 v))"

definition vt_write :: "u8 list \<Rightarrow> vc \<Rightarrow> (int \<times> vc) option" where
  "vt_write buf v = map_option (\<lambda>u. (int (length buf), u)) (v_termout buf v)"

definition vt_open :: "bool \<Rightarrow> vc \<Rightarrow> int \<times> vc" where
  "vt_open opened v = (0, if opened then v else con_ev (VClear 0 0 (vt_ys v) (vt_xs v)) v)"

definition vt_ioctl :: "int \<Rightarrow> vc \<Rightarrow> int" where
  "vt_ioctl cmd v = - EINVAL"

section \<open>The frame buffer console\<close>

text \<open>
  What \<open>fbcon_ops\<close> makes of a call, for a console with a frame buffer and a font: clears and moves
  of rectangles of character cells, and glyphs.
\<close>

datatype fb_op =
    FbClear int int int int
  | FbMove int int int int int int
  | FbGlyph int int int
  | FbColor int int
  | FbInvert int int

definition fbcon_clear_region :: "int \<Rightarrow> int \<Rightarrow> int \<Rightarrow> int \<Rightarrow> fb_op list" where
  "fbcon_clear_region row col h w = (if h \<le> 0 \<or> w \<le> 0 then [] else [FbClear row col h w])"

definition fbcon_move_chars :: "int \<Rightarrow> int \<Rightarrow> int \<Rightarrow> int \<Rightarrow> int \<Rightarrow> int \<Rightarrow> fb_op list" where
  "fbcon_move_chars sy sx dy dx h w = (if h \<le> 0 \<or> w \<le> 0 then [] else [FbMove sy sx dy dx h w])"

definition fbcon_putc :: "vc \<Rightarrow> int \<Rightarrow> int \<Rightarrow> int \<Rightarrow> fb_op list" where
  "fbcon_putc v c x y =
     (if x < 0 \<or> x \<ge> vt_xs v \<or> y < 0 \<or> y \<ge> vt_ys v then [] else [FbGlyph (c mod 2 ^ 16) x y])"

definition fbcon_scroll :: "vc \<Rightarrow> int \<Rightarrow> int \<Rightarrow> int \<Rightarrow> int \<Rightarrow> fb_op list" where
  "fbcon_scroll v tp bottom dir lines =
     (if lines \<le> 0 then []
      else if dir = S_UP then
        (if tp + lines \<le> bottom
         then fbcon_move_chars (tp + lines) 0 tp 0 (bottom - tp - lines + 1) (vt_xs v) else [])
        @ fbcon_clear_region (bottom - lines + 1) 0 lines (vt_xs v)
      else if dir = S_DOWN then
        (if tp + lines \<le> bottom
         then fbcon_move_chars tp 0 (tp + lines) 0 (bottom - tp - lines + 1) (vt_xs v) else [])
        @ fbcon_clear_region tp 0 lines (vt_xs v)
      else [])"

definition fbcon_cursor :: "vc \<Rightarrow> int \<Rightarrow> int \<Rightarrow> fb_op list" where
  "fbcon_cursor v cx cy =
     (if cx < 0 \<or> cx \<ge> vt_xs v \<or> cy < 0 \<or> cy \<ge> vt_ys v then [] else [FbInvert cx cy])"

definition fbcon_ops :: "vc \<Rightarrow> vt_event \<Rightarrow> fb_op list" where
  "fbcon_ops v e =
     (case e of
        VClear y x h w \<Rightarrow> fbcon_clear_region y x h w
      | VPutc c x y \<Rightarrow> fbcon_putc v c x y
      | VScroll tp b d n \<Rightarrow> fbcon_scroll v tp b d n
      | VMove sy sx dy dx h w \<Rightarrow> fbcon_move_chars sy sx dy dx h w
      | VColor fg bg \<Rightarrow> [FbColor fg bg]
      | VCursor m x y \<Rightarrow> fbcon_cursor v x y)"

section \<open>The console stays in its bounds\<close>

definition rect_in :: "vc \<Rightarrow> int \<Rightarrow> int \<Rightarrow> int \<Rightarrow> int \<Rightarrow> bool" where
  "rect_in v y x h w \<longleftrightarrow> 0 \<le> y \<and> 0 \<le> x \<and> y + h \<le> vt_ys v \<and> x + w \<le> vt_xs v"

definition op_in :: "vc \<Rightarrow> fb_op \<Rightarrow> bool" where
  "op_in v o1 \<longleftrightarrow>
     (case o1 of
        FbClear y x h w \<Rightarrow> rect_in v y x h w
      | FbMove sy sx dy dx h w \<Rightarrow> rect_in v sy sx h w \<and> rect_in v dy dx h w
      | FbGlyph c x y \<Rightarrow> rect_in v y x 1 1
      | FbColor fg bg \<Rightarrow> True
      | FbInvert x y \<Rightarrow> rect_in v y x 1 1)"

definition ev_in :: "vc \<Rightarrow> vt_event \<Rightarrow> bool" where
  "ev_in v e \<longleftrightarrow> list_all (op_in v) (fbcon_ops v e)"

definition vt_ok :: "vc \<Rightarrow> bool" where
  "vt_ok v \<longleftrightarrow> 0 < vt_xs v \<and> vt_xs v \<le> 32767 \<and> 0 < vt_ys v \<and> vt_ys v \<le> 32767
     \<and> 0 \<le> curx v \<and> curx v \<le> vt_xs v \<and> 0 \<le> cury v \<and> cury v < vt_ys v
     \<and> 0 \<le> scroll_top v \<and> scroll_top v \<le> scroll_bottom v \<and> scroll_bottom v < vt_ys v
     \<and> ptr v < 8 \<and> length (escparms v) = 8 \<and> length (vt_tabs v) = 5 \<and> length (dcs_buf v) \<le> 16
     \<and> list_all (ev_in v) (out v)"

text \<open>The size of the screen does not change.\<close>

definition same_size :: "vc \<Rightarrow> vc \<Rightarrow> bool" where
  "same_size v u \<longleftrightarrow> vt_xs u = vt_xs v \<and> vt_ys u = vt_ys v"

lemma ev_in_cong: "same_size v u \<Longrightarrow> ev_in u = ev_in v"
proof -
  assume s: "same_size v u"
  then have "op_in u = op_in v"
    by (auto simp: same_size_def op_in_def rect_in_def fun_eq_iff split: fb_op.splits)
  moreover from s have "fbcon_ops u = fbcon_ops v"
    by (auto simp: same_size_def fbcon_ops_def fbcon_putc_def fbcon_scroll_def fbcon_cursor_def
        fun_eq_iff split: vt_event.splits)
  ultimately show ?thesis by (intro ext) (simp only: ev_in_def)
qed

lemma ev_in_upd [simp]:
  "ev_in (v\<lparr>esc_s := a0\<rparr>) = ev_in v"
  "ev_in (v\<lparr>vt_type := a1\<rparr>) = ev_in v" "ev_in (v\<lparr>attr := a2\<rparr>) = ev_in v"
  "ev_in (v\<lparr>vt_fg := a3\<rparr>) = ev_in v" "ev_in (v\<lparr>vt_bg := a4\<rparr>) = ev_in v"
  "ev_in (v\<lparr>vt_trans := a5\<rparr>) = ev_in v"
  "ev_in (v\<lparr>vt_charset := a6\<rparr>) = ev_in v"
  "ev_in (v\<lparr>vt_wrap := a7\<rparr>) = ev_in v"
  "ev_in (v\<lparr>vt_addlf := a8\<rparr>) = ev_in v"
  "ev_in (v\<lparr>vt_addcr := a9\<rparr>) = ev_in v"
  "ev_in (v\<lparr>vt_keypad := a10\<rparr>) = ev_in v"
  "ev_in (v\<lparr>vt_cursor_mode := a11\<rparr>) = ev_in v"
  "ev_in (v\<lparr>vt_cursor_on := a12\<rparr>) = ev_in v"
  "ev_in (v\<lparr>vt_insert := a13\<rparr>) = ev_in v"
  "ev_in (v\<lparr>vt_crlf := a14\<rparr>) = ev_in v"
  "ev_in (v\<lparr>vt_om := a15\<rparr>) = ev_in v"
  "ev_in (v\<lparr>vt_doscroll := a16\<rparr>) = ev_in v"
  "ev_in (v\<lparr>savex := a17\<rparr>) = ev_in v"
  "ev_in (v\<lparr>savey := a18\<rparr>) = ev_in v"
  "ev_in (v\<lparr>saveattr := a19\<rparr>) = ev_in v"
  "ev_in (v\<lparr>save_fg := a20\<rparr>) = ev_in v"
  "ev_in (v\<lparr>save_bg := a21\<rparr>) = ev_in v"
  "ev_in (v\<lparr>savecharset := a22\<rparr>) = ev_in v"
  "ev_in (v\<lparr>savetrans := a23\<rparr>) = ev_in v"
  "ev_in (v\<lparr>dcs_esc := a24\<rparr>) = ev_in v"
  "ev_in (v\<lparr>osc_esc := a25\<rparr>) = ev_in v"
  "ev_in (v\<lparr>curx := ax0\<rparr>) = ev_in v" "ev_in (v\<lparr>cury := ax1\<rparr>) = ev_in v"
  "ev_in (v\<lparr>escparms := ax2\<rparr>) = ev_in v"
  "ev_in (v\<lparr>ptr := ax3\<rparr>) = ev_in v"
  "ev_in (v\<lparr>vt_tabs := ax4\<rparr>) = ev_in v"
  "ev_in (v\<lparr>scroll_top := ax5\<rparr>) = ev_in v"
  "ev_in (v\<lparr>scroll_bottom := ax6\<rparr>) = ev_in v"
  "ev_in (v\<lparr>dcs_buf := ax7\<rparr>) = ev_in v"
  "ev_in (v\<lparr>out := ax8\<rparr>) = ev_in v"
  by (rule ev_in_cong, simp add: same_size_def)+

lemma vt_ok_upd [simp]:
  "vt_ok (v\<lparr>esc_s := a0\<rparr>) = vt_ok v"
  "vt_ok (v\<lparr>vt_type := a1\<rparr>) = vt_ok v" "vt_ok (v\<lparr>attr := a2\<rparr>) = vt_ok v"
  "vt_ok (v\<lparr>vt_fg := a3\<rparr>) = vt_ok v" "vt_ok (v\<lparr>vt_bg := a4\<rparr>) = vt_ok v"
  "vt_ok (v\<lparr>vt_trans := a5\<rparr>) = vt_ok v"
  "vt_ok (v\<lparr>vt_charset := a6\<rparr>) = vt_ok v"
  "vt_ok (v\<lparr>vt_wrap := a7\<rparr>) = vt_ok v"
  "vt_ok (v\<lparr>vt_addlf := a8\<rparr>) = vt_ok v"
  "vt_ok (v\<lparr>vt_addcr := a9\<rparr>) = vt_ok v"
  "vt_ok (v\<lparr>vt_keypad := a10\<rparr>) = vt_ok v"
  "vt_ok (v\<lparr>vt_cursor_mode := a11\<rparr>) = vt_ok v"
  "vt_ok (v\<lparr>vt_cursor_on := a12\<rparr>) = vt_ok v"
  "vt_ok (v\<lparr>vt_insert := a13\<rparr>) = vt_ok v"
  "vt_ok (v\<lparr>vt_crlf := a14\<rparr>) = vt_ok v"
  "vt_ok (v\<lparr>vt_om := a15\<rparr>) = vt_ok v"
  "vt_ok (v\<lparr>vt_doscroll := a16\<rparr>) = vt_ok v"
  "vt_ok (v\<lparr>savex := a17\<rparr>) = vt_ok v"
  "vt_ok (v\<lparr>savey := a18\<rparr>) = vt_ok v"
  "vt_ok (v\<lparr>saveattr := a19\<rparr>) = vt_ok v"
  "vt_ok (v\<lparr>save_fg := a20\<rparr>) = vt_ok v"
  "vt_ok (v\<lparr>save_bg := a21\<rparr>) = vt_ok v"
  "vt_ok (v\<lparr>savecharset := a22\<rparr>) = vt_ok v"
  "vt_ok (v\<lparr>savetrans := a23\<rparr>) = vt_ok v"
  "vt_ok (v\<lparr>dcs_esc := a24\<rparr>) = vt_ok v"
  "vt_ok (v\<lparr>osc_esc := a25\<rparr>) = vt_ok v"
  by (simp_all add: vt_ok_def)

lemma vt_okD:
  assumes "vt_ok v"
  shows "0 < vt_xs v" "vt_xs v \<le> 32767" "0 < vt_ys v" "vt_ys v \<le> 32767" "0 \<le> curx v" "curx v \<le> vt_xs v"
    "0 \<le> cury v" "cury v < vt_ys v" "0 \<le> scroll_top v" "scroll_top v \<le> scroll_bottom v"
    "scroll_bottom v < vt_ys v" "ptr v < 8" "length (escparms v) = 8"
  using assms by (simp_all add: vt_ok_def)

lemma con_ev_ok: "vt_ok v \<Longrightarrow> ev_in v e \<Longrightarrow> vt_ok (con_ev e v)"
  by (simp add: vt_ok_def con_ev_def)

lemma con_ev_sel [simp]:
  "vt_xs (con_ev e v) = vt_xs v" "vt_ys (con_ev e v) = vt_ys v" "esc_s (con_ev e v) = esc_s v"
  "vt_type (con_ev e v) = vt_type v" "attr (con_ev e v) = attr v" "vt_fg (con_ev e v) = vt_fg v"
  "vt_bg (con_ev e v) = vt_bg v" "vt_trans (con_ev e v) = vt_trans v"
  "vt_charset (con_ev e v) = vt_charset v" "vt_wrap (con_ev e v) = vt_wrap v"
  "vt_addlf (con_ev e v) = vt_addlf v" "vt_addcr (con_ev e v) = vt_addcr v"
  "vt_keypad (con_ev e v) = vt_keypad v" "vt_cursor_mode (con_ev e v) = vt_cursor_mode v"
  "vt_cursor_on (con_ev e v) = vt_cursor_on v" "vt_insert (con_ev e v) = vt_insert v"
  "vt_crlf (con_ev e v) = vt_crlf v" "vt_om (con_ev e v) = vt_om v"
  "vt_doscroll (con_ev e v) = vt_doscroll v" "savex (con_ev e v) = savex v"
  "savey (con_ev e v) = savey v" "saveattr (con_ev e v) = saveattr v"
  "save_fg (con_ev e v) = save_fg v" "save_bg (con_ev e v) = save_bg v"
  "savecharset (con_ev e v) = savecharset v" "savetrans (con_ev e v) = savetrans v"
  "dcs_esc (con_ev e v) = dcs_esc v" "osc_esc (con_ev e v) = osc_esc v" "curx (con_ev e v) = curx v"
  "cury (con_ev e v) = cury v" "escparms (con_ev e v) = escparms v" "ptr (con_ev e v) = ptr v"
  "vt_tabs (con_ev e v) = vt_tabs v" "scroll_top (con_ev e v) = scroll_top v"
  "scroll_bottom (con_ev e v) = scroll_bottom v" "dcs_buf (con_ev e v) = dcs_buf v"
  by (simp_all add: con_ev_def)

text \<open>When a call of the frame buffer console stays on the screen.\<close>

lemma ev_in_simps:
  "ev_in v (VColor fg bg)"
  "ev_in v (VPutc c x y)"
  "ev_in v (VCursor m x y)"
  "ev_in v (VClear y x h w) \<longleftrightarrow> h \<le> 0 \<or> w \<le> 0 \<or> rect_in v y x h w"
  "ev_in v (VMove sy sx dy dx h w) \<longleftrightarrow> h \<le> 0 \<or> w \<le> 0 \<or> (rect_in v sy sx h w \<and> rect_in v dy dx h w)"
  "0 < vt_xs v \<Longrightarrow> 0 \<le> tp \<Longrightarrow> tp \<le> b \<Longrightarrow> b < vt_ys v \<Longrightarrow> ev_in v (VScroll tp b d 1)"
  by (auto simp: ev_in_def fbcon_ops_def fbcon_putc_def fbcon_cursor_def fbcon_clear_region_def
      fbcon_move_chars_def fbcon_scroll_def op_in_def rect_in_def)

lemma con_ev_fold:
  "vt_ok v \<Longrightarrow> (\<And>i. i \<in> set is \<Longrightarrow> ev_in v (g i)) \<Longrightarrow>
   vt_ok (fold (\<lambda>i. con_ev (g i)) is v) \<and> same_size v (fold (\<lambda>i. con_ev (g i)) is v)"
proof (induction "is" arbitrary: v)
  case Nil
  then show ?case by (simp add: same_size_def)
next
  case (Cons i "is")
  let ?u = "con_ev (g i) v"
  have "vt_ok ?u" by (rule con_ev_ok) (simp_all add: Cons.prems)
  moreover have "ev_in ?u = ev_in v" by (rule ev_in_cong) (simp add: same_size_def)
  ultimately show ?case using Cons.IH [of ?u] Cons.prems(2) by (simp add: same_size_def)
qed

text \<open>Repeating and sequencing operations that keep the console in its bounds.\<close>

lemma vt_ok_fold: "vt_ok v \<Longrightarrow> (\<And>i u. vt_ok u \<Longrightarrow> vt_ok (f i u)) \<Longrightarrow> vt_ok (fold f is v)"
  by (induction "is" arbitrary: v) auto

lemma vt_ok_funpow: "vt_ok v \<Longrightarrow> (\<And>u. vt_ok u \<Longrightarrow> vt_ok (f u)) \<Longrightarrow> vt_ok ((f ^^ n) v)"
  by (induction n) auto

lemma locate_curs_ok: "vt_ok v \<Longrightarrow> vt_ok (locate_curs x y v)"
  by (auto simp: vt_ok_def locate_curs_def Let_def)

lemma wscroll_ok: "vt_ok v \<Longrightarrow> vt_ok (wscroll d v)"
  unfolding wscroll_def by (rule con_ev_ok) (auto simp: vt_ok_def intro!: ev_in_simps(6))

lemma lf_ok: "vt_ok v \<Longrightarrow> vt_ok (lf v)"
  using wscroll_ok [of v S_UP] by (auto simp: lf_def vt_ok_def)

lemma cr_ok: "vt_ok v \<Longrightarrow> vt_ok (cr v)"
  by (auto simp: cr_def vt_ok_def)

lemma bs_ok: "vt_ok v \<Longrightarrow> vt_ok (bs v)"
  by (auto simp: bs_def vt_ok_def)

lemma s16_id: "- 32768 \<le> i \<Longrightarrow> i < 32768 \<Longrightarrow> s16 i = i"
  unfolding s16_def by (rule signed_take_bit_int_eq_self) simp_all

lemma set_scrl_reg_ok: "vt_ok v \<Longrightarrow> vt_ok (set_scrl_reg a b v)"
  by (auto simp: set_scrl_reg_def Let_def vt_ok_def s16_id)

lemma wcolor_ok: "vt_ok v \<Longrightarrow> vt_ok (wsetfgcol c v)" "vt_ok v \<Longrightarrow> vt_ok (wsetbgcol c v)"
  by (auto simp: wsetfgcol_def wsetbgcol_def ev_in_simps intro!: con_ev_ok)

lemma wblanks_ok: "vt_ok v \<Longrightarrow> vt_ok (wblanks a b y v)"
  unfolding wblanks_def using con_ev_fold [of v _ "\<lambda>x. VPutc 32 x y"] by (simp add: ev_in_simps)

lemma wclr_ok:
  "vt_ok v \<Longrightarrow> vt_ok (wclrch y v)" "vt_ok v \<Longrightarrow> vt_ok (wclreol v)" "vt_ok v \<Longrightarrow> vt_ok (wclrel v)"
  by (simp_all add: wclrch_def wclreol_def wclrel_def wblanks_ok)

lemma wclrs_ok: "vt_ok v \<Longrightarrow> vt_ok (wclreos v)" "vt_ok v \<Longrightarrow> vt_ok (wclrbos v)"
  by (simp_all add: wclreos_def wclrbos_def wclr_ok vt_ok_fold)

lemma winclr_ok: "vt_ok v \<Longrightarrow> vt_ok (winclr v)"
proof -
  assume v: "vt_ok v"
  then have "vt_ok (con_ev (VClear 0 0 (vt_ys v) (vt_xs v)) v)"
    by (intro con_ev_ok) (auto simp: ev_in_simps rect_in_def)
  with v show ?thesis by (simp add: winclr_def vt_ok_def)
qed

lemma wputc_ok: "vt_ok v \<Longrightarrow> vt_ok (wputc c v)"
proof -
  assume v: "vt_ok v"
  let ?a = "if c \<noteq> 10 then v\<lparr>curx := 0\<rparr> else v"
  let ?b = "?a\<lparr>cury := cury ?a + 1\<rparr>"
  let ?d = "if cury ?b > scroll_bottom ?b then
      (if vt_doscroll ?b then wscroll S_UP ?b else ?b)\<lparr>cury := scroll_bottom ?b\<rparr> else ?b"
  let ?e = "if cury ?d \<ge> vt_ys ?d then ?d\<lparr>cury := vt_ys ?d - 1\<rparr> else ?d"
  let ?w = "c = 10 \<or> (curx v \<ge> vt_xs v \<and> vt_wrap v)"
  have ev: "ev_in v (VScroll (scroll_top v) (scroll_bottom v) S_UP 1)"
    using v by (intro ev_in_simps(6)) (auto simp: vt_ok_def)
  have e: "vt_ok ?e" "?w \<Longrightarrow> c \<noteq> 10 \<Longrightarrow> curx ?e < vt_xs ?e"
    using v ev by (auto simp: vt_ok_def wscroll_def con_ev_def)
  define v1 where "v1 = (if ?w then ?e else v)"
  have v1: "vt_ok v1" "c \<noteq> 10 \<Longrightarrow> curx v1 < vt_xs v1 \<or> \<not> vt_wrap v1"
    using v e by (auto simp: v1_def)
  have "vt_ok (con_ev (VPutc c1 (curx v1) (cury v1)) v1)" for c1
    using v1 by (intro con_ev_ok) (simp_all add: ev_in_simps)
  with v1 have "vt_ok (if c \<noteq> 10 then
        (let c1 = (if \<not> vt_wrap v1 \<and> curx v1 \<ge> vt_xs v1 then 62 else c);
             v2 = con_ev (VPutc c1 (curx v1) (cury v1)) v1;
             v3 = v2\<lparr>curx := curx v2 + 1\<rparr> in
         if curx v3 \<ge> vt_xs v3 \<and> \<not> vt_wrap v3 then v3\<lparr>curx := 0\<rparr> else v3)
      else v1)"
    by (auto simp: Let_def vt_ok_def)
  then show ?thesis unfolding wputc_def Let_def v1_def .
qed

lemma winsnchar_ok: "vt_ok v \<Longrightarrow> 0 \<le> n \<Longrightarrow> vt_ok (winsnchar c n v)"
proof -
  assume v: "vt_ok v" and n: "0 \<le> n"
  note b = vt_okD [OF v]
  define k where "k = (if n > vt_xs v - curx v then vt_xs v - curx v else n)"
  have k: "0 \<le> k" "curx v + k \<le> vt_xs v" using b n by (auto simp: k_def)
  let ?v1 = "if curx v + k < vt_xs v
      then con_ev (VMove (cury v) (curx v) (cury v) (curx v + k) 1 (vt_xs v - curx v - k)) v else v"
  have v1: "vt_ok ?v1" "same_size v ?v1" "cury ?v1 = cury v" "curx ?v1 = curx v"
    using v b k by (auto simp: ev_in_simps rect_in_def same_size_def intro!: con_ev_ok)
  let ?v2 = "con_ev (VClear (cury v) (curx v) 1 k) ?v1"
  have "ev_in v (VClear (cury v) (curx v) 1 k)"
    using b k by (auto simp: ev_in_simps rect_in_def)
  then have v2: "vt_ok ?v2" using v1 ev_in_cong [OF v1(2)] by (intro con_ev_ok) simp_all
  have "vt_ok (fold (\<lambda>i. con_ev (VPutc c (curx v + i) (cury v))) [0..k - 1] ?v2)"
    using con_ev_fold [OF v2, of "[0..k - 1]" "\<lambda>i. VPutc c (curx v + i) (cury v)"] by (simp add: ev_in_simps)
  then show ?thesis unfolding winsnchar_def Let_def k_def .
qed

lemma winsline_ok: "vt_ok v \<Longrightarrow> vt_ok (winsline v)"
proof -
  assume v: "vt_ok v"
  let ?m = "con_ev (VMove (cury v) 0 (cury v + 1) 0 (scroll_bottom v - cury v) (vt_xs v)) v"
  have m: "vt_ok ?m" if "cury v < scroll_bottom v" "scroll_top v \<le> cury v"
    using v vt_okD [OF v] that by (intro con_ev_ok) (auto simp: ev_in_simps rect_in_def)
  have "ev_in u (VClear (cury v) 0 1 (vt_xs v))" if "same_size v u" for u
    using vt_okD [OF v] unfolding ev_in_cong [OF that] by (auto simp: ev_in_simps rect_in_def)
  then have "vt_ok (con_ev (VClear (cury v) 0 1 (vt_xs v)) u)" if "vt_ok u" "same_size v u" for u
    using that by (intro con_ev_ok)
  with m v show ?thesis by (simp add: winsline_def Let_def same_size_def)
qed

lemma wdelline_ok: "vt_ok v \<Longrightarrow> vt_ok (wdelline v)"
proof -
  assume v: "vt_ok v"
  let ?m = "con_ev (VMove (cury v + 1) 0 (cury v) 0 (scroll_bottom v - cury v) (vt_xs v)) v"
  have m: "vt_ok ?m" if "cury v < scroll_bottom v" "scroll_top v \<le> cury v"
    using v vt_okD [OF v] that by (intro con_ev_ok) (auto simp: ev_in_simps rect_in_def)
  have "ev_in u (VClear (scroll_bottom v) 0 1 (vt_xs v))" if "same_size v u" for u
    using vt_okD [OF v] unfolding ev_in_cong [OF that] by (auto simp: ev_in_simps rect_in_def)
  then have "vt_ok (con_ev (VClear (scroll_bottom v) 0 1 (vt_xs v)) u)" if "vt_ok u" "same_size v u" for u
    using that by (intro con_ev_ok)
  with m v show ?thesis by (simp add: wdelline_def Let_def same_size_def)
qed

lemma wdelchar_ok: "vt_ok v \<Longrightarrow> vt_ok (wdelchar v)"
proof -
  assume v: "vt_ok v"
  let ?m = "con_ev (VMove (cury v) (curx v + 1) (cury v) (curx v) 1 (vt_xs v - curx v - 1)) v"
  have m: "vt_ok ?m"
    using v vt_okD [OF v] by (intro con_ev_ok) (auto simp: ev_in_simps rect_in_def)
  have "ev_in u (VClear (cury v) (vt_xs v - 1) 1 1)" if "same_size v u" for u
    using vt_okD [OF v] unfolding ev_in_cong [OF that] by (auto simp: ev_in_simps rect_in_def)
  then have "vt_ok (con_ev (VClear (cury v) (vt_xs v - 1) 1 1) u)" if "vt_ok u" "same_size v u" for u
    using that by (intro con_ev_ok)
  with m v show ?thesis by (simp add: wdelchar_def Let_def same_size_def)
qed

lemma save_restore_ok: "vt_ok v \<Longrightarrow> vt_ok (save_cursor v)" "vt_ok v \<Longrightarrow> vt_ok (restore_cursor v)"
  by (auto simp: save_cursor_def restore_cursor_def Let_def intro!: locate_curs_ok wcolor_ok)

lemmas vt_prims_ok = locate_curs_ok wscroll_ok lf_ok cr_ok bs_ok set_scrl_reg_ok wcolor_ok wclr_ok
  wclrs_ok winclr_ok wputc_ok winsline_ok wdelline_ok wdelchar_ok save_restore_ok

lemma winschar_ok: "vt_ok v \<Longrightarrow> vt_ok (winschar v)"
  by (simp add: winschar_def winsnchar_ok)

lemma done_esc_ok [simp]: "vt_ok (done_esc v) = vt_ok v"
  by (simp add: done_esc_def)

lemma reset_seq_ok: "vt_ok v \<Longrightarrow> vt_ok (reset_seq v)"
  by (auto simp: reset_seq_def vt_ok_def)

lemma tabs_ok: "vt_ok v \<Longrightarrow> vt_ok (set_tab v)" "vt_ok v \<Longrightarrow> vt_ok (clear_tab v)"
  by (auto simp: set_tab_def clear_tab_def Let_def vt_ok_def)

lemma modes_ok: "vt_ok v \<Longrightarrow> vt_ok (ansi_mode b v)" "vt_ok v \<Longrightarrow> vt_ok (dec_mode b v)"
  by (auto simp: ansi_mode_def dec_mode_def Let_def intro!: vt_ok_fold locate_curs_ok)

lemma add_digit_ok: "vt_ok v \<Longrightarrow> vt_ok (add_digit c v)"
  by (auto simp: add_digit_def vt_ok_def)

lemma sgr_ok: "vt_ok (snd av) \<Longrightarrow> vt_ok (snd (sgr p av))"
  by (cases av) (simp add: sgr_def Let_def wcolor_ok)

lemma set_attributes_ok: "vt_ok v \<Longrightarrow> vt_ok (set_attributes v)"
proof -
  assume v: "vt_ok v"
  have "vt_ok (snd av) \<Longrightarrow> vt_ok (snd (fold sgr ps av))" for ps av
    by (induction ps arbitrary: av) (simp_all add: sgr_ok)
  from this [of "(s16 (uint (attr v)), v)" "parms v"] v show ?thesis
    by (auto simp: set_attributes_def split: prod.splits)
qed

lemma erase_ok: "vt_ok v \<Longrightarrow> vt_ok (erase_screen v)" "vt_ok v \<Longrightarrow> vt_ok (erase_line v)"
  "vt_ok v \<Longrightarrow> vt_ok (erase_chars f v)"
  by (simp_all add: erase_screen_def erase_line_def erase_chars_def Let_def vt_prims_ok wblanks_ok)

lemma csi_action_ok: "vt_ok v \<Longrightarrow> vt_ok (csi_action c v)"
proof -
  assume v: "vt_ok v"
  have z: "vt_ok w \<Longrightarrow> vt_ok (w\<lparr>vt_tabs := replicate 5 0\<rparr>)" for w by (simp add: vt_ok_def)
  show ?thesis using v
    by (simp add: z csi_action_def move_cursor_def Let_def vt_prims_ok erase_ok modes_ok set_attributes_ok
        tabs_ok vt_ok_funpow winschar_ok)
qed

lemma state1_ok: "vt_ok v \<Longrightarrow> vt_ok (fst (state1 c v))"
  by (simp add: state1_def Let_def wputs_def vt_prims_ok vt_ok_fold tabs_ok)

lemma state2_ok: "vt_ok v \<Longrightarrow> vt_ok (fst (state2 c v))"
proof -
  assume v: "vt_ok v"
  then have "ptr v < 7 \<Longrightarrow> vt_ok (v\<lparr>ptr := ptr v + 1\<rparr>)" by (simp add: vt_ok_def)
  with v show ?thesis by (simp add: state2_def add_digit_ok reset_seq_ok csi_action_ok)
qed

lemma report_fin_ok:
  "state1 c v = (u, Some (rep, fin)) \<Longrightarrow> vt_ok w \<Longrightarrow> vt_ok (fin w)"
  "state2 c v = (u, Some (rep, fin)) \<Longrightarrow> vt_ok w \<Longrightarrow> vt_ok (fin w)"
  by (auto simp: state1_def state2_def Let_def reset_seq_ok split: if_splits)

lemma states_ok:
  "vt_ok v \<Longrightarrow> vt_ok (state3 c v)" "vt_ok v \<Longrightarrow> vt_ok (state4 c v)" "vt_ok v \<Longrightarrow> vt_ok (state5 c v)"
  "vt_ok v \<Longrightarrow> vt_ok (state6 c v)" "vt_ok v \<Longrightarrow> vt_ok (state7 c v)" "vt_ok v \<Longrightarrow> vt_ok (state8 c v)"
proof -
  assume v: "vt_ok v"
  show "vt_ok (state3 c v)" "vt_ok (state4 c v)" "vt_ok (state5 c v)" "vt_ok (state8 c v)"
    using v by (simp_all add: state3_def state4_def state5_def state8_def add_digit_ok reset_seq_ok modes_ok)
  show "vt_ok (state6 c v)"
    using v by (auto simp: state6_def Let_def intro!: locate_curs_ok vt_ok_fold vt_ok_funpow wputc_ok)
  show "vt_ok (state7 c v)"
    using v by (auto simp: state7_def Let_def vt_ok_def)
qed

lemma vt_control_ok: "vt_ok v \<Longrightarrow> vt_control c v = Some u \<Longrightarrow> vt_ok u"
  by (auto simp: vt_control_def Let_def vt_prims_ok split: if_splits)

lemma vt_char_ok: "vt_ok v \<Longrightarrow> vt_ok (fst (vt_char c v))"
  using vt_control_ok [of v c]
  by (auto simp: vt_char_def winsnchar_ok wputc_ok state1_ok state2_ok states_ok split: option.splits)

lemma vt_char_fin_ok: "vt_char c v = (u, Some (rep, fin)) \<Longrightarrow> vt_ok w \<Longrightarrow> vt_ok (fin w)"
  by (auto simp: vt_char_def split: if_splits option.splits intro: report_fin_ok)

lemma con_cursor_ok: "vt_ok v \<Longrightarrow> vt_ok (con_cursor m v)"
  unfolding con_cursor_def by (rule con_ev_ok) (simp_all add: ev_in_simps)

lemma vt_outs_ok:
  assumes "vt_outs cs v = Some u"
  shows "vt_ok v \<longrightarrow> vt_ok u"
proof (rule vt_outs.raw_induct [OF _ assms])
  fix f cs v u
  assume ih: "\<And>cs v u. f cs v = Some u \<Longrightarrow> vt_ok v \<longrightarrow> vt_ok u"
    and b: "(case cs of [] \<Rightarrow> Some v
      | c # cs1 \<Rightarrow> (case vt_char c v of (u, None) \<Rightarrow> f cs1 u
         | (u, Some (rep, fin)) \<Rightarrow>
             Option.bind (f rep (con_cursor 2 u)) (\<lambda>u1. f cs1 (fin (con_cursor 1 u1))))) = Some u"
  show "vt_ok v \<longrightarrow> vt_ok u"
  proof (cases cs)
    case Nil
    with b show ?thesis by simp
  next
    case (Cons c cs1)
    obtain w r where w: "vt_char c v = (w, r)" by fastforce
    have wok: "vt_ok v \<Longrightarrow> vt_ok w" using vt_char_ok [of v c] w by simp
    show ?thesis
    proof (cases r)
      case None
      with Cons w b ih [of cs1 w u] wok show ?thesis by simp
    next
      case (Some rf)
      obtain rep fin where rf: "rf = (rep, fin)" by fastforce
      with b Cons w Some obtain u1 where u1: "f rep (con_cursor 2 w) = Some u1"
        and u: "f cs1 (fin (con_cursor 1 u1)) = Some u" by (auto split: Option.bind_splits)
      from ih [OF u1] ih [OF u] wok vt_char_fin_ok [of c v w rep fin] w Some rf con_cursor_ok
      show ?thesis by blast
    qed
  qed
qed

section \<open>Output that returns, and output that does not\<close>

text \<open>Characters that are handled without a report.\<close>

primrec quiet_run :: "u8 list \<Rightarrow> vc \<Rightarrow> vc option" where
  "quiet_run [] v = Some v"
| "quiet_run (c # cs) v =
     (case vt_char c v of (u, None) \<Rightarrow> quiet_run cs u | (u, Some _) \<Rightarrow> None)"

lemma quiet_run_outs: "quiet_run cs v = Some u \<Longrightarrow> vt_outs cs v = Some u"
proof (induction cs arbitrary: v)
  case Nil
  then show ?case by (simp add: vt_outs.simps)
next
  case (Cons c cs)
  then show ?case by (subst vt_outs.simps) (auto split: prod.splits option.splits)
qed

definition report_char :: "u8 \<Rightarrow> bool" where
  "report_char c \<longleftrightarrow> c = 90 \<or> c = 99 \<or> c = 110 \<or> c = 120"

lemma vt_char_quiet: "\<not> report_char c \<Longrightarrow> snd (vt_char c v) = None"
  by (auto simp: vt_char_def report_char_def state1_def state2_def Let_def split: option.splits)

lemma quiet_run_total: "\<forall>c \<in> set cs. \<not> report_char c \<Longrightarrow> \<exists>u. quiet_run cs v = Some u"
proof (induction cs arbitrary: v)
  case (Cons c cs)
  then have "snd (vt_char c v) = None" by (simp add: vt_char_quiet)
  then obtain u where "vt_char c v = (u, None)" by (metis prod.collapse)
  with Cons show ?case by simp
qed simp

text \<open>The parameters of a control sequence are read without a report.\<close>

lemma vt_char_parm:
  "esc_s v = 2 \<Longrightarrow> 48 \<le> c \<and> c \<le> 57 \<or> c = 59 \<Longrightarrow> \<exists>u. vt_char c v = (u, None) \<and> esc_s u = 2"
  by (auto simp: vt_char_def vt_control_def state2_def add_digit_def)

lemma quiet_run_parms:
  "esc_s v = 2 \<Longrightarrow> \<forall>c \<in> set cs. 48 \<le> c \<and> c \<le> 57 \<or> c = 59 \<Longrightarrow>
   \<exists>u. quiet_run cs v = Some u \<and> esc_s u = 2"
proof (induction cs arbitrary: v)
  case (Cons c cs)
  then obtain u where u: "vt_char c v = (u, None)" "esc_s u = 2" using vt_char_parm [of v c] by auto
  from Cons.IH [OF u(2)] Cons.prems(2) u show ?case by simp
qed simp

lemma quiet_run_csi:
  "\<forall>c \<in> set cs. 48 \<le> c \<and> c \<le> 57 \<or> c = 59 \<Longrightarrow>
   \<exists>u. quiet_run (27 # 91 # cs) v = Some u \<and> esc_s u = 2"
proof -
  assume cs: "\<forall>c \<in> set cs. 48 \<le> c \<and> c \<le> 57 \<or> c = 59"
  have 1: "vt_char 27 v = (v\<lparr>esc_s := 1\<rparr>, None)" by (simp add: vt_char_def vt_control_def)
  have 2: "vt_char 91 (v\<lparr>esc_s := 1\<rparr>) = (v\<lparr>esc_s := 2\<rparr>, None)"
    by (simp add: vt_char_def vt_control_def state1_def)
  from quiet_run_parms [of "v\<lparr>esc_s := 2\<rparr>" cs] cs 1 2 show ?thesis by simp
qed

text \<open>Answering a request for the terminal parameters makes the request again.\<close>

lemma parameter_request_diverges:
  assumes "vt_outs cs v = Some u"
  shows "\<forall>pre rest w. \<not> (cs = pre @ 120 # rest \<and> quiet_run pre v = Some w \<and> esc_s w = 2)"
proof (rule vt_outs.raw_induct [OF _ assms])
  fix f :: "u8 list \<Rightarrow> vc \<Rightarrow> vc option" and cs v u
  assume ih: "\<And>cs v u. f cs v = Some u \<Longrightarrow>
      \<forall>pre rest w. \<not> (cs = pre @ 120 # rest \<and> quiet_run pre v = Some w \<and> esc_s w = 2)"
    and b: "(case cs of [] \<Rightarrow> Some v
      | c # cs1 \<Rightarrow> (case vt_char c v of (u, None) \<Rightarrow> f cs1 u
         | (u, Some (rep, fin)) \<Rightarrow>
             Option.bind (f rep (con_cursor 2 u)) (\<lambda>u1. f cs1 (fin (con_cursor 1 u1))))) = Some u"
  show "\<forall>pre rest w. \<not> (cs = pre @ 120 # rest \<and> quiet_run pre v = Some w \<and> esc_s w = 2)"
  proof (intro allI notI)
    fix pre rest w
    assume a: "cs = pre @ 120 # rest \<and> quiet_run pre v = Some w \<and> esc_s w = 2"
    show False
    proof (cases pre)
      case Nil
      let ?ps = "[if escparms v ! 0 = 1 then 51 else 50, 59, 49, 59, 49, 59, 49, 50, 48, 59, 49, 50, 48, 59, 49, 59, 48 :: u8]"
      have ps: "\<forall>c \<in> set ?ps. 48 \<le> c \<and> c \<le> 57 \<or> c = 59" by simp
      have "vt_char 120 v = (v, Some (terminal_parameters v, reset_seq))"
        using a Nil by (simp add: vt_char_def vt_control_def state2_def)
      with a b Nil obtain u1 where u1: "f (terminal_parameters v) (con_cursor 2 v) = Some u1"
        by (auto split: Option.bind_splits)
      moreover have "terminal_parameters v = (27 # 91 # ?ps) @ 120 # []"
        by (simp add: terminal_parameters_def)
      moreover obtain w1 where "quiet_run (27 # 91 # ?ps) (con_cursor 2 v) = Some w1" "esc_s w1 = 2"
        using quiet_run_csi [OF ps] by blast
      ultimately show False using ih [OF u1] by blast
    next
      case (Cons p ps)
      with a obtain v1 where v1: "vt_char p v = (v1, None)" "quiet_run ps v1 = Some w"
        by (auto split: prod.splits option.splits)
      with a b Cons have "f (ps @ 120 # rest) v1 = Some u" by simp
      from ih [OF this] v1 a show False by blast
    qed
  qed
qed

section \<open>Properties\<close>

lemma vt_cons_ok: "vt_ok vt_cons"
  by (simp add: vt_ok_def vt_cons_def)

text \<open>
  C12. Whatever bytes are written to a console, as long as the write returns, the cursor, the
  scrolling region and the indices into the parameter arrays stay in their bounds, and every clear,
  move and glyph the frame buffer is asked for lies on the screen.  A write returns whenever its bytes
  hold no letter that can ask for a report.
\<close>

theorem console_stays_on_screen:
  assumes "vt_ok v"
  shows "(vt_write buf v = Some (n, u) \<longrightarrow> n = int (length buf) \<and> vt_ok u)
    \<and> ((\<forall>c \<in> set buf. \<not> report_char c) \<longrightarrow> (\<exists>u. vt_write buf v = Some (int (length buf), u)))"
proof (intro conjI impI)
  assume w: "vt_write buf v = Some (n, u)"
  then obtain u1 where u1: "vt_outs buf (con_cursor 2 v) = Some u1" "u = con_cursor 1 u1" "n = int (length buf)"
    by (auto simp: vt_write_def v_termout_def)
  with vt_outs_ok [OF u1(1)] con_cursor_ok assms show "vt_ok u" "n = int (length buf)" by simp_all
next
  assume "\<forall>c \<in> set buf. \<not> report_char c"
  then obtain u1 where "quiet_run buf (con_cursor 2 v) = Some u1" using quiet_run_total by blast
  from quiet_run_outs [OF this] show "\<exists>u. vt_write buf v = Some (int (length buf), u)"
    by (simp add: vt_write_def v_termout_def)
qed

theorem console_stays_on_screen_witness:
  "\<exists>u. vt_write [27, 91, 50, 74, 65, 66] vt_cons = Some (6, u) \<and> vt_ok u"
proof -
  let ?b = "[27, 91, 50, 74, 65, 66] :: u8 list"
  have "\<forall>c \<in> set ?b. \<not> report_char c" by (simp add: report_char_def)
  with console_stays_on_screen [OF vt_cons_ok, of ?b 0 vt_cons] obtain u where
    u: "vt_write ?b vt_cons = Some (6, u)" by auto
  with console_stays_on_screen [OF vt_cons_ok, of ?b 6 u] show ?thesis by simp
qed

text \<open>
  C13. A write of the request for the terminal parameters, \<open>ESC [ x\<close>, never returns, whatever the
  console and whatever follows: the report is written to the console itself and ends in the letter
  that asks for it.
\<close>

theorem parameter_request_never_returns:
  "vt_write (27 # 91 # 120 # rest) v = None"
proof (rule ccontr)
  assume "vt_write (27 # 91 # 120 # rest) v \<noteq> None"
  then obtain u where u: "vt_outs ([27, 91] @ 120 # rest) (con_cursor 2 v) = Some u"
    by (auto simp: vt_write_def v_termout_def)
  obtain w where "quiet_run [27, 91] (con_cursor 2 v) = Some w" "esc_s w = 2"
    using quiet_run_csi [of "[]" "con_cursor 2 v"] by (force simp del: quiet_run.simps)
  with parameter_request_diverges [OF u] show False by blast
qed

end
