(* ===== verification/Clock.thy ===== *)
theory Clock imports Signals "HOL-Library.Signed_Division" begin

text \<open>
  Time: the calendar date of the system time, the timer events with \<open>usleep\<close> and \<open>alarm\<close>
  (\<open>kernel/time.c\<close>, \<open>lilac/timer_event.h\<close>, \<open>lilac/timer.h\<close>).

  What \<open>get_sys_time_ns\<close> returns is an argument.  Times are natural numbers; 2^64 nanoseconds are
  584 years of running time.
\<close>

section \<open>The date\<close>

record timestamp =
  ts_year :: nat
  ts_month :: nat
  ts_day :: nat
  ts_hour :: nat
  ts_minute :: nat
  ts_second :: nat

definition is_leap_year :: "nat \<Rightarrow> bool" where
  "is_leap_year y \<longleftrightarrow> (y mod 4 = 0 \<and> y mod 100 \<noteq> 0) \<or> y mod 400 = 0"

definition days_in_months :: "int list" where
  "days_in_months = [31, 30, 31, 30, 31, 31, 31, 30, 31, 30, 31, 31]"

text \<open>\<open>None\<close> is a read past the array.\<close>

definition days_in_month :: "nat \<Rightarrow> nat \<Rightarrow> int option" where
  "days_in_month m y =
     (if m = 2 then Some (if is_leap_year y then 29 else 28)
      else if 1 \<le> m \<and> m \<le> 12 then Some (days_in_months ! (m - 1)) else None)"

definition year_secs :: "nat \<Rightarrow> int" where
  "year_secs y = (if is_leap_year y then 31622400 else 31536000)"

text \<open>The loops of \<open>unix_time_to_date\<close>; the year is 16 bits wide, the other fields 8.\<close>

function year_loop :: "int \<Rightarrow> nat \<Rightarrow> int \<times> nat" where
  "year_loop r y = (if r \<ge> year_secs y then year_loop (r - year_secs y) ((y + 1) mod 2 ^ 16) else (r, y))"
  by auto
termination by (relation "measure (\<lambda>(r, y). nat r)") (auto simp: year_secs_def split: if_splits)

lemma days_in_month_pos: "days_in_month m y = Some d \<Longrightarrow> 28 \<le> d"
proof -
  have "\<forall>n < 12. 28 \<le> days_in_months ! n" by (simp add: days_in_months_def All_less_Suc numeral_eq_Suc)
  then show "days_in_month m y = Some d \<Longrightarrow> 28 \<le> d"
    by (auto simp: days_in_month_def split: if_splits)
qed

function month_loop :: "int \<Rightarrow> nat \<Rightarrow> nat \<Rightarrow> (int \<times> nat) option" where
  "month_loop r m y =
     (case days_in_month m y of
        None \<Rightarrow> None
      | Some d \<Rightarrow> if r \<ge> d * 24 * 60 * 60 then month_loop (r - d * 24 * 60 * 60) ((m + 1) mod 2 ^ 8) y
                  else Some (r, m))"
  by auto
termination by (relation "measure (\<lambda>(r, m, y). nat r)") (auto dest: days_in_month_pos)

function day_loop :: "int \<Rightarrow> nat \<Rightarrow> int \<times> nat" where
  "day_loop r d = (if r \<ge> 24 * 60 * 60 then day_loop (r - 24 * 60 * 60) ((d + 1) mod 2 ^ 8) else (r, d))"
  by auto
termination by (relation "measure (\<lambda>(r, y). nat r)") auto

declare year_loop.simps [simp del] month_loop.simps [simp del] day_loop.simps [simp del]

definition unix_time_to_date :: "int \<Rightarrow> timestamp option" where
  "unix_time_to_date t =
     (case year_loop t 1970 of (r1, y) \<Rightarrow>
      case month_loop r1 1 y of None \<Rightarrow> None
      | Some (r2, m) \<Rightarrow>
        (case day_loop r2 1 of (r3, d) \<Rightarrow>
         let r4 = r3 smod 3600 in
         Some \<lparr>ts_year = y, ts_month = m, ts_day = d, ts_hour = nat ((r3 sdiv 3600) mod 256),
               ts_minute = nat ((r4 sdiv 60) mod 256), ts_second = nat ((r4 smod 60) mod 256)\<rparr>))"

definition get_unix_time :: "int \<Rightarrow> nat \<Rightarrow> int" where
  "get_unix_time boot_unix_time sys_ns = boot_unix_time + int (sys_ns div 1000000000)"

definition get_timestamp :: "int \<Rightarrow> nat \<Rightarrow> timestamp option" where
  "get_timestamp boot_unix_time sys_ns = unix_time_to_date (get_unix_time boot_unix_time sys_ns)"

text \<open>\<open>time\<close>: the result, and what is stored; \<open>ok\<close> is \<open>access_ok\<close> of a pointer, if given.\<close>

definition sys_time :: "bool option \<Rightarrow> int \<Rightarrow> nat \<Rightarrow> int \<times> int option" where
  "sys_time ok boot_unix_time sys_ns =
     (let ret = get_unix_time boot_unix_time sys_ns in
      case ok of None \<Rightarrow> (ret, None) | Some b \<Rightarrow> if b then (ret, Some ret) else (- EFAULT, None))"

text \<open>\<open>gettimeofday\<close>: seconds and microseconds.\<close>

definition sys_gettimeofday :: "int \<Rightarrow> nat \<Rightarrow> int \<times> nat" where
  "sys_gettimeofday boot_unix_time sys_ns =
     (boot_unix_time + int (sys_ns div 1000000000), sys_ns div 1000 mod 1000000)"

section \<open>The calendar\<close>

text \<open>The true lengths of the months, and the month and day of a day of the year.\<close>

definition month_lengths :: "bool \<Rightarrow> nat list" where
  "month_lengths leap = [31, if leap then 29 else 28, 31, 30, 31, 30, 31, 31, 30, 31, 30, 31]"

fun calendar :: "nat list \<Rightarrow> nat \<Rightarrow> nat \<Rightarrow> nat \<times> nat" where
  "calendar [] m d = (m, d + 1)"
| "calendar (l # ls) m d = (if d < l then (m, d + 1) else calendar ls (m + 1) (d - l))"

definition year_days :: "nat \<Rightarrow> nat" where
  "year_days y = (if is_leap_year y then 366 else 365)"

definition days_before :: "nat \<Rightarrow> nat" where
  "days_before y = (\<Sum>i \<in> {1970..<y}. year_days i)"

lemma days_before_Suc: "1970 \<le> y \<Longrightarrow> days_before (Suc y) = days_before y + year_days y"
  by (simp add: days_before_def)

lemma year_loop_spec:
  "1970 \<le> y \<Longrightarrow> 0 \<le> r \<Longrightarrow> int y + r div 31536000 < 65536 \<Longrightarrow> year_loop r y = (r', y') \<Longrightarrow>
   y \<le> y' \<and> 0 \<le> r' \<and> r' < int (year_days y') * 86400 \<and>
   r + int (days_before y) * 86400 = r' + int (days_before y') * 86400"
proof (induction r y rule: year_loop.induct)
  case (1 r y)
  have ys: "year_secs y = int (year_days y) * 86400" by (simp add: year_secs_def year_days_def)
  show ?case
  proof (cases "r \<ge> year_secs y")
    case False
    with 1(4,5) 1(3) ys show ?thesis by (auto simp: year_loop.simps [of r y])
  next
    case True
    have ge: "r \<ge> 31536000" using True by (auto simp: year_secs_def split: if_splits)
    then have dv: "1 \<le> r div 31536000" by simp
    with 1(4) have lt: "y + 1 < 2 ^ 16" by simp
    have "(r - year_secs y) div 31536000 \<le> (r - 31536000) div 31536000"
      by (rule zdiv_mono1) (auto simp: year_secs_def)
    also have "\<dots> = r div 31536000 - 1" using ge by simp
    finally have "int (y + 1) + (r - year_secs y) div 31536000 < 65536" using 1(4) by simp
    with 1 True lt have ih: "y + 1 \<le> y' \<and> 0 \<le> r' \<and> r' < int (year_days y') * 86400 \<and>
      r - year_secs y + int (days_before (y + 1)) * 86400 = r' + int (days_before y') * 86400"
      by (simp add: year_loop.simps [of r y])
    with 1(2) ys show ?thesis by (simp add: days_before_Suc algebra_simps)
  qed
qed

text \<open>The lengths of the months as the code has them.\<close>

definition code_lengths :: "bool \<Rightarrow> nat list" where
  "code_lengths leap = [31, if leap then 29 else 28, 31, 30, 31, 31, 31, 30, 31, 30, 31, 31]"

lemma days_in_month_table:
  "1 \<le> m \<Longrightarrow> m \<le> 12 \<Longrightarrow> days_in_month m y = Some (int (code_lengths (is_leap_year y) ! (m - 1)))"
proof -
  have "\<forall>n < 12. days_in_month (n + 1) y = Some (int (code_lengths (is_leap_year y) ! n))"
    by (simp add: days_in_month_def days_in_months_def code_lengths_def All_less_Suc numeral_eq_Suc)
  moreover assume "1 \<le> m" "m \<le> 12"
  ultimately show ?thesis by (auto dest: spec [of _ "m - 1"])
qed

lemma month_loop_step:
  "days_in_month m y = Some (int l) \<Longrightarrow>
   month_loop r m y = (if r \<ge> int l * 86400 then month_loop (r - int l * 86400) ((m + 1) mod 2 ^ 8) y
                       else Some (r, m))"
  by (subst month_loop.simps) (simp add: mult.assoc)

lemma month_loop_spec:
  "1 \<le> m \<Longrightarrow> m \<le> 12 \<Longrightarrow> d < sum_list (drop (m - 1) (code_lengths (is_leap_year y))) \<Longrightarrow> 0 \<le> s \<Longrightarrow> s < 86400 \<Longrightarrow>
   \<exists>m2 k. month_loop (int d * 86400 + s) m y = Some (int k * 86400 + s, m2) \<and> k < 31
     \<and> calendar (drop (m - 1) (code_lengths (is_leap_year y))) m d = (m2, k + 1)"
proof (induction "12 - m" arbitrary: m d)
  case 0
  then have m: "m = 12" by simp
  then have "d < 31" using 0(4) by (simp add: code_lengths_def)
  with 0 m show ?case
    by (subst month_loop.simps)
      (simp add: days_in_month_def days_in_months_def code_lengths_def)
next
  case (Suc n)
  let ?L = "code_lengths (is_leap_year y)"
  have m: "m < 12" using Suc.hyps(2) by simp
  have dr: "drop (m - 1) ?L = ?L ! (m - 1) # drop m ?L"
    using Cons_nth_drop_Suc [of "m - 1" ?L] m Suc.prems(1) by (simp add: code_lengths_def)
  have le: "?L ! (m - 1) \<le> 31"
  proof -
    have "\<forall>n < 12. ?L ! n \<le> 31" by (simp add: code_lengths_def All_less_Suc numeral_eq_Suc)
    with m show ?thesis by simp
  qed
  note t = days_in_month_table [of m y]
  show ?case
  proof (cases "d < ?L ! (m - 1)")
    case True
    then have "int d * 86400 + s < int (?L ! (m - 1)) * 86400" using Suc.prems(5) by simp
    with True dr le show ?thesis unfolding month_loop_step [OF t [OF Suc.prems(1,2)]] by simp
  next
    case False
    let ?d = "d - ?L ! (m - 1)"
    have ge: "int d * 86400 + s \<ge> int (?L ! (m - 1)) * 86400" using False Suc.prems(4) by simp
    have eq: "int d * 86400 + s - int (?L ! (m - 1)) * 86400 = int ?d * 86400 + s"
      using False by (simp add: of_nat_diff algebra_simps)
    have dd: "?d < sum_list (drop (m + 1 - 1) ?L)" using Suc.prems(3) False dr by simp
    have n: "n = 12 - (m + 1)" and m1: "1 \<le> m + 1" "m + 1 \<le> 12" using Suc.hyps(2) m by simp_all
    from Suc.hyps(1) [OF n m1 dd Suc.prems(4,5)] obtain m2 k where
      "month_loop (int ?d * 86400 + s) (m + 1) y = Some (int k * 86400 + s, m2)" "k < 31"
      "calendar (drop m ?L) (m + 1) ?d = (m2, k + 1)" unfolding add_diff_cancel_right' by blast
    moreover have "month_loop (int d * 86400 + s) m y = month_loop (int ?d * 86400 + s) (m + 1) y"
      using m ge unfolding month_loop_step [OF t [OF Suc.prems(1,2)]] eq by simp
    ultimately show ?thesis using False dr by simp
  qed
qed

lemma day_loop_spec:
  "0 \<le> s \<Longrightarrow> s < 86400 \<Longrightarrow> d + k < 256 \<Longrightarrow> day_loop (int k * 86400 + s) d = (s, d + k)"
proof (induction k arbitrary: d)
  case 0
  then show ?case by (subst day_loop.simps) simp
next
  case (Suc k)
  then have "day_loop (int k * 86400 + s) (d + 1) = (s, d + 1 + k)" by simp
  with Suc.prems show ?case by (subst day_loop.simps) (simp add: algebra_simps)
qed

text \<open>The two tables, compared on every day of both kinds of year.\<close>

definition wrong_months :: "nat set" where
  "wrong_months = {7, 8, 10, 12}"

lemma calendar_append:
  "calendar (p @ q) m d = (if d < sum_list p then calendar p m d else calendar q (m + length p) (d - sum_list p))"
  by (induction p m d rule: calendar.induct) auto

lemma calendar_month: "d < sum_list p \<Longrightarrow> fst (calendar p m d) < m + length p"
  by (induction p m d rule: calendar.induct) fastforce+

lemma from_june_compared:
  assumes "d < 214"
  shows "calendar [31, 31, 30, 31, 30, 31, 31] 6 d = calendar [30, 31, 31, 30, 31, 30, 31] 6 d
     \<longleftrightarrow> fst (calendar [30, 31, 31, 30, 31, 30, 31] 6 d) \<notin> wrong_months"
proof -
  consider "d < 30" | "d = 30" | "31 \<le> d" "d < 61" | "d = 61" | "62 \<le> d" "d < 92" | "92 \<le> d" "d < 122" | "d = 122"
    | "123 \<le> d" "d < 153" | "153 \<le> d" "d < 183" | "d = 183" | "184 \<le> d" using assms by linarith
  then show ?thesis using assms by cases (simp_all add: wrong_months_def less_diff_conv2)
qed

lemma tables_compared:
  assumes "d < (if leap then 366 else 365)"
  shows "calendar (code_lengths leap) 1 d = calendar (month_lengths leap) 1 d
     \<longleftrightarrow> fst (calendar (month_lengths leap) 1 d) \<notin> wrong_months"
proof -
  define p where "p = [31, if leap then 29 else 28, 31, 30, 31 :: nat]"
  have c: "code_lengths leap = p @ [31, 31, 30, 31, 30, 31, 31]"
    "month_lengths leap = p @ [30, 31, 31, 30, 31, 30, 31]"
    by (simp_all add: p_def code_lengths_def month_lengths_def)
  have p: "length p = 5" "sum_list p = (if leap then 152 else 151)" by (simp_all add: p_def)
  show ?thesis
  proof (cases "d < sum_list p")
    case True
    from calendar_month [OF True, of 1] True show ?thesis
      by (auto simp: c calendar_append wrong_months_def p(1))
  next
    case False
    have "d - sum_list p < 214" using assms p(2) by (auto split: if_splits)
    from from_june_compared [OF this] False show ?thesis
      by (simp only: c calendar_append p(1) if_False) simp
  qed
qed

lemma sum_code_lengths: "sum_list (code_lengths leap) = (if leap then 367 else 366)"
  by (simp add: code_lengths_def)

text \<open>
  The date of a time from 1970 on (for 60,000 years) has the right year, and hour, minute and
  second below a day that is the right number of days after the first of January of that year.  Month
  and day are the true ones exactly in the months other than July, August, October and December.
\<close>

theorem date_of_unix_time:
  assumes "0 \<le> t" and "t < 2000000000000"
  shows "\<exists>ts doy. unix_time_to_date t = Some ts \<and> doy < year_days (ts_year ts) \<and>
    t = int ((days_before (ts_year ts) + doy) * 86400 + ts_hour ts * 3600 + ts_minute ts * 60 + ts_second ts)
    \<and> ts_hour ts < 24 \<and> ts_minute ts < 60 \<and> ts_second ts < 60 \<and>
    ((ts_month ts, ts_day ts) = calendar (month_lengths (is_leap_year (ts_year ts))) 1 doy
       \<longleftrightarrow> fst (calendar (month_lengths (is_leap_year (ts_year ts))) 1 doy) \<notin> wrong_months)"
proof -
  obtain r y where yl: "year_loop t 1970 = (r, y)" by fastforce
  have "t div 31536000 \<le> 2000000000000 div 31536000" using assms by (intro zdiv_mono1) simp_all
  with year_loop_spec [OF _ assms(1) _ yl] have ys: "0 \<le> r" "r < int (year_days y) * 86400"
    "t = r + int (days_before y) * 86400" by (auto simp: days_before_def)
  define doy where "doy = nat (r div 86400)"
  define s where "s = r mod 86400"
  have s: "0 \<le> s" "s < 86400" and r: "r = int doy * 86400 + s" using ys(1) by (auto simp: doy_def s_def)
  have doy: "doy < year_days y" using ys(2) r s by simp
  then have "doy < sum_list (drop (1 - 1) (code_lengths (is_leap_year y)))"
    by (simp add: sum_code_lengths year_days_def split: if_splits)
  with month_loop_spec [of 1 doy y s] s obtain m k where
    ml: "month_loop r 1 y = Some (int k * 86400 + s, m)" "k < 31"
    and cal: "calendar (code_lengths (is_leap_year y)) 1 doy = (m, k + 1)" by (auto simp: r)
  have dl: "day_loop (int k * 86400 + s) 1 = (s, 1 + k)" using day_loop_spec [of s 1 k] s ml(2) by simp
  have sd: "s sdiv 3600 = s div 3600" "s smod 3600 = s mod 3600"
    "(s mod 3600) sdiv 60 = s mod 3600 div 60" "(s mod 3600) smod 60 = s mod 3600 mod 60"
    using s by (simp_all add: signed_divide_int_def signed_modulo_int_def sgn_if)
  have b: "0 \<le> s div 3600" "s div 3600 < 24" "0 \<le> s mod 3600 div 60" "s mod 3600 div 60 < 60"
    "0 \<le> s mod 3600 mod 60" "s mod 3600 mod 60 < 60" using s by simp_all
  have m256: "(s div 3600) mod 256 = s div 3600" "(s mod 3600 div 60) mod 256 = s mod 3600 div 60"
    "(s mod 3600 mod 60) mod 256 = s mod 3600 mod 60"
    using b by (intro mod_pos_pos_trivial; linarith)+
  obtain hh mi se where f: "s div 3600 = int hh" "s mod 3600 div 60 = int mi" "s mod 3600 mod 60 = int se"
    using b(1,3,5) by (metis nonneg_int_cases)
  let ?ts = "\<lparr>ts_year = y, ts_month = m, ts_day = 1 + k, ts_hour = hh, ts_minute = mi, ts_second = se\<rparr>"
  have "unix_time_to_date t = Some ?ts"
    unfolding unix_time_to_date_def yl ml(1) dl prod.case option.case Let_def sd m256 unfolding f nat_int ..
  moreover have "s = int hh * 3600 + int mi * 60 + int se"
    using mult_div_mod_eq [of 3600 s] mult_div_mod_eq [of 60 "s mod 3600"] unfolding f by linarith
  then have "t = int ((days_before y + doy) * 86400 + hh * 3600 + mi * 60 + se)"
    using ys(3) r by simp
  moreover have "hh < 24" "mi < 60" "se < 60" using b(2,4,6) unfolding f by simp_all
  moreover have "(m, 1 + k) = calendar (month_lengths (is_leap_year y)) 1 doy
      \<longleftrightarrow> fst (calendar (month_lengths (is_leap_year y)) 1 doy) \<notin> wrong_months"
    using tables_compared [of doy "is_leap_year y"] doy cal by (auto simp: year_days_def)
  ultimately show ?thesis using doy by (intro exI [of _ ?ts] exI [of _ doy]) simp
qed

theorem date_of_unix_time_witness:
  "\<exists>ts doy. unix_time_to_date 15638400 = Some ts \<and> (ts_year ts, ts_month ts, ts_day ts) = (1970, 6, 31)
     \<and> 15638400 = int ((days_before 1970 + doy) * 86400)
     \<and> (6, 31) \<noteq> calendar (month_lengths False) 1 doy \<and> fst (calendar (month_lengths False) 1 doy) \<in> wrong_months"
proof -
  have e: "unix_time_to_date 15638400 = Some \<lparr>ts_year = 1970, ts_month = 6, ts_day = 31,
      ts_hour = 0, ts_minute = 0, ts_second = 0\<rparr>"
    by (simp add: unix_time_to_date_def year_loop.simps year_secs_def is_leap_year_def month_loop.simps
        days_in_month_def days_in_months_def day_loop.simps signed_divide_int_def signed_modulo_int_def)
  have l: "\<not> is_leap_year 1970" by (simp add: is_leap_year_def)
  have c: "(6, 31) \<noteq> calendar (month_lengths False) 1 doy" for doy by (auto simp: month_lengths_def)
  from date_of_unix_time [of 15638400] obtain doy where
    "15638400 = int ((days_before 1970 + doy) * 86400)"
    "(6, 31) = calendar (month_lengths False) 1 doy \<longleftrightarrow> fst (calendar (month_lengths False) 1 doy) \<notin> wrong_months"
    by (auto simp: e l)
  with c [of doy] show ?thesis by (auto simp: e)
qed

end
