(* ===== verification/Timers.thy ===== *)
theory Timers imports Signals begin

text \<open>
  Timer events: the queue of each CPU, \<open>usleep\<close>, \<open>nanosleep\<close> and \<open>alarm\<close>
  (\<open>kernel/time.c\<close>, \<open>lilac/timer_event.h\<close>).

  The red-black tree of a CPU is its in-order sequence, as for the run queues.  What
  \<open>get_sys_time_ns\<close> returns is an argument.  An event lives in the stack frame of \<open>usleep\<close>
  or in memory of \<open>kmalloc\<close>; \<open>te_gone\<close> holds those whose frame has returned or whose memory is
  freed, and an access to one of them is \<open>None\<close>, as is a panic.
\<close>

section \<open>Events and queues\<close>

datatype timer_cb = SleepEv | AlarmEv

record timer_event =
  te_id :: nat
  expires :: nat
  callback :: timer_cb
  te_context :: tid

record timers =
  ev_tree :: "nat \<Rightarrow> timer_event list"
  timer_ev_list :: "tid \<Rightarrow> timer_event list"
  tsch :: sched
  te_gone :: "nat set"

abbreviation "SIGALRM \<equiv> 14 :: int"
abbreviation "NS_PER_SEC \<equiv> 1000000000 :: nat"

definition timer_ev_less :: "timer_event \<Rightarrow> timer_event \<Rightarrow> bool" where
  "timer_ev_less a b \<longleftrightarrow> expires a < expires b"

definition timer_ev_enqueue :: "nat \<Rightarrow> timer_event \<Rightarrow> tid \<Rightarrow> timers \<Rightarrow> timers" where
  "timer_ev_enqueue c ev p k =
     k\<lparr>ev_tree := (ev_tree k)(c := rb_add_cached timer_ev_less ev (ev_tree k c)),
       timer_ev_list := (timer_ev_list k)(p := timer_ev_list k p @ [ev])\<rparr>"

text \<open>
  The tree that is changed is that of the CPU that runs the function; taking an event out of the
  tree of another CPU through it is a fault.
\<close>

definition timer_ev_dequeue :: "nat \<Rightarrow> timer_event \<Rightarrow> timers \<Rightarrow> timers option" where
  "timer_ev_dequeue c ev k =
     (if ev \<in> set (ev_tree k c)
      then Some (k\<lparr>ev_tree := (ev_tree k)(c := remove1 ev (ev_tree k c)),
                   timer_ev_list := (timer_ev_list k)
                     (te_context ev := remove1 ev (timer_ev_list k (te_context ev)))\<rparr>)
      else None)"

definition sleep_ev_callback :: "timer_event \<Rightarrow> timers \<Rightarrow> timers option" where
  "sleep_ev_callback ev k =
     map_option (\<lambda>s. k\<lparr>tsch := s\<rparr>) (set_task_running (te_context ev) (tsch k))"

definition alarm_handler :: "timer_event \<Rightarrow> timers \<Rightarrow> timers option" where
  "alarm_handler ev k =
     map_option (\<lambda>(r, s). k\<lparr>tsch := s, te_gone := insert (te_id ev) (te_gone k)\<rparr>)
       (do_raise (te_context ev) SIGALRM (tsch k))"

definition run_callback :: "timer_event \<Rightarrow> timers \<Rightarrow> timers option" where
  "run_callback ev k = (case callback ev of SleepEv \<Rightarrow> sleep_ev_callback ev k | AlarmEv \<Rightarrow> alarm_handler ev k)"

text \<open>The loop of \<open>timer_ev_tick\<close> takes one event off in each round.\<close>

fun tick_rounds :: "nat \<Rightarrow> nat \<Rightarrow> nat \<Rightarrow> timers \<Rightarrow> timers option" where
  "tick_rounds 0 c now k = Some k"
| "tick_rounds (Suc n) c now k =
     (case rb_first_cached (ev_tree k c) of
        None \<Rightarrow> Some k
      | Some ev \<Rightarrow>
          if te_id ev \<in> te_gone k then None
          else if expires ev > now then Some k
          else case timer_ev_dequeue c ev k of
              None \<Rightarrow> None
            | Some k1 \<Rightarrow> (case run_callback ev k1 of None \<Rightarrow> None | Some k2 \<Rightarrow> tick_rounds n c now k2))"

definition timer_ev_tick :: "nat \<Rightarrow> nat \<Rightarrow> timers \<Rightarrow> timers option" where
  "timer_ev_tick c now k = tick_rounds (length (ev_tree k c)) c now k"

definition timer_tick :: "nat \<Rightarrow> nat \<Rightarrow> bool \<Rightarrow> u64 \<Rightarrow> (u64 \<Rightarrow> u64) \<Rightarrow> timers \<Rightarrow> timers option" where
  "timer_tick c now enabled ticks to_ns k =
     map_option (\<lambda>k1. k1\<lparr>tsch := sched_tick enabled ticks to_ns c (tsch k1)\<rparr>) (timer_ev_tick c now k)"

section \<open>Sleeping and alarms\<close>

text \<open>
  \<open>usleep\<close> of a millisecond or more up to and with its \<open>schedule\<close>, with the event at \<open>i\<close>,
  and its return, when the frame with the event is gone.  Shorter sleeps spin and change nothing.
\<close>

definition usleep_enter :: "(nat \<Rightarrow> bool) \<Rightarrow> nat \<Rightarrow> nat \<Rightarrow> nat \<Rightarrow> nat \<Rightarrow> timers \<Rightarrow> timers option" where
  "usleep_enter busy c i now micros k =
     (if micros \<ge> 1000 then
        (let p = get_current_task c (tsch k);
             ev = \<lparr>te_id = i, expires = now + micros * 1000, callback = SleepEv, te_context = p\<rparr> in
         case set_task_sleeping p (tsch k) of
           None \<Rightarrow> None
         | Some s1 \<Rightarrow>
             map_option (\<lambda>(nxt, s2). (timer_ev_enqueue c ev p (k\<lparr>tsch := s1\<rparr>))\<lparr>tsch := s2\<rparr>)
               (schedule busy c s1))
      else Some k)"

definition usleep_return :: "nat \<Rightarrow> timers \<Rightarrow> timers" where
  "usleep_return i k = k\<lparr>te_gone := insert i (te_gone k)\<rparr>"

text \<open>\<open>nanosleep\<close>: the argument of \<open>usleep\<close>, which is 32 bits wide, and what is left over.\<close>

definition nanosleep_total :: "nat \<Rightarrow> nat \<Rightarrow> nat" where
  "nanosleep_total sec nsec = (sec * NS_PER_SEC + nsec) mod 2 ^ 64"

definition nanosleep_micros :: "nat \<Rightarrow> nat \<Rightarrow> nat" where
  "nanosleep_micros sec nsec = (nanosleep_total sec nsec div 1000) mod 2 ^ 32"

definition nanosleep_result :: "bool \<Rightarrow> bool \<Rightarrow> nat \<Rightarrow> nat \<Rightarrow> nat \<Rightarrow> int \<times> (nat \<times> nat) option" where
  "nanosleep_result interrupted_ack rem tot start_ns end_ns =
     (if interrupted_ack then
        (- EINTR,
         if rem then
           (let elapsed = end_ns - start_ns in
            Some (if elapsed < tot then ((tot - elapsed) div NS_PER_SEC, (tot - elapsed) mod NS_PER_SEC)
                  else (0, 0)))
         else None)
      else (0, None))"

text \<open>The walk of \<open>alarm_cancel\<close> along the list of the task: \<open>None\<close> when it meets a gone event.\<close>

fun find_alarm :: "nat set \<Rightarrow> timer_event list \<Rightarrow> timer_event option option" where
  "find_alarm gone [] = Some None"
| "find_alarm gone (ev # evs) =
     (if te_id ev \<in> gone then None else if callback ev = AlarmEv then Some (Some ev) else find_alarm gone evs)"

definition alarm_cancel :: "nat \<Rightarrow> tid \<Rightarrow> nat \<Rightarrow> timers \<Rightarrow> (nat \<times> timers) option" where
  "alarm_cancel c p now k =
     (case find_alarm (te_gone k) (timer_ev_list k p) of
        None \<Rightarrow> None
      | Some None \<Rightarrow> Some (0, k)
      | Some (Some ev) \<Rightarrow>
          map_option (\<lambda>k1. (if expires ev > now then ((expires ev - now) div NS_PER_SEC) mod 2 ^ 32 else 0,
                            k1\<lparr>te_gone := insert (te_id ev) (te_gone k1)\<rparr>))
            (timer_ev_dequeue c ev k))"

text \<open>\<open>mem\<close> is where \<open>kmalloc\<close> puts the event, if it does.\<close>

definition sys_alarm :: "nat option \<Rightarrow> nat \<Rightarrow> nat \<Rightarrow> nat \<Rightarrow> timers \<Rightarrow> (int \<times> timers) option" where
  "sys_alarm mem c now seconds k =
     (let p = get_current_task c (tsch k); exp = now + seconds * NS_PER_SEC in
      case alarm_cancel c p now k of
        None \<Rightarrow> None
      | Some (rem, k1) \<Rightarrow>
          if seconds = 0 then Some (int rem, k1)
          else case mem of
              None \<Rightarrow> Some (- ENOMEM, k1)
            | Some i \<Rightarrow>
                (let ev = \<lparr>te_id = i, expires = exp, callback = AlarmEv, te_context = p\<rparr> in
                 Some (int rem, timer_ev_enqueue c ev p (k1\<lparr>te_gone := te_gone k1 - {i}\<rparr>))))"

section \<open>Firing\<close>

lemma do_raise_total:
  assumes inv: "sched_inv s" and z: "state (tk s p) \<noteq> TASK_ZOMBIE"
  shows "\<exists>r s'. do_raise p sig s = Some (r, s') \<and> state (tk s' p) \<in> {state (tk s p), TASK_RUNNING}"
proof -
  have *: "\<exists>r s'. do_raise p sig s = Some (r, s') \<and> state (tk s' p) \<in> {state (tk s1 p), TASK_RUNNING}"
    if sig: "0 < sig" "sig < NSIG" and i1: "sched_inv s1" and z1: "state (tk s1 p) \<noteq> TASK_ZOMBIE"
      and s1: "(if sig = SIGCONT \<and> state (tk s p) = TASK_STOPPED then set_task_running p s else Some s) = Some s1"
    for s1
  proof -
    let ?s3 = "upd_task p (interrupted_update (\<lambda>_. True))
      (upd_task p (\<lambda>t. t\<lparr>pending := sigaddset (pending t) sig, sig_pending := True\<rparr>) s1)"
    have "sched_inv ?s3" by (intro upd_flags_inv i1) simp_all
    moreover have "state (tk ?s3 p) \<noteq> TASK_ZOMBIE" using z1 by simp
    ultimately obtain s4 where s4: "set_task_running p ?s3 = Some s4" using set_task_running_total by blast
    have "state (tk s4 p) = TASK_RUNNING" by (subst set_task_running_frame(2) [OF s4]) simp
    with s4 sig show ?thesis unfolding do_raise_def Let_def s1 by simp
  qed
  show ?thesis
  proof (cases "0 < sig \<and> sig < NSIG")
    case False
    then show ?thesis by (auto simp: do_raise_def)
  next
    case sig: True
    show ?thesis
    proof (cases "sig = SIGCONT \<and> state (tk s p) = TASK_STOPPED")
      case False
      then show ?thesis using * [of s] sig inv z by auto
    next
      case True
      obtain s1 where s1: "set_task_running p s = Some s1" using set_task_running_total [OF inv z] by blast
      have "state (tk s1 p) = TASK_RUNNING" by (subst set_task_running_frame(2) [OF s1]) simp
      with * [of s1] sig s1 True set_task_running_inv [OF inv s1] show ?thesis by auto
    qed
  qed
qed

text \<open>
  What the firing of events is to do to the tasks: a sleeper is made runnable, the task of an alarm
  gets SIGALRM, one event after the other.
\<close>

definition fire :: "timer_event \<Rightarrow> sched \<Rightarrow> sched option" where
  "fire ev s =
     (case callback ev of
        SleepEv \<Rightarrow> set_task_running (te_context ev) s
      | AlarmEv \<Rightarrow> map_option snd (do_raise (te_context ev) SIGALRM s))"

primrec fire_all :: "timer_event list \<Rightarrow> sched \<Rightarrow> sched option" where
  "fire_all [] s = Some s"
| "fire_all (ev # evs) s = (case fire ev s of None \<Rightarrow> None | Some s1 \<Rightarrow> fire_all evs s1)"

text \<open>
  What a callback needs and keeps: a consistent scheduler and live contexts.  A task that is running
  stays so.
\<close>

definition cb_ready :: "timers \<Rightarrow> timer_event list \<Rightarrow> bool" where
  "cb_ready k evs \<longleftrightarrow> sched_inv (tsch k) \<and> (\<forall>e \<in> set evs. state (tk (tsch k) (te_context e)) \<noteq> TASK_ZOMBIE)"

lemma run_callback_ok:
  assumes "cb_ready k (ev # evs)"
  shows "\<exists>k'. run_callback ev k = Some k' \<and> cb_ready k' evs \<and> ev_tree k' = ev_tree k
    \<and> timer_ev_list k' = timer_ev_list k \<and> fire ev (tsch k) = Some (tsch k')
    \<and> te_gone k' = te_gone k \<union> (if callback ev = AlarmEv then {te_id ev} else {})
    \<and> (callback ev = SleepEv \<longrightarrow> state (tk (tsch k') (te_context ev)) = TASK_RUNNING)
    \<and> (\<forall>q. state (tk (tsch k) q) = TASK_RUNNING \<longrightarrow> state (tk (tsch k') q) = TASK_RUNNING)"
proof -
  let ?p = "te_context ev"
  have inv: "sched_inv (tsch k)" and z: "state (tk (tsch k) ?p) \<noteq> TASK_ZOMBIE"
    using assms by (auto simp: cb_ready_def)
  show ?thesis
  proof (cases "callback ev")
    case SleepEv
    obtain s where s: "set_task_running ?p (tsch k) = Some s" using set_task_running_total [OF inv z] by blast
    have "state (tk s ?p) = TASK_RUNNING" by (subst set_task_running_frame(2) [OF s]) simp
    moreover have "state (tk s q) = state (tk (tsch k) q) \<or> q = ?p" for q
      using set_task_running_frame(1) [OF s, of q] by auto
    ultimately show ?thesis using s SleepEv assms set_task_running_inv [OF inv s]
      by (auto simp: run_callback_def sleep_ev_callback_def cb_ready_def fire_def) (metis task_state.distinct)+
  next
    case AlarmEv
    obtain r s where s: "do_raise ?p SIGALRM (tsch k) = Some (r, s)"
      and st: "state (tk s ?p) \<in> {state (tk (tsch k) ?p), TASK_RUNNING}"
      using do_raise_total [OF inv z] by blast
    have "state (tk s q) \<in> {state (tk (tsch k) q), TASK_RUNNING}" for q
      using st do_raise_other [OF s, of q] by (cases "q = ?p") auto
    then show ?thesis using s AlarmEv assms do_raise_inv [OF inv s]
      by (auto simp: run_callback_def alarm_handler_def cb_ready_def fire_def) (metis task_state.distinct insertE singletonD)+
  qed
qed

definition timers_ok :: "nat \<Rightarrow> timers \<Rightarrow> bool" where
  "timers_ok c k \<longleftrightarrow> sorted (map expires (ev_tree k c)) \<and> distinct (map te_id (ev_tree k c))
     \<and> (\<forall>e \<in> set (ev_tree k c). te_id e \<notin> te_gone k) \<and> cb_ready k (ev_tree k c)"

lemma dequeue_head:
  "ev_tree k c = ev # evs \<Longrightarrow> \<exists>k1. timer_ev_dequeue c ev k = Some k1 \<and> ev_tree k1 = (ev_tree k)(c := evs)
     \<and> tsch k1 = tsch k \<and> te_gone k1 = te_gone k"
  by (simp add: timer_ev_dequeue_def)

lemma tick_rounds_fires:
  "timers_ok c k \<Longrightarrow> length (ev_tree k c) \<le> n \<Longrightarrow>
   \<exists>k'. tick_rounds n c now k = Some k' \<and> ev_tree k' c = filter (\<lambda>e. now < expires e) (ev_tree k c)
     \<and> fire_all (filter (\<lambda>e. expires e \<le> now) (ev_tree k c)) (tsch k) = Some (tsch k')
     \<and> (\<forall>c'. c' \<noteq> c \<longrightarrow> ev_tree k' c' = ev_tree k c') \<and> sched_inv (tsch k')
     \<and> te_gone k' = te_gone k \<union> te_id ` {e \<in> set (ev_tree k c). expires e \<le> now \<and> callback e = AlarmEv}
     \<and> (\<forall>e \<in> set (ev_tree k c). expires e \<le> now \<and> callback e = SleepEv
          \<longrightarrow> state (tk (tsch k') (te_context e)) = TASK_RUNNING)
     \<and> (\<forall>q. state (tk (tsch k) q) = TASK_RUNNING \<longrightarrow> state (tk (tsch k') q) = TASK_RUNNING)"
proof (induction n arbitrary: k)
  case 0
  then show ?case by (simp add: timers_ok_def cb_ready_def)
next
  case (Suc n)
  show ?case
  proof (cases "ev_tree k c")
    case Nil
    with Suc.prems show ?thesis by (simp add: rb_first_cached_def timers_ok_def cb_ready_def)
  next
    case (Cons ev evs)
    have ok: "te_id ev \<notin> te_gone k" "sorted (map expires evs)" "\<forall>e \<in> set evs. expires ev \<le> expires e"
      "distinct (map te_id evs)" "te_id ev \<notin> te_id ` set evs" "\<forall>e \<in> set evs. te_id e \<notin> te_gone k"
      "cb_ready k (ev # evs)"
      using Suc.prems(1) Cons by (auto simp: timers_ok_def)
    show ?thesis
    proof (cases "expires ev > now")
      case True
      with ok(3) have "filter (\<lambda>e. now < expires e) evs = evs" "filter (\<lambda>e. expires e \<le> now) evs = []"
        by (auto simp: filter_id_conv filter_empty_conv)
      with True Cons ok show ?thesis by (auto simp: rb_first_cached_def cb_ready_def)
    next
      case False
      from dequeue_head [OF Cons] obtain k1 where k1: "timer_ev_dequeue c ev k = Some k1"
        "ev_tree k1 = (ev_tree k)(c := evs)" "tsch k1 = tsch k" "te_gone k1 = te_gone k" by blast
      have "cb_ready k1 (ev # evs)" using ok(7) k1(3) by (simp add: cb_ready_def)
      from run_callback_ok [OF this] obtain k2 where k2: "run_callback ev k1 = Some k2" "cb_ready k2 evs"
        "ev_tree k2 = (ev_tree k)(c := evs)"
        "te_gone k2 = te_gone k \<union> (if callback ev = AlarmEv then {te_id ev} else {})"
        "callback ev = SleepEv \<longrightarrow> state (tk (tsch k2) (te_context ev)) = TASK_RUNNING"
        "\<forall>q. state (tk (tsch k) q) = TASK_RUNNING \<longrightarrow> state (tk (tsch k2) q) = TASK_RUNNING"
        "fire ev (tsch k) = Some (tsch k2)"
        unfolding k1(2-4) by blast
      have "\<forall>e \<in> set evs. te_id e \<noteq> te_id ev" using ok(5) by (metis imageI)
      then have "timers_ok c k2" using ok k2(2-4) by (auto simp: timers_ok_def)
      moreover have "length (ev_tree k2 c) \<le> n" using Suc.prems(2) Cons k2(3) by simp
      ultimately obtain k' where k': "tick_rounds n c now k2 = Some k'"
        "ev_tree k' c = filter (\<lambda>e. now < expires e) evs" "\<forall>c'. c' \<noteq> c \<longrightarrow> ev_tree k' c' = ev_tree k c'"
        "sched_inv (tsch k')"
        "te_gone k' = te_gone k2 \<union> te_id ` {e \<in> set evs. expires e \<le> now \<and> callback e = AlarmEv}"
        "\<forall>e \<in> set evs. expires e \<le> now \<and> callback e = SleepEv \<longrightarrow> state (tk (tsch k') (te_context e)) = TASK_RUNNING"
        "\<forall>q. state (tk (tsch k2) q) = TASK_RUNNING \<longrightarrow> state (tk (tsch k') q) = TASK_RUNNING"
        "fire_all (filter (\<lambda>e. expires e \<le> now) evs) (tsch k2) = Some (tsch k')"
        using Suc.IH [of k2] by (auto simp: k2(3))
      have r: "tick_rounds (Suc n) c now k = Some k'"
        using Cons ok(1) False k1(1) k2(1) k'(1) by (simp add: rb_first_cached_def)
      moreover have "te_gone k' = te_gone k \<union> te_id ` {e \<in> set (ev # evs). expires e \<le> now \<and> callback e = AlarmEv}"
        using k2(4) k'(5) False by auto
      moreover have "\<forall>e \<in> set (ev # evs). expires e \<le> now \<and> callback e = SleepEv
          \<longrightarrow> state (tk (tsch k') (te_context e)) = TASK_RUNNING"
        using k2(5) k'(6,7) by auto
      moreover have "fire_all (filter (\<lambda>e. expires e \<le> now) (ev # evs)) (tsch k) = Some (tsch k')"
        using k2(7) k'(8) False by simp
      ultimately show ?thesis using k'(2,3,4,7) k2(6) False unfolding Cons by auto
    qed
  qed
qed

text \<open>An expired event that is gone is met by the tick.\<close>

lemma run_callback_tree: "run_callback ev k = Some k' \<Longrightarrow> ev_tree k' = ev_tree k \<and> te_gone k \<subseteq> te_gone k'"
  by (auto simp: run_callback_def sleep_ev_callback_def alarm_handler_def split: timer_cb.splits)

lemma tick_rounds_gone:
  "sorted (map expires (ev_tree k c)) \<Longrightarrow> ev \<in> set (ev_tree k c) \<Longrightarrow> te_id ev \<in> te_gone k \<Longrightarrow> expires ev \<le> now \<Longrightarrow>
   length (ev_tree k c) \<le> n \<Longrightarrow> tick_rounds n c now k = None"
proof (induction n arbitrary: k)
  case (Suc n)
  then obtain e evs where t: "ev_tree k c = e # evs" by (cases "ev_tree k c") auto
  show ?case
  proof (cases "te_id e \<in> te_gone k")
    case True
    with t show ?thesis by (simp add: rb_first_cached_def)
  next
    case False
    with Suc.prems t have ev: "ev \<in> set evs" "sorted (map expires evs)" "\<not> now < expires e" by auto
    from dequeue_head [OF t] obtain k1 where k1: "timer_ev_dequeue c e k = Some k1"
      "ev_tree k1 = (ev_tree k)(c := evs)" "te_gone k1 = te_gone k" by blast
    have "tick_rounds n c now k2 = None" if "run_callback e k1 = Some k2" for k2
      using run_callback_tree [OF that] Suc.IH [of k2] ev Suc.prems(3,4,5) t k1 by auto
    with t False ev k1 show ?thesis by (simp add: rb_first_cached_def split: option.splits)
  qed
qed simp

section \<open>Properties\<close>

text \<open>
  C14. A tick on a CPU whose queue is in order, with live events and contexts and consistent run
  queues, fires exactly the events whose time has come, the earliest first: they leave the queue,
  and the tasks are changed by waking the task of each sleep and raising SIGALRM in the task of each
  alarm, one after the other in that order, and by nothing else.  So the sleepers are runnable and
  no running task is stopped; the memory of the alarms is released; no other queue changes.
\<close>

theorem tick_fires_expired:
  assumes "timers_ok c k"
  shows "\<exists>k'. timer_ev_tick c now k = Some k' \<and> ev_tree k' c = filter (\<lambda>e. now < expires e) (ev_tree k c)
     \<and> fire_all (filter (\<lambda>e. expires e \<le> now) (ev_tree k c)) (tsch k) = Some (tsch k')
     \<and> (\<forall>c'. c' \<noteq> c \<longrightarrow> ev_tree k' c' = ev_tree k c') \<and> sched_inv (tsch k')
     \<and> te_gone k' = te_gone k \<union> te_id ` {e \<in> set (ev_tree k c). expires e \<le> now \<and> callback e = AlarmEv}
     \<and> (\<forall>e \<in> set (ev_tree k c). expires e \<le> now \<and> callback e = SleepEv
          \<longrightarrow> state (tk (tsch k') (te_context e)) = TASK_RUNNING)
     \<and> (\<forall>q. state (tk (tsch k) q) = TASK_RUNNING \<longrightarrow> state (tk (tsch k') q) = TASK_RUNNING)"
  unfolding timer_ev_tick_def by (rule tick_rounds_fires [OF assms order_refl])

definition demo_timers :: "timers" where
  "demo_timers =
     \<lparr>ev_tree = (\<lambda>_. [])(0 := [\<lparr>te_id = 1, expires = 10, callback = SleepEv, te_context = 11\<rparr>,
                               \<lparr>te_id = 2, expires = 20, callback = AlarmEv, te_context = 10\<rparr>]),
      timer_ev_list = (\<lambda>_. []),
      tsch = alone_state\<lparr>tk := (tk alone_state)(11 := root_task\<lparr>state := TASK_SLEEPING\<rparr>)\<rparr>, te_gone = {}\<rparr>"

theorem tick_fires_expired_witness:
  "\<exists>k'. timer_ev_tick 0 15 demo_timers = Some k' \<and> map te_id (ev_tree k' 0) = [2]
     \<and> set_task_running 11 (tsch demo_timers) = Some (tsch k') \<and> state (tk (tsch k') 11) = TASK_RUNNING"
proof -
  have "sched_inv (tsch demo_timers)"
    using demo_states_inv(1)
    by (auto simp: demo_timers_def sched_inv_at_def queue_ok_def alone_state_def two_cpus_eq root_task_def)
  then have "timers_ok 0 demo_timers"
    by (auto simp: timers_ok_def cb_ready_def demo_timers_def alone_state_def root_task_def)
  from tick_fires_expired [OF this, of 15] show ?thesis
    by (auto simp: demo_timers_def fire_def split: option.splits)
qed

text \<open>
  A signal that wakes a task from \<open>usleep\<close> before its time lets it return with its timer event
  still queued, in a stack frame that no longer exists: when the time comes, the tick of that CPU
  touches it, whatever else is queued there.
\<close>

theorem interrupted_usleep_leaves_event:
  assumes "usleep_enter busy c i now micros k = Some k1" and "1000 \<le> micros"
    and "sorted (map expires (ev_tree k c))"
    and "p = get_current_task c (tsch k)" and "do_raise p sig (tsch k1) = Some (0, s)"
    and "state (tk s p) = TASK_RUNNING" and "now + micros * 1000 \<le> later"
  shows "timer_ev_tick c later (usleep_return i (k1\<lparr>tsch := s\<rparr>)) = None"
proof -
  let ?ev = "\<lparr>te_id = i, expires = now + micros * 1000, callback = SleepEv, te_context = p\<rparr>"
  let ?k = "usleep_return i (k1\<lparr>tsch := s\<rparr>)"
  have t: "ev_tree ?k c = rb_add_cached timer_ev_less ?ev (ev_tree k c)"
    using assms(1,2,4) by (auto simp: usleep_enter_def usleep_return_def timer_ev_enqueue_def Let_def
        split: option.splits)
  have l: "timer_ev_less = (\<lambda>a b. expires a < expires b)" by (simp add: timer_ev_less_def fun_eq_iff)
  have "sorted (map expires (ev_tree ?k c))" unfolding t l by (rule sorted_rb_add_cached [OF assms(3)])
  moreover have "?ev \<in> set (ev_tree ?k c)" unfolding t by simp
  ultimately show ?thesis using assms(7) unfolding timer_ev_tick_def
    by (intro tick_rounds_gone [where ev = ?ev]) (simp_all add: usleep_return_def)
qed

lemmas usleep_eval = usleep_enter_def set_task_sleeping_def timer_ev_enqueue_def sched_eval alone_state_def
  two_cpus_eq root_task_def upt_rec

lemmas raise_eval = do_raise_def NSIG_def set_task_running_def sigisblocked_def sigaddset_def root_sighand_def

theorem interrupted_usleep_leaves_event_witness:
  "\<exists>k1 s. usleep_enter (\<lambda>_. True) 0 7 100 2000 (demo_timers\<lparr>tsch := alone_state\<rparr>) = Some k1
     \<and> do_raise 10 SIGALRM (tsch k1) = Some (0, s)
     \<and> timer_ev_tick 0 2000100 (usleep_return 7 (k1\<lparr>tsch := s\<rparr>)) = None"
proof -
  let ?k = "demo_timers\<lparr>tsch := alone_state\<rparr>"
  obtain k1 s where k1: "usleep_enter (\<lambda>_. True) 0 7 100 2000 ?k = Some k1"
    and s: "do_raise 10 SIGALRM (tsch k1) = Some (0, s)" "state (tk s 10) = TASK_RUNNING"
    by (simp add: usleep_eval raise_eval)
  have "10 = get_current_task 0 (tsch ?k)" by (simp add: get_current_task_def alone_state_def)
  moreover have "sorted (map expires (ev_tree ?k 0))" by (simp add: demo_timers_def)
  ultimately have "timer_ev_tick 0 2000100 (usleep_return 7 (k1\<lparr>tsch := s\<rparr>)) = None"
    using interrupted_usleep_leaves_event [OF k1 _ _ _ s, of 2000100] by simp
  with k1 s show ?thesis by blast
qed

end
