(* ===== verification/FrameAlloc.thy ===== *)
theory FrameAlloc imports LilacBase begin

text \<open>
  The physical frame allocator, \<open>mm/pmem.c\<close> with \<open>mm/page.h\<close>: the bitmap of frames, its
  initialisation from the memory map, allocation of consecutive frames, release, and the reference
  counts of \<open>struct page\<close>.

  The bitmap is the list of its 64-bit words; \<open>None\<close> is a panic or an access outside it.  Frames
  are numbered as the bits are; \<open>FIRST_PAGE\<close> is 0.
\<close>

section \<open>The bitmap\<close>

type_synonym bitmap = "u64 list"

definition used :: "bitmap \<Rightarrow> nat \<Rightarrow> bool" where
  "used bm k \<longleftrightarrow> bit (bm ! (k div 64)) (k mod 64)"

definition get_index :: "u64 \<Rightarrow> nat" where
  "get_index frame = unat frame div (64 * 4096)"

definition get_offset :: "u64 \<Rightarrow> nat" where
  "get_offset frame = unat frame div 4096 mod 64"

definition set_frame :: "nat \<Rightarrow> bitmap \<Rightarrow> bitmap" where
  "set_frame k bm = bm[k div 64 := set_bit (k mod 64) (bm ! (k div 64))]"

definition clear_frame :: "nat \<Rightarrow> bitmap \<Rightarrow> bitmap" where
  "clear_frame k bm = bm[k div 64 := unset_bit (k mod 64) (bm ! (k div 64))]"

text \<open>
  \<open>do_frame_alloc\<close> computes the address in \<open>int\<close>: \<open>start\<close> and \<open>PAGE_SIZE\<close> are
  \<open>int\<close>s, and the product is converted after it has wrapped.
\<close>

definition frame_addr :: "nat \<Rightarrow> u64" where
  "frame_addr start = word_of_int (s32 (int start * 4096))"

definition do_frame_alloc :: "nat \<Rightarrow> nat \<Rightarrow> bitmap \<Rightarrow> u64 \<times> bitmap" where
  "do_frame_alloc start n bm = (frame_addr start, fold set_frame [start..<start + n] bm)"

text \<open>
  \<open>check_bitmap\<close> continues a run of \<open>count\<close> free frames from \<open>start\<close> in word \<open>i\<close>: the
  frame at which a run of \<open>n\<close> begins, if it is completed, with the count and start it leaves.
\<close>

fun check_bits :: "nat \<Rightarrow> nat \<Rightarrow> u64 \<Rightarrow> nat list \<Rightarrow> nat \<times> nat \<Rightarrow> nat option \<times> nat \<times> nat" where
  "check_bits n i w [] cs = (None, cs)"
| "check_bits n i w (j # js) (count, start) =
     (if \<not> bit w j then
        (let start1 = (if count = 0 then i * 64 + j else start); count1 = count + 1 in
         if count1 = n then (Some start1, count1, start1)
         else check_bits n i w js (count1, start1))
      else check_bits n i w js (0, start))"

definition check_bitmap :: "nat \<Rightarrow> nat \<Rightarrow> bitmap \<Rightarrow> nat \<times> nat \<Rightarrow> nat option \<times> nat \<times> nat" where
  "check_bitmap i n bm cs = check_bits n i (bm ! i) [0..<64] cs"

text \<open>
  The loop of \<open>alloc_frames\<close> over the words.  A run whose address is 0 (frame 0, or one whose
  \<open>int\<close> product wraps to 0) is marked, but taken for a failure, and the loop goes on.
\<close>

fun alloc_loop :: "nat \<Rightarrow> bitmap \<Rightarrow> nat list \<Rightarrow> nat \<times> nat \<Rightarrow> (u64 \<times> bitmap) option" where
  "alloc_loop n bm [] cs = None"
| "alloc_loop n bm (i # is) cs =
     (if bm ! i \<noteq> - 1 then
        (case check_bitmap i n bm cs of
           (Some s, cs1) \<Rightarrow>
             (case do_frame_alloc s n bm of
                (ptr, bm1) \<Rightarrow> if ptr \<noteq> 0 then Some (ptr, bm1) else alloc_loop n bm1 is cs1)
         | (None, cs1) \<Rightarrow> alloc_loop n bm is cs1)
      else alloc_loop n bm is (0, snd cs))"

definition alloc_frames :: "nat \<Rightarrow> bitmap \<Rightarrow> (u64 \<times> bitmap) option" where
  "alloc_frames n bm = (if n = 0 then Some (0, bm) else alloc_loop n bm [0..<length bm] (0, 0))"

definition free_frame :: "u64 \<Rightarrow> bitmap \<Rightarrow> bitmap option" where
  "free_frame frame bm =
     (let k = get_index frame; off = get_offset frame in
      if k mod 2 ^ 32 < length bm
      then Some (bm[k mod 2 ^ 32 := unset_bit off (bm ! (k mod 2 ^ 32))]) else None)"

fun free_frames :: "u64 \<Rightarrow> nat \<Rightarrow> bitmap \<Rightarrow> bitmap option" where
  "free_frames frame 0 bm = Some bm"
| "free_frames frame (Suc n) bm = Option.bind (free_frame frame bm) (free_frames (frame + 4096) n)"

section \<open>Marking the reserved frames\<close>

text \<open>The three loops of \<open>mark_frames\<close>: bits up to the end of a word, whole words, bits.\<close>

definition mark_bit :: "nat \<Rightarrow> nat \<Rightarrow> bitmap \<Rightarrow> bitmap option" where
  "mark_bit i off bm = (if i < length bm then Some (bm[i := set_bit off (bm ! i)]) else None)"

fun mark_head :: "nat \<Rightarrow> nat \<Rightarrow> nat \<Rightarrow> bitmap \<Rightarrow> (nat \<times> bitmap) option" where
  "mark_head 0 i off bm = Some (0, bm)"
| "mark_head (Suc n) i off bm =
     (if off < 64 then Option.bind (mark_bit i off bm) (mark_head n i (off + 1)) else Some (Suc n, bm))"

fun mark_words :: "nat \<Rightarrow> nat \<Rightarrow> bitmap \<Rightarrow> (nat \<times> nat \<times> bitmap) option" where
  "mark_words n i bm =
     (if n \<ge> 64 then (if i < length bm then mark_words (n - 64) (i + 1) (bm[i := - 1]) else None)
      else Some (n, i, bm))"

fun mark_tail :: "nat \<Rightarrow> nat \<Rightarrow> nat \<Rightarrow> bitmap \<Rightarrow> bitmap option" where
  "mark_tail 0 i off bm = Some bm"
| "mark_tail (Suc n) i off bm = Option.bind (mark_bit i off bm) (mark_tail n i (off + 1))"

definition mark_frames :: "nat \<Rightarrow> nat \<Rightarrow> nat \<Rightarrow> bitmap \<Rightarrow> bitmap option" where
  "mark_frames i off n bm =
     (case mark_head n i off bm of
        None \<Rightarrow> None
      | Some (n1, bm1) \<Rightarrow>
          (case mark_words n1 (i + 1) bm1 of
             None \<Rightarrow> None
           | Some (n2, i2, bm2) \<Rightarrow> mark_tail n2 i2 0 bm2))"

text \<open>The memory map: whether the kernel may use the memory, the physical address, the pages.\<close>

record mem_desc =
  usable :: bool
  phys_addr :: u64
  num_pages :: nat

fun mark_entries :: "u64 \<Rightarrow> mem_desc list \<Rightarrow> bitmap \<Rightarrow> bitmap option" where
  "mark_entries total_mem [] bm = Some bm"
| "mark_entries total_mem (e # es) bm =
     (if usable e \<or> phys_addr e \<ge> total_mem then mark_entries total_mem es bm
      else Option.bind (mark_frames (get_index (phys_addr e)) (get_offset (phys_addr e)) (num_pages e) bm)
             (mark_entries total_mem es))"

definition efi_init_bitmap ::
  "u64 \<Rightarrow> u64 \<Rightarrow> u64 \<Rightarrow> nat \<Rightarrow> u64 \<Rightarrow> mem_desc list \<Rightarrow> bitmap \<Rightarrow> bitmap option" where
  "efi_init_bitmap kernel_start kernel_end bm_phys bitmap_size total_mem es bm =
     (case mark_frames 0 0 256 bm of None \<Rightarrow> None
      | Some b1 \<Rightarrow>
     (case mark_frames (get_index kernel_start) (get_offset kernel_start)
             (unat (kernel_end - kernel_start) div 4096 + 1) b1 of None \<Rightarrow> None
      | Some b2 \<Rightarrow>
     (case mark_frames (get_index bm_phys) (get_offset bm_phys) (bitmap_size div 4096 + 1) b2 of None \<Rightarrow> None
      | Some b3 \<Rightarrow> mark_entries total_mem es b3)))"

text \<open>
  \<open>pmem_init\<close> up to the allocation of the array of \<open>struct page\<close>s of \<open>page_struct\<close> bytes:
  its physical address and the bitmap.
\<close>

definition pmem_init ::
  "nat \<Rightarrow> nat \<Rightarrow> u64 \<Rightarrow> u64 \<Rightarrow> u64 \<Rightarrow> mem_desc list \<Rightarrow> (u64 \<times> bitmap) option" where
  "pmem_init total_mem_kb page_struct kernel_start kernel_end bm_phys es =
     (let total_pages = total_mem_kb div 4 mod 2 ^ 32;
          bitmap_size = (total_pages div 8 + 8) mod 2 ^ 32 in
      case efi_init_bitmap kernel_start kernel_end bm_phys bitmap_size
             (of_nat (total_mem_kb * 1024)) es (replicate (bitmap_size div 8) 0) of
        None \<Rightarrow> None
      | Some bm \<Rightarrow> alloc_frames ((total_pages * page_struct + 4095) div 4096) bm)"

section \<open>Counting, and the page structures\<close>

definition num_free_frames :: "bitmap \<Rightarrow> nat" where
  "num_free_frames bm = sum_list (map (\<lambda>w. length (filter (\<lambda>j. \<not> bit w j) [0..<64])) bm)"

definition num_used_frames :: "bitmap \<Rightarrow> nat" where
  "num_used_frames bm = sum_list (map (\<lambda>w. length (filter (bit w) [0..<64])) bm)"

record pmem =
  frames :: bitmap
  refcount :: "u64 \<Rightarrow> nat"

definition phys_to_pfn :: "u64 \<Rightarrow> u64" where
  "phys_to_pfn phys = drop_bit 12 phys"

definition page_to_phys :: "u64 \<Rightarrow> u64" where
  "page_to_phys pfn = push_bit 12 pfn"

definition alloc_pages :: "nat \<Rightarrow> pmem \<Rightarrow> (u64 option \<times> pmem) option" where
  "alloc_pages n m =
     map_option (\<lambda>(phys, bm).
        if phys = 0 then (None, m\<lparr>frames := bm\<rparr>)
        else (Some (phys_to_pfn phys),
              m\<lparr>frames := bm, refcount := (refcount m)(phys_to_pfn phys := 1)\<rparr>))
       (alloc_frames n (frames m))"

definition free_pages :: "u64 \<Rightarrow> nat \<Rightarrow> pmem \<Rightarrow> pmem option" where
  "free_pages pfn n m = map_option (\<lambda>bm. m\<lparr>frames := bm\<rparr>) (free_frames (page_to_phys pfn) n (frames m))"

definition get_page :: "u64 \<Rightarrow> pmem \<Rightarrow> pmem" where
  "get_page pfn m = m\<lparr>refcount := (refcount m)(pfn := u32_add (refcount m pfn) 1)\<rparr>"

definition put_page :: "u64 \<Rightarrow> pmem \<Rightarrow> pmem option" where
  "put_page pfn m =
     (let old = refcount m pfn; m1 = m\<lparr>refcount := (refcount m)(pfn := u32_sub old 1)\<rparr> in
      if old = 1 then free_pages pfn 1 m1 else Some m1)"

section \<open>Frames set and cleared\<close>

lemma set_frame_used:
  assumes "k < 64 * length bm"
  shows "length (set_frame k bm) = length bm" "used (set_frame k bm) j \<longleftrightarrow> j = k \<or> used bm j"
proof -
  show "length (set_frame k bm) = length bm" by (simp add: set_frame_def)
  have k: "k div 64 < length bm" using assms by (simp add: less_mult_imp_div_less mult.commute)
  have jk: "j = k \<longleftrightarrow> j div 64 = k div 64 \<and> j mod 64 = k mod 64" by (metis div_mult_mod_eq)
  show "used (set_frame k bm) j \<longleftrightarrow> j = k \<or> used bm j"
    using k unfolding jk
    by (cases "j div 64 = k div 64") (auto simp: used_def set_frame_def bit_simps)
qed

lemma clear_frame_used:
  assumes "k < 64 * length bm"
  shows "length (clear_frame k bm) = length bm" "used (clear_frame k bm) j \<longleftrightarrow> j \<noteq> k \<and> used bm j"
proof -
  show "length (clear_frame k bm) = length bm" by (simp add: clear_frame_def)
  have k: "k div 64 < length bm" using assms by (simp add: less_mult_imp_div_less mult.commute)
  have jk: "j = k \<longleftrightarrow> j div 64 = k div 64 \<and> j mod 64 = k mod 64" by (metis div_mult_mod_eq)
  show "used (clear_frame k bm) j \<longleftrightarrow> j \<noteq> k \<and> used bm j"
    using k unfolding jk
    by (cases "j div 64 = k div 64") (auto simp: used_def clear_frame_def bit_simps)
qed

lemma fold_set_frame:
  "a + n \<le> 64 * length bm \<Longrightarrow> length (fold set_frame [a..<a + n] bm) = length bm \<and>
   (\<forall>j. used (fold set_frame [a..<a + n] bm) j \<longleftrightarrow> (a \<le> j \<and> j < a + n) \<or> used bm j)"
proof (induction n)
  case (Suc n)
  then show ?case using set_frame_used [of "a + n" "fold set_frame [a..<a + n] bm"] by auto
qed auto

section \<open>The scan finds the first run\<close>

text \<open>The run the loop comes to first, and its two loops as one over the frames.\<close>

fun alloc_scan :: "nat \<Rightarrow> bitmap \<Rightarrow> nat list \<Rightarrow> nat \<times> nat \<Rightarrow> nat option" where
  "alloc_scan n bm [] cs = None"
| "alloc_scan n bm (i # is) cs =
     (if bm ! i \<noteq> - 1 then
        (case check_bitmap i n bm cs of
           (Some s, _) \<Rightarrow> Some s
         | (None, cs1) \<Rightarrow> alloc_scan n bm is cs1)
      else alloc_scan n bm is (0, snd cs))"

lemma alloc_loop_scan:
  "case alloc_scan n bm is cs of
     None \<Rightarrow> alloc_loop n bm is cs = None
   | Some s \<Rightarrow> frame_addr s \<noteq> 0 \<longrightarrow> alloc_loop n bm is cs = Some (do_frame_alloc s n bm)"
proof (induction "is" arbitrary: cs)
  case (Cons i "is")
  show ?case
  proof (cases "bm ! i = - 1")
    case True
    then show ?thesis using Cons.IH [of "(0, snd cs)"] by (simp split: option.splits)
  next
    case False
    obtain r cs1 where "check_bitmap i n bm cs = (r, cs1)" by (cases "check_bitmap i n bm cs")
    with False Cons.IH [of cs1] show ?thesis
      by (cases r) (auto simp: do_frame_alloc_def split: option.splits)
  qed
qed simp

fun scan :: "nat \<Rightarrow> (nat \<Rightarrow> bool) \<Rightarrow> nat list \<Rightarrow> nat \<times> nat \<Rightarrow> nat option \<times> nat \<times> nat" where
  "scan n u [] cs = (None, cs)"
| "scan n u (k # ks) (count, start) =
     (if \<not> u k then
        (let start1 = (if count = 0 then k else start) in
         if count + 1 = n then (Some start1, count + 1, start1) else scan n u ks (count + 1, start1))
      else scan n u ks (0, start))"

lemma scan_append:
  "scan n u (ks @ ls) cs = (case scan n u ks cs of (Some s, cs1) \<Rightarrow> (Some s, cs1) | (None, cs1) \<Rightarrow> scan n u ls cs1)"
  by (induction n u ks cs rule: scan.induct) (auto simp: Let_def)

lemma scan_all_used: "\<forall>k \<in> set ks. u k \<Longrightarrow> ks \<noteq> [] \<Longrightarrow> scan n u ks (c, s) = (None, 0, s)"
proof (induction ks arbitrary: c)
  case (Cons k ks)
  then show ?case by (cases ks) auto
qed simp

lemma used_word: "j < 64 \<Longrightarrow> used bm (i * 64 + j) = bit (bm ! i) j"
  by (simp add: used_def)

lemma check_bits_scan:
  "\<forall>j \<in> set js. j < 64 \<Longrightarrow> check_bits n i (bm ! i) js cs = scan n (used bm) (map (\<lambda>j. i * 64 + j) js) cs"
proof (induction js arbitrary: cs)
  case (Cons j js)
  then show ?case by (cases cs) (simp add: used_word Let_def)
qed simp

lemma alloc_scan_scan:
  "alloc_scan n bm is cs = fst (scan n (used bm) (concat (map (\<lambda>i. map (\<lambda>j. i * 64 + j) [0..<64]) is)) cs)"
proof (induction "is" arbitrary: cs)
  case (Cons i "is")
  let ?w = "map (\<lambda>j. i * 64 + j) [0..<64]"
  obtain c s where cs: "cs = (c, s)" by fastforce
  show ?case
  proof (cases "bm ! i = - 1")
    case True
    have "\<forall>j < 64. used bm (i * 64 + j)" using True by (simp add: used_word)
    then have "\<forall>k \<in> set ?w. used bm k" by (force simp del: image_add_atLeastLessThan image_add_atLeastLessThan')
    then have "scan n (used bm) ?w cs = (None, 0, s)" unfolding cs by (rule scan_all_used) simp
    then show ?thesis using True Cons.IH [of "(0, s)"] by (simp add: scan_append cs)
  next
    case False
    have "check_bitmap i n bm cs = scan n (used bm) ?w cs"
      unfolding check_bitmap_def by (rule check_bits_scan) simp
    then show ?thesis using False Cons.IH by (simp add: scan_append split: prod.splits option.splits)
  qed
qed simp

lemma map_plus_upt: "map (\<lambda>j. a + j) [0..<m] = [a..<a + m]"
  by (induction m) auto

lemma concat_words: "concat (map (\<lambda>i. map (\<lambda>j. i * 64 + j) [0..<64]) [0..<n]) = [0..<64 * n]"
proof (induction n)
  case (Suc n)
  have "map (\<lambda>j. n * 64 + j) [0..<64] = [n * 64..<n * 64 + 64]" by (rule map_plus_upt)
  moreover have "[0..<64 * Suc n] = [0..<64 * n] @ [n * 64..<n * 64 + 64]"
    using upt_add_eq_append [of 0 "64 * n" 64] by (simp add: mult.commute add.commute)
  ultimately show ?case using Suc by simp
qed simp

text \<open>A run of free frames, and what the scan returns from frame \<open>a\<close> with \<open>c\<close> free ones before it.\<close>

definition free_run :: "(nat \<Rightarrow> bool) \<Rightarrow> nat \<Rightarrow> nat \<Rightarrow> bool" where
  "free_run u n s \<longleftrightarrow> (\<forall>k < n. \<not> u (s + k))"

lemma scan_spec:
  "c < n \<Longrightarrow> c \<le> a \<Longrightarrow> a \<le> b \<Longrightarrow> (0 < c \<longrightarrow> s = a - c) \<Longrightarrow> \<forall>k. a - c \<le> k \<and> k < a \<longrightarrow> \<not> u k \<Longrightarrow>
   case fst (scan n u [a..<b] (c, s)) of
     Some r \<Rightarrow> a - c \<le> r \<and> r + n \<le> b \<and> free_run u n r \<and> (\<forall>r'. a - c \<le> r' \<and> r' < r \<longrightarrow> \<not> free_run u n r')
   | None \<Rightarrow> \<forall>r'. a - c \<le> r' \<and> r' + n \<le> b \<longrightarrow> \<not> free_run u n r'"
proof (induction "b - a" arbitrary: a c s)
  case 0
  then have "a = b" by simp
  with 0 show ?case by auto
next
  case (Suc m)
  have ab: "a < b" and m: "m = b - (a + 1)" using Suc.hyps(2) by simp_all
  have upt: "[a..<b] = a # [a + 1..<b]" using ab by (simp add: upt_conv_Cons)
  show ?case
  proof (cases "u a")
    case True
    have no: "\<not> free_run u n r" if "a - c \<le> r" "r \<le> a" for r
    proof -
      have "a - r < n" using that Suc.prems(1,2) by linarith
      moreover have "u (r + (a - r))" using True that by simp
      ultimately show ?thesis unfolding free_run_def by blast
    qed
    have "scan n u [a..<b] (c, s) = scan n u [a + 1..<b] (0, s)" using True upt by simp
    moreover have "\<forall>k. a + 1 \<le> k \<and> k < a + 1 \<longrightarrow> \<not> u k" by auto
    with Suc.hyps(1) [OF m, of 0 s, unfolded diff_zero] Suc.prems(1) ab have
      "case fst (scan n u [a + 1..<b] (0, s)) of
         Some r \<Rightarrow> a + 1 \<le> r \<and> r + n \<le> b \<and> free_run u n r \<and> (\<forall>r'. a + 1 \<le> r' \<and> r' < r \<longrightarrow> \<not> free_run u n r')
       | None \<Rightarrow> \<forall>r'. a + 1 \<le> r' \<and> r' + n \<le> b \<longrightarrow> \<not> free_run u n r'" by simp
    ultimately show ?thesis using no
      by (auto split: option.splits) (metis Suc_leI not_less_eq_eq)+
  next
    case False
    let ?s = "if c = 0 then a else s"
    have s: "?s = a - c" using Suc.prems(4) by auto
    show ?thesis
    proof (cases "c + 1 = n")
      case True
      have "scan n u [a..<b] (c, s) = (Some ?s, c + 1, ?s)" using False True upt by (simp add: Let_def)
      moreover have "free_run u n (a - c)"
        unfolding free_run_def
      proof (intro allI impI)
        fix k assume "k < n"
        then show "\<not> u (a - c + k)"
          using Suc.prems(2) spec [OF Suc.prems(5), of "a - c + k"] False True by (cases "k = c") auto
      qed
      moreover have "a - c + n \<le> b" using ab Suc.prems(2) True by simp
      ultimately show ?thesis using s by auto
    next
      case c1: False
      have "scan n u [a..<b] (c, s) = scan n u [a + 1..<b] (c + 1, ?s)" using False c1 upt by (simp add: Let_def)
      moreover have "\<forall>k. a + 1 - (c + 1) \<le> k \<and> k < a + 1 \<longrightarrow> \<not> u k"
        using Suc.prems(5) False by (auto simp: less_Suc_eq)
      moreover have "c + 1 < n" using c1 Suc.prems(1) by simp
      moreover have e: "a + 1 - (c + 1) = a - c" by simp
      ultimately show ?thesis using Suc.hyps(1) [OF m, of "c + 1" ?s, unfolded e] s Suc.prems(2) ab by simp
    qed
  qed
qed

lemma alloc_scan_first_fit:
  assumes "0 < n"
  shows "case alloc_scan n bm [0..<length bm] (0, 0) of
      Some s \<Rightarrow> s + n \<le> 64 * length bm \<and> free_run (used bm) n s \<and> (\<forall>r < s. \<not> free_run (used bm) n r)
    | None \<Rightarrow> \<forall>r. r + n \<le> 64 * length bm \<longrightarrow> \<not> free_run (used bm) n r"
  using scan_spec [of 0 n 0 "64 * length bm" 0 "used bm"] assms
  by (simp add: alloc_scan_scan concat_words split: option.splits)

section \<open>Properties of allocation and release\<close>

text \<open>The specification: the first run of \<open>n\<close> free frames.\<close>

definition first_fit :: "nat \<Rightarrow> bitmap \<Rightarrow> nat option" where
  "first_fit n bm = List.find (free_run (used bm) n) [0..<64 * length bm + 1 - n]"

lemma first_fit_eq:
  assumes "0 < n"
  shows "first_fit n bm = alloc_scan n bm [0..<length bm] (0, 0)"
proof (cases "alloc_scan n bm [0..<length bm] (0, 0)")
  case None
  with alloc_scan_first_fit [OF assms, of bm] show ?thesis
    by (auto simp: first_fit_def find_None_iff)
next
  case (Some s)
  with alloc_scan_first_fit [OF assms, of bm] have s: "s + n \<le> 64 * length bm" "free_run (used bm) n s"
    "\<forall>r < s. \<not> free_run (used bm) n r" by auto
  then have "[0..<64 * length bm + 1 - n] ! s = s" "s < length [0..<64 * length bm + 1 - n]" by auto
  with s Some show ?thesis by (auto simp: first_fit_def find_Some_iff intro!: exI [of _ s])
qed

lemma first_fit_SomeD:
  "0 < n \<Longrightarrow> first_fit n bm = Some s \<Longrightarrow> s + n \<le> 64 * length bm \<and> free_run (used bm) n s"
  using alloc_scan_first_fit [of n bm] by (simp add: first_fit_eq)

lemma frame_addr_nonzero:
  assumes "0 < s" and "s < 2 ^ 20"
  shows "frame_addr s \<noteq> 0"
proof
  assume "frame_addr s = 0"
  then have "2 ^ 64 dvd s32 (int s * 4096)" unfolding frame_addr_def by (simp add: word_of_int_eq_0_iff)
  then have "(2 ^ 32 :: int) dvd s32 (int s * 4096)" by (rule dvd_trans [rotated]) simp
  then have "take_bit 32 (s32 (int s * 4096)) = 0" unfolding take_bit_eq_0_iff .
  then have "take_bit 32 (int s * 4096) = 0" unfolding s32_def by (simp add: take_bit_signed_take_bit)
  then have "int s * 4096 mod 2 ^ 32 = 0" by (simp only: take_bit_eq_mod)
  with assms show False by simp
qed

lemma alloc_frames_eq:
  assumes "0 < n"
  shows "first_fit n bm = None \<Longrightarrow> alloc_frames n bm = None"
    "first_fit n bm = Some s \<Longrightarrow> frame_addr s \<noteq> 0 \<Longrightarrow>
       alloc_frames n bm = Some (frame_addr s, fold set_frame [s..<s + n] bm)"
  using alloc_loop_scan [of n bm "[0..<length bm]" "(0, 0)"] assms
  by (simp_all add: alloc_frames_def first_fit_eq do_frame_alloc_def)

text \<open>
  Frame 0 is never given: it is marked at the start.  With it used and at most 4 GB, the address of a
  run is not 0.
\<close>

lemma first_fit_addr:
  assumes "used bm 0" and "64 * length bm \<le> 2 ^ 20" and "0 < n" and "first_fit n bm = Some s"
  shows "frame_addr s \<noteq> 0"
proof -
  have r: "s + n \<le> 64 * length bm" "free_run (used bm) n s" using first_fit_SomeD assms(3,4) by blast+
  have "\<not> used bm s" using r(2) assms(3) by (auto simp: free_run_def dest: spec [of _ 0])
  then have "0 < s" using assms(1) by (cases s) auto
  with r(1) assms(2,3) show ?thesis by (intro frame_addr_nonzero) simp_all
qed

lemma frame_addr_small: "s < 2 ^ 19 \<Longrightarrow> frame_addr s = of_nat (s * 4096)"
proof -
  assume s: "s < 2 ^ 19"
  have "s32 (int s * 4096) = int s * 4096" unfolding s32_def
    by (rule signed_take_bit_int_eq_self) (use s in simp_all)
  then show ?thesis by (simp add: frame_addr_def)
qed

lemma unat_addr: "k < 2 ^ 20 \<Longrightarrow> unat (of_nat (k * 4096) :: u64) = k * 4096"
  by (simp only: unat_of_nat) simp

lemma free_frame_eq:
  assumes "k < 64 * length bm" and "64 * length bm \<le> 2 ^ 20"
  shows "free_frame (of_nat (k * 4096)) bm = Some (clear_frame k bm)"
proof -
  have u: "unat (of_nat (k * 4096) :: u64) = k * 4096" using assms by (intro unat_addr) simp
  have "get_index (of_nat (k * 4096)) = k div 64" "get_offset (of_nat (k * 4096)) = k mod 64"
    unfolding get_index_def get_offset_def u
    using div_mult2_eq [of "k * 4096" 4096 64] by (simp_all add: mult.commute)
  moreover have "k div 64 < length bm" using assms(1) by (simp add: less_mult_imp_div_less mult.commute)
  moreover have "k div 64 < 2 ^ 32" using assms by simp
  ultimately show ?thesis by (simp add: free_frame_def clear_frame_def Let_def)
qed

lemma free_frames_clears:
  "a + n \<le> 64 * length bm \<Longrightarrow> 64 * length bm \<le> 2 ^ 20 \<Longrightarrow>
   \<exists>bm'. free_frames (of_nat (a * 4096)) n bm = Some bm' \<and> length bm' = length bm \<and>
     (\<forall>j. used bm' j \<longleftrightarrow> used bm j \<and> \<not> (a \<le> j \<and> j < a + n))"
proof (induction n arbitrary: a bm)
  case (Suc n)
  have a: "a < 64 * length bm" using Suc.prems(1) by simp
  note c = clear_frame_used [OF a]
  have n: "of_nat (a * 4096) + 4096 = (of_nat ((a + 1) * 4096) :: u64)" by (simp add: algebra_simps)
  have "a + 1 + n \<le> 64 * length (clear_frame a bm)" "64 * length (clear_frame a bm) \<le> 2 ^ 20"
    using Suc.prems c(1) by simp_all
  from Suc.IH [OF this] obtain bm' where
    bm': "free_frames (of_nat ((a + 1) * 4096)) n (clear_frame a bm) = Some bm'"
      "length bm' = length (clear_frame a bm)"
      "\<forall>j. used bm' j \<longleftrightarrow> used (clear_frame a bm) j \<and> \<not> (a + 1 \<le> j \<and> j < a + 1 + n)" by blast
  have "free_frames (of_nat (a * 4096)) (Suc n) bm = Some bm'"
    unfolding free_frames.simps free_frame_eq [OF a Suc.prems(2)] bind.simps n by (rule bm'(1))
  moreover have "used bm' j \<longleftrightarrow> used bm j \<and> \<not> (a \<le> j \<and> j < a + Suc n)" for j
    unfolding spec [OF bm'(3), of j] c(2) by auto
  ultimately have "free_frames (of_nat (a * 4096)) (Suc n) bm = Some bm' \<and> length bm' = length bm \<and>
     (\<forall>j. used bm' j \<longleftrightarrow> used bm j \<and> \<not> (a \<le> j \<and> j < a + Suc n))"
    using bm'(2) c(1) by simp
  then show ?case by (rule exI)
next
  case 0
  show ?case by (intro exI [of _ bm]) simp
qed

text \<open>The allocator of up to 2 GB of memory, by frame numbers.\<close>

definition frames_avail :: "bitmap \<Rightarrow> nat set" where
  "frames_avail bm = {k. k < 64 * length bm \<and> \<not> used bm k}"

definition below_2G :: "bitmap \<Rightarrow> bool" where
  "below_2G bm \<longleftrightarrow> 64 * length bm \<le> 2 ^ 19 \<and> used bm 0"

definition frame_alloc :: "nat \<Rightarrow> bitmap \<Rightarrow> (nat \<times> bitmap) option" where
  "frame_alloc n bm = map_option (\<lambda>(addr, bm'). (unat addr div 4096, bm')) (alloc_frames n bm)"

definition frame_release :: "nat \<Rightarrow> nat \<Rightarrow> bitmap \<Rightarrow> bitmap option" where
  "frame_release a n bm =
     (if a + n \<le> 64 * length bm \<and> (n = 0 \<or> 0 < a) then free_frames (of_nat (a * 4096)) n bm else None)"

interpretation fr: region_allocator frame_alloc frame_release frames_avail below_2G
proof
  show "below_2G bm' \<and> region (a, n) \<subseteq> frames_avail bm \<and> frames_avail bm' = frames_avail bm - region (a, n)"
    if v: "below_2G bm" and al: "frame_alloc n bm = Some (a, bm')" for bm n a bm'
  proof (cases "n = 0")
    case True
    with v al show ?thesis by (auto simp: frame_alloc_def alloc_frames_def region_def)
  next
    case False
    then obtain s where s: "first_fit n bm = Some s"
      using al alloc_frames_eq(1) [of n bm] by (cases "first_fit n bm") (auto simp: frame_alloc_def)
    have "frame_addr s \<noteq> 0" using first_fit_addr [OF _ _ _ s] v False by (simp add: below_2G_def)
    then have bm': "bm' = fold set_frame [s..<s + n] bm" and a: "a = unat (frame_addr s) div 4096"
      using al alloc_frames_eq(2) [OF _ s] False by (auto simp: frame_alloc_def)
    have r: "s + n \<le> 64 * length bm" "free_run (used bm) n s" using first_fit_SomeD [OF _ s] False by simp_all
    have "s < 2 ^ 19" using r False v by (simp add: below_2G_def)
    then have "a = s" unfolding a using unat_addr [of s] by (simp add: frame_addr_small)
    moreover have "\<not> used bm k" if "s \<le> k" "k < s + n" for k
      using r(2) that unfolding free_run_def by (metis le_add_diff_inverse less_diff_conv2 add.commute)
    ultimately show ?thesis using fold_set_frame [OF r(1)] r(1) v
      by (auto simp: frames_avail_def region_def below_2G_def bm')
  qed
  show "below_2G bm' \<and> frames_avail bm' = frames_avail bm \<union> region (a, n)"
    if v: "below_2G bm" and "region (a, n) \<inter> frames_avail bm = {}" and rl: "frame_release a n bm = Some bm'"
    for bm a n bm'
  proof -
    have r: "a + n \<le> 64 * length bm" and a0: "n = 0 \<or> 0 < a"
      using rl by (auto simp: frame_release_def split: if_splits)
    have "64 * length bm \<le> 2 ^ 20" using v by (simp add: below_2G_def)
    from free_frames_clears [OF r this] obtain b where
      b: "free_frames (of_nat (a * 4096)) n bm = Some b" "length b = length bm"
        "\<forall>j. used b j \<longleftrightarrow> used bm j \<and> \<not> (a \<le> j \<and> j < a + n)" by blast
    have "bm' = b" using rl r a0 unfolding frame_release_def b(1) by simp
    moreover have "k < 64 * length b \<and> \<not> used b k \<longleftrightarrow> k < 64 * length bm \<and> \<not> used bm k \<or> k \<in> region (a, n)" for k
      unfolding spec [OF b(3), of k] b(2) using r by (auto simp: region_def)
    moreover have "used b 0" using spec [OF b(3), of 0] v a0 by (auto simp: below_2G_def)
    ultimately show ?thesis using v b(2) by (auto simp: frames_avail_def below_2G_def)
  qed
qed

text \<open>
  C17. Allocation is first fit: the frames given are the first \<open>n\<close> consecutive free ones of the
  bitmap, they are marked used and no other bit changes; it panics exactly when there are none.
  (Frame 0 is reserved, and there are at most 4 GB.)
\<close>

theorem alloc_frames_is_first_fit:
  assumes "0 < n" and "used bm 0" and "64 * length bm \<le> 2 ^ 20"
  shows "case first_fit n bm of
      None \<Rightarrow> alloc_frames n bm = None
    | Some s \<Rightarrow> \<exists>bm'. alloc_frames n bm = Some (frame_addr s, bm') \<and> length bm' = length bm
        \<and> s + n \<le> 64 * length bm \<and> (\<forall>j. used bm' j \<longleftrightarrow> used bm j \<or> (s \<le> j \<and> j < s + n))"
  using first_fit_SomeD [OF assms(1), of bm] fold_set_frame [of _ n bm] first_fit_addr [OF assms(2,3,1)]
  by (cases "first_fit n bm") (auto simp: alloc_frames_eq [OF assms(1)])

theorem alloc_frames_is_first_fit_witness:
  "first_fit 2 [5, 0] = Some 3 \<and> (\<exists>bm'. alloc_frames 2 [5, 0] = Some (12288, bm') \<and> used bm' 4)"
proof -
  have f: "first_fit 2 [5, 0] = Some 3"
    by (simp add: first_fit_def free_run_def used_def upt_rec All_less_Suc numeral_2_eq_2)
  have "frame_addr 3 = 12288" by (simp add: frame_addr_small)
  moreover have "used [5, 0] 0" by (simp add: used_def)
  ultimately show ?thesis using alloc_frames_is_first_fit [of 2 "[5, 0]"] f by auto
qed

text \<open>
  C18. On a machine with up to 2 GB whose frame 0 is reserved, over any sequence of allocations and releases of owned blocks,
  no frame is owned twice or both owned and available, and the frames owned and available together
  stay the same.
\<close>

theorem frames_never_shared:
  assumes "64 * length bm \<le> 2 ^ 19" and "used bm 0" and "fr.region_run ops [] bm = Some (owned, bm')"
  shows "sorted_wrt (\<lambda>b b'. region b \<inter> region b' = {}) owned
    \<and> (\<forall>b \<in> set owned. region b \<inter> frames_avail bm' = {})
    \<and> frames_avail bm' \<union> \<Union> (region ` set owned) = frames_avail bm"
  using fr.region_run_apart [OF _ _ assms(3)] assms(1,2) by (simp add: fr.apart_def below_2G_def)

theorem frames_never_shared_witness:
  "\<exists>owned bm'. fr.region_run [Alloc 2, Alloc 1, Release 0] [] [5, 0] = Some (owned, bm') \<and> owned = [(3, 2)]
     \<and> frames_avail bm' \<union> {3..<5} = frames_avail [5, 0]"
proof -
  let ?b = "set_frame 4 (set_frame 3 [5, 0])"
  have f1: "first_fit 2 [5, 0] = Some 3"
    by (simp add: first_fit_def free_run_def used_def upt_rec All_less_Suc numeral_2_eq_2)
  have b: "?b = [29, 0]" by (simp add: set_frame_def set_bit_eq_or)
  have f2: "first_fit 1 [29, 0] = Some 1"
    by (simp add: first_fit_def free_run_def used_def upt_rec)
  have a1: "frame_alloc 2 [5, 0] = Some (3, [29, 0])"
    using b by (simp add: frame_alloc_def alloc_frames_eq(2) [OF _ f1] frame_addr_small upt_rec)
  have a2: "frame_alloc (Suc 0) [29, 0] = Some (Suc 0, [31, 0])"
    by (simp add: frame_alloc_def alloc_frames_eq(2) [OF _ f2 [simplified]] frame_addr_small set_frame_def set_bit_eq_or)
  have r: "frame_release (Suc 0) (Suc 0) [31, 0] = Some [29, 0]"
    using free_frame_eq [of 1 "[31, 0]"]
    by (simp add: frame_release_def clear_frame_def unset_bit_eq_and_not)
  have run: "fr.region_run [Alloc 2, Alloc 1, Release 0] [] [5, 0] = Some ([(3, 2)], [29, 0])"
    by (simp add: a1 a2 r)
  from frames_never_shared [OF _ _ run] run show ?thesis by (simp add: region_def used_def)
qed

text \<open>
  Memory beyond 2 GB: when the frames below 2 GB are taken and the next one is free, the address
  given for it is \<open>0xFFFFFFFF80000000\<close> (the \<open>int\<close> product wraps before it is widened), no
  frame of the machine, and freeing it indexes outside the bitmap.
\<close>

theorem frame_address_wraps:
  assumes "\<forall>k < 2 ^ 19. used bm k" and "\<not> used bm (2 ^ 19)"
    and "2 ^ 19 < 64 * length bm" and "length bm \<le> 2 ^ 31"
  shows "alloc_frames 1 bm = Some (0xFFFFFFFF80000000, set_frame (2 ^ 19) bm)
    \<and> free_frames 0xFFFFFFFF80000000 1 (set_frame (2 ^ 19) bm) = None"
proof -
  have "first_fit 1 bm = Some (2 ^ 19)"
    unfolding first_fit_def find_Some_iff
    using assms(1-3) by (intro exI [of _ "2 ^ 19"]) (simp add: free_run_def)
  moreover have "frame_addr (2 ^ 19) = 0xFFFFFFFF80000000"
    by (simp add: frame_addr_def s32_def)
  moreover have "get_index 0xFFFFFFFF80000000 mod 2 ^ 32 = 2 ^ 32 - 2 ^ 13"
    by (simp add: get_index_def)
  then have "free_frame 0xFFFFFFFF80000000 (set_frame (2 ^ 19) bm) = None"
    using assms(4) by (simp add: free_frame_def set_frame_def Let_def)
  ultimately show ?thesis using alloc_frames_eq(2) [of 1 bm "2 ^ 19"] by simp
qed

theorem frame_address_wraps_witness:
  "alloc_frames 1 (replicate 8192 (- 1) @ [0]) =
     Some (0xFFFFFFFF80000000, set_frame (2 ^ 19) (replicate 8192 (- 1) @ [0]))"
proof -
  have "used (replicate 8192 (- 1) @ [0]) k" if "k < 2 ^ 19" for k
    using that by (simp add: used_def nth_append less_mult_imp_div_less)
  then show ?thesis
    using frame_address_wraps [of "replicate 8192 (- 1) @ [0]"]
    by (simp add: used_def nth_append)
qed

end
