(* ===== verification/KHeap.thy ===== *)
theory KHeap imports FrameAlloc begin

text \<open>
  The kernel heap, \<open>mm/kmalloc.c\<close> (with \<open>lib/math/log2.c\<close>): superblocks of one page for
  each size class and CPU, large allocations of whole pages, and frees by another CPU.

  Addresses are offsets into the direct map of physical memory; the page at address \<open>4096 * f\<close>
  is frame \<open>f\<close>.  A superblock header is found by the address of its page.  The free list that
  is threaded through the free blocks is the list of their addresses, and a bucket's list of
  superblocks the list of their pages.  \<open>None\<close> is a panic, a failed assertion or an access to a
  page that is no superblock.
\<close>

section \<open>Powers of two\<close>

definition next_pow_2 :: "u64 \<Rightarrow> u64" where
  "next_pow_2 n =
     (let x0 = n - 1; x1 = x0 OR drop_bit 1 x0 in
      fold (\<lambda>i x. x OR drop_bit i x) [2..<9] x1 + 1)"

definition tab32 :: "nat list" where
  "tab32 = [0, 9, 1, 10, 13, 21, 2, 29, 11, 14, 16, 18, 22, 25, 3, 30,
            8, 12, 20, 28, 15, 17, 24, 7, 19, 27, 23, 6, 26, 5, 4, 31]"

definition log2 :: "u32 \<Rightarrow> nat" where
  "log2 v =
     (let v1 = v OR drop_bit 1 v; v2 = v1 OR drop_bit 2 v1; v3 = v2 OR drop_bit 4 v2;
          v4 = v3 OR drop_bit 8 v3; v5 = v4 OR drop_bit 16 v4 in
      tab32 ! unat (drop_bit 27 (v5 * 0x07C4ACDD)))"

section \<open>Superblocks\<close>

text \<open>\<open>alloc_size\<close> and \<open>num_pages\<close> share their place in the header: \<open>asize\<close>.\<close>

record sb_header =
  sb_free :: "nat list"
  canary :: nat
  asize :: nat
  free_count :: nat
  is_large :: bool
  hcpu :: nat

record sb_list =
  sbs :: "nat list"
  b_alloc_size :: nat
  b_free_count :: nat
  num_sb :: nat

record kmem_cpu =
  remote_free_list :: "(nat \<times> nat) list"
  buckets :: "nat \<Rightarrow> sb_list"

record kheap =
  hdr :: "nat \<Rightarrow> sb_header option"
  kmem :: "nat \<Rightarrow> kmem_cpu"
  pg :: bitmap

abbreviation "HDR_SIZE \<equiv> 32 :: nat"
abbreviation "SUPERBLOCKSIZE \<equiv> 4096 :: nat"

definition bucket_of :: "nat \<Rightarrow> nat \<Rightarrow> kheap \<Rightarrow> sb_list" where
  "bucket_of c i h = buckets (kmem h c) i"

definition set_bucket :: "nat \<Rightarrow> nat \<Rightarrow> sb_list \<Rightarrow> kheap \<Rightarrow> kheap" where
  "set_bucket c i b h = h\<lparr>kmem := (kmem h)(c := (kmem h c)\<lparr>buckets := (buckets (kmem h c))(i := b)\<rparr>)\<rparr>"

definition sb_slots :: "nat \<Rightarrow> nat \<Rightarrow> nat list" where
  "sb_slots base sz =
     map (\<lambda>i. (if sz > HDR_SIZE then base + sz else base + HDR_SIZE) + i * sz) [0..<(SUPERBLOCKSIZE - HDR_SIZE) div sz]"

definition get_free_pages :: "nat \<Rightarrow> kheap \<Rightarrow> (nat \<times> kheap) option" where
  "get_free_pages n h = map_option (\<lambda>(f, bm). (4096 * f, h\<lparr>pg := bm\<rparr>)) (frame_alloc n (pg h))"

definition free_pages_at :: "nat \<Rightarrow> nat \<Rightarrow> kheap \<Rightarrow> kheap option" where
  "free_pages_at base n h =
     map_option (\<lambda>bm. h\<lparr>pg := bm, hdr := (hdr h)(base := None)\<rparr>) (frame_release (base div 4096) n (pg h))"

definition init_super :: "nat \<Rightarrow> nat \<Rightarrow> nat \<Rightarrow> nat \<Rightarrow> kheap \<Rightarrow> kheap" where
  "init_super base sz c i h =
     (let n = (SUPERBLOCKSIZE - HDR_SIZE) div sz; b = bucket_of c i h in
      set_bucket c i (b\<lparr>b_free_count := b_free_count b + n, num_sb := num_sb b + 1, b_alloc_size := sz\<rparr>)
        (h\<lparr>hdr := (hdr h)(base := Some \<lparr>sb_free = sb_slots base sz, canary = 0xDEAD, asize = sz,
                                       free_count = n, is_large = False, hcpu = c\<rparr>)\<rparr>))"

definition sb_atf :: "nat \<Rightarrow> sb_list \<Rightarrow> sb_list" where
  "sb_atf base b = b\<lparr>sbs := base # sbs b\<rparr>"

definition sb_mtf :: "nat \<Rightarrow> sb_list \<Rightarrow> sb_list" where
  "sb_mtf base b = b\<lparr>sbs := base # remove1 base (sbs b)\<rparr>"

text \<open>An empty superblock is kept while the bucket has at most 10: the heap, and whether it is left.\<close>

definition manage_empty_sb :: "nat \<Rightarrow> nat \<Rightarrow> nat \<Rightarrow> kheap \<Rightarrow> (bool \<times> kheap) option" where
  "manage_empty_sb base c i h =
     (let b = bucket_of c i h in
      if num_sb b > 10 then
        (case hdr h base of
           None \<Rightarrow> None
         | Some hd0 \<Rightarrow>
             if sbs b = [base] then None
             else map_option (\<lambda>h1. (False, h1))
                    (free_pages_at base 1
                       (set_bucket c i (b\<lparr>sbs := remove1 base (sbs b), num_sb := num_sb b - 1,
                                          b_free_count := b_free_count b - free_count hd0\<rparr>) h)))
      else Some (True, h))"

section \<open>Allocation\<close>

definition sb_count :: "kheap \<Rightarrow> nat \<Rightarrow> nat" where
  "sb_count h a = (case hdr h a of None \<Rightarrow> 0 | Some hd0 \<Rightarrow> free_count hd0)"

text \<open>The last step of \<open>malloc_small\<close>: a block is taken off the free list of the superblock.\<close>

definition take_block :: "nat \<Rightarrow> nat \<Rightarrow> nat \<Rightarrow> nat \<Rightarrow> kheap \<Rightarrow> (nat \<times> kheap) option" where
  "take_block base sz c i h =
     (case hdr h base of
        None \<Rightarrow> None
      | Some hd0 \<Rightarrow>
          (case sb_free hd0 of
             [] \<Rightarrow> None
           | p # ps \<Rightarrow>
               (let b = bucket_of c i h in
                if free_count hd0 > 0 \<and> b_alloc_size b = sz \<and> p mod sz = 0
                then Some (p, set_bucket c i (b\<lparr>b_free_count := b_free_count b - 1\<rparr>)
                       (h\<lparr>hdr := (hdr h)(base := Some (hd0\<lparr>sb_free := ps, free_count := free_count hd0 - 1\<rparr>))\<rparr>))
                else None)))"

definition malloc_small :: "nat \<Rightarrow> nat \<Rightarrow> kheap \<Rightarrow> (nat \<times> kheap) option" where
  "malloc_small c n h =
     (let sz = (if n < 8 then 8 else unat (next_pow_2 (of_nat n))); i = log2 (of_nat sz) - 3; b = bucket_of c i h in
      if sz > SUPERBLOCKSIZE div 2 then None
      else if b_free_count b = 0 then
        (case get_free_pages 1 h of
           None \<Rightarrow> None
         | Some (base, h1) \<Rightarrow>
             (let h2 = init_super base sz c i h1 in
              take_block base sz c i (set_bucket c i (sb_atf base (bucket_of c i h2)) h2)))
      else
        (case List.find (\<lambda>a. sb_count h a \<noteq> 0) (sbs b) of
           None \<Rightarrow> None
         | Some base \<Rightarrow>
             take_block base sz c i
               (if sb_count h base > 1 \<and> base \<noteq> hd (sbs b) then set_bucket c i (sb_mtf base b) h else h)))"

definition malloc_large :: "nat \<Rightarrow> kheap \<Rightarrow> (nat \<times> kheap) option" where
  "malloc_large n h =
     (let pages = (n + HDR_SIZE) div 4096 + 1 in
      case get_free_pages pages h of
        None \<Rightarrow> None
      | Some (base, h1) \<Rightarrow>
          Some (base + HDR_SIZE,
            h1\<lparr>hdr := (hdr h1)(base := Some \<lparr>sb_free = [base + HDR_SIZE], canary = 0, asize = pages mod 2 ^ 16,
                                             free_count = 0, is_large = True, hcpu = 0\<rparr>)\<rparr>))"

text \<open>Address 0 is the null pointer.\<close>

definition kmalloc :: "nat \<Rightarrow> nat \<Rightarrow> kheap \<Rightarrow> (nat \<times> kheap) option" where
  "kmalloc c n h =
     (if n = 0 then Some (0, h)
      else if CONFIG_MAX_CPUS \<le> c then None
      else if n > SUPERBLOCKSIZE div 2 then malloc_large n h else malloc_small c n h)"

section \<open>Release\<close>

definition free_block :: "nat \<Rightarrow> nat \<Rightarrow> nat \<Rightarrow> kheap \<Rightarrow> kheap option" where
  "free_block c ptr base h =
     (case hdr h base of
        None \<Rightarrow> None
      | Some hd0 \<Rightarrow>
          (let step = asize hd0; i = log2 (of_nat step) - 3; b = bucket_of c i h;
               hd1 = hd0\<lparr>sb_free := ptr # sb_free hd0, free_count := free_count hd0 + 1\<rparr>;
               h1 = set_bucket c i (b\<lparr>b_free_count := b_free_count b + 1\<rparr>) (h\<lparr>hdr := (hdr h)(base := Some hd1)\<rparr>);
               full = (SUPERBLOCKSIZE - HDR_SIZE) div step in
           if ptr mod step \<noteq> 0 \<or> free_count hd1 > full then None
           else (case (if free_count hd1 = full then manage_empty_sb base c i h1 else Some (True, h1)) of
                   None \<Rightarrow> None
                 | Some (left, h2) \<Rightarrow>
                     (let b2 = bucket_of c i h2 in
                      Some (if left \<and> base \<noteq> hd (sbs b2) then set_bucket c i (sb_mtf base b2) h2 else h2)))))"

definition remote_free :: "nat \<Rightarrow> nat \<Rightarrow> nat \<Rightarrow> kheap \<Rightarrow> kheap option" where
  "remote_free c owner ptr h =
     map_option (\<lambda>(rf, h1). h1\<lparr>kmem := (kmem h1)(owner := (kmem h1 owner)
         \<lparr>remote_free_list := (rf, ptr) # remote_free_list (kmem h1 owner)\<rparr>)\<rparr>)
       (kmalloc c 16 h)"

text \<open>
  \<open>kfree\<close> when no frees by other CPUs are pending, as it is while they are carried out: their list
  has been taken off by then, and a free of a block of another CPU adds to the list of that one.
\<close>

definition kfree_one :: "nat \<Rightarrow> nat \<Rightarrow> kheap \<Rightarrow> kheap option" where
  "kfree_one c ptr h =
     (if ptr = 0 then Some h
      else
        (let base = ptr - ptr mod 4096 in
         case hdr h base of
           None \<Rightarrow> None
         | Some hd0 \<Rightarrow>
             if is_large hd0 then free_pages_at base (asize hd0) h
             else if hcpu hd0 \<noteq> c then remote_free c (hcpu hd0) ptr h
             else free_block c ptr base h))"

fun drain :: "nat \<Rightarrow> (nat \<times> nat) list \<Rightarrow> kheap \<Rightarrow> kheap option" where
  "drain c [] h = Some h"
| "drain c ((rf, ptr) # rs) h =
     (case kfree_one c ptr h of
        None \<Rightarrow> None
      | Some h1 \<Rightarrow> (case kfree_one c rf h1 of None \<Rightarrow> None | Some h2 \<Rightarrow> drain c rs h2))"

definition kfree :: "nat \<Rightarrow> nat \<Rightarrow> kheap \<Rightarrow> kheap option" where
  "kfree c ptr h =
     (if ptr = 0 then Some h
      else
        (let base = ptr - ptr mod 4096 in
         case hdr h base of
           None \<Rightarrow> None
         | Some hd0 \<Rightarrow>
             if is_large hd0 then free_pages_at base (asize hd0) h
             else if hcpu hd0 \<noteq> c then remote_free c (hcpu hd0) ptr h
             else
               (case drain c (remote_free_list (kmem h c))
                       (h\<lparr>kmem := (kmem h)(c := (kmem h c)\<lparr>remote_free_list := []\<rparr>)\<rparr>) of
                  None \<Rightarrow> None
                | Some h1 \<Rightarrow> free_block c ptr base h1)))"

text \<open>
  The rest of the interface.  \<open>kzmalloc\<close> and \<open>krealloc\<close> also give what is written to memory:
  the block that is cleared, and the copy (to, from, bytes) that is made.
\<close>

definition kzmalloc :: "nat \<Rightarrow> nat \<Rightarrow> kheap \<Rightarrow> (nat \<times> (nat \<times> nat) option \<times> kheap) option" where
  "kzmalloc c n h =
     map_option (\<lambda>(p, h1). (p, if p \<noteq> 0 then Some (p, n) else None, h1)) (kmalloc c n h)"

definition kcalloc :: "nat \<Rightarrow> nat \<Rightarrow> nat \<Rightarrow> kheap \<Rightarrow> (nat \<times> (nat \<times> nat) option \<times> kheap) option" where
  "kcalloc c num n h = kzmalloc c ((num * n) mod 2 ^ 64) h"

definition krealloc ::
  "nat \<Rightarrow> nat \<Rightarrow> nat \<Rightarrow> kheap \<Rightarrow> (nat \<times> (nat \<times> nat \<times> nat) option \<times> kheap) option" where
  "krealloc c addr n h =
     (if addr = 0 then map_option (\<lambda>(p, h1). (p, None, h1)) (kmalloc c n h)
      else if n = 0 then map_option (\<lambda>h1. (0, None, h1)) (kfree c addr h)
      else
        (case hdr h (addr - addr mod 4096) of
           None \<Rightarrow> None
         | Some hd0 \<Rightarrow>
             (let room = (if is_large hd0 then asize hd0 * 4096 - HDR_SIZE else asize hd0) in
              if n \<le> room then Some (addr, None, h)
              else (case kmalloc c n h of
                      None \<Rightarrow> None
                    | Some (p, h1) \<Rightarrow>
                        if p = 0 then Some (0, None, h1)
                        else map_option (\<lambda>h2. (p, Some (p, addr, room), h2)) (kfree c addr h1)))))"

section \<open>Rounding up to a power of two\<close>

text \<open>\<open>y\<close> has each bit of \<open>x\<close> smeared over the \<open>m\<close> places below it.\<close>

definition smears :: "nat \<Rightarrow> 'a::len word \<Rightarrow> 'a word \<Rightarrow> bool" where
  "smears m x y \<longleftrightarrow> (\<forall>i. bit y i \<longleftrightarrow> (\<exists>s \<le> m. bit x (i + s)))"

lemma smears_0: "smears 0 x x"
  by (simp add: smears_def)

lemma smears_step:
  assumes "smears m x y" and "k \<le> m + 1" and "n = m + k"
  shows "smears n x (y OR drop_bit k y)"
proof -
  have "(\<exists>s \<le> m. bit x (i + s)) \<or> (\<exists>s \<le> m. bit x (k + i + s)) \<longleftrightarrow> (\<exists>s \<le> n. bit x (i + s))" for i
  proof (intro iffI)
    assume "\<exists>s \<le> n. bit x (i + s)"
    then obtain s where s: "s \<le> n" "bit x (i + s)" by blast
    show "(\<exists>s \<le> m. bit x (i + s)) \<or> (\<exists>s \<le> m. bit x (k + i + s))"
    proof (cases "s \<le> m")
      case False
      then have "s - k \<le> m" "k + i + (s - k) = i + s" using s(1) assms(2,3) by simp_all
      then show ?thesis using s(2) by metis
    qed (use s in blast)
  next
    assume "(\<exists>s \<le> m. bit x (i + s)) \<or> (\<exists>s \<le> m. bit x (k + i + s))"
    then show "\<exists>s \<le> n. bit x (i + s)"
    proof
      assume "\<exists>s \<le> m. bit x (k + i + s)"
      then obtain s where "s \<le> m" "bit x (i + (s + k))" by (auto simp: ac_simps)
      then show ?thesis using assms(3) by (intro exI [of _ "s + k"]) simp
    next
      assume "\<exists>s \<le> m. bit x (i + s)"
      then show ?thesis using assms(3) by (metis trans_le_add1)
    qed
  qed
  then show ?thesis using assms(1) by (simp add: smears_def bit_or_iff bit_drop_bit_eq)
qed

lemma highest_bit:
  fixes x :: "'a::len word"
  assumes "x \<noteq> 0"
  obtains h where "bit x h" "h < LENGTH('a)" "\<forall>j > h. \<not> bit x j"
proof -
  let ?B = "{i. bit x i}"
  have fin: "finite ?B" by (rule finite_subset [of _ "{..<LENGTH('a)}"]) (auto dest: bit_imp_le_length)
  have ne: "?B \<noteq> {}" using assms by (auto simp: bit_eq_iff)
  have "bit x (Max ?B)" using Max_in [OF fin ne] by simp
  moreover have "\<not> bit x j" if "Max ?B < j" for j
    using Max_ge [OF fin, of j] that by (metis leD mem_Collect_eq)
  ultimately show thesis using that bit_imp_le_length by blast
qed

lemma smears_mask:
  assumes "smears m x y" and "bit x h" and "\<forall>j > h. \<not> bit x j" and "h \<le> m"
  shows "y = mask (Suc h)"
proof (rule bit_word_eqI)
  fix i
  have "(\<exists>s \<le> m. bit x (i + s)) \<longleftrightarrow> i \<le> h"
  proof
    assume "i \<le> h"
    then show "\<exists>s \<le> m. bit x (i + s)" using assms(2,4) by (intro exI [of _ "h - i"]) simp
  qed (use assms(3) in \<open>auto simp: not_less [symmetric]\<close>)
  moreover assume "i < LENGTH('a)"
  ultimately show "bit y i = bit (mask (Suc h) :: 'a word) i"
    using assms(1) by (simp add: smears_def bit_mask_iff less_Suc_eq_le)
qed

lemma highest_bit_bounds:
  fixes x :: "'a::len word"
  assumes "bit x h" and "\<forall>j > h. \<not> bit x j"
  shows "2 ^ h \<le> unat x" "unat x < 2 ^ Suc h"
proof -
  have "take_bit (Suc h) x = x"
    by (rule bit_eqI) (use assms(2) in \<open>auto simp: bit_take_bit_iff less_Suc_eq_le not_less [symmetric]\<close>)
  then show "unat x < 2 ^ Suc h" by (metis take_bit_nat_less_exp unsigned_take_bit_eq)
  have "bit (unat x) h" using assms(1) by (simp add: bit_unsigned_iff)
  then show "2 ^ h \<le> unat x"
    by (metis bit_iff_odd div_less even_zero not_less)
qed

lemma next_pow_2_smears:
  "\<exists>y. smears 36 (n - 1) y \<and> next_pow_2 n = y + 1"
proof -
  let ?f = "\<lambda>i x. x OR drop_bit i x" and ?x = "n - 1 :: u64"
  have "smears 1 ?x (?f 1 ?x)" by (rule smears_step [OF smears_0]) simp_all
  then have "smears 3 ?x (?f 2 (?f 1 ?x))" by (rule smears_step) simp_all
  then have "smears 6 ?x (?f 3 (?f 2 (?f 1 ?x)))" by (rule smears_step) simp_all
  then have "smears 10 ?x (?f 4 (?f 3 (?f 2 (?f 1 ?x))))" by (rule smears_step) simp_all
  then have "smears 15 ?x (?f 5 (?f 4 (?f 3 (?f 2 (?f 1 ?x)))))" by (rule smears_step) simp_all
  then have "smears 21 ?x (?f 6 (?f 5 (?f 4 (?f 3 (?f 2 (?f 1 ?x))))))" by (rule smears_step) simp_all
  then have "smears 28 ?x (?f 7 (?f 6 (?f 5 (?f 4 (?f 3 (?f 2 (?f 1 ?x)))))))" by (rule smears_step) simp_all
  then have "smears 36 ?x (?f 8 (?f 7 (?f 6 (?f 5 (?f 4 (?f 3 (?f 2 (?f 1 ?x))))))))" by (rule smears_step) simp_all
  moreover have "[2..<9] = [2, 3, 4, 5, 6, 7, 8]" by (simp add: upt_rec)
  ultimately show ?thesis unfolding next_pow_2_def Let_def by (intro exI) (rule conjI, assumption, simp)
qed

text \<open>The least power of two that is large enough.\<close>

lemma next_pow_2_least:
  assumes "0 < n" and "n \<le> 2 ^ 37"
  obtains k where "unat (next_pow_2 (of_nat n)) = 2 ^ k" "n \<le> 2 ^ k" "\<forall>j < k. 2 ^ j < n"
proof -
  let ?x = "of_nat n - 1 :: u64"
  have ux: "unat ?x = n - 1"
  proof -
    have "?x = of_nat (n - 1)" using assms(1) by (simp add: of_nat_diff)
    moreover have "n - 1 < 2 ^ 64" using assms(2) by simp
    ultimately show ?thesis by (simp add: unat_of_nat take_bit_nat_eq_self)
  qed
  obtain y where y: "smears 36 ?x y" "next_pow_2 (of_nat n) = y + 1" using next_pow_2_smears by blast
  show thesis
  proof (cases "?x = 0")
    case True
    then have "y = 0" using y(1) by (intro bit_word_eqI) (simp add: smears_def)
    moreover have "n = 1" using ux True assms(1) by simp
    ultimately show thesis using that [of 0] y(2) by simp
  next
    case False
    obtain h where h: "bit ?x h" "\<forall>j > h. \<not> bit ?x j" using highest_bit [OF False] by metis
    note b = highest_bit_bounds [OF h, unfolded ux]
    have "(2 :: nat) ^ h < 2 ^ 37" using b(1) assms by simp
    then have h36: "h \<le> 36" by (metis less_Suc_eq_le nat_power_less_imp_less numeral_eq_Suc pred_numeral_simps(3) zero_less_numeral Suc_numeral add_Suc_right numeral_plus_one semiring_norm(2,3,4,5,8))
    have "y = mask (Suc h)" by (rule smears_mask [OF y(1) h h36])
    then have "next_pow_2 (of_nat n) = 2 ^ Suc h" using y(2) by (simp add: mask_eq_exp_minus_1)
    moreover have "unat (2 ^ Suc h :: u64) = 2 ^ Suc h"
    proof -
      have "(2 :: nat) ^ Suc h < 2 ^ 64" using h36 by (intro power_strict_increasing) simp_all
      then have "unat (of_nat (2 ^ Suc h) :: u64) = 2 ^ Suc h"
        by (simp only: unat_of_nat) (simp add: take_bit_nat_eq_self)
      then show ?thesis by simp
    qed
    moreover have "2 ^ j < n" if "j < Suc h" for j
    proof -
      have "(2 :: nat) ^ j \<le> 2 ^ h" using that by simp
      then show ?thesis using b(1) assms(1) by linarith
    qed
    ultimately show thesis using that [of "Suc h"] b(2) by simp
  qed
qed

text \<open>The table finds the highest bit.\<close>

lemma tab32_mask: "h < 32 \<Longrightarrow> tab32 ! unat (drop_bit 27 ((mask (Suc h) :: u32) * 0x07C4ACDD)) = h"
proof -
  have "\<forall>h \<in> set [0..<32]. tab32 ! unat (drop_bit 27 ((mask (Suc h) :: u32) * 0x07C4ACDD)) = h"
    by code_simp
  then show "h < 32 \<Longrightarrow> tab32 ! unat (drop_bit 27 ((mask (Suc h) :: u32) * 0x07C4ACDD)) = h" by simp
qed

lemma log2_highest:
  assumes "0 < v"
  shows "2 ^ log2 v \<le> unat v" "unat v < 2 ^ Suc (log2 v)"
proof -
  let ?f = "\<lambda>i x. x OR drop_bit i x"
  have "smears 1 v (?f 1 v)" by (rule smears_step [OF smears_0]) simp_all
  then have "smears 3 v (?f 2 (?f 1 v))" by (rule smears_step) simp_all
  then have "smears 7 v (?f 4 (?f 2 (?f 1 v)))" by (rule smears_step) simp_all
  then have "smears 15 v (?f 8 (?f 4 (?f 2 (?f 1 v))))" by (rule smears_step) simp_all
  then have s: "smears 31 v (?f 16 (?f 8 (?f 4 (?f 2 (?f 1 v)))))" by (rule smears_step) simp_all
  have "v \<noteq> 0" using assms by auto
  then obtain h where h: "bit v h" "h < LENGTH(32)" "\<forall>j > h. \<not> bit v j" by (rule highest_bit)
  have h32: "h < 32" using h(2) by simp
  have "?f 16 (?f 8 (?f 4 (?f 2 (?f 1 v)))) = mask (Suc h)"
    by (rule smears_mask [OF s h(1,3)]) (use h32 in simp)
  then have "log2 v = h" unfolding log2_def Let_def using tab32_mask [OF h32] by simp
  then show "2 ^ log2 v \<le> unat v" "unat v < 2 ^ Suc (log2 v)"
    using highest_bit_bounds [OF h(1,3)] by simp_all
qed

lemma log2_pow: "k < 32 \<Longrightarrow> log2 (of_nat (2 ^ k)) = k"
proof -
  assume k: "k < 32"
  have "(2 :: nat) ^ k < 2 ^ 32" using k by (intro power_strict_increasing) simp_all
  then have u: "unat (of_nat (2 ^ k) :: u32) = 2 ^ k" by (simp only: unat_of_nat) (simp add: take_bit_nat_eq_self)
  then have "(of_nat (2 ^ k) :: u32) \<noteq> 0" by (metis power_not_zero unsigned_0 zero_neq_numeral)
  then have "0 < (of_nat (2 ^ k) :: u32)" by (simp only: word_neq_0_conv)
  note l = log2_highest [OF this, unfolded u]
  have "log2 (of_nat (2 ^ k)) \<le> k" using l(1) by simp
  moreover have "k < Suc (log2 (of_nat (2 ^ k)))" by (rule power_less_imp_less_exp [OF _ l(2)]) simp
  ultimately show ?thesis by simp
qed

section \<open>The invariant of the heap\<close>

definition pages_of :: "sb_header \<Rightarrow> nat" where
  "pages_of d = (if is_large d then asize d else 1)"

definition sb_ok :: "nat \<Rightarrow> sb_header \<Rightarrow> bool" where
  "sb_ok base d \<longleftrightarrow> base mod 4096 = 0 \<and> 0 < base \<and>
     (if is_large d then 0 < asize d
      else (\<exists>i \<le> 8. asize d = 2 ^ (i + 3)) \<and> distinct (sb_free d)
        \<and> set (sb_free d) \<subseteq> set (sb_slots base (asize d)) \<and> free_count d = length (sb_free d))"

definition sb_pages :: "nat \<Rightarrow> sb_header \<Rightarrow> nat set" where
  "sb_pages base d = region (base div 4096, pages_of d)"

definition members :: "nat \<Rightarrow> nat \<Rightarrow> kheap \<Rightarrow> nat set" where
  "members c i h = {a. \<exists>d. hdr h a = Some d \<and> \<not> is_large d \<and> hcpu d = c \<and> asize d = 2 ^ (i + 3)}"

definition bucket_ok :: "nat \<Rightarrow> nat \<Rightarrow> kheap \<Rightarrow> bool" where
  "bucket_ok c i h \<longleftrightarrow>
     (let b = bucket_of c i h in distinct (sbs b) \<and> set (sbs b) = members c i h
        \<and> b_free_count b = (\<Sum>a \<in> set (sbs b). sb_count h a) \<and> num_sb b = length (sbs b)
        \<and> (sbs b \<noteq> [] \<longrightarrow> b_alloc_size b = 2 ^ (i + 3)))"

definition kheap_ok :: "kheap \<Rightarrow> bool" where
  "kheap_ok h \<longleftrightarrow> below_2G (pg h)
     \<and> (\<forall>a d. hdr h a = Some d \<longrightarrow> sb_ok a d \<and> sb_pages a d \<inter> frames_avail (pg h) = {}
          \<and> a div 4096 + pages_of d \<le> 64 * length (pg h))
     \<and> (\<forall>a b d d'. hdr h a = Some d \<longrightarrow> hdr h b = Some d' \<longrightarrow> a \<noteq> b \<longrightarrow> sb_pages a d \<inter> sb_pages b d' = {})
     \<and> (\<forall>c. \<forall>i \<le> 8. bucket_ok c i h)"

text \<open>The blocks in the hands of clients: address and size.\<close>

definition live_at :: "nat \<Rightarrow> sb_header \<Rightarrow> (nat \<times> nat) set" where
  "live_at a d =
     (if is_large d then {(a + HDR_SIZE, asize d * 4096 - HDR_SIZE)}
      else (\<lambda>p. (p, asize d)) ` (set (sb_slots a (asize d)) - set (sb_free d)))"

definition live :: "kheap \<Rightarrow> (nat \<times> nat) set" where
  "live h = {x. \<exists>a d. hdr h a = Some d \<and> x \<in> live_at a d}"

lemma kheap_okD:
  assumes "kheap_ok h" and "hdr h a = Some d"
  shows "sb_ok a d" "sb_pages a d \<inter> frames_avail (pg h) = {}" "a div 4096 + pages_of d \<le> 64 * length (pg h)"
    "hdr h b = Some d' \<Longrightarrow> a \<noteq> b \<Longrightarrow> sb_pages a d \<inter> sb_pages b d' = {}"
  using assms unfolding kheap_ok_def by blast+

lemma kheap_ok_bucket: "kheap_ok h \<Longrightarrow> i \<le> 8 \<Longrightarrow> bucket_ok c i h"
  by (simp add: kheap_ok_def)

subsection \<open>Slots\<close>

lemma size_class_facts:
  assumes "i \<le> (8::nat)"
  defines "sz \<equiv> 2 ^ (i + 3) :: nat" and "start \<equiv> (if (2::nat) ^ (i + 3) > 32 then 2 ^ (i + 3) else 32 :: nat)"
  shows "start mod sz = 0" "4096 mod sz = 0" "0 < sz" "start + (SUPERBLOCKSIZE - HDR_SIZE) div sz * sz \<le> 4096"
    "32 \<le> start" "0 < (SUPERBLOCKSIZE - HDR_SIZE) div sz"
proof -
  have "i \<in> {0, 1, 2, 3, 4, 5, 6, 7, 8}" using assms(1) by auto
  then show "start mod sz = 0" "4096 mod sz = 0" "0 < sz" "start + (SUPERBLOCKSIZE - HDR_SIZE) div sz * sz \<le> 4096"
    "32 \<le> start" "0 < (SUPERBLOCKSIZE - HDR_SIZE) div sz"
    unfolding sz_def start_def by auto
qed

lemma sb_slots_facts:
  assumes "i \<le> 8" and "base mod 4096 = 0"
  defines "sz \<equiv> 2 ^ (i + 3) :: nat"
  shows "distinct (sb_slots base sz)" "length (sb_slots base sz) = (SUPERBLOCKSIZE - HDR_SIZE) div sz"
    "p \<in> set (sb_slots base sz) \<Longrightarrow> base + HDR_SIZE \<le> p \<and> p + sz \<le> base + SUPERBLOCKSIZE \<and> p mod sz = 0
       \<and> p - p mod 4096 = base"
proof -
  let ?start = "if sz > HDR_SIZE then sz else HDR_SIZE" and ?n = "(SUPERBLOCKSIZE - HDR_SIZE) div sz"
  note F = size_class_facts [OF assms(1), folded sz_def]
  have sl: "sb_slots base sz = map (\<lambda>j. base + ?start + j * sz) [0..<?n]"
    by (simp add: sb_slots_def)
  show "distinct (sb_slots base sz)" unfolding sl using F(3) by (simp add: distinct_map inj_on_def)
  show "length (sb_slots base sz) = ?n" by (simp add: sl)
  assume "p \<in> set (sb_slots base sz)"
  then obtain j where j: "j < ?n" "p = base + ?start + j * sz" unfolding sl by auto
  have "(j + 1) * sz \<le> ?n * sz" using j(1) by (intro mult_right_mono) simp_all
  then have up: "p + sz \<le> base + 4096" using F(4) j(2) by simp
  have lo: "base + 32 \<le> p" using F(5) j(2) by simp
  have "base mod sz = 0" using assms(2) F(2) by (metis mod_0_imp_dvd dvd_trans dvd_imp_mod_0)
  then have "p mod sz = 0" using F(1) j(2) by (simp add: mod_add_eq [symmetric])
  moreover have "p mod 4096 = p - base"
  proof -
    obtain k where k: "base = 4096 * k" using assms(2) by (auto simp: mod_eq_0_iff_dvd dvd_def)
    have "p = 4096 * k + (p - base)" "p - base < 4096" using lo up F(3) k by simp_all
    then show ?thesis by (metis mod_less mod_mult_self4 mult.commute)
  qed
  ultimately show "base + HDR_SIZE \<le> p \<and> p + sz \<le> base + SUPERBLOCKSIZE \<and> p mod sz = 0 \<and> p - p mod 4096 = base"
    using lo up by simp
qed

lemma multiples_apart:
  "p mod s = 0 \<Longrightarrow> q mod s = 0 \<Longrightarrow> p \<noteq> q \<Longrightarrow> region (p, s) \<inter> region (q, s) = {}"
proof -
  have *: "p + s \<le> q" if m: "p mod s = 0" "q mod s = 0" and lt: "p < q" for p q :: nat
  proof -
    obtain a b where ab: "p = s * a" "q = s * b" using m by (auto simp: mod_eq_0_iff_dvd dvd_def)
    then have "a + 1 \<le> b" using lt by auto
    then have "s * (a + 1) \<le> s * b" by (rule mult_left_mono) simp
    then show ?thesis using ab by simp
  qed
  assume "p mod s = 0" "q mod s = 0" "p \<noteq> q"
  then show ?thesis using * [of p q] * [of q p] by (auto simp: region_def neq_iff)
qed

text \<open>A live block lies in the pages of its superblock, behind the header.\<close>

lemma live_at_facts:
  assumes "sb_ok a d" and "(p, sz) \<in> live_at a d"
  shows "a + HDR_SIZE \<le> p \<and> p + sz \<le> a + 4096 * pages_of d \<and> p - p mod 4096 = a \<and> 0 < sz
    \<and> (\<not> is_large d \<longrightarrow> sz = asize d \<and> p mod sz = 0 \<and> p \<in> set (sb_slots a sz) \<and> p \<notin> set (sb_free d))"
proof (cases "is_large d")
  case True
  then have "p = a + 32" "sz = asize d * 4096 - 32" "0 < asize d" using assms by (simp_all add: live_at_def sb_ok_def)
  moreover have "(a + 32) mod 4096 = 32" using assms(1) by (simp add: sb_ok_def mod_add_left_eq [symmetric])
  ultimately show ?thesis using True by (simp add: pages_of_def)
next
  case False
  with assms(1) obtain i where i: "i \<le> 8" "asize d = 2 ^ (i + 3)" and a: "a mod 4096 = 0" by (auto simp: sb_ok_def)
  have p: "p \<in> set (sb_slots a (2 ^ (i + 3)))" "sz = 2 ^ (i + 3)" "p \<notin> set (sb_free d)"
    using assms(2) False i(2) by (auto simp: live_at_def)
  note F = sb_slots_facts(3) [OF i(1) a p(1)]
  show ?thesis using F False i(2) p by (simp add: pages_of_def)
qed

lemma byte_in_sb_pages:
  assumes "a mod 4096 = 0" and "a \<le> x" and "x < a + 4096 * pages_of d"
  shows "x div 4096 \<in> sb_pages a d"
proof -
  obtain k where a: "a = 4096 * k" using assms(1) by (auto simp: mod_eq_0_iff_dvd dvd_def)
  have "k \<le> x div 4096" using assms(2) a by (simp add: less_eq_div_iff_mult_less_eq mult.commute)
  moreover have "x div 4096 < k + pages_of d" using assms(3) a by (simp add: div_less_iff_less_mult algebra_simps)
  ultimately show ?thesis by (simp add: sb_pages_def region_def a)
qed

lemma live_apart:
  assumes ok: "kheap_ok h" and p: "(p, s) \<in> live h" and q: "(q, t) \<in> live h" and ne: "(p, s) \<noteq> (q, t)"
  shows "region (p, s) \<inter> region (q, t) = {}"
proof -
  obtain a d where a: "hdr h a = Some d" "(p, s) \<in> live_at a d" using p by (auto simp: live_def)
  obtain b e where b: "hdr h b = Some e" "(q, t) \<in> live_at b e" using q by (auto simp: live_def)
  have Sa: "sb_ok a d" and Sb: "sb_ok b e" using kheap_okD(1) [OF ok] a(1) b(1) by blast+
  note A = live_at_facts [OF Sa a(2)] and B = live_at_facts [OF Sb b(2)]
  show ?thesis
  proof (cases "a = b")
    case False
    have "sb_pages a d \<inter> sb_pages b e = {}" by (rule kheap_okD(4) [OF ok a(1) b(1) False])
    moreover have "x div 4096 \<in> sb_pages a d" if "x \<in> region (p, s)" for x
      using that A Sa by (intro byte_in_sb_pages) (auto simp: region_def sb_ok_def)
    moreover have "x div 4096 \<in> sb_pages b e" if "x \<in> region (q, t)" for x
      using that B Sb by (intro byte_in_sb_pages) (auto simp: region_def sb_ok_def)
    ultimately show ?thesis by blast
  next
    case True
    then have "d = e" using a(1) b(1) by simp
    show ?thesis
    proof (cases "is_large d")
      case True
      then show ?thesis using a(2) b(2) \<open>a = b\<close> \<open>d = e\<close> ne by (simp add: live_at_def)
    next
      case False
      then have "s = t" "p mod s = 0" "q mod s = 0" using A B \<open>d = e\<close> by auto
      with ne multiples_apart [of p s q] show ?thesis by simp
    qed
  qed
qed

subsection \<open>Changing a superblock or a bucket\<close>

lemma set_bucket_simps [simp]:
  "hdr (set_bucket c i b h) = hdr h" "pg (set_bucket c i b h) = pg h"
  "bucket_of c' i' (set_bucket c i b h) = (if c' = c \<and> i' = i then b else bucket_of c' i' h)"
  "remote_free_list (kmem (set_bucket c i b h) c') = remote_free_list (kmem h c')"
  by (auto simp: set_bucket_def bucket_of_def)

lemma bucket_of_cong [simp]:
  "bucket_of c i (h\<lparr>hdr := f\<rparr>) = bucket_of c i h" "bucket_of c i (h\<lparr>pg := bm\<rparr>) = bucket_of c i h"
  by (simp_all add: bucket_of_def)

lemma hdr_only [simp]:
  "members c' j (set_bucket c i b h) = members c' j h" "sb_count (set_bucket c i b h) a = sb_count h a"
  "live (set_bucket c i b h) = live h" "live (h\<lparr>pg := bm\<rparr>) = live h" "live (h\<lparr>kmem := k\<rparr>) = live h"
  "members c' j (h\<lparr>pg := bm\<rparr>) = members c' j h" "sb_count (h\<lparr>pg := bm\<rparr>) a = sb_count h a"
  by (simp_all add: members_def sb_count_def live_def)

lemma bucket_ok_cong:
  assumes "bucket_ok c i h" and "bucket_of c i h' = bucket_of c i h" and "members c i h' = members c i h"
    and "\<And>a. a \<in> members c i h \<Longrightarrow> sb_count h' a = sb_count h a"
  shows "bucket_ok c i h'"
  using assms unfolding bucket_ok_def Let_def by (auto intro!: sum.cong)

lemma pow_inj: "(2::nat) ^ (i + 3) = 2 ^ (j + 3) \<Longrightarrow> i = j"
  by simp

lemma sb_update_ok:
  assumes ok: "kheap_ok h" and d: "hdr h base = Some d" "\<not> is_large d" "hcpu d = c" "i \<le> 8" "asize d = 2 ^ (i + 3)"
    and fs: "distinct fs" "set fs \<subseteq> set (sb_slots base (2 ^ (i + 3)))"
    and b': "distinct (sbs b')" "set (sbs b') = set (sbs (bucket_of c i h))"
      "num_sb b' = num_sb (bucket_of c i h)" "b_alloc_size b' = b_alloc_size (bucket_of c i h)"
      "b_free_count b' + length (sb_free d) = b_free_count (bucket_of c i h) + length fs"
  shows "kheap_ok (set_bucket c i b' (h\<lparr>hdr := (hdr h)(base := Some (d\<lparr>sb_free := fs, free_count := length fs\<rparr>))\<rparr>))"
    (is "kheap_ok ?h'")
proof -
  let ?d = "d\<lparr>sb_free := fs, free_count := length fs\<rparr>"
  note D = kheap_okD [OF ok d(1)]
  have hd: "hdr ?h' a = (if a = base then Some ?d else hdr h a)" for a by simp
  have pgs: "sb_pages a ?d = sb_pages a d" "pages_of ?d = pages_of d" for a by (simp_all add: sb_pages_def pages_of_def)
  have mem: "members c' j ?h' = members c' j h" for c' j using d by (auto simp: members_def)
  have sbd: "sb_ok base ?d" using D(1) d fs by (auto simp: sb_ok_def)
  have 1: "sb_ok a e \<and> sb_pages a e \<inter> frames_avail (pg ?h') = {} \<and> a div 4096 + pages_of e \<le> 64 * length (pg ?h')"
    if "hdr ?h' a = Some e" for a e
    using that D(2,3) sbd kheap_okD [OF ok, of a e] unfolding hd by (auto simp: pgs split: if_splits)
  have 2: "sb_pages a e \<inter> sb_pages a' e' = {}" if "hdr ?h' a = Some e" "hdr ?h' a' = Some e'" "a \<noteq> a'" for a e a' e'
  proof (cases "a = base")
    case True
    then have "e = ?d" "hdr h a' = Some e'" "base \<noteq> a'" using that unfolding hd by (auto split: if_splits)
    then show ?thesis unfolding True using D(4) [of a' e'] by (simp only: pgs) blast
  next
    case a: False
    show ?thesis
    proof (cases "a' = base")
      case True
      then have "e' = ?d" "hdr h a = Some e" using that a unfolding hd by (auto split: if_splits)
      then show ?thesis unfolding True using kheap_okD(4) [OF ok _ d(1), of a e] a by (simp only: pgs) blast
    qed (use that a kheap_okD(4) [OF ok, of a e a' e'] in simp)
  qed
  have 3: "bucket_ok c' j ?h'" if j: "j \<le> 8" for c' j
  proof (cases "c' = c \<and> j = i")
    case False
    have base: "base \<notin> members c' j h"
    proof
      assume "base \<in> members c' j h"
      then have m: "hcpu d = c'" "asize d = 2 ^ (j + 3)" using d(1) by (auto simp: members_def)
      have "i = j" by (rule pow_inj) (simp only: m(2) [symmetric] d(5) [symmetric])
      then show False using False m(1) d(3) by simp
    qed
    then have "sb_count ?h' a = sb_count h a" if "a \<in> members c' j h" for a
      using that by (auto simp: sb_count_def)
    then show ?thesis using False mem by (intro bucket_ok_cong [OF kheap_ok_bucket [OF ok j]]) auto
  next
    case True
    let ?b = "bucket_of c i h"
    note B = kheap_ok_bucket [OF ok d(4), of c, unfolded bucket_ok_def Let_def]
    have base: "base \<in> set (sbs ?b)" using B d by (auto simp: members_def)
    have "(\<Sum>a \<in> set (sbs ?b). sb_count ?h' a) = length fs + (\<Sum>a \<in> set (sbs ?b) - {base}. sb_count ?h' a)"
      using base by (simp add: sum.remove [of _ base] sb_count_def)
    also have "(\<Sum>a \<in> set (sbs ?b) - {base}. sb_count ?h' a) = (\<Sum>a \<in> set (sbs ?b) - {base}. sb_count h a)"
      by (intro sum.cong) (auto simp: sb_count_def)
    finally have new: "(\<Sum>a \<in> set (sbs ?b). sb_count ?h' a) = length fs + (\<Sum>a \<in> set (sbs ?b) - {base}. sb_count h a)" .
    have "(\<Sum>a \<in> set (sbs ?b). sb_count h a) = length (sb_free d) + (\<Sum>a \<in> set (sbs ?b) - {base}. sb_count h a)"
      using base d(1,2) D(1) by (simp add: sum.remove [of _ base] sb_count_def sb_ok_def)
    then have "b_free_count b' = (\<Sum>a \<in> set (sbs ?b). sb_count ?h' a)" using new b'(5) B by simp
    moreover have "length (sbs b') = length (sbs ?b)" using b'(1,2) B distinct_card by metis
    ultimately show ?thesis using True b' B mem unfolding bucket_ok_def Let_def by auto
  qed
  have "below_2G (pg ?h')" using ok by (simp add: kheap_ok_def)
  then show ?thesis unfolding kheap_ok_def using 1 2 3 by blast
qed

text \<open>The blocks of different superblocks differ.\<close>

lemma live_upd:
  assumes ok: "kheap_ok h"
  shows "hdr h base = Some d \<Longrightarrow> live (h\<lparr>hdr := (hdr h)(base := Some d')\<rparr>) = (live h - live_at base d) \<union> live_at base d'"
    "hdr h base = Some d \<Longrightarrow> live (h\<lparr>hdr := (hdr h)(base := None)\<rparr>) = live h - live_at base d"
    "hdr h base = None \<Longrightarrow> live (h\<lparr>hdr := (hdr h)(base := Some d')\<rparr>) = live h \<union> live_at base d'"
proof -
  have other: "x \<notin> live_at base d" if "hdr h base = Some d" "hdr h a = Some e" "a \<noteq> base" "x \<in> live_at a e" for a e x d
    using live_at_facts [OF kheap_okD(1) [OF ok that(1)], of "fst x" "snd x"]
      live_at_facts [OF kheap_okD(1) [OF ok that(2)], of "fst x" "snd x"] that(3,4) by auto
  let ?O = "{x. \<exists>a e. a \<noteq> base \<and> hdr h a = Some e \<and> x \<in> live_at a e}"
  have l: "live (h\<lparr>hdr := (hdr h)(base := Some d')\<rparr>) = ?O \<union> live_at base d'"
    "live (h\<lparr>hdr := (hdr h)(base := None)\<rparr>) = ?O"
    by (auto simp: live_def split: if_splits)
  have k: "hdr h base = Some d \<Longrightarrow> live h = ?O \<union> live_at base d" "hdr h base = None \<Longrightarrow> live h = ?O"
    unfolding live_def by force+
  have e: "hdr h base = Some d \<Longrightarrow> ?O \<inter> live_at base d = {}" using other by blast
  show "hdr h base = Some d \<Longrightarrow> live (h\<lparr>hdr := (hdr h)(base := Some d')\<rparr>) = (live h - live_at base d) \<union> live_at base d'"
    "hdr h base = Some d \<Longrightarrow> live (h\<lparr>hdr := (hdr h)(base := None)\<rparr>) = live h - live_at base d"
    "hdr h base = None \<Longrightarrow> live (h\<lparr>hdr := (hdr h)(base := Some d')\<rparr>) = live h \<union> live_at base d'"
    unfolding l using k e by blast+
qed

lemma bucket_perm_ok:
  assumes ok: "kheap_ok h" and b': "distinct (sbs b')" "set (sbs b') = set (sbs (bucket_of c i h))"
    "num_sb b' = num_sb (bucket_of c i h)" "b_alloc_size b' = b_alloc_size (bucket_of c i h)"
    "b_free_count b' = b_free_count (bucket_of c i h)"
  shows "kheap_ok (set_bucket c i b' h)"
proof -
  let ?h = "set_bucket c i b' h"
  have "bucket_ok c' j ?h" if j: "j \<le> 8" for c' j
  proof (cases "c' = c \<and> j = i")
    case True
    note B = kheap_ok_bucket [OF ok j, of c', unfolded bucket_ok_def Let_def]
    have "length (sbs b') = length (sbs (bucket_of c i h))" using b'(1,2) B True distinct_card by metis
    then show ?thesis using True B b' unfolding bucket_ok_def Let_def by auto
  next
    case False
    then show ?thesis by (intro bucket_ok_cong [OF kheap_ok_bucket [OF ok j]]) auto
  qed
  then show ?thesis using ok unfolding kheap_ok_def by simp
qed

lemma sb_mtf_ok:
  assumes "kheap_ok h" and "i \<le> 8" and "base \<in> set (sbs (bucket_of c i h))"
  shows "kheap_ok (set_bucket c i (sb_mtf base (bucket_of c i h)) h)"
proof -
  have "distinct (sbs (bucket_of c i h))"
    using kheap_ok_bucket [OF assms(1,2), of c] by (simp add: bucket_ok_def Let_def)
  then show ?thesis using assms(3) by (intro bucket_perm_ok [OF assms(1)]) (auto simp: sb_mtf_def)
qed

subsection \<open>Pages\<close>

lemma alloc_loop_length: "alloc_loop n bm is cs = Some (p, bm') \<Longrightarrow> length bm' = length bm"
proof (induction n bm "is" cs rule: alloc_loop.induct)
  case (2 n bm i "is" cs)
  have l: "length (fold set_frame ks b) = length b" for ks b
    by (induction ks arbitrary: b) (auto simp: set_frame_def)
  show ?case using 2 by (auto simp: do_frame_alloc_def l split: if_splits option.splits prod.splits)
qed simp

lemma frame_alloc_length: "frame_alloc n bm = Some (f, bm') \<Longrightarrow> length bm' = length bm"
  by (auto simp: frame_alloc_def alloc_frames_def alloc_loop_length split: if_splits)

lemma free_frames_length: "free_frames a n bm = Some bm' \<Longrightarrow> length bm' = length bm"
proof (induction a n bm rule: free_frames.induct)
  case (2 a n bm)
  then obtain b where b: "free_frame a bm = Some b" "free_frames (a + 4096) n b = Some bm'"
    by (auto split: bind_splits)
  then have "length b = length bm" by (auto simp: free_frame_def Let_def split: if_splits)
  with 2(1) b show ?case by auto
qed simp

lemma get_free_pages_ok:
  assumes ok: "kheap_ok h" and n: "0 < n" and g: "get_free_pages n h = Some (base, h1)"
  obtains bm where "h1 = h\<lparr>pg := bm\<rparr>" "below_2G bm" "base mod 4096 = 0" "0 < base" "length bm = length (pg h)"
    "region (base div 4096, n) \<subseteq> frames_avail (pg h)" "frames_avail bm = frames_avail (pg h) - region (base div 4096, n)"
    "base div 4096 + n \<le> 64 * length (pg h)" "hdr h base = None"
proof -
  obtain f bm where f: "frame_alloc n (pg h) = Some (f, bm)" "base = 4096 * f" "h1 = h\<lparr>pg := bm\<rparr>"
    using g by (auto simp: get_free_pages_def)
  have v: "below_2G (pg h)" using ok by (simp add: kheap_ok_def)
  note L = fr.alloc_law [OF v f(1)]
  have "f \<in> region (f, n)" "f + n - 1 \<in> region (f, n)" using n by (auto simp: region_def)
  then have a: "f \<in> frames_avail (pg h)" "f + n - 1 \<in> frames_avail (pg h)" using L by blast+
  have "f \<noteq> 0" using a(1) v by (metis (mono_tags, lifting) below_2G_def frames_avail_def mem_Collect_eq)
  moreover have "f + n \<le> 64 * length (pg h)" using a(2) n by (simp add: frames_avail_def) linarith
  moreover have "hdr h base = None"
  proof (rule ccontr)
    assume "hdr h base \<noteq> None"
    then obtain d where d: "hdr h base = Some d" by blast
    have "0 < pages_of d" using kheap_okD(1) [OF ok d] by (simp add: sb_ok_def pages_of_def split: if_splits)
    then have "f \<in> sb_pages base d" by (simp add: sb_pages_def region_def f(2))
    then show False using kheap_okD(2) [OF ok d] a(1) by blast
  qed
  ultimately show thesis using that [OF f(3)] L frame_alloc_length [OF f(1)] f(2) by simp
qed

text \<open>A page that was free gets a header; the buckets may change with it.\<close>

lemma new_header_ok:
  assumes ok: "kheap_ok h" and d: "sb_ok base d" "base div 4096 + pages_of d \<le> 64 * length (pg h)"
    and bm: "below_2G bm" "length bm = length (pg h)" "sb_pages base d \<subseteq> frames_avail (pg h)"
      "frames_avail bm = frames_avail (pg h) - sb_pages base d"
    and h': "pg h' = bm" "hdr h' = (hdr h)(base := Some d)"
    and b: "\<And>c i. i \<le> 8 \<Longrightarrow> bucket_ok c i h'"
  shows "kheap_ok h'"
proof -
  have old: "sb_pages a e \<inter> sb_pages base d = {}" if "hdr h a = Some e" for a e
    using kheap_okD(2) [OF ok that] bm(3) by blast
  have "sb_ok a e \<and> sb_pages a e \<inter> frames_avail bm = {} \<and> a div 4096 + pages_of e \<le> 64 * length bm"
    if "hdr h' a = Some e" for a e
    using that d bm kheap_okD(1-3) [OF ok, of a e] unfolding h' by (cases "a = base") (auto split: if_splits)
  moreover have "sb_pages a e \<inter> sb_pages a' e' = {}" if "hdr h' a = Some e" "hdr h' a' = Some e'" "a \<noteq> a'" for a e a' e'
    using that old [of a e] old [of a' e'] kheap_okD(4) [OF ok, of a e a' e'] unfolding h'
    by (cases "a = base"; cases "a' = base") (simp_all add: Int_commute)
  ultimately show ?thesis unfolding kheap_ok_def h'(1) using bm(1) b by blast
qed


subsection \<open>Taking a block\<close>

lemma bucket_size:
  assumes "kheap_ok h" and "i \<le> 8" and "a \<in> members c i h"
  shows "b_alloc_size (bucket_of c i h) = 2 ^ (i + 3)" "a \<in> set (sbs (bucket_of c i h))"
  using kheap_ok_bucket [OF assms(1,2), of c] assms(3) by (auto simp: bucket_ok_def Let_def)

definition home :: "kheap \<Rightarrow> nat \<Rightarrow> nat option" where
  "home h p = (case hdr h (p - p mod 4096) of None \<Rightarrow> None | Some d \<Rightarrow> if is_large d then None else Some (hcpu d))"

lemma live_base:
  assumes ok: "kheap_ok h" and p: "(p, s) \<in> live h"
  obtains d where "hdr h (p - p mod 4096) = Some d" "(p, s) \<in> live_at (p - p mod 4096) d"
proof -
  obtain a d where a: "hdr h a = Some d" "(p, s) \<in> live_at a d" using p by (auto simp: live_def)
  then have "p - p mod 4096 = a" using live_at_facts [OF kheap_okD(1) [OF ok a(1)] a(2)] by blast
  then show thesis using that a by simp
qed

text \<open>A step that hands out a block: nothing else is given or taken back, and no superblock changes its CPU.\<close>

definition heap_frame :: "kheap \<Rightarrow> kheap \<Rightarrow> bool" where
  "heap_frame h h' \<longleftrightarrow> (\<forall>k. remote_free_list (kmem h' k) = remote_free_list (kmem h k))
     \<and> (\<forall>a d d'. hdr h a = Some d \<longrightarrow> hdr h' a = Some d' \<longrightarrow> hcpu d' = hcpu d \<and> is_large d' = is_large d)"

definition hands_out :: "nat \<Rightarrow> nat \<Rightarrow> kheap \<Rightarrow> kheap \<Rightarrow> bool" where
  "hands_out p s h h' \<longleftrightarrow>
     kheap_ok h' \<and> (p, s) \<notin> live h \<and> live h' = insert (p, s) (live h) \<and> heap_frame h h'"

lemma take_block_ok:
  assumes ok: "kheap_ok h" and d: "hdr h base = Some d" "\<not> is_large d" "hcpu d = c" "i \<le> 8" "asize d = 2 ^ (i + 3)"
    and ne: "sb_free d \<noteq> []"
  obtains p h' where "take_block base (2 ^ (i + 3)) c i h = Some (p, h')" "hands_out p (2 ^ (i + 3)) h h'"
    "p mod 2 ^ (i + 3) = 0" "home h' p = Some c"
proof -
  let ?sz = "2 ^ (i + 3) :: nat" and ?b = "bucket_of c i h"
  obtain p ps where f: "sb_free d = p # ps" using ne by (cases "sb_free d") auto
  note S = kheap_okD(1) [OF ok d(1)]
  have fr: "distinct (p # ps)" "set (p # ps) \<subseteq> set (sb_slots base ?sz)" "free_count d = Suc (length ps)" "base mod 4096 = 0"
    using S d(2,5) f by (auto simp: sb_ok_def)
  have slot: "p \<in> set (sb_slots base ?sz)" using fr(2) by simp
  note F = sb_slots_facts(3) [OF d(4) fr(4) slot]
  have m: "base \<in> members c i h" using d by (simp add: members_def)
  note B = bucket_size [OF ok d(4) m]
  let ?d = "d\<lparr>sb_free := ps, free_count := length ps\<rparr>"
  let ?h = "set_bucket c i (?b\<lparr>b_free_count := b_free_count ?b - 1\<rparr>) (h\<lparr>hdr := (hdr h)(base := Some ?d)\<rparr>)"
  have tb: "take_block base ?sz c i h = Some (p, ?h)"
    using d(1) f fr(3) B(1) F by (simp add: take_block_def Let_def)
  have "b_free_count ?b = (\<Sum>a \<in> set (sbs ?b). sb_count h a)"
    using kheap_ok_bucket [OF ok d(4), of c] by (simp add: bucket_ok_def Let_def)
  also have "\<dots> \<ge> sb_count h base" using B(2) by (intro member_le_sum) simp_all
  finally have "0 < b_free_count ?b" using d(1) fr(3) by (simp add: sb_count_def)
  then have "kheap_ok ?h"
    using fr f kheap_ok_bucket [OF ok d(4), of c] by (intro sb_update_ok [OF ok d]) (auto simp: bucket_ok_def Let_def)
  moreover have la: "live_at base d = (\<lambda>p. (p, ?sz)) ` (set (sb_slots base ?sz) - insert p (set ps))"
    "live_at base ?d = insert (p, ?sz) (live_at base d)"
    using d f fr slot by (auto simp: live_at_def)
  have "(p, ?sz) \<notin> live h"
  proof
    assume "(p, ?sz) \<in> live h"
    then obtain e where "hdr h (p - p mod 4096) = Some e" "(p, ?sz) \<in> live_at (p - p mod 4096) e"
      by (rule live_base [OF ok])
    then show False using F d(1) la(1) by auto
  qed
  moreover have "live_at base d \<subseteq> live h" using d(1) by (auto simp: live_def)
  then have "live ?h = insert (p, ?sz) (live h)" using live_upd(1) [OF ok d(1), of ?d] la(2) by auto
  moreover have "heap_frame h ?h" using d(1) by (simp add: heap_frame_def)
  ultimately have "hands_out p ?sz h ?h" by (simp only: hands_out_def) blast
  moreover have "home ?h p = Some c" using F d(2,3) by (simp add: home_def)
  ultimately show thesis using F by (intro that [OF tb]) simp_all
qed


subsection \<open>Small blocks\<close>

lemma size_class:
  assumes "0 < n" and "n \<le> 2048"
  obtains i where "i \<le> 8" "(if n < 8 then 8 else unat (next_pow_2 (of_nat n))) = 2 ^ (i + 3)"
    "n \<le> 2 ^ (i + 3)" "\<forall>j < i. 2 ^ (j + 3) < n"
proof (cases "n < 8")
  case True
  then show thesis using that [of 0] by simp
next
  case False
  obtain k where k: "unat (next_pow_2 (of_nat n)) = 2 ^ k" "n \<le> 2 ^ k" "\<forall>j < k. 2 ^ j < n"
    by (rule next_pow_2_least [of n]) (use assms in simp_all)
  have "k \<le> 11"
  proof (rule ccontr)
    assume "\<not> k \<le> 11"
    then have "(2 :: nat) ^ 11 < n" using k(3) [rule_format, of 11] by simp
    then show False using assms(2) by simp
  qed
  moreover have "3 \<le> k"
  proof (rule ccontr)
    assume "\<not> 3 \<le> k"
    then have "(2 :: nat) ^ k \<le> 2 ^ 2" by (intro power_increasing) simp_all
    then show False using k(2) False by simp
  qed
  moreover have "2 ^ (j + 3) < n" if "j < k - 3" for j using k(3) that by simp
  ultimately show thesis using that [of "k - 3"] k False by simp
qed

lemma log2_class: "i \<le> 8 \<Longrightarrow> log2 (of_nat (2 ^ (i + 3))) - 3 = i"
  using log2_pow [of "i + 3"] by simp

lemma hands_out_from:
  assumes "hands_out p s h1 h'" and "live h1 = live h" and "\<forall>k. remote_free_list (kmem h1 k) = remote_free_list (kmem h k)"
    and "\<forall>a d. hdr h a = Some d \<longrightarrow> hdr h1 a = Some d"
  shows "hands_out p s h h'"
  using assms unfolding hands_out_def heap_frame_def by (metis (no_types, lifting))

lemma new_superblock_ok:
  fixes c :: nat
  assumes ok: "kheap_ok h" and i: "i \<le> 8" and g: "get_free_pages 1 h = Some (base, h1)"
  defines "h2 \<equiv> init_super base (2 ^ (i + 3)) c i h1"
  defines "h3 \<equiv> set_bucket c i (sb_atf base (bucket_of c i h2)) h2"
  obtains d where "kheap_ok h3" "hdr h3 base = Some d" "\<not> is_large d" "hcpu d = c" "asize d = 2 ^ (i + 3)" "sb_free d \<noteq> []"
    "live h3 = live h" "\<forall>k. remote_free_list (kmem h3 k) = remote_free_list (kmem h k)"
    "\<forall>a d. hdr h a = Some d \<longrightarrow> hdr h3 a = Some d"
proof -
  let ?sz = "2 ^ (i + 3) :: nat" and ?b = "bucket_of c i h"
  let ?n = "(SUPERBLOCKSIZE - HDR_SIZE) div ?sz"
  let ?d = "\<lparr>sb_free = sb_slots base ?sz, canary = 0xDEAD, asize = ?sz, free_count = ?n, is_large = False, hcpu = c\<rparr>"
  obtain bm where bm: "h1 = h\<lparr>pg := bm\<rparr>" "below_2G bm" "base mod 4096 = 0" "0 < base" "length bm = length (pg h)"
    "region (base div 4096, 1) \<subseteq> frames_avail (pg h)" "frames_avail bm = frames_avail (pg h) - region (base div 4096, 1)"
    "base div 4096 + 1 \<le> 64 * length (pg h)" "hdr h base = None"
    by (rule get_free_pages_ok [OF ok _ g]) simp_all
  note S = sb_slots_facts [OF i bm(3)]
  have h3: "hdr h3 = (hdr h)(base := Some ?d)" "pg h3 = bm"
    "bucket_of c' j h3 = (if c' = c \<and> j = i then ?b\<lparr>b_free_count := b_free_count ?b + ?n, num_sb := num_sb ?b + 1,
        b_alloc_size := ?sz, sbs := base # sbs ?b\<rparr> else bucket_of c' j h)" for c' j
    unfolding h3_def h2_def bm(1) by (simp_all add: init_super_def Let_def sb_atf_def)
  have n0: "0 < ?n" using size_class_facts(6) [OF i] .
  have d: "sb_ok base ?d" "pages_of ?d = 1" "sb_pages base ?d = region (base div 4096, 1)"
    using bm(3,4) i S by (auto simp: sb_ok_def pages_of_def sb_pages_def)
  have B: "bucket_ok c' j h3" if j: "j \<le> 8" for c' j
  proof (cases "c' = c \<and> j = i")
    case True
    have m: "members c i h3 = insert base (members c i h)" using bm(9) by (auto simp: members_def h3)
    have nb: "base \<notin> members c i h" using bm(9) by (simp add: members_def)
    then have "(\<Sum>a \<in> members c i h. sb_count h3 a) = (\<Sum>a \<in> members c i h. sb_count h a)"
      by (intro sum.cong) (auto simp: sb_count_def h3)
    moreover have "finite (members c i h)"
      using kheap_ok_bucket [OF ok i, of c] by (metis List.finite_set bucket_ok_def)
    moreover have "sb_count h3 base = ?n" by (simp add: sb_count_def h3)
    ultimately have "(\<Sum>a \<in> members c i h3. sb_count h3 a) = ?n + (\<Sum>a \<in> members c i h. sb_count h a)"
      using m nb by simp
    then show ?thesis using True m nb kheap_ok_bucket [OF ok i, of c]
      unfolding bucket_ok_def Let_def by (simp add: h3(3))
  next
    case False
    have "members c' j h3 = members c' j h"
    proof -
      have "\<not> (hcpu ?d = c' \<and> asize ?d = 2 ^ (j + 3))" using False pow_inj [of i j] by auto
      then show ?thesis using bm(9) by (auto simp: members_def h3)
    qed
    moreover have "sb_count h3 a = sb_count h a" if "a \<in> members c' j h" for a
      using that bm(9) by (auto simp: sb_count_def h3 members_def)
    ultimately show ?thesis using False by (intro bucket_ok_cong [OF kheap_ok_bucket [OF ok j]]) (auto simp: h3)
  qed
  have "kheap_ok h3"
    by (rule new_header_ok [OF ok d(1) _ bm(2,5) _ _ h3(2,1) B]) (use bm d in simp_all)
  moreover have "live_at base ?d = {}" by (simp add: live_at_def)
  then have "live h3 = live h" using live_upd(3) [OF ok bm(9), of ?d] by (simp add: live_def h3)
  moreover have "\<forall>k. remote_free_list (kmem h3 k) = remote_free_list (kmem h k)"
    unfolding h3_def h2_def bm(1) by (simp add: init_super_def Let_def)
  moreover have "\<forall>a d. hdr h a = Some d \<longrightarrow> hdr h3 a = Some d" using bm(9) by (simp add: h3)
  moreover have "sb_slots base ?sz \<noteq> []" using S(2) n0 by auto
  ultimately show thesis using that [of ?d] h3(1) by simp
qed

lemma malloc_small_ok:
  assumes ok: "kheap_ok h" and n: "0 < n" "n \<le> 2048"
  obtains "malloc_small c n h = None" "frame_alloc 1 (pg h) = None"
  | i p h' where "malloc_small c n h = Some (p, h')" "i \<le> 8" "n \<le> 2 ^ (i + 3)" "\<forall>j < i. 2 ^ (j + 3) < n"
      "hands_out p (2 ^ (i + 3)) h h'" "p mod 2 ^ (i + 3) = 0" "home h' p = Some c"
proof -
  obtain i where i: "i \<le> 8" "(if n < 8 then 8 else unat (next_pow_2 (of_nat n))) = 2 ^ (i + 3)"
    "n \<le> 2 ^ (i + 3)" "\<forall>j < i. 2 ^ (j + 3) < n" by (rule size_class [OF n])
  let ?b = "bucket_of c i h" and ?sz = "2 ^ (i + 3) :: nat"
  have sz: "\<not> ?sz > SUPERBLOCKSIZE div 2"
  proof -
    have "?sz \<le> 2 ^ 11" using i(1) by (intro power_increasing) simp_all
    then show ?thesis by simp
  qed
  note ms = malloc_small_def [of c n h, unfolded Let_def i(2) log2_class [OF i(1)], unfolded if_not_P [OF sz]]
  show thesis
  proof (cases "b_free_count ?b = 0")
    case True
    show thesis
    proof (cases "get_free_pages 1 h")
      case None
      then show thesis using True by (intro that(1)) (simp_all add: ms get_free_pages_def)
    next
      case (Some x)
      obtain base h1 where x: "x = (base, h1)" by (cases x)
      let ?h2 = "init_super base ?sz c i h1"
      let ?h3 = "set_bucket c i (sb_atf base (bucket_of c i ?h2)) ?h2"
      obtain d where d: "kheap_ok ?h3" "hdr ?h3 base = Some d" "\<not> is_large d" "hcpu d = c" "asize d = ?sz" "sb_free d \<noteq> []"
        "live ?h3 = live h" "\<forall>k. remote_free_list (kmem ?h3 k) = remote_free_list (kmem h k)"
        "\<forall>a d. hdr h a = Some d \<longrightarrow> hdr ?h3 a = Some d"
        by (rule new_superblock_ok [OF ok i(1), of base h1 c]) (use Some x in simp_all)
      obtain p h' where p: "take_block base ?sz c i ?h3 = Some (p, h')" "hands_out p ?sz ?h3 h'" "p mod ?sz = 0" "home h' p = Some c"
        by (rule take_block_ok [OF d(1-4) i(1) d(5,6)])
      show thesis
        using True Some x p i hands_out_from [OF p(2) d(7-9)] by (intro that(2) [of p h' i]) (simp_all add: ms)
    qed
  next
    case False
    note B = kheap_ok_bucket [OF ok i(1), of c, unfolded bucket_ok_def Let_def]
    obtain base where base: "List.find (\<lambda>a. sb_count h a \<noteq> 0) (sbs ?b) = Some base"
    proof (cases "List.find (\<lambda>a. sb_count h a \<noteq> 0) (sbs ?b)")
      case None
      then have "\<forall>a \<in> set (sbs ?b). sb_count h a = 0" by (simp add: find_None_iff)
      then show ?thesis using B False by simp
    qed
    then have b: "base \<in> set (sbs ?b)" "sb_count h base \<noteq> 0" by (auto simp: find_Some_iff)
    then obtain d where d: "hdr h base = Some d" "\<not> is_large d" "hcpu d = c" "asize d = ?sz" using B by (auto simp: members_def)
    have ne: "sb_free d \<noteq> []" using b(2) d(1,2) kheap_okD(1) [OF ok d(1)] by (auto simp: sb_count_def sb_ok_def)
    let ?h1 = "if sb_count h base > 1 \<and> base \<noteq> hd (sbs ?b) then set_bucket c i (sb_mtf base ?b) h else h"
    have h1: "kheap_ok ?h1" "hdr ?h1 = hdr h" "live ?h1 = live h" "\<forall>k. remote_free_list (kmem ?h1 k) = remote_free_list (kmem h k)"
      using sb_mtf_ok [OF ok i(1) b(1)] ok by simp_all
    have hd1: "hdr ?h1 base = Some d" using d(1) unfolding h1(2) .
    obtain p h' where p: "take_block base ?sz c i ?h1 = Some (p, h')" "hands_out p ?sz ?h1 h'" "p mod ?sz = 0" "home h' p = Some c"
      by (rule take_block_ok [OF h1(1) hd1 d(2,3) i(1) d(4) ne])
    have "hands_out p ?sz h h'" by (rule hands_out_from [OF p(2) h1(3,4)]) (simp add: h1(2))
    then show thesis using False base p i by (intro that(2) [of p h' i]) (simp_all add: ms)
  qed
qed


subsection \<open>Large blocks\<close>

lemma malloc_large_ok:
  assumes ok: "kheap_ok h" and n: "n < 65535 * 4096 - 32"
  obtains "malloc_large n h = None" "frame_alloc ((n + HDR_SIZE) div 4096 + 1) (pg h) = None"
  | p s h' where "malloc_large n h = Some (p, h')" "n \<le> s" "hands_out p s h h'" "p mod 8 = 0" "home h' p = None"
proof -
  let ?n = "(n + HDR_SIZE) div 4096 + 1"
  show thesis
  proof (cases "get_free_pages ?n h")
    case None
    then show thesis by (intro that(1)) (simp_all add: malloc_large_def get_free_pages_def)
  next
    case (Some x)
    obtain base h1 where x: "x = (base, h1)" by (cases x)
    obtain bm where bm: "h1 = h\<lparr>pg := bm\<rparr>" "below_2G bm" "base mod 4096 = 0" "0 < base" "length bm = length (pg h)"
      "region (base div 4096, ?n) \<subseteq> frames_avail (pg h)" "frames_avail bm = frames_avail (pg h) - region (base div 4096, ?n)"
      "base div 4096 + ?n \<le> 64 * length (pg h)" "hdr h base = None"
      by (rule get_free_pages_ok [OF ok _ Some [unfolded x]]) simp_all
    have "?n < 65536"
    proof -
      have "n + HDR_SIZE < 65535 * 4096" using n by simp
      then have "(n + HDR_SIZE) div 4096 < 65535" by (simp only: div_less_iff_less_mult)
      then show ?thesis by simp
    qed
    then have m: "?n mod 2 ^ 16 = ?n" by simp
    let ?d = "\<lparr>sb_free = [base + HDR_SIZE], canary = 0, asize = ?n, free_count = 0, is_large = True, hcpu = 0\<rparr>"
    let ?h = "h1\<lparr>hdr := (hdr h1)(base := Some ?d)\<rparr>"
    have pgs: "pages_of ?d = ?n" "sb_pages base ?d = region (base div 4096, ?n)" by (simp_all add: pages_of_def sb_pages_def)
    have d: "sb_ok base ?d" using bm(3,4) by (simp add: sb_ok_def)
    have B: "bucket_ok c' j ?h" if j: "j \<le> 8" for c' j
      using bm(1,9) by (intro bucket_ok_cong [OF kheap_ok_bucket [OF ok j]]) (auto simp: members_def sb_count_def)
    have ok': "kheap_ok ?h"
      by (rule new_header_ok [OF ok d _ bm(2,5) _ _ _ _ B]) (use bm pgs in simp_all)
    moreover have la: "live_at base ?d = {(base + HDR_SIZE, ?n * 4096 - HDR_SIZE)}" by (simp add: live_at_def)
    then have "live ?h = insert (base + HDR_SIZE, ?n * 4096 - HDR_SIZE) (live h)"
      using live_upd(3) [OF ok bm(9), of ?d] bm(1) by (simp add: live_def)
    moreover have pb: "(base + HDR_SIZE) - (base + HDR_SIZE) mod 4096 = base"
      using live_at_facts [OF d, of "base + HDR_SIZE" "?n * 4096 - HDR_SIZE"] la by simp
    then have hm: "home ?h (base + HDR_SIZE) = None" by (simp add: home_def)
    moreover have "(base + HDR_SIZE, ?n * 4096 - HDR_SIZE) \<notin> live h"
    proof
      assume "(base + HDR_SIZE, ?n * 4096 - HDR_SIZE) \<in> live h"
      then show False using bm(9) pb by (metis live_base [OF ok] option.distinct(1))
    qed
    moreover have "heap_frame h ?h" using bm(1,9) by (auto simp: heap_frame_def)
    ultimately have "hands_out (base + HDR_SIZE) (?n * 4096 - HDR_SIZE) h ?h" by (simp only: hands_out_def) blast
    moreover have "n \<le> ?n * 4096 - HDR_SIZE"
    proof -
      have "n + HDR_SIZE < ?n * 4096" using dividend_less_times_div [of 4096 "n + HDR_SIZE"] by (simp add: algebra_simps)
      then show ?thesis by simp
    qed
    moreover have "(base + HDR_SIZE) mod 8 = 0"
    proof -
      obtain k where "base = 4096 * k" using bm(3) by (auto simp: mod_eq_0_iff_dvd dvd_def)
      then have "base + HDR_SIZE = 8 * (512 * k + 4)" by simp
      then show ?thesis by (simp only: mod_mult_self1_is_0)
    qed
    ultimately show thesis using Some x m hm by (intro that(2)) (simp_all add: malloc_large_def Let_def)
  qed
qed

text \<open>The number of pages of a larger block does not fit its 16 bits.\<close>

definition MAX_REQUEST :: nat where
  "MAX_REQUEST = 65535 * 4096 - 33"

lemma kmalloc_ok:
  assumes ok: "kheap_ok h" and n: "0 < n" "n \<le> MAX_REQUEST" and c: "c < CONFIG_MAX_CPUS"
  obtains "kmalloc c n h = None" "frame_alloc (if n \<le> 2048 then 1 else (n + HDR_SIZE) div 4096 + 1) (pg h) = None"
  | p s h' where "kmalloc c n h = Some (p, h')" "n \<le> s" "hands_out p s h h'" "home h' p = (if n \<le> 2048 then Some c else None)"
proof (cases "n > 2048")
  case True
  have "n < 65535 * 4096 - 32" using n by (simp add: MAX_REQUEST_def)
  from malloc_large_ok [OF ok this] show thesis
  proof cases
    case 1
    then show thesis using True n c by (intro that(1)) (simp_all add: kmalloc_def)
  next
    case (2 p s h')
    then show thesis using True n c by (intro that(2) [of p h' s]) (simp_all add: kmalloc_def)
  qed
next
  case False
  then have "n \<le> 2048" by simp
  from malloc_small_ok [OF ok n(1) this, of c] show thesis
  proof cases
    case 1
    then show thesis using False n c by (intro that(1)) (simp_all add: kmalloc_def)
  next
    case (2 i p h')
    then show thesis using False n c by (intro that(2) [of p h' "2 ^ (i + 3)"]) (simp_all add: kmalloc_def)
  qed
qed


subsection \<open>Giving a block back\<close>

lemma frame_release_total:
  assumes "below_2G bm" and "0 < a" and "a + n \<le> 64 * length bm"
  obtains bm' where "frame_release a n bm = Some bm'" "length bm' = length bm"
  using free_frames_clears [OF assms(3)] assms by (auto simp: frame_release_def below_2G_def)

definition takes_back :: "nat \<Rightarrow> nat \<Rightarrow> kheap \<Rightarrow> kheap \<Rightarrow> bool" where
  "takes_back p s h h' \<longleftrightarrow> kheap_ok h' \<and> live h' = live h - {(p, s)} \<and> heap_frame h h'"

lemma drop_header_ok:
  assumes ok: "kheap_ok h" and d: "hdr h base = Some d"
  obtains bm where "frame_release (base div 4096) (pages_of d) (pg h) = Some bm"
    "\<forall>h'. pg h' = bm \<longrightarrow> hdr h' = (hdr h)(base := None) \<longrightarrow> (\<forall>c i. i \<le> 8 \<longrightarrow> bucket_ok c i h') \<longrightarrow>
       kheap_ok h' \<and> live h' = live h - live_at base d"
proof -
  note D = kheap_okD [OF ok d]
  have v: "below_2G (pg h)" using ok by (simp add: kheap_ok_def)
  have a: "0 < base div 4096"
  proof -
    have "4096 \<le> base" using D(1) by (auto simp: sb_ok_def mod_eq_0_iff_dvd dest: dvd_imp_le)
    then show ?thesis by (simp add: div_greater_zero_iff)
  qed
  obtain bm where bm: "frame_release (base div 4096) (pages_of d) (pg h) = Some bm" "length bm = length (pg h)"
    by (rule frame_release_total [OF v a D(3)])
  have "region (base div 4096, pages_of d) \<inter> frames_avail (pg h) = {}" using D(2) by (simp add: sb_pages_def)
  note L = fr.release_law [OF v this bm(1)]
  have "kheap_ok h' \<and> live h' = live h - live_at base d"
    if h': "pg h' = bm" "hdr h' = (hdr h)(base := None)" and b: "\<forall>c i. i \<le> 8 \<longrightarrow> bucket_ok c i h'" for h'
  proof
    have "sb_ok a e \<and> sb_pages a e \<inter> frames_avail bm = {} \<and> a div 4096 + pages_of e \<le> 64 * length bm"
      if "hdr h' a = Some e" for a e
    proof -
      have e: "hdr h a = Some e" "a \<noteq> base" using that by (simp_all add: h' split: if_splits)
      have "sb_pages a e \<inter> region (base div 4096, pages_of d) = {}"
        using kheap_okD(4) [OF ok e(1) d e(2)] by (simp add: sb_pages_def)
      then show ?thesis using kheap_okD [OF ok e(1)] L bm(2) by auto
    qed
    moreover have "sb_pages a e \<inter> sb_pages a' e' = {}" if "hdr h' a = Some e" "hdr h' a' = Some e'" "a \<noteq> a'" for a e a' e'
    proof -
      have "hdr h a = Some e" "hdr h a' = Some e'" using that by (simp_all add: h' split: if_splits)
      then show ?thesis using kheap_okD(4) [OF ok] that(3) by blast
    qed
    ultimately show "kheap_ok h'" unfolding kheap_ok_def h'(1) using L b by blast
    show "live h' = live h - live_at base d" using live_upd(2) [OF ok d] by (simp add: live_def h')
  qed
  then show thesis using that bm(1) by blast
qed

lemma free_large_ok:
  assumes ok: "kheap_ok h" and p: "(p, s) \<in> live h" and d: "hdr h (p - p mod 4096) = Some d" "is_large d"
  obtains h' where "free_pages_at (p - p mod 4096) (asize d) h = Some h'" "takes_back p s h h'"
proof -
  let ?a = "p - p mod 4096"
  obtain bm where bm: "frame_release (?a div 4096) (pages_of d) (pg h) = Some bm"
    "\<forall>h'. pg h' = bm \<longrightarrow> hdr h' = (hdr h)(?a := None) \<longrightarrow> (\<forall>c i. i \<le> 8 \<longrightarrow> bucket_ok c i h') \<longrightarrow>
       kheap_ok h' \<and> live h' = live h - live_at ?a d"
    by (rule drop_header_ok [OF ok d(1)])
  have la: "live_at ?a d = {(p, s)}"
  proof -
    obtain e where "hdr h ?a = Some e" "(p, s) \<in> live_at ?a e" by (rule live_base [OF ok p])
    then show ?thesis using d by (auto simp: live_at_def)
  qed
  let ?h = "h\<lparr>pg := bm, hdr := (hdr h)(?a := None)\<rparr>"
  have B: "bucket_ok c i ?h" if i: "i \<le> 8" for c i
    using d by (intro bucket_ok_cong [OF kheap_ok_bucket [OF ok i]]) (auto simp: members_def sb_count_def bucket_of_def)
  have k: "kheap_ok ?h \<and> live ?h = live h - live_at ?a d" using B by (intro bm(2) [rule_format]) simp_all
  have "heap_frame h ?h" by (simp add: heap_frame_def)
  then have "takes_back p s h ?h" using k la by (simp add: takes_back_def)
  moreover have "free_pages_at ?a (asize d) h = Some ?h" using bm(1) d(2) by (simp add: free_pages_at_def pages_of_def)
  ultimately show thesis using that by blast
qed

text \<open>An empty superblock of a bucket with others leaves the heap without a change to the live blocks.\<close>

lemma manage_empty_ok:
  assumes ok: "kheap_ok h" and d: "hdr h base = Some d" "\<not> is_large d" "hcpu d = c" "i \<le> 8" "asize d = 2 ^ (i + 3)"
    and empty: "live_at base d = {}"
  obtains "manage_empty_sb base c i h = Some (True, h)"
  | h' where "manage_empty_sb base c i h = Some (False, h')" "kheap_ok h'" "live h' = live h" "heap_frame h h'"
proof (cases "num_sb (bucket_of c i h) > 10")
  case False
  then show thesis by (intro that(1)) (simp add: manage_empty_sb_def Let_def)
next
  case True
  let ?b = "bucket_of c i h"
  let ?b' = "?b\<lparr>sbs := remove1 base (sbs ?b), num_sb := num_sb ?b - 1, b_free_count := b_free_count ?b - free_count d\<rparr>"
  note B = kheap_ok_bucket [OF ok d(4), of c, unfolded bucket_ok_def Let_def]
  have m: "base \<in> set (sbs ?b)" using B d by (simp add: members_def)
  have ne: "sbs ?b \<noteq> [base]" using B True by auto
  obtain bm where bm: "frame_release (base div 4096) (pages_of d) (pg h) = Some bm"
    "\<forall>h'. pg h' = bm \<longrightarrow> hdr h' = (hdr h)(base := None) \<longrightarrow> (\<forall>c i. i \<le> 8 \<longrightarrow> bucket_ok c i h') \<longrightarrow>
       kheap_ok h' \<and> live h' = live h - live_at base d"
    by (rule drop_header_ok [OF ok d(1)])
  let ?h = "(set_bucket c i ?b' h)\<lparr>pg := bm, hdr := (hdr h)(base := None)\<rparr>"
  have bk: "bucket_of c' j ?h = (if c' = c \<and> j = i then ?b' else bucket_of c' j h)" for c' j
    by (simp add: bucket_of_def set_bucket_def)
  have bok: "bucket_ok c' j ?h" if j: "j \<le> 8" for c' j
  proof (cases "c' = c \<and> j = i")
    case True
    have mem: "members c i ?h = set (sbs ?b) - {base}" using B by (auto simp: members_def)
    have "(\<Sum>a \<in> set (sbs ?b) - {base}. sb_count ?h a) = (\<Sum>a \<in> set (sbs ?b) - {base}. sb_count h a)"
      by (intro sum.cong) (auto simp: sb_count_def)
    moreover have "(\<Sum>a \<in> set (sbs ?b). sb_count h a) = free_count d + (\<Sum>a \<in> set (sbs ?b) - {base}. sb_count h a)"
      using m d(1) by (simp add: sum.remove [of _ base] sb_count_def)
    ultimately have s: "(\<Sum>a \<in> set (sbs ?b) - {base}. sb_count ?h a) = b_free_count ?b - free_count d" using B by simp
    have "distinct (sbs ?b)" "num_sb ?b = length (sbs ?b)" "sbs ?b \<noteq> [] \<longrightarrow> b_alloc_size ?b = 2 ^ (i + 3)" using B by simp_all
    then have "distinct (sbs ?b')" "set (sbs ?b') = set (sbs ?b) - {base}" "num_sb ?b' = length (sbs ?b')"
      "sbs ?b' \<noteq> [] \<longrightarrow> b_alloc_size ?b' = 2 ^ (i + 3)"
      using m by (auto simp: length_remove1 set_remove1_eq)
    moreover have "bucket_of c' j ?h = ?b'" "c' = c" "j = i" using True bk by simp_all
    ultimately show ?thesis using s mem unfolding bucket_ok_def Let_def by simp
  next
    case False
    have "base \<notin> members c' j h"
    proof
      assume "base \<in> members c' j h"
      then have e: "hcpu d = c'" "asize d = 2 ^ (j + 3)" using d(1) by (auto simp: members_def)
      have "i = j" by (rule pow_inj) (simp only: e(2) [symmetric] d(5) [symmetric])
      then show False using False e(1) d(3) by simp
    qed
    then have "members c' j ?h = members c' j h" "\<And>a. a \<in> members c' j h \<Longrightarrow> sb_count ?h a = sb_count h a"
      by (auto simp: members_def sb_count_def)
    then show ?thesis using False by (intro bucket_ok_cong [OF kheap_ok_bucket [OF ok j]]) (simp_all only: bk if_False)
  qed
  have k: "kheap_ok ?h \<and> live ?h = live h - live_at base d" using bok by (intro bm(2) [rule_format]) simp_all
  have "heap_frame h ?h" by (auto simp: heap_frame_def)
  moreover have "manage_empty_sb base c i h = Some (False, ?h)"
    using True ne d(1,2) bm(1) by (simp add: manage_empty_sb_def Let_def free_pages_at_def pages_of_def)
  ultimately show thesis using that(2) k empty by simp
qed

lemma live_at_full:
  assumes ok: "sb_ok base d" and d: "\<not> is_large d" and full: "free_count d = (SUPERBLOCKSIZE - HDR_SIZE) div asize d"
  shows "live_at base d = {}"
proof -
  from ok d obtain i where i: "i \<le> 8" "asize d = 2 ^ (i + 3)" and b: "base mod 4096 = 0" and fs: "distinct (sb_free d)"
    "set (sb_free d) \<subseteq> set (sb_slots base (asize d))" "free_count d = length (sb_free d)" by (auto simp: sb_ok_def)
  note S = sb_slots_facts [OF i(1) b, folded i(2)]
  have "card (set (sb_free d)) = card (set (sb_slots base (asize d)))"
    using fs(1,3) full S(1,2) by (simp add: distinct_card)
  then have "set (sb_free d) = set (sb_slots base (asize d))" using fs(2) by (intro card_subset_eq) simp_all
  then show ?thesis using d by (simp add: live_at_def)
qed

lemma takes_back_from: "takes_back p s h h1 \<Longrightarrow> kheap_ok h' \<Longrightarrow> live h' = live h1 \<Longrightarrow> heap_frame h h' \<Longrightarrow> takes_back p s h h'"
  by (simp add: takes_back_def)

lemma heap_frame_trans:
  assumes "heap_frame h g" and "heap_frame g h'" and "\<forall>a. hdr h a \<noteq> None \<longrightarrow> hdr g a \<noteq> None"
  shows "heap_frame h h'"
  using assms unfolding heap_frame_def by (metis option.exhaust)

lemma to_front_ok:
  assumes "kheap_ok h" and "i \<le> 8" and "base \<in> set (sbs (bucket_of c i h))"
  shows "kheap_ok (if base \<noteq> hd (sbs (bucket_of c i h)) then set_bucket c i (sb_mtf base (bucket_of c i h)) h else h)"
    "live (if base \<noteq> hd (sbs (bucket_of c i h)) then set_bucket c i (sb_mtf base (bucket_of c i h)) h else h) = live h"
    "heap_frame g h \<Longrightarrow>
       heap_frame g (if base \<noteq> hd (sbs (bucket_of c i h)) then set_bucket c i (sb_mtf base (bucket_of c i h)) h else h)"
  using assms(1) sb_mtf_ok [OF assms] by (simp_all add: heap_frame_def)

lemma free_block_ok:
  assumes ok: "kheap_ok h" and p: "(p, s) \<in> live h" and d: "hdr h base = Some d" "\<not> is_large d" "hcpu d = c"
    and base: "base = p - p mod 4096"
  obtains h' where "free_block c p base h = Some h'" "takes_back p s h h'"
proof -
  note S = kheap_okD(1) [OF ok d(1)]
  have pl: "(p, s) \<in> live_at base d" by (rule live_base [OF ok p]) (use base d(1) in simp)
  note F = live_at_facts [OF S pl]
  from S d(2) obtain i where i: "i \<le> 8" "asize d = 2 ^ (i + 3)" and b: "base mod 4096 = 0" and fs: "distinct (sb_free d)"
    "set (sb_free d) \<subseteq> set (sb_slots base (asize d))" "free_count d = length (sb_free d)" by (auto simp: sb_ok_def)
  let ?b = "bucket_of c i h" and ?full = "(SUPERBLOCKSIZE - HDR_SIZE) div asize d"
  let ?d = "d\<lparr>sb_free := p # sb_free d, free_count := length (p # sb_free d)\<rparr>"
  let ?h = "set_bucket c i (?b\<lparr>b_free_count := b_free_count ?b + 1\<rparr>) (h\<lparr>hdr := (hdr h)(base := Some ?d)\<rparr>)"
  have sl: "distinct (p # sb_free d)" "set (p # sb_free d) \<subseteq> set (sb_slots base (2 ^ (i + 3)))" "s = asize d"
    using F d(2) fs i(2) by auto
  have ok': "kheap_ok ?h"
    using sl kheap_ok_bucket [OF ok i(1), of c] by (intro sb_update_ok [OF ok d i sl(1,2)]) (auto simp: bucket_ok_def Let_def)
  have hd: "hdr ?h base = Some ?d" by simp
  have lv: "live ?h = live h - {(p, s)}"
  proof -
    have "live_at base ?d = live_at base d - {(p, s)}" using d(2) sl(3) by (auto simp: live_at_def)
    moreover have "live_at base d \<subseteq> live h" using d(1) by (auto simp: live_def)
    moreover have "(p, s) \<in> live_at base d" by (rule pl)
    moreover have "live ?h = (live h - live_at base d) \<union> live_at base ?d" using live_upd(1) [OF ok d(1), of ?d] by simp
    ultimately show ?thesis by blast
  qed
  have fr: "heap_frame h ?h" using d(1) by (auto simp: heap_frame_def)
  have t: "takes_back p s h ?h" using ok' lv fr by (simp add: takes_back_def)
  have le: "free_count ?d \<le> ?full"
  proof -
    have "card (set (p # sb_free d)) \<le> card (set (sb_slots base (2 ^ (i + 3))))" using sl(2) by (intro card_mono) simp_all
    then show ?thesis using sl(1) sb_slots_facts(1,2) [OF i(1) b] i(2) by (simp add: distinct_card)
  qed
  let ?m = "if free_count ?d = ?full then manage_empty_sb base c i ?h else Some (True, ?h)"
  have fb: "free_block c p base h = (case ?m of None \<Rightarrow> None | Some (left, h2) \<Rightarrow>
      Some (if left \<and> base \<noteq> hd (sbs (bucket_of c i h2)) then set_bucket c i (sb_mtf base (bucket_of c i h2)) h2 else h2))"
  proof -
    have lg: "log2 (of_nat (asize d)) - 3 = i" unfolding i(2) by (rule log2_class [OF i(1)])
    have "free_count d + 1 = length (p # sb_free d)" "p mod asize d = 0" using fs(3) F d(2) sl(3) by simp_all
    then show ?thesis using le unfolding free_block_def Let_def d(1) option.case lg by simp
  qed
  consider "?m = Some (True, ?h)" | h' where "?m = Some (False, h')" "kheap_ok h'" "live h' = live ?h" "heap_frame ?h h'"
  proof (cases "free_count ?d = ?full")
    case True
    have "live_at base ?d = {}" by (rule live_at_full [OF kheap_okD(1) [OF ok' hd]]) (use d(2) True in simp_all)
    moreover have "\<not> is_large ?d" "hcpu ?d = c" "asize ?d = 2 ^ (i + 3)" using d i(2) by simp_all
    ultimately show thesis
      using manage_empty_ok [OF ok' hd _ _ i(1), of c thesis] that unfolding if_P [OF True] by blast
  qed (use that in simp)
  then show thesis
  proof cases
    case 1
    have m: "base \<in> set (sbs (bucket_of c i ?h))"
      using d i kheap_ok_bucket [OF ok' i(1), of c] by (simp add: bucket_ok_def Let_def members_def)
    note takes_back_from [OF t to_front_ok(1,2) [OF ok' i(1) m] to_front_ok(3) [OF ok' i(1) m fr]]
    moreover have "free_block c p base h = Some (if base \<noteq> hd (sbs (bucket_of c i ?h))
        then set_bucket c i (sb_mtf base (bucket_of c i ?h)) ?h else ?h)"
      unfolding fb 1 option.case prod.case by (simp only: simp_thms)
    ultimately show thesis using that by blast
  next
    case (2 h')
    have "heap_frame h h'" by (rule heap_frame_trans [OF fr 2(4)]) simp
    moreover have "free_block c p base h = Some h'" unfolding fb 2(1) by simp
    ultimately show thesis using that takes_back_from [OF t 2(2,3)] by blast
  qed
qed


section \<open>Blocks that are held and frees that are pending\<close>

text \<open>
  A block freed by another CPU waits, with the entry that records it, in the list of the CPU it
  belongs to.  The blocks \<open>held\<close> are the live ones that do not wait there.
\<close>

fun entry_blocks :: "(nat \<times> nat) list \<Rightarrow> nat list" where
  "entry_blocks [] = []"
| "entry_blocks ((rf, p) # es) = rf # p # entry_blocks es"

definition pend :: "nat \<Rightarrow> kheap \<Rightarrow> nat list" where
  "pend c h = entry_blocks (remote_free_list (kmem h c))"

definition held :: "kheap \<Rightarrow> (nat \<times> nat) set" where
  "held h = {(p, s). (p, s) \<in> live h \<and> (\<forall>c. p \<notin> set (pend c h))}"

definition cpu_ok :: "nat option \<Rightarrow> bool" where
  "cpu_ok k \<longleftrightarrow> (case k of None \<Rightarrow> True | Some c \<Rightarrow> c < CONFIG_MAX_CPUS)"

definition heap_inv :: "kheap \<Rightarrow> bool" where
  "heap_inv h \<longleftrightarrow> kheap_ok h \<and> (\<forall>c. distinct (pend c h))
     \<and> (\<forall>c c'. c \<noteq> c' \<longrightarrow> set (pend c h) \<inter> set (pend c' h) = {})
     \<and> (\<forall>c. \<forall>p \<in> set (pend c h). \<exists>s. (p, s) \<in> live h)
     \<and> (\<forall>c rf p. (rf, p) \<in> set (remote_free_list (kmem h c)) \<longrightarrow>
          home h p = Some c \<and> (\<exists>c'. home h rf = Some c' \<and> c' \<noteq> c))
     \<and> (\<forall>p s. (p, s) \<in> live h \<longrightarrow> cpu_ok (home h p))"

lemma live_unique:
  assumes "kheap_ok h" and "(p, s) \<in> live h" and "(p, t) \<in> live h"
  shows "s = t"
proof (rule ccontr)
  assume "s \<noteq> t"
  have pos: "0 < u" if u: "(p, u) \<in> live h" for u
  proof -
    obtain a d where "hdr h a = Some d" "(p, u) \<in> live_at a d" using u by (auto simp: live_def)
    then show ?thesis using live_at_facts [OF kheap_okD(1) [OF assms(1)]] by blast
  qed
  have "p \<in> region (p, s) \<inter> region (p, t)" using pos assms(2,3) by (simp add: region_def)
  then show False using live_apart [OF assms] \<open>s \<noteq> t\<close> by blast
qed

lemma home_kept:
  assumes "kheap_ok h" and "kheap_ok h'" and "heap_frame h h'" and "(q, t) \<in> live h" and "(q, t) \<in> live h'"
  shows "home h' q = home h q"
proof -
  obtain d where d: "hdr h (q - q mod 4096) = Some d" by (rule live_base [OF assms(1,4)])
  obtain d' where d': "hdr h' (q - q mod 4096) = Some d'" by (rule live_base [OF assms(2,5)])
  show ?thesis using assms(3) d d' by (auto simp: heap_frame_def home_def)
qed

lemma pend_frame: "heap_frame h h' \<Longrightarrow> pend c h' = pend c h"
  by (simp add: pend_def heap_frame_def)

lemma heap_invD:
  assumes "heap_inv h"
  shows "kheap_ok h" "distinct (pend c h)" "c \<noteq> c' \<Longrightarrow> set (pend c h) \<inter> set (pend c' h) = {}"
    "p \<in> set (pend c h) \<Longrightarrow> \<exists>s. (p, s) \<in> live h"
    "(rf, p) \<in> set (remote_free_list (kmem h c)) \<Longrightarrow> home h p = Some c \<and> (\<exists>c'. home h rf = Some c' \<and> c' \<noteq> c)"
    "(p, s) \<in> live h \<Longrightarrow> cpu_ok (home h p)"
  using assms unfolding heap_inv_def by blast+

lemma entry_in_blocks: "(rf, p) \<in> set es \<Longrightarrow> rf \<in> set (entry_blocks es) \<and> p \<in> set (entry_blocks es)"
  by (induction es rule: entry_blocks.induct) auto

text \<open>What is left of the invariant when the lists of pending frees stay as they are.\<close>

lemma heap_inv_frame:
  assumes inv: "heap_inv h" and k: "kheap_ok h'" "heap_frame h h'"
    and keep: "\<forall>c. \<forall>p \<in> set (pend c h). \<forall>s. (p, s) \<in> live h \<longrightarrow> (p, s) \<in> live h'"
    and cpu: "\<forall>p s. (p, s) \<in> live h' \<longrightarrow> (p, s) \<notin> live h \<longrightarrow> cpu_ok (home h' p)"
  shows "heap_inv h'"
proof -
  note I = heap_invD [OF inv]
  have pf: "pend c h' = pend c h" "remote_free_list (kmem h' c) = remote_free_list (kmem h c)" for c
    using pend_frame [OF k(2)] k(2) by (simp_all add: heap_frame_def)
  have hm: "home h' q = home h q" if q: "q \<in> set (pend c h)" for q c
  proof -
    obtain s where "(q, s) \<in> live h" using I(4) [OF q] by blast
    moreover from this have "(q, s) \<in> live h'" using keep q by blast
    ultimately show ?thesis by (rule home_kept [OF I(1) k])
  qed
  have "home h' p = Some c \<and> (\<exists>c'. home h' rf = Some c' \<and> c' \<noteq> c)"
    if "(rf, p) \<in> set (remote_free_list (kmem h' c))" for c rf p
  proof -
    have e: "(rf, p) \<in> set (remote_free_list (kmem h c))" using that pf(2) by simp
    then have "rf \<in> set (pend c h)" "p \<in> set (pend c h)" using entry_in_blocks by (auto simp: pend_def)
    then show ?thesis using I(5) [OF e] hm by simp
  qed
  moreover have "cpu_ok (home h' p)" if "(p, s) \<in> live h'" for p s
    using that cpu I(6) home_kept [OF I(1) k, of p s] by (cases "(p, s) \<in> live h") auto
  moreover have "\<exists>s. (p, s) \<in> live h'" if "p \<in> set (pend c h')" for p c
    using that I(4) keep unfolding pf by blast
  ultimately show ?thesis unfolding heap_inv_def pf(1) using I(2,3) k(1) by blast
qed

lemma hands_out_held:
  assumes inv: "heap_inv h" and a: "hands_out p s h h'" and cpu: "cpu_ok (home h' p)"
  shows "heap_inv h'" "(p, s) \<notin> held h" "held h' = insert (p, s) (held h)" "p \<notin> set (pend c h)"
    "(q, t) \<in> live h \<Longrightarrow> home h' q = home h q"
proof -
  have k: "kheap_ok h" "kheap_ok h'" "(p, s) \<notin> live h" "live h' = insert (p, s) (live h)" "heap_frame h h'"
    using heap_invD(1) [OF inv] a by (simp_all add: hands_out_def)
  note pf = pend_frame [OF k(5)]
  have fresh: "p \<notin> set (pend c h)" for c
  proof
    assume "p \<in> set (pend c h)"
    then obtain t where t: "(p, t) \<in> live h" using heap_invD(4) [OF inv] by blast
    then have "s = t" using live_unique [OF k(2), of p s t] k(4) by simp
    then show False using t k(3) by simp
  qed
  then show "p \<notin> set (pend c h)" .
  show "heap_inv h'" by (rule heap_inv_frame [OF inv k(2,5)]) (use k(4) cpu in auto)
  show "(p, s) \<notin> held h" using k(3) by (simp add: held_def)
  show "held h' = insert (p, s) (held h)" using fresh k(4) by (auto simp: held_def pf)
  show "(q, t) \<in> live h \<Longrightarrow> home h' q = home h q" using home_kept [OF k(1,2,5)] k(4) by simp
qed

lemma takes_back_held:
  assumes inv: "heap_inv h" and p: "(p, s) \<in> held h" and b: "takes_back p s h h'"
  shows "heap_inv h'" "held h' = held h - {(p, s)}" "(q, t) \<in> live h' \<Longrightarrow> home h' q = home h q"
proof -
  have k: "kheap_ok h" "kheap_ok h'" "live h' = live h - {(p, s)}" "heap_frame h h'"
    using heap_invD(1) [OF inv] b by (simp_all add: takes_back_def)
  note pf = pend_frame [OF k(4)]
  have "\<forall>c. \<forall>q \<in> set (pend c h). q \<noteq> p" using p by (auto simp: held_def)
  then show "heap_inv h'" using k(3) by (intro heap_inv_frame [OF inv k(2,4)]) auto
  show "held h' = held h - {(p, s)}" using k(3) by (auto simp: held_def pf)
  show "home h' q = home h q" if "(q, t) \<in> live h'" using home_kept [OF k(1,2,4), of q t] k(3) that by simp
qed

subsection \<open>The lists of pending frees\<close>

lemma set_remote_simps [simp]:
  "hdr (h\<lparr>kmem := (kmem h)(o' := (kmem h o')\<lparr>remote_free_list := es\<rparr>)\<rparr>) = hdr h"
  "home (h\<lparr>kmem := (kmem h)(o' := (kmem h o')\<lparr>remote_free_list := es\<rparr>)\<rparr>) = home h"
  "pend c (h\<lparr>kmem := (kmem h)(o' := (kmem h o')\<lparr>remote_free_list := es\<rparr>)\<rparr>) = (if c = o' then entry_blocks es else pend c h)"
  by (auto simp: home_def pend_def)

lemma kheap_ok_remote [simp]:
  "kheap_ok (h\<lparr>kmem := (kmem h)(o' := (kmem h o')\<lparr>remote_free_list := es\<rparr>)\<rparr>) = kheap_ok h"
proof -
  have "bucket_ok c i (h\<lparr>kmem := (kmem h)(o' := (kmem h o')\<lparr>remote_free_list := es\<rparr>)\<rparr>) = bucket_ok c i h" for c i
    by (simp add: bucket_ok_def bucket_of_def members_def sb_count_def)
  then show ?thesis by (simp add: kheap_ok_def)
qed

definition n_pending :: "nat \<Rightarrow> kheap \<Rightarrow> nat" where
  "n_pending n h = (\<Sum>k < n. length (remote_free_list (kmem h k)))"

lemma n_pending_frame: "heap_frame h h' \<Longrightarrow> n_pending n h' = n_pending n h"
  by (simp add: n_pending_def heap_frame_def)

lemma n_pending_set:
  "o' < n \<Longrightarrow> n_pending n (h\<lparr>kmem := (kmem h)(o' := (kmem h o')\<lparr>remote_free_list := es\<rparr>)\<rparr>)
     + length (remote_free_list (kmem h o')) = n_pending n h + length es"
  by (simp add: n_pending_def sum.remove [of _ o'])


lemma push_pending:
  assumes inv: "heap_inv h" and p: "(p, s) \<in> held h" and rf: "(rf, t) \<in> held h" and ne: "p \<noteq> rf"
    and hm: "home h p = Some o'" "home h rf = Some c" "c \<noteq> o'"
  defines "h2 \<equiv> h\<lparr>kmem := (kmem h)(o' := (kmem h o')\<lparr>remote_free_list := (rf, p) # remote_free_list (kmem h o')\<rparr>)\<rparr>"
  shows "heap_inv h2" "held h2 = held h - {(p, s), (rf, t)}"
proof -
  note I = heap_invD [OF inv]
  have pd: "pend k h2 = (if k = o' then rf # p # pend k h else pend k h)" for k
    unfolding h2_def by (simp add: pend_def)
  have rl: "remote_free_list (kmem h2 k) = (if k = o' then (rf, p) # remote_free_list (kmem h k) else remote_free_list (kmem h k))" for k
    by (simp add: h2_def)
  have lv: "live h2 = live h" "home h2 = home h" "kheap_ok h2" using I(1) by (simp_all add: h2_def)
  have np: "p \<notin> set (pend k h)" "rf \<notin> set (pend k h)" for k using p rf by (auto simp: held_def)
  have pl: "(p, s) \<in> live h" "(rf, t) \<in> live h" using p rf by (simp_all add: held_def)
  have 1: "distinct (pend k h2)" for k using I(2) np ne by (simp add: pd)
  have 2: "set (pend k h2) \<inter> set (pend k' h2) = {}" if "k \<noteq> k'" for k k' using I(3) [OF that] np that by (auto simp: pd)
  have 3: "\<exists>u. (q, u) \<in> live h2" if "q \<in> set (pend k h2)" for q k
    using that I(4) [of q k] pl unfolding pd lv(1) by (auto split: if_splits)
  have 4: "home h2 q = Some k \<and> (\<exists>c'. home h2 r = Some c' \<and> c' \<noteq> k)" if "(r, q) \<in> set (remote_free_list (kmem h2 k))" for r q k
    using that I(5) [of r q k] hm unfolding rl lv(2) by (auto split: if_splits)
  show "heap_inv h2" unfolding heap_inv_def using 1 2 3 4 lv I(6) by simp
  have "(p, u) \<in> live h \<Longrightarrow> u = s" "(rf, u) \<in> live h \<Longrightarrow> u = t" for u
    using live_unique [OF I(1)] pl by blast+
  then show "held h2 = held h - {(p, s), (rf, t)}" unfolding held_def lv(1) pd by (auto split: if_splits)
qed

lemma take_pending:
  fixes c :: nat
  assumes inv: "heap_inv h"
  defines "h0 \<equiv> h\<lparr>kmem := (kmem h)(c := (kmem h c)\<lparr>remote_free_list := []\<rparr>)\<rparr>"
  shows "heap_inv h0" "held h0 = held h \<union> {(q, t). (q, t) \<in> live h \<and> q \<in> set (pend c h)}" "home h0 = home h"
proof -
  note I = heap_invD [OF inv]
  have pd: "pend k h0 = (if k = c then [] else pend k h)" for k unfolding h0_def by (simp add: pend_def)
  have lv: "live h0 = live h" "kheap_ok h0" using I(1) by (simp_all add: h0_def)
  show hm: "home h0 = home h" by (simp add: h0_def)
  have "remote_free_list (kmem h0 k) = (if k = c then [] else remote_free_list (kmem h k))" for k by (simp add: h0_def)
  then show "heap_inv h0" unfolding heap_inv_def pd lv(1) hm using lv(2) I by (auto split: if_splits)
  have oth: "q \<notin> set (pend k h)" if "q \<in> set (pend c h)" "k \<noteq> c" for q k using I(3) [of k c] that by auto
  have "(\<forall>k. q \<notin> set (pend k h0)) \<longleftrightarrow> (\<forall>k. q \<notin> set (pend k h)) \<or> q \<in> set (pend c h)" for q
  proof
    assume "\<forall>k. q \<notin> set (pend k h0)"
    then have "k = c \<or> q \<notin> set (pend k h)" for k by (simp add: pd split: if_splits)
    then show "(\<forall>k. q \<notin> set (pend k h)) \<or> q \<in> set (pend c h)" by metis
  next
    assume "(\<forall>k. q \<notin> set (pend k h)) \<or> q \<in> set (pend c h)"
    then show "\<forall>k. q \<notin> set (pend k h0)" using oth by (auto simp: pd)
  qed
  then show "held h0 = held h \<union> {(q, t). (q, t) \<in> live h \<and> q \<in> set (pend c h)}"
    unfolding held_def lv(1) by auto
qed

subsection \<open>Freeing\<close>

definition freed :: "nat \<Rightarrow> nat \<Rightarrow> kheap \<Rightarrow> kheap \<Rightarrow> bool" where
  "freed p s h h' \<longleftrightarrow> heap_inv h' \<and> held h' = held h - {(p, s)} \<and> (\<forall>(q, t) \<in> held h'. home h' q = home h q)"

lemma freed_takes_back:
  assumes "heap_inv h" and "(p, s) \<in> held h" and "takes_back p s h h'"
  shows "freed p s h h'" "remote_free_list (kmem h' k) = remote_free_list (kmem h k)" "n_pending n h' = n_pending n h"
proof -
  have "heap_frame h h'" using assms(3) by (simp add: takes_back_def)
  then show "remote_free_list (kmem h' k) = remote_free_list (kmem h k)" "n_pending n h' = n_pending n h"
    by (simp_all add: heap_frame_def n_pending_frame)
  have "(q, t) \<in> held h' \<Longrightarrow> (q, t) \<in> live h'" for q t by (simp add: held_def)
  then show "freed p s h h'" using takes_back_held [OF assms] unfolding freed_def by blast
qed

lemma remote_free_ok:
  assumes inv: "heap_inv h" and p: "(p, s) \<in> held h" and hm: "home h p = Some o'" "o' \<noteq> c" and c: "c < CONFIG_MAX_CPUS"
  obtains "remote_free c o' p h = None" "frame_alloc 1 (pg h) = None"
  | h' where "remote_free c o' p h = Some h'" "freed p s h h'" "remote_free_list (kmem h' c) = remote_free_list (kmem h c)"
      "n_pending CONFIG_MAX_CPUS h' = n_pending CONFIG_MAX_CPUS h + 1"
proof -
  have r: "0 < (16 :: nat)" "(16 :: nat) \<le> MAX_REQUEST" by (simp_all add: MAX_REQUEST_def)
  from kmalloc_ok [OF heap_invD(1) [OF inv] r c] show thesis
  proof cases
    case 1
    then show thesis using that(1) by (simp add: remote_free_def)
  next
    case (2 rf t h1)
    have hrf: "home h1 rf = Some c" using 2(4) by simp
    then have "cpu_ok (home h1 rf)" using c by (simp add: cpu_ok_def)
    note H = hands_out_held [OF inv 2(3) this]
    have fr: "heap_frame h h1" "(rf, t) \<notin> live h" using 2(3) by (simp_all add: hands_out_def)
    have pl: "(p, s) \<in> live h" using p by (simp add: held_def)
    have ne: "p \<noteq> rf"
    proof
      assume e: "p = rf"
      have "(rf, t) \<in> live h1" "(rf, s) \<in> live h1" using 2(3) pl e by (simp_all add: hands_out_def)
      then have "s = t" using live_unique [OF heap_invD(1) [OF H(1)]] by blast
      then show False using fr(2) pl e by simp
    qed
    have hp: "home h1 p = Some o'" using H(5) [OF pl] hm(1) by simp
    have hh: "(p, s) \<in> held h1" "(rf, t) \<in> held h1" using H(3) p by simp_all
    let ?h2 = "h1\<lparr>kmem := (kmem h1)(o' := (kmem h1 o')\<lparr>remote_free_list := (rf, p) # remote_free_list (kmem h1 o')\<rparr>)\<rparr>"
    note P = push_pending [OF H(1) hh ne hp hrf hm(2) [symmetric]]
    have hd: "held ?h2 = held h - {(p, s)}" using P(2) H(2,3) by auto
    have "home ?h2 q = home h q" if "(q, u) \<in> held ?h2" for q u
    proof -
      have "(q, u) \<in> live h" using that unfolding hd by (simp add: held_def)
      then show ?thesis using H(5) by simp
    qed
    then have f: "freed p s h ?h2" using P(1) hd by (auto simp: freed_def)
    have "o' < CONFIG_MAX_CPUS" using heap_invD(6) [OF inv pl] hm(1) by (simp add: cpu_ok_def)
    note n_pending_set [OF this, of h1 "(rf, p) # remote_free_list (kmem h1 o')"]
    then have n: "n_pending CONFIG_MAX_CPUS ?h2 = n_pending CONFIG_MAX_CPUS h + 1" using n_pending_frame [OF fr(1)] by simp
    have "remote_free_list (kmem ?h2 c) = remote_free_list (kmem h c)" using fr(1) hm(2) by (simp add: heap_frame_def)
    moreover have "remote_free c o' p h = Some ?h2" using 2(1) by (simp add: remote_free_def)
    ultimately show thesis using that(2) f n by blast
  qed
qed

lemma held_header:
  assumes inv: "heap_inv h" and p: "(p, s) \<in> held h"
  obtains d where "hdr h (p - p mod 4096) = Some d" "0 < p" "(p, s) \<in> live h"
    "home h p = (if is_large d then None else Some (hcpu d))"
proof -
  have pl: "(p, s) \<in> live h" using p by (simp add: held_def)
  obtain d where d: "hdr h (p - p mod 4096) = Some d" "(p, s) \<in> live_at (p - p mod 4096) d"
    by (rule live_base [OF heap_invD(1) [OF inv] pl])
  have "0 < p - p mod 4096" using kheap_okD(1) [OF heap_invD(1) [OF inv] d(1)] by (simp add: sb_ok_def)
  then have "0 < p" by simp
  then show thesis using that d pl by (simp add: home_def)
qed

lemma kfree_one_ok:
  assumes inv: "heap_inv h" and p: "(p, s) \<in> held h" and c: "c < CONFIG_MAX_CPUS"
  obtains "kfree_one c p h = None" "home h p \<noteq> None" "home h p \<noteq> Some c" "frame_alloc 1 (pg h) = None"
  | h' where "kfree_one c p h = Some h'" "freed p s h h'" "remote_free_list (kmem h' c) = remote_free_list (kmem h c)"
      "n_pending CONFIG_MAX_CPUS h' = n_pending CONFIG_MAX_CPUS h + (if home h p = None \<or> home h p = Some c then 0 else 1)"
proof -
  obtain d where d: "hdr h (p - p mod 4096) = Some d" "0 < p" "(p, s) \<in> live h"
    "home h p = (if is_large d then None else Some (hcpu d))" by (rule held_header [OF inv p])
  have k: "kfree_one c p h = (if is_large d then free_pages_at (p - p mod 4096) (asize d) h
      else if hcpu d \<noteq> c then remote_free c (hcpu d) p h else free_block c p (p - p mod 4096) h)"
    using d(1,2) by (simp add: kfree_one_def)
  note ok = heap_invD(1) [OF inv]
  consider "is_large d" | "\<not> is_large d" "hcpu d = c" | "\<not> is_large d" "hcpu d \<noteq> c" by blast
  then show thesis
  proof cases
    case 1
    obtain h' where "free_pages_at (p - p mod 4096) (asize d) h = Some h'" "takes_back p s h h'"
      by (rule free_large_ok [OF ok d(3,1) 1])
    then show thesis using 1 d(4) k freed_takes_back [OF inv p] by (intro that(2) [of h']) simp_all
  next
    case 2
    obtain h' where "free_block c p (p - p mod 4096) h = Some h'" "takes_back p s h h'"
      by (rule free_block_ok [OF ok d(3,1) 2 refl])
    then show thesis using 2 d(4) k freed_takes_back [OF inv p] by (intro that(2) [of h']) simp_all
  next
    case 3
    then have "home h p = Some (hcpu d)" using d(4) by simp
    from remote_free_ok [OF inv p this 3(2) c] show thesis
    proof cases
      case 1
      then show thesis using that(1) 3 d(4) k by simp
    next
      case (2 h')
      then show thesis using that(2) [of h'] 3 d(4) k by simp
    qed
  qed
qed


lemma drain_ok:
  assumes "heap_inv h" and "c < CONFIG_MAX_CPUS" and "distinct (entry_blocks es)"
    and "\<forall>q \<in> set (entry_blocks es). \<exists>t. (q, t) \<in> held h"
    and "\<forall>(rf, q) \<in> set es. home h q = Some c \<and> (\<exists>c'. home h rf = Some c' \<and> c' \<noteq> c)"
    and "drain c es h = Some h'"
  shows "heap_inv h' \<and> held h' = {(q, t). (q, t) \<in> held h \<and> q \<notin> set (entry_blocks es)}
    \<and> (\<forall>(q, t) \<in> held h'. home h' q = home h q)
    \<and> remote_free_list (kmem h' c) = remote_free_list (kmem h c)
    \<and> n_pending CONFIG_MAX_CPUS h' = n_pending CONFIG_MAX_CPUS h + length es"
  using assms
proof (induction c es h rule: drain.induct)
  case (1 c h)
  then show ?case by simp
next
  case (2 c rf p es h)
  obtain h1 h2 where h1: "kfree_one c p h = Some h1" and h2: "kfree_one c rf h1 = Some h2" and r: "drain c es h2 = Some h'"
    using 2(7) by (auto split: option.splits)
  obtain s where p: "(p, s) \<in> held h" using 2(5) by auto
  obtain t where rf: "(rf, t) \<in> held h" using 2(5) by auto
  have ne: "p \<noteq> rf" "p \<notin> set (entry_blocks es)" "rf \<notin> set (entry_blocks es)" "distinct (entry_blocks es)" using 2(4) by auto
  have hm: "home h p = Some c" "home h rf \<noteq> None" "home h rf \<noteq> Some c" using 2(6) by auto
  have uniq: "u = v" if "(q, u) \<in> held h" "(q, v) \<in> held h" for q u v
    using live_unique [OF heap_invD(1) [OF 2(2)], of q u v] that by (simp add: held_def)
  have F1: "freed p s h h1 \<and> remote_free_list (kmem h1 c) = remote_free_list (kmem h c)
      \<and> n_pending CONFIG_MAX_CPUS h1 = n_pending CONFIG_MAX_CPUS h"
    by (rule kfree_one_ok [OF 2(2) p 2(3)]) (use h1 hm in simp_all)
  then have i1: "heap_inv h1" "held h1 = held h - {(p, s)}" "(q, u) \<in> held h1 \<Longrightarrow> home h1 q = home h q" for q u
    by (auto simp: freed_def)
  have rf1: "(rf, t) \<in> held h1" using i1(2) rf ne(1) by simp
  then have hrf: "home h1 rf = home h rf" by (rule i1(3))
  have F2: "freed rf t h1 h2 \<and> remote_free_list (kmem h2 c) = remote_free_list (kmem h1 c)
      \<and> n_pending CONFIG_MAX_CPUS h2 = n_pending CONFIG_MAX_CPUS h1 + 1"
    by (rule kfree_one_ok [OF i1(1) rf1 2(3)]) (use h2 hrf hm in simp_all)
  then have i2: "heap_inv h2" "held h2 = held h1 - {(rf, t)}" "(q, u) \<in> held h2 \<Longrightarrow> home h2 q = home h1 q" for q u
    by (auto simp: freed_def)
  have hd2: "(q, u) \<in> held h2 \<longleftrightarrow> (q, u) \<in> held h \<and> q \<noteq> p \<and> q \<noteq> rf" for q u
    unfolding i2(2) i1(2) using uniq p rf by blast
  have hm2: "home h2 q = home h q" if "(q, u) \<in> held h2" for q u
    using i2(3) [OF that] i1(3) [of q u] that i2(2) by simp
  have a: "\<forall>q \<in> set (entry_blocks es). \<exists>t. (q, t) \<in> held h2" using 2(5) ne(2,3) hd2 by auto
  have b: "\<forall>(r, q) \<in> set es. home h2 q = Some c \<and> (\<exists>c'. home h2 r = Some c' \<and> c' \<noteq> c)"
  proof clarify
    fix r q assume e: "(r, q) \<in> set es"
    then have "r \<in> set (entry_blocks es)" "q \<in> set (entry_blocks es)" using entry_in_blocks by auto
    then have "home h2 r = home h r" "home h2 q = home h q" using a hm2 by blast+
    then show "home h2 q = Some c \<and> (\<exists>c'. home h2 r = Some c' \<and> c' \<noteq> c)" using 2(6) e by auto
  qed
  note IH = 2(1) [OF h1 h2 i2(1) 2(3) ne(4) a b r]
  have "home h' q = home h q" if "(q, u) \<in> held h'" for q u
  proof -
    have "home h' q = home h2 q" "(q, u) \<in> held h2" using IH that by blast+
    then show ?thesis using hm2 by simp
  qed
  moreover have "held h' = {(q, t). (q, t) \<in> held h \<and> q \<notin> set (entry_blocks ((rf, p) # es))}"
    using IH hd2 by auto
  ultimately show ?case using IH F1 F2 by auto
qed

lemma kfree_ok:
  assumes inv: "heap_inv h" and p: "(p, s) \<in> held h" and k: "kfree c p h = Some h'"
  shows "freed p s h h'"
    "n_pending CONFIG_MAX_CPUS h' = n_pending CONFIG_MAX_CPUS h + (if home h p = None \<or> home h p = Some c then 0 else 1)"
proof -
  obtain d where d: "hdr h (p - p mod 4096) = Some d" "0 < p" "(p, s) \<in> live h"
    "home h p = (if is_large d then None else Some (hcpu d))" by (rule held_header [OF inv p])
  have cpu: "cpu_ok (home h p)" by (rule heap_invD(6) [OF inv d(3)])
  let ?n = "n_pending CONFIG_MAX_CPUS" and ?l = "remote_free_list (kmem h c)"
  let ?h0 = "h\<lparr>kmem := (kmem h)(c := (kmem h c)\<lparr>remote_free_list := []\<rparr>)\<rparr>"
  have "freed p s h h' \<and> ?n h' = ?n h + (if home h p = None \<or> home h p = Some c then 0 else 1)"
  proof (cases "\<not> is_large d \<and> hcpu d = c")
    case False
    then have k1: "kfree c p h = kfree_one c p h" using d(1,2) by (auto simp: kfree_def kfree_one_def Let_def)
    show ?thesis
    proof (cases "c < CONFIG_MAX_CPUS")
      case True
      show ?thesis by (rule kfree_one_ok [OF inv p True]) (use k k1 in simp_all)
    next
      case c: False
      have "is_large d"
        using k d c False by (auto simp: k1 kfree_one_def remote_free_def kmalloc_def Let_def split: if_splits)
      moreover obtain g where g: "free_pages_at (p - p mod 4096) (asize d) h = Some g" "takes_back p s h g"
        by (rule free_large_ok [OF heap_invD(1) [OF inv] d(3,1) \<open>is_large d\<close>])
      ultimately show ?thesis using freed_takes_back [OF inv p g(2)] k d g(1) by (simp add: kfree_def Let_def)
    qed
  next
    case True
    then have hp: "home h p = Some c" and c: "c < CONFIG_MAX_CPUS" using d(4) cpu by (simp_all add: cpu_ok_def)
    obtain h1 where dr: "drain c ?l ?h0 = Some h1" and fb: "free_block c p (p - p mod 4096) h1 = Some h'"
      using k d(1,2) True by (auto simp: kfree_def Let_def split: option.splits)
    note T = take_pending [OF inv, of c]
    have e: "\<forall>q \<in> set (entry_blocks ?l). \<exists>t. (q, t) \<in> held ?h0"
    proof
      fix q assume q: "q \<in> set (entry_blocks ?l)"
      then obtain t where "(q, t) \<in> live h" using heap_invD(4) [OF inv, of q c] by (auto simp: pend_def)
      then show "\<exists>t. (q, t) \<in> held ?h0" unfolding T(2) using q by (auto simp: pend_def)
    qed
    have dist: "distinct (entry_blocks ?l)" using heap_invD(2) [OF inv, of c] by (simp add: pend_def)
    have hs: "\<forall>(rf, q) \<in> set ?l. home ?h0 q = Some c \<and> (\<exists>c'. home ?h0 rf = Some c' \<and> c' \<noteq> c)"
      using heap_invD(5) [OF inv] unfolding T(3) by blast
    note D = drain_ok [OF T(1) c dist e hs dr]
    have h1: "held h1 = held h"
      using D unfolding T(2) by (auto simp: held_def pend_def)
    have n1: "?n h1 = ?n h" using D n_pending_set [OF c, of h "[]"] by simp
    have i1: "heap_inv h1" and p1: "(p, s) \<in> held h1" using D h1 p by simp_all
    have hm1: "home h1 q = home h q" if "(q, t) \<in> held h1" for q t using D that unfolding T(3) by auto
    obtain e where e1: "hdr h1 (p - p mod 4096) = Some e" "(p, s) \<in> live h1"
      "home h1 p = (if is_large e then None else Some (hcpu e))" by (rule held_header [OF i1 p1])
    have he: "\<not> is_large e" "hcpu e = c" using hm1 [OF p1] hp e1(3) by (simp_all split: if_splits)
    obtain g where "free_block c p (p - p mod 4096) h1 = Some g" "takes_back p s h1 g"
      by (rule free_block_ok [OF heap_invD(1) [OF i1] e1(2,1) he refl])
    then have "takes_back p s h1 h'" using fb by simp
    note f = freed_takes_back [OF i1 p1 this]
    then have "home h' q = home h q" if q: "(q, t) \<in> held h'" for q t
    proof -
      have "(q, t) \<in> held h1" "home h' q = home h1 q" using q f(1) unfolding freed_def by blast+
      then show ?thesis using hm1 by simp
    qed
    then have "freed p s h h'" using f(1) unfolding freed_def h1 by blast
    then show ?thesis using hp f(3) n1 by simp
  qed
  then show "freed p s h h'" "?n h' = ?n h + (if home h p = None \<or> home h p = Some c then 0 else 1)" by blast+
qed

lemma kfree_local_total:
  assumes inv: "heap_inv h" and p: "(p, s) \<in> held h" and l: "remote_free_list (kmem h c) = []"
    and hm: "home h p = None \<or> home h p = Some c"
  shows "\<exists>h'. kfree c p h = Some h'"
proof -
  obtain d where d: "hdr h (p - p mod 4096) = Some d" "0 < p" "(p, s) \<in> live h"
    "home h p = (if is_large d then None else Some (hcpu d))" by (rule held_header [OF inv p])
  have "h\<lparr>kmem := (kmem h)(c := (kmem h c)\<lparr>remote_free_list := []\<rparr>)\<rparr> = h" using l by (simp add: fun_upd_idem)
  then have k: "kfree c p h = (if is_large d then free_pages_at (p - p mod 4096) (asize d) h
      else if hcpu d \<noteq> c then remote_free c (hcpu d) p h else free_block c p (p - p mod 4096) h)"
    using d(1,2) l by (simp add: kfree_def)
  show ?thesis
  proof (cases "is_large d")
    case True
    show ?thesis by (rule free_large_ok [OF heap_invD(1) [OF inv] d(3,1) True]) (use True k in simp)
  next
    case False
    then have "hcpu d = c" using hm d(4) by auto
    show ?thesis
      by (rule free_block_ok [OF heap_invD(1) [OF inv] d(3,1) False \<open>hcpu d = c\<close> refl]) (use False k \<open>hcpu d = c\<close> in simp)
  qed
qed

interpretation kh: block_allocator kmalloc kfree held heap_inv MAX_REQUEST
proof
  show "heap_inv h' \<and> (\<exists>m \<ge> n. (a, m) \<notin> held h \<and> held h' = insert (a, m) (held h))"
    if v: "heap_inv h" "0 < n" "n \<le> MAX_REQUEST" "kmalloc c n h = Some (a, h')" for h n c a h'
  proof -
    have c: "c < CONFIG_MAX_CPUS" using v(2,4) by (auto simp: kmalloc_def split: if_splits)
    from kmalloc_ok [OF heap_invD(1) [OF v(1)] v(2,3) c] show ?thesis
    proof cases
      case (2 p s g)
      then have "cpu_ok (home h' a)" using v(4) c by (simp add: cpu_ok_def)
      then show ?thesis using hands_out_held(1-3) [OF v(1), of a s h'] 2 v(4) by auto
    qed (use v(4) in simp)
  qed
  show "heap_inv h' \<and> held h' = held h - {(a, m)}"
    if "heap_inv h" "(a, m) \<in> held h" "kfree c a h = Some h'" for h a m c h'
    using kfree_ok(1) [OF that] by (simp add: freed_def)
  show "region x \<inter> region y = {}" if "heap_inv h" "x \<in> held h" "y \<in> held h" "x \<noteq> y" for h x y
    using live_apart [OF heap_invD(1) [OF that(1)], of "fst x" "snd x" "fst y" "snd y"] that(2-4) by (auto simp: held_def)
qed

section \<open>Properties\<close>

definition heap_at_boot :: "bitmap \<Rightarrow> kheap" where
  "heap_at_boot bm =
     \<lparr>hdr = (\<lambda>_. None),
      kmem = (\<lambda>_. \<lparr>remote_free_list = [], buckets = (\<lambda>_. \<lparr>sbs = [], b_alloc_size = 0, b_free_count = 0, num_sb = 0\<rparr>)\<rparr>),
      pg = bm\<rparr>"

lemma heap_at_boot_inv: "below_2G bm \<Longrightarrow> heap_inv (heap_at_boot bm)" "held (heap_at_boot bm) = {}"
  by (simp_all add: heap_at_boot_def heap_inv_def kheap_ok_def bucket_ok_def bucket_of_def members_def live_def held_def pend_def)

lemma take_block_pg: "take_block base sz c i h = Some (p, h') \<Longrightarrow> pg h' = pg h"
  by (auto simp: take_block_def Let_def split: option.splits list.splits if_splits)

lemma malloc_small_pg:
  assumes "malloc_small c n h = Some (p, h')" and "frame_alloc 1 (pg h) = Some (f, bm)"
  shows "pg h' = pg h \<or> pg h' = bm"
  using assms(1) assms(2)
  by (auto simp: malloc_small_def get_free_pages_def init_super_def Let_def split: if_splits option.splits
      dest!: take_block_pg)

text \<open>
  C21. The kernel heap on a machine with up to 2 GB whose frame 0 is reserved: over any sequence of
  \<open>kmalloc\<close> (of 1 byte to just under 256 MB) and \<open>kfree\<close> calls made by any CPUs, on blocks of any
  CPU, no byte belongs to two of the blocks that clients own.
\<close>

theorem kmalloc_blocks_never_overlap:
  assumes "64 * length bm \<le> 2 ^ 19" and "used bm 0" and "kh.block_run ops [] (heap_at_boot bm) = Some (owned, h')"
  shows "sorted_wrt (\<lambda>b b'. region b \<inter> region b' = {}) owned"
  using kh.block_run_apart [OF heap_at_boot_inv(1) assms(3)] assms(1,2) by (simp add: below_2G_def)

text \<open>Two blocks on a machine with 64 frames, of which the first is reserved.\<close>

lemma demo_frames:
  "frame_alloc 1 [1] = Some (1, [3])" "frame_alloc 1 [3] = Some (2, [7])" "below_2G [1]"
proof -
  have "first_fit 1 [1] = Some 1" "first_fit 1 [3] = Some 2"
    by (simp_all add: first_fit_def free_run_def used_def upt_rec)
  then show "frame_alloc 1 [1] = Some (1, [3])" "frame_alloc 1 [3] = Some (2, [7])"
    by (simp_all add: frame_alloc_def alloc_frames_eq(2) frame_addr_small set_frame_def set_bit_eq_or)
qed (simp add: below_2G_def used_def)

lemma demo_heap:
  obtains p h where "kmalloc 0 16 (heap_at_boot [1]) = Some (p, h)" "heap_inv h" "held h = {(p, 16)}" "home h p = Some 0"
    "pg h = [1] \<or> pg h = [3]"
proof -
  let ?b = "heap_at_boot [1]"
  note inv = heap_at_boot_inv(1) [OF demo_frames(3)]
  have r: "0 < (16 :: nat)" "(16 :: nat) \<le> 2048" by simp_all
  from malloc_small_ok [OF heap_invD(1) [OF inv] r, of 0] show thesis
  proof cases
    case 1
    then show thesis using demo_frames(1) by (simp add: heap_at_boot_def)
  next
    case (2 i p h)
    have "(2 :: nat) ^ (i + 3) = 16"
    proof -
      have "(2 :: nat) ^ 4 \<le> 2 ^ (i + 3)" using 2(3) by simp
      then have "4 \<le> i + 3" by (rule power_le_imp_le_exp [rotated]) simp
      moreover have "\<not> 1 < i" using 2(4) [rule_format, of 1] by auto
      ultimately have "i = 1" by simp
      then show ?thesis by simp
    qed
    then have o: "hands_out p 16 ?b h" using 2(5) by simp
    have "cpu_ok (home h p)" using 2(7) by (simp add: cpu_ok_def CONFIG_MAX_CPUS_def)
    note H = hands_out_held [OF inv o this]
    have "pg h = [1] \<or> pg h = [3]"
      using malloc_small_pg [OF 2(1)] demo_frames(1) by (simp add: heap_at_boot_def)
    then show thesis using that [of p h] 2(1,7) H(1,3) heap_at_boot_inv(2)
      by (simp add: kmalloc_def CONFIG_MAX_CPUS_def)
  qed
qed

theorem kmalloc_blocks_never_overlap_witness:
  "\<exists>p q h'. kh.block_run [Balloc 0 16, Balloc 1 16] [] (heap_at_boot [1]) = Some ([(q, 16), (p, 16)], h')
     \<and> region (q, 16) \<inter> region (p, 16) = {}"
proof -
  obtain p h where h: "kmalloc 0 16 (heap_at_boot [1]) = Some (p, h)" "heap_inv h" "pg h = [1] \<or> pg h = [3]"
    by (rule demo_heap)
  have r: "0 < (16 :: nat)" "(16 :: nat) \<le> MAX_REQUEST" "1 < CONFIG_MAX_CPUS" by (simp_all add: CONFIG_MAX_CPUS_def MAX_REQUEST_def)
  obtain q s h' where "kmalloc 1 16 h = Some (q, h')"
    by (rule kmalloc_ok [OF heap_invD(1) [OF h(2)] r]) (use h(3) demo_frames in auto)
  then have run: "kh.block_run [Balloc 0 16, Balloc 1 16] [] (heap_at_boot [1]) = Some ([(q, 16), (p, 16)], h')"
    using h(1) r by simp
  have "64 * length [1 :: u64] \<le> 2 ^ 19" "used [1] 0" by (simp_all add: used_def)
  from kmalloc_blocks_never_overlap [OF this run] run show ?thesis by auto
qed

text \<open>
  Frees by other CPUs are never done with: each is recorded in an entry from the heap of the
  CPU that frees, so the owner, when it works off its list, cannot free the entry but sends it
  back in a new one.  No call to \<open>kfree\<close> makes the number of pending entries smaller, and one for
  a block of another CPU makes it larger.
\<close>

theorem remote_frees_never_settle:
  assumes "heap_inv h" and "(p, s) \<in> held h" and "kfree c p h = Some h'"
  shows "heap_inv h' \<and> n_pending CONFIG_MAX_CPUS h' =
    n_pending CONFIG_MAX_CPUS h + (if home h p = None \<or> home h p = Some c then 0 else 1)"
  using kfree_ok [OF assms] by (simp add: freed_def)

theorem remote_frees_never_settle_witness:
  "\<exists>p h h'. kmalloc 0 16 (heap_at_boot [1]) = Some (p, h) \<and> kfree 1 p h = Some h'
     \<and> n_pending CONFIG_MAX_CPUS h' = n_pending CONFIG_MAX_CPUS h + 1"
proof -
  obtain p h where h: "kmalloc 0 16 (heap_at_boot [1]) = Some (p, h)" "heap_inv h" "held h = {(p, 16)}" "home h p = Some 0"
    "pg h = [1] \<or> pg h = [3]" by (rule demo_heap)
  have p: "(p, 16) \<in> held h" using h(3) by simp
  have c: "1 < CONFIG_MAX_CPUS" "0 \<noteq> (1 :: nat)" by (simp_all add: CONFIG_MAX_CPUS_def)
  obtain d where d: "hdr h (p - p mod 4096) = Some d" "0 < p"
    "home h p = (if is_large d then None else Some (hcpu d))" by (rule held_header [OF h(2) p])
  obtain h' where h': "remote_free 1 0 p h = Some h'"
    by (rule remote_free_ok [OF h(2) p h(4) c(2,1)]) (use h(5) demo_frames in auto)
  then have "kfree 1 p h = Some h'" using d h(4) by (simp add: kfree_def split: if_splits)
  with remote_frees_never_settle [OF h(2) p this] h(1,4) show ?thesis by auto
qed

text \<open>
  A request of up to 2048 bytes is served from the smallest of the sizes 8, 16, ..., 2048 that
  holds it, at an address that is a multiple of that size and in a block that was not in use; it
  panics only when the CPU number is out of range or there is no free frame.
\<close>

theorem kmalloc_takes_smallest_class:
  assumes "heap_inv h" and "0 < n" and "n \<le> 2048" and "c < CONFIG_MAX_CPUS"
  shows "case kmalloc c n h of None \<Rightarrow> frame_alloc 1 (pg h) = None
    | Some (p, h') \<Rightarrow> (\<exists>i \<le> 8. n \<le> 2 ^ (i + 3) \<and> (\<forall>j < i. 2 ^ (j + 3) < n) \<and> p mod 2 ^ (i + 3) = 0
        \<and> (p, 2 ^ (i + 3)) \<notin> live h \<and> live h' = insert (p, 2 ^ (i + 3)) (live h) \<and> home h' p = Some c)"
proof -
  have k: "kmalloc c n h = malloc_small c n h" using assms(2-4) by (simp add: kmalloc_def)
  from malloc_small_ok [OF heap_invD(1) [OF assms(1)] assms(2,3), of c] show ?thesis
    by cases (auto simp: k hands_out_def intro!: exI)
qed

theorem kmalloc_takes_smallest_class_witness:
  "\<exists>p h. kmalloc 0 16 (heap_at_boot [1]) = Some (p, h) \<and> (\<exists>i. 2 ^ (i + 3) dvd p \<and> 16 \<le> (2 :: nat) ^ (i + 3))"
proof -
  obtain p h where h: "kmalloc 0 16 (heap_at_boot [1]) = Some (p, h)" by (rule demo_heap)
  have "0 < CONFIG_MAX_CPUS" by (simp add: CONFIG_MAX_CPUS_def)
  with kmalloc_takes_smallest_class [OF heap_at_boot_inv(1) [OF demo_frames(3)], of 16 0] h show ?thesis by auto
qed

end
