(* ===== verification/FatFile.thy ===== *)
theory FatFile imports LilacBase begin

text \<open>
  FAT32 volumes, \<open>fs/fat32/fat32.c\<close> and \<open>fs/fat32/file.c\<close>: mounting, the file allocation
  table, clusters on the block device, and reading and writing files.

  The block device is the function from byte addresses to bytes; its driver is taken to carry out
  every transfer.  \<open>None\<close> is a panic (\<open>kerror\<close>) or an access outside a buffer.  Buffers from
  \<open>get_free_pages\<close> hold whatever the memory held before: the function \<open>junk\<close>.
\<close>

section \<open>The block device\<close>

type_synonym device = "nat \<Rightarrow> u8"

definition disk_read :: "nat \<Rightarrow> nat \<Rightarrow> device \<Rightarrow> u8 list" where
  "disk_read lba cnt v = map v [512 * lba..<512 * lba + 512 * cnt]"

text \<open>\<open>bs\<close> is the whole of the \<open>512 * cnt\<close> bytes that are transferred.\<close>

definition disk_write :: "nat \<Rightarrow> u8 list \<Rightarrow> device \<Rightarrow> device" where
  "disk_write lba bs v =
     (\<lambda>a. if 512 * lba \<le> a \<and> a < 512 * lba + length bs then bs ! (a - 512 * lba) else v a)"

definition le16 :: "u8 list \<Rightarrow> nat \<Rightarrow> nat" where
  "le16 bs i = unat (bs ! i) + 256 * unat (bs ! (i + 1))"

definition le32 :: "u8 list \<Rightarrow> nat \<Rightarrow> nat" where
  "le32 bs i = le16 bs i + 65536 * le16 bs (i + 2)"

text \<open>The words of a buffer, and the bytes of a table of words.\<close>

fun words32 :: "u8 list \<Rightarrow> u32 list" where
  "words32 (a # b # c # d # bs) = of_nat (le32 [a, b, c, d] 0) # words32 bs"
| "words32 bs = []"

definition bytes32 :: "u32 \<Rightarrow> u8 list" where
  "bytes32 w = map (\<lambda>i. ucast (drop_bit (8 * i) w)) [0..<4]"

section \<open>The volume\<close>

record fat_BS =
  bytes_per_sector :: nat
  sectors_per_cluster :: nat
  reserved_sector_count :: nat
  num_FATs :: nat
  total_sectors_32 :: nat
  FAT_size_32 :: nat
  root_cluster :: nat
  fs_info_sector :: nat
  bs_signature :: nat

record fat_FSInfo =
  lead_sig :: nat
  struct_sig :: nat
  free_clst_cnt :: nat
  next_free_clst :: nat
  trail_sig :: nat

record fat_disk =
  base_lba :: nat
  fat_begin_lba :: nat
  clst_begin_lba :: nat
  root_start :: nat
  bytes_per_clst :: nat
  sect_per_clst :: nat
  bpb :: fat_BS
  fs_info :: fat_FSInfo
  first_clst :: nat
  last_clst :: nat
  FAT_sectors :: nat
  FAT_buf :: "u32 list"
  dev :: device

abbreviation "EOC \<equiv> 0x0FFFFFF8 :: nat"

text \<open>The fields of the packed structures, at their offsets.\<close>

definition parse_bpb :: "u8 list \<Rightarrow> fat_BS" where
  "parse_bpb bs =
     \<lparr>bytes_per_sector = le16 bs 11, sectors_per_cluster = unat (bs ! 13), reserved_sector_count = le16 bs 14,
      num_FATs = unat (bs ! 16), total_sectors_32 = le32 bs 32, FAT_size_32 = le32 bs 36,
      root_cluster = le32 bs 44, fs_info_sector = le16 bs 48, bs_signature = le16 bs 510\<rparr>"

definition parse_fs_info :: "u8 list \<Rightarrow> fat_FSInfo" where
  "parse_fs_info bs =
     \<lparr>lead_sig = le32 bs 0, struct_sig = le32 bs 484, free_clst_cnt = le32 bs 488,
      next_free_clst = le32 bs 492, trail_sig = le32 bs 508\<rparr>"

definition fat_read_bpb :: "fat_disk \<Rightarrow> int \<times> fat_disk" where
  "fat_read_bpb d =
     (let b = parse_bpb (disk_read (base_lba d) 1 (dev d)) in
      (if bs_signature b \<noteq> 0xAA55 then - 1 else 0, d\<lparr>bpb := b\<rparr>))"

definition fat32_read_fs_info :: "fat_disk \<Rightarrow> int \<times> fat_disk" where
  "fat32_read_fs_info d =
     (let i = parse_fs_info (disk_read (u32_add (base_lba d) (fs_info_sector (bpb d))) 1 (dev d)) in
      (if lead_sig i \<noteq> 0x41615252 \<or> struct_sig i \<noteq> 0x61417272 \<or> trail_sig i \<noteq> 0xAA550000 then - 1 else 0,
       d\<lparr>fs_info := i\<rparr>))"

definition disk_init :: "fat_disk \<Rightarrow> fat_disk" where
  "disk_init d =
     (let b = bpb d in
      d\<lparr>fat_begin_lba := u32_add (base_lba d) (reserved_sector_count b),
        clst_begin_lba := (base_lba d + reserved_sector_count b + num_FATs b * FAT_size_32 b) mod 2 ^ 32,
        root_start := root_cluster b,
        bytes_per_clst := (sectors_per_cluster b * bytes_per_sector b) mod 2 ^ 16,
        sect_per_clst := sectors_per_cluster b\<rparr>)"

text \<open>The table is read 128 sectors at a time, the last time the rest (\<open>n\<close> bounds the rounds).\<close>

definition page_up_count :: "nat \<Rightarrow> nat" where
  "page_up_count x = (x + 4095) div 4096"

fun read_FAT_loop :: "nat \<Rightarrow> nat \<Rightarrow> nat \<Rightarrow> nat \<Rightarrow> device \<Rightarrow> u8 list \<Rightarrow> u8 list option" where
  "read_FAT_loop 0 lba sz i v buf = Some buf"
| "read_FAT_loop (Suc n) lba sz i v buf =
     (if i < sz then
        (if i + 128 > sz then mem_write buf (i * 512) (disk_read (lba + i) (sz - i) v)
         else Option.bind (mem_write buf (i * 512) (disk_read (lba + i) 128 v))
                (read_FAT_loop n lba sz (i + 128) v))
      else Some buf)"

definition fat_read_FAT :: "fat_disk \<Rightarrow> fat_disk option" where
  "fat_read_FAT d =
     (let sz = FAT_size_32 (bpb d);
          buf_sz = (bytes_per_sector (bpb d) * sz) mod 2 ^ 32 in
      map_option (\<lambda>buf. d\<lparr>first_clst := 0, last_clst := total_sectors_32 (bpb d), FAT_sectors := sz,
                          FAT_buf := words32 buf\<rparr>)
        (read_FAT_loop (sz + 1) (fat_begin_lba d) sz 0 (dev d) (replicate (4096 * page_up_count buf_sz) 0)))"

fun write_FAT_loop :: "nat \<Rightarrow> nat \<Rightarrow> nat \<Rightarrow> nat \<Rightarrow> u8 list \<Rightarrow> device \<Rightarrow> device option" where
  "write_FAT_loop 0 lba sz i buf v = Some v"
| "write_FAT_loop (Suc n) lba sz i buf v =
     (if i < sz then
        (if i + 128 > sz
         then map_option (\<lambda>bs. disk_write (lba + i) bs v) (mem_read buf (i * 512) (512 * (sz - i)))
         else case mem_read buf (i * 512) (512 * 128) of
             None \<Rightarrow> None
           | Some bs \<Rightarrow> write_FAT_loop n lba sz (i + 128) buf (disk_write (lba + i) bs v))
      else Some v)"

definition fat_write_FAT :: "fat_disk \<Rightarrow> fat_disk option" where
  "fat_write_FAT d =
     (let lba = u32_add (fat_begin_lba d) ((first_clst d * sect_per_clst d) mod 2 ^ 32) in
      map_option (\<lambda>v. d\<lparr>dev := v\<rparr>)
        (write_FAT_loop (FAT_sectors d + 1) lba (FAT_sectors d) 0 (concat (map bytes32 (FAT_buf d))) (dev d)))"

text \<open>
  \<open>fat32_init\<close>, without the inode and directory entry of the root: \<open>Some None\<close> is the error
  return for a volume whose signatures are wrong.
\<close>

definition fat32_init :: "nat \<Rightarrow> fat_disk \<Rightarrow> fat_disk option option" where
  "fat32_init first_sector_lba d0 =
     (case fat_read_bpb (d0\<lparr>base_lba := first_sector_lba\<rparr>) of
        (r1, d1) \<Rightarrow> if r1 \<noteq> 0 then Some None else
      (case fat32_read_fs_info d1 of
        (r2, d2) \<Rightarrow> if r2 \<noteq> 0 then Some None
                    else map_option Some (fat_read_FAT (disk_init d2))))"

section \<open>The file allocation table\<close>

definition fat_value :: "nat \<Rightarrow> fat_disk \<Rightarrow> nat option" where
  "fat_value clst d =
     (if clst < first_clst d \<or> clst > last_clst d then None
      else if clst - first_clst d < length (FAT_buf d)
      then Some (unat (FAT_buf d ! (clst - first_clst d) AND 0x0FFFFFFF)) else None)"

definition fat_set_value :: "nat \<Rightarrow> nat \<Rightarrow> fat_disk \<Rightarrow> fat_disk option" where
  "fat_set_value clst val d =
     (if clst < first_clst d \<or> clst > last_clst d then None
      else if clst - first_clst d < length (FAT_buf d)
      then Some (d\<lparr>FAT_buf := (FAT_buf d)[clst - first_clst d := of_nat val AND 0x0FFFFFFF]\<rparr>) else None)"

text \<open>The walk along the chain to the cluster of a file position: \<open>- 1\<close> past its end.\<close>

fun clst_walk :: "nat \<Rightarrow> nat \<Rightarrow> fat_disk \<Rightarrow> int option" where
  "clst_walk 0 clst d = Some (int clst)"
| "clst_walk (Suc n) clst d =
     (if clst > EOC then Some (- 1)
      else case fat_value clst d of None \<Rightarrow> None | Some c1 \<Rightarrow> clst_walk n c1 d)"

function find_free :: "nat \<Rightarrow> fat_disk \<Rightarrow> nat option" where
  "find_free clst d =
     (if clst > last_clst d then None
      else case fat_value clst d of
          None \<Rightarrow> None
        | Some v \<Rightarrow> if v = 0 then Some clst else find_free (clst + 1) d)"
  by auto
termination by (relation "measure (\<lambda>(clst, d). last_clst d + 1 - clst)") auto

declare find_free.simps [simp del]

definition fat_find_free_clst :: "fat_disk \<Rightarrow> int option" where
  "fat_find_free_clst d =
     (if free_clst_cnt (fs_info d) = 0 then Some (- 1)
      else map_option int (find_free (next_free_clst (fs_info d)) d))"

definition fat_add_new_clst :: "nat \<Rightarrow> nat \<Rightarrow> fat_disk \<Rightarrow> (nat \<times> fat_disk) option" where
  "fat_add_new_clst prev_clst new_clst d =
     (case (if prev_clst \<noteq> 0 then fat_set_value prev_clst new_clst d else Some d) of
        None \<Rightarrow> None
      | Some d1 \<Rightarrow>
     (case fat_set_value new_clst 0x0FFFFFFF d1 of
        None \<Rightarrow> None
      | Some d2 \<Rightarrow>
        (let d3 = d2\<lparr>fs_info := (fs_info d2)\<lparr>free_clst_cnt := u32_sub (free_clst_cnt (fs_info d2)) 1\<rparr>\<rparr> in
         map_option (\<lambda>r. (new_clst, d3\<lparr>fs_info := (fs_info d3)\<lparr>next_free_clst := nat (r mod 2 ^ 32)\<rparr>\<rparr>))
           (fat_find_free_clst d3))))"

definition fat_find_alloc_clst :: "nat \<Rightarrow> fat_disk \<Rightarrow> (int \<times> fat_disk) option" where
  "fat_find_alloc_clst prev_clst d =
     (case fat_find_free_clst d of
        None \<Rightarrow> None
      | Some r \<Rightarrow> if r = - 1 then Some (- 1, d)
                  else map_option (\<lambda>(c, d1). (int c, d1)) (fat_add_new_clst prev_clst (nat r) d))"

section \<open>Clusters\<close>

definition LBA_ADDR :: "nat \<Rightarrow> fat_disk \<Rightarrow> nat" where
  "LBA_ADDR clst d =
     u32_add (clst_begin_lba d) ((u32_sub clst (root_start d) * sect_per_clst d) mod 2 ^ 32)"

definition fat_read_clst :: "nat \<Rightarrow> fat_disk \<Rightarrow> u8 list" where
  "fat_read_clst clst d = disk_read (LBA_ADDR clst d) (sect_per_clst d) (dev d)"

text \<open>The cluster is taken from offset \<open>at\<close> of a buffer.\<close>

definition fat_write_clst :: "nat \<Rightarrow> u8 list \<Rightarrow> nat \<Rightarrow> fat_disk \<Rightarrow> fat_disk option" where
  "fat_write_clst clst buf at d =
     map_option (\<lambda>bs. d\<lparr>dev := disk_write (LBA_ADDR clst d) bs (dev d)\<rparr>)
       (mem_read buf at (512 * sect_per_clst d))"

fun read_clsts :: "nat \<Rightarrow> nat \<Rightarrow> nat \<Rightarrow> u8 list \<Rightarrow> fat_disk \<Rightarrow> u8 list option" where
  "read_clsts 0 clst at buf d = Some buf"
| "read_clsts (Suc n) clst at buf d =
     (if clst < EOC then
        (case mem_write buf at (fat_read_clst clst d) of
           None \<Rightarrow> None
         | Some buf1 \<Rightarrow>
             (case fat_value clst d of
                None \<Rightarrow> None
              | Some c1 \<Rightarrow> read_clsts n c1 (at + bytes_per_clst d) buf1 d))
      else Some buf)"

definition do_fat32_read :: "nat \<Rightarrow> u8 list \<Rightarrow> nat \<Rightarrow> fat_disk \<Rightarrow> (int \<times> u8 list) option" where
  "do_fat32_read clst buf num_clst d =
     (if num_clst = 0 then Some (- 1, buf)
      else map_option (\<lambda>buf1. (0, buf1)) (read_clsts num_clst clst 0 buf d))"

text \<open>
  After each cluster but the last one, a chain that ends there is to be extended; the cluster number
  is unsigned, so that of the failures only 0 is noticed.
\<close>

fun write_clsts :: "nat \<Rightarrow> nat \<Rightarrow> nat \<Rightarrow> u8 list \<Rightarrow> fat_disk \<Rightarrow> fat_disk option" where
  "write_clsts 0 clst at buf d = Some d"
| "write_clsts (Suc n) clst at buf d =
     (case fat_write_clst clst buf at d of
        None \<Rightarrow> None
      | Some d1 \<Rightarrow>
     (case fat_value clst d1 of
        None \<Rightarrow> None
      | Some c1 \<Rightarrow>
          if c1 \<ge> EOC \<and> 0 < n then
            (case fat_find_alloc_clst c1 d1 of
               None \<Rightarrow> None
             | Some (r, d2) \<Rightarrow>
                 if r = 0 then None
                 else write_clsts n (nat (r mod 2 ^ 32)) (at + bytes_per_clst d) buf d2)
          else write_clsts n c1 (at + bytes_per_clst d) buf d1))"

definition do_fat32_write :: "nat \<Rightarrow> u8 list \<Rightarrow> nat \<Rightarrow> fat_disk \<Rightarrow> (int \<times> fat_disk) option" where
  "do_fat32_write clst buf num_clst d =
     (if num_clst = 0 then Some (- 1, d)
      else map_option (\<lambda>d1. (0, d1)) (write_clsts num_clst clst 0 buf d))"

section \<open>Reading and writing files\<close>

text \<open>The directory entry of a file, which its inode keeps.\<close>

record fat_file =
  fname :: "u8 list"
  fext :: "u8 list"
  attributes :: u8
  creation_time :: nat
  creation_date :: nat
  last_access_date :: nat
  cl_high :: nat
  last_write_time :: nat
  last_write_date :: nat
  cl_low :: nat
  file_size :: nat

definition fat_clst_value :: "fat_file \<Rightarrow> nat" where
  "fat_clst_value e = u32_add (cl_low e) ((cl_high e * 65536) mod 2 ^ 32)"

definition fat_get_clst_num :: "fat_file \<Rightarrow> nat \<Rightarrow> fat_disk \<Rightarrow> int option" where
  "fat_get_clst_num e pos d = clst_walk ((pos div bytes_per_clst d) mod 2 ^ 32) (fat_clst_value e) d"

text \<open>\<open>ROUND_UP\<close>: the mask is 32 bits wide.\<close>

definition ROUND_UP :: "nat \<Rightarrow> nat \<Rightarrow> nat" where
  "ROUND_UP x b = unat ((of_nat x + of_nat b - 1 :: u64) AND ucast (NOT (of_nat b - 1 :: u32)))"

definition num_clsts :: "nat \<Rightarrow> nat \<Rightarrow> fat_disk \<Rightarrow> nat" where
  "num_clsts count offset d = (ROUND_UP (count + offset) (bytes_per_clst d) div bytes_per_clst d) mod 2 ^ 32"

definition free_pages_buf :: "(nat \<Rightarrow> u8) \<Rightarrow> nat \<Rightarrow> fat_disk \<Rightarrow> u8 list" where
  "free_pages_buf junk num_clst d =
     map junk [0..<4096 * page_up_count ((bytes_per_clst d * num_clst) mod 2 ^ 32)]"

text \<open>The number of bytes read, or \<open>- 1\<close>, and the bytes.\<close>

definition fat32_read :: "(nat \<Rightarrow> u8) \<Rightarrow> fat_file \<Rightarrow> nat \<Rightarrow> nat \<Rightarrow> fat_disk \<Rightarrow> (int \<times> u8 list) option" where
  "fat32_read junk e pos count d =
     (if cl_low e = 0 \<or> pos \<ge> file_size e then Some (0, [])
      else
        (let offset = pos mod bytes_per_clst d;
             cnt = min count (file_size e - pos);
             n = num_clsts cnt offset d;
             buf = free_pages_buf junk n d in
         case fat_get_clst_num e pos d of
           None \<Rightarrow> None
         | Some r \<Rightarrow>
             (let start = nat (r mod 2 ^ 32) in
              if start = 0 then Some (- 1, [])
              else case do_fat32_read start buf n d of
                  None \<Rightarrow> None
                | Some (r1, buf1) \<Rightarrow>
                    if r1 \<noteq> 0 then Some (- 1, [])
                    else map_option (\<lambda>bs. (int cnt, bs)) (mem_read buf1 offset cnt))))"

definition fat32_write ::
  "(nat \<Rightarrow> u8) \<Rightarrow> fat_file \<Rightarrow> nat \<Rightarrow> u8 list \<Rightarrow> fat_disk \<Rightarrow> (int \<times> fat_file \<times> fat_disk) option" where
  "fat32_write junk e pos bs d =
     (let offset = pos mod bytes_per_clst d;
          n = num_clsts (length bs) offset d;
          buf = free_pages_buf junk n d in
      case fat_get_clst_num e pos d of
        None \<Rightarrow> None
      | Some r \<Rightarrow>
          (let start = nat (r mod 2 ^ 32) in
           if start = 0 then Some (- 1, e, d)
           else case (if offset \<noteq> 0 then do_fat32_read start buf 1 d else Some (0, buf)) of
               None \<Rightarrow> None
             | Some (r1, buf1) \<Rightarrow>
                 if r1 < 0 then Some (- 1, e, d)
                 else case mem_write buf1 offset bs of
                     None \<Rightarrow> None
                   | Some buf2 \<Rightarrow>
                       (case do_fat32_write start buf2 n d of
                          None \<Rightarrow> None
                        | Some (r2, d1) \<Rightarrow>
                            if r2 < 0 then Some (r2, e, d1)
                            else Some (int (length bs),
                                       if pos + length bs > file_size e
                                       then e\<lparr>file_size := (pos + length bs) mod 2 ^ 32\<rparr> else e, d1))))"

section \<open>Blocks of a store\<close>

text \<open>
  What a file system needs of the blocks under it: a block read is the one last written to it, and
  writing one leaves the others.  The contents of a sequence of blocks follow.
\<close>

lemma take_concat_uniform:
  "\<forall>x \<in> set xs. length x = b \<Longrightarrow> n \<le> length xs \<Longrightarrow> take (n * b) (concat xs) = concat (take n xs)"
proof (induction xs arbitrary: n)
  case (Cons x xs)
  then show ?case by (cases n) auto
qed simp

lemma drop_concat_uniform:
  "\<forall>x \<in> set xs. length x = b \<Longrightarrow> n \<le> length xs \<Longrightarrow> drop (n * b) (concat xs) = concat (drop n xs)"
proof (induction xs arbitrary: n)
  case (Cons x xs)
  then show ?case by (cases n) auto
qed simp

lemma length_concat_uniform: "\<forall>x \<in> set xs. length x = b \<Longrightarrow> length (concat xs) = length xs * b"
  by (induction xs) auto

locale block_store =
  fixes rd :: "nat \<Rightarrow> 's \<Rightarrow> 'a list"
    and wr :: "nat \<Rightarrow> 'a list \<Rightarrow> 's \<Rightarrow> 's"
    and ok :: "nat \<Rightarrow> 's \<Rightarrow> bool"
    and bsz :: "'s \<Rightarrow> nat"
  assumes rd_length: "ok i s \<Longrightarrow> length (rd i s) = bsz s"
    and rd_wr_same: "ok i s \<Longrightarrow> length b = bsz s \<Longrightarrow> rd i (wr i b s) = b"
    and rd_wr_other: "ok i s \<Longrightarrow> ok j s \<Longrightarrow> i \<noteq> j \<Longrightarrow> length b = bsz s \<Longrightarrow> rd j (wr i b s) = rd j s"
    and ok_wr: "ok j (wr i b s) \<longleftrightarrow> ok j s"
    and bsz_wr: "bsz (wr i b s) = bsz s"
begin

definition contents :: "nat list \<Rightarrow> 's \<Rightarrow> 'a list" where
  "contents cs s = concat (map (\<lambda>c. rd c s) cs)"

fun wr_all :: "nat list \<Rightarrow> 'a list list \<Rightarrow> 's \<Rightarrow> 's" where
  "wr_all (c # cs) (b # bs) s = wr_all cs bs (wr c b s)"
| "wr_all _ _ s = s"

lemma wr_all_frame: "ok j (wr_all cs bs s) = ok j s" "bsz (wr_all cs bs s) = bsz s"
  by (induction cs bs s rule: wr_all.induct) (auto simp: ok_wr bsz_wr)

lemma rd_wr_all_other:
  "\<forall>c \<in> set cs. ok c s \<Longrightarrow> ok j s \<Longrightarrow> j \<notin> set cs \<Longrightarrow> \<forall>b \<in> set bs. length b = bsz s \<Longrightarrow>
   rd j (wr_all cs bs s) = rd j s"
  by (induction cs bs s rule: wr_all.induct) (auto simp: ok_wr bsz_wr rd_wr_other)

lemma contents_wr_all:
  "\<forall>c \<in> set cs. ok c s \<Longrightarrow> distinct cs \<Longrightarrow> \<forall>b \<in> set bs. length b = bsz s \<Longrightarrow> length bs = length cs \<Longrightarrow>
   contents cs (wr_all cs bs s) = concat bs"
  by (induction cs bs s rule: wr_all.induct)
    (auto simp: contents_def ok_wr bsz_wr rd_wr_all_other rd_wr_same)

lemma contents_other:
  assumes "\<forall>c \<in> set cs \<union> set ds. ok c s" and "set ds \<inter> set cs = {}" and "\<forall>b \<in> set bs. length b = bsz s"
  shows "contents ds (wr_all cs bs s) = contents ds s"
proof -
  have "rd c (wr_all cs bs s) = rd c s" if "c \<in> set ds" for c
    using assms that by (intro rd_wr_all_other) auto
  then show ?thesis unfolding contents_def by (simp cong: map_cong)
qed

lemma length_contents: "\<forall>c \<in> set cs. ok c s \<Longrightarrow> length (contents cs s) = length cs * bsz s"
  unfolding contents_def by (subst length_concat_uniform [of _ "bsz s"]) (auto simp: rd_length)

lemma contents_append [simp]: "contents (xs @ ys) s = contents xs s @ contents ys s"
  by (simp add: contents_def)

text \<open>Writing the middle of a sequence of blocks.\<close>

lemma contents_wr_middle:
  assumes "\<forall>c \<in> set (xs @ ys @ zs). ok c s" and "distinct (xs @ ys @ zs)"
    and "\<forall>b \<in> set bs. length b = bsz s" and "length bs = length ys"
  shows "contents (xs @ ys @ zs) (wr_all ys bs s) = contents xs s @ concat bs @ contents zs s"
proof -
  have "contents xs (wr_all ys bs s) = contents xs s" "contents zs (wr_all ys bs s) = contents zs s"
    using assms by (intro contents_other; auto)+
  moreover have "contents ys (wr_all ys bs s) = concat bs" using assms by (intro contents_wr_all) auto
  ultimately show ?thesis by simp
qed

end

section \<open>Clusters are the blocks of a volume\<close>

definition disk_ok :: "fat_disk \<Rightarrow> bool" where
  "disk_ok d \<longleftrightarrow> bytes_per_clst d = 512 * sect_per_clst d \<and> sect_per_clst d \<in> {1, 2, 4, 8, 16, 32, 64}"

definition clst_ok :: "nat \<Rightarrow> fat_disk \<Rightarrow> bool" where
  "clst_ok c d \<longleftrightarrow> 0 < c \<and> root_start d \<le> c \<and> c < EOC
     \<and> clst_begin_lba d + (c - root_start d) * sect_per_clst d < 2 ^ 32"

definition put_clst :: "nat \<Rightarrow> u8 list \<Rightarrow> fat_disk \<Rightarrow> fat_disk" where
  "put_clst c b d = d\<lparr>dev := disk_write (LBA_ADDR c d) b (dev d)\<rparr>"

lemma LBA_ADDR_eq: "clst_ok c d \<Longrightarrow> LBA_ADDR c d = clst_begin_lba d + (c - root_start d) * sect_per_clst d"
  by (simp add: clst_ok_def LBA_ADDR_def u32_sub_small u32_add_small)

lemma clst_apart:
  assumes "clst_ok c d" and "clst_ok c' d" and "c < c'"
  shows "LBA_ADDR c d + sect_per_clst d \<le> LBA_ADDR c' d"
proof -
  have "(c - root_start d + 1) * sect_per_clst d \<le> (c' - root_start d) * sect_per_clst d"
    using assms by (intro mult_right_mono) (auto simp: clst_ok_def)
  then show ?thesis using assms by (simp add: LBA_ADDR_eq algebra_simps)
qed

lemma put_clst_simps [simp]:
  "LBA_ADDR c (put_clst x b d) = LBA_ADDR c d" "sect_per_clst (put_clst x b d) = sect_per_clst d"
  "fat_value c (put_clst x b d) = fat_value c d" "clst_ok c (put_clst x b d) = clst_ok c d"
  "bytes_per_clst (put_clst x b d) = bytes_per_clst d" "dev (put_clst x b d) = disk_write (LBA_ADDR x d) b (dev d)"
  by (simp_all add: put_clst_def LBA_ADDR_def fat_value_def clst_ok_def)

interpretation clst: block_store fat_read_clst put_clst clst_ok "\<lambda>d. 512 * sect_per_clst d"
proof
  show "length (fat_read_clst i s) = 512 * sect_per_clst s" for i s
    by (simp add: fat_read_clst_def disk_read_def)
  show "fat_read_clst i (put_clst i b s) = b" if "length b = 512 * sect_per_clst s" for i b s
    using that by (auto simp: fat_read_clst_def disk_read_def disk_write_def intro!: nth_equalityI)
  show "fat_read_clst j (put_clst i b s) = fat_read_clst j s"
    if "clst_ok i s" "clst_ok j s" "i \<noteq> j" "length b = 512 * sect_per_clst s" for i j b s
  proof -
    have "LBA_ADDR i s + sect_per_clst s \<le> LBA_ADDR j s \<or> LBA_ADDR j s + sect_per_clst s \<le> LBA_ADDR i s"
      using clst_apart [of i s j] clst_apart [of j s i] that by linarith
    then show ?thesis using that(4) by (auto simp: fat_read_clst_def disk_read_def disk_write_def)
  qed
qed simp_all

section \<open>Chains of clusters\<close>

fun fat_path :: "fat_disk \<Rightarrow> nat \<Rightarrow> nat list \<Rightarrow> nat \<Rightarrow> bool" where
  "fat_path d c [] c' \<longleftrightarrow> c = c'"
| "fat_path d c (x # xs) c' \<longleftrightarrow>
     x = c \<and> c < EOC \<and> (case fat_value c d of None \<Rightarrow> False | Some c1 \<Rightarrow> fat_path d c1 xs c')"

lemma fat_path_append: "fat_path d c (xs @ ys) c' \<longleftrightarrow> (\<exists>m. fat_path d c xs m \<and> fat_path d m ys c')"
  by (induction xs arbitrary: c) (auto split: option.splits)

lemma clst_walk_path: "fat_path d c cs c' \<Longrightarrow> clst_walk (length cs) c d = Some (int c')"
  by (induction cs arbitrary: c) (auto split: option.splits)

lemma clst_walk_add:
  "fat_path d c cs c' \<Longrightarrow> clst_walk (length cs + n) c d = clst_walk n c' d"
  by (induction cs arbitrary: c) (auto split: option.splits)

lemma read_clsts_path:
  "fat_path d c cs c' \<Longrightarrow> disk_ok d \<Longrightarrow> at + length cs * bytes_per_clst d \<le> length buf \<Longrightarrow>
   read_clsts (length cs) c at buf d =
     Some (take at buf @ clst.contents cs d @ drop (at + length cs * bytes_per_clst d) buf)"
proof (induction cs arbitrary: c at buf)
  case Nil
  then show ?case by (simp add: clst.contents_def)
next
  case (Cons x cs)
  let ?b = "bytes_per_clst d"
  have b: "?b = 512 * sect_per_clst d" using Cons.prems(2) by (simp add: disk_ok_def)
  obtain c1 where x: "x = c" "c < EOC" and c1: "fat_value c d = Some c1" "fat_path d c1 cs c'"
    using Cons.prems(1) by (auto split: option.splits)
  have len: "length (fat_read_clst c d) = ?b" by (simp add: b fat_read_clst_def disk_read_def)
  let ?buf = "take at buf @ fat_read_clst c d @ drop (at + ?b) buf"
  have w: "mem_write buf at (fat_read_clst c d) = Some ?buf"
    using Cons.prems(3) by (simp add: mem_write_def len)
  have "read_clsts (length cs) c1 (at + ?b) ?buf d =
      Some (take (at + ?b) ?buf @ clst.contents cs d @ drop (at + ?b + length cs * ?b) ?buf)"
    using Cons.prems(3) by (intro Cons.IH c1(2) Cons.prems(2)) (simp add: len)
  then show ?case using x c1(1) w Cons.prems(3)
    by (simp add: len clst.contents_def min_def algebra_simps)
qed

section \<open>Sizes\<close>

lemma round_down_word:
  assumes "unat (y :: u64) < 2 ^ 32" and "k \<le> 16"
  shows "unat (y AND ucast (NOT (2 ^ k - 1 :: u32))) = unat y div 2 ^ k * 2 ^ k"
proof -
  have hi: "i < 32" if "bit y i" for i
  proof -
    have "bit (take_bit 32 (unat y)) i"
      unfolding take_bit_nat_eq_self [OF assms(1)] using that by (simp add: bit_unsigned_iff)
    then show ?thesis by (simp only: bit_take_bit_iff)
  qed
  have "y AND ucast (NOT (2 ^ k - 1 :: u32)) = push_bit k (drop_bit k y)"
  proof (rule bit_word_eqI)
    fix i assume "i < LENGTH(64)"
    then show "bit (y AND ucast (NOT (2 ^ k - 1 :: u32))) i \<longleftrightarrow> bit (push_bit k (drop_bit k y)) i"
      using hi [of i] assms(2)
      by (auto simp: bit_simps mask_eq_exp_minus_1 [symmetric] dest: bit_imp_le_length)
  qed
  moreover have dv: "unat (drop_bit k y) = unat y div 2 ^ k" by (simp only: unat_drop_bit_eq drop_bit_nat_def)
  moreover from dv have "push_bit k (drop_bit k y) = of_nat (unat y div 2 ^ k * 2 ^ k)"
    by (simp add: push_bit_eq_mult flip: dv)
  moreover have "unat y div 2 ^ k * 2 ^ k < 2 ^ 64"
    by (rule le_less_trans [OF div_times_less_eq_dividend]) (use assms(1) in simp)
  ultimately show ?thesis
    using take_bit_nat_eq_self [of "unat y div 2 ^ k * 2 ^ k" "LENGTH(64)"] by (simp only: unat_of_nat) simp
qed

lemma disk_ok_pow: "disk_ok d \<Longrightarrow> \<exists>k \<le> 15. bytes_per_clst d = 2 ^ k"
proof -
  assume d: "disk_ok d"
  then consider "bytes_per_clst d = 2 ^ 9" | "bytes_per_clst d = 2 ^ 10" | "bytes_per_clst d = 2 ^ 11"
    | "bytes_per_clst d = 2 ^ 12" | "bytes_per_clst d = 2 ^ 13" | "bytes_per_clst d = 2 ^ 14"
    | "bytes_per_clst d = 2 ^ 15" by (auto simp: disk_ok_def)
  then show ?thesis by cases (rule exI, rule conjI [rotated], assumption, simp)+
qed

text \<open>The number of clusters that \<open>count\<close> bytes from an offset into the first one take.\<close>

lemma num_clsts_eq:
  assumes "disk_ok d" and "count + offset < 2 ^ 31"
  shows "num_clsts count offset d = (count + offset + bytes_per_clst d - 1) div bytes_per_clst d"
proof -
  let ?b = "bytes_per_clst d"
  obtain k where k: "k \<le> 15" "?b = 2 ^ k" using disk_ok_pow [OF assms(1)] by blast
  have "(2::nat) ^ k \<le> 2 ^ 15" using k(1) by (intro power_increasing) simp_all
  then have b: "0 < ?b" "?b \<le> 32768" unfolding k(2) by simp_all
  let ?x = "count + offset + ?b - 1"
  have x: "?x < 2 ^ 32" using assms(2) b by simp
  have w: "of_nat (count + offset) + of_nat ?b - 1 = (of_nat ?x :: u64)"
    using b(1) by (simp add: of_nat_diff)
  have u: "unat (of_nat ?x :: u64) = ?x" using x by (simp add: unat_of_nat)
  have "ROUND_UP (count + offset) ?b = ?x div ?b * ?b"
    unfolding ROUND_UP_def w
    using round_down_word [of "of_nat ?x" k] x k(1) unfolding u by (simp add: k(2))
  moreover have "?x div ?b < 2 ^ 32" using x by (meson div_le_dividend le_less_trans)
  ultimately show ?thesis using b(1) by (simp add: num_clsts_def)
qed

lemma clusters_spanned:
  assumes "0 < (b::nat)" and "0 < cnt" and "n = (cnt + pos mod b + b - 1) div b"
  shows "pos mod b + cnt \<le> n * b" and "0 < n" and "pos + cnt \<le> L * b \<longleftrightarrow> pos div b + n \<le> L"
proof -
  let ?x = "cnt + pos mod b"
  have n: "n * b \<le> ?x + b - 1" "?x + b - 1 < (n + 1) * b"
    unfolding assms(3) using div_times_less_eq_dividend [of "?x + b - 1" b] dividend_less_times_div [OF assms(1), of "?x + b - 1"] by (simp_all add: algebra_simps)
  then show 1: "pos mod b + cnt \<le> n * b" by simp
  then show "0 < n" using assms(2) by (cases n) auto
  have p: "pos + cnt = pos div b * b + ?x" by simp
  show "pos + cnt \<le> L * b \<longleftrightarrow> pos div b + n \<le> L"
  proof
    assume "pos div b + n \<le> L"
    then have "(pos div b + n) * b \<le> L * b" by (rule mult_right_mono) simp
    then show "pos + cnt \<le> L * b" unfolding p add_mult_distrib using 1 by linarith
  next
    assume "pos + cnt \<le> L * b"
    then have "pos div b * b + n * b < L * b + b" unfolding p using n(1) assms(1,2) by linarith
    then have "(pos div b + n) * b < (L + 1) * b" by (simp add: add_mult_distrib)
    then show "pos div b + n \<le> L" by (simp only: mult_less_cancel2) simp
  qed
qed

section \<open>Files\<close>

text \<open>The file of a directory entry with the chain of clusters \<open>cs\<close>, on a sound volume, and its bytes.\<close>

definition fat_file_at :: "fat_file \<Rightarrow> nat list \<Rightarrow> fat_disk \<Rightarrow> bool" where
  "fat_file_at e cs d \<longleftrightarrow> disk_ok d \<and> distinct cs \<and> (\<forall>c \<in> set cs. clst_ok c d) \<and> last_clst d < EOC
     \<and> (\<exists>c' < 2 ^ 28. EOC \<le> c' \<and> fat_path d (fat_clst_value e) cs c')
     \<and> file_size e \<le> length cs * bytes_per_clst d \<and> length cs * bytes_per_clst d < 2 ^ 30"

definition file_bytes :: "fat_file \<Rightarrow> nat list \<Rightarrow> fat_disk \<Rightarrow> u8 list" where
  "file_bytes e cs d = take (file_size e) (clst.contents cs d)"

lemma fat_file_atD:
  assumes "fat_file_at e cs d"
  shows "disk_ok d" "distinct cs" "\<forall>c \<in> set cs. clst_ok c d" "file_size e \<le> length cs * bytes_per_clst d"
    "length cs * bytes_per_clst d < 1073741824" "0 < bytes_per_clst d" "bytes_per_clst d = 512 * sect_per_clst d"
    "bytes_per_clst d \<le> 2 ^ 15"
  using assms by (auto simp: fat_file_at_def disk_ok_def)

lemma length_file_contents: "fat_file_at e cs d \<Longrightarrow> length (clst.contents cs d) = length cs * bytes_per_clst d"
  using fat_file_atD [of e cs d] by (simp add: clst.length_contents)

lemma contents_slice:
  assumes "fat_file_at e cs d" and "off + n \<le> length cs"
  shows "take (n * bytes_per_clst d) (drop (off * bytes_per_clst d) (clst.contents cs d))
    = clst.contents (take n (drop off cs)) d"
proof -
  have u: "\<forall>x \<in> set (map (\<lambda>c. fat_read_clst c d) cs'). length x = bytes_per_clst d" for cs'
    using fat_file_atD(7) [OF assms(1)] by (auto simp: fat_read_clst_def disk_read_def)
  have "drop (off * bytes_per_clst d) (clst.contents cs d) = concat (map (\<lambda>c. fat_read_clst c d) (drop off cs))"
    unfolding clst.contents_def using assms(2) by (subst drop_concat_uniform [OF u]) (simp_all add: drop_map)
  then show ?thesis
    unfolding clst.contents_def using assms(2) by (simp add: take_concat_uniform [OF u] take_map)
qed

text \<open>The walk to a position inside the chain, and the path on from there.\<close>

lemma file_walk:
  assumes "fat_file_at e cs d" and "off + n \<le> length cs" and "0 < n"
  obtains c1 where "clst_walk off (fat_clst_value e) d = Some (int (cs ! off))"
    "fat_path d (cs ! off) (take n (drop off cs)) c1"
    "0 < cs ! off" "cs ! off < EOC" "off < length cs"
proof -
  obtain c' where p': "fat_path d (fat_clst_value e) cs c'" using assms(1) by (auto simp: fat_file_at_def)
  have "cs = take off cs @ take n (drop off cs) @ drop n (drop off cs)" by (simp only: append_take_drop_id)
  with p' have "fat_path d (fat_clst_value e) (take off cs @ take n (drop off cs) @ drop n (drop off cs)) c'"
    by (rule back_subst)
  then obtain m c1 where m: "fat_path d (fat_clst_value e) (take off cs) m"
    and p: "fat_path d m (take n (drop off cs)) c1" unfolding fat_path_append by blast
  have off: "off < length cs" using assms(2,3) by simp
  have "take n (drop off cs) = cs ! off # take (n - 1) (drop (Suc off) cs)"
    using off assms(3) by (cases n) (simp_all add: Cons_nth_drop_Suc [symmetric])
  with p have "m = cs ! off" by simp
  moreover have "clst_ok (cs ! off) d" using fat_file_atD(3) [OF assms(1)] off by simp
  ultimately show thesis using that [of c1] clst_walk_path [OF m] p off by (simp add: clst_ok_def)
qed

lemma free_pages_buf_length:
  "bytes_per_clst d * n < 2 ^ 32 \<Longrightarrow> n * bytes_per_clst d \<le> length (free_pages_buf junk n d)"
  using dividend_less_times_div [of 4096 "bytes_per_clst d * n + 4095"]
  by (simp add: free_pages_buf_def page_up_count_def mult.commute)

lemma sub_slice: "k + m \<le> n \<Longrightarrow> take m (drop k (take n (drop a xs))) = take m (drop (k + a) xs)"
  by (simp add: drop_take min_absorb1)

text \<open>The clusters that \<open>cnt\<close> bytes from \<open>pos\<close> take: what the code computes of them.\<close>

lemma file_span:
  assumes "fat_file_at e cs d" and "0 < cnt" and fits: "pos + cnt \<le> length cs * bytes_per_clst d"
  obtains n c1 where "num_clsts cnt (pos mod bytes_per_clst d) d = n"
    "n = (cnt + pos mod bytes_per_clst d + bytes_per_clst d - 1) div bytes_per_clst d"
    "pos mod bytes_per_clst d + cnt \<le> n * bytes_per_clst d" "0 < n" "pos div bytes_per_clst d + n \<le> length cs"
    "fat_get_clst_num e pos d = Some (int (cs ! (pos div bytes_per_clst d)))"
    "fat_path d (cs ! (pos div bytes_per_clst d)) (take n (drop (pos div bytes_per_clst d) cs)) c1"
    "0 < cs ! (pos div bytes_per_clst d)"
    "nat (int (cs ! (pos div bytes_per_clst d)) mod 4294967296) = cs ! (pos div bytes_per_clst d)"
    "length (take n (drop (pos div bytes_per_clst d) cs)) = n"
    "\<forall>junk. n * bytes_per_clst d \<le> length (free_pages_buf junk n d)"
proof -
  let ?b = "bytes_per_clst d" and ?off = "pos div bytes_per_clst d"
  note D = fat_file_atD [OF assms(1)]
  define n where "n = num_clsts cnt (pos mod ?b) d"
  have "cnt + pos mod ?b < 2147483648" using fits D(4,5) mod_less_eq_dividend [of pos ?b] by linarith
  then have "cnt + pos mod ?b < 2 ^ 31" by simp
  then have n_eq: "n = (cnt + pos mod ?b + ?b - 1) div ?b" unfolding n_def by (rule num_clsts_eq [OF D(1)])
  have sp: "pos mod ?b + cnt \<le> n * ?b" "0 < n" "?off + n \<le> length cs"
    using clusters_spanned(1,2) [OF D(6) assms(2) n_eq]
      iffD1 [OF clusters_spanned(3) [OF D(6) assms(2) n_eq] fits] by blast+
  obtain c1 where w: "clst_walk ?off (fat_clst_value e) d = Some (int (cs ! ?off))"
    and p: "fat_path d (cs ! ?off) (take n (drop ?off cs)) c1" and c: "0 < cs ! ?off" "cs ! ?off < EOC"
    using file_walk [OF assms(1) sp(3,2)] by metis
  have "n * ?b \<le> length cs * ?b" using sp(3) by (intro mult_right_mono) simp_all
  then have "?b * n < 4294967296" unfolding mult.commute [of ?b n] using D(5) by linarith
  then have "n * ?b \<le> length (free_pages_buf junk n d)" for junk by (intro free_pages_buf_length) simp
  then have nb: "\<forall>junk. n * ?b \<le> length (free_pages_buf junk n d)" by blast
  have "length cs * 1 \<le> length cs * ?b" using D(6) by (intro mult_left_mono) simp_all
  then have "?off < 4294967296" using sp(2,3) D(5) by linarith
  then have "fat_get_clst_num e pos d = Some (int (cs ! ?off))" by (simp add: fat_get_clst_num_def w)
  moreover have "nat (int (cs ! ?off) mod 4294967296) = cs ! ?off" using c by (simp add: nat_mod_distrib)
  ultimately show thesis using that [OF n_def [symmetric] n_eq sp _ p c(1) _ _ nb] sp(3) by simp
qed

text \<open>A volume of 512-byte clusters with a file of 600 bytes in the clusters 3 and 4.\<close>

definition demo_disk :: "fat_disk" where
  "demo_disk =
     \<lparr>base_lba = 0, fat_begin_lba = 32, clst_begin_lba = 100, root_start = 2, bytes_per_clst = 512, sect_per_clst = 1,
      bpb = \<lparr>bytes_per_sector = 512, sectors_per_cluster = 1, reserved_sector_count = 32, num_FATs = 2,
             total_sectors_32 = 16, FAT_size_32 = 1, root_cluster = 2, fs_info_sector = 1, bs_signature = 0xAA55\<rparr>,
      fs_info = \<lparr>lead_sig = 0x41615252, struct_sig = 0x61417272, free_clst_cnt = 3, next_free_clst = 5,
                 trail_sig = 0xAA550000\<rparr>,
      first_clst = 0, last_clst = 7, FAT_sectors = 1,
      FAT_buf = [0x0FFFFFF8, 0x0FFFFFFF, 0x0FFFFFFF, 4, 0x0FFFFFFF, 0, 0, 0], dev = (\<lambda>a. of_nat a)\<rparr>"

definition demo_file :: "fat_file" where
  "demo_file =
     \<lparr>fname = [], fext = [], attributes = 0, creation_time = 0, creation_date = 0, last_access_date = 0,
      cl_high = 0, last_write_time = 0, last_write_date = 0, cl_low = 3, file_size = 600\<rparr>"

lemma demo_file_at: "fat_file_at demo_file [3, 4] demo_disk"
  by (simp add: fat_file_at_def demo_disk_def demo_file_def disk_ok_def clst_ok_def fat_value_def
      fat_clst_value_def u32_add_def)

lemma demo_sizes: "bytes_per_clst demo_disk = 512" "file_size demo_file = 600" "cl_low demo_file = 3"
  by (simp_all add: demo_disk_def demo_file_def)

lemma fat32_read_bytes:
  assumes "fat_file_at e cs d" and "cl_low e \<noteq> 0" and "0 < count"
  shows "fat32_read junk e pos count d =
    Some (int (min count (file_size e - pos)), take count (drop pos (file_bytes e cs d)))"
proof (cases "pos < file_size e")
  case False
  then show ?thesis by (simp add: fat32_read_def file_bytes_def)
next
  case pos: True
  let ?b = "bytes_per_clst d" and ?cnt = "min count (file_size e - pos)" and ?off = "pos div bytes_per_clst d"
  note D = fat_file_atD [OF assms(1)]
  have cnt: "0 < ?cnt" "pos + ?cnt \<le> length cs * ?b" using pos assms(3) D(4) by simp_all
  obtain n c1 where n: "num_clsts ?cnt (pos mod ?b) d = n"
    "n = (?cnt + pos mod ?b + ?b - 1) div ?b" and
    sp: "pos mod ?b + ?cnt \<le> n * ?b" "0 < n" "?off + n \<le> length cs" and
    w: "fat_get_clst_num e pos d = Some (int (cs ! ?off))" and
    p: "fat_path d (cs ! ?off) (take n (drop ?off cs)) c1" and c: "0 < cs ! ?off"
      "nat (int (cs ! ?off) mod 4294967296) = cs ! ?off" and
    len: "length (take n (drop ?off cs)) = n" and nb: "\<forall>junk. n * ?b \<le> length (free_pages_buf junk n d)"
    by (rule file_span [OF assms(1) cnt])
  let ?buf = "free_pages_buf junk n d" and ?data = "clst.contents (take n (drop ?off cs)) d"
  have rd: "read_clsts n (cs ! ?off) 0 ?buf d = Some (?data @ drop (n * ?b) ?buf)"
    using read_clsts_path [OF p D(1), of 0 ?buf] nb unfolding len by simp
  have dl: "length ?data = n * ?b"
    by (metis D(3,7) clst.length_contents in_set_dropD in_set_takeD len)
  have "take ?cnt (drop (pos mod ?b) ?data) = take ?cnt (drop pos (clst.contents cs d))"
    unfolding contents_slice [OF assms(1) sp(3), symmetric] sub_slice [OF sp(1)] by simp
  moreover have "\<dots> = take count (drop pos (file_bytes e cs d))"
    by (simp add: file_bytes_def drop_take)
  moreover have "mem_read (?data @ drop (n * ?b) ?buf) (pos mod ?b) ?cnt = Some (take ?cnt (drop (pos mod ?b) ?data))"
    using sp(1) dl by (simp add: mem_read_def)
  ultimately show ?thesis using pos assms(2) c(1) sp(2)
    by (simp add: fat32_read_def Let_def n(1) w c(2) do_fat32_read_def rd)
qed

text \<open>
  C19. Reading one byte or more of a file whose chain of clusters on the volume is sound and shorter than 2^30 bytes: exactly
  the bytes of the file at the position, as many as were asked for or the file has left, whatever the
  buffer held before.  But if the low half of its first cluster number is zero the file reads as empty,
  since the code takes that for a file without clusters.
\<close>

theorem fat32_read_returns_file_bytes:
  assumes "fat_file_at e cs d" and "0 < count"
  shows "fat32_read junk e pos count d =
    (if cl_low e = 0 then Some (0, [])
     else Some (int (min count (file_size e - pos)), take count (drop pos (file_bytes e cs d))))"
  using fat32_read_bytes [OF assms(1) _ assms(2)] by (simp add: fat32_read_def)

theorem fat32_read_returns_file_bytes_witness:
  "fat32_read (\<lambda>_. 0) demo_file 500 200 demo_disk = Some (100, take 200 (drop 500 (file_bytes demo_file [3, 4] demo_disk)))"
  using fat32_read_returns_file_bytes [OF demo_file_at, of 200 "\<lambda>_. 0" 500] by (simp add: demo_sizes)

section \<open>Writing inside the chain\<close>

text \<open>The blocks of a buffer.\<close>

fun chunks :: "nat \<Rightarrow> nat \<Rightarrow> 'a list \<Rightarrow> 'a list list" where
  "chunks 0 b xs = []"
| "chunks (Suc n) b xs = take b xs # chunks n b (drop b xs)"

lemma concat_chunks: "n * b \<le> length xs \<Longrightarrow> concat (chunks n b xs) = take (n * b) xs"
  by (induction n arbitrary: xs) (simp_all add: take_add)

lemma length_in_chunks: "n * b \<le> length xs \<Longrightarrow> \<forall>x \<in> set (chunks n b xs). length x = b"
proof (induction n arbitrary: xs)
  case (Suc n)
  then have "\<forall>x \<in> set (chunks n b (drop b xs)). length x = b" by (intro Suc.IH) simp
  then show ?case using Suc.prems by simp
qed simp

lemma length_chunks [simp]: "length (chunks n b xs) = n"
  by (induction n arbitrary: xs) simp_all

lemma put_clst_path: "fat_path (put_clst x b d) c cs c' = fat_path d c cs c'"
  by (induction cs arbitrary: c) (auto split: option.splits)

lemma put_clst_disk_ok: "disk_ok (put_clst x b d) = disk_ok d"
  by (simp add: disk_ok_def)

lemma wr_all_simps:
  "fat_path (clst.wr_all ws bs d) c cs c' = fat_path d c cs c'" "disk_ok (clst.wr_all ws bs d) = disk_ok d"
  "last_clst (clst.wr_all ws bs d) = last_clst d" "bytes_per_clst (clst.wr_all ws bs d) = bytes_per_clst d"
  by (induction ws bs d rule: clst.wr_all.induct)
    (simp_all add: put_clst_path put_clst_disk_ok, simp_all add: put_clst_def)

lemma write_clsts_path:
  "fat_path d c cs c' \<Longrightarrow> disk_ok d \<Longrightarrow> at + length cs * bytes_per_clst d \<le> length buf \<Longrightarrow>
   write_clsts (length cs) c at buf d =
     Some (clst.wr_all cs (chunks (length cs) (bytes_per_clst d) (drop at buf)) d)"
proof (induction cs arbitrary: c at d)
  case (Cons x cs c "at" d)
  let ?b = "bytes_per_clst d" and ?d = "put_clst c (take (bytes_per_clst d) (drop at buf)) d"
  have b: "?b = 512 * sect_per_clst d" using Cons.prems(2) by (simp add: disk_ok_def)
  obtain c1 where x: "x = c" "c < EOC" and c1: "fat_value c d = Some c1" "fat_path d c1 cs c'"
    using Cons.prems(1) by (auto split: option.splits)
  have "fat_write_clst c buf at d = Some ?d"
    using Cons.prems(3) by (simp add: fat_write_clst_def mem_read_def put_clst_def b)
  moreover have "write_clsts (length cs) c1 (at + ?b) buf ?d =
      Some (clst.wr_all cs (chunks (length cs) ?b (drop (at + ?b) buf)) ?d)"
    using Cons.IH [of ?d c1 "at + ?b"] Cons.prems(2,3) c1(2)
    by (simp add: put_clst_path put_clst_disk_ok add.assoc)
  moreover have "c1 < EOC \<or> cs = []" using c1(2) by (cases cs) auto
  ultimately show ?case using x c1(1) by (auto simp: add.commute)
qed simp

lemma take_overwritten:
  "k + length bs \<le> m \<Longrightarrow> m \<le> length xs \<Longrightarrow>
   take m (take k xs @ bs @ drop (k + length bs) xs) = take k xs @ bs @ drop (k + length bs) (take m xs)"
  by (simp add: drop_take min_absorb2)

text \<open>What a write makes of the contents of the clusters.\<close>

definition write_tail :: "(nat \<Rightarrow> u8) \<Rightarrow> nat \<Rightarrow> nat \<Rightarrow> nat \<Rightarrow> nat list \<Rightarrow> fat_disk \<Rightarrow> u8 list" where
  "write_tail junk pos len n cs d =
     (let b = bytes_per_clst d; buf = free_pages_buf junk n d in
      drop (pos mod b + len) (take (n * b)
        (if pos mod b \<noteq> 0 then fat_read_clst (cs ! (pos div b)) d @ drop b buf else buf)))"

lemma fat32_write_contents:
  assumes fat: "fat_file_at e cs d" and bs: "bs \<noteq> []" and fits: "pos + length bs \<le> length cs * bytes_per_clst d"
  defines "e' \<equiv> if pos + length bs > file_size e then e\<lparr>file_size := pos + length bs\<rparr> else e"
  obtains n d' where "n = (length bs + pos mod bytes_per_clst d + bytes_per_clst d - 1) div bytes_per_clst d"
    "pos mod bytes_per_clst d + length bs \<le> n * bytes_per_clst d" "pos div bytes_per_clst d + n \<le> length cs"
    "fat32_write junk e pos bs d = Some (int (length bs), e', d')"
    "fat_file_at e' cs d'" "bytes_per_clst d' = bytes_per_clst d"
    "clst.contents cs d' = take pos (clst.contents cs d) @ bs @ write_tail junk pos (length bs) n cs d
       @ drop ((pos div bytes_per_clst d + n) * bytes_per_clst d) (clst.contents cs d)"
proof -
  let ?b = "bytes_per_clst d" and ?off = "pos div bytes_per_clst d" and ?o = "pos mod bytes_per_clst d"
  let ?C = "clst.contents cs d"
  note D = fat_file_atD [OF fat]
  have cnt: "0 < length bs" using bs by simp
  obtain n c1 where n: "num_clsts (length bs) ?o d = n" "n = (length bs + ?o + ?b - 1) div ?b" and
    sp: "?o + length bs \<le> n * ?b" "0 < n" "?off + n \<le> length cs" and
    w: "fat_get_clst_num e pos d = Some (int (cs ! ?off))" and
    p: "fat_path d (cs ! ?off) (take n (drop ?off cs)) c1" and c: "0 < cs ! ?off"
      "nat (int (cs ! ?off) mod 4294967296) = cs ! ?off" and
    len: "length (take n (drop ?off cs)) = n" and nb: "\<forall>junk. n * ?b \<le> length (free_pages_buf junk n d)"
    by (rule file_span [OF fat cnt fits])
  let ?ys = "take n (drop ?off cs)" and ?rc = "fat_read_clst (cs ! ?off) d" and ?buf = "free_pages_buf junk n d"
  define buf1 where "buf1 = (if ?o \<noteq> 0 then ?rc @ drop ?b ?buf else ?buf)"
  have b: "length ?rc = ?b" by (simp add: fat_read_clst_def disk_read_def D(7))
  have "1 * ?b \<le> n * ?b" using sp(2) by (intro mult_right_mono) simp_all
  then have len1: "n * ?b \<le> length buf1" using spec [OF nb, of junk] b by (auto simp: buf1_def)
  obtain c2 where p1: "fat_path d (cs ! ?off) (take 1 (drop ?off cs)) c2" and off: "?off < length cs"
    using file_walk [OF fat, of ?off 1] sp(2,3) by auto
  have one: "take 1 (drop ?off cs) = [cs ! ?off]" using off by (simp add: take_Suc_conv_app_nth)
  have "\<exists>r. (if ?o \<noteq> 0 then do_fat32_read (cs ! ?off) ?buf 1 d else Some (0, ?buf)) = Some (r, buf1) \<and> 0 \<le> r"
    using read_clsts_path [OF p1 [unfolded one] D(1), of 0 ?buf] spec [OF nb, of junk] \<open>1 * ?b \<le> n * ?b\<close>
    by (auto simp: do_fat32_read_def buf1_def clst.contents_def simp del: read_clsts.simps)
  then obtain r where r: "(if ?o \<noteq> 0 then do_fat32_read (cs ! ?off) ?buf 1 d else Some (0, ?buf)) = Some (r, buf1)"
    "0 \<le> r" by blast
  define buf2 where "buf2 = take ?o buf1 @ bs @ drop (?o + length bs) buf1"
  have mw: "mem_write buf1 ?o bs = Some buf2" using sp(1) len1 by (simp add: mem_write_def buf2_def)
  then have len2: "n * ?b \<le> length buf2" using len1 mem_write_length by metis
  define d' where "d' = clst.wr_all ?ys (chunks n ?b buf2) d"
  have "write_clsts n (cs ! ?off) 0 buf2 d = Some d'"
    using write_clsts_path [OF p D(1), of 0 buf2] len2 unfolding len d'_def by simp
  then have wr: "do_fat32_write (cs ! ?off) buf2 n d = Some (0, d')" using sp(2) by (simp add: do_fat32_write_def)
  have c2: "nat (int (cs ! ?off) mod 2 ^ 32) = cs ! ?off" using c(2) by simp
  have sz: "(pos + length bs) mod 2 ^ 32 = pos + length bs" using fits D(5) by simp
  have "fat32_write junk e pos bs d = Some (int (length bs), e', d')"
    unfolding fat32_write_def Let_def n(1) w option.case c2 r(1) prod.case mw wr sz e'_def
    using r(2) c(1) by simp
  moreover have "fat_file_at e' cs d'"
    using fat fits by (auto simp: fat_file_at_def d'_def wr_all_simps clst.wr_all_frame e'_def fat_clst_value_def)
  moreover have "clst.contents cs d' = take pos ?C @ bs @ write_tail junk pos (length bs) n cs d
       @ drop ((?off + n) * ?b) ?C"
  proof -
    let ?xs = "take ?off cs" and ?zs = "drop n (drop ?off cs)"
    have cs: "cs = ?xs @ ?ys @ ?zs" by (simp only: append_take_drop_id)
    have "clst.contents (?xs @ ?ys @ ?zs) d' = clst.contents ?xs d @ concat (chunks n ?b buf2) @ clst.contents ?zs d"
      unfolding d'_def
    proof (rule clst.contents_wr_middle)
      show "\<forall>c \<in> set (?xs @ ?ys @ ?zs). clst_ok c d" "distinct (?xs @ ?ys @ ?zs)"
        unfolding cs [symmetric] by (rule D(3), rule D(2))
      show "\<forall>x \<in> set (chunks n ?b buf2). length x = 512 * sect_per_clst d"
        using length_in_chunks [OF len2] D(7) by simp
      show "length (chunks n ?b buf2) = length ?ys" using len by simp
    qed
    then have "clst.contents cs d' = clst.contents ?xs d @ take (n * ?b) buf2 @ clst.contents ?zs d"
      unfolding cs [symmetric] concat_chunks [OF len2] .
    moreover have "clst.contents ?xs d = take (?off * ?b) ?C"
      using contents_slice [OF fat, of 0 ?off] sp(3) by simp
    moreover have "clst.contents ?zs d = drop ((?off + n) * ?b) ?C"
      using contents_slice [OF fat, of "?off + n" "length cs - (?off + n)"] sp(3) length_file_contents [OF fat]
      by (simp add: add.commute diff_mult_distrib)
    moreover have "take (n * ?b) buf2 = take ?o buf1 @ bs @ write_tail junk pos (length bs) n cs d"
      using take_overwritten [OF sp(1) len1]
      unfolding buf2_def write_tail_def Let_def buf1_def [symmetric] .
    moreover have "take (?off * ?b) ?C @ take ?o buf1 = take pos ?C"
    proof (cases "?o = 0")
      case True
      then show ?thesis by (simp add: mult.commute) (metis True add.right_neutral mult_div_mod_eq mult.commute)
    next
      case False
      have "?rc = take (1 * ?b) (drop (?off * ?b) ?C)"
        using contents_slice [OF fat, of ?off 1] off by (simp add: one [simplified] clst.contents_def)
      then have "take ?o buf1 = take ?o (drop (?off * ?b) ?C)"
        using False b D(6) by (simp add: buf1_def min_absorb1 less_imp_le)
      then show ?thesis using take_add [of "?off * ?b" ?o ?C] by simp
    qed
    ultimately show ?thesis by simp
  qed
  ultimately show thesis using that [OF n(2) sp(1,3)] by (simp add: d'_def wr_all_simps)
qed

text \<open>
  C20. A write at a position inside a file that its clusters have room for succeeds; the bytes before it
  are as they were, the size grows to the end of the write, and reading it back gives the bytes written,
  but nothing if the low half of the first cluster number is zero.  (What is behind the write in its
  last cluster may be lost, see \<open>fat32_overwrite_loses_bytes\<close>.)
\<close>

theorem fat32_write_then_read:
  assumes "fat_file_at e cs d" and "bs \<noteq> []"
    and "pos \<le> file_size e" and "pos + length bs \<le> length cs * bytes_per_clst d"
  shows "\<exists>e' d'. fat32_write junk e pos bs d = Some (int (length bs), e', d') \<and> fat_file_at e' cs d'
    \<and> take (length bs) (drop pos (file_bytes e' cs d')) = bs
    \<and> fat32_read junk' e' pos (length bs) d' = (if cl_low e = 0 then Some (0, []) else Some (int (length bs), bs))
    \<and> take pos (file_bytes e' cs d') = take pos (file_bytes e cs d)
    \<and> file_size e' = max (file_size e) (pos + length bs)"
proof -
  let ?e = "if pos + length bs > file_size e then e\<lparr>file_size := pos + length bs\<rparr> else e"
  obtain n d' where w: "fat32_write junk e pos bs d = Some (int (length bs), ?e, d')"
    and f: "fat_file_at ?e cs d'" and
    c: "clst.contents cs d' = take pos (clst.contents cs d) @ bs @ write_tail junk pos (length bs) n cs d
       @ drop ((pos div bytes_per_clst d + n) * bytes_per_clst d) (clst.contents cs d)"
    by (rule fat32_write_contents [OF assms(1,2,4)])
  have sz: "file_size ?e = max (file_size e) (pos + length bs)" by simp
  have len: "length (take pos (clst.contents cs d)) = pos"
    using length_file_contents [OF assms(1)] assms(4) by simp
  have "take (length bs) (drop pos (file_bytes ?e cs d')) = bs"
    unfolding file_bytes_def sz using len by (simp add: c drop_take)
  moreover have "take pos (file_bytes ?e cs d') = take pos (file_bytes e cs d)"
    unfolding file_bytes_def sz using len assms(3) by (simp add: c min_absorb1)
  moreover have "cl_low ?e = cl_low e" by simp
  ultimately show ?thesis
    using w f sz fat32_read_bytes [OF f, of "length bs" junk' pos] assms(2)
    by (intro exI [of _ ?e] exI [of _ d']) (auto simp: fat32_read_def)
qed

theorem fat32_write_then_read_witness:
  "\<exists>e' d'. fat32_write (\<lambda>_. 0) demo_file 600 [1, 2, 3] demo_disk = Some (3, e', d') \<and> file_size e' = 603
     \<and> fat32_read (\<lambda>_. 0) e' 600 3 d' = Some (3, [1, 2, 3])"
  using fat32_write_then_read [OF demo_file_at, of "[1, 2, 3]" 600 "\<lambda>_. 0" "\<lambda>_. 0"] by (auto simp: demo_sizes numeral_3_eq_3)

text \<open>
  A write at the start of a cluster that does not fill its last cluster loses the bytes of the
  file behind it: up to the end of that cluster they are what the buffer of \<open>get_free_pages\<close> held.
\<close>

theorem fat32_overwrite_loses_bytes:
  assumes "fat_file_at e cs d" and "bs \<noteq> []" and "pos mod bytes_per_clst d = 0"
    and "pos + length bs \<le> i" and "i < file_size e"
    and "i div bytes_per_clst d = (pos + length bs - 1) div bytes_per_clst d"
  shows "\<exists>e' d'. fat32_write junk e pos bs d = Some (int (length bs), e', d')
    \<and> file_bytes e' cs d' ! i = junk (i - pos)"
proof -
  let ?b = "bytes_per_clst d" and ?off = "pos div bytes_per_clst d"
  note D = fat_file_atD [OF assms(1)]
  have fits: "pos + length bs \<le> length cs * ?b" using assms(4,5) D(4) by simp
  obtain n d' where n: "n = (length bs + pos mod ?b + ?b - 1) div ?b" "pos mod ?b + length bs \<le> n * ?b"
    "?off + n \<le> length cs"
    and w: "fat32_write junk e pos bs d = Some (int (length bs), e, d')" and
    c: "clst.contents cs d' = take pos (clst.contents cs d) @ bs @ write_tail junk pos (length bs) n cs d
       @ drop ((?off + n) * ?b) (clst.contents cs d)"
    by (rule fat32_write_contents [OF assms(1,2) fits, of junk]) (use assms(4,5) in auto)
  obtain q where q: "pos = ?b * q" using assms(3) by (metis mult_div_mod_eq add_0_right)
  have "pos + length bs - 1 = ?b * q + (length bs - 1)" "length bs + pos mod ?b + ?b - 1 = length bs - 1 + ?b"
    using assms(2,3) q by (cases "length bs"; simp)+
  then have "i div ?b = q + (length bs - 1) div ?b" "n = (length bs - 1) div ?b + 1"
    using assms(6) n(1) D(6) by (simp_all add: div_add_self2)
  then have "i div ?b = q + n - 1" by simp
  moreover have "0 < n" using \<open>n = (length bs - 1) div ?b + 1\<close> by simp
  ultimately have "i div ?b + 1 = q + n" by simp
  moreover have "i < (i div ?b + 1) * ?b"
    using dividend_less_times_div [OF D(6), of i] by (simp add: mult.commute)
  ultimately have "i < (q + n) * ?b" by (simp only:)
  then have i: "i - pos < n * ?b" "pos \<le> i" using q assms(4) by (simp_all add: algebra_simps)
  have "n * ?b \<le> length cs * ?b" using n(3) by (intro mult_right_mono) simp_all
  then have "?b * n < 4294967296" unfolding mult.commute [of ?b n] using D(5) by linarith
  then have nb: "n * ?b \<le> length (free_pages_buf junk n d)" by (intro free_pages_buf_length) simp
  have tail: "write_tail junk pos (length bs) n cs d ! (i - pos - length bs) = junk (i - pos)"
    "i - pos - length bs < length (write_tail junk pos (length bs) n cs d)"
    using i nb assms(3,4) by (simp_all add: write_tail_def Let_def free_pages_buf_def)
  have len: "length (take pos (clst.contents cs d)) = pos"
    using length_file_contents [OF assms(1)] fits by simp
  have "file_bytes e cs d' ! i = clst.contents cs d' ! i" using assms(5) by (simp add: file_bytes_def)
  also have "\<dots> = junk (i - pos)" 
    unfolding c using tail i(2) assms(4) len by (auto simp: nth_append)
  finally have "file_bytes e cs d' ! i = junk (i - pos)" .
  with w show ?thesis by blast
qed

theorem fat32_overwrite_loses_bytes_witness:
  "\<exists>e' d'. fat32_write (\<lambda>_. 255) demo_file 0 [7] demo_disk = Some (1, e', d')
     \<and> file_bytes e' [3, 4] d' ! 1 = 255"
  using fat32_overwrite_loses_bytes [OF demo_file_at, of "[7]" 0 1 "\<lambda>_. 255"] by (simp add: demo_sizes)

section \<open>Writing past the chain\<close>

lemma fat_value_EOC: "last_clst d < EOC \<Longrightarrow> EOC \<le> c \<Longrightarrow> fat_value c d = None"
  by (simp add: fat_value_def)

lemma write_clsts_EOC:
  assumes "last_clst d < EOC" and "EOC \<le> c" and "0 < n"
  shows "write_clsts n c at buf d = None"
proof -
  have "fat_value c d1 = None" if "fat_write_clst c buf at d = Some d1" for d1
    using that assms(1,2) by (auto simp: fat_write_clst_def intro: fat_value_EOC)
  then show ?thesis using assms(3) by (cases n) (auto split: option.splits)
qed

lemma write_clsts_past:
  "fat_path d c cs c' \<Longrightarrow> EOC \<le> c' \<Longrightarrow> last_clst d < EOC \<Longrightarrow> length cs < n \<Longrightarrow>
   write_clsts n c at buf d = None"
proof (induction cs arbitrary: c "at" d n)
  case Nil
  then show ?case using write_clsts_EOC by simp
next
  case (Cons x cs c "at" d n)
  then obtain m where m: "n = Suc m" "length cs < m" by (cases n) auto
  obtain c1 where c1: "fat_value c d = Some c1" "fat_path d c1 cs c'"
    using Cons.prems(1) by (auto split: option.splits)
  show ?case
  proof (cases "fat_write_clst c buf at d")
    case (Some d1)
    then obtain b where d1: "d1 = put_clst c b d" by (auto simp: fat_write_clst_def put_clst_def)
    have last: "last_clst d1 < EOC" using Cons.prems(3) by (simp add: d1 put_clst_def)
    show ?thesis
    proof (cases "EOC \<le> c1")
      case False
      then have "write_clsts m c1 (at + bytes_per_clst d) buf d1 = None"
        using Cons.IH [of d1 c1 m] c1(2) Cons.prems(2) last m(2) by (simp add: d1 put_clst_path)
      with False show ?thesis using Some c1(1) by (simp add: m(1) d1)
    next
      case True
      have "fat_set_value c1 v d1 = None" for v using last True by (simp add: fat_set_value_def)
      then have "fat_find_alloc_clst c1 d1 = None \<or> fat_find_alloc_clst c1 d1 = Some (- 1, d1)"
        using True by (auto simp: fat_find_alloc_clst_def fat_add_new_clst_def split: option.splits)
      moreover have "write_clsts m 4294967295 (at + bytes_per_clst d) buf d1 = None"
        using write_clsts_EOC [OF last] m(2) by simp
      ultimately show ?thesis using Some c1(1) True m(2) by (auto simp: m(1) d1)
    qed
  qed (simp add: m(1))
qed

text \<open>
  The kernel cannot extend a file: a write that ends past the clusters the file has panics,
  however much space is free.
\<close>

theorem fat32_write_cannot_extend:
  assumes "fat_file_at e cs d" and "bs \<noteq> []"
    and "length cs * bytes_per_clst d < pos + length bs" and "pos + length bs < 2 ^ 30"
  shows "fat32_write junk e pos bs d = None"
proof -
  let ?b = "bytes_per_clst d" and ?off = "pos div bytes_per_clst d" and ?n = "num_clsts (length bs) (pos mod bytes_per_clst d) d"
  note D = fat_file_atD [OF assms(1)]
  have cnt: "0 < length bs" using assms(2) by simp
  have lim: "pos + length bs < 2147483648" using assms(4) by simp
  then have "length bs + pos mod ?b < 2147483648" using mod_less_eq_dividend [of pos ?b] by linarith
  then have "length bs + pos mod ?b < 2 ^ 31" by simp
  then have n_eq: "?n = (length bs + pos mod ?b + ?b - 1) div ?b" by (rule num_clsts_eq [OF D(1)])
  have "\<not> ?off + ?n \<le> length cs"
    unfolding clusters_spanned(3) [OF D(6) cnt n_eq, symmetric] using assms(3) by simp
  then have n: "0 < ?n" "length cs < ?off + ?n"
    using clusters_spanned(2) [OF D(6) cnt n_eq] by simp_all
  obtain c' where c': "EOC \<le> c'" "c' < 2 ^ 28" and p: "fat_path d (fat_clst_value e) cs c'" and l: "last_clst d < EOC"
    using assms(1) by (auto simp: fat_file_at_def)
  have "?off < 2147483648"
    using div_le_dividend [of pos ?b] lim by linarith
  then have off: "?off mod 4294967296 = ?off" by simp
  have "\<exists>c. fat_get_clst_num e pos d = None \<or> fat_get_clst_num e pos d = Some c \<and> nat (c mod 4294967296) \<noteq> 0
      \<and> (\<forall>buf. write_clsts ?n (nat (c mod 4294967296)) 0 buf d = None)"
  proof (cases "?off < length cs")
    case True
    obtain m where m: "fat_path d (fat_clst_value e) (take ?off cs) m" "fat_path d m (drop ?off cs) c'"
      using p fat_path_append [of d "fat_clst_value e" "take ?off cs" "drop ?off cs" c'] by auto
    have "m = cs ! ?off" using m(2) Cons_nth_drop_Suc [OF True, symmetric] by simp
    then have "0 < m" "m < EOC" using D(3) True by (auto simp: clst_ok_def)
    moreover have "fat_get_clst_num e pos d = Some (int m)"
      using clst_walk_path [OF m(1)] True by (simp add: fat_get_clst_num_def off)
    moreover have "write_clsts ?n m 0 buf d = None" for buf
      using write_clsts_past [OF m(2) c'(1) l, of ?n] n True by simp
    ultimately show ?thesis by (intro exI [of _ "int m"]) (simp add: nat_mod_distrib)
  next
    case False
    then obtain k where k: "?off = length cs + k" using le_Suc_ex by fastforce
    have g: "fat_get_clst_num e pos d = clst_walk k c' d"
      unfolding fat_get_clst_num_def using clst_walk_add [OF p, of k] off k by simp
    show ?thesis
    proof (cases k)
      case 0
      then show ?thesis using g c' write_clsts_EOC [OF l c'(1) n(1)] by (intro exI [of _ "int c'"]) simp
    next
      case (Suc m)
      have "fat_value c' d = None" by (rule fat_value_EOC [OF l c'(1)])
      then have "fat_get_clst_num e pos d \<in> {None, Some (- 1)}" using g Suc by simp
      then show ?thesis using write_clsts_EOC [OF l _ n(1)] by (intro exI [of _ "- 1"]) auto
    qed
  qed
  then obtain c where c: "fat_get_clst_num e pos d = None \<or> fat_get_clst_num e pos d = Some c
      \<and> nat (c mod 2 ^ 32) \<noteq> 0 \<and> (\<forall>buf. write_clsts ?n (nat (c mod 2 ^ 32)) 0 buf d = None)" by auto
  show ?thesis
  proof (cases "fat_get_clst_num e pos d")
    case None
    then show ?thesis by (simp add: fat32_write_def)
  next
    case (Some c0)
    let ?s = "nat (c mod 2 ^ 32)"
    have s: "?s \<noteq> 0" "c0 = c" using c Some by auto
    have wr: "do_fat32_write ?s buf ?n d = None" for buf using c Some n(1) by (simp add: do_fat32_write_def)
    have rd: "do_fat32_read ?s buf 1 d = Some (r, buf1) \<Longrightarrow> r = 0" for buf r buf1
      by (auto simp: do_fat32_read_def)
    show ?thesis
      unfolding fat32_write_def Let_def Some option.case s(2)
      using s(1) rd by (auto simp only: wr if_False option.case prod.case split: option.splits prod.splits if_splits)
  qed
qed

theorem fat32_write_cannot_extend_witness: "fat32_write (\<lambda>_. 0) demo_file 1020 [1, 2, 3, 4, 5] demo_disk = None"
  using fat32_write_cannot_extend [OF demo_file_at, of "[1, 2, 3, 4, 5]" 1020 "\<lambda>_. 0"] by (simp add: demo_sizes)

end
