(* ===== verification/FatDir.thy ===== *)
theory FatDir imports FatFile Clock begin

text \<open>
  FAT32 directories, \<open>fs/fat32/name.c\<close>, \<open>dir.c\<close>, \<open>inode.c\<close> and \<open>open.c\<close>: names,
  times, directory entries, lookup, and the creation of files and directories.

  A string is the list of its bytes, without the terminating 0; \<open>cstr\<close> is the string in a buffer.
  A directory entry on disk is its 32 bytes.  \<open>None\<close> is a panic or an access outside an array.
\<close>

section \<open>Characters and names\<close>

definition isprint :: "u8 \<Rightarrow> bool" where
  "isprint c \<longleftrightarrow> 32 \<le> sint c \<and> sint c \<le> 126"

fun fat_strcasecmp :: "u8 list \<Rightarrow> u8 list \<Rightarrow> int" where
  "fat_strcasecmp (c # s) (d # t) =
     (let c1 = toupper c; d1 = toupper d in if c1 \<noteq> d1 then sint c1 - sint d1 else fat_strcasecmp s t)"
| "fat_strcasecmp (c # s) [] = sint c"
| "fat_strcasecmp [] (d # t) = - sint d"
| "fat_strcasecmp [] [] = 0"

text \<open>The first \<open>n\<close> bytes are compared, past a terminating 0.\<close>

fun strncmp :: "nat \<Rightarrow> u8 list \<Rightarrow> u8 list \<Rightarrow> int" where
  "strncmp (Suc n) (c # s) (d # t) = (if c \<noteq> d then sint c - sint d else strncmp n s t)"
| "strncmp _ _ _ = 0"

text \<open>
  A part of a long name goes to its place in the 256 bytes of \<open>lfn\<close>.  Its order is the low six
  bits of the first byte; order 0 is a write in front of the buffer.
\<close>

definition lfn_chars :: "u8 list \<Rightarrow> u8 list" where
  "lfn_chars e = map (\<lambda>i. e ! (1 + i * 2)) [0..<5] @ map (\<lambda>i. e ! (14 + i * 2)) [0..<6] @ map (\<lambda>i. e ! (28 + i * 2)) [0..<2]"

definition fat_get_lfn_part :: "u8 list \<Rightarrow> u8 list \<Rightarrow> u8 list option" where
  "fat_get_lfn_part e buffer =
     (let order = uint (e ! 0 AND 0x3F); offset = (order - 1) * 13 in
      if offset + 13 \<ge> 256 then Some buffer
      else if offset < 0 then None else mem_write buffer (nat offset) (lfn_chars e))"

definition fat_get_sfn :: "u8 list \<Rightarrow> u8 list" where
  "fat_get_sfn e =
     (let nm = take 8 e; ext = take 3 (drop 8 e) in
      takeWhile (\<lambda>c. c \<noteq> 32) nm @ (if ext ! 0 \<noteq> 32 then 46 # takeWhile (\<lambda>c. c \<noteq> 32) ext else []))"

definition pad :: "nat \<Rightarrow> u8 list \<Rightarrow> u8 list" where
  "pad n s = s @ replicate (n - length s) 32"

text \<open>The eleven characters of a name: up to eight before the first dot, up to three after it.\<close>

definition get_fat_name :: "u8 list \<Rightarrow> u8 list" where
  "get_fat_name s =
     (let base = takeWhile (\<lambda>c. c \<noteq> 46) s; dot = dropWhile (\<lambda>c. c \<noteq> 46) s in
      pad 8 (map toupper (take 8 base)) @ pad 3 (if dot \<noteq> [] then map toupper (take 3 (tl dot)) else []))"

definition str_toupper :: "u8 list \<Rightarrow> u8 list" where
  "str_toupper s = map toupper s"

section \<open>Times\<close>

definition days_before_month :: "int list" where
  "days_before_month = [0, 31, 59, 90, 120, 151, 181, 212, 243, 273, 304, 334]"

fun fat_year_days :: "nat \<Rightarrow> nat \<Rightarrow> int \<Rightarrow> int" where
  "fat_year_days 0 y days = days"
| "fat_year_days (Suc n) y days =
     fat_year_days n (y + 1)
       (if (y mod 4 = 0 \<and> y mod 100 \<noteq> 0) \<or> y mod 400 = 0 then days + 365 + 1 else days + 365)"

text \<open>\<open>None\<close> is an index outside \<open>days_before_month\<close>, for the months 0, 13, 14 and 15.\<close>

definition fat_time_to_unix :: "u16 \<Rightarrow> u16 \<Rightarrow> int option" where
  "fat_time_to_unix date time =
     (let day = unat (date AND 0x1F);
          month = unat (drop_bit 5 date AND 0x0F);
          year = unat (drop_bit 9 date AND 0x7F) + 1980;
          sec = unat (time AND 0x1F) * 2;
          min = unat (drop_bit 5 time AND 0x3F);
          hour = unat (drop_bit 11 time AND 0x1F);
          days = fat_year_days (year - 1970) 1970 0 in
      if month = 0 \<or> month > 12 then None
      else
        (let days1 = days + days_before_month ! (month - 1);
             days2 = (if month > 2 \<and> ((year mod 4 = 0 \<and> year mod 100 \<noteq> 0) \<or> year mod 400 = 0)
                      then days1 + 1 else days1);
             days3 = days2 + (int day - 1) in
         Some (days3 * 86400 + int hour * 3600 + int min * 60 + int sec)))"

definition FAT_SET_DATE :: "timestamp \<Rightarrow> u16" where
  "FAT_SET_DATE ts =
     (push_bit 9 (of_nat (ts_year ts) - 1980) OR push_bit 5 (of_nat (ts_month ts)) OR of_nat (ts_day ts))"

definition FAT_SET_TIME :: "timestamp \<Rightarrow> u16" where
  "FAT_SET_TIME ts =
     (push_bit 11 (of_nat (ts_hour ts)) OR push_bit 5 (of_nat (ts_minute ts)) OR of_nat (ts_second ts div 2))"

section \<open>Directory entries\<close>

definition put16 :: "nat \<Rightarrow> nat \<Rightarrow> u8 list \<Rightarrow> u8 list" where
  "put16 i v e = e[i := of_nat v, i + 1 := of_nat (v div 256)]"

definition put32 :: "nat \<Rightarrow> nat \<Rightarrow> u8 list \<Rightarrow> u8 list" where
  "put32 i v e = put16 (i + 2) (v div 65536) (put16 i (v mod 65536) e)"

definition entry_of :: "u8 list \<Rightarrow> fat_file" where
  "entry_of e =
     \<lparr>fname = take 8 e, fext = take 3 (drop 8 e), attributes = e ! 11, creation_time = le16 e 14,
      creation_date = le16 e 16, last_access_date = le16 e 18, cl_high = le16 e 20, last_write_time = le16 e 22,
      last_write_date = le16 e 24, cl_low = le16 e 26, file_size = le32 e 28\<rparr>"

definition put_times :: "nat \<Rightarrow> nat \<Rightarrow> nat \<Rightarrow> nat \<Rightarrow> nat \<Rightarrow> u8 list \<Rightarrow> u8 list" where
  "put_times cdate ctime wdate wtime adate e =
     put16 18 adate (put16 22 wtime (put16 24 wdate (put16 14 ctime (put16 16 cdate e))))"

text \<open>
  A new entry over the 32 bytes \<open>e\<close>, of a file (\<open>fat32_create\<close>) or a directory
  (\<open>mk_new_dirent\<close>): the eight characters of the name, and spaces as its extension.
\<close>

definition mk_entry :: "u8 \<Rightarrow> nat \<Rightarrow> u8 list \<Rightarrow> timestamp \<Rightarrow> u8 list \<Rightarrow> u8 list" where
  "mk_entry attr new_clst nm ts e =
     (let date = unat (FAT_SET_DATE ts); time = unat (FAT_SET_TIME ts);
          e1 = put16 20 (new_clst div 65536) (put16 26 (new_clst mod 65536) (e[11 := attr]));
          e2 = put_times date time date time date (put32 28 0 e1) in
      nm @ [32, 32, 32] @ drop 11 e2)"

definition mk_new_dirent :: "u8 list \<Rightarrow> nat \<Rightarrow> u8 list \<Rightarrow> timestamp \<Rightarrow> u8 list" where
  "mk_new_dirent e new_clst nm ts = mk_entry 0x10 new_clst nm ts e"

text \<open>The entries \<open>.\<close> and \<open>..\<close> at the start of the cluster of a new directory.\<close>

definition mk_dot_dirs :: "fat_file \<Rightarrow> nat \<Rightarrow> nat \<Rightarrow> timestamp \<Rightarrow> u8 list \<Rightarrow> u8 list" where
  "mk_dot_dirs parent_dir new_clst p_clst ts buf =
     (let date = unat (FAT_SET_DATE ts); time = unat (FAT_SET_TIME ts);
          dot = (\<lambda>nm clst e. nm @ drop 11 (put16 20 (clst div 65536) (put16 26 (clst mod 65536)
                   ((put32 28 0 e)[11 := 0x10]))));
          e0 = put_times date time date time date (dot (pad 11 [46]) new_clst (take 32 buf));
          e1 = put_times (creation_date parent_dir) (creation_time parent_dir) (last_write_date parent_dir)
                 (last_write_time parent_dir) (last_access_date parent_dir)
                 (dot (pad 11 [46, 46]) p_clst (take 32 (drop 32 buf))) in
      e0 @ e1 @ drop 64 buf)"

text \<open>The eight characters that a new entry gets of a name.\<close>

fun name8 :: "nat \<Rightarrow> u8 list \<Rightarrow> u8 list" where
  "name8 (Suc n) (c # s) = (if isprint c then toupper c # name8 n s else [])"
| "name8 _ _ = []"

definition new_name :: "u8 list \<Rightarrow> u8 list" where
  "new_name s = pad 8 (name8 8 s)"

section \<open>Reading a directory\<close>

text \<open>
  \<open>__fat32_read_dir\<close>: the clusters of the chain, one after the other, in a buffer that
  \<open>krealloc\<close> extends as long as \<open>mem_ok\<close> lets it.  A chain with a cycle has no value.
\<close>

partial_function (option) read_dir_loop ::
  "(nat \<Rightarrow> bool) \<Rightarrow> fat_disk \<Rightarrow> nat \<Rightarrow> u8 list \<Rightarrow> (int \<times> u8 list) option" where
  "read_dir_loop mem_ok d clst acc =
     (if clst < EOC then
        (if \<not> mem_ok (length acc + bytes_per_clst d) then Some (- ENOMEM, [])
         else case mem_write (acc @ replicate (bytes_per_clst d) 0) (length acc) (fat_read_clst clst d) of
             None \<Rightarrow> None
           | Some buf \<Rightarrow>
               (case fat_value clst d of None \<Rightarrow> None | Some c1 \<Rightarrow> read_dir_loop mem_ok d c1 buf))
      else Some (int (length acc), acc))"

definition fat32_read_dir :: "(nat \<Rightarrow> bool) \<Rightarrow> fat_disk \<Rightarrow> int \<Rightarrow> (int \<times> u8 list) option" where
  "fat32_read_dir mem_ok d clst =
     (if clst < 0 then Some (- EINVAL, []) else read_dir_loop mem_ok d (nat clst) [])"

text \<open>The entries of a buffer.\<close>

fun entries :: "nat \<Rightarrow> u8 list \<Rightarrow> u8 list list" where
  "entries 0 buf = []"
| "entries (Suc n) buf = take 32 buf # entries n (drop 32 buf)"

abbreviation "FAT_UNUSED \<equiv> 0xE5 :: u8"
abbreviation "LONG_FNAME \<equiv> 0x0F :: u8"
abbreviation "no_lfn \<equiv> replicate 256 (0 :: u8)"

definition INVALID_ENTRY :: "u8 list \<Rightarrow> bool" where
  "INVALID_ENTRY e \<longleftrightarrow> e ! 11 AND 0x08 \<noteq> 0 \<and> e ! 11 \<noteq> LONG_FNAME"

record dirent =
  d_name :: "u8 list"
  d_ino :: nat
  d_off :: nat
  d_dir :: bool

text \<open>The loop of \<open>__fat32_read_all_dirent\<close>; \<open>i\<close> entries are made so far.\<close>

fun all_dirents :: "nat \<Rightarrow> nat \<Rightarrow> nat \<Rightarrow> u8 list \<Rightarrow> u8 list list \<Rightarrow> dirent list option" where
  "all_dirents ino pos i lfn [] = Some []"
| "all_dirents ino pos i lfn (e # es) =
     (if e ! 0 = 0 then Some []
      else if e ! 0 = FAT_UNUSED then all_dirents ino pos i no_lfn es
      else if e ! 11 = LONG_FNAME then
        (case fat_get_lfn_part e lfn of None \<Rightarrow> None | Some lfn1 \<Rightarrow> all_dirents ino pos i lfn1 es)
      else if INVALID_ENTRY e then all_dirents ino pos i no_lfn es
      else map_option (\<lambda>ds.
             \<lparr>d_name = (if lfn ! 0 \<noteq> 0 then take 127 (cstr lfn) else cstr (fat_get_sfn e)),
              d_ino = ino, d_off = pos + i, d_dir = (e ! 11 AND 0x10 \<noteq> 0)\<rparr> # ds)
             (all_dirents ino pos (i + 1) no_lfn es))"

definition fat32_read_all_dirent ::
  "(nat \<Rightarrow> bool) \<Rightarrow> fat_disk \<Rightarrow> fat_file \<Rightarrow> nat \<Rightarrow> nat \<Rightarrow> (int \<times> dirent list) option" where
  "fat32_read_all_dirent mem_ok d dir ino pos =
     (case fat_get_clst_num dir pos d of
        None \<Rightarrow> None
      | Some clst \<Rightarrow>
          (case fat32_read_dir mem_ok d clst of
             None \<Rightarrow> None
           | Some (count, buf) \<Rightarrow>
               if count \<le> 0 then Some (count, [])
               else map_option (\<lambda>ds. (int (length ds), ds))
                      (all_dirents ino pos 0 no_lfn (entries (nat count div 32) buf))))"

definition fat32_readdir :: "dirent list \<Rightarrow> nat \<Rightarrow> nat \<Rightarrow> int \<times> dirent list" where
  "fat32_readdir dents pos count = (let ds = take count (drop pos dents) in (int (length ds), ds))"

text \<open>The walk of \<open>fat32_find\<close>: the entry with the long or the short name.\<close>

fun find_entry :: "u8 list \<Rightarrow> u8 list \<Rightarrow> u8 list list \<Rightarrow> u8 list option option" where
  "find_entry nm lfn [] = Some None"
| "find_entry nm lfn (e # es) =
     (if e ! 0 = 0 then Some None
      else if e ! 11 = LONG_FNAME then
        (case fat_get_lfn_part e lfn of None \<Rightarrow> None | Some lfn1 \<Rightarrow> find_entry nm lfn1 es)
      else if e ! 0 \<noteq> FAT_UNUSED then
        (if lfn ! 0 \<noteq> 0 \<and> fat_strcasecmp (cstr lfn) nm = 0 then Some (Some e)
         else if fat_strcasecmp (cstr (fat_get_sfn e)) nm = 0 then Some (Some e)
         else find_entry nm no_lfn es)
      else find_entry nm no_lfn es)"

text \<open>0 and the entry if it is found, 1 if not.\<close>

definition fat32_find ::
  "(nat \<Rightarrow> bool) \<Rightarrow> fat_disk \<Rightarrow> fat_file \<Rightarrow> u8 list \<Rightarrow> (int \<times> fat_file option) option" where
  "fat32_find mem_ok d dir nm =
     (case fat32_read_dir mem_ok d (s32 (int (fat_clst_value dir))) of
        None \<Rightarrow> None
      | Some (bytes, buf) \<Rightarrow>
          if bytes \<le> 0 then Some (bytes, None)
          else (case find_entry nm no_lfn (entries (nat bytes div 32) buf) of
                  None \<Rightarrow> None
                | Some None \<Rightarrow> Some (1, None)
                | Some (Some e) \<Rightarrow> Some (0, Some (entry_of e))))"

section \<open>Inodes\<close>

record fat_inode =
  i_ino :: nat
  i_size :: nat
  i_atime :: int
  i_mtime :: int
  i_ctime :: int
  i_isdir :: bool
  i_entry :: fat_file
  i_count :: nat

text \<open>The mounted volume: the disk, its inodes, and the last number of \<open>unique_ino\<close>.\<close>

record fat_sb =
  disk :: fat_disk
  s_inodes :: "fat_inode list"
  last_ino :: nat

definition fat_iget :: "fat_sb \<Rightarrow> nat \<Rightarrow> fat_inode option" where
  "fat_iget sb pos = List.find (\<lambda>i. u32_add (cl_low (i_entry i)) ((cl_high (i_entry i) * 65536) mod 2 ^ 32) = pos) (s_inodes sb)"

definition fat_build_inode :: "fat_sb \<Rightarrow> fat_file \<Rightarrow> (fat_inode \<times> fat_sb) option" where
  "fat_build_inode sb e =
     (case fat_iget sb (fat_clst_value e) of
        Some i \<Rightarrow> Some (i, sb)
      | None \<Rightarrow>
          (case (fat_time_to_unix (of_nat (last_access_date e)) 0,
                 fat_time_to_unix (of_nat (last_write_date e)) (of_nat (last_write_time e)),
                 fat_time_to_unix (of_nat (creation_date e)) (of_nat (creation_time e))) of
             (Some a, Some m, Some c) \<Rightarrow>
               (let i = \<lparr>i_ino = last_ino sb + 1, i_size = file_size e, i_atime = a, i_mtime = m, i_ctime = c,
                         i_isdir = (attributes e AND 0x10 \<noteq> 0), i_entry = e, i_count = 1\<rparr> in
                Some (i, sb\<lparr>s_inodes := s_inodes sb @ [i], last_ino := last_ino sb + 1\<rparr>))
           | _ \<Rightarrow> None))"

text \<open>The error code, and the inode the name has, if any, with one more reference.\<close>

definition fat32_lookup :: "(nat \<Rightarrow> bool) \<Rightarrow> fat_sb \<Rightarrow> fat_file \<Rightarrow> u8 list \<Rightarrow> (int \<times> fat_inode option \<times> fat_sb) option" where
  "fat32_lookup mem_ok sb dir nm =
     (case fat32_find mem_ok (disk sb) dir nm of
        None \<Rightarrow> None
      | Some (err, e) \<Rightarrow>
          (if err = 0
           then map_option (\<lambda>(i, sb1). (0, Some (i\<lparr>i_count := i_count i + 1\<rparr>),
                  sb1\<lparr>s_inodes := map (\<lambda>j. if i_ino j = i_ino i then i\<lparr>i_count := i_count i + 1\<rparr> else j) (s_inodes sb1)\<rparr>))
                  (fat_build_inode sb (the e))
           else if err > 0 then Some (0, None, sb) else Some (err, None, sb)))"

section \<open>Creating files and directories\<close>

text \<open>
  The search of a cluster for a free slot: the index of the first entry that is unused, unless an
  entry before it has the name already (\<open>Inl\<close>).
\<close>

fun free_slot :: "u8 list \<Rightarrow> nat \<Rightarrow> u8 list list \<Rightarrow> (unit + nat option)" where
  "free_slot nm k [] = Inr None"
| "free_slot nm k (e # es) =
     (if e ! 0 = 0 \<or> e ! 0 = FAT_UNUSED then Inr (Some k)
      else if strncmp 8 e nm = 0 then Inl () else free_slot nm (k + 1) es)"

definition put_entry :: "nat \<Rightarrow> u8 list \<Rightarrow> u8 list \<Rightarrow> u8 list" where
  "put_entry k e buf = take (32 * k) buf @ e @ drop (32 * k + 32) buf"

text \<open>
  \<open>fat32_create\<close>.  After a cluster without a free slot it looks at the entry behind the buffer,
  a fault; so only the first cluster of the directory can get the entry.
\<close>

definition fat32_create ::
  "timestamp \<Rightarrow> fat_sb \<Rightarrow> fat_file \<Rightarrow> u8 list \<Rightarrow> (int \<times> fat_inode option \<times> fat_sb) option" where
  "fat32_create ts sb dir nm =
     (let clst = u32_add (cl_low dir) ((cl_high dir * 65536) mod 2 ^ 32);
          name = new_name nm; d = disk sb; buf = fat_read_clst clst d in
      if clst \<ge> EOC then None
      else case free_slot name 0 (entries (bytes_per_clst d div 32) buf) of
          Inl _ \<Rightarrow> Some (- 1, None, sb)
        | Inr None \<Rightarrow> None
        | Inr (Some k) \<Rightarrow>
            (case fat_find_free_clst d of
               None \<Rightarrow> None
             | Some r \<Rightarrow>
                 if r = - 1 \<or> nat r - first_clst d \<ge> length (FAT_buf d) then None
                 else
                   (let new_clst = nat r; slot = new_clst - first_clst d;
                        d1 = d\<lparr>FAT_buf := (FAT_buf d)[slot := FAT_buf d ! slot OR 0x0fffffff]\<rparr>;
                        e = mk_entry 0 new_clst name ts (take 32 (drop (32 * k) buf)) in
                    case fat_write_clst clst (put_entry k e buf) 0 d1 of
                      None \<Rightarrow> None
                    | Some d2 \<Rightarrow>
                        (case fat_build_inode (sb\<lparr>disk := d2\<rparr>) (entry_of e) of
                           None \<Rightarrow> None
                         | Some (i, sb1) \<Rightarrow>
                             (let d3 = d2\<lparr>fs_info := (fs_info d2)\<lparr>free_clst_cnt :=
                                            u32_sub (free_clst_cnt (fs_info d2)) 1\<rparr>\<rparr> in
                              case fat_find_free_clst d3 of
                                None \<Rightarrow> None
                              | Some nf \<Rightarrow>
                                  (case fat_write_clst new_clst (replicate (bytes_per_clst d) 0) 0
                                          (d3\<lparr>fs_info := (fs_info d3)\<lparr>next_free_clst := nat (nf mod 2 ^ 32)\<rparr>\<rparr>) of
                                     None \<Rightarrow> None
                                   | Some d4 \<Rightarrow>
                                       map_option (\<lambda>d5. (0, Some i, sb1\<lparr>disk := d5\<rparr>)) (fat_write_FAT d4)))))))"

text \<open>
  \<open>fat32_mkdir\<close>: the clusters are searched up to the end of the chain (\<open>mkdir_scan\<close>, in at
  most \<open>n\<close> rounds), where a new cluster is added.  The result of the scan is \<open>Inl\<close> if the name
  is taken, else the cluster to use, the last cluster before it, the buffer and the slot.
\<close>

fun mkdir_scan ::
  "nat \<Rightarrow> u8 list \<Rightarrow> nat \<Rightarrow> nat \<Rightarrow> u8 list \<Rightarrow> fat_disk \<Rightarrow> (unit + nat \<times> nat \<times> u8 list \<times> nat option) option" where
  "mkdir_scan 0 name clst prev buf d = None"
| "mkdir_scan (Suc n) name clst prev buf d =
     (if clst < EOC then
        (let buf1 = fat_read_clst clst d in
         case free_slot name 0 (entries (bytes_per_clst d div 32) buf1) of
           Inl _ \<Rightarrow> Some (Inl ())
         | Inr (Some k) \<Rightarrow> Some (Inr (clst, prev, buf1, Some k))
         | Inr None \<Rightarrow>
             (case fat_value clst d of None \<Rightarrow> None | Some c1 \<Rightarrow> mkdir_scan n name c1 clst buf1 d))
      else Some (Inr (clst, prev, buf, None)))"

definition mkdir_extend ::
  "nat \<times> nat \<times> u8 list \<times> nat option \<Rightarrow> fat_disk \<Rightarrow> (nat \<times> u8 list \<times> nat \<times> fat_disk) option" where
  "mkdir_extend found d =
     (case found of
        (clst, prev, buf, Some k) \<Rightarrow> Some (clst, buf, k, d)
      | (clst, prev, buf, None) \<Rightarrow>
          (case fat_find_free_clst d of
             None \<Rightarrow> None
           | Some r \<Rightarrow>
               if r < 0 then None
               else map_option (\<lambda>(c, d1). (nat r, replicate (bytes_per_clst d) 0, 0, d1))
                      (fat_add_new_clst prev (nat r) d)))"

definition fat32_mkdir ::
  "timestamp \<Rightarrow> fat_sb \<Rightarrow> fat_file \<Rightarrow> u8 list \<Rightarrow> (int \<times> fat_inode option \<times> fat_sb) option" where
  "fat32_mkdir ts sb dir nm =
     (let clst0 = u32_add (cl_low dir) ((cl_high dir * 65536) mod 2 ^ 32); name = new_name nm; d = disk sb in
      case mkdir_scan (length (FAT_buf d) + 1) name clst0 clst0 [] d of
        None \<Rightarrow> None
      | Some (Inl _) \<Rightarrow> Some (- 1, None, sb)
      | Some (Inr found) \<Rightarrow>
          (case mkdir_extend found d of
             None \<Rightarrow> None
           | Some (clst, buf, k, d1) \<Rightarrow>
               (case fat_find_alloc_clst 0 d1 of
                  None \<Rightarrow> None
                | Some (r, d2) \<Rightarrow>
                    if r < 0 then Some (- 28, None, sb\<lparr>disk := d2\<rparr>)
                    else
                      (let new_clst = nat r; e = mk_new_dirent (take 32 (drop (32 * k) buf)) new_clst name ts in
                       case fat_write_clst clst (put_entry k e buf) 0 d2 of
                         None \<Rightarrow> None
                       | Some d3 \<Rightarrow>
                           (case fat_build_inode (sb\<lparr>disk := d3\<rparr>) (entry_of e) of
                              None \<Rightarrow> None
                            | Some (i, sb1) \<Rightarrow>
                                (case fat_write_clst new_clst
                                        (mk_dot_dirs dir new_clst clst ts (replicate (bytes_per_clst d) 0)) 0 d3 of
                                   None \<Rightarrow> None
                                 | Some d4 \<Rightarrow>
                                     map_option (\<lambda>d5. (0, Some i, sb1\<lparr>disk := d5\<rparr>)) (fat_write_FAT d4)))))))"

section \<open>Properties of names\<close>

lemma toupper_eq_iff:
  "toupper c = 32 \<longleftrightarrow> c = 32" "toupper c = 46 \<longleftrightarrow> c = 46" "toupper c = 0 \<longleftrightarrow> c = 0" "toupper (toupper c) = toupper c"
proof -
  have t: "sint (toupper x) = (if 97 \<le> sint x \<and> sint x \<le> 122 then sint x - 32 else sint x)" for x
    by (simp add: toupper_def sint_word_diff signed_take_bit_int_eq_self)
  have e: "toupper c = w \<longleftrightarrow> c = w" if "sint w \<in> {32, 46, 0}" for w
  proof -
    obtain x where x: "sint w = x" by blast
    have "sint (toupper c) = sint w \<longleftrightarrow> sint c = sint w" unfolding x t using that x by auto
    then show ?thesis by (simp only: sint_eq)
  qed
  show "toupper c = 32 \<longleftrightarrow> c = 32" "toupper c = 46 \<longleftrightarrow> c = 46" "toupper c = 0 \<longleftrightarrow> c = 0"
    by (rule e, simp)+
  obtain x where x: "sint c = x" by blast
  have "sint (toupper (toupper c)) = sint (toupper c)" unfolding t x by auto
  then show "toupper (toupper c) = toupper c" by (simp only: sint_eq)
qed

lemma strcasecmp_eq_0:
  "\<forall>c \<in> set s \<union> set t. c \<noteq> 0 \<Longrightarrow> fat_strcasecmp s t = 0 \<longleftrightarrow> map toupper s = map toupper t"
  by (induction s t rule: fat_strcasecmp.induct) (auto simp: Let_def sint_eq_0 sint_eq)

lemma takeWhile_pad:
  "\<forall>c \<in> set s. c \<noteq> 32 \<Longrightarrow> takeWhile (\<lambda>c. c \<noteq> 32) (pad n s) = s"
  by (simp add: pad_def takeWhile_append2 takeWhile_replicate)

lemma length_pad [simp]: "length s \<le> n \<Longrightarrow> length (pad n s) = n"
  by (simp add: pad_def)

text \<open>
  Short names survive: the eleven characters of an 8.3 name, read back from a directory entry,
  are the name in capitals, which compares equal to the name.
\<close>

theorem short_name_roundtrip:
  assumes "length base \<le> 8" and "\<forall>c \<in> set base. c \<noteq> 32 \<and> c \<noteq> 46 \<and> c \<noteq> 0"
    and "length ext \<le> 3" and "\<forall>c \<in> set ext. c \<noteq> 32 \<and> c \<noteq> 0"
  defines "s \<equiv> base @ (if ext = [] then [] else 46 # ext)"
  shows "fat_get_sfn (get_fat_name s @ rest) = str_toupper s \<and> fat_strcasecmp (fat_get_sfn (get_fat_name s @ rest)) s = 0"
proof -
  have b: "takeWhile (\<lambda>c. c \<noteq> 46) s = base" "dropWhile (\<lambda>c. c \<noteq> 46) s = (if ext = [] then [] else 46 # ext)"
    using assms(2) unfolding s_def by (auto simp: takeWhile_append2 dropWhile_append2)
  have g: "get_fat_name s = pad 8 (map toupper base) @ pad 3 (map toupper ext)"
    using assms(1,3) by (simp add: get_fat_name_def b)
  have "takeWhile (\<lambda>c. c \<noteq> 32) (pad 8 (map toupper base)) = map toupper base"
    by (rule takeWhile_pad) (use assms(2) in \<open>simp add: toupper_eq_iff\<close>)
  moreover have "takeWhile (\<lambda>c. c \<noteq> 32) (pad 3 (map toupper ext)) = map toupper ext"
    by (rule takeWhile_pad) (use assms(4) in \<open>simp add: toupper_eq_iff\<close>)
  moreover have "pad 3 (map toupper ext) ! 0 \<noteq> 32 \<longleftrightarrow> ext \<noteq> []"
    using assms(4) by (cases ext) (auto simp: pad_def toupper_eq_iff)
  ultimately have "fat_get_sfn (get_fat_name s @ rest)
      = map toupper base @ (if ext \<noteq> [] then 46 # map toupper ext else [])"
    unfolding fat_get_sfn_def g using assms(1,3) by (simp add: Let_def)
  moreover have "toupper 46 = 46" by (simp add: toupper_eq_iff)
  ultimately have r: "fat_get_sfn (get_fat_name s @ rest) = str_toupper s"
    by (simp add: str_toupper_def s_def)
  moreover have "fat_strcasecmp (str_toupper s) s = 0"
    using assms(2,4) by (subst strcasecmp_eq_0) (auto simp: str_toupper_def toupper_eq_iff s_def split: if_splits)
  ultimately show ?thesis by simp
qed

theorem short_name_roundtrip_witness:
  "fat_get_sfn (get_fat_name [97, 46, 116] @ [32, 0]) = [65, 46, 84]"
  using short_name_roundtrip [of "[97]" "[116]" "[32, 0]"] by (simp add: str_toupper_def toupper_def)

lemma name8_eq: "\<forall>c \<in> set s. isprint c \<Longrightarrow> name8 n s = map toupper (take n s)"
  by (induction n s rule: name8.induct) auto

text \<open>
  A file or directory is created under the first eight characters of its name, dots among them:
  a lookup of the name finds the entry only if the name is no longer than that.
\<close>

theorem created_name_found_iff_short:
  assumes "\<forall>c \<in> set s. isprint c \<and> c \<noteq> 32" and "length e = 32"
  shows "fat_strcasecmp (fat_get_sfn (mk_entry attr clst (new_name s) ts e)) s = 0 \<longleftrightarrow> length s \<le> 8"
proof -
  have n: "new_name s = pad 8 (map toupper (take 8 s))"
    using assms(1) by (simp add: new_name_def name8_eq)
  then have "length (new_name s) = 8" by simp
  moreover have "takeWhile (\<lambda>c. c \<noteq> 32) (new_name s) = map toupper (take 8 s)"
    unfolding n using assms(1) by (intro takeWhile_pad) (auto simp: toupper_eq_iff dest: in_set_takeD)
  ultimately have "fat_get_sfn (mk_entry attr clst (new_name s) ts e) = map toupper (take 8 s)"
    by (simp add: fat_get_sfn_def mk_entry_def Let_def)
  moreover have nz: "\<forall>c \<in> set s. c \<noteq> 0" using assms(1) by (auto simp: isprint_def)
  then have "fat_strcasecmp (map toupper (take 8 s)) s = 0 \<longleftrightarrow> map toupper (map toupper (take 8 s)) = map toupper s"
    by (intro strcasecmp_eq_0) (auto simp: toupper_eq_iff dest: in_set_takeD)
  moreover have "\<dots> \<longleftrightarrow> take 8 (map toupper s) = map toupper s"
    by (simp add: toupper_eq_iff take_map comp_def)
  moreover have "\<dots> \<longleftrightarrow> length s \<le> 8" using take_all_iff [of 8 "map toupper s"] by (metis length_map length_take min.absorb_iff2)
  ultimately show ?thesis by simp
qed

theorem created_name_found_iff_short_witness:
  "fat_strcasecmp (fat_get_sfn (mk_entry 0 5 (new_name [114, 101, 97, 100, 109, 101, 46, 116, 120, 116]) 
       \<lparr>ts_year = 2024, ts_month = 1, ts_day = 2, ts_hour = 3, ts_minute = 4, ts_second = 5\<rparr> (replicate 32 0)))
     [114, 101, 97, 100, 109, 101, 46, 116, 120, 116] \<noteq> 0"
  using created_name_found_iff_short [of "[114, 101, 97, 100, 109, 101, 46, 116, 120, 116]" "replicate 32 0"]
  by (simp add: isprint_def)

section \<open>Properties of times\<close>

lemma fat_year_days_eq: "fat_year_days n y k = k + int (\<Sum>i \<in> {y..<y + n}. year_days i)"
proof (induction n arbitrary: y k)
  case (Suc n)
  have "{y..<y + Suc n} = insert y {y + 1..<y + 1 + n}" by auto
  with Suc show ?case by (simp add: year_days_def is_leap_year_def)
qed simp

text \<open>
  Directory times agree with the calendar: the Unix time of a date and time is the days of the
  years before it, of the months before it in its year, and of the days before it, in seconds, plus
  the time of the day; a month that is none, as an unset date has, is read from outside the table.
\<close>

theorem fat_time_is_calendar_time:
  "fat_time_to_unix date time =
     (let month = unat (drop_bit 5 date AND 0x0F); year = unat (drop_bit 9 date AND 0x7F) + 1980 in
      if month \<in> {1..12}
      then Some ((int (days_before year + sum_list (take (month - 1) (month_lengths (is_leap_year year))))
                   + int (unat (date AND 0x1F)) - 1) * 86400
                 + int (unat (drop_bit 11 time AND 0x1F)) * 3600 + int (unat (drop_bit 5 time AND 0x3F)) * 60
                 + int (unat (time AND 0x1F)) * 2)
      else None)"
proof -
  have m: "days_before_month ! (month - 1) + (if month > 2 \<and> l then 1 else 0)
      = int (sum_list (take (month - 1) (month_lengths l)))" if "month \<in> {1..12}" for month l
  proof -
    have "\<forall>n < 12. days_before_month ! n + (if n > 1 \<and> l then 1 else 0) = int (sum_list (take n (month_lengths l)))"
      by (simp add: days_before_month_def month_lengths_def All_less_Suc numeral_eq_Suc)
    moreover have "month - 1 < 12" "month > 2 \<longleftrightarrow> month - 1 > 1" using that by auto
    ultimately show ?thesis by simp
  qed
  define mo yr where "mo = unat (drop_bit 5 date AND 0x0F)" and "yr = unat (drop_bit 9 date AND 0x7F) + 1980"
  have y: "fat_year_days (yr - 1970) 1970 0 = int (days_before yr)"
    by (simp add: fat_year_days_eq days_before_def yr_def add.commute)
  have "days_before_month ! (mo - 1) = int (sum_list (take (mo - 1) (month_lengths (is_leap_year yr))))
      - (if mo > 2 \<and> is_leap_year yr then 1 else 0)" if "mo \<in> {1..12}"
    using m [OF that, of "is_leap_year yr"] by simp
  then show ?thesis
    unfolding fat_time_to_unix_def Let_def is_leap_year_def [symmetric] mo_def [symmetric] yr_def [symmetric] y
    by (auto simp: algebra_simps)
qed

end
