(* ===== verification/CString.thy ===== *)
theory CString imports LilacBase begin

text \<open>
  The kernel's memory and string functions: \<open>lib/string\<close> and \<open>lib/ctype\<close>.

  They work on one stretch of memory, the list of its bytes; a pointer is an index into it, and
  \<open>None\<close> an access outside it.  Source and destination may overlap.
\<close>

section \<open>Memory\<close>

type_synonym mem = "u8 list"

definition peek :: "mem \<Rightarrow> nat \<Rightarrow> u8 option" where
  "peek m p = (if p < length m then Some (m ! p) else None)"

definition poke :: "nat \<Rightarrow> u8 \<Rightarrow> mem \<Rightarrow> mem option" where
  "poke p v m = (if p < length m then Some (m[p := v]) else None)"

fun memset :: "nat \<Rightarrow> int \<Rightarrow> nat \<Rightarrow> mem \<Rightarrow> mem option" where
  "memset p v 0 m = Some m"
| "memset p v (Suc n) m = (case poke p (of_int v) m of None \<Rightarrow> None | Some m1 \<Rightarrow> memset (p + 1) v n m1)"

fun memcpy :: "nat \<Rightarrow> nat \<Rightarrow> nat \<Rightarrow> mem \<Rightarrow> mem option" where
  "memcpy d s 0 m = Some m"
| "memcpy d s (Suc n) m =
     (case peek m s of
        None \<Rightarrow> None
      | Some c \<Rightarrow> (case poke d c m of None \<Rightarrow> None | Some m1 \<Rightarrow> memcpy (d + 1) (s + 1) n m1))"

fun copy_down :: "nat \<Rightarrow> nat \<Rightarrow> nat \<Rightarrow> mem \<Rightarrow> mem option" where
  "copy_down d s 0 m = Some m"
| "copy_down d s (Suc n) m =
     (case peek m (s + n) of
        None \<Rightarrow> None
      | Some c \<Rightarrow> (case poke (d + n) c m of None \<Rightarrow> None | Some m1 \<Rightarrow> copy_down d s n m1))"

definition memmove :: "nat \<Rightarrow> nat \<Rightarrow> nat \<Rightarrow> mem \<Rightarrow> mem option" where
  "memmove d s n m = (if d < s then memcpy d s n m else copy_down d s n m)"

fun memcmp :: "mem \<Rightarrow> nat \<Rightarrow> nat \<Rightarrow> nat \<Rightarrow> int option" where
  "memcmp m a b 0 = Some 0"
| "memcmp m a b (Suc n) =
     (case (peek m a, peek m b) of
        (Some x, Some y) \<Rightarrow> if x < y then Some (-1) else if y < x then Some 1 else memcmp m (a + 1) (b + 1) n
      | _ \<Rightarrow> None)"

section \<open>Strings\<close>

text \<open>The place of the terminating 0.\<close>

function str_end :: "mem \<Rightarrow> nat \<Rightarrow> nat option" where
  "str_end m p = (if p < length m then (if m ! p = 0 then Some p else str_end m (p + 1)) else None)"
  by pat_completeness auto
termination by (relation "measure (\<lambda>(m, p). length m - p)") auto

definition strlen :: "mem \<Rightarrow> nat \<Rightarrow> nat option" where
  "strlen m p = map_option (\<lambda>q. q - p) (str_end m p)"

text \<open>The byte is read before the bound is tested.\<close>

fun strnlen :: "mem \<Rightarrow> nat \<Rightarrow> nat \<Rightarrow> nat option" where
  "strnlen m p lim =
     (case peek m p of
        None \<Rightarrow> None
      | Some c \<Rightarrow> if c = 0 then Some 0 else (case lim of 0 \<Rightarrow> Some 0 | Suc k \<Rightarrow> map_option Suc (strnlen m (p + 1) k)))"

function strcpy :: "nat \<Rightarrow> nat \<Rightarrow> mem \<Rightarrow> mem option" where
  "strcpy d s m =
     (if s < length m \<and> d < length m
      then (if m ! s = 0 then Some (m[d := 0]) else strcpy (d + 1) (s + 1) (m[d := m ! s]))
      else None)"
  by pat_completeness auto
termination by (relation "measure (\<lambda>(d, s, m). length m - s)") auto

text \<open>The copying loop of \<open>strncpy\<close> and \<open>strncat\<close>: where the destination pointer ends, and the memory.\<close>

fun strn_loop :: "nat \<Rightarrow> nat \<Rightarrow> nat \<Rightarrow> mem \<Rightarrow> (nat \<times> mem) option" where
  "strn_loop 0 d s m = Some (d, m)"
| "strn_loop (Suc n) d s m =
     (case peek m s of
        None \<Rightarrow> None
      | Some c \<Rightarrow>
          (case poke d c m of
             None \<Rightarrow> None
           | Some m1 \<Rightarrow> if c = 0 then Some (d + 1, m1) else strn_loop n (d + 1) (s + 1) m1))"

definition strncpy :: "nat \<Rightarrow> nat \<Rightarrow> nat \<Rightarrow> mem \<Rightarrow> mem option" where
  "strncpy d s n m = map_option snd (strn_loop n d s m)"

definition strcat :: "nat \<Rightarrow> nat \<Rightarrow> mem \<Rightarrow> mem option" where
  "strcat d s m = (case str_end m d of None \<Rightarrow> None | Some e \<Rightarrow> strcpy e s m)"

definition strncat :: "nat \<Rightarrow> nat \<Rightarrow> nat \<Rightarrow> mem \<Rightarrow> mem option" where
  "strncat d s n m =
     (case str_end m d of
        None \<Rightarrow> None
      | Some e \<Rightarrow> (case strn_loop n e s m of None \<Rightarrow> None | Some (d1, m1) \<Rightarrow> poke d1 0 m1))"

function strcmp :: "mem \<Rightarrow> nat \<Rightarrow> nat \<Rightarrow> int option" where
  "strcmp m a b =
     (if a < length m \<and> b < length m
      then (if m ! a = m ! b then (if m ! a = 0 then Some 0 else strcmp m (a + 1) (b + 1))
            else Some (sint (m ! a) - sint (m ! b)))
      else None)"
  by pat_completeness auto
termination by (relation "measure (\<lambda>(m, a, b). length m - a)") auto

text \<open>The pointer found, or the null pointer (\<open>Some None\<close>).\<close>

function strchr :: "mem \<Rightarrow> nat \<Rightarrow> int \<Rightarrow> nat option option" where
  "strchr m p c =
     (if p < length m
      then (if m ! p = 0 then Some None else if sint (m ! p) = c then Some (Some p) else strchr m (p + 1) c)
      else None)"
  by pat_completeness auto
termination by (relation "measure (\<lambda>(m, p, c). length m - p)") auto

function strrchr_loop :: "mem \<Rightarrow> nat \<Rightarrow> int \<Rightarrow> nat option \<Rightarrow> nat option option" where
  "strrchr_loop m p c found =
     (if p < length m
      then (if m ! p = 0 then Some found else strrchr_loop m (p + 1) c (if sint (m ! p) = c then Some p else found))
      else None)"
  by pat_completeness auto
termination by (relation "measure (\<lambda>(m, p, c, found). length m - p)") auto

definition strrchr :: "mem \<Rightarrow> nat \<Rightarrow> int \<Rightarrow> nat option option" where
  "strrchr m p c = strrchr_loop m p c None"

text \<open>The copies of \<open>strdup\<close> and \<open>strndup\<close> go to the block \<open>new\<close> that \<open>kmalloc\<close> gave them.\<close>

definition strdup :: "nat \<Rightarrow> nat \<Rightarrow> mem \<Rightarrow> mem option" where
  "strdup new s m = (case strlen m s of None \<Rightarrow> None | Some n \<Rightarrow> strncpy new s (n + 1) m)"

definition strndup :: "nat \<Rightarrow> nat \<Rightarrow> nat \<Rightarrow> mem \<Rightarrow> mem option" where
  "strndup new s n m =
     (case strnlen m s n of
        None \<Rightarrow> None
      | Some k \<Rightarrow> (case strncpy new s k m of None \<Rightarrow> None | Some m1 \<Rightarrow> poke (new + k) 0 m1))"

section \<open>Characters and numbers\<close>

definition tolower :: "int \<Rightarrow> int" where
  "tolower ch = (if 65 \<le> ch \<and> ch \<le> 90 then ch + 32 else ch)"

definition isspace :: "int \<Rightarrow> bool" where
  "isspace ch \<longleftrightarrow> ch = 32 \<or> ch = 9 \<or> ch = 10 \<or> ch = 11 \<or> ch = 12 \<or> ch = 13"

definition isdigit :: "int \<Rightarrow> bool" where
  "isdigit ch \<longleftrightarrow> 48 \<le> ch \<and> ch \<le> 57"

definition isxdigit :: "int \<Rightarrow> bool" where
  "isxdigit x \<longleftrightarrow> (48 \<le> x \<and> x \<le> 57) \<or> (97 \<le> x \<and> x \<le> 102) \<or> (65 \<le> x \<and> x \<le> 70)"

text \<open>\<open>atoi\<close> on the bytes of a string; an overflow of its \<open>int\<close> is \<open>None\<close>.\<close>

fun atoi_digits :: "int \<Rightarrow> u8 list \<Rightarrow> int option" where
  "atoi_digits r [] = Some r"
| "atoi_digits r (c # cs) =
     (if isdigit (sint c)
      then (let r1 = r * 10 + (sint c - 48) in if r1 < 2 ^ 31 then atoi_digits r1 cs else None)
      else Some r)"

definition atoi :: "u8 list \<Rightarrow> int option" where
  "atoi s =
     (let s1 = dropWhile (\<lambda>c. isspace (sint c)) s in
      case s1 of
        [] \<Rightarrow> Some 0
      | c # cs \<Rightarrow> if c = 45 then map_option uminus (atoi_digits 0 cs)
                  else if c = 43 then atoi_digits 0 cs else atoi_digits 0 s1)"


section \<open>Copies\<close>

declare str_end.simps [simp del] strcpy.simps [simp del] strcmp.simps [simp del] strchr.simps [simp del]
  strrchr_loop.simps [simp del]

text \<open>Memory after the bytes \<open>bs\<close> have been written at \<open>d\<close>.\<close>

definition overwrite :: "nat \<Rightarrow> u8 list \<Rightarrow> mem \<Rightarrow> mem" where
  "overwrite d bs m = take d m @ bs @ drop (d + length bs) m"

definition slice :: "nat \<Rightarrow> nat \<Rightarrow> mem \<Rightarrow> u8 list" where
  "slice s n m = take n (drop s m)"

lemma overwrite_Nil [simp]: "overwrite d [] m = m"
  by (simp add: overwrite_def)

lemma length_overwrite [simp]: "d + length bs \<le> length m \<Longrightarrow> length (overwrite d bs m) = length m"
  by (simp add: overwrite_def)

lemma length_slice [simp]: "s + n \<le> length m \<Longrightarrow> length (slice s n m) = n"
  by (simp add: slice_def)

lemma nth_overwrite:
  "d + length bs \<le> length m \<Longrightarrow> i < length m \<Longrightarrow>
   overwrite d bs m ! i = (if d \<le> i \<and> i < d + length bs then bs ! (i - d) else m ! i)"
  by (auto simp: overwrite_def nth_append)

lemma overwrite_Cons:
  "d + length (b # bs) \<le> length m \<Longrightarrow> overwrite d (b # bs) m = overwrite (d + 1) bs (m[d := b])"
  by (simp add: overwrite_def upd_conv_take_nth_drop take_Suc_conv_app_nth nth_append add.commute)

lemma overwrite_snoc:
  "d + length bs < length m \<Longrightarrow> overwrite d (bs @ [b]) m = overwrite d bs (m[d + length bs := b])"
  by (rule nth_equalityI) (auto simp: nth_overwrite nth_append nth_list_update)

lemma slice_Suc: "s < length m \<Longrightarrow> slice s (Suc n) m = m ! s # slice (s + 1) n m"
  by (simp add: slice_def Cons_nth_drop_Suc [symmetric])

lemma slice_snoc: "s + n < length m \<Longrightarrow> slice s (Suc n) m = slice s n m @ [m ! (s + n)]"
  by (simp add: slice_def take_Suc_conv_app_nth)

lemma slice_upd: "i < s \<or> s + n \<le> i \<Longrightarrow> slice s n (m[i := v]) = slice s n m"
  by (auto simp: slice_def drop_update_swap take_update_cancel drop_update_cancel not_le split: nat_diff_split)

lemma memcpy_forward:
  "d \<le> s \<or> s + n \<le> d \<Longrightarrow> s + n \<le> length m \<Longrightarrow> d + n \<le> length m \<Longrightarrow>
   memcpy d s n m = Some (overwrite d (slice s n m) m)"
proof (induction n arbitrary: d s m)
  case (Suc n)
  have "memcpy (d + 1) (s + 1) n (m[d := m ! s])
      = Some (overwrite (d + 1) (slice (s + 1) n (m[d := m ! s])) (m[d := m ! s]))"
    using Suc.prems by (intro Suc.IH) auto
  moreover have "slice (s + 1) n (m[d := m ! s]) = slice (s + 1) n m" using Suc.prems by (intro slice_upd) auto
  ultimately show ?case using Suc.prems by (simp add: peek_def poke_def slice_Suc overwrite_Cons)
qed (simp add: slice_def)

lemma copy_down_backward:
  "s \<le> d \<Longrightarrow> d + n \<le> length m \<Longrightarrow> copy_down d s n m = Some (overwrite d (slice s n m) m)"
proof (induction n arbitrary: m)
  case (Suc n)
  have "copy_down d s n (m[d + n := m ! (s + n)])
      = Some (overwrite d (slice s n (m[d + n := m ! (s + n)])) (m[d + n := m ! (s + n)]))"
    using Suc.prems by (intro Suc.IH) auto
  moreover have "slice s n (m[d + n := m ! (s + n)]) = slice s n m" using Suc.prems by (intro slice_upd) simp
  ultimately show ?case using Suc.prems overwrite_snoc [of d "slice s n m" m "m ! (s + n)"]
    by (simp add: peek_def poke_def slice_snoc)
qed (simp add: slice_def)

lemma memmove_copies:
  assumes "s + n \<le> length m" and "d + n \<le> length m"
  shows "memmove d s n m = Some (overwrite d (slice s n m) m)"
  using assms memcpy_forward [of d s n m] copy_down_backward [of s d n m] by (simp add: memmove_def)

lemma memset_fills: "p + n \<le> length m \<Longrightarrow> memset p v n m = Some (overwrite p (replicate n (of_int v)) m)"
  by (induction n arbitrary: p m) (simp_all add: poke_def overwrite_Cons)

section \<open>Strings in memory\<close>

definition str_at :: "mem \<Rightarrow> nat \<Rightarrow> u8 list \<Rightarrow> bool" where
  "str_at m p s \<longleftrightarrow> p + length s < length m \<and> slice p (length s) m = s \<and> m ! (p + length s) = 0 \<and> 0 \<notin> set s"

lemma str_at_Nil: "str_at m p [] \<longleftrightarrow> p < length m \<and> m ! p = 0"
  by (simp add: str_at_def slice_def)

lemma str_at_Cons: "str_at m p (c # s) \<longleftrightarrow> p < length m \<and> m ! p = c \<and> c \<noteq> 0 \<and> str_at m (p + 1) s"
  by (cases "p < length m") (auto simp: str_at_def slice_Suc)

lemma str_end_at: "str_at m p s \<Longrightarrow> str_end m p = Some (p + length s)"
proof (induction s arbitrary: p)
  case Nil
  then show ?case by (subst str_end.simps) (simp add: str_at_Nil)
next
  case (Cons c s)
  have "str_end m p = str_end m (p + 1)" using Cons.prems by (subst str_end.simps) (simp add: str_at_Cons)
  then show ?case using Cons by (simp add: str_at_Cons)
qed

lemma strlen_at: "str_at m p s \<Longrightarrow> strlen m p = Some (length s)"
  by (simp add: strlen_def str_end_at)

text \<open>The order of strings as the signed bytes have it.\<close>

fun str_order :: "u8 list \<Rightarrow> u8 list \<Rightarrow> int" where
  "str_order (c # s) (d # t) = (if c = d then str_order s t else sint c - sint d)"
| "str_order [] [] = 0"
| "str_order [] (d # t) = - sint d"
| "str_order (c # s) [] = sint c"

lemma strcmp_at: "str_at m a s \<Longrightarrow> str_at m b t \<Longrightarrow> strcmp m a b = Some (str_order s t)"
  by (induction s t arbitrary: a b rule: str_order.induct; subst strcmp.simps) (auto simp: str_at_Cons str_at_Nil)

lemma str_order_0: "0 \<notin> set s \<Longrightarrow> 0 \<notin> set t \<Longrightarrow> str_order s t = 0 \<longleftrightarrow> s = t"
  by (induction s t rule: str_order.induct) (auto simp: sint_eq sint_eq_0)

lemma strcpy_at:
  assumes "str_at m s t" and "d + length t < length m" and "d + length t < s \<or> s + length t < d"
  shows "strcpy d s m = Some (overwrite d (t @ [0]) m)"
  using assms
proof (induction t arbitrary: d s m)
  case Nil
  then show ?case by (subst strcpy.simps) (simp add: str_at_Nil overwrite_Cons)
next
  case (Cons c t)
  have "str_at (m[d := c]) (s + 1) t"
    using Cons.prems slice_upd [of d "s + 1" "length t" m c]
    unfolding str_at_Cons by (auto simp: str_at_def nth_list_update)
  then have "strcpy (d + 1) (s + 1) (m[d := c]) = Some (overwrite (d + 1) (t @ [0]) (m[d := c]))"
    using Cons.prems by (intro Cons.IH) auto
  moreover have "strcpy d s m = strcpy (d + 1) (s + 1) (m[d := c])"
    using Cons.prems by (subst strcpy.simps) (simp add: str_at_Cons)
  ultimately show ?case using Cons.prems overwrite_Cons [of d c "t @ [0]" m] by simp
qed


lemma strrchr_loop_at:
  "str_at m p s \<Longrightarrow> strrchr_loop m p c found =
     Some (case filter (\<lambda>i. sint (s ! i) = c) [0..<length s] of [] \<Rightarrow> found | is \<Rightarrow> Some (p + last is))"
proof (induction s arbitrary: p found)
  case Nil
  then show ?case by (subst strrchr_loop.simps) (simp add: str_at_Nil)
next
  case (Cons b s)
  let ?is = "filter (\<lambda>i. sint (s ! i) = c) [0..<length s]"
  have f: "filter (\<lambda>i. sint ((b # s) ! i) = c) [0..<length (b # s)] = (if sint b = c then [0] else []) @ map Suc ?is"
    by (simp add: upt_conv_Cons map_Suc_upt [symmetric] filter_map comp_def del: upt_Suc)
  have step: "strrchr_loop m p c found = strrchr_loop m (p + 1) c (if sint b = c then Some p else found)"
    using Cons.prems by (subst strrchr_loop.simps) (simp add: str_at_Cons)
  have "str_at m (p + 1) s" using Cons.prems by (simp add: str_at_Cons)
  from Cons.IH [OF this] show ?case unfolding step f by (auto simp: last_map split: list.splits)
qed

text \<open>The last place of the character, if there is one.\<close>

lemma strrchr_at:
  "str_at m p s \<Longrightarrow> strrchr m p c =
     Some (case filter (\<lambda>i. sint (s ! i) = c) [0..<length s] of [] \<Rightarrow> None | is \<Rightarrow> Some (p + last is))"
  by (simp add: strrchr_def strrchr_loop_at)

lemma strn_loop_at:
  assumes "str_at m s t" and "length t < n" and "d + length t < length m" and "d + length t < s \<or> s + length t < d"
  shows "strn_loop n d s m = Some (d + length t + 1, overwrite d (t @ [0]) m)"
  using assms
proof (induction t arbitrary: n d s m)
  case Nil
  then obtain k where "n = Suc k" by (cases n) simp_all
  with Nil show ?case by (simp add: str_at_Nil peek_def poke_def overwrite_Cons)
next
  case (Cons c t)
  then obtain k where n: "n = Suc k" by (cases n) simp_all
  have "str_at (m[d := c]) (s + 1) t"
    using Cons.prems slice_upd [of d "s + 1" "length t" m c]
    unfolding str_at_Cons by (auto simp: str_at_def nth_list_update)
  then have "strn_loop k (d + 1) (s + 1) (m[d := c]) = Some (d + 1 + length t + 1, overwrite (d + 1) (t @ [0]) (m[d := c]))"
    using Cons.prems n by (intro Cons.IH) auto
  then show ?case using Cons.prems overwrite_Cons [of d c "t @ [0]" m]
    by (simp add: n str_at_Cons peek_def poke_def)
qed

lemma strcat_at:
  assumes "str_at m d s" and "str_at m p t" and "d + length s + length t < length m"
    and "d + length s + length t < p \<or> p + length t < d + length s"
  shows "strcat d p m = Some (overwrite (d + length s) (t @ [0]) m)"
  using assms by (simp add: strcat_def str_end_at strcpy_at)

text \<open>
  \<open>strncat\<close> of a string that fits writes one byte more than \<open>strcat\<close>: behind the terminating 0
  it has copied it puts another one.
\<close>

lemma strncat_at:
  assumes "str_at m d s" and "str_at m p t" and "length t < n" and "d + length s + length t < length m"
    and "d + length s + length t < p \<or> p + length t < d + length s"
  shows "strncat d p n m =
    (if d + length s + length t + 1 < length m then Some (overwrite (d + length s) (t @ [0, 0]) m) else None)"
proof -
  have "strn_loop n (d + length s) p m = Some (d + length s + length t + 1, overwrite (d + length s) (t @ [0]) m)"
    by (rule strn_loop_at) (use assms in simp_all)
  moreover have "(overwrite (d + length s) (t @ [0]) m)[d + length s + length t + 1 := 0] = overwrite (d + length s) (t @ [0, 0]) m"
    if "d + length s + length t + 1 < length m"
    using that by (intro nth_equalityI) (auto simp: nth_overwrite nth_append nth_list_update nth_Cons' not_less)
  ultimately show ?thesis using assms by (simp add: strncat_def str_end_at poke_def)
qed

section \<open>Properties\<close>

text \<open>
  C22. \<open>memmove\<close> copies the bytes the source had before, however the two stretches overlap, and
  changes no other byte.
\<close>

theorem memmove_is_exact:
  assumes "s + n \<le> length m" and "d + n \<le> length m"
  shows "memmove d s n m = Some (take d m @ take n (drop s m) @ drop (d + n) m)"
  using memmove_copies [OF assms] assms(1) by (simp add: overwrite_def slice_def)

theorem memmove_is_exact_witness: "memmove 1 0 3 [1, 2, 3, 4, 5] = Some [1, 1, 2, 3, 5]"
  using memmove_is_exact [of 0 3 "[1, 2, 3, 4, 5]" 1] by simp

text \<open>
  \<open>strncat\<close> writes one byte behind the string it builds: in a buffer that the string with its
  terminating 0 just fits, it overwrites the byte behind the buffer.
\<close>

theorem strncat_writes_past_end:
  assumes "str_at m d s" and "str_at m p t" and "length t < n" and "d + length s + length t + 1 < length m"
    and "d + length s + length t < p \<or> p + length t < d + length s"
  shows "\<exists>m'. strncat d p n m = Some m' \<and> strcat d p m = Some (m'[d + length s + length t + 1 := m ! (d + length s + length t + 1)])
    \<and> m' ! (d + length s + length t + 1) = 0"
proof (intro exI conjI)
  let ?e = "d + length s + length t + 1" and ?m = "overwrite (d + length s) (t @ [0, 0]) m"
  show "strncat d p n m = Some ?m" using assms by (simp add: strncat_at)
  show "?m ! ?e = 0" using assms(4) by (simp add: nth_overwrite nth_append)
  have "overwrite (d + length s) (t @ [0]) m = ?m[?e := m ! ?e]"
    using assms(4) by (intro nth_equalityI) (auto simp: nth_overwrite nth_append nth_list_update nth_Cons' not_less)
  then show "strcat d p m = Some (?m[?e := m ! ?e])" using strcat_at [OF assms(1,2) _ assms(5)] assms(4) by simp
qed

theorem strncat_writes_past_end_witness:
  "\<exists>m'. strncat 0 4 5 [65, 0, 1, 7, 66, 0] = Some m' \<and> m' ! 3 = 0"
  using strncat_writes_past_end [of "[65, 0, 1, 7, 66, 0]" 0 "[65]" 4 "[66]" 5]
  by (auto simp: str_at_Cons str_at_Nil numeral_3_eq_3)

end
