(* ===== verification/PathNames.thy ===== *)
theory PathNames imports CString begin

text \<open>
  Path names: \<open>fs/name_utils.c\<close> and the splitting of paths in \<open>fs/dcache.c\<close>.

  A path is the string in a buffer that may hold more bytes behind the terminating 0.  The
  results of \<open>get_dirname\<close> and \<open>get_basename\<close> are the return value and the bytes written to the
  destination; \<open>None\<close> is an access outside the path's buffer.
\<close>

abbreviation "slash \<equiv> 47 :: u8"
abbreviation "dot \<equiv> 46 :: u8"
abbreviation PATH_MAX :: nat where "PATH_MAX \<equiv> 1024"
abbreviation NAME_MAX :: nat where "NAME_MAX \<equiv> 64"

text \<open>The length of the path without the slashes at its end; one is left of a path of slashes.\<close>

fun trim_len :: "u8 list \<Rightarrow> nat \<Rightarrow> nat" where
  "trim_len p (Suc (Suc n)) = (if p ! Suc n = slash then trim_len p (Suc n) else Suc (Suc n))"
| "trim_len p n = n"

fun back_over_slashes :: "u8 list \<Rightarrow> nat \<Rightarrow> nat" where
  "back_over_slashes p 0 = 0"
| "back_over_slashes p (Suc i) = (if p ! i = slash then back_over_slashes p i else Suc i)"

definition get_dirname :: "u8 list \<Rightarrow> nat \<Rightarrow> (int \<times> u8 list) option" where
  "get_dirname path size0 =
     (if size0 = 0 then Some (- EINVAL, [])
      else
        (case strlen path 0 of
           None \<Rightarrow> None
         | Some n \<Rightarrow>
             (let len = trim_len path n in
              if len = 1 \<and> path ! 0 = slash then Some (if size0 < 2 then (- ENAMETOOLONG, []) else (0, [slash, 0]))
              else
                (case strrchr path 0 47 of
                   None \<Rightarrow> None
                 | Some p \<Rightarrow>
                     (if p = None \<or> the p > len - 1
                      then Some (if size0 < 2 then (- ENAMETOOLONG, []) else (0, [dot, 0]))
                      else
                        (let q = back_over_slashes path (the p) in
                         if q = 0 then Some (if size0 < 2 then (- ENAMETOOLONG, []) else (0, [slash, 0]))
                         else if q + 1 > size0 then Some (- ENAMETOOLONG, [])
                         else map_option (\<lambda>bs. (0, bs @ [0])) (mem_read path 0 q)))))))"

definition get_basename :: "u8 list \<Rightarrow> nat \<Rightarrow> (int \<times> u8 list) option" where
  "get_basename path size0 =
     (if size0 = 0 then Some (- EINVAL, [])
      else
        (case strlen path 0 of
           None \<Rightarrow> None
         | Some n \<Rightarrow>
             (let len = trim_len path n in
              if len = 1 \<and> path ! 0 = slash then Some (if size0 < 2 then (- ENAMETOOLONG, []) else (0, [slash, 0]))
              else
                (case strrchr path 0 47 of
                   None \<Rightarrow> None
                 | Some p \<Rightarrow>
                     (let slen = (if p = None \<or> the p > len - 1 then len else len - (the p + 1)) in
                      if slen + 1 > size0 then Some (- ENAMETOOLONG, [])
                      else map_option (\<lambda>bs. (0, bs @ [0]))
                             (mem_read path (case p of None \<Rightarrow> 0 | Some i \<Rightarrow> i + 1) slen))))))"

definition path_component_len :: "u8 list \<Rightarrow> nat" where
  "path_component_len p = length (takeWhile (\<lambda>c. c \<noteq> slash) p)"

text \<open>\<open>next_path_component\<close> on the rest of the path: the next name and what follows it.\<close>

definition next_path_component :: "u8 list \<Rightarrow> (u8 list \<times> u8 list) option" where
  "next_path_component path =
     (let p = dropWhile (\<lambda>c. c = slash) path; len = path_component_len p in
      if len = 0 then None else Some (take len p, drop len p))"

definition is_absolute_path :: "u8 list \<Rightarrow> bool" where
  "is_absolute_path path \<longleftrightarrow> path \<noteq> [] \<and> path ! 0 = slash"

definition is_relative_path :: "u8 list \<Rightarrow> bool" where
  "is_relative_path path \<longleftrightarrow> \<not> (path \<noteq> [] \<and> path ! 0 = slash)"

text \<open>
  A path from user space is copied to a buffer of the kernel: the string there, or the error.
  \<open>ucopy\<close> is \<open>strncpy_from_user\<close>: an error, or the bytes copied.
\<close>

definition get_user_path :: "(nat \<Rightarrow> int + u8 list) \<Rightarrow> int + u8 list" where
  "get_user_path ucopy =
     (case ucopy PATH_MAX of
        Inl err \<Rightarrow> Inl err
      | Inr s \<Rightarrow> if length s = PATH_MAX then Inl (- ENAMETOOLONG) else Inr s)"

text \<open>All the names of a path, as the lookup takes them one after the other.\<close>

function components :: "u8 list \<Rightarrow> u8 list list" where
  "components path =
     (case next_path_component path of None \<Rightarrow> [] | Some (n, rest) \<Rightarrow> n # components rest)"
  by pat_completeness auto
termination
proof (relation "measure length")
  fix path x n rest
  let ?q = "dropWhile (\<lambda>c. c = slash) path" and ?k = "path_component_len (dropWhile (\<lambda>c. c = slash) path)"
  assume "next_path_component path = Some x" and "(n, rest) = x"
  then have r: "?k \<noteq> 0" "rest = drop ?k ?q" by (auto simp: next_path_component_def Let_def split: if_splits)
  have "length ?q \<le> length path" by (rule length_dropWhile_le)
  moreover have "?k \<le> length ?q" by (simp only: path_component_len_def length_takeWhile_le)
  ultimately have "length rest < length path" using r by (simp only: length_drop)
  then show "(rest, path) \<in> measure length" by simp
qed simp

declare components.simps [simp del]

section \<open>Paths as lists of names\<close>

lemma next_path_component_None: "next_path_component p = None \<longleftrightarrow> (\<forall>c \<in> set p. c = slash)"
proof -
  have "takeWhile (\<lambda>c. c \<noteq> slash) q = [] \<longleftrightarrow> q = []" if "q = dropWhile (\<lambda>c. c = slash) p" for q
    using hd_dropWhile [of "\<lambda>c. c = slash" p, folded that] by (cases q) auto
  then have "path_component_len (dropWhile (\<lambda>c. c = slash) p) = 0 \<longleftrightarrow> (\<forall>c \<in> set p. c = slash)"
    by (simp only: path_component_len_def length_0_conv dropWhile_eq_Nil_conv refl)
  then show ?thesis by (simp add: next_path_component_def Let_def)
qed

lemma next_path_component_Some:
  "next_path_component p = Some (n, rest) \<longleftrightarrow>
     dropWhile (\<lambda>c. c = slash) p = n @ rest \<and> n \<noteq> [] \<and> slash \<notin> set n \<and> (rest = [] \<or> hd rest = slash)"
proof -
  let ?q = "dropWhile (\<lambda>c. c = slash) p"
  have t: "take (length (takeWhile (\<lambda>c. c \<noteq> slash) ?q)) ?q = takeWhile (\<lambda>c. c \<noteq> slash) ?q"
    "drop (length (takeWhile (\<lambda>c. c \<noteq> slash) ?q)) ?q = dropWhile (\<lambda>c. c \<noteq> slash) ?q"
    by (simp_all add: takeWhile_eq_take [symmetric] dropWhile_eq_drop [symmetric])
  show ?thesis
  proof
    assume "next_path_component p = Some (n, rest)"
    then have nr: "n = takeWhile (\<lambda>c. c \<noteq> slash) ?q" "rest = dropWhile (\<lambda>c. c \<noteq> slash) ?q" "n \<noteq> []"
      using t by (auto simp: next_path_component_def path_component_len_def Let_def split: if_splits)
    moreover have "slash \<notin> set n" using nr(1) by (metis (mono_tags, lifting) set_takeWhileD)
    moreover have "rest = [] \<or> hd rest = slash" using nr(2) hd_dropWhile by blast
    ultimately show "?q = n @ rest \<and> n \<noteq> [] \<and> slash \<notin> set n \<and> (rest = [] \<or> hd rest = slash)" by simp
  next
    assume *: "?q = n @ rest \<and> n \<noteq> [] \<and> slash \<notin> set n \<and> (rest = [] \<or> hd rest = slash)"
    then have "takeWhile (\<lambda>c. c \<noteq> slash) ?q = n" by (cases rest) (auto simp: takeWhile_append2 takeWhile_append)
    then show "next_path_component p = Some (n, rest)"
      using * by (simp add: next_path_component_def path_component_len_def Let_def)
  qed
qed

lemma next_path_component_shorter: "next_path_component p = Some (n, rest) \<Longrightarrow> length rest < length p"
  using length_dropWhile_le [of "\<lambda>c. c = slash" p] by (cases n) (auto simp: next_path_component_Some)

lemma components_slashes: "\<forall>c \<in> set p. c = slash \<Longrightarrow> components p = []"
  by (subst components.simps) (simp add: next_path_component_None [THEN iffD2])

lemma components_step: "next_path_component p = Some (n, rest) \<Longrightarrow> components p = n # components rest"
  by (subst components.simps) simp

lemma components_append: "components (p @ slash # q) = components p @ components q"
proof (induction p rule: components.induct)
  case (1 p)
  show ?case
  proof (cases "next_path_component p")
    case None
    then have "\<forall>c \<in> set p. c = slash" by (simp add: next_path_component_None)
    then have "next_path_component (p @ slash # q) = next_path_component q"
      by (simp add: next_path_component_def dropWhile_append)
    then have "components (p @ slash # q) = components q"
      by (subst components.simps) (simp add: components.simps [of q])
    then show ?thesis using None by (simp add: components.simps [of p])
  next
    case (Some x)
    obtain n rest where x: "x = (n, rest)" by (cases x)
    note S = Some [unfolded x next_path_component_Some]
    have "\<exists>c \<in> set p. c \<noteq> slash" using S dropWhile_eq_Nil_conv [of "\<lambda>c. c = slash" p] by auto
    then have "dropWhile (\<lambda>c. c = slash) (p @ slash # q) = n @ (rest @ slash # q)"
      using S by (auto simp: dropWhile_append)
    then have "next_path_component (p @ slash # q) = Some (n, rest @ slash # q)"
      using S by (cases rest) (simp_all add: next_path_component_Some)
    then show ?thesis using "1" [OF Some x [symmetric]] Some x by (simp add: components_step)
  qed
qed

lemma components_one: "n \<noteq> [] \<Longrightarrow> slash \<notin> set n \<Longrightarrow> components n = [n]"
proof -
  assume n: "n \<noteq> []" "slash \<notin> set n"
  then have "dropWhile (\<lambda>c. c = slash) n = n" by (cases n) auto
  then have "next_path_component n = Some (n, [])" using n by (simp add: next_path_component_Some)
  then show "components n = [n]" using components_slashes [of "[]"] by (simp add: components_step)
qed

lemma components_names: "n \<in> set (components p) \<Longrightarrow> n \<noteq> [] \<and> slash \<notin> set n"
proof (induction p rule: components.induct)
  case (1 p)
  show ?case
  proof (cases "next_path_component p")
    case (Some x)
    obtain m rest where x: "x = (m, rest)" by (cases x)
    then show ?thesis using "1" Some by (auto simp: components_step next_path_component_Some)
  next
    case None
    then show ?thesis using "1"(2) by (simp add: next_path_component_None components_slashes)
  qed
qed

lemma components_back: "i \<le> length p \<Longrightarrow> components (take (back_over_slashes p i) p) = components (take i p)"
proof (induction p i rule: back_over_slashes.induct)
  case (2 p i)
  then show ?case using components_append [of "take i p" "[]"] components_slashes [of "[]"]
    by (auto simp: take_Suc_conv_app_nth)
qed simp

lemma back_over_slashes_le: "back_over_slashes p i \<le> i"
  by (induction p i rule: back_over_slashes.induct) auto

section \<open>Directory and last name\<close>

lemma trim_len_slashes:
  "0 < n \<Longrightarrow> n = 1 \<or> p ! (n - 1) \<noteq> slash \<Longrightarrow> \<forall>j. n \<le> j \<and> j < n + k \<longrightarrow> p ! j = slash \<Longrightarrow> trim_len p (n + k) = n"
proof (induction k)
  case 0
  then show ?case by (cases "(p, n)" rule: trim_len.cases) auto
next
  case (Suc k)
  obtain m where m: "n = Suc m" using Suc.prems(1) by (cases n) auto
  have "trim_len p (n + k) = n" using Suc by simp
  then show ?case using Suc.prems(3) by (auto simp: m)
qed

lemma str_at_0: "str_at buf 0 s \<longleftrightarrow> length s < length buf \<and> take (length s) buf = s \<and> buf ! length s = 0 \<and> 0 \<notin> set s"
  by (simp add: str_at_def slice_def)

lemma str_nth: "str_at buf 0 s \<Longrightarrow> i < length s \<Longrightarrow> buf ! i = s ! i"
  unfolding str_at_0 by (metis nth_take)

lemma strrchr_slash:
  assumes "str_at buf 0 (u @ slash # v)" and "slash \<notin> set v"
  shows "strrchr buf 0 47 = Some (Some (length u))"
proof -
  let ?s = "u @ slash # v"
  have sl: "sint c = 47 \<longleftrightarrow> c = slash" for c :: u8 using sint_eq [of c slash] by simp
  have "filter (\<lambda>i. sint (?s ! i) = 47) [0..<length ?s]
      = filter (\<lambda>i. sint (?s ! i) = 47) [0..<length u] @ filter (\<lambda>i. sint (?s ! i) = 47) [length u..<length ?s]"
    by (metis filter_append le_add1 length_append upt_add_eq_append zero_le add_0)
  moreover have "filter (\<lambda>i. sint (?s ! i) = 47) [length u..<length ?s] = [length u]"
  proof -
    have "filter (\<lambda>i. sint (?s ! i) = 47) [Suc (length u)..<length ?s] = []"
    proof (rule filter_False, rule ballI)
      fix i assume i: "i \<in> set [Suc (length u)..<length ?s]"
      then obtain j where "i = Suc (length u) + j" by (auto simp: le_iff_add)
      then have "?s ! i = v ! j" "j < length v" using i by (auto simp: nth_append)
      then show "sint (?s ! i) \<noteq> 47" using assms(2) sl by (metis nth_mem)
    qed
    moreover have "[length u..<length ?s] = length u # [Suc (length u)..<length ?s]" by (rule upt_conv_Cons) simp
    ultimately show ?thesis by (simp only: filter.simps if_True) (simp add: nth_append)
  qed
  ultimately obtain xs where xs: "filter (\<lambda>i. sint (?s ! i) = 47) [0..<length ?s] = xs @ [length u]" by metis
  show ?thesis unfolding strrchr_at [OF assms(1)] xs by (cases xs) simp_all
qed

lemma strrchr_no_slash: "str_at buf 0 s \<Longrightarrow> slash \<notin> set s \<Longrightarrow> strrchr buf 0 47 = Some None"
proof -
  assume s: "str_at buf 0 s" "slash \<notin> set s"
  have "sint c = 47 \<longleftrightarrow> c = slash" for c :: u8 using sint_eq [of c slash] by simp
  then have "filter (\<lambda>i. sint (s ! i) = 47) [0..<length s] = []"
    using s(2) by (auto simp: filter_empty_conv in_set_conv_nth)
  then show ?thesis unfolding strrchr_at [OF s(1)] by simp
qed


text \<open>A path that does not end in a slash.\<close>

lemma strip_nothing:
  assumes "str_at buf 0 s" and "s \<noteq> []" and "last s \<noteq> slash"
  shows "trim_len buf (length s) = length s" "\<not> (length s = 1 \<and> buf ! 0 = slash)"
proof -
  have l: "buf ! (length s - 1) \<noteq> slash" using assms by (simp add: str_nth last_conv_nth)
  moreover have "\<forall>j. length s \<le> j \<and> j < length s + 0 \<longrightarrow> buf ! j = slash" by (auto dest: leD)
  ultimately show "trim_len buf (length s) = length s" using trim_len_slashes [of "length s" buf 0] assms(2) by auto
  show "\<not> (length s = 1 \<and> buf ! 0 = slash)" using l by auto
qed

lemma dirname_no_slash:
  assumes "str_at buf 0 s" and "s \<noteq> []" and "slash \<notin> set s" and "length s < size0" and "length s < size1"
  shows "get_dirname buf size0 = Some (0, [dot, 0])" "get_basename buf size1 = Some (0, s @ [0])"
proof -
  have "last s \<noteq> slash" using assms(2,3) last_in_set by metis
  note S = strip_nothing [OF assms(1,2) this]
  have z: "size0 \<noteq> 0" "\<not> size0 < 2" "size1 \<noteq> 0" "\<not> size1 < 2" using assms(2,4,5) by (cases s; simp)+
  show "get_dirname buf size0 = Some (0, [dot, 0])"
    using z by (simp only: option.case get_dirname_def strlen_at [OF assms(1)] S Let_def strrchr_no_slash [OF assms(1,3)]) simp
  have "mem_read buf 0 (length s) = Some s" using assms(1) by (simp add: mem_read_def str_at_0)
  then show "get_basename buf size1 = Some (0, s @ [0])"
    using z assms(5) by (simp only: option.case get_basename_def strlen_at [OF assms(1)] S Let_def strrchr_no_slash [OF assms(1,3)]) simp
qed

lemma dirname_slash:
  assumes "str_at buf 0 (u @ slash # v)" and "v \<noteq> []" and "slash \<notin> set v" and "length (u @ slash # v) < size0" and "length v < size1"
  defines "d \<equiv> (if back_over_slashes u (length u) = 0 then [slash] else take (back_over_slashes u (length u)) u)"
  shows "get_dirname buf size0 = Some (0, d @ [0])" "get_basename buf size1 = Some (0, v @ [0])"
proof -
  let ?s = "u @ slash # v"
  have "last ?s \<noteq> slash" using last_in_set [OF assms(2)] assms(2,3) by (metis last.simps last_append list.distinct(1))
  note S = strip_nothing [OF assms(1) _ this, simplified append_is_Nil_conv list.distinct simp_thms]
  note R = strrchr_slash [OF assms(1,3)]
  have z: "size0 \<noteq> 0" "\<not> size0 < 2" "\<not> length u > length ?s - 1" "size1 \<noteq> 0" "\<not> size1 < 2"
    using assms(2,4,5) by (cases v; simp)+
  have tk: "take (length ?s) buf = ?s" "length ?s < length buf" using assms(1) by (simp_all add: str_at_0)
  have "back_over_slashes buf i = back_over_slashes u i" if "i \<le> length u" for i
  proof -
    have "buf ! j = u ! j" if "j < length u" for j
      using str_nth [OF assms(1), of j] that by (simp add: nth_append)
    then show ?thesis using \<open>i \<le> length u\<close> by (induction i) auto
  qed
  then have b: "back_over_slashes buf (length u) = back_over_slashes u (length u)" by simp
  let ?k = "back_over_slashes u (length u)"
  have k: "?k \<le> length u" by (rule back_over_slashes_le)
  have "take ?k buf = take ?k (take (length ?s) buf)" using k by (simp add: min_absorb1)
  then have "take ?k buf = take ?k ?s" unfolding tk(1) .
  moreover have "take ?k ?s = take ?k u" using k by simp
  moreover have "?k \<le> length buf" using k tk(2) by simp
  ultimately have mr: "mem_read buf 0 ?k = Some (take ?k u)" by (simp only: mem_read_def drop_0 add_0 if_True)
  have kz: "\<not> ?k + 1 > size0" using k assms(4) by simp
  have gd: "get_dirname buf size0 = (if ?k = 0 then Some (0, [slash, 0]) else map_option (\<lambda>bs. (0, bs @ [0])) (mem_read buf 0 ?k))"
    by (simp only: option.case option.sel option.distinct get_dirname_def strlen_at [OF assms(1)] S Let_def R b z kz if_False simp_thms)
  show "get_dirname buf size0 = Some (0, d @ [0])"
    unfolding gd mr d_def by (cases "?k = 0") simp_all
  have "drop (length u + 1) (take (length ?s) buf) = v" unfolding tk(1) by simp
  then have "take (length v) (drop (length u + 1) buf) = v" by (simp add: drop_take)
  then have mb: "mem_read buf (length u + 1) (length v) = Some v" using tk(2) by (simp add: mem_read_def)
  have sl: "length ?s - (length u + 1) = length v" "\<not> length v + 1 > size1" using assms(5) by simp_all
  show "get_basename buf size1 = Some (0, v @ [0])"
    by (simp only: option.case option.sel option.distinct get_basename_def strlen_at [OF assms(1)] S Let_def R z sl mb
        if_False simp_thms option.map)
qed

lemma dirname_split:
  assumes "str_at buf 0 s" and "s \<noteq> []" and "last s \<noteq> slash" and "length s < size0"
    and "\<And>n. length n \<le> length s \<Longrightarrow> last (components s) = n \<Longrightarrow> length n < size1"
  shows "\<exists>d n. get_dirname buf size0 = Some (0, d @ [0]) \<and> get_basename buf size1 = Some (0, n @ [0]) \<and> n \<noteq> [] \<and> slash \<notin> set n
    \<and> is_absolute_path d = is_absolute_path s \<and> components s = (if slash \<in> set s then components d else []) @ [n]
    \<and> (slash \<in> set s \<or> d = [dot]) \<and> 0 \<notin> set d \<and> 0 \<notin> set n \<and> d \<noteq> []"
proof (cases "slash \<in> set s")
  case False
  have c: "components s = [s]" by (rule components_one [OF assms(2) False])
  have l: "length s < size1" using assms(5) [of s] c by simp
  have "0 \<notin> set s" using assms(1) by (simp add: str_at_0)
  then show ?thesis
    using dirname_no_slash [OF assms(1,2) False assms(4) l] assms(2) c False
    by (intro exI [of _ "[dot]"] exI [of _ s]) (auto simp: is_absolute_path_def in_set_conv_nth)
next
  case True
  then obtain u v where s: "s = u @ slash # v" and v: "slash \<notin> set v" using split_list_last by metis
  have ne: "v \<noteq> []" using assms(3) s by auto
  let ?k = "back_over_slashes u (length u)"
  have cs: "components s = components u @ [v]" using s components_append components_one [OF ne v] by simp
  have l: "length v < size1" using assms(5) [of v] cs s by simp
  note D = dirname_slash [OF assms(1) [unfolded s] ne v assms(4) [unfolded s] l]
  have "0 \<notin> set s" using assms(1) by (simp add: str_at_0)
  then have "0 \<notin> set (if ?k = 0 then [slash] else take ?k u) \<and> 0 \<notin> set v" using s by (auto dest: in_set_takeD)
  moreover have "(if ?k = 0 then [slash] else take ?k u) \<noteq> []" using back_over_slashes_le [of u "length u"] by auto
  moreover note cs
  moreover have "components (if ?k = 0 then [slash] else take ?k u) = components u"
    using components_back [of "length u" u] components_slashes [of "[slash]"] components_slashes [of "[]"] by auto
  moreover have "is_absolute_path (if ?k = 0 then [slash] else take ?k u) = is_absolute_path s"
  proof (cases "?k = 0")
    case k: True
    have "u = [] \<or> u ! 0 = slash"
    proof -
      have "back_over_slashes u i = 0 \<Longrightarrow> 0 < i \<Longrightarrow> u ! 0 = slash" for i
      proof (induction u i rule: back_over_slashes.induct)
        case (2 p i)
        then show ?case by (cases i) (auto split: if_splits)
      qed simp
      from this [of "length u"] show ?thesis using k by auto
    qed
    then show ?thesis using k s by (cases u) (auto simp: is_absolute_path_def)
  next
    case k: False
    then have "u \<noteq> []" by auto
    then show ?thesis using k s by (auto simp: is_absolute_path_def nth_append)
  qed
  ultimately show ?thesis using D ne v True s
    by (intro exI [of _ "if ?k = 0 then [slash] else take ?k u"] exI [of _ v]) (simp only: simp_thms if_True)
qed

section \<open>Properties\<close>

text \<open>
  The directory and the last name of a path that does not end in a slash: looking up the
  directory and then the name visits the names of the path, from the root exactly if the path is
  absolute.  The directory of a path without a slash is the current one.
\<close>

theorem dirname_basename_split_path:
  assumes "str_at buf 0 s" and "s \<noteq> []" and "last s \<noteq> slash" and "length s < size0"
  shows "\<exists>d n. get_dirname buf size0 = Some (0, d @ [0]) \<and> get_basename buf size0 = Some (0, n @ [0]) \<and> n \<noteq> [] \<and> slash \<notin> set n
    \<and> is_absolute_path d = is_absolute_path s \<and> components s = (if slash \<in> set s then components d else []) @ [n]
    \<and> (slash \<in> set s \<or> d = [dot])"
  using dirname_split [OF assms, of size0] assms(4) by fastforce

theorem dirname_basename_split_path_witness:
  "\<exists>d n. get_dirname [47, 97, 47, 47, 98, 0] 64 = Some (0, d @ [0]) \<and> get_basename [47, 97, 47, 47, 98, 0] 64 = Some (0, n @ [0])
     \<and> components [47, 97, 47, 47, 98] = components d @ [n]"
  using dirname_basename_split_path [of "[47, 97, 47, 47, 98, 0]" "[47, 97, 47, 47, 98]" 64] by (auto simp: str_at_0)

text \<open>
  A path of several characters that ends in a slash: the last slash is searched in the whole
  path, not in the part before the slashes at its end.  The directory comes out as the current one and
  the name as the empty string, whatever the path is; the copy runs past the end of the path.
\<close>

theorem trailing_slash_loses_path:
  assumes "str_at buf 0 (r @ replicate (Suc k) slash)" and "r \<noteq> []" and "last r \<noteq> slash" and "length r + 1 < size0"
  shows "get_dirname buf size0 = Some (0, [dot, 0])
    \<and> (case get_basename buf size0 of None \<Rightarrow> length buf < length r + Suc k + length r | Some (e, bs) \<Rightarrow> e = 0 \<and> cstr bs = [])"
proof -
  let ?s = "r @ replicate (Suc k) slash"
  have s: "?s = (r @ replicate k slash) @ slash # []" by (simp add: replicate_append_same)
  have R: "strrchr buf 0 47 = Some (Some (length r + k))"
    using strrchr_slash [of buf "r @ replicate k slash" "[]"] assms(1) unfolding s by simp
  have n: "strlen buf 0 = Some (length r + Suc k)" using strlen_at [OF assms(1)] by simp
  have tl: "buf ! j = slash" if "length r \<le> j" "j < length r + Suc k" for j
    using str_nth [OF assms(1), of j] that by (auto simp: nth_append simp del: replicate_Suc)
  have lr: "buf ! (length r - 1) \<noteq> slash"
    using str_nth [OF assms(1), of "length r - 1"] assms(2,3) by (simp add: nth_append last_conv_nth)
  then have T: "trim_len buf (length r + Suc k) = length r" using tl assms(2) by (intro trim_len_slashes) auto
  have nr: "\<not> (length r = 1 \<and> buf ! 0 = slash)" using lr by auto
  have z: "size0 \<noteq> 0" "\<not> size0 < 2" "length r + k > length r - 1" using assms(2,4) by (cases r; simp)+
  have d: "get_dirname buf size0 = Some (0, [dot, 0])"
    using z by (simp only: option.case get_dirname_def n T nr R Let_def) simp
  have b: "get_basename buf size0 = map_option (\<lambda>bs. (0, bs @ [0])) (mem_read buf (length r + Suc k) (length r))"
    using z assms(4) by (simp only: option.case get_basename_def n T nr R Let_def) simp
  have "buf ! (length r + Suc k) = 0" "length r + Suc k < length buf" using assms(1) by (simp_all add: str_at_0)
  then have "cstr (take (length r) (drop (length r + Suc k) buf) @ [0]) = []"
    using assms(2) by (cases r) (simp_all add: cstr_def Cons_nth_drop_Suc [symmetric])
  then show ?thesis using d b by (auto simp: mem_read_def)
qed

theorem trailing_slash_loses_path_witness:
  "get_dirname [97, 47, 98, 47, 0, 1, 2, 3] 64 = Some (0, [46, 0])
   \<and> (\<exists>bs. get_basename [97, 47, 98, 47, 0, 1, 2, 3] 64 = Some (0, bs) \<and> cstr bs = [])"
  using trailing_slash_loses_path [of "[97, 47, 98, 47, 0, 1, 2, 3]" "[97, 47, 98]" 0 64]
  by (auto simp: str_at_0 split: option.splits)

end
