(* ===== verification/Tmpfs.thy ===== *)
theory Tmpfs imports PathNames "HOL-Library.Monad_Syntax" begin

text \<open>
  The objects of the file system tree, dentries and inodes, and the tmpfs operations on them:
  \<open>fs/tmpfs/inode.c\<close>, \<open>fs/tmpfs/sb.c\<close>, \<open>fs/tmpfs/file.c\<close>, \<open>iget\<close> and \<open>iput\<close> of
  \<open>fs/inode.c\<close>, and \<open>alloc_dentry\<close> and the dentry lists of \<open>fs/dcache.c\<close>.

  Dentries and inodes are found by their address; an address that was freed holds nothing, and
  an access to it, or through a null pointer, is \<open>None\<close>.  A new object gets an address that was
  never used.  Allocation does not fail (\<open>kmalloc\<close> panics when there is no memory).
\<close>

section \<open>Objects\<close>

datatype fs_type = FS_NONE | MSDOS | EXT2 | TMPFS

record tmpfs_entry =
  e_inode :: nat
  e_type :: nat
  e_name :: "u8 list"

text \<open>
  The private data of a tmpfs inode.  The contents of a file are kept as far as the size of the inode;
  what lies behind in its block is never read.
\<close>

datatype tmpfs_private = No_Private | Tmpfs_Dir "tmpfs_entry list" | Tmpfs_File "u8 list"

record inode =
  i_mode :: u32
  i_sb :: nat
  i_ino :: nat
  i_count :: nat
  i_nlink :: nat
  i_size :: nat
  i_atime :: nat
  i_mtime :: nat
  i_ctime :: nat
  i_private :: tmpfs_private

record dentry =
  d_count :: nat
  d_parent :: "nat option"
  d_name :: "u8 list"
  d_inode :: "nat option"
  d_sb :: nat
  d_children :: "nat list"
  d_mount :: "nat option"

record vfs =
  dentries :: "nat \<Rightarrow> dentry option"
  inodes :: "nat \<Rightarrow> inode option"
  s_type :: "nat \<Rightarrow> fs_type"
  s_inodes :: "nat \<Rightarrow> nat list"
  mnt_root :: "nat \<Rightarrow> nat option"
  root_dentry :: nat
  next_dentry :: nat
  next_inode :: nat
  last_ino :: nat
  now :: nat

definition upd_dentry :: "nat \<Rightarrow> (dentry \<Rightarrow> dentry) \<Rightarrow> vfs \<Rightarrow> vfs option" where
  "upd_dentry d f s = map_option (\<lambda>x. s\<lparr>dentries := (dentries s)(d := Some (f x))\<rparr>) (dentries s d)"

definition upd_inode :: "nat \<Rightarrow> (inode \<Rightarrow> inode) \<Rightarrow> vfs \<Rightarrow> vfs option" where
  "upd_inode i f s = map_option (\<lambda>x. s\<lparr>inodes := (inodes s)(i := Some (f x))\<rparr>) (inodes s i)"

abbreviation S_IFMT :: u32 where "S_IFMT \<equiv> 0xF000"
abbreviation S_IFDIR :: u32 where "S_IFDIR \<equiv> 0x4000"
abbreviation S_IFREG :: u32 where "S_IFREG \<equiv> 0x8000"
abbreviation S_IFLNK :: u32 where "S_IFLNK \<equiv> 0xA000"
abbreviation S_IFCHR :: u32 where "S_IFCHR \<equiv> 0x2000"
abbreviation S_IFBLK :: u32 where "S_IFBLK \<equiv> 0x6000"

definition S_ISDIR :: "u32 \<Rightarrow> bool" where "S_ISDIR mode \<longleftrightarrow> mode AND S_IFMT = S_IFDIR"
definition S_ISREG :: "u32 \<Rightarrow> bool" where "S_ISREG mode \<longleftrightarrow> mode AND S_IFMT = S_IFREG"
definition S_ISLNK :: "u32 \<Rightarrow> bool" where "S_ISLNK mode \<longleftrightarrow> mode AND S_IFMT = S_IFLNK"
definition S_ISCHR :: "u32 \<Rightarrow> bool" where "S_ISCHR mode \<longleftrightarrow> mode AND S_IFMT = S_IFCHR"
definition S_ISBLK :: "u32 \<Rightarrow> bool" where "S_ISBLK mode \<longleftrightarrow> mode AND S_IFMT = S_IFBLK"

section \<open>Reference counts of inodes\<close>

text \<open>A node is added behind the last node of the list, which must not have been freed.\<close>

definition list_add_inode :: "nat \<Rightarrow> nat \<Rightarrow> vfs \<Rightarrow> vfs option" where
  "list_add_inode i sb s =
     (if s_inodes s sb \<noteq> [] \<and> inodes s (last (s_inodes s sb)) = None then None
      else Some (s\<lparr>s_inodes := (s_inodes s)(sb := s_inodes s sb @ [i])\<rparr>))"

definition iget :: "nat \<Rightarrow> vfs \<Rightarrow> vfs option" where
  "iget i s = do {
     x \<leftarrow> inodes s i;
     s1 \<leftarrow> (if i_count x = 0 then list_add_inode i (i_sb x) s else Some s);
     upd_inode i (i_count_update (\<lambda>n. n + 1)) s1 }"

definition tmpfs_destroy_inode :: "nat \<Rightarrow> vfs \<Rightarrow> vfs option" where
  "tmpfs_destroy_inode i s = map_option (\<lambda>_. s\<lparr>inodes := (inodes s)(i := None)\<rparr>) (inodes s i)"

definition iput :: "nat \<Rightarrow> vfs \<Rightarrow> vfs option" where
  "iput i s = do {
     x \<leftarrow> inodes s i;
     (if i_count x > 1 then upd_inode i (i_count_update (\<lambda>n. n - 1)) s
      else tmpfs_destroy_inode i (s\<lparr>s_inodes := (s_inodes s)(i_sb x := remove1 i (s_inodes s (i_sb x)))\<rparr>)) }"

definition tmpfs_alloc_inode :: "nat \<Rightarrow> vfs \<Rightarrow> (nat \<times> vfs) option" where
  "tmpfs_alloc_inode sb s =
     (let i = next_inode s;
          x = \<lparr>i_mode = 0, i_sb = sb, i_ino = last_ino s + 1, i_count = 1, i_nlink = 1, i_size = 0,
               i_atime = now s, i_mtime = now s, i_ctime = now s, i_private = No_Private\<rparr> in
      map_option (\<lambda>s1. (i, s1))
        (list_add_inode i sb (s\<lparr>inodes := (inodes s)(i := Some x), next_inode := i + 1, last_ino := last_ino s + 1\<rparr>)))"

section \<open>Dentries\<close>

definition dget :: "nat \<Rightarrow> vfs \<Rightarrow> vfs option" where
  "dget d s = upd_dentry d (d_count_update (\<lambda>n. n + 1)) s"

text \<open>A dentry whose count drops to 0 is kept.\<close>

definition dput :: "nat \<Rightarrow> vfs \<Rightarrow> vfs option" where
  "dput d s = upd_dentry d (d_count_update (\<lambda>n. n - 1)) s"

definition dcache_add :: "nat \<Rightarrow> vfs \<Rightarrow> vfs option" where
  "dcache_add d s = do { x \<leftarrow> dentries s d; p \<leftarrow> d_parent x; upd_dentry p (d_children_update (\<lambda>cs. d # cs)) s }"

definition dcache_remove :: "nat \<Rightarrow> vfs \<Rightarrow> vfs option" where
  "dcache_remove d s = do { x \<leftarrow> dentries s d; p \<leftarrow> d_parent x; upd_dentry p (d_children_update (remove1 d)) s }"

definition alloc_dentry :: "nat \<Rightarrow> u8 list \<Rightarrow> vfs \<Rightarrow> (nat \<times> vfs) option" where
  "alloc_dentry p name s = do {
     x \<leftarrow> dentries s p;
     i \<leftarrow> d_inode x;
     y \<leftarrow> inodes s i;
     Some (next_dentry s,
       s\<lparr>dentries := (dentries s)(next_dentry s :=
            Some \<lparr>d_count = 1, d_parent = Some p, d_name = name, d_inode = None, d_sb = i_sb y,
                  d_children = [], d_mount = None\<rparr>),
         next_dentry := next_dentry s + 1\<rparr>) }"

definition destroy_dentry :: "nat \<Rightarrow> vfs \<Rightarrow> vfs" where
  "destroy_dentry d s = s\<lparr>dentries := (dentries s)(d := None)\<rparr>"

section \<open>Operations on tmpfs directories\<close>

text \<open>What a lookup operation returns: an error pointer, the null pointer or an object.\<close>

datatype ptr = Err_Ptr int | Null_Ptr | Obj_Ptr nat

definition tmpfs_dir :: "nat \<Rightarrow> vfs \<Rightarrow> tmpfs_entry list option" where
  "tmpfs_dir i s = do { x \<leftarrow> inodes s i; (case i_private x of Tmpfs_Dir es \<Rightarrow> Some es | _ \<Rightarrow> None) }"

definition tmpfs_file :: "nat \<Rightarrow> vfs \<Rightarrow> u8 list option" where
  "tmpfs_file i s = do { x \<leftarrow> inodes s i; (case i_private x of Tmpfs_File bs \<Rightarrow> Some bs | _ \<Rightarrow> None) }"

text \<open>The name is copied to an array of \<open>NAME_MAX\<close> bytes at the end of the block of entries.\<close>

definition tmpfs_add_entry :: "nat \<Rightarrow> nat \<Rightarrow> nat \<Rightarrow> u8 list \<Rightarrow> vfs \<Rightarrow> vfs option" where
  "tmpfs_add_entry dir i type name s = do {
     es \<leftarrow> tmpfs_dir dir s;
     (if length name < NAME_MAX
      then upd_inode dir (i_private_update (\<lambda>_. Tmpfs_Dir (es @ [\<lparr>e_inode = i, e_type = type, e_name = name\<rparr>]))) s
      else None) }"

definition tmpfs_remove_entry :: "nat \<Rightarrow> nat \<Rightarrow> u8 list \<Rightarrow> vfs \<Rightarrow> vfs option" where
  "tmpfs_remove_entry dir i name s = do {
     es \<leftarrow> tmpfs_dir dir s;
     upd_inode dir (i_private_update (\<lambda>_. Tmpfs_Dir
       (takeWhile (\<lambda>e. \<not> (e_inode e = i \<and> e_name e = name)) es
        @ tl (dropWhile (\<lambda>e. \<not> (e_inode e = i \<and> e_name e = name)) es)))) s }"

definition tmpfs_lookup :: "nat \<Rightarrow> nat \<Rightarrow> vfs \<Rightarrow> (ptr \<times> vfs) option" where
  "tmpfs_lookup dir d s = do {
     es \<leftarrow> tmpfs_dir dir s;
     x \<leftarrow> dentries s d;
     (case List.find (\<lambda>e. e_name e = d_name x) es of
        None \<Rightarrow> Some (Null_Ptr, s)
      | Some e \<Rightarrow> do {
          s1 \<leftarrow> iget (e_inode e) s;
          s2 \<leftarrow> upd_dentry d (d_inode_update (\<lambda>_. Some (e_inode e))) s1;
          Some (Obj_Ptr d, s2) }) }"

definition tmpfs_create :: "nat \<Rightarrow> nat \<Rightarrow> u32 \<Rightarrow> vfs \<Rightarrow> (int \<times> vfs) option" where
  "tmpfs_create dir d mode s = do {
     p \<leftarrow> inodes s dir;
     (i, s1) \<leftarrow> tmpfs_alloc_inode (i_sb p) s;
     s2 \<leftarrow> upd_inode i (\<lambda>x. x\<lparr>i_private := Tmpfs_File [], i_mode := mode OR S_IFREG, i_size := 0, i_count := 1,
                               i_atime := now s, i_mtime := now s, i_ctime := now s\<rparr>) s1;
     s3 \<leftarrow> upd_dentry d (d_inode_update (\<lambda>_. Some i)) s2;
     x \<leftarrow> dentries s3 d;
     s4 \<leftarrow> tmpfs_add_entry dir i 1 (d_name x) s3;
     Some (0, s4) }"

definition tmpfs_mkdir :: "nat \<Rightarrow> nat \<Rightarrow> u32 \<Rightarrow> vfs \<Rightarrow> (int \<times> vfs) option" where
  "tmpfs_mkdir dir d mode s = do {
     p \<leftarrow> inodes s dir;
     (i, s1) \<leftarrow> tmpfs_alloc_inode (i_sb p) s;
     s2 \<leftarrow> upd_inode i (\<lambda>x. x\<lparr>i_private := Tmpfs_Dir [], i_mode := mode OR S_IFDIR,
                               i_atime := now s, i_mtime := now s, i_ctime := now s\<rparr>) s1;
     s3 \<leftarrow> upd_dentry d (d_inode_update (\<lambda>_. Some i)) s2;
     x \<leftarrow> dentries s3 d;
     s4 \<leftarrow> tmpfs_add_entry dir i 2 (d_name x) s3;
     Some (0, s4) }"

definition tmpfs_rmdir :: "nat \<Rightarrow> nat \<Rightarrow> vfs \<Rightarrow> (int \<times> vfs) option" where
  "tmpfs_rmdir dir d s = do {
     x \<leftarrow> dentries s d;
     i \<leftarrow> d_inode x;
     es \<leftarrow> tmpfs_dir i s;
     (if es \<noteq> [] then Some (- ENOTEMPTY, s)
      else do {
        s1 \<leftarrow> tmpfs_remove_entry dir i (d_name x) s;
        s2 \<leftarrow> upd_inode i (i_nlink_update (\<lambda>n. n - 1)) s1;
        y \<leftarrow> inodes s2 i;
        s3 \<leftarrow> (if i_nlink y = 0 then tmpfs_destroy_inode i s2 else Some s2);
        Some (0, s3) }) }"

definition tmpfs_link :: "nat \<Rightarrow> nat \<Rightarrow> nat \<Rightarrow> vfs \<Rightarrow> (int \<times> vfs) option" where
  "tmpfs_link old_d dir new_d s = do {
     x \<leftarrow> dentries s old_d;
     i \<leftarrow> d_inode x;
     y \<leftarrow> inodes s i;
     (if S_ISDIR (i_mode y) then Some (- EPERM, s)
      else do {
        s1 \<leftarrow> iget i s;
        s2 \<leftarrow> upd_inode i (i_nlink_update (\<lambda>n. n + 1)) s1;
        s3 \<leftarrow> upd_dentry new_d (d_inode_update (\<lambda>_. Some i)) s2;
        z \<leftarrow> dentries s3 new_d;
        s4 \<leftarrow> tmpfs_add_entry dir i 1 (d_name z) s3;
        Some (0, s4) }) }"

definition tmpfs_unlink :: "nat \<Rightarrow> nat \<Rightarrow> vfs \<Rightarrow> (int \<times> vfs) option" where
  "tmpfs_unlink dir d s = do {
     x \<leftarrow> dentries s d;
     i \<leftarrow> d_inode x;
     s1 \<leftarrow> tmpfs_remove_entry dir i (d_name x) s;
     s2 \<leftarrow> upd_inode i (i_nlink_update (\<lambda>n. n - 1)) s1;
     Some (0, s2) }"

definition tmpfs_symlink :: "nat \<Rightarrow> nat \<Rightarrow> u8 list \<Rightarrow> vfs \<Rightarrow> (int \<times> vfs) option" where
  "tmpfs_symlink dir d target s = do {
     p \<leftarrow> inodes s dir;
     (i, s1) \<leftarrow> tmpfs_alloc_inode (i_sb p) s;
     s2 \<leftarrow> upd_inode i (\<lambda>x. x\<lparr>i_private := Tmpfs_File (target @ [0]), i_mode := S_IFLNK OR 0x1FF,
                               i_size := length target, i_count := 1,
                               i_atime := now s, i_mtime := now s, i_ctime := now s\<rparr>) s1;
     s3 \<leftarrow> upd_dentry d (d_inode_update (\<lambda>_. Some i)) s2;
     x \<leftarrow> dentries s3 d;
     s4 \<leftarrow> tmpfs_add_entry dir i 3 (d_name x) s3;
     Some (0, s4) }"

text \<open>The return value and the bytes copied to user space, where the copy may fail.\<close>

definition tmpfs_readlink :: "bool \<Rightarrow> nat \<Rightarrow> int \<Rightarrow> vfs \<Rightarrow> (int \<times> u8 list) option" where
  "tmpfs_readlink copy_ok d bufsize s = do {
     x \<leftarrow> dentries s d;
     i \<leftarrow> d_inode x;
     y \<leftarrow> inodes s i;
     bs \<leftarrow> tmpfs_file i s;
     (if bufsize < 0 then Some (- EINVAL, [])
      else if nat bufsize < i_size y + 1 then Some (- EFAULT, [])
      else do {
        out \<leftarrow> mem_read bs 0 (i_size y + 1);
        Some (if copy_ok then (int (i_size y), out) else (- EFAULT, [])) }) }"

definition tmpfs_get_link :: "nat \<Rightarrow> vfs \<Rightarrow> u8 list option" where
  "tmpfs_get_link i s = map_option cstr (tmpfs_file i s)"

text \<open>\<open>tmpfs_init\<close>: a new root for the superblock.\<close>

definition tmpfs_init :: "nat \<Rightarrow> vfs \<Rightarrow> (nat \<times> vfs) option" where
  "tmpfs_init sb s = do {
     (i, s1) \<leftarrow> tmpfs_alloc_inode sb s;
     s2 \<leftarrow> upd_inode i (\<lambda>x. x\<lparr>i_private := Tmpfs_Dir [], i_mode := S_IFDIR OR 0x1C0\<rparr>) s1;
     Some (next_dentry s2,
       s2\<lparr>dentries := (dentries s2)(next_dentry s2 :=
             Some \<lparr>d_count = 1, d_parent = None, d_name = [], d_inode = Some i, d_sb = sb,
                   d_children = [], d_mount = None\<rparr>),
          next_dentry := next_dentry s2 + 1\<rparr>) }"

section \<open>Operations on tmpfs files\<close>

text \<open>
  The loop of \<open>tmpfs_read\<close>, which reads at most \<open>cnt\<close> bytes and stops at a byte 0.  It does not look for the
  end of the block: there the result is None.
\<close>

fun read_bytes :: "u8 list \<Rightarrow> nat \<Rightarrow> u8 list option" where
  "read_bytes [] cnt = (if cnt = 0 then Some [] else None)"
| "read_bytes (c # data) cnt = (if cnt = 0 \<or> c = 0 then Some [] else map_option ((#) c) (read_bytes data (cnt - 1)))"

text \<open>Reading from \<open>pos\<close>: the sum \<open>f_pos + cnt\<close> has 64 bits and wraps, as does the difference.\<close>

definition tmpfs_read :: "nat \<Rightarrow> nat \<Rightarrow> nat \<Rightarrow> vfs \<Rightarrow> u8 list option" where
  "tmpfs_read i pos cnt s = do {
     y \<leftarrow> inodes s i;
     bs \<leftarrow> tmpfs_file i s;
     read_bytes (drop pos bs)
       (if (pos + cnt) mod 2 ^ 64 > i_size y then (i_size y + 2 ^ 64 - pos) mod 2 ^ 64 else cnt) }"

text \<open>
  Writing: a gap behind the old end is filled with what the block held before, \<open>junk\<close>.  The new size is a sum of
  64 bits as well; a block that is then too short for the bytes makes the \<open>memcpy\<close> fault.
  \<open>krealloc\<close> is taken to succeed.
\<close>

definition tmpfs_write :: "(nat \<Rightarrow> u8) \<Rightarrow> nat \<Rightarrow> nat \<Rightarrow> u8 list \<Rightarrow> vfs \<Rightarrow> (nat \<times> vfs) option" where
  "tmpfs_write junk i pos buf s = do {
     y \<leftarrow> inodes s i;
     bs \<leftarrow> tmpfs_file i s;
     (let cnt = length buf;
          e = (pos + cnt) mod 2 ^ 64;
          bs1 = (if e > i_size y then bs @ map junk [length bs..<e] else bs) in
      do {
        bs2 \<leftarrow> mem_write bs1 pos buf;
        s1 \<leftarrow> upd_inode i (\<lambda>x. x\<lparr>i_private := Tmpfs_File bs2,
                                  i_size := (if e > i_size y then e else i_size y)\<rparr>) s;
        Some (cnt, s1) }) }"

text \<open>Reading a directory: the entries from position \<open>pos\<close> of the entries that have an inode.\<close>

record vfs_dirent =
  de_ino :: nat
  de_off :: nat
  de_name :: "u8 list"
  de_dir :: bool

fun tmpfs_readdir_loop :: "nat \<Rightarrow> nat \<Rightarrow> nat \<Rightarrow> tmpfs_entry list \<Rightarrow> vfs \<Rightarrow> vfs_dirent list option" where
  "tmpfs_readdir_loop num k pos es s =
     (case (k, es) of
        (0, _) \<Rightarrow> Some []
      | (Suc k1, es) \<Rightarrow>
          (if pos < num
           then (case es of
                   [] \<Rightarrow> None
                 | e # es1 \<Rightarrow> do {
                     y \<leftarrow> inodes s (e_inode e);
                     ds \<leftarrow> tmpfs_readdir_loop num k1 (pos + 1) es1 s;
                     Some (\<lparr>de_ino = i_ino y, de_off = pos, de_name = e_name e, de_dir = S_ISDIR (i_mode y)\<rparr> # ds) })
           else Some []))"

definition tmpfs_readdir :: "nat \<Rightarrow> nat \<Rightarrow> nat \<Rightarrow> vfs \<Rightarrow> vfs_dirent list option" where
  "tmpfs_readdir i pos count s = do {
     es \<leftarrow> tmpfs_dir i s;
     tmpfs_readdir_loop (length es) count pos es s }"

end
