(* ===== verification/Namespace.thy ===== *)
theory Namespace imports Tmpfs begin

text \<open>
  The name space: the cache of dentries, path lookup (\<open>fs/dcache.c\<close>), and the operations of
  \<open>fs/vfs.c\<close> and \<open>fs/mount.c\<close> on paths.

  Every inode has the operations of its file system: those of tmpfs, or the ones the argument
  \<open>fat\<close> stands for.  A path is the string in a buffer.  The operations return an error (\<open>Inl\<close>) or a
  dentry; \<open>cwd\<close> is the current directory of the caller.  Locks are not modelled.
\<close>

record iops =
  op_lookup :: "nat \<Rightarrow> nat \<Rightarrow> vfs \<Rightarrow> (ptr \<times> vfs) option"
  op_create :: "nat \<Rightarrow> nat \<Rightarrow> u32 \<Rightarrow> vfs \<Rightarrow> (int \<times> vfs) option"
  op_mkdir :: "(nat \<Rightarrow> nat \<Rightarrow> u32 \<Rightarrow> vfs \<Rightarrow> (int \<times> vfs) option) option"
  op_rmdir :: "(nat \<Rightarrow> nat \<Rightarrow> vfs \<Rightarrow> (int \<times> vfs) option) option"
  op_link :: "(nat \<Rightarrow> nat \<Rightarrow> nat \<Rightarrow> vfs \<Rightarrow> (int \<times> vfs) option) option"
  op_unlink :: "(nat \<Rightarrow> nat \<Rightarrow> vfs \<Rightarrow> (int \<times> vfs) option) option"
  op_symlink :: "(nat \<Rightarrow> nat \<Rightarrow> u8 list \<Rightarrow> vfs \<Rightarrow> (int \<times> vfs) option) option"
  op_readlink :: "(bool \<Rightarrow> nat \<Rightarrow> int \<Rightarrow> vfs \<Rightarrow> (int \<times> u8 list) option) option"
  op_open :: "nat \<Rightarrow> vfs \<Rightarrow> int"

definition tmpfs_iops :: iops where
  "tmpfs_iops = \<lparr>op_lookup = tmpfs_lookup, op_create = tmpfs_create, op_mkdir = Some tmpfs_mkdir,
     op_rmdir = Some tmpfs_rmdir, op_link = Some tmpfs_link, op_unlink = Some tmpfs_unlink,
     op_symlink = Some tmpfs_symlink, op_readlink = Some tmpfs_readlink, op_open = (\<lambda>_ _. 0)\<rparr>"

definition i_op :: "iops \<Rightarrow> inode \<Rightarrow> vfs \<Rightarrow> iops" where
  "i_op fat y s = (if s_type s (i_sb y) = TMPFS then tmpfs_iops else fat)"

section \<open>Lookup\<close>

fun find_child :: "u8 list \<Rightarrow> nat list \<Rightarrow> vfs \<Rightarrow> nat option option" where
  "find_child name [] s = Some None"
| "find_child name (c # cs) s = do {
     x \<leftarrow> dentries s c;
     (if d_name x = name then Some (Some c) else find_child name cs s) }"

text \<open>The name is turned to capitals in place on an MSDOS volume: the result has the name too.\<close>

definition dlookup :: "nat \<Rightarrow> u8 list \<Rightarrow> vfs \<Rightarrow> (nat option \<times> u8 list \<times> vfs) option" where
  "dlookup p name s = do {
     x \<leftarrow> dentries s p;
     (let nm = (if s_type s (d_sb x) = MSDOS then map toupper name else name) in do {
        r \<leftarrow> find_child nm (d_children x) s;
        (case r of
           None \<Rightarrow> Some (None, nm, s)
         | Some c \<Rightarrow> map_option (\<lambda>s1. (Some c, nm, s1)) (dget c s)) }) }"

text \<open>
  A lookup failed if \<open>PTR_ERR\<close> of what it returned is negative, as it is for a pointer to an object, too
  (the addresses of the kernel are in the upper half).  In that case the freed dentry is returned
  as the result.
\<close>

definition lookup_failed :: "ptr \<Rightarrow> bool" where
  "lookup_failed q \<longleftrightarrow> (case q of Err_Ptr e \<Rightarrow> e < 0 | Null_Ptr \<Rightarrow> False | Obj_Ptr _ \<Rightarrow> True)"

text \<open>One name: the error, or the dentry and whether the walk ends there, at a negative dentry.\<close>

definition lookup_name :: "iops \<Rightarrow> nat \<Rightarrow> u8 list \<Rightarrow> vfs \<Rightarrow> ((int + nat \<times> bool) \<times> vfs) option" where
  "lookup_name fat p name s = do {
     (r, nm, s1) \<leftarrow> dlookup p name s;
     (case r of
        None \<Rightarrow> do {
          (d, s2) \<leftarrow> alloc_dentry p nm s1;
          x \<leftarrow> dentries s2 p;
          i \<leftarrow> d_inode x;
          y \<leftarrow> inodes s2 i;
          (if \<not> S_ISDIR (i_mode y) then Some (Inl (- ENOTDIR), destroy_dentry d s2)
           else do {
             (q, s3) \<leftarrow> op_lookup (i_op fat y s2) i d s2;
             (if lookup_failed q
              then (case q of Err_Ptr e \<Rightarrow> Some (Inl e, destroy_dentry d s3) | _ \<Rightarrow> None)
              else do {
                s4 \<leftarrow> dcache_add d s3;
                z \<leftarrow> dentries s4 d;
                Some (Inr (d, d_inode z = None), s4) }) }) }
      | Some c \<Rightarrow> do {
          z \<leftarrow> dentries s1 c;
          (if d_inode z = None then Some (Inr (c, True), s1)
           else (case d_mount z of
                   None \<Rightarrow> Some (Inr (c, False), s1)
                 | Some m \<Rightarrow> map_option (\<lambda>r. (Inr (r, False), s1)) (mnt_root s1 m))) }) }"

function lookup_path_from :: "iops \<Rightarrow> nat \<Rightarrow> u8 list \<Rightarrow> vfs \<Rightarrow> ((int + nat) \<times> vfs) option" where
  "lookup_path_from fat p path s =
     (case next_path_component path of
        None \<Rightarrow> Some (Inr p, s)
      | Some (name, rest) \<Rightarrow> do {
          x \<leftarrow> dentries s p;
          (if name = [dot] then lookup_path_from fat p rest s
           else if name = [dot, dot]
           then lookup_path_from fat (case d_parent x of None \<Rightarrow> p | Some q \<Rightarrow> q) rest s
           else do {
             (r, s1) \<leftarrow> lookup_name fat p name s;
             (case r of
                Inl e \<Rightarrow> Some (Inl e, s1)
              | Inr (d, stop) \<Rightarrow> if stop then Some (Inr d, s1) else lookup_path_from fat d rest s1) }) })"
  by pat_completeness auto
termination
  by (relation "measure (\<lambda>(fat, p, path, s). length path)") (auto dest: next_path_component_shorter)

declare lookup_path_from.simps [simp del]

definition lookup_path :: "iops \<Rightarrow> u8 list \<Rightarrow> vfs \<Rightarrow> ((int + nat) \<times> vfs) option" where
  "lookup_path fat path s =
     (if path = [slash] then Some (Inr (root_dentry s), s) else lookup_path_from fat (root_dentry s) path s)"

definition vfs_lookup :: "iops \<Rightarrow> nat \<Rightarrow> u8 list \<Rightarrow> vfs \<Rightarrow> ((int + nat) \<times> vfs) option" where
  "vfs_lookup fat cwd path s =
     (if path = [] then Some (Inl (- ENOENT), s)
      else
        (let start = (if path ! 0 \<noteq> slash then cwd else root_dentry s) in
         if path = [dot] then Some (Inr start, s)
         else if path = [slash] then Some (Inr (root_dentry s), s)
         else lookup_path_from fat start path s))"

section \<open>Opening\<close>

abbreviation O_ACCMODE :: u32 where "O_ACCMODE \<equiv> 3"
abbreviation O_CREAT :: u32 where "O_CREAT \<equiv> 0x200"
abbreviation O_TRUNC :: u32 where "O_TRUNC \<equiv> 0x400"
abbreviation O_EXCL :: u32 where "O_EXCL \<equiv> 0x800"
abbreviation O_NOCTTY :: u32 where "O_NOCTTY \<equiv> 0x8000"
abbreviation O_DIRECTORY :: u32 where "O_DIRECTORY \<equiv> 0x200000"

definition create_file_at :: "iops \<Rightarrow> nat \<Rightarrow> u32 \<Rightarrow> vfs \<Rightarrow> (int \<times> vfs) option" where
  "create_file_at fat d mode s = do {
     x \<leftarrow> dentries s d;
     p \<leftarrow> d_parent x;
     z \<leftarrow> dentries s p;
     i \<leftarrow> d_inode z;
     y \<leftarrow> inodes s i;
     op_create (i_op fat y s) i d mode s }"

text \<open>The result of a successful open: the dentry, whose count goes up, and the mode of the file.\<close>

definition vfs_open :: "iops \<Rightarrow> nat \<Rightarrow> u8 list \<Rightarrow> u32 \<Rightarrow> u32 \<Rightarrow> vfs \<Rightarrow> ((int + nat \<times> u32) \<times> vfs) option" where
  "vfs_open fat cwd path flags mode s = do {
     (r, s1) \<leftarrow> vfs_lookup fat cwd path s;
     (case r of
        Inl e \<Rightarrow> Some (Inl e, s1)
      | Inr d \<Rightarrow> do {
          x \<leftarrow> dentries s1 d;
          (err, s2) \<leftarrow>
            (if d_inode x = None
             then (if flags AND O_CREAT \<noteq> 0 then create_file_at fat d mode s1 else Some (- ENOENT, s1))
             else Some (if flags AND O_CREAT \<noteq> 0 \<and> flags AND O_EXCL \<noteq> 0 then - EEXIST else 0, s1));
          (if err < 0 then Some (Inl err, s2)
           else do {
             z \<leftarrow> dentries s2 d;
             i \<leftarrow> d_inode z;
             y \<leftarrow> inodes s2 i;
             (if S_ISDIR (i_mode y) \<and> flags AND O_ACCMODE \<noteq> 0 then Some (Inl (- EISDIR), s2)
              else if \<not> S_ISDIR (i_mode y) \<and> flags AND O_DIRECTORY \<noteq> 0 then Some (Inl (- ENOTDIR), s2)
              else do {
                s3 \<leftarrow> dget d s2;
                (let e = op_open (i_op fat y s3) i s3 in
                 if e < 0 then map_option (\<lambda>s4. (Inl e, s4)) (dput d s3)
                 else Some (Inr (d, flags OR (flags AND NOT (O_CREAT OR O_EXCL OR O_NOCTTY OR O_TRUNC))), s3)) }) }) }) }"

section \<open>Directories\<close>

text \<open>A name that does not fit leaves the buffer of the directory unset.\<close>

definition get_parent_dentry :: "iops \<Rightarrow> nat \<Rightarrow> u8 list \<Rightarrow> nat option \<Rightarrow> vfs \<Rightarrow> ((int + nat) \<times> vfs) option" where
  "get_parent_dentry fat cwd buf start s = do {
     (e, bs) \<leftarrow> get_dirname buf PATH_MAX;
     (if e \<noteq> 0 then None
      else (case start of
              None \<Rightarrow> vfs_lookup fat cwd (cstr bs) s
            | Some d \<Rightarrow> lookup_path_from fat d (cstr bs) s)) }"

definition vfs_do_mkdir :: "iops \<Rightarrow> nat \<Rightarrow> u8 list \<Rightarrow> u32 \<Rightarrow> vfs \<Rightarrow> (int \<times> vfs) option" where
  "vfs_do_mkdir fat p name mode s = do {
     x \<leftarrow> dentries s p;
     (case d_inode x of
        None \<Rightarrow> Some (- ENOENT, s)
      | Some i \<Rightarrow> do {
          y \<leftarrow> inodes s i;
          (if \<not> S_ISDIR (i_mode y) then Some (- ENOTDIR, s)
           else (case op_mkdir (i_op fat y s) of
                   None \<Rightarrow> Some (- EPERM, s)
                 | Some mkdir \<Rightarrow> do {
                     (d, s1) \<leftarrow> alloc_dentry p name s;
                     (err, s2) \<leftarrow> mkdir i d mode s1;
                     (if err < 0 then Some (err, destroy_dentry d s2)
                      else map_option (\<lambda>s3. (0, s3)) (dcache_add d s2)) })) }) }"

definition vfs_mkdir :: "iops \<Rightarrow> nat \<Rightarrow> u8 list \<Rightarrow> u32 \<Rightarrow> vfs \<Rightarrow> (int \<times> vfs) option" where
  "vfs_mkdir fat cwd buf mode s = do {
     (r, s1) \<leftarrow> get_parent_dentry fat cwd buf None s;
     (case r of
        Inl e \<Rightarrow> Some (e, s1)
      | Inr p \<Rightarrow> do {
          (e, bs) \<leftarrow> get_basename buf NAME_MAX;
          (if e \<noteq> 0 then Some (e, s1) else vfs_do_mkdir fat p (cstr bs) mode s1) }) }"

text \<open>The error of \<open>get_basename\<close> is not looked at: the name is then what the stack held.\<close>

definition vfs_mkdirat :: "iops \<Rightarrow> nat \<Rightarrow> nat \<Rightarrow> u8 list \<Rightarrow> u32 \<Rightarrow> vfs \<Rightarrow> (int \<times> vfs) option" where
  "vfs_mkdirat fat cwd dir buf mode s = do {
     (r, s1) \<leftarrow> get_parent_dentry fat cwd buf (Some dir) s;
     (case r of
        Inl e \<Rightarrow> Some (e, s1)
      | Inr p \<Rightarrow> do {
          (e, bs) \<leftarrow> get_basename buf NAME_MAX;
          (if e \<noteq> 0 then None else vfs_do_mkdir fat p (cstr bs) mode s1) }) }"

definition sys_mkdirat :: "iops \<Rightarrow> nat \<Rightarrow> (int + nat) \<Rightarrow> u8 list \<Rightarrow> u32 \<Rightarrow> vfs \<Rightarrow> (int \<times> vfs) option" where
  "sys_mkdirat fat cwd handle buf mode s =
     (if is_absolute_path buf then vfs_mkdir fat cwd buf mode s
      else (case handle of Inl e \<Rightarrow> Some (e, s) | Inr dir \<Rightarrow> vfs_mkdirat fat cwd dir buf mode s))"

definition vfs_create :: "iops \<Rightarrow> u8 list \<Rightarrow> u32 \<Rightarrow> vfs \<Rightarrow> (int \<times> vfs) option" where
  "vfs_create fat buf mode s = do {
     (e1, dir) \<leftarrow> get_dirname buf 64;
     (e2, base) \<leftarrow> get_basename buf 16;
     (if e1 \<noteq> 0 \<or> e2 \<noteq> 0 then None
      else do {
        (r, s1) \<leftarrow> lookup_path fat (cstr dir) s;
        (case r of
           Inl e \<Rightarrow> Some (e, s1)
         | Inr p \<Rightarrow> do {
             x \<leftarrow> dentries s1 p;
             (case d_inode x of
                None \<Rightarrow> Some (- ENOENT, s1)
              | Some i \<Rightarrow> do {
                  (d, s2) \<leftarrow> alloc_dentry p (cstr base) s1;
                  s3 \<leftarrow> dcache_add d s2;
                  y \<leftarrow> inodes s3 i;
                  op_create (i_op fat y s3) i d mode s3 }) }) }) }"

section \<open>Removing and linking\<close>

text \<open>The inode of the directory a dentry is in; the root has none.\<close>

definition dir_of :: "nat \<Rightarrow> vfs \<Rightarrow> nat option option" where
  "dir_of d s = do { x \<leftarrow> dentries s d; p \<leftarrow> d_parent x; z \<leftarrow> dentries s p; Some (d_inode z) }"

definition vfs_rmdir :: "iops \<Rightarrow> nat \<Rightarrow> u8 list \<Rightarrow> vfs \<Rightarrow> (int \<times> vfs) option" where
  "vfs_rmdir fat cwd path s = do {
     (r, s1) \<leftarrow> vfs_lookup fat cwd path s;
     (case r of
        Inl e \<Rightarrow> Some (e, s1)
      | Inr d \<Rightarrow> do {
          dir \<leftarrow> dir_of d s1;
          i \<leftarrow> dir;
          y \<leftarrow> inodes s1 i;
          x \<leftarrow> dentries s1 d;
          (case op_rmdir (i_op fat y s1) of
             None \<Rightarrow> Some (- EPERM, s1)
           | Some rmdir \<Rightarrow>
               (case d_inode x of
                  None \<Rightarrow> Some (- ENOENT, s1)
                | Some j \<Rightarrow> do {
                    z \<leftarrow> inodes s1 j;
                    (if \<not> S_ISDIR (i_mode z) then Some (- ENOTDIR, s1) else rmdir i d s1) })) }) }"

definition vfs_unlink :: "iops \<Rightarrow> nat \<Rightarrow> u8 list \<Rightarrow> vfs \<Rightarrow> (int \<times> vfs) option" where
  "vfs_unlink fat cwd path s = do {
     (r, s1) \<leftarrow> vfs_lookup fat cwd path s;
     (case r of
        Inl e \<Rightarrow> Some (e, s1)
      | Inr d \<Rightarrow> do {
          dir \<leftarrow> dir_of d s1;
          x \<leftarrow> dentries s1 d;
          (case d_inode x of
             None \<Rightarrow> Some (- ENOENT, s1)
           | Some j \<Rightarrow> do {
               z \<leftarrow> inodes s1 j;
               (if S_ISDIR (i_mode z) then Some (- EISDIR, s1)
                else do {
                  i \<leftarrow> dir;
                  y \<leftarrow> inodes s1 i;
                  (case op_unlink (i_op fat y s1) of None \<Rightarrow> Some (- EPERM, s1) | Some unlink \<Rightarrow> unlink i d s1) }) }) }) }"

definition vfs_link :: "iops \<Rightarrow> nat \<Rightarrow> u8 list \<Rightarrow> u8 list \<Rightarrow> vfs \<Rightarrow> (int \<times> vfs) option" where
  "vfs_link fat cwd oldpath newpath s = do {
     (r, s1) \<leftarrow> vfs_lookup fat cwd oldpath s;
     (case r of
        Inl e \<Rightarrow> Some (e, s1)
      | Inr d \<Rightarrow> do {
          x \<leftarrow> dentries s1 d;
          (case d_inode x of
             None \<Rightarrow> Some (- ENOENT, s1)
           | Some j \<Rightarrow> do {
               z \<leftarrow> inodes s1 j;
               (if \<not> S_ISREG (i_mode z) then Some (- EPERM, s1)
                else do {
                  (r2, s2) \<leftarrow> vfs_lookup fat cwd newpath s1;
                  (case r2 of
                     Inl e \<Rightarrow> Some (e, s2)
                   | Inr n \<Rightarrow> do {
                       w \<leftarrow> dentries s2 n;
                       (if d_inode w \<noteq> None then Some (- EEXIST, s2)
                        else do {
                          dir \<leftarrow> dir_of n s2;
                          (case dir of
                             None \<Rightarrow> Some (- ENOENT, s2)
                           | Some i \<Rightarrow> do {
                               y \<leftarrow> inodes s2 i;
                               (case op_link (i_op fat y s2) of None \<Rightarrow> Some (- EPERM, s2)
                                | Some link \<Rightarrow> link d i n s2) }) }) }) }) }) }) }"

definition vfs_symlink :: "iops \<Rightarrow> nat \<Rightarrow> u8 list \<Rightarrow> u8 list \<Rightarrow> vfs \<Rightarrow> (int \<times> vfs) option" where
  "vfs_symlink fat cwd target linkpath s = do {
     (r, s1) \<leftarrow> vfs_lookup fat cwd linkpath s;
     (case r of
        Inl e \<Rightarrow> Some (e, s1)
      | Inr d \<Rightarrow> do {
          dir \<leftarrow> dir_of d s1;
          (case dir of
             None \<Rightarrow> Some (- ENOENT, s1)
           | Some i \<Rightarrow> do {
               y \<leftarrow> inodes s1 i;
               (case op_symlink (i_op fat y s1) of None \<Rightarrow> Some (- EPERM, s1)
                | Some symlink \<Rightarrow> symlink i d target s1) }) }) }"

definition sys_readlink :: "iops \<Rightarrow> nat \<Rightarrow> bool \<Rightarrow> bool \<Rightarrow> u8 list \<Rightarrow> int \<Rightarrow> vfs \<Rightarrow> ((int \<times> u8 list) \<times> vfs) option" where
  "sys_readlink fat cwd buf_ok copy_ok path bufsize s =
     (if \<not> buf_ok then Some ((- EFAULT, []), s)
      else do {
        (r, s1) \<leftarrow> vfs_lookup fat cwd path s;
        (case r of
           Inl e \<Rightarrow> Some ((e, []), s1)
         | Inr d \<Rightarrow> do {
             x \<leftarrow> dentries s1 d;
             (case d_inode x of
                None \<Rightarrow> Some ((- ENOENT, []), s1)
              | Some i \<Rightarrow> do {
                  y \<leftarrow> inodes s1 i;
                  (if \<not> S_ISLNK (i_mode y) then Some ((- EINVAL, []), s1)
                   else (case op_readlink (i_op fat y s1) of
                           None \<Rightarrow> Some ((- EINVAL, []), s1)
                         | Some readlink \<Rightarrow> map_option (\<lambda>o1. (o1, s1)) (readlink copy_ok d bufsize s1))) }) }) })"

definition sys_access :: "iops \<Rightarrow> nat \<Rightarrow> u32 \<Rightarrow> u8 list \<Rightarrow> vfs \<Rightarrow> (int \<times> vfs) option" where
  "sys_access fat cwd mode path s =
     (if mode AND NOT 7 \<noteq> 0 then Some (- EINVAL, s)
      else do {
        (r, s1) \<leftarrow> vfs_lookup fat cwd path s;
        (case r of
           Inl e \<Rightarrow> Some (e, s1)
         | Inr d \<Rightarrow> do { x \<leftarrow> dentries s1 d; Some (if d_inode x = None then - ENOENT else 0, s1) }) })"

section \<open>The path of a dentry\<close>

text \<open>
  \<open>build_absolute_path\<close>, with the cut that \<open>snprintf\<close> makes.  The loop follows the parents
  up to the root directory of the caller, or to the top; the fuel bounds the number of parents.
\<close>

fun build_path_loop :: "nat \<Rightarrow> nat \<Rightarrow> nat option \<Rightarrow> u8 list \<Rightarrow> vfs \<Rightarrow> u8 list option" where
  "build_path_loop 0 root_d cur buf s = None"
| "build_path_loop (Suc n) root_d cur buf s =
     (case cur of
        None \<Rightarrow> Some buf
      | Some d \<Rightarrow>
          (if d = root_d then Some (take (PATH_MAX - 1) (slash # buf))
           else do {
             x \<leftarrow> dentries s d;
             build_path_loop n root_d (d_parent x) (take (PATH_MAX - 1) (d_name x @ slash # buf)) s }))"

definition build_absolute_path :: "nat \<Rightarrow> nat \<Rightarrow> nat \<Rightarrow> vfs \<Rightarrow> u8 list option" where
  "build_absolute_path n root_d d s =
     (if d = root_dentry s then Some [slash]
      else do { x \<leftarrow> dentries s d; build_path_loop n root_d (d_parent x) (d_name x) s })"

definition sys_getcwd :: "nat \<Rightarrow> nat \<Rightarrow> nat \<Rightarrow> bool \<Rightarrow> nat \<Rightarrow> bool \<Rightarrow> vfs \<Rightarrow> (int \<times> u8 list) option" where
  "sys_getcwd n root_d cwd buf_ok size0 copy_ok s =
     (if \<not> buf_ok \<or> size0 = 0 \<or> size0 > 4096 then Some (- EINVAL, [])
      else do {
        path \<leftarrow> build_absolute_path n root_d cwd s;
        Some (if length path \<ge> size0 then (- ERANGE, [])
              else if copy_ok then (int (length path) + 1, path @ [0]) else (- EFAULT, [])) })"

end
