(* ===== verification/DirCache.thy ===== *)
theory DirCache imports Namespace begin

text \<open>
  The cache of dentries against the directories it caches: what \<open>lookup_path_from\<close> finds is what a
  walk over the entries of the tmpfs directories finds, and making an entry keeps the two in step.
\<close>

section \<open>The tree that the directories describe\<close>

text \<open>
  Without the cache: a position is the list of inodes from the current one up to the root, and a
  walk along names reads the directories.
\<close>

definition dir_entries :: "vfs \<Rightarrow> nat \<Rightarrow> tmpfs_entry list option" where
  "dir_entries s i =
     (case inodes s i of
        None \<Rightarrow> None
      | Some y \<Rightarrow> (case i_private y of Tmpfs_Dir es \<Rightarrow> if S_ISDIR (i_mode y) then Some es else None | _ \<Rightarrow> None))"

definition entry_inode :: "tmpfs_entry list \<Rightarrow> u8 list \<Rightarrow> nat option" where
  "entry_inode es n = map_option e_inode (List.find (\<lambda>e. e_name e = n) es)"

datatype walk_result = Found "nat list" | Missing "nat list" "u8 list" | Not_Dir "nat list"

fun walk :: "vfs \<Rightarrow> nat list \<Rightarrow> u8 list list \<Rightarrow> walk_result" where
  "walk s is [] = Found is"
| "walk s is (n # ns) =
     (if n = [dot] then walk s is ns
      else if n = [dot, dot] then walk s (if tl is = [] then is else tl is) ns
      else (case dir_entries s (hd is) of
              None \<Rightarrow> Not_Dir is
            | Some es \<Rightarrow> (case entry_inode es n of None \<Rightarrow> Missing is n | Some i \<Rightarrow> walk s (i # is) ns)))"

text \<open>The inodes of a dentry and its parents.\<close>

fun trail :: "vfs \<Rightarrow> nat \<Rightarrow> nat list \<Rightarrow> bool" where
  "trail s d [] = False"
| "trail s d (i # is) =
     (case dentries s d of
        None \<Rightarrow> False
      | Some x \<Rightarrow> d_inode x = Some i \<and> (case d_parent x of None \<Rightarrow> is = [] | Some p \<Rightarrow> is \<noteq> [] \<and> trail s p is))"

section \<open>A cache that agrees with the directories\<close>

definition cached_inode :: "vfs \<Rightarrow> dentry \<Rightarrow> u8 list \<Rightarrow> nat option" where
  "cached_inode s x n =
     (case find_child n (d_children x) s of
        Some (Some c) \<Rightarrow> (case dentries s c of Some y \<Rightarrow> d_inode y | None \<Rightarrow> None)
      | _ \<Rightarrow> None)"

definition inode_ok :: "vfs \<Rightarrow> dentry \<Rightarrow> bool" where
  "inode_ok s x \<longleftrightarrow>
     (case d_inode x of
        None \<Rightarrow> d_children x = []
      | Some i \<Rightarrow>
          (\<exists>y. inodes s i = Some y \<and> s_type s (i_sb y) = TMPFS \<and>
             (if S_ISDIR (i_mode y)
              then (\<exists>es. i_private y = Tmpfs_Dir es \<and> (\<forall>n. entry_inode es n = cached_inode s x n))
              else d_children x = [])))"

definition dentry_ok :: "vfs \<Rightarrow> nat \<Rightarrow> dentry \<Rightarrow> bool" where
  "dentry_ok s d x \<longleftrightarrow>
     (\<forall>c \<in> set (d_children x). \<exists>y. dentries s c = Some y \<and> d_parent y = Some d)
     \<and> (\<forall>p. d_parent x = Some p \<longrightarrow>
           (\<exists>z. dentries s p = Some z \<and> d_inode z \<noteq> None
             \<and> (d_inode x = None \<or> find_child (d_name x) (d_children z) s = Some (Some d))))
     \<and> d_mount x = None \<and> s_type s (d_sb x) = TMPFS \<and> inode_ok s x"

definition ns_ok :: "vfs \<Rightarrow> bool" where
  "ns_ok s \<longleftrightarrow> (\<forall>d x. dentries s d = Some x \<longrightarrow> dentry_ok s d x \<and> d < next_dentry s)
     \<and> (\<forall>i y. inodes s i = Some y \<longrightarrow> i < next_inode s)
     \<and> (\<forall>sb. s_inodes s sb \<noteq> [] \<longrightarrow> inodes s (last (s_inodes s sb)) \<noteq> None)
     \<and> (\<forall>d d' x x' i y. dentries s d = Some x \<longrightarrow> dentries s d' = Some x' \<longrightarrow> d_inode x = Some i \<longrightarrow> d_inode x' = Some i
          \<longrightarrow> inodes s i = Some y \<longrightarrow> S_ISDIR (i_mode y) \<longrightarrow> d = d')"

lemma ns_okD:
  assumes "ns_ok s" and "dentries s d = Some x"
  shows "dentry_ok s d x" "d < next_dentry s"
  using assms by (simp_all add: ns_ok_def)

text \<open>What a step may do to the dentries there are: only count and children may change.\<close>

definition same_node :: "dentry \<Rightarrow> dentry \<Rightarrow> bool" where
  "same_node x x' \<longleftrightarrow> d_name x' = d_name x \<and> d_inode x' = d_inode x \<and> d_parent x' = d_parent x
     \<and> d_sb x' = d_sb x \<and> d_mount x' = d_mount x"

definition grows :: "vfs \<Rightarrow> vfs \<Rightarrow> bool" where
  "grows s s' \<longleftrightarrow> (\<forall>d x. dentries s d = Some x \<longrightarrow> (\<exists>x'. dentries s' d = Some x' \<and> same_node x x'))
     \<and> (\<forall>d x x' n c y. dentries s d = Some x \<longrightarrow> dentries s' d = Some x' \<longrightarrow> dentries s c = Some y \<longrightarrow> d_inode y \<noteq> None \<longrightarrow>
          find_child n (d_children x) s = Some (Some c) \<longrightarrow> find_child n (d_children x') s' = Some (Some c))
     \<and> inodes s' = inodes s \<and> s_type s' = s_type s \<and> s_inodes s' = s_inodes s \<and> next_inode s' = next_inode s
     \<and> root_dentry s' = root_dentry s"

lemma find_child_cong:
  "\<forall>c \<in> set cs. map_option d_name (dentries s' c) = map_option d_name (dentries s c) \<Longrightarrow> find_child n cs s' = find_child n cs s"
proof (induction cs)
  case (Cons c cs)
  then show ?case by (cases "dentries s c"; cases "dentries s' c") auto
qed simp

lemma find_child_mono:
  assumes "\<And>d x. dentries s d = Some x \<Longrightarrow> \<exists>x'. dentries s' d = Some x' \<and> d_name x' = d_name x"
  shows "find_child n cs s = Some r \<Longrightarrow> find_child n cs s' = Some r"
proof (induction cs)
  case (Cons c cs)
  then obtain x where x: "dentries s c = Some x" by (auto split: bind_splits)
  then show ?case using Cons assms [OF x] by auto
qed simp

lemma grows_refl: "grows s s"
  by (simp add: grows_def same_node_def)

lemma growsD: "grows s s' \<Longrightarrow> dentries s d = Some x \<Longrightarrow> \<exists>x'. dentries s' d = Some x' \<and> same_node x x'"
  by (simp add: grows_def)

lemma grows_child:
  "grows s s' \<Longrightarrow> dentries s d = Some x \<Longrightarrow> dentries s' d = Some x' \<Longrightarrow> dentries s c = Some y \<Longrightarrow> d_inode y \<noteq> None
   \<Longrightarrow> find_child n (d_children x) s = Some (Some c) \<Longrightarrow> find_child n (d_children x') s' = Some (Some c)"
  unfolding grows_def by blast

lemma grows_same_children:
  assumes n: "\<And>d x. dentries s d = Some x \<Longrightarrow> \<exists>x'. dentries s' d = Some x' \<and> same_node x x' \<and> d_children x' = d_children x"
    and "inodes s' = inodes s" "s_type s' = s_type s" "s_inodes s' = s_inodes s" "next_inode s' = next_inode s" "root_dentry s' = root_dentry s"
  shows "grows s s'"
proof -
  have "find_child m (d_children x') s' = Some (Some c)"
    if q: "dentries s d = Some x" "dentries s' d = Some x'" "find_child m (d_children x) s = Some (Some c)" for d x x' m c
  proof -
    have "\<And>d x. dentries s d = Some x \<Longrightarrow> \<exists>x'. dentries s' d = Some x' \<and> d_name x' = d_name x"
      using n by (force simp: same_node_def)
    from find_child_mono [OF this q(3)] show ?thesis using n [OF q(1)] q(2) by auto
  qed
  then show ?thesis using assms unfolding grows_def by blast
qed

lemma grows_trans:
  assumes "grows s s1" and "grows s1 s2"
  shows "grows s s2"
proof -
  have "\<exists>x'. dentries s2 d = Some x' \<and> same_node x x'" if x: "dentries s d = Some x" for d x
  proof -
    obtain x1 where x1: "dentries s1 d = Some x1" "same_node x x1" using growsD [OF assms(1) x] by blast
    obtain x2 where "dentries s2 d = Some x2" "same_node x1 x2" using growsD [OF assms(2) x1(1)] by blast
    then show ?thesis using x1(2) by (simp add: same_node_def)
  qed
  moreover have "find_child n (d_children x') s2 = Some (Some c)"
    if q: "dentries s d = Some x" "dentries s2 d = Some x'" "dentries s c = Some y" "d_inode y \<noteq> None"
        "find_child n (d_children x) s = Some (Some c)" for d x x' n c y
  proof -
    obtain x1 where x1: "dentries s1 d = Some x1" using growsD [OF assms(1) q(1)] by blast
    obtain y1 where y1: "dentries s1 c = Some y1" "d_inode y1 \<noteq> None"
      using growsD [OF assms(1) q(3)] q(4) by (auto simp: same_node_def)
    show ?thesis by (rule grows_child [OF assms(2) x1 q(2) y1 grows_child [OF assms(1) q(1) x1 q(3-5)]])
  qed
  ultimately show ?thesis using assms unfolding grows_def by force
qed

lemma grows_trail: "grows s s' \<Longrightarrow> trail s d is \<Longrightarrow> trail s' d is"
proof (induction "is" arbitrary: d)
  case (Cons i "is")
  obtain x where x: "dentries s d = Some x" using Cons.prems(2) by (auto split: option.splits)
  obtain x' where x': "dentries s' d = Some x'" "same_node x x'" using growsD [OF Cons.prems(1) x] by blast
  show ?case using Cons x x' by (auto simp: same_node_def split: option.splits)
qed simp

lemma grows_dir_entries: "grows s s' \<Longrightarrow> dir_entries s' = dir_entries s"
  by (auto simp: grows_def dir_entries_def fun_eq_iff)

lemma find_child_total:
  "\<forall>c \<in> set cs. dentries s c \<noteq> None \<Longrightarrow>
   (find_child n cs s = Some None \<and> (\<forall>c \<in> set cs. \<forall>y. dentries s c = Some y \<longrightarrow> d_name y \<noteq> n))
   \<or> (\<exists>c y. find_child n cs s = Some (Some c) \<and> c \<in> set cs \<and> dentries s c = Some y \<and> d_name y = n)"
proof (induction cs)
  case (Cons c cs)
  then obtain y where "dentries s c = Some y" by auto
  then show ?case using Cons by (cases "d_name y = n") auto
qed simp

lemma cached_inode_cong:
  assumes "d_children x' = d_children x"
    and "\<forall>c \<in> set (d_children x). map_option d_name (dentries s' c) = map_option d_name (dentries s c)
           \<and> map_option d_inode (dentries s' c) = map_option d_inode (dentries s c)"
  shows "cached_inode s' x' n = cached_inode s x n"
proof -
  have f: "find_child n (d_children x) s' = find_child n (d_children x) s" using assms(2) by (intro find_child_cong) blast
  have m: "find_child n cs s = Some (Some c) \<Longrightarrow> c \<in> set cs" for cs c
    by (induction cs) (auto split: bind_splits if_splits)
  show ?thesis unfolding cached_inode_def assms(1) f
    using assms(2) m by (fastforce split: option.splits)
qed

lemma grows_cached:
  assumes "grows s s'" and "\<forall>c \<in> set (d_children x). dentries s c \<noteq> None" and "d_children x' = d_children x"
  shows "cached_inode s' x' n = cached_inode s x n"
proof (rule cached_inode_cong [OF assms(3)], rule ballI)
  fix c assume "c \<in> set (d_children x)"
  then obtain y where y: "dentries s c = Some y" using assms(2) by auto
  then show "map_option d_name (dentries s' c) = map_option d_name (dentries s c)
      \<and> map_option d_inode (dentries s' c) = map_option d_inode (dentries s c)"
    using growsD [OF assms(1) y] by (auto simp: same_node_def)
qed

text \<open>A dentry whose children stay the same stays all right.\<close>

lemma dentry_ok_grows:
  assumes g: "grows s s'" and x: "dentries s d = Some x" and ok: "dentry_ok s d x" and x': "same_node x x'" "d_children x' = d_children x"
  shows "dentry_ok s' d x'"
proof -
  have ch: "\<forall>c \<in> set (d_children x). dentries s c \<noteq> None" using ok by (auto simp: dentry_ok_def)
  note C = grows_cached [OF g ch x'(2)]
  have "\<forall>c \<in> set (d_children x'). \<exists>y. dentries s' c = Some y \<and> d_parent y = Some d"
    using ok growsD [OF g] unfolding dentry_ok_def x'(2) same_node_def by (metis (no_types, lifting))
  moreover have "\<forall>p. d_parent x' = Some p \<longrightarrow>
      (\<exists>z. dentries s' p = Some z \<and> d_inode z \<noteq> None
         \<and> (d_inode x' = None \<or> find_child (d_name x') (d_children z) s' = Some (Some d)))"
  proof (intro allI impI)
    fix p assume "d_parent x' = Some p"
    then have "d_parent x = Some p" using x'(1) by (simp add: same_node_def)
    then obtain z where z: "dentries s p = Some z" "d_inode z \<noteq> None"
        "d_inode x = None \<or> find_child (d_name x) (d_children z) s = Some (Some d)"
      using ok by (auto simp: dentry_ok_def)
    obtain z' where z': "dentries s' p = Some z'" "same_node z z'" using growsD [OF g z(1)] by blast
    have "d_inode x = None \<or> find_child (d_name x) (d_children z') s' = Some (Some d)"
      using grows_child [OF g z(1) z'(1) x] z(3) by blast
    then show "\<exists>z. dentries s' p = Some z \<and> d_inode z \<noteq> None
        \<and> (d_inode x' = None \<or> find_child (d_name x') (d_children z) s' = Some (Some d))"
      using z'(1,2) z(2) x'(1) by (simp add: same_node_def)
  qed
  moreover have "inode_ok s' x' = inode_ok s x"
    using x' g C by (simp add: inode_ok_def same_node_def grows_def split: option.splits)
  ultimately show ?thesis using ok x' g by (simp add: dentry_ok_def same_node_def grows_def)
qed

lemma ns_ok_grows:
  assumes ok: "ns_ok s" and g: "grows s s'"
    and old: "\<And>d x'. dentries s' d = Some x' \<Longrightarrow> dentries s d \<noteq> None \<Longrightarrow> dentry_ok s' d x'"
    and new: "\<And>d x'. dentries s' d = Some x' \<Longrightarrow> dentries s d = None \<Longrightarrow> dentry_ok s' d x' \<and> d < next_dentry s' \<and> d_inode x' = None"
    and le: "next_dentry s \<le> next_dentry s'"
  shows "ns_ok s'"
proof -
  have old': "\<exists>x. dentries s d = Some x \<and> d_inode x = Some i" if q: "dentries s' d = Some x'" "d_inode x' = Some i" for d x' i
  proof (cases "dentries s d")
    case None
    then show ?thesis using new [OF q(1)] q(2) by simp
  next
    case (Some x)
    then show ?thesis using growsD [OF g Some] q by (auto simp: same_node_def)
  qed
  have a: "dentry_ok s' d x' \<and> d < next_dentry s'" if q: "dentries s' d = Some x'" for d x'
  proof (cases "dentries s d")
    case None
    then show ?thesis using new [OF q] by simp
  next
    case (Some x)
    then show ?thesis using old [OF q] ns_okD(2) [OF ok Some] le by simp
  qed
  have "\<forall>d d' x x' i y. dentries s' d = Some x \<longrightarrow> dentries s' d' = Some x' \<longrightarrow> d_inode x = Some i \<longrightarrow> d_inode x' = Some i
          \<longrightarrow> inodes s' i = Some y \<longrightarrow> S_ISDIR (i_mode y) \<longrightarrow> d = d'"
  proof (intro allI impI)
    fix d d' x x' i y
    assume h: "dentries s' d = Some x" "dentries s' d' = Some x'" "d_inode x = Some i" "d_inode x' = Some i"
      "inodes s' i = Some y" "S_ISDIR (i_mode y)"
    obtain u where u: "dentries s d = Some u" "d_inode u = Some i" using old' [OF h(1,3)] by blast
    obtain v where v: "dentries s d' = Some v" "d_inode v = Some i" using old' [OF h(2,4)] by blast
    have "inodes s i = Some y" using h(5) g by (simp add: grows_def)
    then show "d = d'" using ok u v h(6) unfolding ns_ok_def by blast
  qed
  moreover have "\<forall>i y. inodes s' i = Some y \<longrightarrow> i < next_inode s'"
    using ok g by (simp add: ns_ok_def grows_def)
  moreover have "\<forall>sb. s_inodes s' sb \<noteq> [] \<longrightarrow> inodes s' (last (s_inodes s' sb)) \<noteq> None"
    using ok g by (simp add: ns_ok_def grows_def)
  ultimately show ?thesis using a by (simp add: ns_ok_def)
qed

lemma ns_ok_same_children:
  assumes ok: "ns_ok s" and g: "grows s s'" and "next_dentry s \<le> next_dentry s'"
    and c: "\<And>d x x'. dentries s d = Some x \<Longrightarrow> dentries s' d = Some x' \<Longrightarrow> d_children x' = d_children x"
    and n: "\<And>d. dentries s d = None \<Longrightarrow> dentries s' d = None"
  shows "ns_ok s'"
proof (rule ns_ok_grows [OF ok g _ _ assms(3)])
  fix d x' assume h: "dentries s' d = Some x'" "dentries s d \<noteq> None"
  then obtain x where x: "dentries s d = Some x" by auto
  have "same_node x x'" using growsD [OF g x] h(1) by auto
  then show "dentry_ok s' d x'" using dentry_ok_grows [OF g x ns_okD(1) [OF ok x] _ c [OF x h(1)]] by blast
qed (use n in auto)

text \<open>A reference more to a dentry.\<close>

lemma dget_ok:
  assumes ok: "ns_ok s" and x: "dentries s d = Some x"
  obtains s' where "dget d s = Some s'" "ns_ok s'" "grows s s'" "dentries s' d = Some (x\<lparr>d_count := d_count x + 1\<rparr>)"
proof
  let ?s = "s\<lparr>dentries := (dentries s)(d := Some (x\<lparr>d_count := d_count x + 1\<rparr>))\<rparr>"
  show "dget d s = Some ?s" using x by (cases x) (simp add: dget_def upd_dentry_def)
  show g: "grows s ?s" by (rule grows_same_children) (use x in \<open>auto simp: same_node_def\<close>)
  show "ns_ok ?s" by (rule ns_ok_same_children [OF ok g]) (use x in \<open>auto split: if_splits\<close>)
  show "dentries ?s d = Some (x\<lparr>d_count := d_count x + 1\<rparr>)" by simp
qed

text \<open>A dentry for a name that is not there, below the dentry \<open>p\<close> of a directory.\<close>

definition new_dentry :: "nat \<Rightarrow> u8 list \<Rightarrow> nat \<Rightarrow> dentry" where
  "new_dentry p n sb = \<lparr>d_count = 1, d_parent = Some p, d_name = n, d_inode = None, d_sb = sb, d_children = [], d_mount = None\<rparr>"

definition add_negative :: "nat \<Rightarrow> u8 list \<Rightarrow> nat \<Rightarrow> dentry \<Rightarrow> vfs \<Rightarrow> vfs" where
  "add_negative p n sb x s = s\<lparr>dentries := (dentries s)(next_dentry s := Some (new_dentry p n sb),
      p := Some (x\<lparr>d_children := next_dentry s # d_children x\<rparr>)), next_dentry := next_dentry s + 1\<rparr>"

lemma fresh_dentry: "ns_ok s \<Longrightarrow> dentries s (next_dentry s) = None"
  using ns_okD(2) [of s "next_dentry s"] by (cases "dentries s (next_dentry s)") auto

lemma grows_add_negative:
  assumes "ns_ok s" and "dentries s p = Some x" and no: "cached_inode s x n = None"
  shows "grows s (add_negative p n sb x s)" (is "grows s ?s")
proof -
  note fr = fresh_dentry [OF assms(1)]
  have ne: "next_dentry s \<noteq> p" using fr assms(2) by auto
  have a: "\<exists>u'. dentries ?s d = Some u' \<and> same_node u u' \<and> (d \<noteq> p \<longrightarrow> u' = u)" if q: "dentries s d = Some u" for d u
    using q ne fr assms(2) by (auto simp: add_negative_def same_node_def)
  have m: "find_child m cs ?s = Some r" if q: "find_child m cs s = Some r" for m cs r
    by (rule find_child_mono [OF _ q]) (use a in \<open>force simp: same_node_def\<close>)
  have "find_child m (d_children u') ?s = Some (Some c)"
    if q: "dentries s d = Some u" "dentries ?s d = Some u'" "find_child m (d_children u) s = Some (Some c)"
        "dentries s c = Some v" "d_inode v \<noteq> None" for d u u' m c v
  proof (cases "d = p")
    case True
    then have "d_children u' = next_dentry s # d_children x" "u = x" using q(1,2) assms(2) by (auto simp: add_negative_def)
    moreover have "m \<noteq> n" using q no True assms(2) by (auto simp: cached_inode_def)
    moreover have "dentries ?s (next_dentry s) = Some (new_dentry p n sb)" using ne by (simp add: add_negative_def)
    ultimately show ?thesis using m [OF q(3)] by (simp add: new_dentry_def)
  next
    case False
    then show ?thesis using a [OF q(1)] q(2) m [OF q(3)] by auto
  qed
  moreover have "\<exists>u'. dentries ?s d = Some u' \<and> same_node u u'" if q: "dentries s d = Some u" for d u using a [OF q] by blast
  moreover have "inodes ?s = inodes s" "s_type ?s = s_type s" "s_inodes ?s = s_inodes s" "next_inode ?s = next_inode s" "root_dentry ?s = root_dentry s"
    by (simp_all add: add_negative_def)
  ultimately show ?thesis unfolding grows_def by blast
qed

lemma find_child_some: "find_child n cs s = Some (Some c) \<Longrightarrow> c \<in> set cs"
  by (induction cs) (auto split: bind_splits if_splits)

lemma ns_ok_add_negative:
  assumes ok: "ns_ok s" and x: "dentries s p = Some x" and i: "d_inode x = Some i" and y: "inodes s i = Some y"
    and dir: "S_ISDIR (i_mode y)" and no: "cached_inode s x n = None"
  shows "ns_ok (add_negative p n (i_sb y) x s)" (is "ns_ok ?s")
proof -
  let ?d = "next_dentry s" and ?x = "x\<lparr>d_children := next_dentry s # d_children x\<rparr>"
  note g = grows_add_negative [OF ok x no, of "i_sb y"]
  have ne: "?d \<noteq> p" using fresh_dentry [OF ok] x by auto
  have dd: "dentries ?s ?d = Some (new_dentry p n (i_sb y))" and dp: "dentries ?s p = Some ?x"
    using ne by (simp_all add: add_negative_def)
  have xo: "dentry_ok s p x" by (rule ns_okD(1) [OF ok x])
  have ty: "s_type s (i_sb y) = TMPFS" using xo i y by (auto simp: dentry_ok_def inode_ok_def)
  obtain es where es: "i_private y = Tmpfs_Dir es" "\<And>m. entry_inode es m = cached_inode s x m"
    using xo i y dir by (auto simp: dentry_ok_def inode_ok_def)
  have ch: "\<forall>c \<in> set (d_children x). dentries s c \<noteq> None" using xo by (auto simp: dentry_ok_def)
  have C: "cached_inode ?s x m = cached_inode s x m" for m by (rule grows_cached [OF g ch refl])
  have C2: "cached_inode ?s ?x m = cached_inode s x m" for m
  proof (cases "m = n")
    case True
    then show ?thesis using dd no by (simp add: cached_inode_def new_dentry_def)
  next
    case False
    then have "cached_inode ?s ?x m = cached_inode ?s x m" using dd by (simp add: cached_inode_def new_dentry_def)
    then show ?thesis using C by simp
  qed
  have kids: "\<exists>z. dentries ?s c = Some z \<and> d_parent z = Some p" if q: "c \<in> set (d_children x)" for c
  proof -
    obtain z where z: "dentries s c = Some z" "d_parent z = Some p" using xo q by (auto simp: dentry_ok_def)
    then show ?thesis using growsD [OF g z(1)] by (auto simp: same_node_def)
  qed
  have par: "\<exists>z. dentries ?s q = Some z \<and> d_inode z \<noteq> None \<and> find_child (d_name x) (d_children z) ?s = Some (Some p)"
    if q: "d_parent x = Some q" for q
  proof -
    obtain z where z: "dentries s q = Some z" "d_inode z \<noteq> None" "find_child (d_name x) (d_children z) s = Some (Some p)"
      using xo q i by (auto simp: dentry_ok_def)
    obtain z' where z': "dentries ?s q = Some z'" "same_node z z'" using growsD [OF g z(1)] by blast
    have "d_inode x \<noteq> None" using i by simp
    then show ?thesis using z' z(2) grows_child [OF g z(1) z'(1) x _ z(3)] by (simp add: same_node_def)
  qed
  have in_p: "inode_ok ?s ?x"
    using i y dir ty es C2 by (simp add: inode_ok_def add_negative_def)
  have ok_p: "dentry_ok ?s p ?x"
  proof -
    have "\<exists>z. dentries ?s c = Some z \<and> d_parent z = Some p" if "c \<in> set (d_children ?x)" for c
      using that kids dd by (auto simp: new_dentry_def)
    moreover have "\<exists>z. dentries ?s q = Some z \<and> d_inode z \<noteq> None \<and> (d_inode ?x = None \<or> find_child (d_name ?x) (d_children z) ?s = Some (Some p))"
      if "d_parent ?x = Some q" for q
      using par [of q] that by auto
    moreover have "d_mount ?x = None \<and> s_type ?s (d_sb ?x) = TMPFS" using xo by (simp add: dentry_ok_def add_negative_def)
    ultimately show ?thesis using in_p unfolding dentry_ok_def by blast
  qed
  have ok_d: "dentry_ok ?s ?d (new_dentry p n (i_sb y))"
    using dp dd i ty by (simp add: dentry_ok_def new_dentry_def inode_ok_def) (simp add: add_negative_def)
  show ?thesis
  proof (rule ns_ok_grows [OF ok g])
    fix d x' assume h: "dentries ?s d = Some x'" "dentries s d \<noteq> None"
    then obtain u where u: "dentries s d = Some u" by auto
    show "dentry_ok ?s d x'"
    proof (cases "d = p")
      case True
      then show ?thesis using h dp ok_p by simp
    next
      case False
      have "d \<noteq> ?d" using u fresh_dentry [OF ok] by auto
      then have "x' = u" using False h u by (simp add: add_negative_def)
      then show ?thesis using dentry_ok_grows [OF g u ns_okD(1) [OF ok u]] by (simp add: same_node_def)
    qed
  next
    fix d x' assume h: "dentries ?s d = Some x'" "dentries s d = None"
    then have d: "d = ?d" using x by (auto simp: add_negative_def split: if_splits)
    then have "x' = new_dentry p n (i_sb y)" using dd h by simp
    moreover have "?d < next_dentry ?s" by (simp add: add_negative_def)
    ultimately show "dentry_ok ?s d x' \<and> d < next_dentry ?s \<and> d_inode x' = None"
      using ok_d d by (simp add: new_dentry_def)
  qed (simp add: add_negative_def)
qed

lemma inode_ok_dir:
  assumes "ns_ok s" and "dentries s p = Some x" and "d_inode x = Some i"
  obtains y where "inodes s i = Some y" "s_type s (i_sb y) = TMPFS" "s_type s (d_sb x) = TMPFS" "d_mount x = None"
    "\<not> S_ISDIR (i_mode y) \<Longrightarrow> dir_entries s i = None \<and> d_children x = []"
    "S_ISDIR (i_mode y) \<Longrightarrow> \<exists>es. dir_entries s i = Some es \<and> tmpfs_dir i s = Some es \<and> (\<forall>n. entry_inode es n = cached_inode s x n)"
proof -
  have xo: "dentry_ok s p x" by (rule ns_okD(1) [OF assms(1,2)])
  then obtain y where y: "inodes s i = Some y" "s_type s (i_sb y) = TMPFS"
    "if S_ISDIR (i_mode y) then (\<exists>es. i_private y = Tmpfs_Dir es \<and> (\<forall>n. entry_inode es n = cached_inode s x n))
     else d_children x = []" using assms(3) by (auto simp: dentry_ok_def inode_ok_def)
  show ?thesis
  proof (rule that [OF y(1,2)])
    show "s_type s (d_sb x) = TMPFS" "d_mount x = None" using xo by (simp_all add: dentry_ok_def)
    show "\<not> S_ISDIR (i_mode y) \<Longrightarrow> dir_entries s i = None \<and> d_children x = []"
      using y by (auto simp: dir_entries_def split: tmpfs_private.splits)
    show "S_ISDIR (i_mode y) \<Longrightarrow> \<exists>es. dir_entries s i = Some es \<and> tmpfs_dir i s = Some es \<and> (\<forall>n. entry_inode es n = cached_inode s x n)"
      using y by (auto simp: dir_entries_def tmpfs_dir_def)
  qed
qed

text \<open>One step of a walk, against the directories.\<close>

definition name_step :: "vfs \<Rightarrow> nat \<Rightarrow> u8 list \<Rightarrow> vfs \<Rightarrow> nat \<Rightarrow> (int + nat \<times> bool) \<Rightarrow> bool" where
  "name_step s p n s' i r \<longleftrightarrow>
     (case dir_entries s i of
        None \<Rightarrow> r = Inl (- ENOTDIR)
      | Some es \<Rightarrow>
          (\<exists>d z x. dentries s' d = Some z \<and> d_parent z = Some p \<and> d_name z = n
             \<and> dentries s' p = Some x \<and> find_child n (d_children x) s' = Some (Some d) \<and> d_inode z = entry_inode es n \<and> r = Inr (d, entry_inode es n = None)))"

lemma tmpfs_lookup_missing:
  assumes "tmpfs_dir i s = Some es" and "dentries s d = Some x" and "entry_inode es (d_name x) = None"
  shows "tmpfs_lookup i d s = Some (Null_Ptr, s)"
  using assms by (simp add: tmpfs_lookup_def entry_inode_def)

lemma lookup_name_ok:
  assumes ok: "ns_ok s" and x: "dentries s p = Some x" and i: "d_inode x = Some i"
  obtains r s' where "lookup_name fat p n s = Some (r, s')" "ns_ok s'" "grows s s'" "name_step s p n s' i r"
proof -
  obtain y where y: "inodes s i = Some y" "s_type s (i_sb y) = TMPFS" "s_type s (d_sb x) = TMPFS" "d_mount x = None"
    and nodir: "\<not> S_ISDIR (i_mode y) \<Longrightarrow> dir_entries s i = None \<and> d_children x = []"
    and dir: "S_ISDIR (i_mode y) \<Longrightarrow> \<exists>es. dir_entries s i = Some es \<and> tmpfs_dir i s = Some es \<and> (\<forall>n. entry_inode es n = cached_inode s x n)"
    by (rule inode_ok_dir [OF ok x i]) blast
  have ch: "\<forall>c \<in> set (d_children x). dentries s c \<noteq> None"
    using ns_okD(1) [OF ok x] by (auto simp: dentry_ok_def)
  from find_child_total [OF ch, of n] consider
      (no) "find_child n (d_children x) s = Some None"
    | (yes) c z where "find_child n (d_children x) s = Some (Some c)" "dentries s c = Some z" "d_name z = n" "c \<in> set (d_children x)"
    by blast
  then show ?thesis
  proof cases
    case no
    let ?d = "next_dentry s" and ?s2 = "s\<lparr>dentries := (dentries s)(next_dentry s := Some (new_dentry p n (i_sb y))), next_dentry := next_dentry s + 1\<rparr>"
    have ne: "?d \<noteq> p" using fresh_dentry [OF ok] x by auto
    have dl: "dlookup p n s = Some (None, n, s)" using x y(3) no by (simp add: dlookup_def)
    have al: "alloc_dentry p n s = Some (?d, ?s2)" using x i y by (simp add: alloc_dentry_def new_dentry_def)
    have s2: "dentries ?s2 p = Some x" "inodes ?s2 i = Some y" "dentries ?s2 ?d = Some (new_dentry p n (i_sb y))" using x y ne by simp_all
    show ?thesis
    proof (cases "S_ISDIR (i_mode y)")
      case False
      let ?s3 = "destroy_dentry ?d ?s2"
      have "lookup_name fat p n s = Some (Inl (- ENOTDIR), ?s3)"
        unfolding lookup_name_def dl using al s2 i False by simp
      moreover have g: "grows s ?s3" by (rule grows_same_children) (use fresh_dentry [OF ok] in \<open>auto simp: destroy_dentry_def same_node_def\<close>)
      moreover have "ns_ok ?s3"
        by (rule ns_ok_same_children [OF ok g]) (use fresh_dentry [OF ok] in \<open>auto simp: destroy_dentry_def split: if_splits\<close>)
      moreover have "name_step s p n ?s3 i (Inl (- ENOTDIR))" using nodir [OF False] by (simp add: name_step_def)
      ultimately show ?thesis using that by blast
    next
      case True
      then obtain es where es: "dir_entries s i = Some es" "tmpfs_dir i s = Some es" "\<forall>n. entry_inode es n = cached_inode s x n" using dir by blast
      let ?s4 = "add_negative p n (i_sb y) x s"
      have nc: "cached_inode s x n = None" using no by (simp add: cached_inode_def)
      then have en: "entry_inode es n = None" using es(3) by simp
      have "tmpfs_dir i ?s2 = Some es" using es(2) by (simp add: tmpfs_dir_def)
      then have tl: "tmpfs_lookup i ?d ?s2 = Some (Null_Ptr, ?s2)"
        using tmpfs_lookup_missing s2(3) en by (simp add: new_dentry_def)
      have op: "op_lookup (i_op fat y ?s2) i ?d ?s2 = Some (Null_Ptr, ?s2)"
        using tl y(2) by (simp add: i_op_def tmpfs_iops_def)
      have ad: "dcache_add ?d ?s2 = Some ?s4"
        using s2 ne by (cases x) (simp add: dcache_add_def new_dentry_def upd_dentry_def add_negative_def)
      have d4: "dentries ?s4 ?d = Some (new_dentry p n (i_sb y))" using ne by (simp add: add_negative_def)
      have "lookup_name fat p n s = Some (Inr (?d, True), ?s4)"
        unfolding lookup_name_def dl using al s2 i True op ad d4 by (simp add: lookup_failed_def new_dentry_def)
      moreover have "ns_ok ?s4" by (rule ns_ok_add_negative [OF ok x i y(1) True nc])
      moreover have "grows s ?s4" by (rule grows_add_negative [OF ok x nc])
      moreover have "name_step s p n ?s4 i (Inr (?d, True))"
        using es(1) en d4 ne by (simp add: name_step_def new_dentry_def) (simp add: add_negative_def new_dentry_def)
      ultimately show ?thesis using that by blast
    qed
  next
    case yes
    obtain s' where s': "dget c s = Some s'" "ns_ok s'" "grows s s'" "dentries s' c = Some (z\<lparr>d_count := d_count z + 1\<rparr>)"
      by (rule dget_ok [OF ok yes(2)])
    have dl: "dlookup p n s = Some (Some c, n, s')" using x y(3) yes s'(1) by (simp add: dlookup_def)
    have zo: "d_mount z = None" "d_parent z = Some p"
      using ns_okD(1) [OF ok yes(2)] ns_okD(1) [OF ok x] yes by (auto simp: dentry_ok_def)
    obtain x' where x': "dentries s' p = Some x'" "d_children x' = d_children x"
    proof (cases "c = p")
      case True
      then show ?thesis using that s'(4) yes(2) x by simp
    next
      case False
      then have "dentries s' p = Some x" using s'(1) x yes(2) by (auto simp: dget_def upd_dentry_def)
      then show ?thesis using that by simp
    qed
    have f: "find_child n (d_children x) s' = Some (Some c)"
    proof (rule find_child_mono [OF _ yes(1)])
      show "\<exists>u'. dentries s' d = Some u' \<and> d_name u' = d_name u" if q: "dentries s d = Some u" for d u
        using growsD [OF s'(3) q] by (auto simp: same_node_def)
    qed
    have D: "S_ISDIR (i_mode y)" using nodir yes(4) by (cases "S_ISDIR (i_mode y)") simp_all
    then obtain es where es: "dir_entries s i = Some es" "\<forall>n. entry_inode es n = cached_inode s x n" using dir by blast
    have en: "entry_inode es n = d_inode z" using es(2) yes by (simp add: cached_inode_def)
    have "lookup_name fat p n s = Some (Inr (c, entry_inode es n = None), s')"
      unfolding lookup_name_def dl using s'(4) zo en by simp
    moreover have "name_step s p n s' i (Inr (c, entry_inode es n = None))"
      using es(1) s'(4) zo en yes(3) x' f by (auto simp: name_step_def)
    ultimately show ?thesis using that s' by blast
  qed
qed

text \<open>What the walk of the directories says of the result of a cached walk.\<close>

definition agrees :: "walk_result \<Rightarrow> vfs \<Rightarrow> (int + nat) \<Rightarrow> bool" where
  "agrees w s r \<longleftrightarrow>
     (case w of
        Found is \<Rightarrow> (\<exists>d. r = Inr d \<and> trail s d is)
      | Not_Dir is \<Rightarrow> r = Inl (- ENOTDIR)
      | Missing is n \<Rightarrow> (\<exists>d x p z. r = Inr d \<and> dentries s d = Some x \<and> d_inode x = None \<and> d_name x = n
                         \<and> d_parent x = Some p \<and> trail s p is
                         \<and> dentries s p = Some z \<and> find_child n (d_children z) s = Some (Some d)))"

lemma trailE:
  assumes "trail s d is"
  obtains i "js" x where "is = i # js" "dentries s d = Some x" "d_inode x = Some i"
    "d_parent x = None \<and> js = [] \<or> (\<exists>p. d_parent x = Some p \<and> js \<noteq> [] \<and> trail s p js)"
  using assms by (cases "is") (auto split: option.splits)

lemma walk_cong: "dir_entries s' = dir_entries s \<Longrightarrow> walk s' is ns = walk s is ns"
  by (induction s "is" ns rule: walk.induct) (auto split: option.splits)

lemma lookup_path_from_agrees:
  "ns_ok s \<Longrightarrow> trail s p is \<Longrightarrow>
   \<exists>r s'. lookup_path_from fat p path s = Some (r, s') \<and> ns_ok s' \<and> grows s s' \<and> agrees (walk s is (components path)) s' r"
proof (induction fat p path s arbitrary: "is" rule: lookup_path_from.induct)
  case (1 fat p path s)
  show ?case
  proof (cases "next_path_component path")
    case None
    then show ?thesis using 1(4,5)
      by (subst lookup_path_from.simps) (auto simp: agrees_def grows_refl components.simps [of path])
  next
    case (Some nr)
    obtain n rest where nr: "next_path_component path = Some (n, rest)" using Some by (cases nr) auto
    note cs = components_step [OF nr]
    obtain i "js" x where t: "is = i # js" "dentries s p = Some x" "d_inode x = Some i"
      "d_parent x = None \<and> js = [] \<or> (\<exists>q. d_parent x = Some q \<and> js \<noteq> [] \<and> trail s q js)"
      using trailE [OF "1.prems"(2)] by metis
    note E = lookup_path_from.simps [of fat p path s] nr t(2)
    consider (self) "n = [dot]" | (up) "n \<noteq> [dot]" "n = [dot, dot]" | (name) "n \<noteq> [dot]" "n \<noteq> [dot, dot]" by blast
    then show ?thesis
    proof cases
      case self
      then show ?thesis using "1.IH"(1) [OF nr refl t(2) self "1.prems"] E cs by simp
    next
      case up
      let ?q = "case d_parent x of None \<Rightarrow> p | Some q \<Rightarrow> q"
      have "trail s ?q (if tl is = [] then is else tl is)"
        using t "1.prems"(2) by auto
      then show ?thesis using "1.IH"(2) [OF nr refl t(2) up "1.prems"(1)] E cs up by simp
    next
      case name
      obtain r s1 where r: "lookup_name fat p n s = Some (r, s1)" "ns_ok s1" "grows s s1" "name_step s p n s1 i r"
        by (rule lookup_name_ok [OF "1.prems"(1) t(2,3)])
      show ?thesis
      proof (cases "dir_entries s i")
        case None
        then have "r = Inl (- ENOTDIR)" using r(4) by (simp add: name_step_def)
        then show ?thesis using E cs name r None t(1) by (simp add: agrees_def)
      next
        case (Some es)
        then obtain d z v where d: "dentries s1 d = Some z" "d_parent z = Some p" "d_name z = n"
          "d_inode z = entry_inode es n" "r = Inr (d, entry_inode es n = None)"
          "dentries s1 p = Some v" "find_child n (d_children v) s1 = Some (Some d)"
          using r(4) by (auto simp: name_step_def)
        note tr = grows_trail [OF r(3) "1.prems"(2)]
        show ?thesis
        proof (cases "entry_inode es n")
          case None
          then show ?thesis using E cs name r Some t(1) d tr by (auto simp: agrees_def)
        next
          case (Some j)
          then have "trail s1 d (j # is)" using d tr t(1) by auto
          then have "\<exists>r2 s2. lookup_path_from fat d rest s1 = Some (r2, s2) \<and> ns_ok s2 \<and> grows s1 s2
              \<and> agrees (walk s1 (j # is) (components rest)) s2 r2"
            using "1.IH"(3) [OF nr refl t(2) name r(1) refl d(5) refl] Some r(2) by simp
          then obtain r2 s2 where r2: "lookup_path_from fat d rest s1 = Some (r2, s2)" "ns_ok s2" "grows s1 s2"
            "agrees (walk s1 (j # is) (components rest)) s2 r2" by blast
          have w: "walk s1 = walk s" by (intro ext walk_cong grows_dir_entries [OF r(3)])
          have "walk s is (components path) = walk s (j # is) (components rest)"
            using name t(1) \<open>dir_entries s i = Some es\<close> Some cs by simp
          then show ?thesis using E name r(1) d(5) Some r2 w grows_trans [OF r(3) r2(3)] by simp
        qed
      qed
    qed
  qed
qed

section \<open>Adding an entry\<close>

lemma entry_inode_append:
  "entry_inode (es @ [e]) n = (case entry_inode es n of Some i \<Rightarrow> Some i | None \<Rightarrow> if e_name e = n then Some (e_inode e) else None)"
  by (induction es) (auto simp: entry_inode_def)

text \<open>A negative dentry gets an inode, and the directory an entry.\<close>

definition add_link :: "nat \<Rightarrow> dentry \<Rightarrow> nat \<Rightarrow> inode \<Rightarrow> tmpfs_entry list \<Rightarrow> nat \<Rightarrow> nat \<Rightarrow> vfs \<Rightarrow> vfs" where
  "add_link d x i y es j t s = s\<lparr>dentries := (dentries s)(d := Some (x\<lparr>d_inode := Some j\<rparr>)),
     inodes := (inodes s)(i := Some (y\<lparr>i_private := Tmpfs_Dir (es @ [\<lparr>e_inode = j, e_type = t, e_name = d_name x\<rparr>])\<rparr>))\<rparr>"

lemma ns_ok_add_link:
  assumes ok: "ns_ok s" and x: "dentries s d = Some x" "d_inode x = None" "d_parent x = Some p"
    and z: "dentries s p = Some z" "d_inode z = Some i" and y: "inodes s i = Some y" "S_ISDIR (i_mode y)" "i_private y = Tmpfs_Dir es"
    and w: "inodes s j = Some w" "s_type s (i_sb w) = TMPFS" "j \<noteq> i"
    and new: "S_ISDIR (i_mode w) \<Longrightarrow> i_private w = Tmpfs_Dir [] \<and> (\<forall>e u. dentries s e = Some u \<longrightarrow> d_inode u \<noteq> Some j)"
    and fd: "find_child (d_name x) (d_children z) s = Some (Some d)"
  shows "ns_ok (add_link d x i y es j t s)" (is "ns_ok ?s")
proof -
  have dp: "d \<noteq> p" using x z by auto
  let ?x = "x\<lparr>d_inode := Some j\<rparr>" and ?es = "es @ [\<lparr>e_inode = j, e_type = t, e_name = d_name x\<rparr>]"
  have dd: "dentries ?s e = (if e = d then Some ?x else dentries s e)" for e by (simp add: add_link_def)
  have di: "inodes ?s k = (if k = i then Some (y\<lparr>i_private := Tmpfs_Dir ?es\<rparr>) else inodes s k)" for k by (simp add: add_link_def)
  have rest: "s_type ?s = s_type s" "next_dentry ?s = next_dentry s" "next_inode ?s = next_inode s" "s_inodes ?s = s_inodes s"
    by (simp_all add: add_link_def)
  have fc: "find_child n cs ?s = find_child n cs s" for n cs
    by (rule find_child_cong) (use x dd in auto)
  have xo: "dentry_ok s d x" by (rule ns_okD(1) [OF ok x(1)])
  have zo: "dentry_ok s p z" by (rule ns_okD(1) [OF ok z(1)])
  have es: "entry_inode es n = cached_inode s z n" for n using zo z y by (auto simp: dentry_ok_def inode_ok_def)
  have nx: "d_children x = []" using xo x by (simp add: dentry_ok_def inode_ok_def)
  have ci: "cached_inode ?s u n = cached_inode s u n"
    if q: "\<And>c. find_child n (d_children u) s = Some (Some c) \<Longrightarrow> c \<noteq> d" for u n
    using q dd fc by (auto simp: cached_inode_def split: option.splits)
  have cz: "entry_inode ?es n = cached_inode ?s z n" for n
  proof (cases "n = d_name x")
    case True
    then have "entry_inode es n = None" using es fd x by (simp add: cached_inode_def)
    then show ?thesis using True fd dd fc by (simp add: entry_inode_append cached_inode_def)
  next
    case False
    have "cached_inode ?s z n = cached_inode s z n"
    proof (rule ci)
      fix c assume c: "find_child n (d_children z) s = Some (Some c)"
      have "\<forall>c \<in> set (d_children z). dentries s c \<noteq> None" using zo by (auto simp: dentry_ok_def)
      from find_child_total [OF this, of n] c show "c \<noteq> d" using x False by auto
    qed
    then show ?thesis using False es by (simp add: entry_inode_append split: option.splits)
  qed
  have inode: "inode_ok ?s u'" if q: "dentries s e = Some u" "dentries ?s e = Some u'" for e u u'
  proof -
    have uo: "dentry_ok s e u" by (rule ns_okD(1) [OF ok q(1)])
    consider (d) "e = d" | (p) "e = p" | (other) "e \<noteq> d" "e \<noteq> p" by blast
    then show ?thesis
    proof cases
      case d
      have "cached_inode ?s ?x n = None" for n using nx by (simp add: cached_inode_def)
      moreover have "u' = ?x" "inodes ?s j = Some w" using d q dd di w by auto
      ultimately show ?thesis using w(2) new nx rest
        by (cases "S_ISDIR (i_mode w)") (auto simp: inode_ok_def entry_inode_def)
    next
      case p
      have "s_type s (i_sb y) = TMPFS" using zo z y by (simp add: dentry_ok_def inode_ok_def)
      then show ?thesis using p q dd dp di z y cz rest by (simp add: inode_ok_def)
    next
      case other
      have u': "u' = u" using other q dd by simp
      have c: "cached_inode ?s u n = cached_inode s u n" for n
      proof (rule ci)
        fix c assume "find_child n (d_children u) s = Some (Some c)"
        then have "d_parent (the (dentries s c)) = Some e" using uo find_child_some by (fastforce simp: dentry_ok_def)
        then show "c \<noteq> d" using x other by auto
      qed
      have "d_inode u \<noteq> Some i" using ok q(1) z y other unfolding ns_ok_def by blast
      then show ?thesis using u' c uo di rest by (auto simp: dentry_ok_def inode_ok_def split: option.splits)
    qed
  qed
  have dok: "dentry_ok ?s e u'" if q: "dentries ?s e = Some u'" for e u'
  proof -
    obtain u where u: "dentries s e = Some u" using q dd x by (cases "e = d") auto
    have uo: "dentry_ok s e u" by (rule ns_okD(1) [OF ok u])
    have u': "d_children u' = d_children u" "d_parent u' = d_parent u" "d_name u' = d_name u" "d_mount u' = d_mount u" "d_sb u' = d_sb u"
      using q u dd x by (auto split: if_splits)
    have "\<exists>v. dentries ?s c = Some v \<and> d_parent v = Some e" if c: "c \<in> set (d_children u)" for c
    proof -
      obtain v where "dentries s c = Some v" "d_parent v = Some e" using uo c by (auto simp: dentry_ok_def)
      then show ?thesis using dd x by auto
    qed
    moreover have "\<exists>v. dentries ?s r = Some v \<and> d_inode v \<noteq> None
        \<and> (d_inode u' = None \<or> find_child (d_name u) (d_children v) ?s = Some (Some e))"
      if c: "d_parent u = Some r" for r
    proof (cases "e = d")
      case True
      then show ?thesis using c u x z dd dp fd fc by simp
    next
      case False
      obtain v where v: "dentries s r = Some v" "d_inode v \<noteq> None"
          "d_inode u = None \<or> find_child (d_name u) (d_children v) s = Some (Some e)"
        using uo c by (auto simp: dentry_ok_def)
      have "u' = u" "r \<noteq> d" using q u dd False v x by auto
      then show ?thesis using v dd fc by auto
    qed
    ultimately show ?thesis using uo u' inode [OF u q] rest by (simp add: dentry_ok_def)
  qed
  have uniq: "e = e'"
    if h: "dentries ?s e = Some u" "dentries ?s e' = Some u'" "d_inode u = Some k" "d_inode u' = Some k"
       "inodes ?s k = Some v" "S_ISDIR (i_mode v)" for e e' u u' k v
  proof -
    obtain v0 where v0: "inodes s k = Some v0" "S_ISDIR (i_mode v0)" using h(5,6) di y by (auto split: if_splits)
    show ?thesis
    proof (cases "k = j")
      case True
      then have "S_ISDIR (i_mode w)" using v0 w by simp
      then have "\<forall>e u. dentries s e = Some u \<longrightarrow> d_inode u \<noteq> Some j" using new by blast
      then show ?thesis using h True dd by (auto split: if_splits)
    next
      case False
      then have "dentries s e = Some u" "dentries s e' = Some u'" using h dd by (auto split: if_splits)
      then show ?thesis using h(3,4) v0 ok unfolding ns_ok_def by blast
    qed
  qed
  have "d' < next_dentry s" if q: "dentries ?s d' = Some u" for d' u
    using q dd ns_okD(2) [OF ok] x by (auto split: if_splits)
  moreover have "k < next_inode s" if q: "inodes ?s k = Some v" for k v
    using q di y ok by (auto simp: ns_ok_def split: if_splits)
  moreover have "s_inodes s sb \<noteq> [] \<Longrightarrow> inodes ?s (last (s_inodes s sb)) \<noteq> None" for sb
    using di y ok by (simp add: ns_ok_def)
  ultimately show ?thesis using dok uniq unfolding ns_ok_def rest by blast
qed

text \<open>An inode that nothing refers to yet.\<close>

definition add_inode :: "nat \<Rightarrow> inode \<Rightarrow> vfs \<Rightarrow> vfs" where
  "add_inode sb w s = s\<lparr>inodes := (inodes s)(next_inode s := Some w), next_inode := next_inode s + 1,
     last_ino := last_ino s + 1, s_inodes := (s_inodes s)(sb := s_inodes s sb @ [next_inode s])\<rparr>"

lemma ns_ok_fresh: "ns_ok s \<Longrightarrow> inodes s (next_inode s) = None"
  unfolding ns_ok_def by (cases "inodes s (next_inode s)") fastforce+

lemma ns_ok_no_dentry:
  assumes "ns_ok s" and "dentries s d = Some x"
  shows "d_inode x \<noteq> Some (next_inode s)"
proof
  assume i: "d_inode x = Some (next_inode s)"
  obtain y where "inodes s (next_inode s) = Some y" using inode_ok_dir [OF assms i] by metis
  then show False using ns_ok_fresh [OF assms(1)] by simp
qed

lemma ns_ok_add_inode:
  assumes ok: "ns_ok s"
  shows "ns_ok (add_inode sb w s)" (is "ns_ok ?s")
proof -
  have de: "dentries ?s = dentries s" "s_type ?s = s_type s" "next_dentry ?s = next_dentry s" by (simp_all add: add_inode_def)
  have di: "inodes ?s k = (if k = next_inode s then Some w else inodes s k)" for k by (simp add: add_inode_def)
  have fc: "find_child n cs ?s = find_child n cs s" for n cs by (rule find_child_cong) (simp add: de)
  have ci: "cached_inode ?s u n = cached_inode s u n" for u n by (auto simp: cached_inode_def fc de split: option.splits)
  have dok: "dentry_ok ?s d x" if q: "dentries s d = Some x" for d x
  proof -
    have xo: "dentry_ok s d x" by (rule ns_okD(1) [OF ok q])
    have "inode_ok ?s x = inode_ok s x" using ns_ok_no_dentry [OF ok q] by (auto simp: inode_ok_def de di ci split: option.splits)
    then show ?thesis using xo by (simp add: dentry_ok_def de fc)
  qed
  have "inodes ?s (last (s_inodes ?s b)) \<noteq> None" if q: "s_inodes ?s b \<noteq> []" for b
    using ok q by (auto simp: add_inode_def ns_ok_def split: if_splits)
  moreover have "k < next_inode ?s" if q: "inodes ?s k = Some v" for k v
  proof -
    have "k = next_inode s \<or> k < next_inode s" using q ok by (auto simp: di ns_ok_def split: if_splits)
    then show ?thesis by (auto simp: add_inode_def)
  qed
  moreover have "e = e'"
    if h: "dentries s e = Some u" "dentries s e' = Some u'" "d_inode u = Some k" "d_inode u' = Some k"
       "inodes ?s k = Some v" "S_ISDIR (i_mode v)" for e e' u u' k v
  proof -
    have "inodes s k = Some v" using h(5) di ns_ok_no_dentry [OF ok h(1)] h(3) by (auto split: if_splits)
    then show ?thesis using h ok unfolding ns_ok_def by blast
  qed
  ultimately show ?thesis using dok ns_okD(2) [OF ok] unfolding ns_ok_def de by blast
qed

lemma tmpfs_alloc_inode_ok:
  assumes ok: "ns_ok s"
  shows "\<exists>w. tmpfs_alloc_inode sb s = Some (next_inode s, add_inode sb w s) \<and> i_sb w = sb"
proof -
  have "s_inodes s sb \<noteq> [] \<Longrightarrow> \<exists>v. inodes s (last (s_inodes s sb)) = Some v"
    using ok by (auto simp: ns_ok_def)
  then show ?thesis
    by (cases "s_inodes s sb = []") (auto simp: tmpfs_alloc_inode_def list_add_inode_def add_inode_def Let_def)
qed

lemma add_inode_upd:
  "upd_inode (next_inode s) f (add_inode sb w s) = Some (add_inode sb (f w) s)"
  by (simp add: upd_inode_def add_inode_def)

lemma add_inode_simps:
  "dentries (add_inode sb w s) = dentries s"
  "inodes (add_inode sb w s) (next_inode s) = Some w"
  "i \<noteq> next_inode s \<Longrightarrow> inodes (add_inode sb w s) i = inodes s i"
  "s_type (add_inode sb w s) = s_type s"
  by (simp_all add: add_inode_def)

lemma add_entry_link:
  assumes "dentries s d = Some x" and "inodes s i = Some y" and "i_private y = Tmpfs_Dir es" and "length (d_name x) < NAME_MAX"
  shows "do { s3 \<leftarrow> upd_dentry d (d_inode_update (\<lambda>_. Some j)) s;
              x \<leftarrow> dentries s3 d;
              s4 \<leftarrow> tmpfs_add_entry i j t (d_name x) s3;
              Some (0 :: int, s4) } = Some (0, add_link d x i y es j t s)"
  using assms by (cases x) (auto simp: upd_dentry_def tmpfs_add_entry_def tmpfs_dir_def upd_inode_def add_link_def)

text \<open>The three ways in which an entry for a new inode is made.\<close>

lemma tmpfs_create_ok:
  assumes ok: "ns_ok s" and x: "dentries s d = Some x" and y: "inodes s i = Some y" "i_private y = Tmpfs_Dir es"
    and n: "length (d_name x) < NAME_MAX"
  obtains w where "tmpfs_create i d mode s = Some (0, add_link d x i y es (next_inode s) 1 (add_inode (i_sb y) w s))"
    "i_sb w = i_sb y" "i_mode w = mode OR S_IFREG" "i_private w = Tmpfs_File []" "i_size w = 0"
proof -
  obtain w where w: "tmpfs_alloc_inode (i_sb y) s = Some (next_inode s, add_inode (i_sb y) w s)" "i_sb w = i_sb y"
    using tmpfs_alloc_inode_ok [OF ok] by blast
  let ?w = "w\<lparr>i_private := Tmpfs_File [], i_mode := mode OR S_IFREG, i_size := 0, i_count := 1,
                               i_atime := now s, i_mtime := now s, i_ctime := now s\<rparr>"
  have ne: "i \<noteq> next_inode s" using ns_ok_fresh [OF ok] y by auto
  have "tmpfs_create i d mode s = Some (0, add_link d x i y es (next_inode s) 1 (add_inode (i_sb y) ?w s))"
    unfolding tmpfs_create_def using add_entry_link [of "add_inode (i_sb y) ?w s" d x i y es "next_inode s" 1] x y n ne
    by (simp add: w add_inode_upd add_inode_simps)
  then show ?thesis by (rule that) (simp_all add: w)
qed

lemma tmpfs_mkdir_ok:
  assumes ok: "ns_ok s" and x: "dentries s d = Some x" and y: "inodes s i = Some y" "i_private y = Tmpfs_Dir es"
    and n: "length (d_name x) < NAME_MAX"
  obtains w where "tmpfs_mkdir i d mode s = Some (0, add_link d x i y es (next_inode s) 2 (add_inode (i_sb y) w s))"
    "i_sb w = i_sb y" "i_mode w = mode OR S_IFDIR" "i_private w = Tmpfs_Dir []"
proof -
  obtain w where w: "tmpfs_alloc_inode (i_sb y) s = Some (next_inode s, add_inode (i_sb y) w s)" "i_sb w = i_sb y"
    using tmpfs_alloc_inode_ok [OF ok] by blast
  let ?w = "w\<lparr>i_private := Tmpfs_Dir [], i_mode := mode OR S_IFDIR,
                               i_atime := now s, i_mtime := now s, i_ctime := now s\<rparr>"
  have ne: "i \<noteq> next_inode s" using ns_ok_fresh [OF ok] y by auto
  have "tmpfs_mkdir i d mode s = Some (0, add_link d x i y es (next_inode s) 2 (add_inode (i_sb y) ?w s))"
    unfolding tmpfs_mkdir_def using add_entry_link [of "add_inode (i_sb y) ?w s" d x i y es "next_inode s" 2] x y n ne
    by (simp add: w add_inode_upd add_inode_simps)
  then show ?thesis by (rule that) (simp_all add: w)
qed

end
