(* ===== verification/NameOps.thy ===== *)
theory NameOps imports DirCache begin

text \<open>
  The operations of \<open>fs/vfs.c\<close> on paths, on a cache of dentries that agrees with the directories.
\<close>

text \<open>The dentry that a lookup ends at when a name is missing.\<close>

lemma walk_append: "walk s is (ns @ ms) = (case walk s is ns of Found js \<Rightarrow> walk s js ms | w \<Rightarrow> w)"
  by (induction s "is" ns rule: walk.induct) (auto split: option.splits)

lemma walk_Missing: "walk s is ns = Missing js n \<Longrightarrow> n \<in> set ns \<and> (\<exists>es. dir_entries s (hd js) = Some es \<and> entry_inode es n = None)"
  by (induction s "is" ns rule: walk.induct) (auto split: option.splits if_splits)

lemma dir_entries_Some:
  "dir_entries s i = Some es \<longleftrightarrow> (\<exists>y. inodes s i = Some y \<and> S_ISDIR (i_mode y) \<and> i_private y = Tmpfs_Dir es)"
  by (auto simp: dir_entries_def split: option.splits tmpfs_private.splits if_splits)

definition empty_slot :: "vfs \<Rightarrow> nat \<Rightarrow> nat list \<Rightarrow> u8 list \<Rightarrow> dentry \<Rightarrow> nat \<Rightarrow> dentry \<Rightarrow> nat \<Rightarrow> inode \<Rightarrow> tmpfs_entry list \<Rightarrow> bool" where
  "empty_slot s d is n x p z i y es \<longleftrightarrow>
     dentries s d = Some x \<and> d_inode x = None \<and> d_name x = n \<and> d_parent x = Some p \<and> trail s p is \<and> hd is = i
     \<and> dentries s p = Some z \<and> d_inode z = Some i \<and> inodes s i = Some y \<and> S_ISDIR (i_mode y) \<and> i_private y = Tmpfs_Dir es
     \<and> s_type s (i_sb y) = TMPFS \<and> find_child n (d_children z) s = Some (Some d) \<and> entry_inode es n = None"

lemma agrees_Missing:
  assumes ok: "ns_ok s1" and g: "grows s s1" and w: "walk s js ns = Missing is n" and a: "agrees (Missing is n) s1 r"
  obtains d x p z i y es where "r = Inr d" "empty_slot s1 d is n x p z i y es" "dir_entries s (hd is) = Some es"
proof -
  obtain d x p z where d: "r = Inr d" "dentries s1 d = Some x" "d_inode x = None" "d_name x = n" "d_parent x = Some p"
    "trail s1 p is" "dentries s1 p = Some z" "find_child n (d_children z) s1 = Some (Some d)"
    using a by (auto simp: agrees_def)
  obtain i "ks" where i: "is = i # ks" "d_inode z = Some i" using trailE [OF d(6)] d(7) by (metis option.inject)
  obtain es where es: "dir_entries s i = Some es" "entry_inode es n = None" using walk_Missing [OF w] i by auto
  have es1: "dir_entries s1 i = Some es" using es grows_dir_entries [OF g] by simp
  then obtain y where y: "inodes s1 i = Some y" "S_ISDIR (i_mode y)" "i_private y = Tmpfs_Dir es"
    unfolding dir_entries_Some by blast
  have "s_type s1 (i_sb y) = TMPFS" using ns_okD(1) [OF ok d(7)] i(2) y by (simp add: dentry_ok_def inode_ok_def)
  then have "empty_slot s1 d is n x p z i y es" using d i y es by (simp add: empty_slot_def)
  then show ?thesis using that d(1) es(1) i(1) by simp
qed

text \<open>Filling it with a new inode.\<close>

definition fill_new :: "nat \<Rightarrow> dentry \<Rightarrow> nat \<Rightarrow> inode \<Rightarrow> tmpfs_entry list \<Rightarrow> nat \<Rightarrow> inode \<Rightarrow> vfs \<Rightarrow> vfs" where
  "fill_new d x i y es t w s = add_link d x i y es (next_inode s) t (add_inode (i_sb y) w s)"

lemma trail_mono:
  assumes "\<And>d x. dentries s d = Some x \<Longrightarrow> d_inode x \<noteq> None \<Longrightarrow>
    \<exists>x'. dentries s' d = Some x' \<and> d_inode x' = d_inode x \<and> d_parent x' = d_parent x"
  shows "trail s d is \<Longrightarrow> trail s' d is"
proof (induction "is" arbitrary: d)
  case (Cons i "is")
  obtain x where x: "dentries s d = Some x" "d_inode x = Some i" using Cons.prems by (auto split: option.splits)
  then obtain x' where "dentries s' d = Some x'" "d_inode x' = d_inode x" "d_parent x' = d_parent x" using assms by fastforce
  then show ?case using Cons x by (auto split: option.splits)
qed simp

lemma add_link_facts:
  fixes i j t :: nat and y :: inode and es :: "tmpfs_entry list"
  assumes d: "dentries s d = Some x" "d_inode x = None" and p: "d_parent x = Some p" "trail s p is"
  defines "s' \<equiv> add_link d x i y es j t s"
  shows "trail s e ks \<Longrightarrow> trail s' e ks" "trail s' d (j # is)" "root_dentry s' = root_dentry s" "s_type s' = s_type s"
    "k \<noteq> i \<Longrightarrow> inodes s' k = inodes s k"
    "inodes s' i = Some (y\<lparr>i_private := Tmpfs_Dir (es @ [\<lparr>e_inode = j, e_type = t, e_name = d_name x\<rparr>])\<rparr>)"
proof -
  show t: "trail s e ks \<Longrightarrow> trail s' e ks" for e ks
    by (rule trail_mono [of s]) (use d in \<open>auto simp: s'_def add_link_def\<close>)
  have "dentries s' d = Some (x\<lparr>d_inode := Some j\<rparr>)" by (simp add: s'_def add_link_def)
  moreover have "is \<noteq> []" using p(2) by auto
  ultimately show "trail s' d (j # is)" using t [OF p(2)] p(1) by simp
qed (simp_all add: s'_def add_link_def)

lemma trail_add_inode: "trail (add_inode sb w s) d is = trail s d is"
  by (induction "is" arbitrary: d) (auto simp: add_inode_def split: option.splits)

lemma fill_new_ok:
  fixes t :: nat
  assumes ok: "ns_ok s" and e: "empty_slot s d is n x p z i y es" and w: "i_sb w = i_sb y" "S_ISDIR (i_mode w) \<Longrightarrow> i_private w = Tmpfs_Dir []"
  defines "s' \<equiv> fill_new d x i y es t w s"
  shows "ns_ok s'" "trail s e' ks \<Longrightarrow> trail s' e' ks" "trail s' d (next_inode s # is)" "root_dentry s' = root_dentry s"
    "s_type s' (i_sb w) = TMPFS"
    "inodes s' (next_inode s) = Some w"
    "dir_entries s' = (dir_entries s)(i \<mapsto> es @ [\<lparr>e_inode = next_inode s, e_type = t, e_name = n\<rparr>],
       next_inode s := if S_ISDIR (i_mode w) then Some [] else None)"
proof -
  note E = e [unfolded empty_slot_def]
  let ?s = "add_inode (i_sb y) w s" and ?j = "next_inode s"
  have ne: "i \<noteq> ?j" using ns_ok_fresh [OF ok] E by auto
  have fc: "find_child m cs ?s = find_child m cs s" for m cs by (rule find_child_cong) (simp add: add_inode_simps)
  show "ns_ok s'" unfolding s'_def fill_new_def
  proof (rule ns_ok_add_link [where p = p and z = z and w = w])
    show "ns_ok ?s" by (rule ns_ok_add_inode [OF ok])
    show "S_ISDIR (i_mode w) \<Longrightarrow> i_private w = Tmpfs_Dir [] \<and> (\<forall>e u. dentries ?s e = Some u \<longrightarrow> d_inode u \<noteq> Some ?j)"
      using w(2) ns_ok_no_dentry [OF ok] by (simp add: add_inode_simps)
    show "find_child (d_name x) (d_children z) ?s = Some (Some d)" using E by (simp add: fc)
  qed (use E w ne in \<open>simp_all add: add_inode_simps\<close>)
  have t: "trail s = trail ?s" by (intro ext) (simp add: trail_add_inode)
  have F: "dentries ?s d = Some x" "d_inode x = None" "d_parent x = Some p" "trail ?s p is"
    using E t by (simp_all add: add_inode_simps)
  note L = add_link_facts [OF F, where i = i and y = y and es = es and j = ?j and t = t, folded fill_new_def, folded s'_def]
  show "trail s e' ks \<Longrightarrow> trail s' e' ks" using L(1) t by simp
  show "trail s' d (next_inode s # is)" by (rule L(2))
  show "root_dentry s' = root_dentry s" using L(3) by (simp add: add_inode_def)
  show "s_type s' (i_sb w) = TMPFS" using L(4) E w by (simp add: add_inode_def)
  show j: "inodes s' ?j = Some w" using L(5) ne by (simp add: add_inode_simps)
  have i: "inodes s' i = Some (y\<lparr>i_private := Tmpfs_Dir (es @ [\<lparr>e_inode = ?j, e_type = t, e_name = n\<rparr>])\<rparr>)"
    using L(6) E by simp
  have "dir_entries s' k = ((dir_entries s)(i \<mapsto> es @ [\<lparr>e_inode = ?j, e_type = t, e_name = n\<rparr>],
       ?j := if S_ISDIR (i_mode w) then Some [] else None)) k" for k
  proof -
    consider "k = ?j" | "k = i" "k \<noteq> ?j" | "k \<noteq> i" "k \<noteq> ?j" by blast
    then show ?thesis
    proof cases
      case 1
      then show ?thesis using j w(2) by (auto simp: dir_entries_def split: tmpfs_private.splits)
    next
      case 2
      then show ?thesis using i E by (simp add: dir_entries_def)
    next
      case 3
      then have "inodes s' k = inodes s k" using L(5) [of k] by (simp add: add_inode_simps)
      then show ?thesis using 3 by (simp add: dir_entries_def)
    qed
  qed
  then show "dir_entries s' = (dir_entries s)(i \<mapsto> es @ [\<lparr>e_inode = ?j, e_type = t, e_name = n\<rparr>],
       ?j := if S_ISDIR (i_mode w) then Some [] else None)" by blast
qed

section \<open>Operations on a consistent name space\<close>

definition keeps :: "vfs \<Rightarrow> vfs \<Rightarrow> bool" where
  "keeps s s' \<longleftrightarrow> ns_ok s' \<and> (\<forall>d is. trail s d is \<longrightarrow> trail s' d is) \<and> root_dentry s' = root_dentry s"

lemma keeps_grows: "ns_ok s' \<Longrightarrow> grows s s' \<Longrightarrow> keeps s s'"
  by (simp add: keeps_def grows_trail) (simp add: grows_def)

lemma keeps_trans: "keeps s s1 \<Longrightarrow> keeps s1 s2 \<Longrightarrow> keeps s s2"
  by (simp add: keeps_def)

lemma keeps_fill:
  assumes "ns_ok s" and "empty_slot s d is n x p z i y es" and "i_sb w = i_sb y" and "S_ISDIR (i_mode w) \<Longrightarrow> i_private w = Tmpfs_Dir []"
  shows "keeps s (fill_new d x i y es t w s)"
  using fill_new_ok [OF assms] by (simp add: keeps_def)

text \<open>Where a path starts: the inodes of the root, or of the current directory.\<close>

abbreviation start_trail :: "u8 list \<Rightarrow> nat list \<Rightarrow> nat list \<Rightarrow> nat list" where
  "start_trail path ris cis \<equiv> (if is_absolute_path path then ris else cis)"

lemma vfs_lookup_agrees:
  assumes "ns_ok s" and "trail s cwd cis" and "trail s (root_dentry s) ris" and "path \<noteq> []"
  obtains r s' where "vfs_lookup fat cwd path s = Some (r, s')" "ns_ok s'" "grows s s'"
    "agrees (walk s (start_trail path ris cis) (components path)) s' r"
proof -
  let ?st = "if path ! 0 \<noteq> slash then cwd else root_dentry s"
  have abs: "is_absolute_path path \<longleftrightarrow> path ! 0 = slash" using assms(4) by (cases path) (simp_all add: is_absolute_path_def)
  have t: "trail s ?st (start_trail path ris cis)" using assms(2,3) abs by simp
  have refl: "agrees (Found (start_trail path ris cis)) s (Inr ?st)" using t by (simp add: agrees_def)
  consider (dot) "path = [dot]" | (slash) "path = [slash]" | (other) "path \<noteq> [dot]" "path \<noteq> [slash]" by blast
  then show ?thesis
  proof cases
    case dot
    have "components path = [[dot]]" unfolding dot by (rule components_one) simp_all
    then show ?thesis using that [of "Inr ?st" s] refl assms(1) grows_refl dot by (simp add: vfs_lookup_def)
  next
    case slash
    have "components path = []" unfolding slash by (rule components_slashes) simp
    then show ?thesis using that [of "Inr ?st" s] refl assms(1) grows_refl slash by (simp add: vfs_lookup_def)
  next
    case other
    obtain r s' where r: "lookup_path_from fat ?st path s = Some (r, s')" "ns_ok s'" "grows s s'"
      "agrees (walk s (start_trail path ris cis) (components path)) s' r"
      using lookup_path_from_agrees [OF assms(1) t] by blast
    then show ?thesis using that [of r s'] other assms(4) by (simp add: vfs_lookup_def)
  qed
qed

lemma i_op_tmpfs: "s_type s (i_sb y) = TMPFS \<Longrightarrow> i_op fat y s = tmpfs_iops"
  by (simp add: i_op_def)

lemma add_entry_long:
  assumes "dentries s d = Some x" and "\<not> length (d_name x) < NAME_MAX"
  shows "do { s3 \<leftarrow> upd_dentry d (d_inode_update (\<lambda>_. Some j)) s;
              x \<leftarrow> dentries s3 d;
              s4 \<leftarrow> tmpfs_add_entry i j t (d_name x) s3;
              Some (0 :: int, s4) } = None"
  using assms by (auto simp: upd_dentry_def tmpfs_add_entry_def bind_eq_None_conv)

lemma tmpfs_create_long:
  assumes ok: "ns_ok s" and x: "dentries s d = Some x" "\<not> length (d_name x) < NAME_MAX"
  shows "tmpfs_create i d mode s = None"
proof (cases "inodes s i")
  case (Some y)
  obtain w where w: "tmpfs_alloc_inode (i_sb y) s = Some (next_inode s, add_inode (i_sb y) w s)"
    using tmpfs_alloc_inode_ok [OF ok] by blast
  show ?thesis unfolding tmpfs_create_def using add_entry_long [of "add_inode (i_sb y) w' s" d x "next_inode s" i 1 for w'] x Some
    by (simp add: w add_inode_upd add_inode_simps)
qed (simp add: tmpfs_create_def)

lemma create_file_at_ok:
  assumes ok: "ns_ok s" and e: "empty_slot s d is n x p z i y es"
  shows "create_file_at fat d mode s =
     (if length n < NAME_MAX then tmpfs_create i d mode s else None)"
  using e tmpfs_create_long [OF ok, of d x i mode] by (simp add: create_file_at_def empty_slot_def i_op_tmpfs tmpfs_iops_def)

lemma S_ISDIR_reg: "\<not> S_ISDIR (mode OR S_IFREG)"
proof
  assume "S_ISDIR (mode OR S_IFREG)"
  then have "((mode OR S_IFREG) AND S_IFMT) AND S_IFREG = S_IFDIR AND S_IFREG" unfolding S_ISDIR_def by (rule arg_cong)
  moreover have "S_IFMT AND S_IFREG = S_IFREG" "S_IFDIR AND S_IFREG = 0" by code_simp+
  moreover have "(mode OR S_IFREG) AND S_IFREG = S_IFREG" by (rule bit_word_eqI) (auto simp add: bit_and_iff bit_or_iff)
  ultimately have "S_IFREG = 0" unfolding and.assoc by metis
  then show False by simp
qed

text \<open>Opening a dentry with an inode.\<close>

lemma vfs_open_creates:
  assumes ok: "ns_ok s" and t: "trail s cwd cis" "trail s (root_dentry s) ris" and p: "path \<noteq> []"
    and w: "walk s (start_trail path ris cis) (components path) = Missing is n"
    and f: "flags AND O_CREAT \<noteq> 0" "flags AND O_DIRECTORY = 0"
    and n: "length n < NAME_MAX"
  shows "\<exists>d md s' j v es. vfs_open fat cwd path flags mode s = Some (Inr (d, md), s') \<and> keeps s s'
     \<and> trail s' d (j # is) \<and> inodes s j = None \<and> inodes s' j = Some v \<and> i_mode v = mode OR S_IFREG \<and> i_size v = 0 \<and> i_private v = Tmpfs_File []
     \<and> dir_entries s (hd is) = Some es
     \<and> dir_entries s' = (dir_entries s)(hd is \<mapsto> es @ [\<lparr>e_inode = j, e_type = 1, e_name = n\<rparr>])"
proof -
  obtain r s1 where r: "vfs_lookup fat cwd path s = Some (r, s1)" "ns_ok s1" "grows s s1" "agrees (Missing is n) s1 r"
    using vfs_lookup_agrees [OF ok t p] w by metis
  obtain d x p z i y es where d: "r = Inr d" "empty_slot s1 d is n x p z i y es" "dir_entries s (hd is) = Some es"
    using agrees_Missing [OF r(2,3) w r(4)] by metis
  note E = d(2) [unfolded empty_slot_def]
  obtain v where v: "tmpfs_create i d mode s1 = Some (0, fill_new d x i y es 1 v s1)"
    "i_sb v = i_sb y" "i_mode v = mode OR S_IFREG" "i_private v = Tmpfs_File []" "i_size v = 0"
    using tmpfs_create_ok [OF r(2), of d x i y es mode] E n unfolding fill_new_def by metis
  have nd: "\<not> S_ISDIR (i_mode v)" using v(3) S_ISDIR_reg by simp
  let ?j = "next_inode s1" and ?s2 = "fill_new d x i y es 1 v s1"
  note F = fill_new_ok [OF r(2) d(2) v(2), of 1] nd
  obtain u where u: "dentries ?s2 d = Some u" "d_inode u = Some ?j"
    using trailE [OF F(3)] nd by (metis list.inject)
  obtain s3 where s3: "dget d ?s2 = Some s3" "ns_ok s3" "grows ?s2 s3"
    using dget_ok [OF F(1) u(1)] nd by metis
  have v3: "inodes s3 ?j = Some v" "s_type s3 (i_sb v) = TMPFS" using s3(3) F nd by (simp_all add: grows_def)
  have "vfs_open fat cwd path flags mode s = Some (Inr (d, flags OR (flags AND NOT (O_CREAT OR O_EXCL OR O_NOCTTY OR O_TRUNC))), s3)"
    unfolding vfs_open_def using E r(1) d(1) f create_file_at_ok [OF r(2) d(2), of fat mode] n v(1) u F nd s3(1) i_op_tmpfs [OF v3(2)]
    by (simp add: tmpfs_iops_def)
  moreover have "keeps s s3"
    using keeps_trans [OF keeps_grows [OF r(2,3)] keeps_trans [OF keeps_fill [OF r(2) d(2) v(2)] keeps_grows [OF s3(2,3)]]] nd by blast
  moreover have "trail s3 d (?j # is)" using grows_trail [OF s3(3)] F nd by blast
  moreover have "dir_entries s3 = (dir_entries s)(hd is \<mapsto> es @ [\<lparr>e_inode = ?j, e_type = 1, e_name = n\<rparr>])"
  proof -
    have j: "inodes s ?j = None" "hd is = i" using ns_ok_fresh [OF ok] r(3) E by (simp_all add: grows_def)
    then have "dir_entries s ?j = None" by (simp add: dir_entries_def)
    moreover have "i \<noteq> ?j" using j(1) r(3) E by (auto simp: grows_def)
    ultimately show ?thesis using F(7) nd j grows_dir_entries [OF r(3)] grows_dir_entries [OF s3(3)]
      by (auto simp: fun_eq_iff)
  qed
  moreover have "inodes s ?j = None" using ns_ok_fresh [OF ok] r(3) by (simp add: grows_def)
  ultimately show ?thesis using v v3 d(3) by blast
qed

section \<open>Making a directory\<close>

lemma alloc_dentry_ok:
  fixes n :: "u8 list"
  assumes ok: "ns_ok s" and x: "dentries s p = Some x" "d_inode x = Some i" and y: "inodes s i = Some y"
  defines "s1 \<equiv> s\<lparr>dentries := (dentries s)(next_dentry s := Some (new_dentry p n (i_sb y))), next_dentry := next_dentry s + 1\<rparr>"
  shows "alloc_dentry p n s = Some (next_dentry s, s1)" "ns_ok s1" "dentries s1 (next_dentry s) = Some (new_dentry p n (i_sb y))"
    "dentries s1 p = Some x" "inodes s1 = inodes s" "s_type s1 = s_type s" "next_inode s1 = next_inode s"
proof -
  have ne: "next_dentry s \<noteq> p" using fresh_dentry [OF ok] x by auto
  show "alloc_dentry p n s = Some (next_dentry s, s1)" using x y by (simp add: alloc_dentry_def s1_def new_dentry_def)
  have o: "dentries s1 d = (if d = next_dentry s then Some (new_dentry p n (i_sb y)) else dentries s d)" for d by (simp add: s1_def)
  show "dentries s1 (next_dentry s) = Some (new_dentry p n (i_sb y))" "dentries s1 p = Some x" using o ne x by simp_all
  show r: "inodes s1 = inodes s" "s_type s1 = s_type s" "next_inode s1 = next_inode s" by (simp_all add: s1_def)
  have g: "grows s s1"
    by (rule grows_same_children) (use fresh_dentry [OF ok] in \<open>auto simp: s1_def same_node_def\<close>)
  have ty: "s_type s (i_sb y) = TMPFS" using ns_okD(1) [OF ok x(1)] x(2) y by (simp add: dentry_ok_def inode_ok_def)
  show "ns_ok s1"
  proof (rule ns_ok_grows [OF ok g])
    fix d x' assume h: "dentries s1 d = Some x'" "dentries s d \<noteq> None"
    then have "dentries s d = Some x'" using fresh_dentry [OF ok] o by (auto split: if_splits)
    then show "dentry_ok s1 d x'" using dentry_ok_grows [OF g _ ns_okD(1) [OF ok]] by (simp add: same_node_def)
  next
    fix d x' assume h: "dentries s1 d = Some x'" "dentries s d = None"
    then have "d = next_dentry s" "x' = new_dentry p n (i_sb y)" using o by (auto split: if_splits)
    then show "dentry_ok s1 d x' \<and> d < next_dentry s1 \<and> d_inode x' = None"
      using o ne x ty r by (simp add: dentry_ok_def new_dentry_def inode_ok_def) (simp add: s1_def)
  qed (simp add: s1_def)
qed

definition made_dir :: "nat \<Rightarrow> u8 list \<Rightarrow> nat \<Rightarrow> dentry \<Rightarrow> nat \<Rightarrow> inode \<Rightarrow> tmpfs_entry list \<Rightarrow> inode \<Rightarrow> vfs \<Rightarrow> vfs" where
  "made_dir p n d x i y es w s = fill_new d (new_dentry p n (i_sb y)) i y es 2 w (add_negative p n (i_sb y) x s)"

lemma vfs_do_mkdir_ok:
  assumes ok: "ns_ok s" and x: "dentries s p = Some x" "d_inode x = Some i" and y: "inodes s i = Some y" "S_ISDIR (i_mode y)" "i_private y = Tmpfs_Dir es"
    and n: "length n < NAME_MAX"
  obtains w where "vfs_do_mkdir fat p n mode s = Some (0, made_dir p n (next_dentry s) x i y es w s)"
    "i_sb w = i_sb y" "i_mode w = mode OR S_IFDIR" "i_private w = Tmpfs_Dir []"
proof -
  let ?d = "next_dentry s" and ?x = "new_dentry p n (i_sb y)"
  let ?s1 = "s\<lparr>dentries := (dentries s)(next_dentry s := Some (new_dentry p n (i_sb y))), next_dentry := next_dentry s + 1\<rparr>"
  have ne: "?d \<noteq> p" using fresh_dentry [OF ok] x by auto
  have ty: "s_type s (i_sb y) = TMPFS" using ns_okD(1) [OF ok x(1)] x(2) y by (simp add: dentry_ok_def inode_ok_def)
  note A = alloc_dentry_ok [OF ok x y(1), of n]
  have y1: "inodes ?s1 i = Some y" using y(1) by simp
  have n1: "length (d_name ?x) < NAME_MAX" using n by (simp add: new_dentry_def)
  obtain w where w: "tmpfs_mkdir i ?d mode ?s1 = Some (0, add_link ?d ?x i y es (next_inode ?s1) 2 (add_inode (i_sb y) w ?s1))"
    "i_sb w = i_sb y" "i_mode w = mode OR S_IFDIR" "i_private w = Tmpfs_Dir []"
    by (rule tmpfs_mkdir_ok [OF A(2,3) y1 y(3) n1])
  let ?s2 = "add_link ?d ?x i y es (next_inode ?s1) 2 (add_inode (i_sb y) w ?s1)"
  have "dentries ?s2 ?d = Some (?x\<lparr>d_inode := Some (next_inode ?s1)\<rparr>)" "dentries ?s2 p = Some x"
    using ne x by (simp_all add: add_link_def add_inode_def)
  moreover have "d_parent ?x = Some p" by (simp add: new_dentry_def)
  ultimately have "dcache_add ?d ?s2 = Some (?s2\<lparr>dentries := (dentries ?s2)(p := Some (d_children_update (\<lambda>cs. ?d # cs) x))\<rparr>)"
    by (simp add: dcache_add_def upd_dentry_def)
  moreover have "?s2\<lparr>dentries := (dentries ?s2)(p := Some (d_children_update (\<lambda>cs. ?d # cs) x))\<rparr> = made_dir p n ?d x i y es w s"
    using ne by (cases x) (simp add: made_dir_def fill_new_def add_link_def add_inode_def add_negative_def fun_upd_twist)
  ultimately have c: "dcache_add ?d ?s2 = Some (made_dir p n ?d x i y es w s)" by simp
  have "vfs_do_mkdir fat p n mode s = Some (0, made_dir p n ?d x i y es w s)"
    unfolding vfs_do_mkdir_def using x y A(1) w(1) c by (simp add: i_op_tmpfs [OF ty] tmpfs_iops_def)
  then show ?thesis using that w by blast
qed

lemma made_dir_slot:
  assumes ok: "ns_ok s" and t: "trail s p is" and x: "dentries s p = Some x" "d_inode x = Some i" and y: "inodes s i = Some y" "S_ISDIR (i_mode y)" "i_private y = Tmpfs_Dir es"
    and n: "entry_inode es n = None"
  shows "ns_ok (add_negative p n (i_sb y) x s)" "grows s (add_negative p n (i_sb y) x s)"
    "empty_slot (add_negative p n (i_sb y) x s) (next_dentry s) is n (new_dentry p n (i_sb y)) p (x\<lparr>d_children := next_dentry s # d_children x\<rparr>) i y es"
proof -
  have xo: "dentry_ok s p x" by (rule ns_okD(1) [OF ok x(1)])
  have c: "cached_inode s x n = None" using xo x y n by (simp add: dentry_ok_def inode_ok_def)
  have ty: "s_type s (i_sb y) = TMPFS" using xo x y by (simp add: dentry_ok_def inode_ok_def)
  show "ns_ok (add_negative p n (i_sb y) x s)" by (rule ns_ok_add_negative [OF ok x y(1,2) c])
  show g: "grows s (add_negative p n (i_sb y) x s)" by (rule grows_add_negative [OF ok x(1) c])
  have ne: "next_dentry s \<noteq> p" using fresh_dentry [OF ok] x by auto
  obtain "ks" where "is = i # ks" using trailE [OF t] x by (metis option.inject)
  then show "empty_slot (add_negative p n (i_sb y) x s) (next_dentry s) is n (new_dentry p n (i_sb y)) p (x\<lparr>d_children := next_dentry s # d_children x\<rparr>) i y es"
    using grows_trail [OF g t] ne x y ty n
    by (simp add: empty_slot_def) (simp add: add_negative_def new_dentry_def)
qed

lemma walk_Found_mono:
  assumes "\<And>k es. dir_entries s k = Some es \<Longrightarrow> \<exists>es'. dir_entries s' k = Some (es @ es')"
  shows "walk s is ns = Found js \<Longrightarrow> walk s' is ns = Found js"
  using assms
proof (induction s "is" ns rule: walk.induct)
  case (2 s "is" n ns)
  show ?case
  proof (cases "n = [dot] \<or> n = [dot, dot]")
    case True
    then show ?thesis using 2 by auto
  next
    case False
    then obtain es i where es: "dir_entries s (hd is) = Some es" "entry_inode es n = Some i" "walk s (i # is) ns = Found js"
      using "2.prems"(1) by (auto split: option.splits)
    obtain es' where es': "dir_entries s' (hd is) = Some (es @ es')" using "2.prems"(2) [OF es(1)] by blast
    have "entry_inode (es @ es') n = Some i"
      using es(2) by (induction es' rule: rev_induct) (simp_all add: entry_inode_append flip: append_assoc)
    then show ?thesis using 2(3) False es es' "2.prems"(2) by simp
  qed
qed simp

lemma walk_snoc_Missing:
  assumes "walk s st (ns @ [n]) = Missing is n" and "walk s st ns = Found is"
  shows "n \<noteq> [dot]" "n \<noteq> [dot, dot]"
  using assms by (auto simp: walk_append split: if_splits)

text \<open>The directory has one entry more: the path is there.\<close>

lemma walk_new_entry:
  assumes w: "walk s st ns = Found is" "walk s st (ns @ [n]) = Missing is n"
    and e: "dir_entries s (hd is) = Some es"
    and d: "dir_entries s' = (dir_entries s)(hd is \<mapsto> es @ [\<lparr>e_inode = j, e_type = t, e_name = n\<rparr>], j := new)"
    and j: "dir_entries s j = None"
  shows "walk s' st (ns @ [n]) = Found (j # is)"
proof -
  have ne: "hd is \<noteq> j" using e j by auto
  have "walk s' st ns = Found is"
    by (rule walk_Found_mono [OF _ w(1)]) (use d e j in auto)
  moreover have "entry_inode es n = None"
    using w e walk_snoc_Missing [OF w(2,1)] by (auto simp: walk_append split: option.splits)
  ultimately show ?thesis using walk_snoc_Missing [OF w(2,1)] d ne by (simp add: walk_append entry_inode_append)
qed

lemma cstr_term: "0 \<notin> set d \<Longrightarrow> cstr (d @ [0]) = d"
  by (induction d) (auto simp: cstr_def)

lemma vfs_mkdir_new:
  assumes ok: "ns_ok s" and t: "trail s cwd cis" "trail s (root_dentry s) ris"
    and b: "str_at buf 0 path" "path \<noteq> []" "last path \<noteq> slash" "length path < PATH_MAX"
    and c: "components path = ns @ [n]" "length n < NAME_MAX"
    and w: "walk s (start_trail path ris cis) ns = Found is" "walk s (start_trail path ris cis) (ns @ [n]) = Missing is n"
  obtains j es v s' where "vfs_mkdir fat cwd buf mode s = Some (0, s')" "keeps s s'" "inodes s j = None" "inodes s' j = Some v"
    "i_mode v = mode OR S_IFDIR" "dir_entries s (hd is) = Some es"
    "dir_entries s' = (dir_entries s)(hd is \<mapsto> es @ [\<lparr>e_inode = j, e_type = 2, e_name = n\<rparr>],
        j := if S_ISDIR (mode OR S_IFDIR) then Some [] else None)"
proof -
  have "\<And>m. length m \<le> length path \<Longrightarrow> last (components path) = m \<Longrightarrow> length m < NAME_MAX" using c by simp
  from dirname_split [OF b this] obtain d where d: "get_dirname buf PATH_MAX = Some (0, d @ [0])"
    "get_basename buf NAME_MAX = Some (0, n @ [0])" "is_absolute_path d = is_absolute_path path"
    "ns = (if slash \<in> set path then components d else [])" "slash \<in> set path \<or> d = [dot]" "0 \<notin> set d" "0 \<notin> set n" "d \<noteq> []"
    unfolding c(1) by auto
  have cs: "cstr (d @ [0]) = d" "cstr (n @ [0]) = n" using d(6,7) by (simp_all add: cstr_term)
  have "walk s (start_trail d ris cis) (components d) = Found is"
    using w(1) d(3-5) components_one [of "[dot]"] by (cases "slash \<in> set path") auto
  with vfs_lookup_agrees [OF ok t d(8), of fat] obtain r s1 where r: "vfs_lookup fat cwd d s = Some (r, s1)" "ns_ok s1" "grows s s1"
    "agrees (Found is) s1 r" by metis
  obtain p where p: "r = Inr p" "trail s1 p is" using r(4) by (auto simp: agrees_def)
  obtain i x where x: "hd is = i" "dentries s1 p = Some x" "d_inode x = Some i" using trailE [OF p(2)] by (metis list.sel(1))
  obtain es where es: "dir_entries s i = Some es" "entry_inode es n = None" using walk_Missing [OF w(2)] x by auto
  then obtain y where y: "inodes s1 i = Some y" "S_ISDIR (i_mode y)" "i_private y = Tmpfs_Dir es"
    using grows_dir_entries [OF r(3)] dir_entries_Some [of s1 i es] by auto
  obtain v where v: "vfs_do_mkdir fat p n mode s1 = Some (0, made_dir p n (next_dentry s1) x i y es v s1)"
    "i_sb v = i_sb y" "i_mode v = mode OR S_IFDIR" "i_private v = Tmpfs_Dir []"
    by (rule vfs_do_mkdir_ok [OF r(2) x(2,3) y c(2)])
  note M = made_dir_slot [OF r(2) p(2) x(2,3) y es(2)]
  let ?s2 = "add_negative p n (i_sb y) x s1" and ?s3 = "made_dir p n (next_dentry s1) x i y es v s1"
  have nx: "next_inode ?s2 = next_inode s" using r(3) by (simp add: add_negative_def grows_def)
  note F = fill_new_ok [OF M(1,3) v(2) v(4), of 2, folded made_dir_def, unfolded nx v(3)]
  have k: "keeps s ?s3"
    using keeps_trans [OF keeps_grows [OF r(2,3)] keeps_trans [OF keeps_grows [OF M(1,2)] keeps_fill [OF M(1,3) v(2,4)]]]
    by (simp add: made_dir_def)
  have ds: "dir_entries ?s2 = dir_entries s" using grows_dir_entries [OF M(2)] grows_dir_entries [OF r(3)] by simp
  have m: "vfs_mkdir fat cwd buf mode s = Some (0, ?s3)"
    unfolding vfs_mkdir_def get_parent_dentry_def using d(1,2) cs r(1) p(1) v(1) by simp
  show ?thesis
    by (rule that [OF m k ns_ok_fresh [OF ok] F(6) v(3), of es]) (use es(1) x(1) F(7) ds in simp_all)
qed

lemma vfs_open_keeps:
  assumes ok: "ns_ok s" and t: "trail s cwd cis" "trail s (root_dentry s) ris" and p: "path \<noteq> []"
    and o1: "vfs_open fat cwd path flags mode s = Some (r, s')"
  shows "keeps s s'"
proof -
  obtain r1 s1 where r: "vfs_lookup fat cwd path s = Some (r1, s1)" "ns_ok s1" "grows s s1"
    "agrees (walk s (start_trail path ris cis) (components path)) s1 r1"
    using vfs_lookup_agrees [OF ok t p] by metis
  note k1 = keeps_grows [OF r(2,3)]
  have opened: "keeps s s'" if k: "keeps s s2" and x: "dentries s2 d = Some x" "d_inode x = Some i"
    and q: "do { z \<leftarrow> dentries s2 d; i \<leftarrow> d_inode z; y \<leftarrow> inodes s2 i;
             (if S_ISDIR (i_mode y) \<and> flags AND O_ACCMODE \<noteq> 0 then Some (Inl (- EISDIR), s2)
              else if \<not> S_ISDIR (i_mode y) \<and> flags AND O_DIRECTORY \<noteq> 0 then Some (Inl (- ENOTDIR), s2)
              else do {
                s3 \<leftarrow> dget d s2;
                (let e = op_open (i_op fat y s3) i s3 in
                 if e < 0 then map_option (\<lambda>s4. (Inl e, s4)) (dput d s3)
                 else Some (Inr (d, flags OR (flags AND NOT (O_CREAT OR O_EXCL OR O_NOCTTY OR O_TRUNC))), s3)) }) } = Some (r, s')" for s2 d x i
  proof -
    have ok2: "ns_ok s2" using k by (simp add: keeps_def)
    obtain y where y: "inodes s2 i = Some y" "s_type s2 (i_sb y) = TMPFS" using inode_ok_dir [OF ok2 x] by metis
    obtain s3 where s3: "dget d s2 = Some s3" "ns_ok s3" "grows s2 s3" using dget_ok [OF ok2 x(1)] by metis
    have "i_op fat y s3 = tmpfs_iops" using y(2) s3(3) by (intro i_op_tmpfs) (simp add: grows_def)
    then have "s' = s2 \<or> s' = s3" using q x y s3(1) by (auto simp: tmpfs_iops_def split: if_splits)
    then show ?thesis using k keeps_trans [OF k keeps_grows [OF s3(2,3)]] by blast
  qed
  show ?thesis
  proof (cases r1)
    case (Inl e)
    then show ?thesis using o1 r(1) k1 by (simp add: vfs_open_def)
  next
    case (Inr d)
    consider (found) "is" where "walk s (start_trail path ris cis) (components path) = Found is"
      | (missing) "is" n where "walk s (start_trail path ris cis) (components path) = Missing is n"
      using r(4) Inr by (cases "walk s (start_trail path ris cis) (components path)") (auto simp: agrees_def)
    then show ?thesis
    proof cases
      case found
      then have "trail s1 d is" using r(4) Inr by (simp add: agrees_def)
      then obtain i x where x: "dentries s1 d = Some x" "d_inode x = Some i" using trailE by metis
      show ?thesis
      proof (cases "flags AND O_CREAT \<noteq> 0 \<and> flags AND O_EXCL \<noteq> 0")
        case True
        then show ?thesis using o1 k1 by (simp add: vfs_open_def r(1) Inr x)
      next
        case False
        show ?thesis by (rule opened [OF k1 x]) (use o1 False in \<open>simp add: vfs_open_def r(1) Inr x\<close>)
      qed
    next
      case missing
      obtain d' x q z i y es where d: "r1 = Inr d'" "empty_slot s1 d' is n x q z i y es"
        using agrees_Missing [OF r(2,3) missing r(4) [unfolded missing]] by metis
      note E = d(2) [unfolded empty_slot_def]
      have dx: "dentries s1 d = Some x" "d_inode x = None" "d' = d" using E d(1) Inr by simp_all
      show ?thesis
      proof (cases "flags AND O_CREAT = 0")
        case True
        then show ?thesis using o1 k1 by (simp add: vfs_open_def r(1) Inr dx)
      next
        case False
        have "\<exists>v. tmpfs_create i d mode s1 = Some (0, fill_new d x i y es 1 v s1) \<and> i_sb v = i_sb y \<and> \<not> S_ISDIR (i_mode v)"
          if n: "length n < NAME_MAX"
          using tmpfs_create_ok [OF r(2), of d x i y es mode] E dx n S_ISDIR_reg unfolding fill_new_def by metis
        moreover have n: "length n < NAME_MAX"
          using o1 False create_file_at_ok [OF r(2) d(2), of fat mode] dx
          by (cases "length n < NAME_MAX") (simp_all add: vfs_open_def r(1) Inr)
        ultimately obtain v where v: "tmpfs_create i d mode s1 = Some (0, fill_new d x i y es 1 v s1)" "i_sb v = i_sb y" "\<not> S_ISDIR (i_mode v)"
          by blast
        define s2 where s2: "s2 = fill_new d x i y es 1 v s1"
        have sl: "empty_slot s1 d is n x q z i y es" using d(2) dx(3) by simp
        have nd: "S_ISDIR (i_mode v) \<Longrightarrow> i_private v = Tmpfs_Dir []" using v(3) by simp
        have k2: "keeps s s2" unfolding s2 by (rule keeps_trans [OF k1 keeps_fill [OF r(2) sl v(2) nd]])
        obtain u j where u: "dentries s2 d = Some u" "d_inode u = Some j"
          using trailE [OF fill_new_ok(3) [OF r(2) sl v(2) nd, of 1, folded s2]] by metis
        show ?thesis
          by (rule opened [OF k2 u])
            (use o1 False create_file_at_ok [OF r(2) sl, of fat mode] n v(1) [folded s2] in \<open>simp add: vfs_open_def r(1) Inr dx(1,2)\<close>)
      qed
    qed
  qed
qed

section \<open>Reachable name spaces\<close>

text \<open>
  The states of a tmpfs volume after lookups, opens and the making of directories that were not there,
  from the root that \<open>tmpfs_init\<close> makes.  A current directory is any dentry with an inode.
\<close>

inductive reach :: "iops \<Rightarrow> vfs \<Rightarrow> bool" for fat where
  init: "dentries s = (\<lambda>_. None) \<Longrightarrow> inodes s = (\<lambda>_. None) \<Longrightarrow> s_inodes s = (\<lambda>_. []) \<Longrightarrow> s_type s sb = TMPFS
    \<Longrightarrow> tmpfs_init sb s = Some (d, s1) \<Longrightarrow> reach fat (s1\<lparr>root_dentry := d\<rparr>)"
| look: "reach fat s \<Longrightarrow> trail s cwd cis \<Longrightarrow> vfs_lookup fat cwd path s = Some (r, s') \<Longrightarrow> reach fat s'"
| opn: "reach fat s \<Longrightarrow> trail s cwd cis \<Longrightarrow> path \<noteq> [] \<Longrightarrow> vfs_open fat cwd path flags mode s = Some (ro, s') \<Longrightarrow> reach fat s'"
| mkd: "reach fat s \<Longrightarrow> trail s cwd cis \<Longrightarrow> trail s (root_dentry s) ris \<Longrightarrow> str_at buf 0 path \<Longrightarrow> path \<noteq> [] \<Longrightarrow> last path \<noteq> slash
    \<Longrightarrow> length path < PATH_MAX \<Longrightarrow> components path = ns @ [n] \<Longrightarrow> length n < NAME_MAX
    \<Longrightarrow> walk s (start_trail path ris cis) ns = Found is \<Longrightarrow> walk s (start_trail path ris cis) (ns @ [n]) = Missing is n
    \<Longrightarrow> vfs_mkdir fat cwd buf mode s = Some (e, s') \<Longrightarrow> reach fat s'"

lemma tmpfs_init_ok:
  assumes "dentries s = (\<lambda>_. None)" and "inodes s = (\<lambda>_. None)" and "s_inodes s = (\<lambda>_. [])" and "s_type s sb = TMPFS"
    and "tmpfs_init sb s = Some (d, s1)"
  shows "ns_ok (s1\<lparr>root_dentry := d\<rparr>) \<and> trail (s1\<lparr>root_dentry := d\<rparr>) d [next_inode s]"
proof -
  let ?s = "s1\<lparr>root_dentry := d\<rparr>" and ?j = "next_inode s"
  obtain y where s1: "d = next_dentry s" "dentries ?s = (\<lambda>_. None)(d := Some \<lparr>d_count = 1, d_parent = None, d_name = [], d_inode = Some ?j, d_sb = sb,
       d_children = [], d_mount = None\<rparr>)" "inodes ?s = (\<lambda>_. None)(?j := Some y)" "s_type ?s = s_type s" "next_inode ?s = ?j + 1"
    "next_dentry ?s = d + 1" "s_inodes ?s = (\<lambda>_. [])(sb := [?j])"
    and y: "i_sb y = sb" "i_private y = Tmpfs_Dir []" "i_mode y = 0x41C0"
    using assms by (auto simp: tmpfs_init_def tmpfs_alloc_inode_def list_add_inode_def upd_inode_def Let_def)
  have dir: "S_ISDIR (i_mode y)" unfolding y S_ISDIR_def by code_simp
  have "dentry_ok ?s e x \<and> e < next_dentry ?s" if q: "dentries ?s e = Some x" for e x
  proof -
    have e: "e = d" "x = \<lparr>d_count = 1, d_parent = None, d_name = [], d_inode = Some ?j, d_sb = sb, d_children = [], d_mount = None\<rparr>"
      using q by (auto simp: s1(2) split: if_splits)
    have "inode_ok ?s x" unfolding inode_ok_def
      by (simp only: e dentry.simps option.case s1(3,4), rule exI [of _ y]) (simp add: y dir assms(4) entry_inode_def cached_inode_def)
    then show ?thesis using assms(4) by (simp add: e dentry_ok_def s1(4,6))
  qed
  then have "ns_ok ?s" unfolding ns_ok_def by (simp add: s1(2-7))
  then show ?thesis by (simp add: s1(2))
qed

lemma reach_ok: "reach fat s \<Longrightarrow> ns_ok s \<and> (\<exists>ris. trail s (root_dentry s) ris)"
proof (induction rule: reach.induct)
  case (init s sb d s1)
  then show ?case using tmpfs_init_ok [OF init(1-5)] by (simp del: trail.simps) blast
next
  case (look s cwd cis path r s')
  then obtain ris where ris: "trail s (root_dentry s) ris" by blast
  have "keeps s s'"
  proof (cases "path = []")
    case True
    then show ?thesis using look by (simp add: vfs_lookup_def keeps_def)
  next
    case False
    then show ?thesis using vfs_lookup_agrees [OF _ look(2) ris False, of fat] look keeps_grows by (metis option.inject prod.inject)
  qed
  then show ?case using ris by (auto simp: keeps_def)
next
  case (opn s cwd cis path flags mode ro s')
  then obtain ris where ris: "trail s (root_dentry s) ris" by blast
  have "keeps s s'" using vfs_open_keeps [OF _ opn(2) ris opn(3,4)] opn by blast
  then show ?case using ris by (auto simp: keeps_def)
next
  case (mkd s cwd cis ris buf path ns n "is" mode e s')
  have ok: "ns_ok s" using mkd by blast
  obtain s'' where "vfs_mkdir fat cwd buf mode s = Some (0, s'')" "keeps s s''"
    by (rule vfs_mkdir_new [OF ok mkd(2-11)])
  then have "keeps s s'" using mkd by simp
  then show ?case using mkd(3) by (auto simp: keeps_def)
qed

section \<open>Properties\<close>

text \<open>A volume with nothing but a root, for the examples.\<close>

definition empty_vfs :: vfs where
  "empty_vfs = \<lparr>dentries = (\<lambda>_. None), inodes = (\<lambda>_. None), s_type = (\<lambda>_. TMPFS), s_inodes = (\<lambda>_. []), mnt_root = (\<lambda>_. None),
     root_dentry = 0, next_dentry = 0, next_inode = 0, last_ino = 0, now = 0\<rparr>"

definition root_inode :: inode where
  "root_inode = \<lparr>i_mode = S_IFDIR OR 0x1C0, i_sb = 0, i_ino = 1, i_count = 1, i_nlink = 1, i_size = 0, i_atime = 0, i_mtime = 0, i_ctime = 0,
     i_private = Tmpfs_Dir []\<rparr>"

definition tmpfs_volume :: vfs where
  "tmpfs_volume = empty_vfs\<lparr>inodes := (\<lambda>_. None)(0 := Some root_inode), s_inodes := (\<lambda>_. [])(0 := [0]), next_inode := 1, last_ino := 1,
     dentries := (\<lambda>_. None)(0 := Some \<lparr>d_count = 1, d_parent = None, d_name = [], d_inode = Some 0, d_sb = 0, d_children = [], d_mount = None\<rparr>),
     next_dentry := 1\<rparr>"

lemma tmpfs_volume_reach: "reach fat tmpfs_volume" and tmpfs_volume_trail: "trail tmpfs_volume 0 [0]"
  and tmpfs_volume_root: "root_dentry tmpfs_volume = 0" and tmpfs_volume_dir: "dir_entries tmpfs_volume 0 = Some []"
  and tmpfs_volume_ok: "ns_ok tmpfs_volume"
proof -
  have i: "tmpfs_init 0 empty_vfs = Some (0, tmpfs_volume)"
    by (simp add: tmpfs_init_def tmpfs_alloc_inode_def list_add_inode_def upd_inode_def Let_def empty_vfs_def tmpfs_volume_def root_inode_def)
  have z: "tmpfs_volume\<lparr>root_dentry := 0\<rparr> = tmpfs_volume" by (simp add: tmpfs_volume_def empty_vfs_def)
  show "reach fat tmpfs_volume" for fat
    using reach.init [of empty_vfs 0 0 tmpfs_volume fat] i z by (simp add: empty_vfs_def)
  then show "ns_ok tmpfs_volume" using reach_ok by blast
  show "trail tmpfs_volume 0 [0]" "root_dentry tmpfs_volume = 0" by (simp_all add: tmpfs_volume_def empty_vfs_def)
  have "S_ISDIR (S_IFDIR OR 0x1C0)" unfolding S_ISDIR_def by code_simp
  then show "dir_entries tmpfs_volume 0 = Some []" by (simp add: tmpfs_volume_def dir_entries_def root_inode_def)
qed

text \<open>
  C23. Path lookup on a tmpfs volume to which only lookups, opens (which may make files) and the making of
  directories whose name is not there, by paths without a slash at the end, have been done: a lookup
  through the cache of dentries ends where a walk over the directories ends: at a dentry whose inodes, up to the
  root, are those of the walk; at a negative dentry for the first name that is missing; or with
  \<open>ENOTDIR\<close> at something that is not a directory.  It changes no directory, and follows no freed
  or null pointer.  (After an \<open>unlink\<close>, or a \<open>mkdir\<close> of a name that is there, cache and
  directories disagree: \<open>unlinked_name_still_opens\<close>, \<open>mkdir_hides_existing\<close>.)
\<close>

theorem path_lookup_walks_directories:
  assumes "reach fat s" and "trail s cwd cis" and "trail s (root_dentry s) ris" and "path \<noteq> []"
  shows "\<exists>r s'. vfs_lookup fat cwd path s = Some (r, s') \<and> dir_entries s' = dir_entries s
    \<and> agrees (walk s (if is_absolute_path path then ris else cis) (components path)) s' r"
  using vfs_lookup_agrees [OF _ assms(2-4), of fat] reach_ok [OF assms(1)] grows_dir_entries by metis

theorem path_lookup_walks_directories_witness:
  "\<exists>r s'. vfs_lookup tmpfs_iops 0 [47, 97] tmpfs_volume = Some (r, s') \<and> agrees (Missing [0] [97]) s' r"
proof -
  have "components [47, 97] = [[97]]"
    using components_append [of "[]" "[97]"] components_slashes [of "[]"] components_one [of "[97]"] by simp
  then have "walk tmpfs_volume [0] (components [47, 97]) = Missing [0] [97]"
    using tmpfs_volume_dir by (simp add: entry_inode_def)
  then show ?thesis
    using path_lookup_walks_directories [of tmpfs_iops tmpfs_volume 0 "[0]" "[0]" "[47, 97]"] tmpfs_volume_reach tmpfs_volume_trail tmpfs_volume_root
    by (simp add: is_absolute_path_def del: components.simps) blast
qed



text \<open>
  C24. Making a directory on such a volume, by a path shorter than 1024 bytes that does not end in a slash,
  whose last name is shorter than 64 bytes and not there while its parent is: the call returns 0, and a lookup
  of the path then finds the new, empty directory below the parent.  (With a slash at the end the path
  is lost, \<open>trailing_slash_loses_path\<close>; of a name that is there, see \<open>mkdir_hides_existing\<close>.)
\<close>

theorem mkdir_then_lookup:
  assumes "reach fat s" and "trail s cwd cis" and "trail s (root_dentry s) ris"
    and "str_at buf 0 path" and "path \<noteq> []" and "last path \<noteq> slash" and "length path < 1024"
    and "components path = ns @ [n]" and "length n < 64"
    and "walk s (if is_absolute_path path then ris else cis) ns = Found is"
    and "walk s (if is_absolute_path path then ris else cis) (ns @ [n]) = Missing is n"
    and "S_ISDIR (mode OR 0x4000)"
  shows "\<exists>s' j d s''. vfs_mkdir fat cwd buf mode s = Some (0, s') \<and> reach fat s' \<and> dir_entries s j = None \<and> dir_entries s' j = Some []
     \<and> vfs_lookup fat cwd path s' = Some (Inr d, s'') \<and> trail s'' d (j # is)"
proof -
  have ok: "ns_ok s" using reach_ok [OF assms(1)] by blast
  obtain j es v s' where m: "vfs_mkdir fat cwd buf mode s = Some (0, s')" "keeps s s'" "inodes s j = None" "inodes s' j = Some v"
    "i_mode v = mode OR S_IFDIR" "dir_entries s (hd is) = Some es"
    "dir_entries s' = (dir_entries s)(hd is \<mapsto> es @ [\<lparr>e_inode = j, e_type = 2, e_name = n\<rparr>],
        j := if S_ISDIR (mode OR S_IFDIR) then Some [] else None)"
    by (rule vfs_mkdir_new [OF ok assms(2-11)])
  have j: "dir_entries s j = None" using m(3) by (simp add: dir_entries_def)
  have w: "walk s' (start_trail path ris cis) (components path) = Found (j # is)"
    unfolding assms(8) by (rule walk_new_entry [OF assms(10,11) m(6,7) j])
  have t: "trail s' cwd cis" "trail s' (root_dentry s') ris" "ns_ok s'" using m(2) assms(2,3) by (simp_all add: keeps_def)
  obtain r s'' where r: "vfs_lookup fat cwd path s' = Some (r, s'')" "agrees (Found (j # is)) s'' r"
    using vfs_lookup_agrees [OF t(3,1,2) assms(5), of fat] w by metis
  then obtain d where "r = Inr d" "trail s'' d (j # is)" by (auto simp: agrees_def)
  moreover have "reach fat s'" by (rule reach.mkd [OF assms(1-11) m(1)])
  moreover have "dir_entries s' j = Some []" using m(7) assms(12) by simp
  ultimately show ?thesis using m(1) j r(1) by blast
qed

theorem mkdir_then_lookup_witness:
  "\<exists>s' j d s''. vfs_mkdir tmpfs_iops 0 [47, 97, 0] 0x1ED tmpfs_volume = Some (0, s') \<and> dir_entries s' j = Some []
     \<and> vfs_lookup tmpfs_iops 0 [47, 97] s' = Some (Inr d, s'') \<and> trail s'' d [j, 0]"
proof -
  have c: "components [47, 97] = [] @ [[97]]"
    using components_append [of "[]" "[97]"] components_slashes [of "[]"] components_one [of "[97]"] by simp
  have w: "walk tmpfs_volume [0] ([] @ [[97]]) = Missing [0] [97]"
    using tmpfs_volume_dir by (simp add: entry_inode_def)
  have d: "S_ISDIR (0x1ED OR 0x4000)" unfolding S_ISDIR_def by code_simp
  have "str_at [47, 97, 0] 0 [47, 97 :: u8]" by (simp add: str_at_0)
  then show ?thesis
    using mkdir_then_lookup [of tmpfs_iops tmpfs_volume 0 "[0]" "[0]" "[47, 97, 0]" "[47, 97]" "[]" "[97]" "[0]" "0x1ED"]
      tmpfs_volume_reach tmpfs_volume_trail tmpfs_volume_root c w d
    by (simp add: is_absolute_path_def del: components.simps trail.simps) blast
qed

text \<open>A path of one name, from the current directory.\<close>

definition one_name :: "u8 list \<Rightarrow> bool" where
  "one_name n \<longleftrightarrow> n \<noteq> [] \<and> slash \<notin> set n \<and> n \<noteq> [dot] \<and> n \<noteq> [dot, dot]"

lemma vfs_lookup_one:
  assumes n: "one_name n" and x: "dentries s p = Some x" and l: "lookup_name fat p n s = Some (Inr (d, b), s1)"
  shows "vfs_lookup fat p n s = Some (Inr d, s1)"
proof -
  have c: "next_path_component n = Some (n, [])" using n by (simp add: next_path_component_Some one_name_def dropWhile_eq_self_iff hd_in_set)
      (metis hd_in_set)
  have e: "lookup_path_from fat d [] s1 = Some (Inr d, s1)"
    by (subst lookup_path_from.simps) (simp add: next_path_component_None [THEN iffD2])
  have "lookup_path_from fat p n s = Some (Inr d, s1)"
    by (subst lookup_path_from.simps) (use c n x l e in \<open>simp add: one_name_def\<close>)
  moreover have "n ! 0 \<noteq> slash" "n \<noteq> [slash]" using n by (cases n; auto simp: one_name_def)+
  ultimately show ?thesis using n by (simp add: vfs_lookup_def one_name_def)
qed

text \<open>A name in the cache is found there, whatever the directories say.\<close>

lemma lookup_name_cached:
  assumes "dentries s p = Some x" and "s_type s (d_sb x) = TMPFS" and "find_child n (d_children x) s = Some (Some d)"
    and "dentries s d = Some z" and "d_inode z = Some j" and "d_mount z = None"
  shows "\<exists>s1. lookup_name fat p n s = Some (Inr (d, False), s1) \<and> dget d s = Some s1"
  using assms by (simp add: lookup_name_def dlookup_def dget_def upd_dentry_def)

lemma remove_entry_split:
  assumes "entry_inode es n = Some j"
  obtains "as" e bs where "es = as @ e # bs" "e_name e = n" "e_inode e = j"
    "takeWhile (\<lambda>e. \<not> (e_inode e = j \<and> e_name e = n)) es @ tl (dropWhile (\<lambda>e. \<not> (e_inode e = j \<and> e_name e = n)) es) = as @ bs"
proof -
  let ?P = "\<lambda>e. \<not> (e_inode e = j \<and> e_name e = n)"
  obtain e0 where "List.find (\<lambda>e. e_name e = n) es = Some e0" "e_inode e0 = j"
    using assms unfolding entry_inode_def by auto
  then have "e0 \<in> set es" "\<not> ?P e0" by (auto simp: find_Some_iff)
  then have ne: "dropWhile ?P es \<noteq> []" by (auto simp: dropWhile_eq_Nil_conv)
  then obtain e bs where d: "dropWhile ?P es = e # bs" by (cases "dropWhile ?P es") auto
  then have "\<not> ?P e" using hd_dropWhile [OF ne] by simp
  moreover have "es = takeWhile ?P es @ e # bs" using d takeWhile_dropWhile_id [of ?P es] by simp
  ultimately show ?thesis using that d by simp
qed

text \<open>The volume with one file, \<open>a\<close>, for the examples.\<close>

lemma volume_with_file:
  obtains s j v where "reach tmpfs_iops s" "trail s 0 [0]" "dir_entries s 0 = Some [\<lparr>e_inode = j, e_type = 1, e_name = [97]\<rparr>]"
    "inodes s j = Some v" "\<not> S_ISDIR (i_mode v)"
proof -
  have "components [97] = [[97]]" by (rule components_one) simp_all
  then have w: "walk tmpfs_volume [0] (components [97]) = Missing [0] [97]"
    using tmpfs_volume_dir by (simp add: entry_inode_def)
  have ab: "\<not> is_absolute_path [97]" by (simp add: is_absolute_path_def)
  obtain d md s j v where o1: "vfs_open tmpfs_iops 0 [97] 0x200 0x1A4 tmpfs_volume = Some (Inr (d, md), s)" "keeps tmpfs_volume s"
      "inodes s j = Some v" "i_mode v = 0x1A4 OR S_IFREG"
      "dir_entries s = (dir_entries tmpfs_volume)(0 \<mapsto> [] @ [\<lparr>e_inode = j, e_type = 1, e_name = [97]\<rparr>])"
    using vfs_open_creates [of tmpfs_volume 0 "[0]" "[0]" "[97]" "[0]" "[97]" "0x200" tmpfs_iops "0x1A4"]
      tmpfs_volume_ok tmpfs_volume_trail tmpfs_volume_root w ab tmpfs_volume_dir by auto
  have r: "reach tmpfs_iops s" by (rule reach.opn [OF tmpfs_volume_reach tmpfs_volume_trail _ o1(1)]) simp
  have t: "trail s 0 [0]" using o1(2) tmpfs_volume_trail unfolding keeps_def by blast
  have e: "dir_entries s 0 = Some [\<lparr>e_inode = j, e_type = 1, e_name = [97]\<rparr>]" using o1(5) by simp
  have f: "\<not> S_ISDIR (i_mode v)" unfolding o1(4) by (rule S_ISDIR_reg)
  show ?thesis by (rule that [OF r t e o1(3) f])
qed

lemma volume_entry: "entry_inode [\<lparr>e_inode = j, e_type = 1, e_name = [97]\<rparr>] [97] = Some j"
  by (simp add: entry_inode_def)

text \<open>
  Unlinking a file removes its entry from the directory and one from its link count, but the dentry stays in
  the cache with its inode: the name can still be opened, without \<open>O_CREAT\<close>, and gives the
  file that was unlinked.
\<close>

theorem unlinked_name_still_opens:
  assumes "reach fat s" and "trail s p (i # js)" and "one_name n"
    and "dir_entries s i = Some es" and "entry_inode es n = Some j" and "inodes s j = Some w" and "\<not> S_ISDIR (i_mode w)"
  shows "\<exists>s' s'' d as e bs. vfs_unlink fat p n s = Some (0, s')
    \<and> es = as @ e # bs \<and> e_name e = n \<and> dir_entries s' i = Some (as @ bs)
    \<and> inodes s' j = Some (w\<lparr>i_nlink := i_nlink w - 1\<rparr>)
    \<and> vfs_open fat p n 0 0 s' = Some (Inr (d, 0), s'') \<and> map_option d_inode (dentries s'' d) = Some (Some j)"
proof -
  have ok: "ns_ok s" using reach_ok [OF assms(1)] by blast
  obtain x where x: "dentries s p = Some x" "d_inode x = Some i" using trailE [OF assms(2)] by (metis list.inject)
  obtain r s1 where r: "lookup_name fat p n s = Some (r, s1)" "ns_ok s1" "grows s s1" "name_step s p n s1 i r"
    using lookup_name_ok [OF ok x] by metis
  obtain d z x1 where d: "dentries s1 d = Some z" "d_parent z = Some p" "d_name z = n" "dentries s1 p = Some x1"
    "find_child n (d_children x1) s1 = Some (Some d)" "d_inode z = Some j" "r = Inr (d, False)"
    using r(4) assms(4,5) by (auto simp: name_step_def)
  have x1: "d_inode x1 = Some i" using growsD [OF r(3) x(1)] d(4) x(2) by (auto simp: same_node_def)
  have in1: "inodes s1 j = Some w" "dir_entries s1 = dir_entries s" using assms(6) r(3) grows_dir_entries by (simp_all add: grows_def)
  obtain y where y: "inodes s1 i = Some y" "S_ISDIR (i_mode y)" "i_private y = Tmpfs_Dir es"
    using assms(4) in1(2) dir_entries_Some by metis
  have ty: "s_type s1 (i_sb y) = TMPFS" "s_type s1 (d_sb x1) = TMPFS" "d_mount z = None"
    using ns_okD(1) [OF r(2) d(4)] x1 y ns_okD(1) [OF r(2) d(1)] by (simp_all add: dentry_ok_def inode_ok_def)
  have tw: "s_type s1 (i_sb w) = TMPFS" using ns_okD(1) [OF r(2) d(1)] d(6) in1(1) by (simp add: dentry_ok_def inode_ok_def)
  have ij: "i \<noteq> j" using y in1 assms(7) by auto
  obtain "as" e bs where e: "es = as @ e # bs" "e_name e = n" "e_inode e = j"
    "takeWhile (\<lambda>e. \<not> (e_inode e = j \<and> e_name e = n)) es @ tl (dropWhile (\<lambda>e. \<not> (e_inode e = j \<and> e_name e = n)) es) = as @ bs"
    by (rule remove_entry_split [OF assms(5)])
  let ?s' = "s1\<lparr>inodes := (inodes s1)(i := Some (y\<lparr>i_private := Tmpfs_Dir (as @ bs)\<rparr>), j := Some (w\<lparr>i_nlink := i_nlink w - 1\<rparr>))\<rparr>"
  have rm: "tmpfs_remove_entry i j n s1 = Some (s1\<lparr>inodes := (inodes s1)(i := Some (y\<lparr>i_private := Tmpfs_Dir (as @ bs)\<rparr>))\<rparr>)"
    using y e(4) by (cases y) (simp add: tmpfs_remove_entry_def tmpfs_dir_def upd_inode_def)
  have ul: "tmpfs_unlink i d s1 = Some (0, ?s')"
    using d(1,3,6) rm ij in1(1) by (cases w) (simp add: tmpfs_unlink_def upd_inode_def)
  have lk: "vfs_lookup fat p n s = Some (Inr d, s1)" using vfs_lookup_one [OF assms(3) x(1)] r(1) d(7) by simp
  have u: "vfs_unlink fat p n s = Some (0, ?s')"
    unfolding vfs_unlink_def dir_of_def using lk d x1 in1(1) assms(7) y ul by (simp add: i_op_tmpfs [OF ty(1)] tmpfs_iops_def)
  have fc: "find_child n (d_children x1) ?s' = Some (Some d)"
    using d(5) find_child_cong [of "d_children x1" ?s' s1 n] by simp
  obtain s2 where s2: "lookup_name fat p n ?s' = Some (Inr (d, False), s2)" "dget d ?s' = Some s2"
    using lookup_name_cached [of ?s' p x1 n d z j fat] d ty fc by auto
  have ds: "s2 = ?s'\<lparr>dentries := (dentries s1)(d := Some (d_count_update (\<lambda>n. n + 1) z))\<rparr>"
    using s2(2) d(1) by (simp add: dget_def upd_dentry_def)
  have "vfs_lookup fat p n ?s' = Some (Inr d, s2)"
    by (rule vfs_lookup_one [OF assms(3) _ s2(1)]) (use d in simp)
  moreover obtain s3 where s3: "dget d s2 = Some s3" "map_option d_inode (dentries s3 d) = Some (Some j)"
    "inodes s3 = inodes s2" "s_type s3 = s_type s2"
    using d(6) unfolding ds by (auto simp: dget_def upd_dentry_def)
  moreover have "inodes s2 j = Some (w\<lparr>i_nlink := i_nlink w - 1\<rparr>)" "dentries s2 d = Some (d_count_update (\<lambda>n. n + 1) z)"
    using ij by (simp_all add: ds)
  moreover have "op_open (i_op fat (w\<lparr>i_nlink := i_nlink w - 1\<rparr>) s3) j s3 = 0"
    using s3(4) tw by (simp add: i_op_def ds tmpfs_iops_def)
  ultimately have o: "vfs_open fat p n 0 0 ?s' = Some (Inr (d, 0), s3)"
    using d(6) assms(7) by (simp add: vfs_open_def)
  moreover have "dir_entries ?s' i = Some (as @ bs)" using y ij by (simp add: dir_entries_def)
  moreover have "inodes ?s' j = Some (w\<lparr>i_nlink := i_nlink w - 1\<rparr>)" by simp
  ultimately show ?thesis using u e(1,2) s3(2) by blast
qed

theorem unlinked_name_still_opens_witness:
  "\<exists>s s' s'' d. reach tmpfs_iops s \<and> dir_entries s 0 \<noteq> Some [] \<and> vfs_unlink tmpfs_iops 0 [97] s = Some (0, s') \<and> dir_entries s' 0 = Some []
    \<and> vfs_open tmpfs_iops 0 [97] 0 0 s' = Some (Inr (d, 0), s'')"
proof -
  obtain s j v where V: "reach tmpfs_iops s" "trail s 0 [0]" "dir_entries s 0 = Some [\<lparr>e_inode = j, e_type = 1, e_name = [97]\<rparr>]"
    "inodes s j = Some v" "\<not> S_ISDIR (i_mode v)" by (rule volume_with_file)
  have on: "one_name [97]" by (simp add: one_name_def)
  obtain s' s'' d "as" e1 bs where U: "vfs_unlink tmpfs_iops 0 [97] s = Some (0, s')"
      "[\<lparr>e_inode = j, e_type = 1, e_name = [97]\<rparr>] = as @ e1 # bs" "dir_entries s' 0 = Some (as @ bs)"
      "vfs_open tmpfs_iops 0 [97] 0 0 s' = Some (Inr (d, 0), s'')"
    using unlinked_name_still_opens [OF V(1,2) on V(3) volume_entry V(4,5)] by blast
  have "as @ bs = []" using U(2) by (cases "as") auto
  then show ?thesis using V U by (metis list.distinct(1) option.inject)
qed

text \<open>
  Making a directory whose name is there already returns 0, too.  The directory has two entries with the name, and
  from then on the cache answers for the new one, where a walk over the entries still finds the old one.
\<close>

theorem mkdir_hides_existing:
  assumes "reach fat s" and "trail s p (i # js)" and "length n < 64"
    and "dir_entries s i = Some es" and "entry_inode es n = Some k"
  shows "\<exists>j d s' s''. vfs_do_mkdir fat p n mode s = Some (0, s') \<and> j \<noteq> k
    \<and> dir_entries s' i = Some (es @ [\<lparr>e_inode = j, e_type = 2, e_name = n\<rparr>])
    \<and> walk s' [i] [n] = walk s [i] [n]
    \<and> lookup_name fat p n s' = Some (Inr (d, False), s'') \<and> map_option d_inode (dentries s'' d) = Some (Some j)"
proof -
  have ok: "ns_ok s" using reach_ok [OF assms(1)] by blast
  obtain x where x: "dentries s p = Some x" "d_inode x = Some i" using trailE [OF assms(2)] by (metis list.inject)
  obtain y where y: "inodes s i = Some y" "S_ISDIR (i_mode y)" "i_private y = Tmpfs_Dir es"
    using assms(4) dir_entries_Some by metis
  obtain w where m: "vfs_do_mkdir fat p n mode s = Some (0, made_dir p n (next_dentry s) x i y es w s)"
    "i_sb w = i_sb y" "i_mode w = mode OR S_IFDIR" "i_private w = Tmpfs_Dir []"
    by (rule vfs_do_mkdir_ok [OF ok x y assms(3)])
  let ?j = "next_inode s" and ?d = "next_dentry s" and ?s = "made_dir p n (next_dentry s) x i y es w s"
  have ne: "?d \<noteq> p" using fresh_dentry [OF ok] x by auto
  have ij: "i \<noteq> ?j" using ns_ok_fresh [OF ok] y by auto
  have ch: "\<forall>c \<in> set (d_children x). dentries s c \<noteq> None" and xo: "s_type s (d_sb x) = TMPFS"
    using ns_okD(1) [OF ok x(1)] by (auto simp: dentry_ok_def)
  have "cached_inode s x n = Some k"
    using ns_okD(1) [OF ok x(1)] x(2) y assms(5) by (simp add: dentry_ok_def inode_ok_def)
  then obtain c z where "dentries s c = Some z" "d_inode z = Some k"
    by (auto simp: cached_inode_def split: option.splits)
  then have jk: "?j \<noteq> k" using ns_ok_no_dentry [OF ok] by blast
  have S: "dentries ?s ?d = Some ((new_dentry p n (i_sb y))\<lparr>d_inode := Some ?j\<rparr>)"
    "dentries ?s p = Some (x\<lparr>d_children := ?d # d_children x\<rparr>)" "s_type ?s = s_type s"
    "inodes ?s i = Some (y\<lparr>i_private := Tmpfs_Dir (es @ [\<lparr>e_inode = ?j, e_type = 2, e_name = n\<rparr>])\<rparr>)"
    using ne ij by (simp_all add: made_dir_def fill_new_def add_link_def add_inode_def add_negative_def new_dentry_def)
  have de: "dir_entries ?s i = Some (es @ [\<lparr>e_inode = ?j, e_type = 2, e_name = n\<rparr>])"
    using S(4) y(2) by (simp add: dir_entries_def)
  have fc: "find_child n (?d # d_children x) ?s = Some (Some ?d)" using S(1) by (simp add: new_dentry_def)
  obtain s'' where l: "lookup_name fat p n ?s = Some (Inr (?d, False), s'')" "dget ?d ?s = Some s''"
    using lookup_name_cached [OF S(2), of n ?d "(new_dentry p n (i_sb y))\<lparr>d_inode := Some ?j\<rparr>" ?j fat] S xo fc
    by (auto simp: new_dentry_def)
  have "map_option d_inode (dentries s'' ?d) = Some (Some ?j)"
    using l(2) S(1) by (auto simp: dget_def upd_dentry_def)
  moreover have "walk ?s [i] [n] = walk s [i] [n]"
    using de assms(4,5) by (simp add: entry_inode_append)
  ultimately show ?thesis using m(1) jk de l(1) by blast
qed

theorem mkdir_hides_existing_witness:
  "\<exists>s j d s' s''. reach tmpfs_iops s \<and> vfs_do_mkdir tmpfs_iops 0 [97] 0x1ED s = Some (0, s')
    \<and> lookup_name tmpfs_iops 0 [97] s' = Some (Inr (d, False), s'') \<and> map_option d_inode (dentries s'' d) = Some (Some j)"
proof -
  obtain s j v where V: "reach tmpfs_iops s" "trail s 0 [0]" "dir_entries s 0 = Some [\<lparr>e_inode = j, e_type = 1, e_name = [97]\<rparr>]"
    "inodes s j = Some v" "\<not> S_ISDIR (i_mode v)" by (rule volume_with_file)
  show ?thesis using mkdir_hides_existing [OF V(1,2) _ V(3) volume_entry, of "0x1ED"] V(1) by auto
qed


end
