(* ===== verification/FileIO.thy ===== *)
theory FileIO imports Namespace begin

text \<open>
  Reading and writing open files: the calls of \<open>fs/vfs.c\<close> on a file and its position
  (\<open>vfs_read\<close>, \<open>vfs_write\<close>, \<open>vfs_lseek\<close>, \<open>vfs_getdents\<close>, \<open>readv\<close>, \<open>writev\<close>), \<open>fs/stat.c\<close>, and the
  operations that tmpfs gives an open file.

  A file has the operations in \<open>fo\<close>; \<open>fi\<close> are those of the inode, which device files use.  A position is a natural
  number: \<open>lseek\<close> refuses a negative one.  Whether an access to user memory or \<open>kmalloc\<close>
  succeeds is an argument.  The byte lists in the results are what has been copied to user space.
\<close>

record ofile =
  of_dentry :: "nat option"
  of_pos :: nat
  of_mode :: u32

record fops =
  fo_read :: "ofile \<Rightarrow> nat \<Rightarrow> vfs \<Rightarrow> (int \<times> u8 list) option"
  fo_write :: "ofile \<Rightarrow> u8 list \<Rightarrow> vfs \<Rightarrow> (int \<times> vfs) option"
  fo_readdir :: "ofile \<Rightarrow> nat \<Rightarrow> vfs \<Rightarrow> (int \<times> vfs_dirent list) option"

definition file_inode :: "ofile \<Rightarrow> vfs \<Rightarrow> (nat \<times> inode) option" where
  "file_inode f s = do { d \<leftarrow> of_dentry f; x \<leftarrow> dentries s d; i \<leftarrow> d_inode x; y \<leftarrow> inodes s i; Some (i, y) }"

text \<open>\<open>tmpfs_fops\<close>.  An entry of a directory is given as it is read; 128 bytes are kept of a name.\<close>

definition tmpfs_fops :: "(nat \<Rightarrow> u8) \<Rightarrow> fops" where
  "tmpfs_fops junk = \<lparr>
     fo_read = (\<lambda>f cnt s. do { (i, y) \<leftarrow> file_inode f s; bs \<leftarrow> tmpfs_read i (of_pos f) cnt s; Some (int (length bs), bs) }),
     fo_write = (\<lambda>f buf s. do { (i, y) \<leftarrow> file_inode f s; (n, s1) \<leftarrow> tmpfs_write junk i (of_pos f) buf s; Some (int n, s1) }),
     fo_readdir = (\<lambda>f cnt s. do { (i, y) \<leftarrow> file_inode f s; ds \<leftarrow> tmpfs_readdir i (of_pos f) cnt s; Some (int (length ds), ds) })\<rparr>"

section \<open>Position\<close>

abbreviation SEEK_SET :: int where "SEEK_SET \<equiv> 0"
abbreviation SEEK_CUR :: int where "SEEK_CUR \<equiv> 1"
abbreviation SEEK_END :: int where "SEEK_END \<equiv> 2"

definition vfs_lseek_unlocked :: "int \<Rightarrow> int \<Rightarrow> ofile \<Rightarrow> vfs \<Rightarrow> (int \<times> ofile) option" where
  "vfs_lseek_unlocked offset whence f s = do {
     (i, y) \<leftarrow> file_inode f s;
     (if whence = SEEK_CUR \<and> offset = 0 then Some (int (of_pos f), f)
      else if whence \<noteq> SEEK_CUR \<and> whence \<noteq> SEEK_END \<and> whence \<noteq> SEEK_SET then Some (- EINVAL, f)
      else
        (let off = (if whence = SEEK_CUR then offset + int (of_pos f)
                    else if whence = SEEK_END then offset + int (i_size y) else offset) in
         if off < 0 then Some (- EINVAL, f) else Some (off, f\<lparr>of_pos := nat off\<rparr>))) }"

text \<open>No file system of the kernel has a \<open>lseek\<close> of its own.  The result of the unlocked call is dropped.\<close>

definition vfs_lseek :: "int \<Rightarrow> int \<Rightarrow> ofile \<Rightarrow> vfs \<Rightarrow> (int \<times> ofile) option" where
  "vfs_lseek offset whence f s = map_option (\<lambda>(_, f1). (0, f1)) (vfs_lseek_unlocked offset whence f s)"

definition sys_lseek :: "(int + ofile) \<Rightarrow> int \<Rightarrow> int \<Rightarrow> vfs \<Rightarrow> (int \<times> ofile option) option" where
  "sys_lseek handle offset whence s =
     (case handle of Inl e \<Rightarrow> Some (e, None) | Inr f \<Rightarrow> map_option (\<lambda>(r, f1). (r, Some f1)) (vfs_lseek offset whence f s))"

section \<open>Reading\<close>

text \<open>The outcome of the checks that come before a read or write of a file with a dentry.\<close>

datatype io_case = Io_Result int | Io_Device | Io_File

definition vfs_read_case :: "nat \<Rightarrow> ofile \<Rightarrow> vfs \<Rightarrow> io_case option" where
  "vfs_read_case pos f s =
     (if of_dentry f = None then Some Io_File
      else do {
        (i, y) \<leftarrow> file_inode f s;
        Some (if S_ISDIR (i_mode y) then Io_Result (- EISDIR)
              else if S_ISCHR (i_mode y) \<or> S_ISBLK (i_mode y) then Io_Device
              else if pos \<ge> i_size y then Io_Result 0 else Io_File) })"

definition vfs_read_at :: "fops \<Rightarrow> fops \<Rightarrow> ofile \<Rightarrow> nat \<Rightarrow> nat \<Rightarrow> vfs \<Rightarrow> (int \<times> u8 list) option" where
  "vfs_read_at fo fi f count pos s = do {
     c \<leftarrow> vfs_read_case pos f s;
     (case c of Io_Result r \<Rightarrow> Some (r, []) | Io_Device \<Rightarrow> fo_read fi f count s | Io_File \<Rightarrow> fo_read fo (f\<lparr>of_pos := pos\<rparr>) count s) }"

definition vfs_read :: "fops \<Rightarrow> fops \<Rightarrow> ofile \<Rightarrow> nat \<Rightarrow> vfs \<Rightarrow> ((int \<times> u8 list) \<times> ofile) option" where
  "vfs_read fo fi f count s = do {
     c \<leftarrow> vfs_read_case (of_pos f) f s;
     (case c of
        Io_Result r \<Rightarrow> Some ((r, []), f)
      | Io_Device \<Rightarrow> map_option (\<lambda>o1. (o1, f)) (fo_read fi f count s)
      | Io_File \<Rightarrow> do {
          (r, bs) \<leftarrow> fo_read fo f count s;
          Some ((r, bs), if r > 0 then f\<lparr>of_pos := of_pos f + nat r\<rparr> else f) }) }"

abbreviation O_RDONLY :: u32 where "O_RDONLY \<equiv> 0"
abbreviation O_WRONLY :: u32 where "O_WRONLY \<equiv> 1"

text \<open>\<open>read\<close>: the error starts as -1 and is only set when there are bytes to copy.\<close>

definition sys_read :: "fops \<Rightarrow> fops \<Rightarrow> (int + ofile) \<Rightarrow> bool \<Rightarrow> bool \<Rightarrow> nat \<Rightarrow> vfs \<Rightarrow> ((int \<times> u8 list) \<times> ofile option) option" where
  "sys_read fo fi handle mem copy_ok count s =
     (case handle of
        Inl e \<Rightarrow> Some ((e, []), None)
      | Inr f \<Rightarrow>
          if of_mode f AND O_ACCMODE = O_WRONLY then Some ((- EBADF, []), Some f)
          else if \<not> mem then Some ((- ENOMEM, []), Some f)
          else do {
            ((r, bs), f1) \<leftarrow> vfs_read fo fi f count s;
            Some (if r > 0 then (if copy_ok then (r, bs) else (- EFAULT, [])) else (- 1, []), Some f1) })"

section \<open>Writing\<close>

definition vfs_write :: "fops \<Rightarrow> fops \<Rightarrow> ofile \<Rightarrow> u8 list \<Rightarrow> vfs \<Rightarrow> ((int \<times> ofile) \<times> vfs) option" where
  "vfs_write fo fi f buf s = do {
     c \<leftarrow> (if of_dentry f = None then Some Io_File
          else do {
            (i, y) \<leftarrow> file_inode f s;
            Some (if S_ISDIR (i_mode y) then Io_Result (- EISDIR)
                  else if S_ISCHR (i_mode y) \<or> S_ISBLK (i_mode y) then Io_Device else Io_File) });
     (case c of
        Io_Result r \<Rightarrow> Some ((r, f), s)
      | Io_Device \<Rightarrow> map_option (\<lambda>(r, s1). ((r, f), s1)) (fo_write fi f buf s)
      | Io_File \<Rightarrow> do {
          (r, s1) \<leftarrow> fo_write fo f buf s;
          Some ((r, if r > 0 then f\<lparr>of_pos := of_pos f + nat r\<rparr> else f), s1) }) }"

text \<open>
  \<open>write\<close> copies the buffer to the kernel and then hands the buffer of the user to \<open>vfs_write\<close>:
  the bytes are what it holds at that time, \<open>later\<close>.
\<close>

definition sys_write :: "fops \<Rightarrow> fops \<Rightarrow> (int + ofile) \<Rightarrow> bool \<Rightarrow> bool \<Rightarrow> u8 list \<Rightarrow> vfs \<Rightarrow> ((int \<times> ofile option) \<times> vfs) option" where
  "sys_write fo fi handle mem copy_ok later s =
     (case handle of
        Inl e \<Rightarrow> Some ((e, None), s)
      | Inr f \<Rightarrow>
          if of_mode f AND O_ACCMODE = O_RDONLY then Some ((- EBADF, Some f), s)
          else if \<not> mem then Some ((- ENOMEM, Some f), s)
          else if \<not> copy_ok then Some ((- EFAULT, Some f), s)
          else map_option (\<lambda>((r, f1), s1). ((r, Some f1), s1)) (vfs_write fo fi f later s))"

section \<open>Vectors\<close>

text \<open>An element of a vector: whether it can be read, its length, memory for it, and whether its buffer can be accessed.\<close>

record iovec =
  iov_ok :: bool
  iov_len :: nat
  iov_mem :: bool
  iov_base_ok :: bool

fun readv_loop :: "fops \<Rightarrow> fops \<Rightarrow> ofile \<Rightarrow> iovec list \<Rightarrow> int \<Rightarrow> u8 list \<Rightarrow> vfs \<Rightarrow> ((int \<times> u8 list) \<times> ofile) option" where
  "readv_loop fo fi f [] tot out s = Some ((tot, out), f)"
| "readv_loop fo fi f (v # vs) tot out s =
     (if \<not> iov_ok v then Some ((- EFAULT, out), f)
      else if iov_len v = 0 then readv_loop fo fi f vs tot out s
      else if \<not> iov_mem v then Some ((if tot > 0 then tot else - ENOMEM, out), f)
      else do {
        ((r, bs), f1) \<leftarrow> vfs_read fo fi f (iov_len v) s;
        (if r > 0 \<and> \<not> iov_base_ok v then Some ((if tot > 0 then tot else - EFAULT, out), f1)
         else if r < 0 then Some ((if tot > 0 then tot else r, out), f1)
         else if r < int (iov_len v) then Some ((tot + r, out @ bs), f1)
         else readv_loop fo fi f1 vs (tot + r) (out @ bs) s) })"

definition sys_readv :: "fops \<Rightarrow> fops \<Rightarrow> (int + ofile) \<Rightarrow> iovec list \<Rightarrow> int \<Rightarrow> vfs \<Rightarrow> ((int \<times> u8 list) \<times> ofile option) option" where
  "sys_readv fo fi handle vs iovcnt s =
     (if iovcnt < 0 \<or> iovcnt > 1024 then Some ((- EINVAL, []), None)
      else (case handle of
              Inl e \<Rightarrow> Some ((e, []), None)
            | Inr f \<Rightarrow>
                if of_mode f AND O_ACCMODE = O_WRONLY then Some ((- EBADF, []), Some f)
                else map_option (\<lambda>(o1, f1). (o1, Some f1)) (readv_loop fo fi f (take (nat iovcnt) vs) 0 [] s)))"

fun writev_loop :: "fops \<Rightarrow> fops \<Rightarrow> ofile \<Rightarrow> (iovec \<times> u8 list) list \<Rightarrow> int \<Rightarrow> vfs \<Rightarrow> ((int \<times> ofile) \<times> vfs) option" where
  "writev_loop fo fi f [] tot s = Some ((tot, f), s)"
| "writev_loop fo fi f ((v, buf) # vs) tot s =
     (if \<not> iov_ok v then Some ((- EFAULT, f), s)
      else if iov_len v = 0 then writev_loop fo fi f vs tot s
      else if \<not> iov_mem v then Some ((if tot > 0 then tot else - ENOMEM, f), s)
      else if \<not> iov_base_ok v then Some ((if tot > 0 then tot else - EFAULT, f), s)
      else do {
        ((r, f1), s1) \<leftarrow> vfs_write fo fi f (take (iov_len v) buf) s;
        (let tot1 = (if r > 0 then tot + r else tot) in
         if r < 0 then Some ((if tot1 > 0 then tot1 else r, f1), s1)
         else if r < int (iov_len v) then Some ((tot1, f1), s1)
         else writev_loop fo fi f1 vs tot1 s1) })"

definition sys_writev :: "fops \<Rightarrow> fops \<Rightarrow> (int + ofile) \<Rightarrow> (iovec \<times> u8 list) list \<Rightarrow> int \<Rightarrow> vfs \<Rightarrow> ((int \<times> ofile option) \<times> vfs) option" where
  "sys_writev fo fi handle vs iovcnt s =
     (if iovcnt < 0 \<or> iovcnt > 1024 then Some ((- EINVAL, None), s)
      else (case handle of
              Inl e \<Rightarrow> Some ((e, None), s)
            | Inr f \<Rightarrow>
                if of_mode f AND O_ACCMODE = O_RDONLY then Some ((- EBADF, Some f), s)
                else map_option (\<lambda>((r, f1), s1). ((r, Some f1), s1)) (writev_loop fo fi f (take (nat iovcnt) vs) 0 s)))"

section \<open>Directories and attributes\<close>

definition dirent_size :: nat where "dirent_size = 152"

definition vfs_getdents :: "fops \<Rightarrow> ofile \<Rightarrow> int \<Rightarrow> vfs \<Rightarrow> ((int \<times> vfs_dirent list) \<times> ofile) option" where
  "vfs_getdents fo f buf_size s = do {
     (i, y) \<leftarrow> file_inode f s;
     (if \<not> S_ISDIR (i_mode y) then Some ((- ENOTDIR, []), f)
      else if buf_size < 0 then None
      else do {
        (n, ds) \<leftarrow> fo_readdir fo f (nat buf_size div dirent_size) s;
        Some ((if n > 0 then n * int dirent_size else n, ds), f\<lparr>of_pos := nat (int (of_pos f) + n)\<rparr>) }) }"

definition sys_getdents :: "fops \<Rightarrow> (int + ofile) \<Rightarrow> int \<Rightarrow> bool \<Rightarrow> bool \<Rightarrow> vfs \<Rightarrow> ((int \<times> vfs_dirent list) \<times> ofile option) option" where
  "sys_getdents fo handle buf_size mem copy_ok s =
     (case handle of
        Inl e \<Rightarrow> Some ((e, []), None)
      | Inr f \<Rightarrow>
          if buf_size > 0x8000 then Some ((- EINVAL, []), Some f)
          else if \<not> mem then Some ((- ENOMEM, []), Some f)
          else do {
            ((r, ds), f1) \<leftarrow> vfs_getdents fo f buf_size s;
            Some (if r > 0 \<and> \<not> copy_ok then (- EFAULT, []) else (r, ds), Some f1) })"

record kstat =
  st_ino :: nat
  st_mode :: u32
  st_nlink :: nat
  st_size :: nat
  st_blksize :: nat
  st_atim :: nat
  st_mtim :: nat
  st_ctim :: nat

definition vfs_stat :: "ofile \<Rightarrow> vfs \<Rightarrow> (int \<times> kstat option) option" where
  "vfs_stat f s =
     (if of_dentry f = None then Some (- EBADF, None)
      else do {
        (i, y) \<leftarrow> file_inode f s;
        Some (0, Some \<lparr>st_ino = i_ino y, st_mode = i_mode y, st_nlink = i_nlink y, st_size = i_size y, st_blksize = 512,
                       st_atim = i_atime y, st_mtim = i_mtime y, st_ctim = i_ctime y\<rparr>) })"

text \<open>\<open>stat\<close> opens the file and closes it; tmpfs has no \<open>flush\<close>.\<close>

definition sys_stat :: "iops \<Rightarrow> nat \<Rightarrow> bool \<Rightarrow> u8 list \<Rightarrow> vfs \<Rightarrow> ((int \<times> kstat option) \<times> vfs) option" where
  "sys_stat fat cwd buf_ok path s =
     (if \<not> buf_ok then Some ((- EFAULT, None), s)
      else do {
        (r, s1) \<leftarrow> vfs_open fat cwd path 0 0 s;
        (case r of
           Inl e \<Rightarrow> Some ((e, None), s1)
         | Inr (d, md) \<Rightarrow> do {
             (e, st) \<leftarrow> vfs_stat \<lparr>of_dentry = Some d, of_pos = 0, of_mode = md\<rparr> s1;
             s2 \<leftarrow> dput d s1;
             Some ((if e < 0 then (e, None) else (0, st)), s2) }) })"

definition sys_fstat :: "(int + ofile) \<Rightarrow> bool \<Rightarrow> vfs \<Rightarrow> (int \<times> kstat option) option" where
  "sys_fstat handle buf_ok s =
     (case handle of Inl e \<Rightarrow> Some (- EBADF, None) | Inr f \<Rightarrow> if \<not> buf_ok then Some (- EFAULT, None) else vfs_stat f s)"

section \<open>A file as a stream of bytes\<close>

text \<open>
  What is left to read of a tmpfs file: the bytes from the position to the end of the file, as far as
  the first byte 0, at which \<open>tmpfs_read\<close> stops.
\<close>

definition unread :: "ofile \<Rightarrow> vfs \<Rightarrow> u8 list option" where
  "unread f s = do {
     (i, y) \<leftarrow> file_inode f s;
     bs \<leftarrow> tmpfs_file i s;
     Some (takeWhile (\<lambda>c. c \<noteq> 0) (drop (of_pos f) (take (i_size y) bs))) }"

text \<open>An open regular file of tmpfs, whose block has at least the size of the file.\<close>

definition tmpfs_open_file :: "ofile \<Rightarrow> vfs \<Rightarrow> bool" where
  "tmpfs_open_file f s \<longleftrightarrow> (case file_inode f s of
     Some (i, y) \<Rightarrow> S_ISREG (i_mode y) \<and> (case i_private y of Tmpfs_File bs \<Rightarrow> i_size y \<le> length bs | _ \<Rightarrow> False)
   | None \<Rightarrow> False)"

lemma file_inode_inodes: "file_inode f s = Some (i, y) \<Longrightarrow> inodes s i = Some y"
  by (auto simp: file_inode_def split: bind_splits)

lemma file_inode_pos [simp]: "file_inode (f\<lparr>of_pos := p\<rparr>) s = file_inode f s"
  by (simp add: file_inode_def)

lemma tmpfs_open_file_pos [simp]: "tmpfs_open_file (f\<lparr>of_pos := p\<rparr>) s = tmpfs_open_file f s"
  by (simp add: tmpfs_open_file_def)

lemma tmpfs_open_fileE:
  assumes "tmpfs_open_file f s"
  obtains i y bs where "file_inode f s = Some (i, y)" "inodes s i = Some y" "i_private y = Tmpfs_File bs" "i_size y \<le> length bs"
    "of_dentry f \<noteq> None" "\<not> S_ISDIR (i_mode y)" "\<not> (S_ISCHR (i_mode y) \<or> S_ISBLK (i_mode y))" "tmpfs_file i s = Some bs"
proof -
  obtain i y bs where i: "file_inode f s = Some (i, y)" "S_ISREG (i_mode y)" "i_private y = Tmpfs_File bs" "i_size y \<le> length bs"
    using assms by (cases "file_inode f s"; cases "i_private (snd (the (file_inode f s)))") (auto simp: tmpfs_open_file_def)
  have d: "of_dentry f \<noteq> None" using i(1) by (cases "of_dentry f") (auto simp: file_inode_def)
  have m: "\<not> S_ISDIR (i_mode y)" "\<not> (S_ISCHR (i_mode y) \<or> S_ISBLK (i_mode y))"
    using i(2) by (simp_all add: S_ISREG_def S_ISDIR_def S_ISCHR_def S_ISBLK_def)
  have t: "tmpfs_file i s = Some bs" using file_inode_inodes [OF i(1)] i(3) by (simp add: tmpfs_file_def)
  show ?thesis by (rule that [OF i(1) file_inode_inodes [OF i(1)] i(3,4) d m t])
qed

lemma takeWhile_take: "takeWhile P (take n xs) = take n (takeWhile P xs)"
proof (induction xs arbitrary: n)
  case (Cons x xs)
  then show ?case by (cases n) auto
qed simp

lemma takeWhile_drop_takeWhile: "takeWhile P (drop (length (take n (takeWhile P xs))) xs) = drop n (takeWhile P xs)"
proof (induction xs arbitrary: n)
  case (Cons x xs)
  then show ?case by (cases n) auto
qed simp

lemma read_bytes_within: "cnt \<le> length data \<Longrightarrow> read_bytes data cnt = Some (takeWhile (\<lambda>c. c \<noteq> 0) (take cnt data))"
  by (induction data cnt rule: read_bytes.induct) (auto simp: take_Cons' Suc_le_eq)

lemma read_bytes_beyond:
  "length data < cnt \<Longrightarrow> read_bytes data cnt = (if 0 \<in> set data then Some (takeWhile (\<lambda>c. c \<noteq> 0) data) else None)"
  by (induction data cnt rule: read_bytes.induct) auto

lemma vfs_read_stream:
  assumes "tmpfs_open_file f s" and "of_pos f + cnt < 2 ^ 64"
  obtains bs where "unread f s = Some bs"
    "vfs_read (tmpfs_fops junk) fi f cnt s = Some ((int (length (take cnt bs)), take cnt bs), f\<lparr>of_pos := of_pos f + length (take cnt bs)\<rparr>)"
    "unread (f\<lparr>of_pos := of_pos f + length (take cnt bs)\<rparr>) s = Some (drop cnt bs)"
proof -
  obtain i y blk where F: "file_inode f s = Some (i, y)" "inodes s i = Some y" "i_private y = Tmpfs_File blk" "i_size y \<le> length blk"
    "of_dentry f \<noteq> None" "\<not> S_ISDIR (i_mode y)" "\<not> (S_ISCHR (i_mode y) \<or> S_ISBLK (i_mode y))" "tmpfs_file i s = Some blk"
    by (rule tmpfs_open_fileE [OF assms(1)])
  let ?xs = "drop (of_pos f) (take (i_size y) blk)" and ?P = "\<lambda>c :: u8. c \<noteq> 0"
  let ?bs = "takeWhile ?P ?xs"
  have u: "unread f s = Some ?bs" using F by (simp add: unread_def)
  have u2: "unread (f\<lparr>of_pos := of_pos f + length (take cnt ?bs)\<rparr>) s = Some (drop cnt ?bs)"
    using F takeWhile_drop_takeWhile [of ?P cnt ?xs] by (simp add: unread_def add.commute)
  have c: "vfs_read_case (of_pos f) f s = Some (if of_pos f \<ge> i_size y then Io_Result 0 else Io_File)"
    using F by (auto simp: vfs_read_case_def)
  show ?thesis
  proof (cases "of_pos f \<ge> i_size y")
    case True
    then have "?bs = []" by simp
    then show ?thesis using that u u2 c True by (simp add: vfs_read_def)
  next
    case False
    let ?n = "if of_pos f + cnt > i_size y then i_size y - of_pos f else cnt"
    have "take ?n (drop (of_pos f) blk) = take cnt ?xs"
      using False by (auto simp: drop_take min_def)
    moreover have "?n \<le> length (drop (of_pos f) blk)" using False F(4) by auto
    ultimately have "read_bytes (drop (of_pos f) blk) ?n = Some (take cnt ?bs)"
      by (simp add: read_bytes_within takeWhile_take del: if_split)
    moreover have "(i_size y + 2 ^ 64 - of_pos f) mod 2 ^ 64 = i_size y - of_pos f" if "of_pos f + cnt > i_size y"
    proof -
      have "i_size y + 2 ^ 64 - of_pos f = (i_size y - of_pos f) + 2 ^ 64" using False by simp
      moreover have "i_size y - of_pos f < 2 ^ 64" using that assms(2) by linarith
      ultimately show ?thesis by (simp only: mod_add_self2 mod_less)
    qed
    moreover have "(of_pos f + cnt) mod 2 ^ 64 = of_pos f + cnt" using assms(2) by simp
    ultimately have r: "tmpfs_read i (of_pos f) cnt s = Some (take cnt ?bs)"
      using F(2,8) by (cases "of_pos f + cnt > i_size y") (simp_all only: tmpfs_read_def bind.bind_lunit if_True if_False)
    have "f\<lparr>of_pos := of_pos f\<rparr> = f" by (cases f) simp
    then have "vfs_read (tmpfs_fops junk) fi f cnt s = Some ((int (length (take cnt ?bs)), take cnt ?bs), f\<lparr>of_pos := of_pos f + length (take cnt ?bs)\<rparr>)"
      using c False r F(1) by (auto simp: vfs_read_def tmpfs_fops_def)
    then show ?thesis using that u u2 by blast
  qed
qed

lemma unread_pos0: "f\<lparr>of_pos := of_pos f + 0\<rparr> = f" by (cases f) simp

text \<open>Every element of a vector can be read and written.\<close>

definition iov_fine :: "iovec \<Rightarrow> bool" where
  "iov_fine v \<longleftrightarrow> iov_ok v \<and> iov_mem v \<and> iov_base_ok v"

lemma readv_loop_stream:
  assumes "tmpfs_open_file f s" and "unread f s = Some bs" and "\<forall>v \<in> set vs. iov_fine v" and "tot \<ge> 0"
    and "of_pos f + sum_list (map iov_len vs) < 2 ^ 64"
  shows "readv_loop (tmpfs_fops junk) fi f vs tot out s =
    Some ((tot + int (length (take (sum_list (map iov_len vs)) bs)), out @ take (sum_list (map iov_len vs)) bs),
          f\<lparr>of_pos := of_pos f + length (take (sum_list (map iov_len vs)) bs)\<rparr>)"
  using assms
proof (induction vs arbitrary: f bs tot out)
  case Nil
  then show ?case using unread_pos0 [of f] by simp
next
  case (Cons v vs)
  let ?n = "iov_len v" and ?m = "sum_list (map iov_len vs)"
  have v: "iov_ok v" "iov_mem v" "iov_base_ok v" using Cons.prems(3) by (simp_all add: iov_fine_def)
  show ?case
  proof (cases "?n = 0")
    case True
    then show ?thesis using Cons v by simp
  next
    case False
    let ?f = "f\<lparr>of_pos := of_pos f + length (take ?n bs)\<rparr>"
    obtain bs' where b: "unread f s = Some bs'"
      "vfs_read (tmpfs_fops junk) fi f ?n s = Some ((int (length (take ?n bs')), take ?n bs'), f\<lparr>of_pos := of_pos f + length (take ?n bs')\<rparr>)"
      "unread (f\<lparr>of_pos := of_pos f + length (take ?n bs')\<rparr>) s = Some (drop ?n bs')"
      by (rule vfs_read_stream [OF Cons.prems(1), where junk = junk and fi = fi and cnt = "?n"]) (use Cons.prems(5) in simp)
    have r: "vfs_read (tmpfs_fops junk) fi f ?n s = Some ((int (length (take ?n bs)), take ?n bs), ?f)" "unread ?f s = Some (drop ?n bs)"
      using b Cons.prems(2) by simp_all
    show ?thesis
    proof (cases "length bs < ?n")
      case True
      have "take (?n + ?m) bs = bs" "take ?n bs = bs" using True by simp_all
      then show ?thesis using r(1) v False True by simp
    next
      case c: False
      have I: "readv_loop (tmpfs_fops junk) fi ?f vs (tot + int ?n) (out @ take ?n bs) s =
        Some ((tot + int ?n + int (length (take ?m (drop ?n bs))), (out @ take ?n bs) @ take ?m (drop ?n bs)),
              ?f\<lparr>of_pos := of_pos ?f + length (take ?m (drop ?n bs))\<rparr>)"
        by (rule Cons.IH) (use Cons.prems r(2) c in simp_all)
      have t: "take (?n + ?m) bs = take ?n bs @ take ?m (drop ?n bs)" by (rule take_add)
      have l: "length (take ?n bs) = ?n" using c by simp
      have s: "readv_loop (tmpfs_fops junk) fi f (v # vs) tot out s = readv_loop (tmpfs_fops junk) fi ?f vs (tot + int ?n) (out @ take ?n bs) s"
        using r(1) v False l by simp
      show ?thesis unfolding s I using t l by (simp add: add.assoc)
    qed
  qed
qed

section \<open>Properties\<close>

text \<open>
  C26. A file is read as a stream: a read of \<open>cnt\<close> bytes returns the next \<open>cnt\<close> of
  the bytes that are unread, or all when there are fewer, and leaves the rest unread.  The stream ends at the end of the
  file or at the first byte 0: what comes behind a byte 0 is never read.  The position plus \<open>cnt\<close> is
  below \<open>2 ^ 64\<close>: a larger sum wraps in \<open>tmpfs_read\<close>, and the read goes past the end of the file (\<open>read_wraps_past_end\<close>).
\<close>

theorem reads_follow_stream:
  assumes "tmpfs_open_file f s" and "of_pos f + cnt < 2 ^ 64"
  shows "\<exists>bs f'. unread f s = Some bs \<and> vfs_read (tmpfs_fops junk) fi f cnt s = Some ((int (length (take cnt bs)), take cnt bs), f')
    \<and> unread f' s = Some (drop cnt bs) \<and> of_pos f' = of_pos f + length (take cnt bs) \<and> tmpfs_open_file f' s"
proof -
  obtain bs where "unread f s = Some bs"
    "vfs_read (tmpfs_fops junk) fi f cnt s = Some ((int (length (take cnt bs)), take cnt bs), f\<lparr>of_pos := of_pos f + length (take cnt bs)\<rparr>)"
    "unread (f\<lparr>of_pos := of_pos f + length (take cnt bs)\<rparr>) s = Some (drop cnt bs)"
    by (rule vfs_read_stream [OF assms, where junk = junk and fi = fi])
  then show ?thesis using assms by (intro exI [of _ bs] exI [of _ "f\<lparr>of_pos := of_pos f + length (take cnt bs)\<rparr>"]) simp
qed

text \<open>
  A count for which position plus count wraps to at most the size: the count is not cut at the end of the file.  The read
  goes on to the first byte 0 of the block, wherever the file ends, and beyond the block when there is none.
\<close>

theorem read_wraps_past_end:
  assumes "file_inode f s = Some (i, y)" and "S_ISREG (i_mode y)" and "i_private y = Tmpfs_File blk"
    and "of_pos f < i_size y" and "cnt < 2 ^ 64" and "2 ^ 64 \<le> of_pos f + cnt" and "of_pos f + cnt - 2 ^ 64 \<le> i_size y"
    and "i_size y < 2 ^ 63" and "length blk < of_pos f + cnt"
  shows "vfs_read (tmpfs_fops junk) fi f cnt s =
    (if 0 \<in> set (drop (of_pos f) blk)
     then (let bs = takeWhile (\<lambda>c. c \<noteq> 0) (drop (of_pos f) blk) in Some ((int (length bs), bs), f\<lparr>of_pos := of_pos f + length bs\<rparr>))
     else None)"
proof -
  have i: "inodes s i = Some y" by (rule file_inode_inodes [OF assms(1)])
  have t: "tmpfs_file i s = Some blk" using i assms(3) by (simp add: tmpfs_file_def)
  have m: "(of_pos f + cnt) mod 2 ^ 64 = of_pos f + cnt - 2 ^ 64"
    using assms(4,5,6,8) by (simp add: mod_if)
  have d: "of_dentry f \<noteq> None" using assms(1) by (cases "of_dentry f") (auto simp: file_inode_def)
  have k: "\<not> S_ISDIR (i_mode y)" "\<not> (S_ISCHR (i_mode y) \<or> S_ISBLK (i_mode y))"
    using assms(2) by (simp_all add: S_ISREG_def S_ISDIR_def S_ISCHR_def S_ISBLK_def)
  have r: "tmpfs_read i (of_pos f) cnt s = read_bytes (drop (of_pos f) blk) cnt"
    using i t m assms(7) by (simp add: tmpfs_read_def)
  have c: "vfs_read_case (of_pos f) f s = Some Io_File"
    using assms(1,4) d k by (auto simp: vfs_read_case_def)
  have b: "read_bytes (drop (of_pos f) blk) cnt =
    (if 0 \<in> set (drop (of_pos f) blk) then Some (takeWhile (\<lambda>c. c \<noteq> 0) (drop (of_pos f) blk)) else None)"
    by (rule read_bytes_beyond) (use assms(4,6,8,9) in simp)
  have z: "f\<lparr>of_pos := of_pos f\<rparr> = f" by (cases f) simp
  show ?thesis using c r b assms(1) z by (auto simp: vfs_read_def tmpfs_fops_def Let_def)
qed

text \<open>
  \<open>readv\<close> on a vector whose buffers can all be used gives what one \<open>read\<close> of the
  sum of the lengths gives, and moves the position as far.
\<close>

theorem readv_is_one_read:
  assumes "tmpfs_open_file f s" and "\<forall>v \<in> set vs. iov_fine v" and "length vs \<le> 1024" and "of_mode f AND 3 \<noteq> 1"
    and "of_pos f + sum_list (map iov_len vs) < 2 ^ 64"
  shows "sys_readv (tmpfs_fops junk) fi (Inr f) vs (int (length vs)) s =
    map_option (\<lambda>(o1, f1). (o1, Some f1)) (vfs_read (tmpfs_fops junk) fi f (sum_list (map iov_len vs)) s)"
proof -
  obtain bs where b: "unread f s = Some bs"
    "vfs_read (tmpfs_fops junk) fi f (sum_list (map iov_len vs)) s =
       Some ((int (length (take (sum_list (map iov_len vs)) bs)), take (sum_list (map iov_len vs)) bs),
             f\<lparr>of_pos := of_pos f + length (take (sum_list (map iov_len vs)) bs)\<rparr>)"
    by (rule vfs_read_stream [OF assms(1,5), where junk = junk and fi = fi])
  show ?thesis using assms(3,4) b(2) readv_loop_stream [OF assms(1) b(1) assms(2), of 0 junk fi "[]"] assms(5)
    by (simp add: sys_readv_def)
qed

text \<open>A file system with one open file of five bytes, the third of which is 0.\<close>

definition file_volume :: vfs where
  "file_volume = \<lparr>
     dentries = (\<lambda>_. None)(0 := Some \<lparr>d_count = 1, d_parent = None, d_name = [97], d_inode = Some 0, d_sb = 0, d_children = [], d_mount = None\<rparr>),
     inodes = (\<lambda>_. None)(0 := Some \<lparr>i_mode = S_IFREG, i_sb = 0, i_ino = 2, i_count = 1, i_nlink = 1, i_size = 5,
       i_atime = 0, i_mtime = 0, i_ctime = 0, i_private = Tmpfs_File [1, 2, 0, 4, 5]\<rparr>),
     s_type = (\<lambda>_. TMPFS), s_inodes = (\<lambda>_. [])(0 := [0]), mnt_root = (\<lambda>_. None), root_dentry = 0, next_dentry = 1, next_inode = 1,
     last_ino = 2, now = 0\<rparr>"

definition file_at :: "nat \<Rightarrow> ofile" where
  "file_at p = \<lparr>of_dentry = Some 0, of_pos = p, of_mode = 2\<rparr>"

lemma file_volume_open: "tmpfs_open_file (file_at p) file_volume"
  by (simp add: tmpfs_open_file_def file_inode_def file_volume_def file_at_def S_ISREG_def)

lemma file_at_small: "of_pos (file_at 1) + 4 < 2 ^ 64" "of_pos (file_at 4) + length [7, 8, 9 :: u8] < 2 ^ 64" "of_pos (file_at 2) + 10 < 2 ^ 64"
  by (simp_all add: file_at_def)

theorem reads_follow_stream_witness:
  "\<exists>bs f'. unread (file_at 1) file_volume = Some bs \<and> unread f' file_volume = Some (drop 4 bs)
    \<and> vfs_read (tmpfs_fops (\<lambda>_. 0)) (tmpfs_fops (\<lambda>_. 0)) (file_at 1) 4 file_volume = Some ((int (length (take 4 bs)), take 4 bs), f')"
  using reads_follow_stream [OF file_volume_open [of 1], of 4 "\<lambda>_. 0" "tmpfs_fops (\<lambda>_. 0)"] file_at_small by blast

theorem readv_is_one_read_witness:
  "sys_readv (tmpfs_fops (\<lambda>_. 0)) (tmpfs_fops (\<lambda>_. 0)) (Inr (file_at 0))
     [\<lparr>iov_ok = True, iov_len = 1, iov_mem = True, iov_base_ok = True\<rparr>, \<lparr>iov_ok = True, iov_len = 3, iov_mem = True, iov_base_ok = True\<rparr>] 2 file_volume
   = map_option (\<lambda>(o1, f1). (o1, Some f1)) (vfs_read (tmpfs_fops (\<lambda>_. 0)) (tmpfs_fops (\<lambda>_. 0)) (file_at 0) 4 file_volume)"
  using readv_is_one_read [OF file_volume_open [of 0], of
      "[\<lparr>iov_ok = True, iov_len = 1, iov_mem = True, iov_base_ok = True\<rparr>, \<lparr>iov_ok = True, iov_len = 3, iov_mem = True, iov_base_ok = True\<rparr>]"
      "\<lambda>_. 0" "tmpfs_fops (\<lambda>_. 0)"]
  by (simp add: iov_fine_def file_at_def)

lemma mem_write_within: "pos + length src \<le> length blk \<Longrightarrow> mem_write blk pos src = Some (take pos blk @ src @ drop (pos + length src) blk)"
  by (simp add: mem_write_def)

lemma unread_cong: "file_inode f s = Some (i, y) \<Longrightarrow> tmpfs_file i s = Some bs \<Longrightarrow> unread f s = Some (takeWhile (\<lambda>c. c \<noteq> 0) (drop (of_pos f) (take (i_size y) bs)))"
  by (simp add: unread_def)

text \<open>What a write does to the file: the bytes are at the position, and the file reaches at least to their end.\<close>

lemma vfs_write_tmpfs:
  assumes "tmpfs_open_file f s" and "buf \<noteq> []" and "of_pos f + length buf < 2 ^ 64"
  obtains i y bs bs' s' where "file_inode f s = Some (i, y)" "i_private y = Tmpfs_File bs"
    "vfs_write (tmpfs_fops junk) fi f buf s = Some ((int (length buf), f\<lparr>of_pos := of_pos f + length buf\<rparr>), s')"
    "file_inode f s' = Some (i, y\<lparr>i_private := Tmpfs_File bs', i_size := max (i_size y) (of_pos f + length buf)\<rparr>)"
    "tmpfs_open_file f s'" "tmpfs_file i s' = Some bs'"
    "take (length buf) (drop (of_pos f) bs') = buf"
    "\<forall>k < i_size y. k < of_pos f \<or> of_pos f + length buf \<le> k \<longrightarrow> bs' ! k = bs ! k"
proof -
  obtain i y bs where F: "file_inode f s = Some (i, y)" "inodes s i = Some y" "i_private y = Tmpfs_File bs" "i_size y \<le> length bs"
    "of_dentry f \<noteq> None" "\<not> S_ISDIR (i_mode y)" "\<not> (S_ISCHR (i_mode y) \<or> S_ISBLK (i_mode y))" "tmpfs_file i s = Some bs"
    by (rule tmpfs_open_fileE [OF assms(1)])
  have reg: "S_ISREG (i_mode y)" using assms(1) F(1,3) by (simp add: tmpfs_open_file_def)
  let ?e = "of_pos f + length buf"
  let ?b1 = "if ?e > i_size y then bs @ map junk [length bs..<?e] else bs"
  let ?b2 = "take (of_pos f) ?b1 @ buf @ drop ?e ?b1"
  have l1: "?e \<le> length ?b1" "length bs \<le> length ?b1" using F(4) by auto
  have sz: "(if ?e > i_size y then ?e else i_size y) = max (i_size y) ?e" by (simp add: max_def)
  let ?y = "y\<lparr>i_private := Tmpfs_File ?b2, i_size := max (i_size y) ?e\<rparr>"
  let ?s = "s\<lparr>inodes := (inodes s)(i := Some ?y)\<rparr>"
  have m: "?e mod 2 ^ 64 = ?e" using assms(3) by simp
  have w: "tmpfs_write junk i (of_pos f) buf s = Some (length buf, ?s)"
    unfolding tmpfs_write_def Let_def m using F(2,8) mem_write_within [OF l1(1)] by (simp add: upd_inode_def sz Let_def)
  have v: "vfs_write (tmpfs_fops junk) fi f buf s = Some ((int (length buf), f\<lparr>of_pos := ?e\<rparr>), ?s)"
    using F w assms(2) by (auto simp: vfs_write_def tmpfs_fops_def)
  have fi: "file_inode f ?s = Some (i, ?y)" using F(1) by (auto simp: file_inode_def split: bind_splits)
  have op: "tmpfs_open_file f ?s" using reg fi F(4) l1 by (auto simp: tmpfs_open_file_def)
  have tf: "tmpfs_file i ?s = Some ?b2" by (simp add: tmpfs_file_def)
  have tk: "take (length buf) (drop (of_pos f) ?b2) = buf" using l1(1) by simp
  have nth: "?b2 ! k = bs ! k" if "k < i_size y" "k < of_pos f \<or> ?e \<le> k" for k
  proof -
    have "?b1 ! k = bs ! k" using that(1) F(4) by (auto simp: nth_append)
    then show ?thesis using that l1 F(4) by (auto simp: nth_append)
  qed
  show ?thesis by (rule that [OF F(1,3) v fi op tf tk]) (use nth in blast)
qed

text \<open>
  Writing and reading back: bytes written at the position of an open file are what a read of
  as many from there returns, up to a byte 0; the file grows to the end of the write and the bytes beside it stay.
\<close>

theorem write_then_read:
  assumes "tmpfs_open_file f s" and "buf \<noteq> []" and "of_pos f + length buf < 2 ^ 64"
  shows "\<exists>s' f' r f'' i y y' bs bs'. vfs_write (tmpfs_fops junk) fi f buf s = Some ((int (length buf), f'), s')
    \<and> vfs_lseek (int (of_pos f)) 0 f' s' = Some (0, f)
    \<and> vfs_read (tmpfs_fops junk) fi f (length buf) s' = Some ((r, takeWhile (\<lambda>c. c \<noteq> 0) buf), f'')
    \<and> file_inode f s = Some (i, y) \<and> file_inode f s' = Some (i, y') \<and> i_size y' = max (i_size y) (of_pos f + length buf)
    \<and> tmpfs_file i s = Some bs \<and> tmpfs_file i s' = Some bs'
    \<and> (\<forall>k < i_size y. k < of_pos f \<or> of_pos f + length buf \<le> k \<longrightarrow> bs' ! k = bs ! k)"
proof -
  obtain i y bs bs' s' where W: "file_inode f s = Some (i, y)" "i_private y = Tmpfs_File bs"
    "vfs_write (tmpfs_fops junk) fi f buf s = Some ((int (length buf), f\<lparr>of_pos := of_pos f + length buf\<rparr>), s')"
    "file_inode f s' = Some (i, y\<lparr>i_private := Tmpfs_File bs', i_size := max (i_size y) (of_pos f + length buf)\<rparr>)"
    "tmpfs_open_file f s'" "tmpfs_file i s' = Some bs'" "take (length buf) (drop (of_pos f) bs') = buf"
    "\<forall>k < i_size y. k < of_pos f \<or> of_pos f + length buf \<le> k \<longrightarrow> bs' ! k = bs ! k"
    by (rule vfs_write_tmpfs [OF assms, where junk = junk and fi = fi])
  obtain us where r: "unread f s' = Some us"
    "vfs_read (tmpfs_fops junk) fi f (length buf) s' = Some ((int (length (take (length buf) us)), take (length buf) us), f\<lparr>of_pos := of_pos f + length (take (length buf) us)\<rparr>)"
    by (rule vfs_read_stream [OF W(5) assms(3), where junk = junk and fi = fi])
  let ?sz = "max (i_size y) (of_pos f + length buf)"
  have "take (length buf) us = takeWhile (\<lambda>c. c \<noteq> 0) (take (length buf) (drop (of_pos f) (take ?sz bs')))"
    using r(1) unread_cong [OF W(4,6)] by (simp add: takeWhile_take)
  also have "take (length buf) (drop (of_pos f) (take ?sz bs')) = take (length buf) (drop (of_pos f) bs')"
    by (simp add: drop_take min_def max_def)
  finally have t: "take (length buf) us = takeWhile (\<lambda>c. c \<noteq> 0) buf" using W(7) by simp
  have "vfs_lseek (int (of_pos f)) 0 (f\<lparr>of_pos := of_pos f + length buf\<rparr>) s' = Some (0, f)"
  proof -
    have "f\<lparr>of_pos := of_pos f + length buf\<rparr>\<lparr>of_pos := of_pos f\<rparr> = f" by (cases f) simp
    then show ?thesis using W(4) by (simp add: vfs_lseek_def vfs_lseek_unlocked_def Let_def)
  qed
  moreover have "tmpfs_file i s = Some bs" using W(1,2) by (auto simp: tmpfs_file_def dest: file_inode_inodes)
  ultimately show ?thesis using W(1,3,4,6,8) r(2) unfolding t
    by (intro exI [of _ s'] exI [of _ "f\<lparr>of_pos := of_pos f + length buf\<rparr>"] exI [of _ "int (length (takeWhile (\<lambda>c. c \<noteq> 0) buf))"]
        exI [of _ "f\<lparr>of_pos := of_pos f + length (takeWhile (\<lambda>c. c \<noteq> 0) buf)\<rparr>"] exI [of _ i] exI [of _ y]
        exI [of _ "y\<lparr>i_private := Tmpfs_File bs', i_size := max (i_size y) (of_pos f + length buf)\<rparr>"] exI [of _ bs] exI [of _ bs']) simp
qed

theorem write_then_read_witness:
  "\<exists>s' f' r f''. vfs_write (tmpfs_fops (\<lambda>_. 0)) (tmpfs_fops (\<lambda>_. 0)) (file_at 4) [7, 8, 9] file_volume = Some ((int (length [7, 8, 9 :: u8]), f'), s')
    \<and> vfs_read (tmpfs_fops (\<lambda>_. 0)) (tmpfs_fops (\<lambda>_. 0)) (file_at 4) (length [7, 8, 9 :: u8]) s' = Some ((r, [7, 8, 9]), f'')"
proof -
  have tw: "takeWhile (\<lambda>c. c \<noteq> 0) [7, 8, 9 :: u8] = [7, 8, 9]" by simp
  show ?thesis
    using write_then_read [OF file_volume_open [of 4] _ file_at_small(2), of "\<lambda>_. 0" "tmpfs_fops (\<lambda>_. 0)"]
    unfolding tw by blast
qed

text \<open>
  The \<open>read\<close> system call at the end of a file returns -1, which is the error \<open>EPERM\<close>,
  where \<open>readv\<close> returns 0; an error of \<open>vfs_read\<close> is turned into -1 as well.
\<close>

theorem read_at_end_fails:
  assumes "tmpfs_open_file f s" and "unread f s = Some []" and "of_mode f AND 3 \<noteq> 1" and "0 < cnt"
    and "of_pos f + cnt < 2 ^ 64"
  shows "sys_read (tmpfs_fops junk) fi (Inr f) True True cnt s = Some ((- 1, []), Some f)
    \<and> sys_readv (tmpfs_fops junk) fi (Inr f) [\<lparr>iov_ok = True, iov_len = cnt, iov_mem = True, iov_base_ok = True\<rparr>] 1 s = Some ((0, []), Some f)"
proof -
  obtain bs where b: "unread f s = Some bs"
    "vfs_read (tmpfs_fops junk) fi f cnt s = Some ((int (length (take cnt bs)), take cnt bs), f\<lparr>of_pos := of_pos f + length (take cnt bs)\<rparr>)"
    by (rule vfs_read_stream [OF assms(1,5), where junk = junk and fi = fi])
  then have "vfs_read (tmpfs_fops junk) fi f cnt s = Some ((0, []), f)" using assms(2) unread_pos0 [of f] by simp
  then show ?thesis using assms(3,4) by (simp add: sys_read_def sys_readv_def)
qed

theorem read_at_end_fails_witness:
  "sys_read (tmpfs_fops (\<lambda>_. 0)) (tmpfs_fops (\<lambda>_. 0)) (Inr (file_at 2)) True True 10 file_volume = Some ((- 1, []), Some (file_at 2))"
proof -
  have "unread (file_at 2) file_volume = Some []"
    by (simp add: unread_def file_inode_def tmpfs_file_def file_volume_def file_at_def)
  then show ?thesis
    using read_at_end_fails [OF file_volume_open [of 2], of 10 "\<lambda>_. 0" "tmpfs_fops (\<lambda>_. 0)"] by (simp add: file_at_def)
qed

text \<open>Reading a directory goes over the entries from the first one, whatever the position is.\<close>

lemma readdir_loop_take:
  assumes "\<forall>e \<in> set es. inodes s (e_inode e) \<noteq> None" and "pos + length es = num + off" and "off \<le> pos"
  shows "\<exists>ds. tmpfs_readdir_loop num k pos es s = Some ds \<and> map de_name ds = map e_name (take (min k (num - pos)) es)
    \<and> map de_off ds = [pos..<pos + min k (num - pos)]"
  using assms
proof (induction k arbitrary: pos es)
  case (Suc k)
  show ?case
  proof (cases "pos < num")
    case True
    then obtain e es1 where e: "es = e # es1" using Suc.prems(2,3) by (cases es) auto
    obtain y where y: "inodes s (e_inode e) = Some y" using Suc.prems(1) e by auto
    obtain ds where ds: "tmpfs_readdir_loop num k (pos + 1) es1 s = Some ds"
      "map de_name ds = map e_name (take (min k (num - (pos + 1))) es1)" "map de_off ds = [pos + 1..<pos + 1 + min k (num - (pos + 1))]"
      using Suc.IH [of es1 "pos + 1"] Suc.prems e by auto
    have m: "min (Suc k) (num - pos) = Suc (min k (num - (pos + 1)))" using True by (auto simp: min_def)
    show ?thesis using True e y ds unfolding m by (simp add: upt_rec)
  next
    case False
    then show ?thesis by simp
  qed
qed simp

text \<open>
  \<open>getdents\<close> on a tmpfs directory starts with the first entry on every call: the position
  only says how many entries may still be returned.  After a call that returned \<open>k\<close> of \<open>n\<close> entries the next one returns
  the first \<open>n - k\<close> again, and the last ones are never returned.
\<close>

theorem getdents_restarts:
  assumes "file_inode f s = Some (i, y)" and "S_ISDIR (i_mode y)" and "i_private y = Tmpfs_Dir es"
    and "\<forall>e \<in> set es. inodes s (e_inode e) \<noteq> None" and "0 \<le> sz" and "of_pos f \<le> length es"
  shows "\<exists>ds r f'. vfs_getdents (tmpfs_fops junk) f sz s = Some ((r, ds), f')
    \<and> map de_name ds = map e_name (take (min (nat sz div dirent_size) (length es - of_pos f)) es)
    \<and> of_pos f' = of_pos f + min (nat sz div dirent_size) (length es - of_pos f)"
proof -
  let ?k = "nat sz div dirent_size" and ?n = "length es"
  obtain ds where ds: "tmpfs_readdir_loop ?n ?k (of_pos f) es s = Some ds"
    "map de_name ds = map e_name (take (min ?k (?n - of_pos f)) es)" "map de_off ds = [of_pos f..<of_pos f + min ?k (?n - of_pos f)]"
    using readdir_loop_take [OF assms(4), of "of_pos f" ?n "of_pos f" ?k] by auto
  have l: "length ds = min ?k (?n - of_pos f)" using ds(3) by (metis length_map length_upt add_diff_cancel_left')
  have "tmpfs_readdir i (of_pos f) ?k s = Some ds"
    using file_inode_inodes [OF assms(1)] assms(3) ds(1) by (simp add: tmpfs_readdir_def tmpfs_dir_def)
  then show ?thesis using assms(1,2,5) ds(2) l by (auto simp: vfs_getdents_def tmpfs_fops_def nat_add_distrib)
qed

theorem getdents_restarts_witness:
  "\<exists>ds r f' s. vfs_getdents (tmpfs_fops (\<lambda>_. 0)) \<lparr>of_dentry = Some 0, of_pos = 1, of_mode = 0\<rparr> 152 s = Some ((r, ds), f')
     \<and> map de_name ds = [[97]]"
proof -
  let ?y = "\<lparr>i_mode = S_IFDIR, i_sb = 0, i_ino = 2, i_count = 1, i_nlink = 1, i_size = 0, i_atime = 0, i_mtime = 0, i_ctime = 0,
      i_private = Tmpfs_Dir [\<lparr>e_inode = 0, e_type = 1, e_name = [97]\<rparr>, \<lparr>e_inode = 0, e_type = 1, e_name = [98]\<rparr>]\<rparr>"
  let ?s = "file_volume\<lparr>inodes := (\<lambda>_. None)(0 := Some ?y)\<rparr>" and ?f = "\<lparr>of_dentry = Some 0, of_pos = 1, of_mode = 0\<rparr>"
  have i: "file_inode ?f ?s = Some (0, ?y)" by (simp add: file_inode_def file_volume_def)
  have "S_ISDIR S_IFDIR" by (simp add: S_ISDIR_def)
  then obtain ds r f' where "vfs_getdents (tmpfs_fops (\<lambda>_. 0)) ?f 152 ?s = Some ((r, ds), f')" "map de_name ds = [[97]]"
    using getdents_restarts [OF i, of _ 152 "\<lambda>_. 0"] by (auto simp: dirent_size_def)
  then show ?thesis by (intro exI conjI)
qed

end
