(* ===== verification/MemMap.thy ===== *)
theory MemMap imports LilacBase "HOL-Library.Monad_Syntax" begin

text \<open>
  The address space of a process: the list of mappings and the calls that change it
  (\<open>mm/mm.c\<close>), the pages a fault brings in (\<open>mm/fault.c\<close>), and the test of user
  addresses (\<open>include/lilac/uaccess.h\<close>).

  The doubly linked list of \<open>struct vm_desc\<close> is a list in the order of \<open>vm_next\<close>.
  Addresses are 64-bit words and wrap.  \<open>mem\<close> says whether \<open>kzmalloc\<close> succeeds.  The
  configuration is that of x86-64.
\<close>

section \<open>Mappings\<close>

abbreviation EACCES :: int where "EACCES \<equiv> 13"

definition page_down :: "u64 \<Rightarrow> u64" where "page_down x = x AND NOT 0xFFF"
definition page_up :: "u64 \<Rightarrow> u64" where "page_up x = (x + 0xFFF) AND NOT 0xFFF"

abbreviation USER_STACK :: u64 where "USER_STACK \<equiv> 0x0000800000000000"
abbreviation USER_MAX_ADDR :: u64 where "USER_MAX_ADDR \<equiv> 0x00007fffffffffff"
abbreviation USER_MMAP_START :: u64 where "USER_MMAP_START \<equiv> 0x0000004000000000"

abbreviation VM_READ :: u32 where "VM_READ \<equiv> 1"
abbreviation VM_WRITE :: u32 where "VM_WRITE \<equiv> 2"
abbreviation VM_EXEC :: u32 where "VM_EXEC \<equiv> 4"
abbreviation VM_SHARED :: u32 where "VM_SHARED \<equiv> 8"
abbreviation VM_IO :: u32 where "VM_IO \<equiv> 16"
abbreviation PROT_READ :: u32 where "PROT_READ \<equiv> 1"
abbreviation PROT_WRITE :: u32 where "PROT_WRITE \<equiv> 2"
abbreviation PROT_EXEC :: u32 where "PROT_EXEC \<equiv> 4"
abbreviation MAP_SHARED :: u32 where "MAP_SHARED \<equiv> 1"
abbreviation MAP_FIXED :: u32 where "MAP_FIXED \<equiv> 0x10"
abbreviation MAP_ANONYMOUS :: u32 where "MAP_ANONYMOUS \<equiv> 0x20"

record vm_desc =
  vm_start :: u64
  vm_end :: u64
  vm_flags :: u32
  vm_file :: "nat option"
  vm_pgoff :: u32
  vm_fsize :: nat
  seg_vaddr :: u64
  seg_offset :: u64

record mm_info =
  mmap_list :: "vm_desc list"
  start_brk :: u64
  brk_addr :: u64
  total_vm :: u64
  start_code :: u64
  end_code :: u64
  start_data :: u64
  end_data :: u64
  start_stack :: u64

definition new_vma :: "u64 \<Rightarrow> u64 \<Rightarrow> u32 \<Rightarrow> vm_desc" where
  "new_vma s e flags = \<lparr>vm_start = s, vm_end = e, vm_flags = flags, vm_file = None, vm_pgoff = 0, vm_fsize = 0,
     seg_vaddr = 0, seg_offset = 0\<rparr>"

definition convert_mmap_flags :: "u32 \<Rightarrow> u32 \<Rightarrow> u32" where
  "convert_mmap_flags prot flags =
     (if prot AND PROT_READ \<noteq> 0 then VM_READ else 0) OR (if prot AND PROT_WRITE \<noteq> 0 then VM_WRITE else 0)
     OR (if prot AND PROT_EXEC \<noteq> 0 then VM_EXEC else 0) OR (if flags AND MAP_SHARED \<noteq> 0 then VM_SHARED else 0)"

section \<open>The list\<close>

definition vma_has :: "u64 \<Rightarrow> vm_desc \<Rightarrow> bool" where
  "vma_has a v \<longleftrightarrow> vm_start v \<le> a \<and> a < vm_end v"

definition find_vma :: "vm_desc list \<Rightarrow> u64 \<Rightarrow> vm_desc option" where
  "find_vma vs a = List.find (vma_has a) vs"

text \<open>The last mapping before the first one that starts above the address.\<close>

fun find_prev_vma :: "vm_desc list \<Rightarrow> u64 \<Rightarrow> vm_desc option \<Rightarrow> vm_desc option" where
  "find_prev_vma [] a prev = prev"
| "find_prev_vma (v # vs) a prev = (if a < vm_start v then prev else find_prev_vma vs a (Some v))"

fun insert_after :: "vm_desc \<Rightarrow> vm_desc \<Rightarrow> vm_desc list \<Rightarrow> vm_desc list" where
  "insert_after v x [] = [x, v]"
| "insert_after v x (y # ys) = (if vm_start y < vm_start v then x # insert_after v y ys else x # v # y # ys)"

definition vma_list_insert :: "vm_desc \<Rightarrow> mm_info \<Rightarrow> mm_info" where
  "vma_list_insert v m = m\<lparr>
     total_vm := total_vm m + (vm_end v - vm_start v),
     mmap_list := (case mmap_list m of
         [] \<Rightarrow> [v]
       | x # xs \<Rightarrow> if vm_start v < vm_start x then v # x # xs else insert_after v x xs)\<rparr>"

definition create_brk_seg :: "bool \<Rightarrow> mm_info \<Rightarrow> mm_info option" where
  "create_brk_seg mem m =
     (if \<not> mem then None else Some (vma_list_insert (new_vma (start_brk m) (start_brk m) (VM_READ OR VM_WRITE)) m))"

section \<open>Finding room\<close>

text \<open>\<open>prev\<close> is the mapping to look behind, and \<open>nxt\<close> the one after that; 0 means there is no room.\<close>

definition find_gap_after :: "vm_desc option \<Rightarrow> vm_desc option \<Rightarrow> u64 \<Rightarrow> u64 \<Rightarrow> u64" where
  "find_gap_after prev nxt min_addr len =
     (let start = (case prev of Some p \<Rightarrow> page_up (vm_end p) | None \<Rightarrow> page_up min_addr);
          end = start + len in
      if end < start then 0
      else (case (prev, nxt) of
              (Some p, Some n) \<Rightarrow> if end \<le> vm_start n then start else 0
            | _ \<Rightarrow> start))"

text \<open>The loop: behind \<open>prev\<close>, then behind each mapping after it.\<close>

fun gap_loop :: "vm_desc option \<Rightarrow> vm_desc list \<Rightarrow> u64 \<Rightarrow> u64 \<Rightarrow> u64" where
  "gap_loop None vs search len = find_gap_after None None search len"
| "gap_loop (Some p) [] search len = find_gap_after (Some p) None search len"
| "gap_loop (Some p) (n # ns) search len =
     (let start = find_gap_after (Some p) (Some n) search len in
      if start \<noteq> 0 then start else gap_loop (Some n) ns (page_up (vm_end n)) len)"

definition create_new_vma_after :: "bool \<Rightarrow> vm_desc list \<Rightarrow> u64 \<Rightarrow> u64 \<Rightarrow> u32 \<Rightarrow> int + vm_desc" where
  "create_new_vma_after mem vs search len flags =
     (let start = (case dropWhile (\<lambda>v. \<not> vma_has search v) vs of
                     [] \<Rightarrow> gap_loop None vs search len
                   | p # ns \<Rightarrow> gap_loop (Some p) ns (page_up (vm_end p)) len) in
      if start = 0 \<or> \<not> mem then Inl (- ENOMEM) else Inr (new_vma start (start + len) flags))"

definition create_new_vma_at :: "bool \<Rightarrow> vm_desc list \<Rightarrow> u64 \<Rightarrow> u64 \<Rightarrow> u32 \<Rightarrow> int + vm_desc" where
  "create_new_vma_at mem vs vaddr len flags =
     (let end = page_up (vaddr + len) in
      if end < vaddr \<or> end \<ge> USER_MAX_ADDR \<or> find_vma vs vaddr \<noteq> None then Inl (- EINVAL)
      else (case find_prev_vma vs vaddr None of
              Some p \<Rightarrow>
                if page_up (vm_end p) > vaddr then Inl (- EINVAL)
                else (case dropWhile (\<lambda>v. v \<noteq> p) vs of
                        _ # n # _ \<Rightarrow> if end > vm_start n then Inl (- EINVAL)
                                    else if mem then Inr (new_vma vaddr end flags) else Inl (- ENOMEM)
                      | _ \<Rightarrow> if mem then Inr (new_vma vaddr end flags) else Inl (- ENOMEM))
            | None \<Rightarrow> if mem then Inr (new_vma vaddr end flags) else Inl (- ENOMEM)))"

section \<open>Mapping at a fixed address\<close>

text \<open>The mappings are cut around the range from \<open>s\<close> to \<open>e\<close>; the second part of the result is \<open>total_vm\<close>.\<close>

fun unmap_loop :: "bool \<Rightarrow> u64 \<Rightarrow> u64 \<Rightarrow> vm_desc list \<Rightarrow> u64 \<Rightarrow> vm_desc list \<times> u64" where
  "unmap_loop mem s e [] t = ([], t)"
| "unmap_loop mem s e (v # vs) t =
     (if \<not> vm_start v < e then (v # vs, t)
      else if vm_start v \<ge> s \<and> vm_end v \<le> e then unmap_loop mem s e vs (t - (vm_end v - vm_start v))
      else if vm_start v < s \<and> vm_end v > e then
        (if \<not> mem then (v # vs, t) else (v\<lparr>vm_end := s\<rparr> # v\<lparr>vm_start := e\<rparr> # vs, t - (e - s)))
      else if vm_start v < s then
        (case unmap_loop mem s e vs (t - (vm_end v - s)) of (vs1, t1) \<Rightarrow> (v\<lparr>vm_end := s\<rparr> # vs1, t1))
      else (case unmap_loop mem s e vs (t - (e - vm_start v)) of (vs1, t1) \<Rightarrow> (v\<lparr>vm_start := e\<rparr> # vs1, t1)))"

definition mmap_fixed_unmap_range :: "bool \<Rightarrow> u64 \<Rightarrow> u64 \<Rightarrow> mm_info \<Rightarrow> mm_info" where
  "mmap_fixed_unmap_range mem s e m =
     (let pre = takeWhile (\<lambda>v. vm_end v \<le> s) (mmap_list m);
          (vs, t) = unmap_loop mem s e (dropWhile (\<lambda>v. vm_end v \<le> s) (mmap_list m)) (total_vm m) in
      m\<lparr>mmap_list := pre @ vs, total_vm := t\<rparr>)"

section \<open>mmap\<close>

text \<open>\<open>mmap_op\<close> is the operation of the file, if it has one: it may change the mapping.\<close>

definition do_mmap_file :: "(vm_desc \<Rightarrow> int \<times> vm_desc) option \<Rightarrow> nat \<Rightarrow> u64 \<Rightarrow> vm_desc \<Rightarrow> int \<times> vm_desc" where
  "do_mmap_file mmap_op f offset v =
     (let v1 = v\<lparr>vm_file := Some f, vm_pgoff := ucast (offset div 4096)\<rparr> in
      case mmap_op of
        Some g \<Rightarrow> g (v1\<lparr>vm_flags := vm_flags v1 OR VM_IO\<rparr>)
      | None \<Rightarrow> (- EOPNOTSUPP, v1))"

text \<open>The number of pages is an \<open>int\<close>, and so is its product with the page size in the second branch.\<close>

definition mmap_pages :: "u64 \<Rightarrow> u64 \<Rightarrow> u32" where
  "mmap_pages addr len = ucast (page_up (len + (addr - page_down addr)) div 4096)"

definition sys_mmap :: "bool \<Rightarrow> (nat \<Rightarrow> u32) \<Rightarrow> (nat \<Rightarrow> (vm_desc \<Rightarrow> int \<times> vm_desc) option) \<Rightarrow> (int + nat)
    \<Rightarrow> u64 \<Rightarrow> u64 \<Rightarrow> u32 \<Rightarrow> u32 \<Rightarrow> bool \<Rightarrow> int \<Rightarrow> mm_info \<Rightarrow> (int + u64) \<times> mm_info" where
  "sys_mmap mem fmode mmap_op handle addr len prot flags fd_none offset m =
     (let np = mmap_pages addr len;
          mflags = convert_mmap_flags prot flags;
          (r, m1) =
            (if flags AND MAP_FIXED \<noteq> 0 then
               (let pg = page_down addr; e = pg + (scast np :: u64) * 4096 in
                if pg = 0 \<or> addr mod 4096 \<noteq> 0 \<or> e < pg \<or> e \<ge> USER_MAX_ADDR then (Inl (- EINVAL), m)
                else (if mem then Inr (new_vma pg e mflags) else Inl (- ENOMEM), mmap_fixed_unmap_range mem pg e m))
             else (create_new_vma_after mem (mmap_list m) (if page_down addr = 0 then USER_MMAP_START else page_down addr)
                     (scast (np * 4096)) mflags, m)) in
      case r of
        Inl e \<Rightarrow> (Inl e, m1)
      | Inr v \<Rightarrow>
          if flags AND MAP_ANONYMOUS \<noteq> 0 \<or> fd_none then (Inr (vm_start v), vma_list_insert v m1)
          else if offset mod 4096 \<noteq> 0 then (Inl (- EINVAL), m1)
          else (case handle of
                  Inl _ \<Rightarrow> (Inl (- EBADF), m1)
                | Inr f \<Rightarrow>
                    (let acc = fmode f AND 3 in
                     if (acc = 1 \<and> mflags AND VM_READ \<noteq> 0) \<or> (acc = 0 \<and> mflags AND VM_WRITE \<noteq> 0) then (Inl (- EACCES), m1)
                     else (case do_mmap_file (mmap_op f) f (of_int offset) v of
                             (ret, v1) \<Rightarrow> if ret < 0 then (Inl ret, m1)
                                         else (Inr (vm_start v1), vma_list_insert v1 m1)))))"

text \<open>\<open>munmap\<close> does nothing.\<close>

definition sys_munmap :: "u64 \<Rightarrow> u64 \<Rightarrow> mm_info \<Rightarrow> int \<times> mm_info" where
  "sys_munmap addr len m = (0, m)"

section \<open>The break\<close>

text \<open>The first mapping that starts at \<open>start_brk\<close>, which is made if there is none.\<close>

fun upd_brk_vma :: "u64 \<Rightarrow> (vm_desc \<Rightarrow> vm_desc) \<Rightarrow> vm_desc list \<Rightarrow> vm_desc list" where
  "upd_brk_vma b f [] = []"
| "upd_brk_vma b f (v # vs) = (if vm_start v = b then f v # vs else v # upd_brk_vma b f vs)"

definition brk_vma :: "mm_info \<Rightarrow> vm_desc option" where
  "brk_vma m = List.find (\<lambda>v. vm_start v = start_brk m) (mmap_list m)"

definition with_brk_seg :: "bool \<Rightarrow> mm_info \<Rightarrow> (vm_desc \<times> mm_info) option" where
  "with_brk_seg mem m =
     (case brk_vma m of
        Some v \<Rightarrow> Some (v, m)
      | None \<Rightarrow> map_option (\<lambda>m1. (new_vma (start_brk m) (start_brk m) (VM_READ OR VM_WRITE), m1)) (create_brk_seg mem m))"

definition brk :: "bool \<Rightarrow> u64 \<Rightarrow> mm_info \<Rightarrow> int \<times> mm_info" where
  "brk mem addr m =
     (if addr < start_brk m then (0, m)
      else (case with_brk_seg mem m of
              None \<Rightarrow> (- ENOMEM, m)
            | Some (v, m1) \<Rightarrow>
                if addr < vm_start v \<or> addr - vm_start v > 0xffffff then (- ENOMEM, m1)
                else (let m2 = (if addr > vm_end v
                                then m1\<lparr>mmap_list := upd_brk_vma (start_brk m1) (vm_end_update (\<lambda>_. page_up addr)) (mmap_list m1)\<rparr>
                                else m1) in
                      (0, m2\<lparr>brk_addr := addr\<rparr>))))"

definition sys_brk :: "bool \<Rightarrow> u64 \<Rightarrow> mm_info \<Rightarrow> u64 \<times> mm_info" where
  "sys_brk mem addr m = (case brk mem addr m of (_, m1) \<Rightarrow> (brk_addr m1, m1))"

definition sys_sbrk :: "bool \<Rightarrow> int \<Rightarrow> mm_info \<Rightarrow> (int + u64) \<times> mm_info" where
  "sys_sbrk mem inc m =
     (let old = brk_addr m in
      case with_brk_seg mem m of
        None \<Rightarrow> (Inl (- ENOMEM), m)
      | Some (v, m1) \<Rightarrow>
          if inc < 0 \<or> inc > 0xFFFFFF then (Inl (- ENOMEM), m1)
          else
            (let n = old + of_int inc in
             if n > vm_end v then
               (Inr old, m1\<lparr>mmap_list := upd_brk_vma (start_brk m1) (\<lambda>v. v\<lparr>vm_end := vm_end v + page_up (of_int inc) div 4096 * 4096\<rparr>) (mmap_list m1),
                            brk_addr := n\<rparr>)
             else if n < vm_start v then (Inl (- ENOMEM), m1)
             else (Inr old, m1\<lparr>brk_addr := n\<rparr>)))"

section \<open>User addresses\<close>

definition access_ok :: "u64 \<Rightarrow> u64 \<Rightarrow> mm_info \<Rightarrow> bool" where
  "access_ok addr sz m \<longleftrightarrow>
     (addr \<noteq> 0 \<and> ((addr \<ge> start_data m \<and> addr + sz < end_data m) \<or> (addr \<ge> start_stack m \<and> addr + sz < USER_STACK)
        \<or> addr + sz < brk_addr m \<or> (addr \<ge> start_code m \<and> addr + sz < end_code m)))
     \<or> find_vma (mmap_list m) addr \<noteq> None"

section \<open>Faults\<close>

abbreviation FAULT_WRITE :: u32 where "FAULT_WRITE \<equiv> 1"
abbreviation FAULT_INSTR :: u32 where "FAULT_INSTR \<equiv> 2"
abbreviation FAULT_PTE_EXIST :: u32 where "FAULT_PTE_EXIST \<equiv> 8"

datatype fault_return = FAULT_SUCCESS | FAULT_PROT_VIOLATION | FAULT_FILE_ERROR | FAULT_OOM

definition check_access :: "vm_desc \<Rightarrow> u32 \<Rightarrow> bool" where
  "check_access v flags \<longleftrightarrow>
     \<not> (flags AND FAULT_WRITE \<noteq> 0 \<and> vm_flags v AND VM_WRITE = 0)
     \<and> \<not> (flags AND FAULT_INSTR \<noteq> 0 \<and> vm_flags v AND VM_EXEC = 0)"

text \<open>
  The page that is mapped: its bytes, and whether \<open>MEM_PF_WRITE\<close> is among the flags that are handed to \<open>map_page\<close> (it does not
  keep the page from being written, see \<open>Paging\<close>).  \<open>junk\<close> is what the new page held, and
  \<open>rd f off n\<close> what \<open>vfs_lseek\<close> and \<open>vfs_read\<close> return for the file: a negative error, or the
  bytes read, which are at most \<open>n\<close>.
\<close>

definition do_file_fault :: "(nat \<Rightarrow> u8) \<Rightarrow> (nat \<Rightarrow> u64 \<Rightarrow> nat \<Rightarrow> int + u8 list) \<Rightarrow> nat \<Rightarrow> vm_desc \<Rightarrow> u64
    \<Rightarrow> fault_return \<times> (u8 list \<times> bool) option" where
  "do_file_fault junk rd f v pg =
     (let wr = (vm_flags v AND VM_WRITE \<noteq> 0);
          start_in = (if pg < seg_vaddr v then seg_vaddr v - pg else 0);
          off = (if pg + start_in > seg_vaddr v then pg + start_in - seg_vaddr v else 0) in
      if unat off \<ge> vm_fsize v then (FAULT_SUCCESS, Some (replicate 4096 0, wr))
      else
        (let n0 = vm_fsize v - unat off;
             n = (if of_nat n0 > 4096 - start_in then unat (4096 - start_in) else n0) in
         case rd f (seg_offset v + off) n of
           Inl _ \<Rightarrow> (FAULT_FILE_ERROR, None)
         | Inr bs \<Rightarrow>
             (let filled = unat start_in + length bs in
              (FAULT_SUCCESS,
               Some (replicate (unat start_in) 0 @ bs @ replicate (4096 - filled) 0, wr)))))"

definition do_anon_fault :: "vm_desc \<Rightarrow> fault_return \<times> (u8 list \<times> bool) option" where
  "do_anon_fault v = (FAULT_SUCCESS, Some (replicate 4096 0, vm_flags v AND VM_WRITE \<noteq> 0))"

text \<open>A fault on a page that is present panics.\<close>

definition mm_fault :: "(nat \<Rightarrow> u8) \<Rightarrow> (nat \<Rightarrow> u64 \<Rightarrow> nat \<Rightarrow> int + u8 list) \<Rightarrow> vm_desc \<Rightarrow> u64 \<Rightarrow> u32
    \<Rightarrow> (fault_return \<times> (u8 list \<times> bool) option) option" where
  "mm_fault junk rd v addr flags =
     (if \<not> check_access v flags then Some (FAULT_PROT_VIOLATION, None)
      else if flags AND FAULT_PTE_EXIST \<noteq> 0 then None
      else Some (case vm_file v of Some f \<Rightarrow> do_file_fault junk rd f v (page_down addr) | None \<Rightarrow> do_anon_fault v))"

section \<open>What an address maps to\<close>

text \<open>What a fault looks at: the mapping without its bounds.\<close>

definition vm_attr :: "vm_desc \<Rightarrow> vm_desc" where
  "vm_attr v = v\<lparr>vm_start := 0, vm_end := 0\<rparr>"

definition map_at :: "vm_desc list \<Rightarrow> u64 \<Rightarrow> vm_desc option" where
  "map_at vs a = map_option vm_attr (find_vma vs a)"

text \<open>Mappings that are not empty, in the order of their addresses, and do not overlap.\<close>

definition vmas_ok :: "vm_desc list \<Rightarrow> bool" where
  "vmas_ok vs \<longleftrightarrow> sorted_wrt (\<lambda>v w. vm_end v \<le> vm_start w) vs \<and> (\<forall>v \<in> set vs. vm_start v < vm_end v)"

definition vm_sum :: "vm_desc list \<Rightarrow> u64" where
  "vm_sum vs = sum_list (map (\<lambda>v. vm_end v - vm_start v) vs)"

definition mm_ok :: "mm_info \<Rightarrow> bool" where
  "mm_ok m \<longleftrightarrow> vmas_ok (mmap_list m) \<and> total_vm m = vm_sum (mmap_list m)"

lemma find_vma_simps [simp]:
  "find_vma [] a = None" "find_vma (v # vs) a = (if vma_has a v then Some v else find_vma vs a)"
  by (simp_all add: find_vma_def)

lemma find_vma_append: "find_vma (xs @ ys) a = (case find_vma xs a of Some v \<Rightarrow> Some v | None \<Rightarrow> find_vma ys a)"
  by (induction xs) simp_all

lemma find_vma_None: "find_vma vs a = None \<longleftrightarrow> (\<forall>v \<in> set vs. \<not> vma_has a v)"
  by (induction vs) auto

lemma vmas_ok_Cons: "vmas_ok (v # vs) \<longleftrightarrow> vm_start v < vm_end v \<and> (\<forall>w \<in> set vs. vm_end v \<le> vm_start w) \<and> vmas_ok vs"
  by (auto simp: vmas_ok_def)

lemma vmas_ok_append:
  "vmas_ok (xs @ ys) \<longleftrightarrow> vmas_ok xs \<and> vmas_ok ys \<and> (\<forall>v \<in> set xs. \<forall>w \<in> set ys. vm_end v \<le> vm_start w)"
  by (auto simp: vmas_ok_def sorted_wrt_append)

lemma vmas_ok_starts: "vmas_ok (v # vs) \<Longrightarrow> w \<in> set vs \<Longrightarrow> vm_start v < vm_start w"
  unfolding vmas_ok_Cons by (elim conjE) (drule (1) bspec, order)

text \<open>In an ordered list the mapping of an address is the only one that has it.\<close>

lemma find_vma_unique: "vmas_ok vs \<Longrightarrow> v \<in> set vs \<Longrightarrow> vma_has a v \<Longrightarrow> find_vma vs a = Some v"
proof (induction vs)
  case (Cons w vs)
  have "\<not> vma_has a w" if "v \<in> set vs"
  proof
    assume "vma_has a w"
    then have "a < vm_end w" "vm_end w \<le> vm_start v" using Cons.prems(1) that by (auto simp: vma_has_def vmas_ok_Cons)
    moreover have "vm_start v \<le> a" using Cons.prems(3) by (simp add: vma_has_def)
    ultimately show False by order
  qed
  then show ?case using Cons by (auto simp: vmas_ok_Cons)
qed simp

lemma vm_sum_simps [simp]: "vm_sum [] = 0" "vm_sum (v # vs) = vm_end v - vm_start v + vm_sum vs" "vm_sum (xs @ ys) = vm_sum xs + vm_sum ys"
  by (simp_all add: vm_sum_def)

section \<open>Cutting a range out\<close>

lemma unmap_loop_ok:
  assumes "s < e"
  shows "vmas_ok vs \<Longrightarrow> \<forall>v \<in> set vs. s < vm_end v \<Longrightarrow> unmap_loop True s e vs t = (vs1, t1) \<Longrightarrow>
     vmas_ok vs1 \<and> t1 - vm_sum vs1 = t - vm_sum vs
     \<and> (\<forall>v \<in> set vs1. (vm_end v \<le> s \<or> e \<le> vm_start v) \<and> (\<exists>w \<in> set vs. vm_start w \<le> vm_start v))
     \<and> (\<forall>a. map_at vs1 a = (if s \<le> a \<and> a < e then None else map_at vs a))"
proof (induction vs arbitrary: t vs1 t1)
  case Nil
  then show ?case by (simp add: map_at_def)
next
  case (Cons v vs)
  have ok: "vm_start v < vm_end v" "vmas_ok vs" "\<And>w. w \<in> set vs \<Longrightarrow> vm_end v \<le> vm_start w"
    using Cons.prems(1) by (simp_all add: vmas_ok_Cons)
  have gt: "\<forall>v \<in> set vs. s < vm_end v" and sv: "s < vm_end v" using Cons.prems(2) by simp_all
  consider (stop) "\<not> vm_start v < e" | (drop) "vm_start v < e" "s \<le> vm_start v" "vm_end v \<le> e"
    | (split) "vm_start v < e" "vm_start v < s" "e < vm_end v"
    | (tail) "vm_start v < e" "vm_start v < s" "vm_end v \<le> e" | (head) "vm_start v < e" "s \<le> vm_start v" "e < vm_end v"
    by (meson linorder_not_le)
  then show ?case
  proof cases
    case stop
    have no: "\<not> vma_has a w" if "w \<in> set (v # vs)" "a < e" for a w
    proof -
      have "vm_start v \<le> vm_start w" using that(1) vmas_ok_starts [OF Cons.prems(1)] by (auto simp: less_imp_le)
      then show ?thesis using stop that(2) unfolding vma_has_def by auto
    qed
    have eq: "vs1 = v # vs" "t1 = t" using Cons.prems(3) stop by auto
    have ge: "e \<le> vm_start w" if "w \<in> set (v # vs)" for w
      using that stop vmas_ok_starts [OF Cons.prems(1), of w] by auto
    have "find_vma (v # vs) a = None" if "a < e" for a
      unfolding find_vma_None using no that by blast
    then show ?thesis unfolding eq using Cons.prems(1) ge by (auto simp: map_at_def simp del: find_vma_simps)
  next
    case drop
    then have "unmap_loop True s e vs (t - (vm_end v - vm_start v)) = (vs1, t1)" using Cons.prems(3) by auto
    note I = Cons.IH [OF ok(2) gt this]
    have "map_at (v # vs) a = map_at vs a" if "\<not> (s \<le> a \<and> a < e)" for a
      using drop that by (auto simp: map_at_def vma_has_def)
    then show ?thesis using I by (auto simp: algebra_simps)
  next
    case split
    have "\<not> s \<le> vm_start v" using split by order
    then have eq: "vs1 = v\<lparr>vm_end := s\<rparr> # v\<lparr>vm_start := e\<rparr> # vs" "t1 = t - (e - s)"
      using Cons.prems(3) split by simp_all
    have g: "e \<le> vm_start w" "s \<le> vm_start w" if "w \<in> set vs" for w using ok(3) [OF that] split assms by order+
    have ok1: "vmas_ok vs1" unfolding eq using ok split assms g by (auto simp: vmas_ok_Cons less_imp_le)
    moreover have "t1 - vm_sum vs1 = t - vm_sum (v # vs)" unfolding eq by (simp add: algebra_simps)
    moreover have "\<forall>x \<in> set vs1. (vm_end x \<le> s \<or> e \<le> vm_start x) \<and> (\<exists>w \<in> set (v # vs). vm_start w \<le> vm_start x)"
      unfolding eq using ok(3) split assms g by auto
    moreover have "map_at vs1 a = (if s \<le> a \<and> a < e then None else map_at (v # vs) a)" for a
    proof -
      have "find_vma vs a = None" if "a < e"
        unfolding find_vma_None vma_has_def using ok(3) split(3) that by (meson leD le_less_trans less_trans)
      then show ?thesis unfolding eq using split assms by (auto simp: map_at_def vma_has_def vm_attr_def)
    qed
    ultimately show ?thesis by blast
  next
    case tail
    have c: "\<not> s \<le> vm_start v" "\<not> vm_end v > e" using tail by order+
    obtain vs2 where r: "unmap_loop True s e vs (t - (vm_end v - s)) = (vs2, t1)" "vs1 = v\<lparr>vm_end := s\<rparr> # vs2"
      using Cons.prems(3) tail c by (auto split: prod.splits)
    note I = Cons.IH [OF ok(2) gt r(1)]
    have sep: "s \<le> vm_start w" if "w \<in> set vs2" for w
    proof -
      obtain u where u: "u \<in> set vs" "vm_start u \<le> vm_start w" using I \<open>w \<in> set vs2\<close> by blast
      show ?thesis using ok(3) [OF u(1)] u(2) sv by order
    qed
    have "vmas_ok vs1" unfolding r(2) vmas_ok_Cons using I tail sep by simp
    moreover have "t1 - vm_sum vs1 = t - vm_sum (v # vs)" using I unfolding r(2) by (simp add: algebra_simps)
    moreover have "\<forall>x \<in> set vs1. (vm_end x \<le> s \<or> e \<le> vm_start x) \<and> (\<exists>w \<in> set (v # vs). vm_start w \<le> vm_start x)"
      using I unfolding r(2) by auto
    moreover have "map_at vs1 a = (if s \<le> a \<and> a < e then None else map_at (v # vs) a)" for a
    proof -
      have h: "vma_has a (v\<lparr>vm_end := s\<rparr>) \<longleftrightarrow> vma_has a v \<and> a < s"
        using sv unfolding vma_has_def by (auto intro: less_trans)
      have x: "\<not> vma_has a v" if "e \<le> a" using tail that unfolding vma_has_def by (meson leD le_less_trans order_less_le_trans)
      have m: "map_at vs2 a = (if s \<le> a \<and> a < e then None else map_at vs a)" using I by blast
      consider "a < s" | "s \<le> a" "a < e" | "s \<le> a" "e \<le> a" by (meson linorder_not_le)
      then show ?thesis
      proof cases
        case 1
        then have "\<not> s \<le> a" by simp
        then show ?thesis using h m 1 unfolding r(2) by (simp add: map_at_def vm_attr_def)
      next
        case 2
        then have "\<not> a < s" by simp
        then show ?thesis using h m 2 unfolding r(2) by (simp add: map_at_def)
      next
        case 3
        then have "\<not> a < s" "\<not> a < e" by simp_all
        then show ?thesis using h m x 3 unfolding r(2) by (simp add: map_at_def)
      qed
    qed
    ultimately show ?thesis by blast
  next
    case head
    have c: "\<not> vm_end v \<le> e" "\<not> vm_start v < s" using head by order+
    obtain vs2 where r: "unmap_loop True s e vs (t - (e - vm_start v)) = (vs2, t1)" "vs1 = v\<lparr>vm_start := e\<rparr> # vs2"
      using Cons.prems(3) head c by (auto split: prod.splits)
    note I = Cons.IH [OF ok(2) gt r(1)]
    have sep: "vm_end v \<le> vm_start w" if "w \<in> set vs2" for w
    proof -
      obtain u where u: "u \<in> set vs" "vm_start u \<le> vm_start w" using I \<open>w \<in> set vs2\<close> by blast
      show ?thesis using ok(3) [OF u(1)] u(2) by order
    qed
    have "vmas_ok vs1" unfolding r(2) vmas_ok_Cons using I head sep by simp
    moreover have "t1 - vm_sum vs1 = t - vm_sum (v # vs)" using I unfolding r(2) by (simp add: algebra_simps)
    moreover have "\<forall>x \<in> set vs1. (vm_end x \<le> s \<or> e \<le> vm_start x) \<and> (\<exists>w \<in> set (v # vs). vm_start w \<le> vm_start x)"
      using I head(1) unfolding r(2) by (auto simp: less_imp_le)
    moreover have "map_at vs1 a = (if s \<le> a \<and> a < e then None else map_at (v # vs) a)" for a
    proof -
      have h: "vma_has a (v\<lparr>vm_start := e\<rparr>) \<longleftrightarrow> vma_has a v \<and> e \<le> a"
        using head(1) unfolding vma_has_def by (auto intro: less_le_trans less_imp_le)
      have x: "\<not> vma_has a v" if "a < s" using head that unfolding vma_has_def by (meson leD le_less_trans order_less_le_trans)
      have m: "map_at vs2 a = (if s \<le> a \<and> a < e then None else map_at vs a)" using I by blast
      consider "a < s" "a < e" | "s \<le> a" "a < e" | "e \<le> a" by (meson linorder_not_le)
      then show ?thesis
      proof cases
        case 1
        then have "\<not> s \<le> a" "\<not> e \<le> a" by simp_all
        then show ?thesis using h x m 1 unfolding r(2) by (simp add: map_at_def)
      next
        case 2
        then have "\<not> e \<le> a" by simp
        then show ?thesis using h m 2 unfolding r(2) by (simp add: map_at_def)
      next
        case 3
        then have "\<not> a < e" by simp
        then show ?thesis using h m 3 unfolding r(2) by (simp add: map_at_def vm_attr_def)
      qed
    qed
    ultimately show ?thesis by blast
  qed
qed

section \<open>Putting a mapping in\<close>

lemma find_vma_iff: "vmas_ok vs \<Longrightarrow> find_vma vs a = Some u \<longleftrightarrow> u \<in> set vs \<and> vma_has a u"
  using find_vma_unique [of vs u a] by (auto simp: find_vma_def find_Some_iff)

definition no_overlap :: "vm_desc \<Rightarrow> vm_desc \<Rightarrow> bool" where
  "no_overlap v w \<longleftrightarrow> vm_end w \<le> vm_start v \<or> vm_end v \<le> vm_start w"

lemma no_overlap_before: "no_overlap v w \<Longrightarrow> vm_start v < vm_end v \<Longrightarrow> vm_start w < vm_end w \<Longrightarrow> \<not> vm_start v < vm_start w \<Longrightarrow> vm_end w \<le> vm_start v"
  unfolding no_overlap_def by (elim disjE) order+

lemma no_overlap_after: "no_overlap v w \<Longrightarrow> vm_start v < vm_end v \<Longrightarrow> vm_start w < vm_end w \<Longrightarrow> \<not> vm_start w < vm_start v \<Longrightarrow> vm_end v \<le> vm_start w"
  unfolding no_overlap_def by (elim disjE) order+

lemma insert_after_ok:
  assumes "vm_start v < vm_end v"
  shows "vmas_ok (x # ys) \<Longrightarrow> \<forall>w \<in> set (x # ys). no_overlap v w \<Longrightarrow> \<not> vm_start v < vm_start x \<Longrightarrow>
    vmas_ok (insert_after v x ys) \<and> set (insert_after v x ys) = insert v (set (x # ys))
    \<and> vm_sum (insert_after v x ys) = vm_end v - vm_start v + vm_sum (x # ys)"
  using assms
proof (induction v x ys rule: insert_after.induct)
  case (1 v x)
  then have "vm_start x < vm_end x" "no_overlap v x" "\<not> vm_start v < vm_start x" by (simp_all add: vmas_ok_def)
  then have "vm_end x \<le> vm_start v" using no_overlap_before "1"(4) by blast
  then show ?case using "1" by (auto simp: vmas_ok_def)
next
  case (2 v x y ys)
  have ok: "vm_start x < vm_end x" "vm_start y < vm_end y" "vmas_ok (y # ys)" using "2.prems" by (simp_all add: vmas_ok_Cons)
  have x: "vm_end x \<le> vm_start v" using no_overlap_before [of v x] "2.prems" ok by simp
  show ?case
  proof (cases "vm_start y < vm_start v")
    case True
    then have "\<not> vm_start v < vm_start y" by order
    note I = "2.IH" [OF True ok(3) _ this "2.prems"(4)]
    then show ?thesis using "2.prems" True x by (simp add: vmas_ok_Cons [of x]) (auto simp: algebra_simps)
  next
    case False
    have y: "vm_end v \<le> vm_start y" using no_overlap_after [of v y] "2.prems" False ok by simp
    have "vm_end v \<le> vm_start w" if "w \<in> set ys" for w
    proof -
      have "vm_start y < vm_start w" by (rule vmas_ok_starts [OF ok(3) that])
      then show ?thesis using y by order
    qed
    then have "vmas_ok (v # y # ys)" using y ok(3) "2.prems"(4) by (simp add: vmas_ok_Cons [of v])
    then show ?thesis using "2.prems" False x by (auto simp: vmas_ok_Cons [of x] algebra_simps)
  qed
qed

lemma vma_list_insert_ok:
  assumes ok: "vmas_ok (mmap_list m)" and v: "vm_start v < vm_end v" and n: "\<forall>w \<in> set (mmap_list m). no_overlap v w"
  defines "m' \<equiv> vma_list_insert v m"
  shows "vmas_ok (mmap_list m')" "set (mmap_list m') = insert v (set (mmap_list m))"
    "total_vm m' - vm_sum (mmap_list m') = total_vm m - vm_sum (mmap_list m)"
    "find_vma (mmap_list m') a = (if vma_has a v then Some v else find_vma (mmap_list m) a)"
proof -
  have A: "vmas_ok (mmap_list m') \<and> set (mmap_list m') = insert v (set (mmap_list m))
      \<and> total_vm m' - vm_sum (mmap_list m') = total_vm m - vm_sum (mmap_list m)"
  proof (cases "mmap_list m")
    case Nil
    then show ?thesis using v by (simp add: m'_def vma_list_insert_def vmas_ok_def)
  next
    case (Cons x xs)
    show ?thesis
    proof (cases "vm_start v < vm_start x")
      case True
      have x: "vm_start x < vm_end x" using ok Cons by (simp add: vmas_ok_Cons)
      have "\<not> vm_start x < vm_start v" using True by order
      then have e: "vm_end v \<le> vm_start x" using no_overlap_after [of v x] n Cons v x by simp
      have "vm_end v \<le> vm_start w" if "w \<in> set xs" for w
      proof -
        have "vm_start x < vm_start w" using vmas_ok_starts ok Cons that by simp
        then show ?thesis using e by order
      qed
      then have "vmas_ok (v # x # xs)" using ok Cons v e by (simp add: vmas_ok_Cons [of v])
      then show ?thesis using True Cons by (simp add: m'_def vma_list_insert_def)
    next
      case False
      then show ?thesis using insert_after_ok [OF v, of x xs] ok n Cons
        by (simp add: m'_def vma_list_insert_def algebra_simps)
    qed
  qed
  then show B: "vmas_ok (mmap_list m')" "set (mmap_list m') = insert v (set (mmap_list m))"
    "total_vm m' - vm_sum (mmap_list m') = total_vm m - vm_sum (mmap_list m)" by blast+
  show "find_vma (mmap_list m') a = (if vma_has a v then Some v else find_vma (mmap_list m) a)"
  proof (cases "find_vma (mmap_list m') a")
    case None
    then have "\<forall>u \<in> insert v (set (mmap_list m)). \<not> vma_has a u" unfolding find_vma_None B(2) by blast
    then have "find_vma (mmap_list m) a = None" "\<not> vma_has a v" unfolding find_vma_None by blast+
    then show ?thesis using None by simp
  next
    case (Some u)
    then have u: "u \<in> set (mmap_list m')" "vma_has a u" using find_vma_iff [OF B(1)] by auto
    show ?thesis
    proof (cases "vma_has a v")
      case True
      then have "find_vma (mmap_list m') a = Some v" using find_vma_iff [OF B(1)] B(2) by auto
      then show ?thesis using True by simp
    next
      case False
      then have "u \<in> set (mmap_list m)" using u B(2) by auto
      then have "find_vma (mmap_list m) a = Some u" using find_vma_iff [OF ok, of a u] u(2) by blast
      then show ?thesis using Some False by simp
    qed
  qed
qed

text \<open>The range from \<open>s\<close> to \<open>e\<close> is free afterwards, and nothing else has changed.\<close>

lemma mmap_fixed_unmap_range_ok:
  assumes ok: "vmas_ok (mmap_list m)" and se: "s < e"
  defines "m' \<equiv> mmap_fixed_unmap_range True s e m"
  shows "vmas_ok (mmap_list m')" "total_vm m' - vm_sum (mmap_list m') = total_vm m - vm_sum (mmap_list m)"
    "\<forall>v \<in> set (mmap_list m'). vm_end v \<le> s \<or> e \<le> vm_start v"
    "map_at (mmap_list m') a = (if s \<le> a \<and> a < e then None else map_at (mmap_list m) a)"
proof -
  let ?pre = "takeWhile (\<lambda>v. vm_end v \<le> s) (mmap_list m)" and ?suf = "dropWhile (\<lambda>v. vm_end v \<le> s) (mmap_list m)"
  obtain vs t where u: "unmap_loop True s e ?suf (total_vm m) = (vs, t)" by (cases "unmap_loop True s e ?suf (total_vm m)")
  have m': "mmap_list m' = ?pre @ vs" "total_vm m' = t" by (simp_all add: m'_def mmap_fixed_unmap_range_def u)
  have split: "mmap_list m = ?pre @ ?suf" by simp
  have oks: "vmas_ok ?pre" "vmas_ok ?suf" "\<forall>v \<in> set ?pre. \<forall>w \<in> set ?suf. vm_end v \<le> vm_start w"
    using ok split vmas_ok_append [of ?pre ?suf] by simp_all
  have gt: "\<forall>v \<in> set ?suf. s < vm_end v"
  proof (cases ?suf)
    case (Cons x xs)
    then have x: "\<not> vm_end x \<le> s" using hd_dropWhile [of "\<lambda>v. vm_end v \<le> s" "mmap_list m"] by simp
    have "s < vm_end w" if "w \<in> set xs" for w
    proof -
      have "vm_end x \<le> vm_start w" "vm_start w < vm_end w" using oks(2) that Cons by (auto simp: vmas_ok_def)
      then show ?thesis using x by order
    qed
    then show ?thesis using x Cons by auto
  next
    case Nil
    then show ?thesis by (simp only: list.set ball_empty)
  qed
  note U = unmap_loop_ok [OF se oks(2) gt u]
  have sep: "vm_end v \<le> vm_start w" if q: "v \<in> set ?pre" "w \<in> set vs" for v w
  proof -
    obtain x where x: "x \<in> set ?suf" "vm_start x \<le> vm_start w" using U q(2) by blast
    have "vm_end v \<le> vm_start x" using oks(3) q(1) x(1) by blast
    then show ?thesis using x(2) by order
  qed
  show "vmas_ok (mmap_list m')" unfolding m'(1) vmas_ok_append using oks(1) U sep by blast
  have "vm_sum (mmap_list m) = vm_sum ?pre + vm_sum ?suf" using vm_sum_simps(3) [of ?pre ?suf] split by simp
  then show "total_vm m' - vm_sum (mmap_list m') = total_vm m - vm_sum (mmap_list m)"
    using U unfolding m' by (simp add: algebra_simps)
  have pre: "vm_end v \<le> s" if "v \<in> set ?pre" for v using that by (auto dest: set_takeWhileD)
  then show "\<forall>v \<in> set (mmap_list m'). vm_end v \<le> s \<or> e \<le> vm_start v" using U unfolding m'(1) by auto
  have nopre: "find_vma ?pre a = None" if "s \<le> a"
    unfolding find_vma_None vma_has_def using pre that by (meson leD le_less_trans order_less_le_trans)
  show "map_at (mmap_list m') a = (if s \<le> a \<and> a < e then None else map_at (mmap_list m) a)"
  proof -
    have S: "map_at (mmap_list m) a = (case find_vma ?pre a of Some v \<Rightarrow> Some (vm_attr v) | None \<Rightarrow> map_at ?suf a)"
      using find_vma_append [of ?pre ?suf a] split by (simp add: map_at_def split: option.splits)
    have "map_at (mmap_list m') a = (case find_vma ?pre a of Some v \<Rightarrow> Some (vm_attr v) | None \<Rightarrow> map_at vs a)"
      unfolding m'(1) by (simp add: map_at_def find_vma_append split: option.splits)
    then show ?thesis unfolding S using U nopre by (auto split: option.splits)
  qed
qed

section \<open>Pages\<close>

lemma low12: "(0xFFF :: u64) = mask 12"
  by (simp add: mask_eq_exp_minus_1)

lemma unat_page: "unat (y AND NOT (0xFFF :: u64)) = unat y div 4096 * 4096"
proof -
  have "y AND NOT (mask 12) = push_bit 12 (drop_bit 12 y)"
    by (rule bit_word_eqI) (auto simp: bit_and_iff bit_not_iff bit_mask_iff bit_push_bit_iff bit_drop_bit_eq)
  then have "unat (y AND NOT (mask 12)) = take_bit 64 (unat y div 4096 * 4096)"
    by (simp add: push_bit_eq_mult unat_drop_bit_eq drop_bit_eq_div take_bit_eq_mod unat_word_ariths mod_mult_left_eq)
  moreover have "unat y div 4096 * 4096 < 2 ^ 64"
  proof -
    have "unat y < 2 ^ 64" using unsigned_less [of y] by simp
    then show ?thesis using div_times_less_eq_dividend [of "unat y" 4096] by linarith
  qed
  ultimately show ?thesis unfolding low12 by (simp add: take_bit_eq_mod)
qed

lemma page_down_unat: "unat (page_down x) = unat x div 4096 * 4096"
  unfolding page_down_def by (rule unat_page)

lemma aligned_unat: "x mod 4096 = 0 \<Longrightarrow> unat (x :: u64) mod 4096 = 0"
proof -
  assume "x mod 4096 = 0"
  then have "unat (x mod 4096) = 0" by simp
  then show ?thesis by (simp add: unat_mod_distrib)
qed

lemma page_down_aligned: "x mod 4096 = 0 \<Longrightarrow> page_down x = x"
proof -
  assume "x mod 4096 = 0"
  then have "unat x mod 4096 = 0" by (rule aligned_unat)
  then have "unat (page_down x) = unat x" unfolding page_down_unat by (simp add: mod_0_imp_dvd dvd_div_mult_self)
  then show ?thesis by (simp add: word_unat_eq_iff)
qed

text \<open>User addresses are far from the end of the address space, so that rounding up does not wrap.\<close>

lemma page_up_unat:
  assumes "x \<le> USER_MAX_ADDR"
  shows "unat (page_up x) = (unat x + 4095) div 4096 * 4096"
proof -
  have "unat x \<le> unat USER_MAX_ADDR" using assms by (simp only: word_le_nat_alt)
  then have "unat (x + 0xFFF) = unat x + 4095" by (subst unat_add_lem [THEN iffD1]) simp_all
  then show ?thesis unfolding page_up_def unat_page by simp
qed

lemma page_up_ge: "x \<le> USER_MAX_ADDR \<Longrightarrow> x \<le> page_up x"
proof -
  assume "x \<le> USER_MAX_ADDR"
  then have "unat (page_up x) = (unat x + 4095) div 4096 * 4096" by (rule page_up_unat)
  then have "unat x \<le> unat (page_up x)" by linarith
  then show ?thesis by (simp only: word_le_nat_alt)
qed

section \<open>Room behind a mapping\<close>

lemma add_gt: "st \<le> st + len \<Longrightarrow> len \<noteq> 0 \<Longrightarrow> st < st + (len :: u64)"
  by (metis add_cancel_right_right order_le_imp_less_or_eq)

lemma gap_loop_ok:
  assumes "len \<noteq> 0"
  shows "vmas_ok (p # ns) \<Longrightarrow> \<forall>w \<in> set (p # ns). vm_end w \<le> USER_MAX_ADDR \<Longrightarrow> gap_loop (Some p) ns search len \<noteq> 0
    \<Longrightarrow> (let st = gap_loop (Some p) ns search len in
         vm_end p \<le> st \<and> st < st + len \<and> (\<forall>w \<in> set ns. vm_end w \<le> st \<or> st + len \<le> vm_start w))"
proof (induction ns arbitrary: p search)
  case Nil
  let ?s = "page_up (vm_end p)"
  have g: "gap_loop (Some p) [] search len = (if ?s + len < ?s then 0 else ?s)"
    by (simp add: find_gap_after_def Let_def)
  then have "\<not> ?s + len < ?s" using Nil(3) by metis
  then show ?case unfolding g using page_up_ge Nil(2) add_gt [of ?s len] assms by (simp add: Let_def)
next
  case (Cons n ns)
  let ?s = "page_up (vm_end p)" and ?g = "gap_loop (Some n) ns (page_up (vm_end n)) len"
  have ok: "vmas_ok (n # ns)" "vm_end p \<le> vm_start n" "vm_start n < vm_end n" using Cons.prems(1) by (simp_all add: vmas_ok_Cons)
  have pe: "vm_end p \<le> ?s" using page_up_ge Cons.prems(2) by simp
  show ?case
  proof (cases "find_gap_after (Some p) (Some n) search len = 0")
    case True
    then have g: "gap_loop (Some p) (n # ns) search len = ?g" by (simp add: Let_def)
    then have I: "vm_end n \<le> ?g \<and> ?g < ?g + len \<and> (\<forall>w \<in> set ns. vm_end w \<le> ?g \<or> ?g + len \<le> vm_start w)"
      using Cons.IH [OF ok(1)] Cons.prems by (simp add: Let_def)
    moreover have "vm_end p \<le> ?g" using I ok(2,3) by (meson order.trans less_imp_le)
    ultimately show ?thesis unfolding g Let_def by simp
  next
    case False
    then have g: "gap_loop (Some p) (n # ns) search len = find_gap_after (Some p) (Some n) search len" by (simp add: Let_def)
    have f: "find_gap_after (Some p) (Some n) search len = ?s" "\<not> ?s + len < ?s" "?s + len \<le> vm_start n"
      using False by (auto simp: find_gap_after_def Let_def split: if_splits)
    have "?s + len \<le> vm_start w" if "w \<in> set (n # ns)" for w
      using that f(3) vmas_ok_starts [OF ok(1), of w] by (auto simp: less_imp_le intro: order.trans)
    then show ?thesis unfolding g f(1) Let_def using pe f(2) add_gt [of ?s len] assms by simp
  qed
qed

lemma create_new_vma_after_ok:
  assumes ok: "vmas_ok vs" and u: "\<forall>w \<in> set vs. vm_end w \<le> USER_MAX_ADDR" and h: "find_vma vs search \<noteq> None" and l: "len \<noteq> 0"
    and r: "create_new_vma_after True vs search len flags = Inr v"
  shows "vm_start v < vm_end v" "vm_end v = vm_start v + len" "v = new_vma (vm_start v) (vm_end v) flags" "\<forall>w \<in> set vs. no_overlap v w"
proof -
  let ?P = "\<lambda>v. \<not> vma_has search v"
  obtain w where "w \<in> set vs" "vma_has search w" using h unfolding find_vma_None by blast
  then have "dropWhile ?P vs \<noteq> []" by (auto simp: dropWhile_eq_Nil_conv)
  then obtain p ns where d: "dropWhile ?P vs = p # ns" by (cases "dropWhile ?P vs") auto
  have split: "vs = takeWhile ?P vs @ p # ns" using takeWhile_dropWhile_id [of ?P vs] unfolding d by simp
  have okp: "vmas_ok (p # ns)" and pre: "\<forall>w \<in> set (takeWhile ?P vs). vm_end w \<le> vm_start p"
    using ok unfolding vmas_ok_append [of "takeWhile ?P vs" "p # ns", folded split] by simp_all
  let ?st = "gap_loop (Some p) ns (page_up (vm_end p)) len"
  have v: "v = new_vma ?st (?st + len) flags" "?st \<noteq> 0"
    using r unfolding create_new_vma_after_def d by (auto simp: Let_def split: if_splits)
  have up: "\<forall>w \<in> set (p # ns). vm_end w \<le> USER_MAX_ADDR" using u split by (metis UnCI set_append)
  have G: "vm_end p \<le> ?st" "?st < ?st + len" "\<forall>w \<in> set ns. vm_end w \<le> ?st \<or> ?st + len \<le> vm_start w"
    using gap_loop_ok [OF l okp up v(2)] by (simp_all add: Let_def)
  show "vm_start v < vm_end v" "vm_end v = vm_start v + len" "v = new_vma (vm_start v) (vm_end v) flags"
    using v(1) G(2) by (simp_all add: new_vma_def)
  have "vm_start p < vm_end p" using okp by (simp add: vmas_ok_Cons)
  then have "vm_end w \<le> ?st" if "w \<in> set (takeWhile ?P vs)" for w
    using pre that G(1) by (meson order.trans less_imp_le)
  then have "\<forall>w \<in> set (takeWhile ?P vs @ p # ns). vm_end w \<le> ?st \<or> ?st + len \<le> vm_start w" using G by auto
  then show "\<forall>w \<in> set vs. no_overlap v w" unfolding split [symmetric] using v(1) by (simp add: no_overlap_def new_vma_def)
qed

section \<open>Properties\<close>

lemma sys_mmap_anon:
  assumes "flags AND MAP_ANONYMOUS \<noteq> 0 \<or> fd_none" and "flags AND MAP_FIXED = 0"
  shows "sys_mmap mem fmode mmap_op handle addr len prot flags fd_none offset m =
    (case create_new_vma_after mem (mmap_list m) (if page_down addr = 0 then USER_MMAP_START else page_down addr)
            (scast (mmap_pages addr len * 4096)) (convert_mmap_flags prot flags) of
       Inl e \<Rightarrow> (Inl e, m) | Inr v \<Rightarrow> (Inr (vm_start v), vma_list_insert v m))"
  using assms by (auto simp: sys_mmap_def Let_def split: sum.splits)

lemma map_at_insert:
  assumes "vmas_ok (mmap_list m)" and "vm_start v < vm_end v" and "\<forall>w \<in> set (mmap_list m). no_overlap v w"
  shows "map_at (mmap_list (vma_list_insert v m)) a = (if vm_start v \<le> a \<and> a < vm_end v then Some (vm_attr v) else map_at (mmap_list m) a)"
  unfolding map_at_def vma_list_insert_ok(4) [OF assms] by (simp add: vma_has_def)

lemma mm_ok_insert:
  assumes "mm_ok m" and "vm_start v < vm_end v" and "\<forall>w \<in> set (mmap_list m). no_overlap v w"
  shows "mm_ok (vma_list_insert v m)"
  using vma_list_insert_ok(1,3) [OF _ assms(2,3)] assms(1) by (simp add: mm_ok_def)

lemma vm_attr_new: "vm_attr (new_vma s e flags) = new_vma 0 0 flags"
  by (simp add: vm_attr_def new_vma_def)

text \<open>
  C27. A mapping at a fixed address replaces what was mapped there and nothing else: the list stays
  ordered and free of overlaps with \<open>total_vm\<close> the sum of its sizes, every address in the range has the
  new mapping, and every other address what it had, however many mappings had to be cut, split or removed.
\<close>

theorem mmap_fixed_replaces_range:
  assumes "mm_ok m" and "flags AND 0x10 \<noteq> 0" and "flags AND 0x20 \<noteq> 0" and "addr \<noteq> 0" and "addr mod 4096 = 0"
    and "e = addr + (scast (mmap_pages addr len) :: u64) * 4096" and "addr < e" and "e < USER_MAX_ADDR"
  shows "\<exists>m'. sys_mmap True fmode mmap_op handle addr len prot flags fd_none offset m = (Inr addr, m') \<and> mm_ok m'
    \<and> (\<forall>a. map_at (mmap_list m') a = (if addr \<le> a \<and> a < e then Some (new_vma 0 0 (convert_mmap_flags prot flags)) else map_at (mmap_list m) a))"
proof -
  let ?v = "new_vma addr e (convert_mmap_flags prot flags)" and ?m1 = "mmap_fixed_unmap_range True addr e m"
  have pd: "page_down addr = addr" by (rule page_down_aligned [OF assms(5)])
  have c: "\<not> (addr = 0 \<or> addr mod 4096 \<noteq> 0 \<or> e < addr \<or> USER_MAX_ADDR \<le> e)" using assms(4,5,7,8) by (simp add: less_imp_le not_le)
  have r: "sys_mmap True fmode mmap_op handle addr len prot flags fd_none offset m = (Inr addr, vma_list_insert ?v ?m1)"
    unfolding sys_mmap_def Let_def pd using assms(2,3) c unfolding assms(6) [symmetric] by (simp add: new_vma_def)
  have ok: "vmas_ok (mmap_list m)" using assms(1) by (simp add: mm_ok_def)
  note U = mmap_fixed_unmap_range_ok [OF ok assms(7)]
  have m1: "mm_ok ?m1" using U(1,2) assms(1) by (simp add: mm_ok_def)
  have n: "\<forall>w \<in> set (mmap_list ?m1). no_overlap ?v w" using U(3) by (simp add: no_overlap_def new_vma_def)
  have v: "vm_start ?v < vm_end ?v" "vm_start ?v = addr" "vm_end ?v = e" using assms(7) by (simp_all add: new_vma_def)
  have "map_at (mmap_list (vma_list_insert ?v ?m1)) a =
      (if addr \<le> a \<and> a < e then Some (new_vma 0 0 (convert_mmap_flags prot flags)) else map_at (mmap_list m) a)" for a
    unfolding map_at_insert [OF U(1) v(1) n] U(4) v(2,3) vm_attr_new by simp
  then show ?thesis using r mm_ok_insert [OF m1 v(1) n] by blast
qed

text \<open>A process with one mapping of three pages.\<close>

definition one_mapping :: mm_info where
  "one_mapping = \<lparr>mmap_list = [new_vma 0x4000000000 0x4000003000 1], start_brk = 0, brk_addr = 0, total_vm = 0x3000,
     start_code = 0, end_code = 0, start_data = 0, end_data = 0, start_stack = 0\<rparr>"

lemma one_mapping_ok: "mm_ok one_mapping"
  by (simp add: one_mapping_def mm_ok_def vmas_ok_def new_vma_def)

theorem mmap_fixed_replaces_range_witness:
  "\<exists>m'. sys_mmap True (\<lambda>_. 0) (\<lambda>_. None) (Inl 0) 0x4000001000 0x1000 3 0x30 True 0 one_mapping = (Inr 0x4000001000, m') \<and> mm_ok m'
     \<and> map_at (mmap_list m') 0x4000000800 = map_at (mmap_list one_mapping) 0x4000000800"
proof -
  have e: "(0x4000002000 :: u64) = 0x4000001000 + (scast (mmap_pages 0x4000001000 0x1000) :: u64) * 4096"
    by (simp add: mmap_pages_def) code_simp
  obtain m' where M: "sys_mmap True (\<lambda>_. 0) (\<lambda>_. None) (Inl 0) 0x4000001000 0x1000 3 0x30 True 0 one_mapping = (Inr 0x4000001000, m')" "mm_ok m'"
    "\<forall>a. map_at (mmap_list m') a = (if 0x4000001000 \<le> a \<and> a < 0x4000002000 then Some (new_vma 0 0 (convert_mmap_flags 3 0x30)) else map_at (mmap_list one_mapping) a)"
    using mmap_fixed_replaces_range [OF one_mapping_ok _ _ _ _ e, where flags = "0x30" and fmode = "\<lambda>_. 0" and mmap_op = "\<lambda>_. None" and handle = "Inl 0" and prot = 3 and fd_none = True and offset = 0]
    by auto
  have "map_at (mmap_list m') 0x4000000800 = map_at (mmap_list one_mapping) 0x4000000800"
    using M(3) [THEN spec, of "0x4000000800"] by simp
  then show ?thesis using M(1,2) by blast
qed

text \<open>
  A mapping whose wanted address is in use (as the default one is after the first mapping there) goes
  behind the mapping that is there, into the first gap that is long enough: it overlaps no mapping, no other
  address changes, and if there is no room, nothing changes.
\<close>

theorem mmap_behind_mapping_is_free:
  assumes "mm_ok m" and "\<forall>w \<in> set (mmap_list m). vm_end w \<le> USER_MAX_ADDR"
    and "flags AND 0x10 = 0" and "flags AND 0x20 \<noteq> 0" and "n = scast (mmap_pages addr len * 4096)" and "n \<noteq> (0 :: u64)"
    and "find_vma (mmap_list m) (if page_down addr = 0 then 0x4000000000 else page_down addr) \<noteq> None"
  shows "(case sys_mmap True fmode mmap_op handle addr len prot flags fd_none offset m of
      (Inl err, m') \<Rightarrow> err = - 12 \<and> m' = m
    | (Inr s, m') \<Rightarrow> s < s + n \<and> mm_ok m'
        \<and> (\<forall>a. map_at (mmap_list m') a = (if s \<le> a \<and> a < s + n then Some (new_vma 0 0 (convert_mmap_flags prot flags)) else map_at (mmap_list m) a))
        \<and> (\<forall>w \<in> set (mmap_list m). vm_end w \<le> s \<or> s + n \<le> vm_start w))"
proof -
  have ok: "vmas_ok (mmap_list m)" using assms(1) by (simp add: mm_ok_def)
  have sm: "sys_mmap True fmode mmap_op handle addr len prot flags fd_none offset m =
    (case create_new_vma_after True (mmap_list m) (if page_down addr = 0 then USER_MMAP_START else page_down addr) n (convert_mmap_flags prot flags) of
       Inl e \<Rightarrow> (Inl e, m) | Inr v \<Rightarrow> (Inr (vm_start v), vma_list_insert v m))"
    unfolding assms(5) by (rule sys_mmap_anon) (use assms(3,4) in simp_all)
  show ?thesis
  proof (cases "create_new_vma_after True (mmap_list m) (if page_down addr = 0 then USER_MMAP_START else page_down addr) n (convert_mmap_flags prot flags)")
    case (Inl err)
    then have "err = - 12" by (auto simp: create_new_vma_after_def Let_def split: if_splits)
    then show ?thesis unfolding sm Inl by simp
  next
    case (Inr v)
    note C = create_new_vma_after_ok [OF ok assms(2,7,6) Inr]
    have "vm_attr v = new_vma 0 0 (convert_mmap_flags prot flags)" using C(3) vm_attr_new by metis
    then have "map_at (mmap_list (vma_list_insert v m)) a = (if vm_start v \<le> a \<and> a < vm_start v + n then Some (new_vma 0 0 (convert_mmap_flags prot flags)) else map_at (mmap_list m) a)" for a
      unfolding map_at_insert [OF ok C(1,4)] C(2) by simp
    moreover have "\<forall>w \<in> set (mmap_list m). vm_end w \<le> vm_start v \<or> vm_start v + n \<le> vm_start w"
      using C(4) unfolding no_overlap_def C(2) .
    moreover have "vm_start v < vm_start v + n" using C(1) unfolding C(2) .
    ultimately show ?thesis unfolding sm Inr using mm_ok_insert [OF assms(1) C(1,4)] by simp
  qed
qed

theorem mmap_behind_mapping_is_free_witness:
  "\<exists>m'. sys_mmap True (\<lambda>_. 0) (\<lambda>_. None) (Inl 0) 0 0x1000 3 0x20 True 0 one_mapping = (Inr 0x4000003000, m') \<and> mm_ok m'"
proof -
  have n: "(4096 :: u64) = scast (mmap_pages 0 0x1000 * 4096)" by code_simp
  have p: "page_down 0 = 0" by code_simp
  have r: "fst (sys_mmap True (\<lambda>_. 0) (\<lambda>_. None) (Inl 0) 0 0x1000 3 0x20 True 0 one_mapping) = Inr 0x4000003000" by code_simp
  have f: "find_vma (mmap_list one_mapping) (if page_down 0 = 0 then 0x4000000000 else page_down 0) \<noteq> None"
    unfolding p by (simp add: one_mapping_def vma_has_def new_vma_def)
  have u: "\<forall>w \<in> set (mmap_list one_mapping). vm_end w \<le> USER_MAX_ADDR" by (simp add: one_mapping_def new_vma_def)
  obtain m' where m': "sys_mmap True (\<lambda>_. 0) (\<lambda>_. None) (Inl 0) 0 0x1000 3 0x20 True 0 one_mapping = (Inr 0x4000003000, m')"
    using r by (metis prod.collapse)
  show ?thesis
    using mmap_behind_mapping_is_free [OF one_mapping_ok u _ _ n _ f, where flags = "0x20" and fmode = "\<lambda>_. 0" and mmap_op = "\<lambda>_. None" and handle = "Inl 0" and prot = 3 and fd_none = True and offset = 0] m'
    by auto
qed

text \<open>
  A wanted address in a gap is taken whatever follows: the mapping is made there although another
  one begins inside of it, and the list is no longer free of overlaps.
\<close>

theorem mmap_into_gap_overlaps:
  assumes "mm_ok m" and "flags AND 0x10 = 0" and "flags AND 0x20 \<noteq> 0" and "n = scast (mmap_pages addr len * 4096)"
    and "addr mod 4096 = 0" and "addr \<noteq> 0" and "addr \<le> USER_MAX_ADDR" and "addr \<le> addr + n"
    and "find_vma (mmap_list m) addr = None" and "w \<in> set (mmap_list m)" and "addr < vm_start w" and "vm_start w < addr + n"
  shows "\<exists>m'. sys_mmap True fmode mmap_op handle addr len prot flags fd_none offset m = (Inr addr, m') \<and> \<not> vmas_ok (mmap_list m')"
proof -
  have pd: "page_down addr = addr" by (rule page_down_aligned [OF assms(5)])
  have "unat addr mod 4096 = 0" by (rule aligned_unat [OF assms(5)])
  then have "(unat addr + 4095) div 4096 * 4096 = unat addr" by (auto simp: mod_eq_0_iff_dvd elim!: dvdE)
  then have "unat (page_up addr) = unat addr" unfolding page_up_unat [OF assms(7)] .
  then have pu: "page_up addr = addr" by (simp only: word_unat_eq_iff)
  let ?v = "new_vma addr (addr + n) (convert_mmap_flags prot flags)"
  have dw: "dropWhile (\<lambda>v. \<not> vma_has addr v) (mmap_list m) = []" using assms(9) unfolding find_vma_None by simp
  have "\<not> addr + n < addr" using assms(8) by simp
  then have c: "create_new_vma_after True (mmap_list m) addr n (convert_mmap_flags prot flags) = Inr ?v"
    unfolding create_new_vma_after_def dw using assms(6) by (simp add: find_gap_after_def Let_def pu)
  have r: "sys_mmap True fmode mmap_op handle addr len prot flags fd_none offset m = (Inr addr, vma_list_insert ?v m)"
    using sys_mmap_anon [of flags fd_none True fmode mmap_op handle addr len prot offset m] assms(2,3,6) c
    unfolding pd assms(4) [symmetric] by (simp add: new_vma_def)
  have "set (insert_after v x ys) = insert v (set (x # ys))" for v x ys
    by (induction v x ys rule: insert_after.induct) auto
  then have s: "set (mmap_list (vma_list_insert ?v m)) = insert ?v (set (mmap_list m))"
    by (auto simp: vma_list_insert_def split: list.splits)
  have ww: "vm_start w < vm_end w" using assms(1,10) by (auto simp: mm_ok_def vmas_ok_def)
  have h: "vma_has (vm_start w) w" "vma_has (vm_start w) ?v" "?v \<noteq> w"
    using ww assms(11,12) by (auto simp: vma_has_def new_vma_def less_imp_le)
  have "\<not> vmas_ok (mmap_list (vma_list_insert ?v m))"
  proof
    assume ok: "vmas_ok (mmap_list (vma_list_insert ?v m))"
    have "find_vma (mmap_list (vma_list_insert ?v m)) (vm_start w) = Some w"
      using find_vma_unique [OF ok _ h(1)] assms(10) unfolding s by blast
    moreover have "find_vma (mmap_list (vma_list_insert ?v m)) (vm_start w) = Some ?v"
      using find_vma_unique [OF ok _ h(2)] unfolding s by blast
    ultimately show False using h(3) by simp
  qed
  then show ?thesis using r by blast
qed

theorem mmap_into_gap_overlaps_witness:
  "\<exists>m'. sys_mmap True (\<lambda>_. 0) (\<lambda>_. None) (Inl 0) 0x3FFFFFF000 0x2000 3 0x20 True 0 one_mapping = (Inr 0x3FFFFFF000, m') \<and> \<not> vmas_ok (mmap_list m')"
proof -
  have n: "(0x2000 :: u64) = scast (mmap_pages 0x3FFFFFF000 0x2000 * 4096)" by code_simp
  have w: "new_vma 0x4000000000 0x4000003000 1 \<in> set (mmap_list one_mapping)" by (simp add: one_mapping_def)
  have f: "find_vma (mmap_list one_mapping) 0x3FFFFFF000 = None" by (simp add: one_mapping_def vma_has_def new_vma_def)
  show ?thesis
    by (rule mmap_into_gap_overlaps [OF one_mapping_ok _ _ n _ _ _ _ f w]) (simp_all add: new_vma_def)
qed

lemma padded_nth:
  assumes "a \<le> k" and "k < a + length bs"
  shows "(replicate a x @ bs @ zs) ! k = bs ! (k - a)"
proof -
  have "\<not> k < a" "k - a < length bs" using assms by linarith+
  then show ?thesis by (simp only: nth_append length_replicate if_True if_False)
qed

lemma padded_nth_end:
  assumes "a + length bs \<le> k" and "k < c"
  shows "(replicate a x @ bs @ replicate (c - (a + length bs)) y) ! k = y"
proof -
  have "\<not> k < a" "\<not> k - a < length bs" "k - a - length bs < c - (a + length bs)" using assms by linarith+
  then show ?thesis by (simp only: nth_append length_replicate if_False nth_replicate)
qed

lemma sliced_nth: "i < length (take n (drop m xs)) \<Longrightarrow> take n (drop m xs) ! i = xs ! (m + i)"
  by (cases "m \<le> length xs") auto

lemma seg_index: "S - P \<le> k \<Longrightarrow> n + (P - S) + (k - (S - P)) = n + (P + k - (S :: nat))"
  by (cases "S \<le> P") auto

lemma seg_beyond:
  assumes "S - P + min (F - (P - (S :: nat))) (4096 - (S - P)) \<le> k" and "k < 4096"
  shows "\<not> P + k < S + F"
  using assms by (cases "S \<le> P") auto

lemma seg_within:
  assumes "S - P \<le> k" and "k < S - P + min (F - (P - (S :: nat))) c"
  shows "S \<le> P + k" and "P + k < S + F"
  using assms by (cases "S \<le> P"; auto)+

lemma file_fault_page:
  assumes "vm_file v = Some f" and "check_access v flags" and "flags AND 8 = 0"
    and "\<And>off n. rd f off n = Inr (take n (drop (unat off) content))"
    and "unat (seg_offset v) + vm_fsize v \<le> length content" and "length content < 2 ^ 64" and "vm_fsize v < 2 ^ 32"
    and "page_down (seg_vaddr v) \<le> page_down addr"
  shows "\<exists>page. mm_fault junk rd v addr flags = Some (FAULT_SUCCESS, Some (page, vm_flags v AND 2 \<noteq> 0)) \<and> length page = 4096
    \<and> (\<forall>k < 4096. page ! k =
         (let a = unat (page_down addr) + k in
          if unat (seg_vaddr v) \<le> a \<and> a < unat (seg_vaddr v) + vm_fsize v
          then content ! (unat (seg_offset v) + (a - unat (seg_vaddr v))) else 0))"
proof -
  let ?P = "unat (page_down addr)" and ?S = "unat (seg_vaddr v)" and ?F = "vm_fsize v" and ?O = "unat (seg_offset v)"
  define start_in where "start_in = (if page_down addr < seg_vaddr v then seg_vaddr v - page_down addr else 0)"
  define off where "off = (if page_down addr + start_in > seg_vaddr v then page_down addr + start_in - seg_vaddr v else 0)"
  have lt: "page_down addr < seg_vaddr v \<longleftrightarrow> ?P < ?S" by (rule word_less_nat_alt)
  have pd: "?S div 4096 * 4096 \<le> ?P" using assms(8) unfolding word_le_nat_alt page_down_unat .
  have st: "unat start_in = ?S - ?P"
  proof (cases "?P < ?S")
    case True
    then have "page_down addr \<le> seg_vaddr v" by (simp add: word_le_nat_alt)
    then have "unat (seg_vaddr v - page_down addr) = ?S - ?P" by (rule unat_sub)
    then show ?thesis using True lt by (simp add: start_in_def)
  next
    case False
    then show ?thesis using lt by (simp add: start_in_def)
  qed
  have st4: "?S - ?P < 4096" using pd by linarith
  have sum: "page_down addr + start_in = (if ?P < ?S then seg_vaddr v else page_down addr)" using lt by (simp add: start_in_def)
  have off: "unat off = ?P - ?S"
  proof (cases "?P < ?S")
    case True
    then show ?thesis unfolding off_def sum by simp
  next
    case False
    then have le: "seg_vaddr v \<le> page_down addr" by (simp add: word_le_nat_alt)
    have "unat (page_down addr - seg_vaddr v) = ?P - ?S" by (rule unat_sub [OF le])
    moreover have "page_down addr > seg_vaddr v \<or> page_down addr = seg_vaddr v" using le by (auto simp: order_le_less)
    ultimately show ?thesis unfolding off_def sum using False by auto
  qed
  have mf: "mm_fault junk rd v addr flags = Some (do_file_fault junk rd f v (page_down addr))"
    using assms(1-3) by (simp add: mm_fault_def)
  show ?thesis
  proof (cases "?P - ?S \<ge> ?F")
    case True
    then have "unat off \<ge> ?F" unfolding off .
    then have d: "do_file_fault junk rd f v (page_down addr) = (FAULT_SUCCESS, Some (replicate 4096 0, vm_flags v AND 2 \<noteq> 0))"
      unfolding do_file_fault_def Let_def start_in_def [symmetric] off_def [symmetric] by (simp only: if_True)
    have no: "\<not> (?S \<le> ?P + k \<and> ?P + k < ?S + ?F)" for k using True by linarith
    have "\<forall>k < 4096. replicate 4096 0 ! k = (if ?S \<le> ?P + k \<and> ?P + k < ?S + ?F then content ! (?O + (?P + k - ?S)) else 0)"
      by (intro allI impI) (simp only: no if_False nth_replicate)
    then show ?thesis unfolding mf d by (intro exI [of _ "replicate 4096 0"]) (simp only: Let_def simp_thms length_replicate)
  next
    case False
    then have nf: "\<not> unat off \<ge> ?F" unfolding off .
    let ?left = "?F - (?P - ?S)"
    let ?n = "min ?left (4096 - (?S - ?P))"
    have w: "unat (4096 - start_in) = 4096 - (?S - ?P)"
    proof -
      have "start_in \<le> 4096" using st st4 by (simp add: word_le_nat_alt)
      then have "unat (4096 - start_in) = unat (4096 :: u64) - unat start_in" by (rule unat_sub)
      then show ?thesis unfolding st by simp
    qed
    have "?left < 2 ^ 64" using assms(7) by simp
    then have un0: "unat (of_nat ?left :: u64) = ?left" by (simp add: unsigned_of_nat take_bit_eq_mod)
    have gt: "(of_nat (?F - unat off) :: u64) > 4096 - start_in \<longleftrightarrow> ?left > 4096 - (?S - ?P)"
      unfolding word_less_nat_alt off un0 w ..
    have n: "(if (of_nat (?F - unat off) :: u64) > 4096 - start_in then unat (4096 - start_in) else ?F - unat off) = ?n"
    proof (cases "?left > 4096 - (?S - ?P)")
      case True
      then have c: "(of_nat (?F - unat off) :: u64) > 4096 - start_in" using gt by blast
      have "4096 - (?S - ?P) = ?n" using True by simp
      then show ?thesis using c w by presburger
    next
      case False
      then have c: "\<not> (of_nat (?F - unat off) :: u64) > 4096 - start_in" using gt by blast
      have "?F - unat off = ?n" using False off by simp
      then show ?thesis using c by presburger
    qed
    have so: "unat (seg_offset v + off) = ?O + (?P - ?S)"
    proof -
      have "unat (seg_offset v) + unat off < 2 ^ LENGTH(64)" unfolding off using assms(5,6) False by simp
      then show ?thesis using unat_add_lem [of "seg_offset v" off] off by simp
    qed
    let ?bs = "take ?n (drop (?O + (?P - ?S)) content)"
    have lb: "length ?bs = ?n" using assms(5) False by auto
    let ?page = "replicate (?S - ?P) 0 @ ?bs @ replicate (4096 - (?S - ?P + length ?bs)) 0"
    have d: "do_file_fault junk rd f v (page_down addr) = (FAULT_SUCCESS, Some (?page, vm_flags v AND 2 \<noteq> 0))"
      unfolding do_file_fault_def Let_def start_in_def [symmetric] off_def [symmetric] assms(4) n so st using nf by (simp only: if_False sum.case)
    have len: "length ?page = 4096" unfolding length_append length_replicate lb using st4 by auto
    have E: "?page ! k = (if ?S \<le> ?P + k \<and> ?P + k < ?S + ?F then content ! (?O + (?P + k - ?S)) else 0)" if k: "k < 4096" for k
    proof -
      consider "k < ?S - ?P" | "?S - ?P \<le> k" "k < ?S - ?P + ?n" | "?S - ?P + ?n \<le> k" by linarith
      then show ?thesis
      proof cases
        case 1
        then have "\<not> ?S \<le> ?P + k" by linarith
        then show ?thesis using 1 by (simp add: nth_append)
      next
        case 2
        have e1: "?O + (?P - ?S) + (k - (?S - ?P)) = ?O + (?P + k - ?S)" by (rule seg_index) (rule 2(1))
        have e: "?S \<le> ?P + k" "?P + k < ?S + ?F" by (rule seg_within(1) [OF 2], rule seg_within(2) [OF 2])
        have "?page ! k = ?bs ! (k - (?S - ?P))" by (rule padded_nth, rule 2(1), unfold lb, rule 2(2))
        also have "\<dots> = content ! (?O + (?P - ?S) + (k - (?S - ?P)))" by (rule sliced_nth, unfold lb) (use 2 in linarith)
        finally show ?thesis unfolding e1 using e by simp
      next
        case 3
        have "\<not> ?P + k < ?S + ?F" by (rule seg_beyond [OF 3 k])
        moreover have "?page ! k = 0" by (rule padded_nth_end, unfold lb, rule 3, rule k)
        ultimately show ?thesis by simp
      qed
    qed
    show ?thesis unfolding mf d Let_def by (intro exI [of _ ?page] conjI allI impI refl len E)
  qed
qed

text \<open>
  A fault in a segment of a program: the page that is mapped holds, at every address, the byte of the file that
  belongs there, if the address is in the part of the segment that the file has, and 0 otherwise, before and behind it; the page
  is handed to \<open>map_page\<close> with the write flag of the segment.  No byte of what the page held before is left.
\<close>

theorem file_fault_gives_segment_page:
  assumes "vm_file v = Some f" and "check_access v flags" and "flags AND 8 = 0"
    and "\<And>off n. rd f off n = Inr (take n (drop (unat off) content))"
    and "unat (seg_offset v) + vm_fsize v \<le> length content" and "length content < 2 ^ 64" and "vm_fsize v < 2 ^ 32"
    and "page_down (seg_vaddr v) \<le> page_down addr"
  shows "\<exists>page. mm_fault junk rd v addr flags = Some (FAULT_SUCCESS, Some (page, vm_flags v AND 2 \<noteq> 0)) \<and> length page = 4096
    \<and> (\<forall>k < 4096. page ! k =
         (let a = unat (page_down addr) + k in
          if unat (seg_vaddr v) \<le> a \<and> a < unat (seg_vaddr v) + vm_fsize v
          then content ! (unat (seg_offset v) + (a - unat (seg_vaddr v))) else 0))"
  by (rule file_fault_page [where f = f and content = content and flags = flags]) (rule assms)+

definition small_segment :: vm_desc where
  "small_segment = (new_vma 0x1000 0x2000 5)\<lparr>vm_file := Some 0, vm_fsize := 3, seg_vaddr := 0x1010, seg_offset := 2\<rparr>"

theorem file_fault_gives_segment_page_witness:
  "\<exists>page. mm_fault (\<lambda>_. 7) (\<lambda>f off n. Inr (take n (drop (unat off) [1, 2, 3, 4, 5]))) small_segment 0x1234 4 = Some (FAULT_SUCCESS, Some (page, False))
     \<and> page ! 0x10 = 3 \<and> page ! 0x13 = 0"
proof -
  have d: "page_down (seg_vaddr small_segment) \<le> page_down 0x1234" "page_down 0x1234 = 0x1000" by code_simp+
  have c: "check_access small_segment 4" by code_simp
  obtain page where P: "mm_fault (\<lambda>_. 7) (\<lambda>f off n. Inr (take n (drop (unat off) [1, 2, 3, 4, 5]))) small_segment 0x1234 4
      = Some (FAULT_SUCCESS, Some (page, vm_flags small_segment AND 2 \<noteq> 0))"
    "\<forall>k < 4096. page ! k = (let a = unat (page_down 0x1234) + k in
          if unat (seg_vaddr small_segment) \<le> a \<and> a < unat (seg_vaddr small_segment) + vm_fsize small_segment
          then [1, 2, 3, 4, 5] ! (unat (seg_offset small_segment) + (a - unat (seg_vaddr small_segment))) else 0)"
    using file_fault_gives_segment_page [OF _ c _ _ _ _ _ d(1), where f = 0 and junk = "\<lambda>_. 7" and content = "[1, 2, 3, 4, 5]"
        and rd = "\<lambda>f off n. Inr (take n (drop (unat off) [1, 2, 3, 4, 5]))"] by (auto simp: small_segment_def)
  have "page ! 0x10 = 3" "page ! 0x13 = 0"
    using P(2) [THEN spec, of "0x10"] P(2) [THEN spec, of "0x13"] by (simp_all add: d(2) small_segment_def)
  moreover have "(vm_flags small_segment AND 2 \<noteq> 0) = False" by (simp add: small_segment_def new_vma_def)
  ultimately show ?thesis using P(1) by auto
qed

section \<open>The heap\<close>

lemma upd_brk_vma_split:
  "upd_brk_vma b f vs = (case dropWhile (\<lambda>v. vm_start v \<noteq> b) vs of
     [] \<Rightarrow> vs | v # ws \<Rightarrow> takeWhile (\<lambda>v. vm_start v \<noteq> b) vs @ f v # ws)"
proof (induction vs)
  case (Cons a vs)
  show ?case
  proof (cases "vm_start a = b")
    case False
    then show ?thesis using Cons by (cases "dropWhile (\<lambda>v. vm_start v \<noteq> b) vs") (simp_all del: dropWhile_eq_Nil_conv)
  qed simp
qed simp

text \<open>
  Raising the break: the heap covers every address from its start to the new break, in whole pages, and no other
  address changes, as long as no mapping begins before the page where the new break is.  (Nothing in \<open>brk\<close> checks
  that, and \<open>total_vm\<close> is not raised.)
\<close>

theorem brk_extends_heap:
  assumes "vmas_ok (mmap_list m)" and "brk_vma m = Some h" and "addr - start_brk m \<le> 0xffffff" and "vm_end h < addr" and "addr \<le> USER_MAX_ADDR"
    and "\<forall>w \<in> set (mmap_list m). w = h \<or> vm_end w \<le> vm_start h \<or> page_up addr \<le> vm_start w"
  shows "\<exists>m'. brk mem addr m = (0, m') \<and> brk_addr m' = addr \<and> vmas_ok (mmap_list m') \<and> total_vm m' = total_vm m
    \<and> (\<forall>a. map_at (mmap_list m') a = (if start_brk m \<le> a \<and> a < page_up addr then Some (vm_attr h) else map_at (mmap_list m) a))"
proof -
  let ?P = "\<lambda>v. vm_start v \<noteq> start_brk m" and ?vs = "mmap_list m"
  have hs: "vm_start h = start_brk m" "h \<in> set ?vs" using assms(2) by (auto simp: brk_vma_def find_Some_iff)
  have hp: "vm_start h < vm_end h" using assms(1) hs(2) by (simp add: vmas_ok_def)
  have sa: "start_brk m < addr" using hp hs(1) assms(4) by order
  have up: "addr \<le> page_up addr" by (rule page_up_ge [OF assms(5)])
  have "dropWhile ?P ?vs \<noteq> []" using hs by (auto simp: dropWhile_eq_Nil_conv)
  then obtain x ws where d: "dropWhile ?P ?vs = x # ws" by (cases "dropWhile ?P ?vs") auto
  have split: "?vs = takeWhile ?P ?vs @ x # ws" using takeWhile_dropWhile_id [of ?P ?vs] unfolding d by simp
  have "\<not> ?P x" using hd_dropWhile [of ?P ?vs] d by simp
  moreover have "List.find (\<lambda>v. vm_start v = start_brk m) (takeWhile ?P ?vs) = None"
    by (auto simp: find_None_iff dest: set_takeWhileD)
  ultimately have x: "x = h" using assms(2) arg_cong [OF split, of "List.find (\<lambda>v. vm_start v = start_brk m)"]
    by (simp add: brk_vma_def find_append split: option.splits)
  let ?h = "h\<lparr>vm_end := page_up addr\<rparr>" and ?l = "takeWhile ?P ?vs"
  have u: "upd_brk_vma (start_brk m) (vm_end_update (\<lambda>_. page_up addr)) ?vs = ?l @ ?h # ws"
    unfolding upd_brk_vma_split d x by simp
  let ?m = "m\<lparr>mmap_list := ?l @ ?h # ws, brk_addr := addr\<rparr>"
  have "\<not> addr < start_brk m" "\<not> addr < vm_start h" using sa hs(1) by order+
  then have b: "brk mem addr m = (0, ?m)"
    using assms(2-4) hs(1) u by (simp add: brk_def with_brk_seg_def not_le [symmetric])
  have okl: "vmas_ok ?l" "vmas_ok (h # ws)" "\<forall>v \<in> set ?l. \<forall>w \<in> set (h # ws). vm_end v \<le> vm_start w"
    using assms(1) vmas_ok_append [of ?l "h # ws"] split x by simp_all
  have wsg: "page_up addr \<le> vm_start w" if q: "w \<in> set ws" for w
  proof -
    have lt: "vm_start h < vm_start w" "vm_end h \<le> vm_start w" using vmas_ok_starts [OF okl(2) q] okl(2) q by (simp_all add: vmas_ok_Cons)
    have "w \<in> set ?vs" using q split by (metis in_set_conv_decomp list.set_intros(2) set_append UnCI)
    then have c: "w = h \<or> vm_end w \<le> vm_start h \<or> page_up addr \<le> vm_start w" using assms(6) by blast
    have "vm_start w < vm_end w" using okl(2) q by (simp add: vmas_ok_def)
    then have "\<not> vm_end w \<le> vm_start h" using lt(1) by order
    moreover have "w \<noteq> h" using lt(1) by auto
    ultimately show ?thesis using c by blast
  qed
  have hup: "vm_start h < page_up addr" using sa up hs(1) by order
  have ok': "vmas_ok (?l @ ?h # ws)"
    using okl wsg hup by (simp add: vmas_ok_append vmas_ok_Cons)
  have heup: "vm_end h \<le> page_up addr" using assms(4) up by order
  have hh: "vma_has a h \<longrightarrow> vma_has a ?h" for a using heup unfolding vma_has_def by (auto intro: less_le_trans)
  have "map_at (?l @ ?h # ws) a = (if start_brk m \<le> a \<and> a < page_up addr then Some (vm_attr h) else map_at ?vs a)" for a
  proof (cases "vma_has a ?h")
    case True
    then have "find_vma (?l @ ?h # ws) a = Some ?h" using find_vma_unique [OF ok'] by simp
    moreover have "start_brk m \<le> a \<and> a < page_up addr" using True hs(1) by (simp add: vma_has_def)
    ultimately show ?thesis by (simp add: map_at_def vm_attr_def)
  next
    case False
    then have "\<not> vma_has a h" using hh by blast
    moreover have "\<not> (start_brk m \<le> a \<and> a < page_up addr)" using False hs(1) by (simp add: vma_has_def)
    moreover have "find_vma ?vs a = find_vma (?l @ h # ws) a" using split x by simp
    ultimately show ?thesis using False unfolding map_at_def find_vma_append
      by (simp only: find_vma_simps if_False find_vma_append)
  qed
  then show ?thesis using b ok' by (intro exI [of _ ?m]) simp
qed

theorem brk_extends_heap_witness:
  "\<exists>m'. brk True 0x4000005001 (one_mapping\<lparr>start_brk := 0x4000000000\<rparr>) = (0, m') \<and> map_at (mmap_list m') 0x4000005800 \<noteq> None"
proof -
  let ?m = "one_mapping\<lparr>start_brk := 0x4000000000\<rparr>" and ?h = "new_vma 0x4000000000 0x4000003000 1"
  have h: "brk_vma ?m = Some ?h" by (simp add: brk_vma_def one_mapping_def new_vma_def)
  have ok: "vmas_ok (mmap_list ?m)" using one_mapping_ok by (simp add: mm_ok_def)
  have p: "page_up 0x4000005001 = 0x4000006000" by code_simp
  obtain m' where "brk True 0x4000005001 ?m = (0, m')"
    "\<forall>a. map_at (mmap_list m') a = (if start_brk ?m \<le> a \<and> a < page_up 0x4000005001 then Some (vm_attr ?h) else map_at (mmap_list ?m) a)"
    using brk_extends_heap [OF ok h, where addr = "0x4000005001" and mem = True] by (auto simp: one_mapping_def new_vma_def)
  then show ?thesis using p by (intro exI [of _ m']) simp
qed

end
