(* ===== verification/Rtc.thy ===== *)
theory Rtc imports Clock begin

unbundle bit_operations_syntax

text \<open>
  The real time clock (\<open>arch/x86/hardware/rtc.c\<close>): reading its registers until two readings agree,
  decoding them, and the Unix time at the start.

  What the chip answers is an argument: the list of readings of its registers, each taken when no update was
  in progress.  \<open>None\<close> is a read past an array, or a list of readings of which no two in a row agree.
\<close>

section \<open>Reading the clock\<close>

record rtc_regs =
  r_second :: u8
  r_minute :: u8
  r_hour :: u8
  r_day :: u8
  r_month :: u8
  r_year :: u8
  r_century :: u8

definition century_register :: nat where "century_register = 0"
definition CURRENT_YEAR :: u32 where "CURRENT_YEAR = 2024"

text \<open>The registers of one reading; the century is read only if it has a register.\<close>

definition rtc_sample :: "rtc_regs \<Rightarrow> rtc_regs" where
  "rtc_sample r = (if century_register \<noteq> 0 then r else r\<lparr>r_century := 0\<rparr>)"

fun rtc_stable :: "rtc_regs \<Rightarrow> rtc_regs list \<Rightarrow> rtc_regs option" where
  "rtc_stable prev [] = None"
| "rtc_stable prev (r # rs) = (if rtc_sample r = prev then Some prev else rtc_stable (rtc_sample r) rs)"

definition from_bcd :: "u8 \<Rightarrow> u8" where
  "from_bcd x = (x AND 0x0F) + x div 16 * 10"

definition hour_from_bcd :: "u8 \<Rightarrow> u8" where
  "hour_from_bcd h = ((h AND 0x0F) + (h AND 0x70) div 16 * 10) OR (h AND 0x80)"

definition rtc_decode :: "u8 \<Rightarrow> rtc_regs \<Rightarrow> timestamp" where
  "rtc_decode register_b r =
     (let bcd = (register_b AND 0x04 = 0);
          dec = (if bcd then from_bcd else id);
          h = (if bcd then hour_from_bcd (r_hour r) else r_hour r);
          h' = (if register_b AND 0x02 = 0 \<and> h AND 0x80 \<noteq> 0 then ((h AND 0x7F) + 12) mod 24 else h);
          y = ucast (dec (r_year r)) :: u32;
          cent = (if bcd \<and> century_register \<noteq> 0 then from_bcd (r_century r) else r_century r);
          y' = (if century_register \<noteq> 0 then y + ucast cent * 100
                else (let y1 = y + CURRENT_YEAR div 100 * 100 in if y1 < CURRENT_YEAR then y1 + 100 else y1)) in
      \<lparr>ts_year = unat (ucast y' :: u16), ts_month = unat (dec (r_month r)), ts_day = unat (dec (r_day r)),
       ts_hour = unat h', ts_minute = unat (dec (r_minute r)), ts_second = unat (dec (r_second r))\<rparr>)"

definition read_rtc :: "rtc_regs list \<Rightarrow> u8 \<Rightarrow> timestamp option" where
  "read_rtc rs register_b =
     (case rs of [] \<Rightarrow> None | r # rs' \<Rightarrow> map_option (rtc_decode register_b) (rtc_stable (rtc_sample r) rs'))"

section \<open>The time at the start\<close>

definition rtc_is_leap_year :: "nat \<Rightarrow> bool" where
  "rtc_is_leap_year y \<longleftrightarrow> (y mod 4 = 0 \<and> y mod 100 \<noteq> 0) \<or> y mod 400 = 0"

definition rtc_days_in_month :: "nat \<Rightarrow> nat \<Rightarrow> int option" where
  "rtc_days_in_month m y =
     (if m = 2 then Some (if rtc_is_leap_year y then 29 else 28)
      else if 1 \<le> m \<and> m \<le> 12 then Some ([31, 30, 31, 30, 31, 31, 31, 30, 31, 30, 31, 31] ! (m - 1)) else None)"

fun rtc_years :: "nat list \<Rightarrow> int \<Rightarrow> int" where
  "rtc_years [] t = t"
| "rtc_years (y # ys) t = rtc_years ys (t + (if rtc_is_leap_year y then 31622400 else 31536000))"

fun rtc_months :: "nat \<Rightarrow> nat list \<Rightarrow> int \<Rightarrow> int option" where
  "rtc_months y [] t = Some t"
| "rtc_months y (m # ms) t =
     (case rtc_days_in_month m y of None \<Rightarrow> None | Some d \<Rightarrow> rtc_months y ms (t + d * 24 * 60 * 60))"

definition calculate_unix_time :: "int \<Rightarrow> int \<Rightarrow> int \<Rightarrow> int \<Rightarrow> nat \<Rightarrow> nat \<Rightarrow> int option" where
  "calculate_unix_time seconds minutes hours day month year =
     map_option (\<lambda>t. t + (day - 1) * 24 * 60 * 60 + (hours * 3600 + minutes * 60 + seconds))
       (rtc_months year [1..<month] (rtc_years [1970..<year] 0))"

definition rtc_init :: "rtc_regs list \<Rightarrow> u8 \<Rightarrow> int option" where
  "rtc_init rs register_b =
     (case read_rtc rs register_b of
        None \<Rightarrow> None
      | Some ts \<Rightarrow> calculate_unix_time (int (ts_second ts)) (int (ts_minute ts)) (int (ts_hour ts)) (int (ts_day ts))
                    (ts_month ts) (ts_year ts))"

section \<open>What the chip holds\<close>

text \<open>
  The registers for a date, as the chip holds them: in binary or in BCD, with hours up to 23, or up to 12
  with the top bit for the afternoon.
\<close>

definition to_reg :: "bool \<Rightarrow> nat \<Rightarrow> u8" where
  "to_reg bcd n = (if bcd then of_nat (n div 10 * 16 + n mod 10) else of_nat n)"

definition hour_reg :: "bool \<Rightarrow> bool \<Rightarrow> nat \<Rightarrow> u8" where
  "hour_reg bcd h24 h =
     (if h24 then to_reg bcd h
      else to_reg bcd (if h mod 12 = 0 then 12 else h mod 12) OR (if h \<ge> 12 then 0x80 else 0))"

definition regs_of :: "bool \<Rightarrow> bool \<Rightarrow> timestamp \<Rightarrow> rtc_regs" where
  "regs_of bcd h24 ts = \<lparr>r_second = to_reg bcd (ts_second ts), r_minute = to_reg bcd (ts_minute ts),
     r_hour = hour_reg bcd h24 (ts_hour ts), r_day = to_reg bcd (ts_day ts), r_month = to_reg bcd (ts_month ts),
     r_year = to_reg bcd (ts_year ts mod 100), r_century = to_reg bcd (ts_year ts div 100)\<rparr>"

definition mode_reg :: "bool \<Rightarrow> bool \<Rightarrow> u8" where
  "mode_reg bcd h24 = (if bcd then 0 else 4) OR (if h24 then 2 else 0)"

lemma bcd_digits: "list_all (\<lambda>n. from_bcd (to_reg True n) = of_nat n) [0..<100]"
  by code_simp

lemma decode_reg: "n < 100 \<Longrightarrow> (if bcd then from_bcd else id) (to_reg bcd n) = (of_nat n :: u8)"
  using bcd_digits by (auto simp: to_reg_def list_all_iff)

definition hour_decoded :: "bool \<Rightarrow> bool \<Rightarrow> nat \<Rightarrow> nat" where
  "hour_decoded bcd h24 h =
     (let h1 = (if bcd then hour_from_bcd (hour_reg bcd h24 h) else hour_reg bcd h24 h) in
      unat (if \<not> h24 \<and> h1 AND 0x80 \<noteq> 0 then ((h1 AND 0x7F) + 12) mod 24 else h1))"

lemma hours_decoded: "list_all (\<lambda>h. hour_decoded b c h = (if \<not> c \<and> h mod 12 = 0 then 12 - h else h)) [0..<24]"
  by (cases b; cases c; simp only:) code_simp+

lemma mode_reg_bits: "mode_reg bcd h24 AND 4 = 0 \<longleftrightarrow> bcd" "mode_reg bcd h24 AND 2 = 0 \<longleftrightarrow> \<not> h24"
  by (cases bcd; cases h24; simp add: mode_reg_def)+

lemma unat_small: "n < 100 \<Longrightarrow> unat (of_nat n :: u8) = n"
  by (simp add: unsigned_of_nat take_bit_eq_mod)

lemma sample_regs: "rtc_sample (regs_of bcd h24 ts) = (regs_of bcd h24 ts)\<lparr>r_century := 0\<rparr>"
  by (simp add: rtc_sample_def century_register_def)

lemma rtc_stable_skips:
  "distinct_adj (p # map rtc_sample qs) \<Longrightarrow> last (p # map rtc_sample qs) = rtc_sample r \<Longrightarrow>
   rtc_stable p (qs @ r # post) = Some (rtc_sample r)"
  by (induction qs arbitrary: p) (auto split: if_splits)

lemma rtc_stable_first_pair:
  assumes "distinct_adj (map rtc_sample (pre @ [r]))"
  shows "read_rtc (pre @ r # r # post) b = Some (rtc_decode b (rtc_sample r))"
proof (cases pre)
  case Nil
  then show ?thesis by (simp add: read_rtc_def)
next
  case (Cons q qs)
  have "rtc_stable (rtc_sample q) ((qs @ [r]) @ r # post) = Some (rtc_sample r)"
    by (rule rtc_stable_skips) (use assms in \<open>simp_all add: Cons\<close>)
  then show ?thesis by (simp add: read_rtc_def Cons)
qed

lemma full_year: "y < 100 \<Longrightarrow>
   unat (ucast (let y1 = (ucast (of_nat y :: u8) :: u32) + CURRENT_YEAR div 100 * 100 in
      if y1 < CURRENT_YEAR then y1 + 100 else y1) :: u16) = (if y < 24 then y + 2100 else y + 2000)"
proof -
  have "list_all (\<lambda>y. unat (ucast (let y1 = (ucast (of_nat y :: u8) :: u32) + CURRENT_YEAR div 100 * 100 in
      if y1 < CURRENT_YEAR then y1 + 100 else y1) :: u16) = (if y < 24 then y + 2100 else y + 2000)) [0..<100]"
    by code_simp
  then show "y < 100 \<Longrightarrow> ?thesis" by (simp add: list_all_iff)
qed

lemma two_digit_year:
  assumes "2024 \<le> y" and "y < 2124"
  shows "(if y mod 100 < 24 then y mod 100 + 2100 else y mod 100 + 2000) = (y :: nat)"
proof -
  define k where "k = y - 2000"
  have y: "y = 2000 + k" using assms(1) by (simp add: k_def)
  have "(2000 + k) mod 100 = k mod 100" using mod_mult_self1 [of k 20 100] by (simp add: add.commute)
  moreover have "k mod 100 = (if k < 100 then k else k - 100)" using assms(2) y by (simp add: mod_if)
  ultimately show ?thesis using assms unfolding y by (simp add: less_diff_conv2)
qed

text \<open>
  C15. Whatever was read before, as soon as two readings in a row agree, the date they hold is the result, for the
  hundred years from 2024 on and in every mode of the chip, with one exception: with a clock of twelve
  hours, noon is read as midnight and midnight as noon.
\<close>

theorem rtc_reads_date:
  assumes "distinct_adj (map rtc_sample (pre @ [regs_of bcd h24 ts]))"
    and "2024 \<le> ts_year ts" and "ts_year ts < 2124" and "ts_month ts \<le> 12" and "ts_day ts \<le> 31"
    and "ts_hour ts < 24" and "ts_minute ts < 60" and "ts_second ts < 60"
  shows "read_rtc (pre @ regs_of bcd h24 ts # regs_of bcd h24 ts # post) (mode_reg bcd h24)
    = Some (ts\<lparr>ts_hour := (if \<not> h24 \<and> ts_hour ts mod 12 = 0 then 12 - ts_hour ts else ts_hour ts)\<rparr>)"
proof -
  have d: "(if bcd then from_bcd else id) (to_reg bcd n) = (of_nat n :: u8)" if "n < 100" for n
    by (rule decode_reg [OF that])
  have "hour_decoded bcd h24 (ts_hour ts) = (if \<not> h24 \<and> ts_hour ts mod 12 = 0 then 12 - ts_hour ts else ts_hour ts)"
    using hours_decoded [of bcd h24] assms(6) by (simp add: list_all_iff)
  note h = this [unfolded hour_decoded_def Let_def]
  have y: "(if ts_year ts mod 100 < 24 then ts_year ts mod 100 + 2100 else ts_year ts mod 100 + 2000) = ts_year ts"
    using two_digit_year [OF assms(2,3)] .
  let ?r = "rtc_sample (regs_of bcd h24 ts)"
  have r: "r_second ?r = to_reg bcd (ts_second ts)" "r_minute ?r = to_reg bcd (ts_minute ts)" "r_hour ?r = hour_reg bcd h24 (ts_hour ts)"
    "r_day ?r = to_reg bcd (ts_day ts)" "r_month ?r = to_reg bcd (ts_month ts)" "r_year ?r = to_reg bcd (ts_year ts mod 100)"
    unfolding sample_regs by (simp_all add: regs_of_def)
  have c: "(century_register \<noteq> 0) = False" by (simp add: century_register_def)
  have n: "ts_second ts < 100" "ts_minute ts < 100" "ts_day ts < 100" "ts_month ts < 100" "ts_year ts mod 100 < 100"
    using assms by simp_all
  note u = d [OF n(1)] d [OF n(2)] d [OF n(3)] d [OF n(4)] d [OF n(5)] unat_small [OF n(1)] unat_small [OF n(2)] unat_small [OF n(3)] unat_small [OF n(4)]
  have "rtc_decode (mode_reg bcd h24) ?r =
    ts\<lparr>ts_hour := (if \<not> h24 \<and> ts_hour ts mod 12 = 0 then 12 - ts_hour ts else ts_hour ts)\<rparr>"
    unfolding rtc_decode_def Let_def mode_reg_bits r c if_False u h full_year [OF n(5), unfolded Let_def] y
    by (rule timestamp.equality) simp_all
  then show ?thesis unfolding rtc_stable_first_pair [OF assms(1)] by simp
qed

theorem rtc_reads_date_witness:
  "read_rtc [regs_of True False \<lparr>ts_year = 2025, ts_month = 6, ts_day = 1, ts_hour = 11, ts_minute = 59, ts_second = 59\<rparr>,
      regs_of True False \<lparr>ts_year = 2025, ts_month = 6, ts_day = 1, ts_hour = 12, ts_minute = 0, ts_second = 0\<rparr>,
      regs_of True False \<lparr>ts_year = 2025, ts_month = 6, ts_day = 1, ts_hour = 12, ts_minute = 0, ts_second = 0\<rparr>] (mode_reg True False)
   = Some \<lparr>ts_year = 2025, ts_month = 6, ts_day = 1, ts_hour = 0, ts_minute = 0, ts_second = 0\<rparr>"
  using rtc_reads_date [of "[regs_of True False \<lparr>ts_year = 2025, ts_month = 6, ts_day = 1, ts_hour = 11, ts_minute = 59, ts_second = 59\<rparr>]"
    True False "\<lparr>ts_year = 2025, ts_month = 6, ts_day = 1, ts_hour = 12, ts_minute = 0, ts_second = 0\<rparr>" "[]"]
  by (simp add: rtc_sample_def regs_of_def century_register_def to_reg_def)

section \<open>The Unix time of a date\<close>

lemma rtc_years_days: "\<forall>i \<in> set ys. True \<Longrightarrow> rtc_years ys t = t + int (\<Sum>i \<leftarrow> ys. year_days i) * 86400"
  by (induction ys arbitrary: t) (simp_all add: year_days_def rtc_is_leap_year_def is_leap_year_def algebra_simps)

lemma rtc_years_before: "rtc_years [1970..<y] 0 = int (days_before y) * 86400"
  by (simp add: rtc_years_days days_before_def sum.distinct_set_conv_list [symmetric] interv_sum_list_conv_sum_set_nat)

lemma rtc_days: "rtc_days_in_month m y = days_in_month m y"
  by (simp add: rtc_days_in_month_def days_in_month_def days_in_months_def rtc_is_leap_year_def is_leap_year_def)

lemma rtc_months_days:
  assumes "1 \<le> m" and "m \<le> 12"
  shows "rtc_months y [1..<m] t = Some (t + int (sum_list (take (m - 1) (code_lengths (is_leap_year y)))) * 86400)"
proof -
  have "n < 12 \<Longrightarrow> rtc_months y [1..<Suc n] t = Some (t + int (sum_list (take n (code_lengths (is_leap_year y)))) * 86400)" for n
  proof (induction n)
    case (Suc n)
    have app: "rtc_months y (ms @ [k]) t = (case rtc_months y ms t of None \<Rightarrow> None | Some t' \<Rightarrow> rtc_months y [k] t')" for ms k
      by (induction ms arbitrary: t) (auto split: option.splits)
    have "take (Suc n) (code_lengths (is_leap_year y)) = take n (code_lengths (is_leap_year y)) @ [code_lengths (is_leap_year y) ! n]"
      using Suc.prems by (intro take_Suc_conv_app_nth) (simp add: code_lengths_def)
    moreover have "rtc_days_in_month (Suc n) y = Some (int (code_lengths (is_leap_year y) ! n))"
      using days_in_month_table [of "Suc n" y] Suc.prems by (simp add: rtc_days)
    moreover have "[1..<Suc (Suc n)] = [1..<Suc n] @ [Suc n]" by simp
    ultimately show ?case using Suc by (simp add: app algebra_simps)
  qed simp
  from this [of "m - 1"] assms show ?thesis by simp
qed

lemma calculate_unix_time_code:
  "1 \<le> m \<Longrightarrow> m \<le> 12 \<Longrightarrow> calculate_unix_time s mi h d m y =
     Some (int (days_before y + sum_list (take (m - 1) (code_lengths (is_leap_year y)))) * 86400 + (d - 1) * 86400 + h * 3600 + mi * 60 + s)"
  by (simp add: calculate_unix_time_def rtc_years_before rtc_months_days algebra_simps del: One_nat_def)

lemma code_days_before:
  assumes "1 \<le> m" and "m \<le> 12"
  shows "sum_list (take (m - 1) (code_lengths leap)) = sum_list (take (m - 1) (month_lengths leap)) + (if m \<in> wrong_months then 1 else 0)"
proof -
  have "list_all (\<lambda>n. sum_list (take n (code_lengths l)) = sum_list (take n (month_lengths l)) + (if n + 1 \<in> {7, 8, 10, 12} then 1 else 0)) [0..<12]" for l
    by (cases l; simp only:) code_simp+
  then show ?thesis using assms by (auto simp: list_all_iff wrong_months_def)
qed

text \<open>
  The Unix time computed at the start is that of the date in the clock, but a day too late in July, August,
  October and December.
\<close>

theorem boot_time_is_unix_time:
  assumes "1 \<le> m" and "m \<le> 12"
  shows "calculate_unix_time s mi h d m y =
    Some (int (days_before y + sum_list (take (m - 1) (month_lengths (is_leap_year y)))) * 86400 + (d - 1) * 86400
      + h * 3600 + mi * 60 + s + (if m \<in> wrong_months then 86400 else 0))"
  unfolding calculate_unix_time_code [OF assms] code_days_before [OF assms] by (simp add: algebra_simps)

theorem boot_time_is_unix_time_witness:
  "calculate_unix_time 0 0 0 4 7 1970 = Some ((184 + 1) * 86400)"
  using boot_time_is_unix_time [of 7 0 0 0 4 1970] by (simp add: month_lengths_def days_before_def wrong_months_def is_leap_year_def)

lemma days_before_mono: "1970 \<le> y \<Longrightarrow> y < y' \<Longrightarrow> days_before y + year_days y \<le> days_before y'"
proof (induction y')
  case (Suc y')
  then show ?case by (cases "y = y'") (simp_all add: days_before_Suc)
qed simp

lemma days_before_le: "1970 \<le> y \<Longrightarrow> days_before y \<le> 366 * (y - 1970)"
proof (induction y rule: dec_induct)
  case (step n)
  have "year_days n \<le> 366" by (simp add: year_days_def)
  then show ?case using step.IH days_before_Suc [OF step.hyps(1)] Suc_diff_le [OF step.hyps(1)] by linarith
qed (simp add: days_before_def)

lemma year_loop_at:
  assumes "1970 \<le> y" and "y < 10000" and "0 \<le> r" and "r < int (year_days y) * 86400"
  shows "year_loop (int (days_before y) * 86400 + r) 1970 = (r, y)"
proof -
  let ?t = "int (days_before y) * 86400 + r"
  obtain r' y' where l: "year_loop ?t 1970 = (r', y')" by fastforce
  have "year_days y \<le> 366" by (simp add: year_days_def)
  note yd = this
  have t0: "0 \<le> ?t" using assms(3) by simp
  have z: "days_before 1970 = 0" by (simp add: days_before_def)
  have "?t < 366 * 86400 * 10000" using days_before_le [OF assms(1)] assms(2,4) yd by linarith
  then have "?t div 31536000 \<le> (366 * 86400 * 10000) div 31536000" by (intro zdiv_mono1) simp_all
  then have L: "1970 \<le> y' \<and> 0 \<le> r' \<and> r' < int (year_days y') * 86400 \<and> ?t = r' + int (days_before y') * 86400"
    using year_loop_spec [OF _ t0 _ l] z by simp
  have "y' = y"
  proof (rule ccontr)
    assume "y' \<noteq> y"
    then consider "y' < y" | "y < y'" by linarith
    then show False
    proof cases
      case 1
      from days_before_mono [OF _ 1] L have "int (days_before y') + int (year_days y') \<le> int (days_before y)" by linarith
      then show False using L assms(3) by (simp add: algebra_simps)
    next
      case 2
      from days_before_mono [OF assms(1) 2] have "int (days_before y) + int (year_days y) \<le> int (days_before y')" by linarith
      then show False using L assms(4) by (simp add: algebra_simps)
    qed
  qed
  then show ?thesis using L l by simp
qed

lemma unix_time_to_date_at:
  assumes "1970 \<le> y" and "y < 10000" and "doy < year_days y" and "hh < 24" and "mi < 60" and "se < 60"
    and "calendar (code_lengths (is_leap_year y)) 1 doy = (m, d)"
  shows "unix_time_to_date (int (days_before y + doy) * 86400 + int hh * 3600 + int mi * 60 + int se)
    = Some \<lparr>ts_year = y, ts_month = m, ts_day = d, ts_hour = hh, ts_minute = mi, ts_second = se\<rparr>"
proof -
  define s where "s = int (hh * 3600 + mi * 60 + se)"
  have s: "0 \<le> s" "s < 86400" using assms(4-6) by (simp_all add: s_def)
  have t: "int (days_before y + doy) * 86400 + int hh * 3600 + int mi * 60 + int se = int (days_before y) * 86400 + (int doy * 86400 + s)"
    by (simp add: s_def algebra_simps)
  have yl: "year_loop (int (days_before y) * 86400 + (int doy * 86400 + s)) 1970 = (int doy * 86400 + s, y)"
    by (rule year_loop_at) (use assms(1-3) s in simp_all)
  have "doy < sum_list (drop (1 - 1) (code_lengths (is_leap_year y)))"
    using assms(3) by (simp add: sum_code_lengths year_days_def split: if_splits)
  from month_loop_spec [OF _ _ this s] assms(7) obtain k where
    ml: "month_loop (int doy * 86400 + s) 1 y = Some (int k * 86400 + s, m)" "k < 31" "d = k + 1" by auto
  have dl: "day_loop (int k * 86400 + s) 1 = (s, d)" using day_loop_spec [of s 1 k] s ml(2,3) by simp
  have "(hh * 3600 + k) div 3600 = hh \<and> (hh * 3600 + k) mod 3600 = k" if "k < 3600" for k using that by simp
  then have h: "(hh * 3600 + (mi * 60 + se)) div 3600 = hh" "(hh * 3600 + (mi * 60 + se)) mod 3600 = mi * 60 + se" using assms(5,6) by auto
  have q: "int n sdiv int k = int (n div k)" "int n smod int k = int (n mod k)" if "0 < k" for n k
    using that by (simp_all add: signed_divide_int_def signed_modulo_int_def sgn_if zdiv_int zmod_int)
  have sd: "s sdiv 3600 = int hh" "s smod 3600 = int (mi * 60 + se)"
    "int (mi * 60 + se) sdiv 60 = int mi" "int (mi * 60 + se) smod 60 = int se"
    using q [of 3600 "hh * 3600 + (mi * 60 + se)"] q [of 60 "mi * 60 + se"] assms(6) unfolding s_def h add.assoc by simp_all
  have b: "int hh mod 256 = int hh" "int mi mod 256 = int mi" "int se mod 256 = int se" using assms(4-6) by simp_all
  show ?thesis
    unfolding t unix_time_to_date_def yl ml(1) dl prod.case option.case Let_def sd b nat_int ..
qed

lemma calendar_of_month:
  assumes "n < length ls" and "1 \<le> d" and "d \<le> ls ! n"
  shows "calendar ls m (sum_list (take n ls) + (d - 1)) = (m + n, d)"
  using assms
proof (induction ls arbitrary: m n)
  case (Cons l ls)
  show ?case
  proof (cases n)
    case 0
    then have "d - 1 < l" using Cons.prems by simp
    then show ?thesis using 0 Cons.prems(2) by simp
  next
    case (Suc n')
    then show ?thesis using Cons.IH [of n' "m + 1"] Cons.prems by simp
  qed
qed simp

text \<open>
  C16. The two halves of the conversion have the same wrong table, so that the date shown at the start is
  that of the clock all the same, for every true date and time from 1970 to 9998, but on three days of the
  year: on 31 August, 31 October and 31 December the first of the next month is shown.
\<close>

theorem boot_date_is_shown:
  assumes "1970 \<le> ts_year ts" and "ts_year ts < 9999" and "1 \<le> ts_month ts" and "ts_month ts \<le> 12" and "1 \<le> ts_day ts"
    and "ts_day ts \<le> month_lengths (is_leap_year (ts_year ts)) ! (ts_month ts - 1)"
    and "ts_hour ts < 24" and "ts_minute ts < 60" and "ts_second ts < 60"
  shows "Option.bind (calculate_unix_time (int (ts_second ts)) (int (ts_minute ts)) (int (ts_hour ts)) (int (ts_day ts)) (ts_month ts) (ts_year ts))
      unix_time_to_date
    = Some (if ts_month ts = 12 \<and> ts_day ts = 31 then ts\<lparr>ts_year := ts_year ts + 1, ts_month := 1, ts_day := 1\<rparr>
        else if ts_month ts \<in> {8, 10} \<and> ts_day ts = 31 then ts\<lparr>ts_month := ts_month ts + 1, ts_day := 1\<rparr>
        else ts)"
proof -
  let ?y = "ts_year ts" and ?m = "ts_month ts" and ?d = "ts_day ts"
  let ?L = "code_lengths (is_leap_year ?y)"
  define doy where "doy = sum_list (take (?m - 1) ?L) + (?d - 1)"
  define m' where "m' = (if ?m \<in> {8, 10} \<and> ?d = 31 then ?m + 1 else ?m)"
  define d' where "d' = (if ?m \<in> {8, 10} \<and> ?d = 31 then 1 else ?d)"
  have "?m = 1 \<or> ?m = 2 \<or> ?m = 3 \<or> ?m = 4 \<or> ?m = 5 \<or> ?m = 6 \<or> ?m = 7 \<or> ?m = 8 \<or> ?m = 9
      \<or> ?m = 10 \<or> ?m = 11 \<or> ?m = 12" using assms(3,4) by presburger
  then have md: "doy = sum_list (take (m' - 1) ?L) + (d' - 1)" "d' \<le> ?L ! (m' - 1)" "1 \<le> m'" "m' \<le> 12" "1 \<le> d'"
    using assms(5,6) by (auto simp: doy_def m'_def d'_def code_lengths_def month_lengths_def)
  have c: "calendar ?L 1 doy = (m', d')"
    unfolding md(1) using calendar_of_month [of "m' - 1" ?L d' 1] md(2-5) by (simp add: code_lengths_def)
  have u: "calculate_unix_time (int (ts_second ts)) (int (ts_minute ts)) (int (ts_hour ts)) (int ?d) ?m ?y
    = Some (int (days_before ?y + doy) * 86400 + int (ts_hour ts) * 3600 + int (ts_minute ts) * 60 + int (ts_second ts))"
    unfolding calculate_unix_time_code [OF assms(3,4)] using assms(5) by (simp add: doy_def of_nat_diff algebra_simps)
  have last: "doy < year_days ?y \<longleftrightarrow> \<not> (m' = 12 \<and> d' = 31)"
  proof -
    have "list_all (\<lambda>n. sum_list (take n (code_lengths l)) + code_lengths l ! n \<le> (if l then 366 else 365) + (if n = 11 then 1 else 0)) [0..<12]"
      "sum_list (take 11 (code_lengths l)) = (if l then 336 else 335)" "code_lengths l ! 11 = 31" for l
      by (cases l; simp only:; code_simp)+
    from this(1) [of "is_leap_year ?y"] this(2,3) [of "is_leap_year ?y"] md show ?thesis
      unfolding list_all_iff year_days_def
      by (cases "m' = 12") (auto dest!: bspec [of _ _ "m' - 1"] split: if_splits)
  qed
  have dec: "m' = 12 \<and> d' = 31 \<longleftrightarrow> ?m = 12 \<and> ?d = 31" by (auto simp: m'_def d'_def)
  show ?thesis
  proof (cases "?m = 12 \<and> ?d = 31")
    case False
    then have "doy < year_days ?y" using last dec by simp
    from unix_time_to_date_at [OF assms(1) _ this assms(7-9) c] assms(2) False show ?thesis
      unfolding u m'_def d'_def by (auto intro: timestamp.equality)
  next
    case True
    have "doy = year_days ?y" using True unfolding doy_def year_days_def by (simp add: code_lengths_def)
    then have d: "days_before ?y + doy = days_before (?y + 1) + 0" using days_before_Suc [OF assms(1)] by simp
    have c1: "calendar (code_lengths (is_leap_year (?y + 1))) 1 0 = (1, 1)" by (simp add: code_lengths_def)
    have p: "0 < year_days (?y + 1)" by (simp add: year_days_def)
    from unix_time_to_date_at [OF _ _ p assms(7-9) c1] assms(1,2) True show ?thesis
      unfolding u d by (auto intro: timestamp.equality)
  qed
qed

theorem boot_date_is_shown_witness:
  "Option.bind (calculate_unix_time 58 59 23 31 12 2025) unix_time_to_date
   = Some \<lparr>ts_year = 2026, ts_month = 1, ts_day = 1, ts_hour = 23, ts_minute = 59, ts_second = 58\<rparr>"
  using boot_date_is_shown [of "\<lparr>ts_year = 2025, ts_month = 12, ts_day = 31, ts_hour = 23, ts_minute = 59, ts_second = 58\<rparr>"]
  by (simp add: month_lengths_def)

end
