(* ===== verification/Format.thy ===== *)
theory Format imports LilacBase begin

text \<open>
  Formatted output: \<open>vsnprintf\<close> and its variants (\<open>lib/stdio/vsprintf.c\<close>), \<open>vprintf\<close>
  (\<open>lib/stdio/vprintf.c\<close>), \<open>atoi\<close> (\<open>lib/ctype/ctype.c\<close>), and the kernel's log
  (\<open>kernel/log.c\<close>).

  A C string is the list of its characters before the terminating zero.  The arguments are a list of
  values with their types.  \<open>None\<close> is undefined behaviour: a write outside of an array, the overflow of a
  signed number, an argument that is missing or that has another type than the conversion reads.
\<close>

section \<open>Characters and numbers\<close>

datatype va = VInt u32 | VLong u64 | VStr "string option" | VPtr u64

abbreviation INT_MAX :: int where "INT_MAX \<equiv> 2147483647"

definition code_of :: "char \<Rightarrow> nat" where "code_of c = of_char c"

definition isdigit :: "char \<Rightarrow> bool" where
  "isdigit c \<longleftrightarrow> 48 \<le> code_of c \<and> code_of c \<le> 57"

definition digit_value :: "char \<Rightarrow> int" where
  "digit_value c = int (code_of c) - 48"

definition digit_char :: "bool \<Rightarrow> nat \<Rightarrow> char" where
  "digit_char upper d = (if d < 10 then char_of (48 + d) else char_of ((if upper then 65 else 97) + (d - 10)))"

text \<open>The digits of a number, the lowest first; there are none for 0.\<close>

fun digits_of :: "nat \<Rightarrow> bool \<Rightarrow> nat \<Rightarrow> string" where
  "digits_of base upper n =
     (if n = 0 \<or> base < 2 then [] else digit_char upper (n mod base) # digits_of base upper (n div base))"

declare digits_of.simps [simp del]

section \<open>Reading a conversion\<close>

record fspec =
  f_left :: bool
  f_plus :: bool
  f_space :: bool
  f_hash :: bool
  f_zero :: bool

definition no_flags :: fspec where
  "no_flags = \<lparr>f_left = False, f_plus = False, f_space = False, f_hash = False, f_zero = False\<rparr>"

fun parse_flags :: "fspec \<Rightarrow> string \<Rightarrow> fspec \<times> string" where
  "parse_flags f [] = (f, [])"
| "parse_flags f (c # cs) =
     (if c = CHR ''-'' then parse_flags (f\<lparr>f_left := True\<rparr>) cs
      else if c = CHR ''+'' then parse_flags (f\<lparr>f_plus := True\<rparr>) cs
      else if c = CHR '' '' then parse_flags (f\<lparr>f_space := True\<rparr>) cs
      else if c = CHR ''#'' then parse_flags (f\<lparr>f_hash := True\<rparr>) cs
      else if c = CHR ''0'' then parse_flags (f\<lparr>f_zero := True\<rparr>) cs
      else (f, c # cs))"

fun parse_num :: "int \<Rightarrow> string \<Rightarrow> (int \<times> string) option" where
  "parse_num n [] = Some (n, [])"
| "parse_num n (c # cs) =
     (if isdigit c
      then (let n' = n * 10 + digit_value c in if n' > INT_MAX then None else parse_num n' cs)
      else Some (n, c # cs))"

definition parse_width :: "fspec \<Rightarrow> string \<Rightarrow> va list \<Rightarrow> (fspec \<times> int \<times> string \<times> va list) option" where
  "parse_width f cs args =
     (case cs of
        [] \<Rightarrow> Some (f, -1, [], args)
      | c # cs' \<Rightarrow>
          if c = CHR ''*'' then
            (case args of
               VInt w # args' \<Rightarrow>
                 if sint w < 0 then (if - sint w > INT_MAX then None else Some (f\<lparr>f_left := True\<rparr>, - sint w, cs', args'))
                 else Some (f, sint w, cs', args')
             | _ \<Rightarrow> None)
          else if isdigit c then map_option (\<lambda>(w, cs''). (f, w, cs'', args)) (parse_num 0 cs)
          else Some (f, -1, cs, args))"

definition parse_prec :: "string \<Rightarrow> va list \<Rightarrow> (int \<times> string \<times> va list) option" where
  "parse_prec cs args =
     (case cs of
        [] \<Rightarrow> Some (-1, [], args)
      | c # cs' \<Rightarrow>
          if c \<noteq> CHR ''.'' then Some (-1, cs, args)
          else (case cs' of
                  [] \<Rightarrow> Some (0, [], args)
                | d # cs'' \<Rightarrow>
                    if d = CHR ''*'' then
                      (case args of VInt p # args' \<Rightarrow> Some (if sint p < 0 then 0 else sint p, cs'', args') | _ \<Rightarrow> None)
                    else map_option (\<lambda>(p, cs3). (if p < 0 then 0 else p, cs3, args)) (parse_num 0 cs')))"

datatype len_mod = LEN_NONE | LEN_HH | LEN_H | LEN_L | LEN_LL | LEN_Z

definition parse_len :: "string \<Rightarrow> len_mod \<times> string" where
  "parse_len cs =
     (case cs of
        [] \<Rightarrow> (LEN_NONE, [])
      | c # cs' \<Rightarrow>
          if c = CHR ''h'' then
            (case cs' of d # cs'' \<Rightarrow> if d = CHR ''h'' then (LEN_HH, cs'') else (LEN_H, cs') | [] \<Rightarrow> (LEN_H, cs'))
          else if c = CHR ''l'' then
            (case cs' of d # cs'' \<Rightarrow> if d = CHR ''l'' then (LEN_LL, cs'') else (LEN_L, cs') | [] \<Rightarrow> (LEN_L, cs'))
          else if c = CHR ''z'' then (LEN_Z, cs')
          else (LEN_NONE, cs))"

section \<open>The conversions\<close>

text \<open>Only \<open>l\<close> and \<open>ll\<close> change the type that is read.\<close>

definition get_signed :: "len_mod \<Rightarrow> va list \<Rightarrow> (int \<times> va list) option" where
  "get_signed l args =
     (case args of
        VLong w # args' \<Rightarrow> if l = LEN_LL \<or> l = LEN_L then Some (sint w, args') else None
      | VInt w # args' \<Rightarrow> if l = LEN_LL \<or> l = LEN_L then None else Some (sint w, args')
      | _ \<Rightarrow> None)"

definition get_unsigned :: "len_mod \<Rightarrow> va list \<Rightarrow> (nat \<times> va list) option" where
  "get_unsigned l args =
     (case args of
        VLong w # args' \<Rightarrow> if l = LEN_LL \<or> l = LEN_L then Some (unat w, args') else None
      | VInt w # args' \<Rightarrow> if l = LEN_LL \<or> l = LEN_L then None else Some (unat w, args')
      | _ \<Rightarrow> None)"

text \<open>The digits in \<open>tmp\<close>, which has 64 bytes, filled up with zeros to the precision.\<close>

definition prec_digits :: "int \<Rightarrow> string \<Rightarrow> string option" where
  "prec_digits prec tmp =
     (if int (length tmp) < prec
      then (if prec > 64 then None else Some (tmp @ replicate (nat prec - length tmp) (CHR ''0'')))
      else Some tmp)"

definition number_digits :: "nat \<Rightarrow> bool \<Rightarrow> nat \<Rightarrow> string" where
  "number_digits base upper n = (if n = 0 then [CHR ''0''] else digits_of base upper n)"

definition conv_signed :: "fspec \<Rightarrow> int \<Rightarrow> int \<Rightarrow> (string \<times> string) option" where
  "conv_signed f prec val =
     (if val < - 9223372036854775807 then None
      else map_option
        (\<lambda>tmp. (if val < 0 then ''-'' else if f_plus f then ''+'' else if f_space f then '' '' else [], rev tmp))
        (prec_digits prec (number_digits 10 False (nat \<bar>val\<bar>))))"

definition conv_unsigned :: "fspec \<Rightarrow> int \<Rightarrow> char \<Rightarrow> nat \<Rightarrow> string option" where
  "conv_unsigned f prec conv val =
     (let base = (if conv = CHR ''o'' then 8 else if conv = CHR ''x'' \<or> conv = CHR ''X'' then 16 else 10) in
      case prec_digits prec (number_digits base (conv = CHR ''X'') val) of
        None \<Rightarrow> None
      | Some tmp \<Rightarrow>
          if f_hash f \<and> base = 8 \<and> last tmp \<noteq> CHR ''0''
          then (if length tmp \<ge> 64 then None else Some (rev (tmp @ [CHR ''0''])))
          else Some (rev tmp))"

text \<open>The loop of \<open>%p\<close>, with its array of 32 bytes: it does not change the number.\<close>

function ptr_loop :: "u64 \<Rightarrow> string \<Rightarrow> string option" where
  "ptr_loop val tmp =
     (if val = 0 then Some tmp
      else if length tmp \<ge> 32 then None
      else ptr_loop val (tmp @ [digit_char False (unat val mod 16)]))"
  by pat_completeness auto
termination by (relation "measure (\<lambda>(val, tmp). 32 - length tmp)") auto

declare ptr_loop.simps [simp del]

definition conv_str :: "int \<Rightarrow> string option \<Rightarrow> string" where
  "conv_str prec s =
     (let t = (case s of None \<Rightarrow> ''(null)'' | Some t \<Rightarrow> t);
          n = (if prec < 0 then length t else min (length t) (nat prec)) in
      take (if n \<ge> 64 then 63 else n) t)"

text \<open>
  A conversion: the sign or prefix of a number and the rest of its text, and whether it is a number.
\<close>

definition convert_arg :: "fspec \<Rightarrow> int \<Rightarrow> len_mod \<Rightarrow> char option \<Rightarrow> va list \<Rightarrow> (string \<times> string \<times> bool \<times> va list) option" where
  "convert_arg f prec l conv args =
     (case conv of
        None \<Rightarrow> Some ([], ''%'', False, args)
      | Some c \<Rightarrow>
          if c = CHR ''c'' then
            (case args of VInt w # args' \<Rightarrow> Some ([], [char_of (unat w)], False, args') | _ \<Rightarrow> None)
          else if c = CHR ''s'' then
            (case args of VStr s # args' \<Rightarrow> Some ([], conv_str prec s, False, args') | _ \<Rightarrow> None)
          else if c = CHR ''d'' \<or> c = CHR ''i'' then
            (case get_signed l args of
               None \<Rightarrow> None
             | Some (val, args') \<Rightarrow> map_option (\<lambda>(sign, t). (sign, t, True, args')) (conv_signed f prec val))
          else if c = CHR ''u'' \<or> c = CHR ''o'' \<or> c = CHR ''x'' \<or> c = CHR ''X'' then
            (case get_unsigned l args of
               None \<Rightarrow> None
             | Some (val, args') \<Rightarrow> map_option (\<lambda>t. ([], t, True, args')) (conv_unsigned f prec c val))
          else if c = CHR ''p'' then
            (case args of
               VPtr p # args' \<Rightarrow>
                 if p = 0 then Some ([], ''(nil)'', False, args')
                 else map_option (\<lambda>tmp. ([], ''0x'' @ rev tmp, False, args')) (ptr_loop p [])
             | _ \<Rightarrow> None)
          else if c = CHR ''%'' then Some ([], ''%'', False, args)
          else Some ([], [CHR ''%'', c], False, args))"

text \<open>The text of a conversion with its prefix, and the padding to the width.\<close>

definition pad_text :: "fspec \<Rightarrow> int \<Rightarrow> int \<Rightarrow> char option \<Rightarrow> string \<Rightarrow> string \<Rightarrow> bool \<Rightarrow> string" where
  "pad_text f width prec conv sign t num =
     (let prefix = sign @ (if num \<and> f_hash f \<and> (conv = Some CHR ''x'' \<or> conv = Some CHR ''X'') \<and> t \<noteq> [] \<and> t \<noteq> ''0''
                           then (if conv = Some CHR ''X'' then ''0X'' else ''0x'') else []);
          total = int (length prefix + length t);
          pad = (if width > 0 \<and> total < width then nat (width - total) else 0) in
      if f_left f then prefix @ t @ replicate pad CHR '' ''
      else if f_zero f \<and> prec < 0 then prefix @ replicate pad CHR ''0'' @ t
      else replicate pad CHR '' '' @ prefix @ t)"

text \<open>Everything after a \<open>%\<close>: the text, the rest of the format, and the arguments left.\<close>

definition conversion :: "string \<Rightarrow> va list \<Rightarrow> (string \<times> string \<times> va list) option" where
  "conversion cs args =
     (case parse_flags no_flags cs of (f0, cs1) \<Rightarrow>
      case parse_width f0 cs1 args of None \<Rightarrow> None
      | Some (f, width, cs2, args2) \<Rightarrow>
        (case parse_prec cs2 args2 of None \<Rightarrow> None
         | Some (prec, cs3, args3) \<Rightarrow>
           (case parse_len cs3 of (l, cs4) \<Rightarrow>
            let conv = (case cs4 of [] \<Rightarrow> None | c # _ \<Rightarrow> Some c) in
            map_option (\<lambda>(sign, t, num, args4). (pad_text f width prec conv sign t num, tl cs4, args4))
              (convert_arg f prec l conv args3))))"

section \<open>vsnprintf\<close>

lemma parse_flags_length: "parse_flags f cs = (f', cs') \<Longrightarrow> length cs' \<le> length cs"
  by (induction f cs rule: parse_flags.induct) (auto split: if_splits)

lemma parse_num_length: "parse_num n cs = Some (n', cs') \<Longrightarrow> length cs' \<le> length cs"
  by (induction n cs rule: parse_num.induct) (auto simp: Let_def split: if_splits)

lemma parse_width_length: "parse_width f cs args = Some (f', w, cs', args') \<Longrightarrow> length cs' \<le> length cs"
  by (auto simp: parse_width_def simp del: parse_num.simps dest!: parse_num_length split: list.splits va.splits if_splits)

lemma parse_prec_length: "parse_prec cs args = Some (p, cs', args') \<Longrightarrow> length cs' \<le> length cs"
  by (auto simp: parse_prec_def simp del: parse_num.simps dest!: parse_num_length split: list.splits va.splits if_splits)

lemma parse_len_length: "parse_len cs = (l, cs') \<Longrightarrow> length cs' \<le> length cs"
  by (auto simp: parse_len_def split: list.splits if_splits)

lemma conversion_length: "conversion cs args = Some (t, cs', args') \<Longrightarrow> length cs' \<le> length cs"
  unfolding conversion_def Let_def
  by (fastforce split: prod.splits option.splits dest: parse_flags_length parse_width_length parse_prec_length parse_len_length)

text \<open>What fits is written: \<open>size\<close> characters, one of which gives way to the final zero.\<close>

definition emit :: "nat \<Rightarrow> string \<Rightarrow> string \<Rightarrow> string" where
  "emit n out t = take n (out @ t)"

function fmt_loop :: "nat \<Rightarrow> string \<Rightarrow> va list \<Rightarrow> string \<Rightarrow> string option" where
  "fmt_loop n [] args out = Some out"
| "fmt_loop n (c # cs) args out =
     (if c \<noteq> CHR ''%'' then fmt_loop n cs args (emit n out [c])
      else (case conversion cs args of
              None \<Rightarrow> None
            | Some (t, cs', args') \<Rightarrow> fmt_loop n cs' args' (emit n out t)))"
  by pat_completeness auto
termination
  by (relation "measure (\<lambda>(n, cs, args, out). length cs)") (auto dest!: conversion_length)

text \<open>The bytes written to the buffer, and the result.\<close>

definition vsnprintf :: "nat \<Rightarrow> string \<Rightarrow> va list \<Rightarrow> (string \<times> int) option" where
  "vsnprintf n fmt args =
     (if n = 0 then Some ([], 0)
      else map_option
        (\<lambda>out. (if length out < n then out @ [char_of (0 :: nat)] else take (n - 1) out @ [char_of (0 :: nat)], s32 (int (length out))))
        (fmt_loop n fmt args []))"

definition snprintf :: "nat \<Rightarrow> string \<Rightarrow> va list \<Rightarrow> (string \<times> int) option" where
  "snprintf n fmt args = vsnprintf n fmt args"

text \<open>The size that is passed to \<open>vsprintf\<close> is not used.\<close>

definition vsprintf :: "nat \<Rightarrow> string \<Rightarrow> va list \<Rightarrow> (string \<times> int) option" where
  "vsprintf n fmt args = vsnprintf 0xffff fmt args"

definition sprintf :: "string \<Rightarrow> va list \<Rightarrow> (string \<times> int) option" where
  "sprintf fmt args = vsnprintf 0xffff fmt args"

section \<open>The text of a format\<close>

text \<open>What the format and the arguments say, with no buffer.\<close>

function format_text :: "string \<Rightarrow> va list \<Rightarrow> string option" where
  "format_text [] args = Some []"
| "format_text (c # cs) args =
     (if c \<noteq> CHR ''%'' then map_option ((#) c) (format_text cs args)
      else (case conversion cs args of
              None \<Rightarrow> None
            | Some (t, cs', args') \<Rightarrow> map_option ((@) t) (format_text cs' args')))"
  by pat_completeness auto
termination
  by (relation "measure (\<lambda>(cs, args). length cs)") (auto dest!: conversion_length)

lemma take_take_append: "take n (take n xs @ ys) = take n (xs @ ys)"
  by (cases "n \<le> length xs") simp_all

lemma fmt_loop_text: "length out \<le> n \<Longrightarrow> fmt_loop n fmt args out = map_option (\<lambda>t. take n (out @ t)) (format_text fmt args)"
proof (induction n fmt args out rule: fmt_loop.induct)
  case (2 n c cs args out)
  show ?case
  proof (cases "c \<noteq> CHR ''%''")
    case True
    with 2(1) show ?thesis by (simp add: emit_def option.map_comp comp_def take_take_append del: take_append)
  next
    case False
    with 2(2) show ?thesis
      by (auto simp: emit_def option.map_comp comp_def take_take_append simp del: take_append split: option.splits)
  qed
qed simp

text \<open>
  C28. Whatever the format, the arguments and the size: what \<open>vsnprintf\<close> stores is the longest part of the text
  that fits, always with a zero behind it, never a byte more than the size; the result is the length of the text,
  but never more than the size (so that a result equal to the size is the only sign of a text that is cut, and the
  length of the whole text, which the standard asks for, is never known).
\<close>

theorem vsnprintf_stores_what_fits:
  assumes "0 < n" and "n < 2147483648"
  shows "vsnprintf n fmt args =
    map_option (\<lambda>text. (take (n - 1) text @ [char_of (0 :: nat)], int (min n (length text)))) (format_text fmt args)"
proof -
  have s: "s32 (int k) = int k" if "k \<le> n" for k
    using that assms(2) by (simp add: s32_def signed_take_bit_int_eq_self)
  have "(if length (take n t) < n then take n t @ [char_of (0 :: nat)] else take (n - 1) (take n t) @ [char_of (0 :: nat)], s32 (int (length (take n t))))
    = (take (n - 1) t @ [char_of (0 :: nat)], int (min n (length t)))" for t
    using s [of "length (take n t)"] assms(1) by (auto simp: min_def)
  then show ?thesis
    unfolding vsnprintf_def using fmt_loop_text [of "[]" n fmt args] assms(1) by (simp add: option.map_comp comp_def)
qed

theorem vsnprintf_stores_what_fits_witness:
  "vsnprintf 4 ''ab%c%c'' [VInt 99, VInt 100] = Some (''abc'' @ [char_of (0 :: nat)], 4)"
proof -
  have "format_text ''ab%c%c'' [VInt 99, VInt 100] = Some ''abcd''" by code_simp
  then show ?thesis using vsnprintf_stores_what_fits [of 4 "''ab%c%c''" "[VInt 99, VInt 100]"] by simp
qed

section \<open>Numbers are read back\<close>

definition isspace :: "char \<Rightarrow> bool" where
  "isspace c \<longleftrightarrow> code_of c = 32 \<or> (9 \<le> code_of c \<and> code_of c \<le> 13)"

fun atoi_loop :: "int \<Rightarrow> string \<Rightarrow> int option" where
  "atoi_loop r [] = Some r"
| "atoi_loop r (c # cs) =
     (if isdigit c then (let r' = r * 10 + digit_value c in if r' > INT_MAX then None else atoi_loop r' cs) else Some r)"

definition atoi :: "string \<Rightarrow> int option" where
  "atoi s =
     (let t = dropWhile isspace s in
      case t of
        [] \<Rightarrow> Some 0
      | c # cs \<Rightarrow>
          if c = CHR ''-'' then map_option uminus (atoi_loop 0 cs)
          else if c = CHR ''+'' then atoi_loop 0 cs
          else atoi_loop 0 t)"

definition dec_value :: "int \<Rightarrow> string \<Rightarrow> int" where
  "dec_value r ds = foldl (\<lambda>r c. r * 10 + digit_value c) r ds"

lemma dec_value_simps [simp]:
  "dec_value r [] = r" "dec_value r (c # cs) = dec_value (r * 10 + digit_value c) cs"
  "dec_value r (xs @ ys) = dec_value (dec_value r xs) ys"
  by (simp_all add: dec_value_def)

lemma isdigit_value: "isdigit c \<Longrightarrow> 0 \<le> digit_value c"
  by (simp add: isdigit_def digit_value_def)

lemma dec_value_ge: "list_all isdigit ds \<Longrightarrow> 0 \<le> r \<Longrightarrow> r \<le> dec_value r ds"
proof (induction ds arbitrary: r)
  case (Cons c ds)
  then have "0 \<le> digit_value c" by (simp add: isdigit_value)
  with Cons.IH [of "r * 10 + digit_value c"] Cons.prems show ?case by simp
qed simp

lemma atoi_loop_digits:
  "list_all isdigit ds \<Longrightarrow> rest = [] \<or> \<not> isdigit (hd rest) \<Longrightarrow> 0 \<le> r \<Longrightarrow> dec_value r ds \<le> INT_MAX \<Longrightarrow>
   atoi_loop r (ds @ rest) = Some (dec_value r ds)"
proof (induction ds arbitrary: r)
  case Nil
  then show ?case by (cases rest) auto
next
  case (Cons c ds)
  then have "0 \<le> digit_value c" by (simp add: isdigit_value)
  with Cons dec_value_ge [of ds "r * 10 + digit_value c"] show ?case by (simp add: Let_def)
qed

lemma digit_char_decimal: "d < 10 \<Longrightarrow> isdigit (digit_char u d) \<and> digit_value (digit_char u d) = int d"
  by (simp add: isdigit_def digit_value_def digit_char_def code_of_def)

lemma digits_of_decimal:
  "list_all isdigit (digits_of 10 u n) \<and> dec_value 0 (rev (digits_of 10 u n)) = int n"
proof (induction "10 :: nat" u n rule: digits_of.induct)
  case (1 u n)
  show ?case
  proof (cases "n = 0")
    case True
    then show ?thesis by (simp add: digits_of.simps)
  next
    case False
    have "digits_of 10 u n = digit_char u (n mod 10) # digits_of 10 u (n div 10)"
      using False by (subst digits_of.simps) simp
    with 1 False digit_char_decimal [of "n mod 10" u] show ?thesis by (simp add: zdiv_int zmod_int)
  qed
qed

lemma digits_of_length: "n < 10 ^ k \<Longrightarrow> length (digits_of 10 u n) \<le> k"
proof (induction k arbitrary: n)
  case 0
  then show ?case by (simp add: digits_of.simps)
next
  case (Suc k)
  have "n div 10 < 10 ^ k" using Suc.prems by (simp add: less_mult_imp_div_less mult.commute)
  with Suc.IH show ?case by (subst digits_of.simps) simp
qed

lemma number_digits_decimal:
  "list_all isdigit (number_digits 10 u n)" "dec_value 0 (rev (number_digits 10 u n)) = int n" "number_digits 10 u n \<noteq> []"
proof -
  show "list_all isdigit (number_digits 10 u n)" "dec_value 0 (rev (number_digits 10 u n)) = int n"
    using digits_of_decimal [of u n] by (auto simp: number_digits_def isdigit_def digit_value_def code_of_def)
  show "number_digits 10 u n \<noteq> []" by (simp add: number_digits_def digits_of.simps)
qed

lemma number_digits_length: "n < 10 ^ k \<Longrightarrow> 0 < k \<Longrightarrow> length (number_digits 10 u n) \<le> k"
  using digits_of_length [of n k u] by (auto simp: number_digits_def)

lemma zeros_digits: "list_all isdigit (replicate k CHR ''0'')" "dec_value 0 (replicate k CHR ''0'') = 0"
  by (induction k) (simp_all add: isdigit_def digit_value_def code_of_def)

lemma prec_digits_decimal:
  assumes "prec_digits prec (number_digits 10 u n) = Some tmp"
  shows "list_all isdigit (rev tmp)" "dec_value 0 (rev tmp) = int n" "tmp \<noteq> []"
  using assms number_digits_decimal [of u n] zeros_digits
  by (auto simp: prec_digits_def list_all_append list_all_rev split: if_splits)

lemma atoi_blanks: "list_all isspace bs \<Longrightarrow> atoi (bs @ t) = atoi t"
  by (simp add: atoi_def Let_def dropWhile_append list_all_iff)

lemma isdigit_isspace: "isdigit c \<Longrightarrow> \<not> isspace c \<and> c \<noteq> CHR ''-'' \<and> c \<noteq> CHR ''+''"
  by (auto simp: isdigit_def isspace_def code_of_def)

lemma atoi_signed:
  assumes "list_all isdigit ds" and "ds \<noteq> []" and "dec_value 0 ds = v" and "v \<le> INT_MAX" and "rest = [] \<or> \<not> isdigit (hd rest)"
  shows "atoi (ds @ rest) = Some v" "atoi (CHR ''-'' # ds @ rest) = Some (- v)" "atoi (CHR ''+'' # ds @ rest) = Some v"
proof -
  have l: "atoi_loop 0 (ds @ rest) = Some v" using atoi_loop_digits [OF assms(1,5)] assms(3,4) by simp
  obtain c cs where ds: "ds = c # cs" using assms(2) by (cases ds) auto
  have c: "\<not> isspace c" "c \<noteq> CHR ''-''" "c \<noteq> CHR ''+''" using isdigit_isspace [of c] assms(1) ds by auto
  show "atoi (ds @ rest) = Some v" using l c by (simp add: atoi_def ds)
  have s: "\<not> isspace CHR ''-''" "\<not> isspace CHR ''+''" by (simp_all add: isspace_def code_of_def)
  show "atoi (CHR ''-'' # ds @ rest) = Some (- v)" "atoi (CHR ''+'' # ds @ rest) = Some v"
    using l s by (simp_all add: atoi_def)
qed

text \<open>A number with its sign, its zeros and its spaces in any of the ways the flags allow.\<close>

lemma atoi_pad_text:
  assumes "conv_signed f prec val = Some (sign, t)" and "\<bar>val\<bar> \<le> INT_MAX"
  shows "atoi (pad_text f width prec0 (Some CHR ''d'') sign t True) = Some val"
proof -
  obtain tmp where p: "prec_digits prec (number_digits 10 False (nat \<bar>val\<bar>)) = Some tmp" and t: "t = rev tmp"
    and sg: "sign = (if val < 0 then ''-'' else if f_plus f then ''+'' else if f_space f then '' '' else [])"
    using assms(1) by (auto simp: conv_signed_def split: if_splits)
  note D = prec_digits_decimal [OF p, folded t]
  have d: "list_all isdigit (replicate k CHR ''0'' @ t)" "replicate k CHR ''0'' @ t \<noteq> []" "dec_value 0 (replicate k CHR ''0'' @ t) = \<bar>val\<bar>" for k
    using D zeros_digits t by (auto simp: list_all_append)
  have sp: "list_all isspace (replicate k CHR '' '')" "replicate k CHR '' '' = [] \<or> \<not> isdigit (hd (replicate k CHR '' ''))" for k
    by (induction k) (simp_all add: isspace_def isdigit_def code_of_def)
  have core: "atoi (sign @ (replicate k CHR ''0'' @ t) @ replicate j CHR '' '') = Some val" for k j
  proof -
    note S = atoi_signed [OF d(1,2,3) assms(2) sp(2), of k j]
    have b: "atoi (CHR '' '' # x) = atoi x" for x using atoi_blanks [of "'' ''" x] by (simp add: isspace_def code_of_def)
    show ?thesis using S by (auto simp: sg b)
  qed
  define pad where "pad = (if width > 0 \<and> int (length sign + length t) < width then nat (width - int (length sign + length t)) else 0)"
  have "pad_text f width prec0 (Some CHR ''d'') sign t True =
    (if f_left f then sign @ (replicate 0 CHR ''0'' @ t) @ replicate pad CHR '' ''
     else if f_zero f \<and> prec0 < 0 then sign @ (replicate pad CHR ''0'' @ t) @ replicate 0 CHR '' ''
     else replicate pad CHR '' '' @ sign @ (replicate 0 CHR ''0'' @ t) @ replicate 0 CHR '' '')"
    by (auto simp: pad_text_def Let_def pad_def)
  then show ?thesis by (simp only: core atoi_blanks [OF sp(1)] split: if_split) simp
qed

lemma parse_flags_end:
  "set fl \<subseteq> set ''-+ #0'' \<Longrightarrow> c \<notin> set ''-+ #0'' \<Longrightarrow>
   \<exists>f'. parse_flags f (fl @ c # cs) = (f', c # cs)"
  by (induction fl arbitrary: f) auto

lemma pad_text_length: "width \<le> int (length (pad_text f width prec conv sign t num))"
  by (auto simp: pad_text_def Let_def)

lemma parse_num_digits:
  "list_all isdigit ds \<Longrightarrow> rest = [] \<or> \<not> isdigit (hd rest) \<Longrightarrow> 0 \<le> r \<Longrightarrow> dec_value r ds \<le> INT_MAX \<Longrightarrow>
   parse_num r (ds @ rest) = Some (dec_value r ds, rest)"
proof (induction ds arbitrary: r)
  case Nil
  then show ?case by (cases rest) auto
next
  case (Cons c ds)
  then have "0 \<le> digit_value c" by (simp add: isdigit_value)
  with Cons dec_value_ge [of ds "r * 10 + digit_value c"] show ?case by (simp add: Let_def)
qed

text \<open>
  A width or a precision as a format can give it: not at all, by its digits, or by a star and an argument.
\<close>

datatype num_spec = Absent | Digits string | Star "32 word"

fun spec_args :: "num_spec \<Rightarrow> va list" where
  "spec_args (Star a) = [VInt a]"
| "spec_args _ = []"

fun width_text :: "num_spec \<Rightarrow> string" where
  "width_text Absent = []"
| "width_text (Digits ds) = ds"
| "width_text (Star a) = ''*''"

fun prec_text :: "num_spec \<Rightarrow> string" where
  "prec_text Absent = []"
| "prec_text (Digits ds) = CHR ''.'' # ds"
| "prec_text (Star a) = ''.*''"

fun spec_value :: "num_spec \<Rightarrow> int" where
  "spec_value Absent = -1"
| "spec_value (Digits ds) = dec_value 0 ds"
| "spec_value (Star a) = sint a"

text \<open>A width has digits that do not begin with the flag 0; a negative one from an argument is a flag \<open>-\<close>.\<close>

fun width_ok :: "num_spec \<Rightarrow> bool" where
  "width_ok Absent = True"
| "width_ok (Digits ds) = (list_all isdigit ds \<and> ds \<noteq> [] \<and> hd ds \<noteq> CHR ''0'' \<and> dec_value 0 ds \<le> INT_MAX)"
| "width_ok (Star a) = (- INT_MAX \<le> sint a)"

fun prec_ok :: "num_spec \<Rightarrow> bool" where
  "prec_ok (Digits ds) = (list_all isdigit ds \<and> dec_value 0 ds \<le> INT_MAX)"
| "prec_ok _ = True"

lemma parse_width_spec:
  assumes "width_ok wd" and "\<not> isdigit c" and "c \<noteq> CHR ''*''"
  shows "\<exists>f' v. parse_width f (width_text wd @ c # cs) (spec_args wd @ args) = Some (f', v, c # cs, args) \<and> spec_value wd \<le> v"
proof (cases wd)
  case Absent
  then show ?thesis using assms(2,3) by (simp add: parse_width_def)
next
  case (Digits ds)
  then obtain d ds' where ds: "ds = d # ds'" using assms(1) by (cases ds) auto
  have "parse_num 0 (ds @ c # cs) = Some (dec_value 0 ds, c # cs)"
    by (rule parse_num_digits) (use assms(1,2) Digits in simp_all)
  moreover have "isdigit d" "d \<noteq> CHR ''*''" using assms(1) Digits ds by (auto simp: isdigit_def code_of_def)
  ultimately show ?thesis using Digits ds by (simp add: parse_width_def del: parse_num.simps dec_value_simps)
next
  case (Star a)
  then show ?thesis using assms(1) by (simp add: parse_width_def)
qed

lemma parse_prec_spec:
  assumes "prec_ok pr" and "\<not> isdigit c" and "c \<noteq> CHR ''.''" and "c \<noteq> CHR ''*''"
  shows "parse_prec (prec_text pr @ c # cs) (spec_args pr @ args) =
    Some (if pr = Absent then -1 else max 0 (spec_value pr), c # cs, args)"
proof (cases pr)
  case Absent
  then show ?thesis using assms(3) by (simp add: parse_prec_def)
next
  case (Digits ds)
  have n: "parse_num 0 (ds @ c # cs) = Some (dec_value 0 ds, c # cs)"
    by (rule parse_num_digits) (use assms(1,2) Digits in simp_all)
  obtain d r where r: "ds @ c # cs = d # r" by (cases ds) auto
  have "d \<noteq> CHR ''*''" using r assms(1,4) Digits by (cases ds) (auto simp: isdigit_def code_of_def)
  then show ?thesis using n r Digits by (simp add: parse_prec_def del: parse_num.simps dec_value_simps)
next
  case (Star a)
  then show ?thesis by (simp add: parse_prec_def)
qed

lemma spec_first:
  assumes "width_ok wd" and "c \<notin> set ''-+ #0''"
  shows "\<exists>e r. width_text wd @ prec_text pr @ [c] = e # r \<and> e \<notin> set ''-+ #0''"
proof (cases wd)
  case Absent
  then show ?thesis using assms(2) by (cases pr) auto
next
  case (Digits ds)
  then show ?thesis using assms(1) by (cases ds) (auto simp: isdigit_def code_of_def)
qed simp

text \<open>
  C29. What \<open>%d\<close> or \<open>%i\<close> prints for an \<open>int\<close> is read back by \<open>atoi\<close> as the number that was printed, and it is at least as
  wide as the width.  This holds for any flags in any order, a width that is absent, written out or taken from an argument
  (also a negative one), and a precision that is absent, written out or taken from an argument, up to 64.  With a
  precision above 64 the code writes past its array of 64 bytes, and there is no result.  Left out are the lowest \<open>int\<close> as number
  (\<open>atoi\<close> overflows on it) and as width (its negation overflows), numbers in the format above the largest \<open>int\<close>, and
  length modifiers.
\<close>

theorem printed_number_reads_back:
  assumes "set fl \<subseteq> set ''-+ #0''" and "width_ok wd" and "prec_ok pr" and "c = CHR ''d'' \<or> c = CHR ''i''" and "- INT_MAX \<le> sint w"
  shows "if spec_value pr \<le> 64
    then \<exists>t. format_text (''%'' @ fl @ width_text wd @ prec_text pr @ [c]) (spec_args wd @ spec_args pr @ [VInt w]) = Some t
      \<and> atoi t = Some (sint w) \<and> spec_value wd \<le> int (length t)
    else format_text (''%'' @ fl @ width_text wd @ prec_text pr @ [c]) (spec_args wd @ spec_args pr @ [VInt w]) = None"
proof -
  let ?prec = "if pr = Absent then -1 else max 0 (spec_value pr)"
  have c: "\<not> isdigit c" "c \<noteq> CHR ''.''" "c \<noteq> CHR ''*''" "c \<notin> set ''-+ #0''" "c \<noteq> CHR ''h''" "c \<noteq> CHR ''l''" "c \<noteq> CHR ''z''"
    using assms(4) by (auto simp: isdigit_def code_of_def)
  obtain f0 where f0: "parse_flags no_flags (fl @ width_text wd @ prec_text pr @ [c]) = (f0, width_text wd @ prec_text pr @ [c])"
    using spec_first [OF assms(2) c(4), of pr] parse_flags_end [OF assms(1)] by metis
  obtain e r where e: "prec_text pr @ [c] = e # r" "\<not> isdigit e" "e \<noteq> CHR ''*''"
    using c by (cases pr) (auto simp: isdigit_def code_of_def)
  obtain f v where pw: "parse_width f0 (width_text wd @ prec_text pr @ [c]) (spec_args wd @ spec_args pr @ [VInt w])
      = Some (f, v, prec_text pr @ [c], spec_args pr @ [VInt w])" "spec_value wd \<le> v"
    using parse_width_spec [OF assms(2) e(2,3)] e(1) by metis
  have pp: "parse_prec (prec_text pr @ [c]) (spec_args pr @ [VInt w]) = Some (?prec, [c], [VInt w])"
    by (rule parse_prec_spec [OF assms(3) c(1,2,3)])
  have w: "sint w \<le> INT_MAX" "\<bar>sint w\<bar> \<le> INT_MAX" using sint_lt [of w] assms(5) by simp_all
  have "nat \<bar>sint w\<bar> < 10 ^ 10" using w(2) by simp
  then have len: "length (number_digits 10 False (nat \<bar>sint w\<bar>)) \<le> 10" by (rule number_digits_length) simp
  have conv: "format_text (''%'' @ fl @ width_text wd @ prec_text pr @ [c]) (spec_args wd @ spec_args pr @ [VInt w]) =
      map_option (\<lambda>(sign, t). pad_text f v ?prec (Some c) sign t True) (conv_signed f ?prec (sint w))"
  proof -
    have "convert_arg f ?prec LEN_NONE (Some c) [VInt w] = map_option (\<lambda>(sign, t). (sign, t, True, [])) (conv_signed f ?prec (sint w))"
      using assms(4) by (auto simp: convert_arg_def get_signed_def)
    then have "conversion (fl @ width_text wd @ prec_text pr @ [c]) (spec_args wd @ spec_args pr @ [VInt w])
      = map_option (\<lambda>(sign, t). (pad_text f v ?prec (Some c) sign t True, [], [])) (conv_signed f ?prec (sint w))"
      unfolding conversion_def f0 prod.case pw(1) option.case pp using c(5,6,7)
      by (cases "conv_signed f ?prec (sint w)") (auto simp: parse_len_def simp del: if_split)
    then show ?thesis by (cases "conv_signed f ?prec (sint w)") auto
  qed
  show ?thesis
  proof (cases "spec_value pr \<le> 64")
    case True
    then have "prec_digits ?prec (number_digits 10 False (nat \<bar>sint w\<bar>)) \<noteq> None"
      by (auto simp: prec_digits_def)
    then obtain sign t where cs: "conv_signed f ?prec (sint w) = Some (sign, t)"
      using assms(5) by (auto simp: conv_signed_def)
    have "pad_text f v ?prec (Some c) sign t True = pad_text f v ?prec (Some CHR ''d'') sign t True"
      using assms(4) by (auto simp: pad_text_def)
    then show ?thesis
      using True conv cs atoi_pad_text [OF cs w(2)] pad_text_length [of v f ?prec "Some c" sign t True] pw(2) by auto
  next
    case False
    then have "prec_digits ?prec (number_digits 10 False (nat \<bar>sint w\<bar>)) = None"
      using len by (auto simp: prec_digits_def)
    then show ?thesis using False conv by (simp add: conv_signed_def)
  qed
qed

theorem printed_number_reads_back_witness:
  "\<exists>t. format_text ''%+12.*d'' [VInt 3, VInt 42] = Some t \<and> atoi t = Some 42 \<and> 12 \<le> length t"
  using printed_number_reads_back [of "''+''" "Digits ''12''" "Star 3" "CHR ''d''" 42]
  by (simp add: isdigit_def digit_value_def code_of_def)

text \<open>
  C30. Printing a pointer that is not null with \<open>%p\<close> never works: the loop that takes the digits does not
  change the number, and writes past its array.
\<close>

theorem pointer_overruns_buffer:
  assumes "p \<noteq> 0" and "0 < n" and "CHR ''%'' \<notin> set pre"
  shows "vsnprintf n (pre @ ''%p'' @ fmt) (VPtr p # args) = None"
proof -
  have l: "ptr_loop p tmp = None" for tmp
  proof (induction "32 - length tmp" arbitrary: tmp)
    case 0
    then show ?case using assms(1) by (subst ptr_loop.simps) simp
  next
    case (Suc k)
    have "k = 32 - length (tmp @ [digit_char False (unat p mod 16)])" using Suc.hyps(2) by simp
    from Suc.hyps(1) [OF this] Suc.hyps(2) assms(1) show ?case by (subst ptr_loop.simps) simp
  qed
  have c: "conversion (CHR ''p'' # fmt) (VPtr p # args) = None"
    using assms(1) l by (simp add: conversion_def parse_width_def parse_prec_def parse_len_def convert_arg_def isdigit_def code_of_def)
  have "fmt_loop n (pre @ CHR ''%'' # CHR ''p'' # fmt) (VPtr p # args) out = None" for out
    using assms(3) c by (induction pre arbitrary: out) auto
  then show ?thesis using assms(2) by (simp add: vsnprintf_def)
qed

theorem pointer_overruns_buffer_witness:
  "vsnprintf 64 ''at %p'' [VPtr 0xFFFF800000000000] = None"
  using pointer_overruns_buffer [of "0xFFFF800000000000" 64 "''at ''" "''''" "[]"] by simp

section \<open>vprintf\<close>

text \<open>
  The text that is handed to \<open>putchar\<close>, which never fails, since it returns a byte.  Strings are shorter
  than 4 GiB.
\<close>

definition skip_char :: "char \<Rightarrow> string \<Rightarrow> string" where
  "skip_char c cs = (if cs \<noteq> [] \<and> hd cs = c then tl cs else cs)"

definition at_digit :: "string \<Rightarrow> bool" where
  "at_digit cs \<longleftrightarrow> cs \<noteq> [] \<and> isdigit (hd cs)"

fun vwidth :: "u32 \<Rightarrow> string \<Rightarrow> u32 \<times> string" where
  "vwidth w [] = (w, [])"
| "vwidth w (c # cs) = (if isdigit c then vwidth (w * 10 + of_int (digit_value c)) cs else (w, c # cs))"

text \<open>Each flag at most once, in this order; the precision is one digit, and sets the width.\<close>

definition parse_vspec :: "string \<Rightarrow> bool \<times> bool \<times> u32 option \<times> string" where
  "parse_vspec cs =
     (let cs1 = skip_char CHR ''-'' cs; left = (cs1 \<noteq> cs);
          cs4 = skip_char CHR ''#'' (skip_char CHR '' '' (skip_char CHR ''+'' cs1));
          cs5 = skip_char CHR ''0'' cs4; zero = (cs5 \<noteq> cs4);
          (w, cs6) = (if at_digit cs5 then (case vwidth 0 cs5 of (w, cs') \<Rightarrow> (Some w, cs')) else (None, cs5));
          cs7 = skip_char CHR ''.'' cs6 in
      if cs7 \<noteq> cs6 \<and> at_digit cs7 then (left, True, Some (of_int (digit_value (hd cs7))), tl cs7)
      else (left, zero, w, cs7))"

text \<open>\<open>convert\<close>, whose digits are capitals, and a number in its width: too small a width cuts it.\<close>

definition convert :: "nat \<Rightarrow> nat \<Rightarrow> string" where
  "convert num base = rev (number_digits base True num)"

definition vnumber :: "bool \<Rightarrow> bool \<Rightarrow> u32 option \<Rightarrow> string \<Rightarrow> string" where
  "vnumber left zero w s =
     (case w of
        None \<Rightarrow> s
      | Some width \<Rightarrow>
          (let len = min (unat width) (length s) in
           replicate (if left then 0 else unat width - len) (if zero then CHR ''0'' else CHR '' '') @ take len s))"

definition vstring :: "bool \<Rightarrow> u32 option \<Rightarrow> int \<Rightarrow> string \<Rightarrow> string \<times> bool" where
  "vstring left w maxrem s =
     (case w of
        None \<Rightarrow> (if maxrem < int (length s) then ([], False) else (s, True))
      | Some width \<Rightarrow>
          (let len = min (unat width) (length s); pad = replicate (unat width - len) CHR '' '' in
           if maxrem < int len then (if left then [] else pad, False)
           else (if left then take len s @ pad else pad @ take len s, True)))"

text \<open>A signed number: the sign is printed before the padding, and not counted.\<close>

definition vsigned :: "int \<Rightarrow> (string \<Rightarrow> string) \<Rightarrow> int \<Rightarrow> (string \<times> int) option" where
  "vsigned lowest number i =
     (if i = lowest then None
      else (let s = number (convert (nat \<bar>i\<bar>) 10) in Some ((if i < 0 then ''-'' else []) @ s, int (length s))))"

definition vunsigned :: "(string \<Rightarrow> string) \<Rightarrow> nat \<Rightarrow> nat \<Rightarrow> string \<times> int" where
  "vunsigned number i base = (let s = number (convert i base) in (s, int (length s)))"

text \<open>A conversion: what is printed, what is added to the count, whether it goes on, and the rest.\<close>

definition vconv :: "int \<Rightarrow> string \<Rightarrow> va list \<Rightarrow> (string \<times> int \<times> bool \<times> string \<times> va list) option" where
  "vconv maxrem cs args =
     (case parse_vspec cs of (left, zero, w, cs1) \<Rightarrow>
      let number = vnumber left zero w;
          literal = (if maxrem < int (Suc (length cs)) then Some ([], 0, False, [], args)
                     else Some (CHR ''%'' # cs, int (Suc (length cs)), True, [], args)) in
      case cs1 of
        [] \<Rightarrow> literal
      | c # r \<Rightarrow>
          if c = CHR ''c'' then
            (case args of
               VInt i # as \<Rightarrow> if maxrem = 0 then Some ([], 0, False, r, as) else Some ([char_of (unat i)], 1, True, r, as)
             | _ \<Rightarrow> None)
          else if c = CHR ''s'' then
            (case args of
               VStr (Some s) # as \<Rightarrow>
                 (case vstring left w maxrem s of (t, ok) \<Rightarrow> Some (t, int (length t), ok, r, as))
             | _ \<Rightarrow> None)
          else if c = CHR ''d'' then
            (case args of
               VInt i # as \<Rightarrow> map_option (\<lambda>(t, n). (t, n, True, r, as)) (vsigned (- 2147483648) number (sint i))
             | _ \<Rightarrow> None)
          else if c = CHR ''x'' \<or> c = CHR ''p'' \<or> c = CHR ''X'' then
            (case args of
               VLong i # as \<Rightarrow> (case vunsigned number (unat i) 16 of (t, n) \<Rightarrow> Some (t, n, True, r, as))
             | VPtr i # as \<Rightarrow> (case vunsigned number (unat i) 16 of (t, n) \<Rightarrow> Some (t, n, True, r, as))
             | _ \<Rightarrow> None)
          else if c = CHR ''u'' then
            (case args of VInt i # as \<Rightarrow> (case vunsigned number (unat i) 10 of (t, n) \<Rightarrow> Some (t, n, True, r, as)) | _ \<Rightarrow> None)
          else if c = CHR ''o'' then
            (case args of VInt i # as \<Rightarrow> (case vunsigned number (unat i) 8 of (t, n) \<Rightarrow> Some (t, n, True, r, as)) | _ \<Rightarrow> None)
          else if c = CHR ''l'' then
            (case r of
               [] \<Rightarrow> Some ([], 0, True, [], args)
             | d # r1 \<Rightarrow>
                 if d = CHR ''l'' then
                   (case r1 of
                      [] \<Rightarrow> Some ([], 0, True, [], args)
                    | e # r2 \<Rightarrow>
                        if e = CHR ''d'' then
                          (case args of
                             VLong i # as \<Rightarrow> map_option (\<lambda>(t, n). (t, n, True, r2, as)) (vsigned (- 9223372036854775808) number (sint i))
                           | _ \<Rightarrow> None)
                        else if e = CHR ''x'' then
                          (case args of VLong i # as \<Rightarrow> (case vunsigned id (unat i) 16 of (t, n) \<Rightarrow> Some (t, n, True, r2, as)) | _ \<Rightarrow> None)
                        else if e = CHR ''u'' then
                          (case args of VLong i # as \<Rightarrow> (case vunsigned id (unat i) 10 of (t, n) \<Rightarrow> Some (t, n, True, r2, as)) | _ \<Rightarrow> None)
                        else Some ([], 0, True, r1, args))
                 else if d = CHR ''d'' then
                   (case args of
                      VLong i # as \<Rightarrow> map_option (\<lambda>(t, n). (t, n, True, r1, as)) (vsigned (- 9223372036854775808) id (sint i))
                    | _ \<Rightarrow> None)
                 else if d = CHR ''x'' then
                   (case args of VLong i # as \<Rightarrow> (case vunsigned number (unat i) 16 of (t, n) \<Rightarrow> Some (t, n, True, r1, as)) | _ \<Rightarrow> None)
                 else if d = CHR ''u'' then
                   (case args of VLong i # as \<Rightarrow> (case vunsigned id (unat i) 10 of (t, n) \<Rightarrow> Some (t, n, True, r1, as)) | _ \<Rightarrow> None)
                 else Some ([], 0, True, r, args))
          else literal)"

lemma skip_char_length: "length (skip_char c cs) \<le> length cs"
  by (simp add: skip_char_def)

lemma vwidth_length: "vwidth w cs = (w', cs') \<Longrightarrow> length cs' \<le> length cs"
  by (induction w cs rule: vwidth.induct) (auto split: if_splits)

lemma parse_vspec_length:
  assumes "parse_vspec cs = (left, zero, w, cs')"
  shows "length cs' \<le> length cs"
proof -
  let ?cs5 = "skip_char CHR ''0'' (skip_char CHR ''#'' (skip_char CHR '' '' (skip_char CHR ''+'' (skip_char CHR ''-'' cs))))"
  obtain w6 cs6 where p: "(if at_digit ?cs5 then (case vwidth 0 ?cs5 of (w, cs') \<Rightarrow> (Some w, cs')) else (None, ?cs5)) = (w6, cs6)"
    by fastforce
  have "length ?cs5 \<le> length cs" by (meson skip_char_length le_trans)
  moreover have "length cs6 \<le> length ?cs5" using p by (auto split: if_splits prod.splits dest: vwidth_length)
  moreover have "cs' = skip_char CHR ''.'' cs6 \<or> cs' = tl (skip_char CHR ''.'' cs6)"
    using assms unfolding parse_vspec_def Let_def p by (auto split: if_splits)
  then have "length cs' \<le> length cs6" using skip_char_length [of "CHR ''.''" cs6] by (auto simp: le_diff_conv)
  ultimately show ?thesis by linarith
qed

lemma vconv_length:
  assumes "vconv maxrem cs args = Some (t, n, ok, cs', args')"
  shows "length cs' \<le> length cs"
proof -
  obtain left zero w cs1 where p: "parse_vspec cs = (left, zero, w, cs1)" by (metis prod_cases4)
  have "length cs' \<le> length cs1"
    using assms unfolding vconv_def p Let_def
    by (auto split: list.splits if_splits va.splits option.splits prod.splits)
  then show ?thesis using parse_vspec_length [OF p] by simp
qed

function vprintf_loop :: "string \<Rightarrow> va list \<Rightarrow> int \<Rightarrow> string \<Rightarrow> (int \<times> string) option" where
  "vprintf_loop [] args written out = Some (written, out)"
| "vprintf_loop (c # cs) args written out =
     (let maxrem = INT_MAX - written in
      if c \<noteq> CHR ''%'' \<or> (cs \<noteq> [] \<and> hd cs = CHR ''%'') then
        (let t = (if c = CHR ''%'' then cs else c # cs);
             chunk = hd t # takeWhile (\<lambda>d. d \<noteq> CHR ''%'') (tl t) in
         if maxrem < int (length chunk) then Some (-1, out)
         else vprintf_loop (dropWhile (\<lambda>d. d \<noteq> CHR ''%'') (tl t)) args (written + int (length chunk)) (out @ chunk))
      else
        (case vconv maxrem cs args of
           None \<Rightarrow> None
         | Some (t, n, ok, cs', args') \<Rightarrow>
             if \<not> ok then Some (-1, out @ t)
             else if n > maxrem then None
             else vprintf_loop cs' args' (written + n) (out @ t)))"
  by pat_completeness auto
termination
proof (relation "measure (\<lambda>(cs, args, written, out). length cs)", goal_cases)
  case (2 c cs args written out maxrem t chunk)
  have "length t \<le> Suc (length cs)" using 2(3) by simp
  moreover have "length (tl t) < length t" using 2(2,3) by (cases t) (auto split: if_splits)
  ultimately show ?case using length_dropWhile_le [of "\<lambda>d. d \<noteq> CHR ''%''" "tl t"] by simp
qed (auto dest!: vconv_length)

text \<open>The result, and what was printed.\<close>

definition vprintf :: "string \<Rightarrow> va list \<Rightarrow> (int \<times> string) option" where
  "vprintf fmt args = vprintf_loop fmt args 0 []"

definition printf :: "string \<Rightarrow> va list \<Rightarrow> (int \<times> string) option" where
  "printf fmt args = vprintf fmt args"

section \<open>The log\<close>

abbreviation LOG_DEBUG :: nat where "LOG_DEBUG \<equiv> 0"
abbreviation LOG_INFO :: nat where "LOG_INFO \<equiv> 1"
abbreviation LOG_WARN :: nat where "LOG_WARN \<equiv> 2"
abbreviation LOG_ERROR :: nat where "LOG_ERROR \<equiv> 3"

definition LOG_PREFIX :: string where "LOG_PREFIX = ''[%4lld.%09lld] (%d) ''"

text \<open>
  What a message prints: nothing below the level of the log, and else the system time, the process and the
  message.  \<open>write_to_screen\<close> and the colours are not modelled.
\<close>

definition kvlog :: "nat \<Rightarrow> nat \<Rightarrow> string option \<Rightarrow> va list \<Rightarrow> u64 \<Rightarrow> u32 \<Rightarrow> string option" where
  "kvlog log_level level data args sys_ns pid =
     (case data of
        None \<Rightarrow> Some []
      | Some msg \<Rightarrow>
          if log_level > level then Some []
          else (case printf LOG_PREFIX [VLong (word_of_int (sint sys_ns sdiv 1000000000)), VLong (word_of_int (sint sys_ns smod 1000000000)), VInt pid] of
                  None \<Rightarrow> None
                | Some (_, p) \<Rightarrow>
                    (case printf (if level = LOG_WARN then ''WARNING: '' else if level = LOG_ERROR then ''ERROR: '' else []) [] of
                       None \<Rightarrow> None
                     | Some (_, k) \<Rightarrow> (case vprintf msg args of None \<Rightarrow> None | Some (_, t) \<Rightarrow> Some (p @ k @ t)))))"

definition klog :: "nat \<Rightarrow> nat \<Rightarrow> string option \<Rightarrow> va list \<Rightarrow> u64 \<Rightarrow> u32 \<Rightarrow> string option" where
  "klog log_level level data args sys_ns pid = kvlog log_level level data args sys_ns pid"

definition kstatus :: "nat \<Rightarrow> string option \<Rightarrow> va list \<Rightarrow> string option" where
  "kstatus status message args =
     (case message of
        None \<Rightarrow> Some []
      | Some msg \<Rightarrow>
          (case vprintf msg args of
             None \<Rightarrow> None
           | Some (_, t) \<Rightarrow> Some (''['' @ (if status = 0 then '' OK '' else if status = 1 then '' ERROR '' else []) @ ''] '' @ t)))"

text \<open>The decimal digits of a number, the highest first.\<close>

definition decimal :: "nat \<Rightarrow> string" where
  "decimal n = rev (number_digits 10 False n)"

lemma digits_of_upper: "digits_of 10 u n = digits_of 10 False n"
proof (induction "10 :: nat" u n rule: digits_of.induct)
  case (1 u n)
  then show ?case by (simp add: digits_of.simps [of 10 u n] digits_of.simps [of 10 False n] digit_char_def)
qed

lemma convert_decimal: "convert n 10 = decimal n"
  by (simp add: convert_def decimal_def number_digits_def digits_of_upper [of True])

lemma decimal_value: "dec_value 0 (decimal n) = int n" "list_all isdigit (decimal n)"
  by (simp_all add: decimal_def number_digits_decimal list_all_rev)

lemma decimal_long: "10 ^ k \<le> n \<Longrightarrow> k < length (decimal n)"
proof -
  have "10 ^ k \<le> n \<Longrightarrow> k < length (digits_of 10 False n)" for n
  proof (induction k arbitrary: n)
    case 0
    then show ?case by (subst digits_of.simps) simp
  next
    case (Suc k)
    have "10 ^ k \<le> n div 10" using Suc.prems div_le_mono [of "10 * 10 ^ k" n 10] by simp
    moreover have "n \<noteq> 0" using Suc.prems by (cases "n = 0") simp_all
    ultimately show ?case using Suc.IH by (subst digits_of.simps) simp
  qed
  moreover assume "10 ^ k \<le> n"
  moreover from this have "n \<noteq> 0" by (cases "n = 0") simp_all
  ultimately show ?thesis by (simp add: decimal_def number_digits_def)
qed

lemma decimal_length: "n < 10 ^ k \<Longrightarrow> 0 < k \<Longrightarrow> length (decimal n) \<le> k"
  by (simp add: decimal_def number_digits_length)

lemma chars_simps:
  "isdigit CHR ''%'' = False" "isdigit CHR ''l'' = False" "isdigit CHR ''d'' = False" "isdigit CHR ''.'' = False"
  "isdigit CHR ''4'' = True" "isdigit CHR ''9'' = True" "digit_value CHR ''4'' = 4" "digit_value CHR ''9'' = 9"
  by (simp_all add: isdigit_def digit_value_def code_of_def)

lemma prefix_specs:
  "parse_vspec (''4lld'' @ r) = (False, False, Some 4, ''lld'' @ r)"
  "parse_vspec (''09lld'' @ r) = (False, True, Some 9, ''lld'' @ r)"
  "parse_vspec (''d'' @ r) = (False, False, None, ''d'' @ r)"
  by (simp_all add: parse_vspec_def skip_char_def at_digit_def chars_simps Let_def)

lemma vconv_lld:
  assumes "parse_vspec cs = (left, zero, w, ''lld'' @ r)" and "0 \<le> sint i"
  shows "vconv maxrem cs (VLong i # args) =
    (let s = vnumber left zero w (decimal (nat (sint i))) in Some (s, int (length s), True, r, args))"
  using assms by (simp add: vconv_def Let_def vsigned_def convert_decimal)

lemma vconv_d:
  assumes "parse_vspec cs = (left, zero, w, ''d'' @ r)" and "0 \<le> sint i"
  shows "vconv maxrem cs (VInt i # args) =
    (let s = vnumber left zero w (decimal (nat (sint i))) in Some (s, int (length s), True, r, args))"
  using assms by (simp add: vconv_def Let_def vsigned_def convert_decimal)

lemma vprintf_conv:
  assumes "cs = [] \<or> hd cs \<noteq> CHR ''%''" and "vconv (INT_MAX - written) cs args = Some (t, n, True, cs', args')" and "n \<le> INT_MAX - written"
  shows "vprintf_loop (CHR ''%'' # cs) args written out = vprintf_loop cs' args' (written + n) (out @ t)"
  using assms by (auto simp: Let_def)

lemma vprintf_text:
  assumes "c \<noteq> CHR ''%''" and "CHR ''%'' \<notin> set cs" and "int (length cs) < INT_MAX - written" and "r = [] \<or> hd r = CHR ''%''"
  shows "vprintf_loop (c # cs @ r) args written out = vprintf_loop r args (written + 1 + int (length cs)) (out @ c # cs)"
proof -
  have "takeWhile (\<lambda>d. d \<noteq> CHR ''%'') (cs @ r) = cs" "dropWhile (\<lambda>d. d \<noteq> CHR ''%'') (cs @ r) = r"
    using assms(2,4) by (cases r; auto simp: takeWhile_append dropWhile_append takeWhile_eq_all_conv)+
  then show ?thesis using assms(1,3) by (simp add: Let_def add.assoc)
qed

definition padded :: "char \<Rightarrow> nat \<Rightarrow> string \<Rightarrow> string" where
  "padded c n s = replicate (n - length s) c @ s"

lemma vnumber_width:
  "vnumber False zero (Some w) s = (if length s \<le> unat w then padded (if zero then CHR ''0'' else CHR '' '') (unat w) s else take (unat w) s)"
  by (simp add: vnumber_def padded_def min_def Let_def)

lemma sint_nonneg:
  assumes "0 \<le> sint (x :: 'a::len word)"
  shows "sint x = int (unat x)"
proof -
  have eq: "sint x = uint x - 2 ^ LENGTH('a) * of_bool (bit (uint x) (LENGTH('a) - 1))"
    unfolding sint_uint signed_take_bit_eq_take_bit_minus by (simp add: take_bit_int_eq_self)
  have lt: "uint x < 2 ^ LENGTH('a)" by (rule uint_bounded)
  show ?thesis
  proof (cases "bit (uint x) (LENGTH('a) - 1)")
    case True
    then have "sint x = uint x - 2 ^ LENGTH('a)" using eq by simp
    then show ?thesis using assms lt by linarith
  next
    case False
    then show ?thesis using eq by simp
  qed
qed

lemma sdiv_int_nat: "0 < k \<Longrightarrow> int n sdiv int k = int (n div k) \<and> int n smod int k = int (n mod k)"
  by (simp add: signed_divide_int_def signed_modulo_int_def sgn_if zdiv_int zmod_int)

lemma vnumber_short: "length (vnumber left zero w s) \<le> (case w of None \<Rightarrow> length s | Some x \<Rightarrow> unat x)"
  by (auto simp: vnumber_def Let_def min_def split: option.splits)

text \<open>The prefix of a line, one part of the format after the other.\<close>

lemma print_prefix:
  assumes "s < 10 ^ 10" and "ns < 10 ^ 9" and "0 \<le> sint pid"
  shows "printf LOG_PREFIX [VLong (word_of_int (int s)), VLong (word_of_int (int ns)), VInt pid] =
    (let a = vnumber False False (Some 4) (decimal s); b = vnumber False True (Some 9) (decimal ns); c = decimal (unat pid) in
     Some (int (7 + length a + length b + length c), ''['' @ a @ ''.'' @ b @ ''] ('' @ c @ '') ''))"
proof -
  let ?a = "vnumber False False (Some 4) (decimal s)" and ?b = "vnumber False True (Some 9) (decimal ns)" and ?c = "decimal (unat pid)"
  let ?s = "word_of_int (int s) :: u64" and ?ns = "word_of_int (int ns) :: u64"
  have "sint (word_of_int (int k) :: u64) = int k" if "k < 10 ^ 10" for k
    unfolding sint_sbintrunc' by (rule signed_take_bit_int_eq_self) (use that in simp_all)
  then have w: "sint ?s = int s" "sint ?ns = int ns" "sint pid = int (unat pid)"
    using assms sint_nonneg by fastforce+
  have "sint pid < 2147483648" using sint_lt [of pid] by simp
  then have "unat pid < 2147483648" unfolding w(3) by linarith
  then have "unat pid < 10 ^ 10" by simp
  then have l: "length ?a \<le> 4" "length ?b \<le> 9" "length ?c \<le> 10"
    using vnumber_short [of False False "Some 4" "decimal s"] vnumber_short [of False True "Some 9" "decimal ns"]
    by (simp_all add: decimal_length)
  have 1: "vprintf_loop ''[%4lld.%09lld] (%d) '' [VLong ?s, VLong ?ns, VInt pid] 0 []
    = vprintf_loop ''%4lld.%09lld] (%d) '' [VLong ?s, VLong ?ns, VInt pid] 1 ''[''"
    using vprintf_text [of "CHR ''[''" "[]" 0 "''%4lld.%09lld] (%d) ''" _ "[]"] by simp
  have 2: "vprintf_loop ''%4lld.%09lld] (%d) '' [VLong ?s, VLong ?ns, VInt pid] 1 ''[''
    = vprintf_loop ''.%09lld] (%d) '' [VLong ?ns, VInt pid] (1 + int (length ?a)) (''['' @ ?a)"
    by (rule vprintf_conv)
      (use vconv_lld [OF prefix_specs(1) [of "''.%09lld] (%d) ''"], of ?s _ "[VLong ?ns, VInt pid]"] w(1) l(1) in \<open>simp_all add: Let_def\<close>)
  have 3: "vprintf_loop ''.%09lld] (%d) '' [VLong ?ns, VInt pid] (1 + int (length ?a)) (''['' @ ?a)
    = vprintf_loop ''%09lld] (%d) '' [VLong ?ns, VInt pid] (2 + int (length ?a)) (''['' @ ?a @ ''.'')"
    using vprintf_text [of "CHR ''.''" "[]" "1 + int (length ?a)" "''%09lld] (%d) ''" _ "''['' @ ?a"] l(1) by (simp add: algebra_simps)
  have 4: "vprintf_loop ''%09lld] (%d) '' [VLong ?ns, VInt pid] (2 + int (length ?a)) (''['' @ ?a @ ''.'')
    = vprintf_loop ''] (%d) '' [VInt pid] (2 + int (length ?a) + int (length ?b)) ((''['' @ ?a @ ''.'') @ ?b)"
    by (rule vprintf_conv)
      (use vconv_lld [OF prefix_specs(2) [of "''] (%d) ''"], of ?ns _ "[VInt pid]"] w(2) l(1,2) in \<open>simp_all add: Let_def\<close>)
  have 5: "vprintf_loop ''] (%d) '' [VInt pid] (2 + int (length ?a) + int (length ?b)) ((''['' @ ?a @ ''.'') @ ?b)
    = vprintf_loop ''%d) '' [VInt pid] (5 + int (length ?a) + int (length ?b)) (''['' @ ?a @ ''.'' @ ?b @ ''] ('')"
    using vprintf_text [of "CHR '']''" "'' (''" "2 + int (length ?a) + int (length ?b)" "''%d) ''" _ "(''['' @ ?a @ ''.'') @ ?b"] l(1,2) by (simp add: algebra_simps)
  have 6: "vprintf_loop ''%d) '' [VInt pid] (5 + int (length ?a) + int (length ?b)) (''['' @ ?a @ ''.'' @ ?b @ ''] ('')
    = vprintf_loop '') '' [] (5 + int (length ?a) + int (length ?b) + int (length ?c)) ((''['' @ ?a @ ''.'' @ ?b @ ''] ('') @ ?c)"
    by (rule vprintf_conv)
      (use vconv_d [OF prefix_specs(3) [of "'') ''"], of pid _ "[]"] w(3) l in \<open>simp_all add: Let_def vnumber_def\<close>)
  have 7: "vprintf_loop '') '' [] k out = Some (k + 2, out @ '') '')" if "k < 100" for k out
    using vprintf_text [of "CHR '')''" "'' ''" k "[]" "[]" out] that by simp
  show ?thesis
    unfolding printf_def vprintf_def LOG_PREFIX_def 1 2 3 4 5 6 using l by (subst 7) (simp_all add: Let_def)
qed

text \<open>
  A line of the log: nothing below the level of the log; else the time in seconds with nine decimals, the
  process, the tag of a warning or error, and the message.  The seconds have a width of four, and \<open>vprintf\<close> cuts
  a number that is wider than its width: after 10,000 seconds only their first four digits are
  printed, and the time in the log no longer grows.
\<close>

theorem log_line:
  assumes "log_level \<le> level" and "0 \<le> sint sys_ns" and "0 \<le> sint pid"
  shows "klog log_level level (Some msg) args sys_ns pid =
    (let s = decimal (unat sys_ns div 1000000000); ns = decimal (unat sys_ns mod 1000000000) in
     map_option (\<lambda>(_, t). ''['' @ (if unat sys_ns < 10000 * 1000000000 then padded CHR '' '' 4 s else take 4 s) @ ''.'' @ padded CHR ''0'' 9 ns
         @ ''] ('' @ decimal (unat pid) @ '') '' @ (if level = 2 then ''WARNING: '' else if level = 3 then ''ERROR: '' else []) @ t)
       (vprintf msg args))"
proof -
  let ?s = "unat sys_ns div 1000000000" and ?ns = "unat sys_ns mod 1000000000"
  have n: "sint sys_ns = int (unat sys_ns)" by (rule sint_nonneg [OF assms(2)])
  have q: "sint sys_ns sdiv 1000000000 = int ?s" "sint sys_ns smod 1000000000 = int ?ns"
    unfolding n using sdiv_int_nat [of 1000000000 "unat sys_ns"] by simp_all
  have "sint sys_ns < 9223372036854775808" using sint_lt [of sys_ns] by simp
  then have "unat sys_ns < 9223372036854775808" unfolding n by linarith
  then have b: "?s < 10 ^ 10" "?ns < 10 ^ 9" by simp_all
  have pr: "printf k [] = Some (int (length k), k)" if "k = ''WARNING: '' \<or> k = ''ERROR: '' \<or> k = []" for k
    using that by (auto simp: printf_def vprintf_def Let_def)
  have u: "unat (4 :: u32) = 4" "unat (9 :: u32) = 9" by simp_all
  have "length (decimal ?ns) \<le> 9" using decimal_length [OF b(2)] by simp
  then have v: "vnumber False True (Some 9) (decimal ?ns) = padded CHR ''0'' 9 (decimal ?ns)"
    unfolding vnumber_width u by simp
  have "length (decimal ?s) \<le> 4 \<longleftrightarrow> unat sys_ns < 10000 * 1000000000"
    using decimal_length [of ?s 4] decimal_long [of 4 ?s] div_less_iff_less_mult [of 1000000000 "unat sys_ns" 10000]
    by (cases "?s < 10000") (simp_all add: not_less not_le)
  then have v1: "vnumber False False (Some 4) (decimal ?s) = (if unat sys_ns < 10000 * 1000000000 then padded CHR '' '' 4 (decimal ?s) else take 4 (decimal ?s))"
    unfolding vnumber_width u by simp
  have "\<not> level < log_level" using assms(1) by simp
  then show ?thesis
    unfolding klog_def kvlog_def q print_prefix [OF b assms(3)] v v1 Let_def
    by (simp add: pr split: option.splits)
qed

theorem log_line_witness:
  "klog 1 2 (Some ''x'') [] 12345678901234567 7 = Some ''[1234.901234567] (7) WARNING: x''"
proof -
  have v: "vprintf ''x'' [] = Some (1, ''x'')" by (simp add: vprintf_def Let_def)
  have d: "decimal 12345678 = ''12345678''" "decimal 901234567 = ''901234567''" "decimal 7 = ''7''"
    by (simp_all add: decimal_def number_digits_def digits_of.simps digit_char_def) code_simp+
  show ?thesis
    using log_line [of 1 2 "12345678901234567" 7 "''x''" "[]"] by (simp add: v d padded_def Let_def)
qed

end
