(* ===== verification/Elf.thy ===== *)
theory Elf imports MemMap begin

unbundle bit_operations_syntax

text \<open>
  Loading programs (\<open>kernel/elf.c\<close>): the headers of an ELF file, and the mappings that are made for its
  segments.

  \<open>rd f off n\<close> is what \<open>vfs_read_at\<close> and, in a fault, \<open>vfs_read\<close> return for the file: a
  negative error, or the bytes read, at most \<open>n\<close>.  \<open>junk\<close> is what a block of memory holds before it is
  written.  \<open>None\<close> is a panic, a read past a block, or the overflow of a signed number.
\<close>

section \<open>Headers\<close>

text \<open>A field of a packed structure, with the low byte first.\<close>

fun le_bytes :: "u8 list \<Rightarrow> nat" where
  "le_bytes [] = 0"
| "le_bytes (b # bs) = unat b + 256 * le_bytes bs"

definition elf_field :: "u8 list \<Rightarrow> nat \<Rightarrow> nat \<Rightarrow> nat" where
  "elf_field bs off n = le_bytes (take n (drop off bs))"

record elf_seg =
  p_type :: nat
  p_flags :: nat
  p_offset :: u64
  p_vaddr :: u64
  p_filesz :: u64
  p_memsz :: u64
  p_align :: u64

definition elf32_pheader :: "u8 list \<Rightarrow> nat \<Rightarrow> elf_seg" where
  "elf32_pheader tbl i =
     (let at = (\<lambda>off n. elf_field tbl (32 * i + off) n) in
      \<lparr>p_type = at 0 4, p_flags = at 24 4, p_offset = of_nat (at 4 4), p_vaddr = of_nat (at 8 4), p_filesz = of_nat (at 16 4),
       p_memsz = of_nat (at 20 4), p_align = of_nat (at 28 4)\<rparr>)"

definition elf64_pheader :: "u8 list \<Rightarrow> nat \<Rightarrow> elf_seg" where
  "elf64_pheader tbl i =
     (let at = (\<lambda>off n. elf_field tbl (56 * i + off) n) in
      \<lparr>p_type = at 0 4, p_flags = at 4 4, p_offset = of_nat (at 8 8), p_vaddr = of_nat (at 16 8), p_filesz = of_nat (at 32 8),
       p_memsz = of_nat (at 40 8), p_align = of_nat (at 48 8)\<rparr>)"

section \<open>Loading\<close>

definition seg_vma :: "nat \<Rightarrow> elf_seg \<Rightarrow> vm_desc" where
  "seg_vma f s =
     \<lparr>vm_start = page_down (p_vaddr s), vm_end = page_up (p_vaddr s + p_memsz s),
      vm_flags = (if bit (p_flags s) 2 then VM_READ else 0) OR (if bit (p_flags s) 1 then VM_WRITE else 0)
        OR (if bit (p_flags s) 0 then VM_EXEC else 0),
      vm_file = Some f, vm_pgoff = ucast (page_down (p_offset s) div 4096), vm_fsize = unat (ucast (p_filesz s) :: u32),
      seg_vaddr = p_vaddr s, seg_offset = p_offset s\<rparr>"

text \<open>
  The loop over the table; the i-th mapping is allocated if \<open>mem i\<close>.  The first part of the result says whether
  it got to the end.
\<close>

fun load_segs :: "(nat \<Rightarrow> bool) \<Rightarrow> nat \<Rightarrow> nat \<Rightarrow> elf_seg list \<Rightarrow> mm_info \<Rightarrow> (bool \<times> mm_info) option" where
  "load_segs mem f i [] m = Some (True, m)"
| "load_segs mem f i (s # ss) m =
     (if p_type s \<noteq> 1 then load_segs mem f (i + 1) ss m
      else if p_align s > 4096 then None
      else if \<not> mem i then Some (False, m)
      else load_segs mem f (i + 1) ss (vma_list_insert (seg_vma f s) m))"

text \<open>
  The table is read into a block of \<open>esz * num\<close> bytes, and then taken for an array of \<open>width\<close>-byte
  entries, whatever the size of an entry that the file states.
\<close>

definition load_table :: "(nat \<Rightarrow> u64 \<Rightarrow> nat \<Rightarrow> int + u8 list) \<Rightarrow> (nat \<Rightarrow> bool) \<Rightarrow> (nat \<Rightarrow> u8) \<Rightarrow> bool \<Rightarrow> nat \<Rightarrow> nat
    \<Rightarrow> (u8 list \<Rightarrow> nat \<Rightarrow> elf_seg) \<Rightarrow> nat \<Rightarrow> nat \<Rightarrow> u64 \<Rightarrow> u64 \<Rightarrow> mm_info \<Rightarrow> (u64 \<times> mm_info) option" where
  "load_table rd mem junk memt f width ph esz num off entry m =
     (if esz * num > 0x7FFFFFFF then None
      else if \<not> memt then Some (0, m)
      else (case rd f off (esz * num) of
              Inl _ \<Rightarrow> Some (0, m)
            | Inr bs \<Rightarrow>
                if bs = [] then Some (0, m)
                else if num * width > esz * num then None
                else (let tbl = bs @ map junk [length bs..<esz * num] in
                      map_option (\<lambda>(ok, m'). (if ok then entry else 0, m')) (load_segs mem f 0 (map (ph tbl) [0..<num]) m))))"

definition elf32_load :: "(nat \<Rightarrow> u64 \<Rightarrow> nat \<Rightarrow> int + u8 list) \<Rightarrow> (nat \<Rightarrow> bool) \<Rightarrow> (nat \<Rightarrow> u8) \<Rightarrow> bool \<Rightarrow> u8 list \<Rightarrow> nat \<Rightarrow> mm_info
    \<Rightarrow> (u64 \<times> mm_info) option" where
  "elf32_load rd mem junk memt hdr f m =
     (if elf_field hdr 18 2 \<noteq> 0x03 then Some (0, m)
      else load_table rd mem junk memt f 32 elf32_pheader (elf_field hdr 42 2) (elf_field hdr 44 2)
             (of_nat (elf_field hdr 28 4)) (of_nat (elf_field hdr 24 4)) m)"

definition elf64_load :: "(nat \<Rightarrow> u64 \<Rightarrow> nat \<Rightarrow> int + u8 list) \<Rightarrow> (nat \<Rightarrow> bool) \<Rightarrow> (nat \<Rightarrow> u8) \<Rightarrow> bool \<Rightarrow> u8 list \<Rightarrow> nat \<Rightarrow> mm_info
    \<Rightarrow> (u64 \<times> mm_info) option" where
  "elf64_load rd mem junk memt hdr f m =
     (if elf_field hdr 18 2 \<noteq> 0x3E then Some (0, m)
      else load_table rd mem junk memt f 56 elf64_pheader (elf_field hdr 54 2) (elf_field hdr 56 2)
             (of_nat (elf_field hdr 32 8)) (of_nat (elf_field hdr 24 8)) m)"

text \<open>The entry point, or 0, and the address space.\<close>

definition elf_load :: "(nat \<Rightarrow> u64 \<Rightarrow> nat \<Rightarrow> int + u8 list) \<Rightarrow> (nat \<Rightarrow> bool) \<Rightarrow> (nat \<Rightarrow> u8) \<Rightarrow> bool \<Rightarrow> nat \<Rightarrow> mm_info
    \<Rightarrow> (u64 \<times> mm_info) option" where
  "elf_load rd mem junk memt f m =
     (case rd f 0 64 of
        Inl _ \<Rightarrow> Some (0, m)
      | Inr hdr \<Rightarrow>
          if length hdr \<noteq> 64 then Some (0, m)
          else if elf_field hdr 0 4 \<noteq> 0x464c457f then Some (0, m)
          else if elf_field hdr 4 1 = 1 then elf32_load rd mem junk memt hdr f m
          else if elf_field hdr 4 1 = 2 then elf64_load rd mem junk memt hdr f m
          else Some (0, m))"

section \<open>A loaded program\<close>

text \<open>The table of the segments of a 64-bit file.\<close>

definition elf64_segs :: "u8 list \<Rightarrow> elf_seg list" where
  "elf64_segs img = map (elf64_pheader (drop (elf_field img 32 8) img)) [0..<elf_field img 56 2]"

text \<open>A segment that a linker makes: in user memory, and inside of the file.\<close>

definition seg_ok :: "u8 list \<Rightarrow> elf_seg \<Rightarrow> bool" where
  "seg_ok img s \<longleftrightarrow> p_align s \<le> 4096 \<and> p_memsz s \<noteq> 0 \<and> p_vaddr s \<le> p_vaddr s + p_memsz s \<and> p_vaddr s + p_memsz s \<le> USER_MAX_ADDR
     \<and> unat (p_offset s) + unat (p_filesz s) \<le> length img \<and> unat (p_filesz s) < 2 ^ 32"

lemma page_down_le: "page_down x \<le> x"
  by (simp add: word_le_nat_alt page_down_unat)

lemma seg_vma_not_empty:
  assumes "seg_ok img s"
  shows "vm_start (seg_vma f s) < vm_end (seg_vma f s)"
    "p_vaddr s \<le> a \<Longrightarrow> a < p_vaddr s + p_memsz s \<Longrightarrow> vma_has a (seg_vma f s)"
proof -
  have lt: "p_vaddr s < p_vaddr s + p_memsz s" using assms add_gt by (simp add: seg_ok_def)
  have up: "p_vaddr s + p_memsz s \<le> page_up (p_vaddr s + p_memsz s)" using assms page_up_ge by (simp add: seg_ok_def)
  show "vm_start (seg_vma f s) < vm_end (seg_vma f s)"
    using page_down_le [of "p_vaddr s"] lt up unfolding seg_vma_def vm_desc.simps by order
  show "vma_has a (seg_vma f s)" if "p_vaddr s \<le> a" "a < p_vaddr s + p_memsz s"
    unfolding vma_has_def seg_vma_def vm_desc.simps
  proof
    show "page_down (p_vaddr s) \<le> a" using page_down_le [of "p_vaddr s"] that(1) by order
    show "a < page_up (p_vaddr s + p_memsz s)" using up that(2) by order
  qed
qed

definition loads :: "elf_seg \<Rightarrow> bool" where
  "loads s \<longleftrightarrow> p_type s = 1"

lemma load_segs_ok:
  "mm_ok m \<Longrightarrow> \<forall>i. mem i \<Longrightarrow> \<forall>s \<in> set ss. loads s \<longrightarrow> seg_ok img s \<Longrightarrow>
   sorted_wrt (\<lambda>s t. no_overlap (seg_vma f s) (seg_vma f t)) (filter loads ss) \<Longrightarrow>
   \<forall>s \<in> set ss. loads s \<longrightarrow> (\<forall>w \<in> set (mmap_list m). no_overlap (seg_vma f s) w) \<Longrightarrow>
   \<exists>m'. load_segs mem f i ss m = Some (True, m') \<and> mm_ok m'
     \<and> set (mmap_list m') = set (mmap_list m) \<union> seg_vma f ` {s \<in> set ss. loads s}"
proof (induction ss arbitrary: i m)
  case (Cons s ss)
  show ?case
  proof (cases "loads s")
    case False
    then have f: "{t \<in> set (s # ss). loads t} = {t \<in> set ss. loads t}" "p_type s \<noteq> 1" by (auto simp: loads_def)
    have "sorted_wrt (\<lambda>s t. no_overlap (seg_vma f s) (seg_vma f t)) (filter loads ss)" using Cons.prems(4) False by simp
    then show ?thesis using Cons.IH [OF Cons.prems(1,2), of "i + 1"] Cons.prems(3,5) f(2) unfolding f(1) by simp
  next
    case True
    let ?v = "seg_vma f s" and ?m = "vma_list_insert (seg_vma f s) m"
    have ok: "seg_ok img s" "vm_start ?v < vm_end ?v" "\<forall>w \<in> set (mmap_list m). no_overlap ?v w"
      using Cons.prems True seg_vma_not_empty(1) by auto
    have vm: "vmas_ok (mmap_list m)" using Cons.prems(1) by (simp add: mm_ok_def)
    have m: "mm_ok ?m" by (rule mm_ok_insert [OF Cons.prems(1) ok(2,3)])
    have st: "set (mmap_list ?m) = insert ?v (set (mmap_list m))" by (rule vma_list_insert_ok(2) [OF vm ok(2,3)])
    have "no_overlap (seg_vma f t) ?v" if "t \<in> set ss" "loads t" for t
      using Cons.prems(4) True that by (auto simp: no_overlap_def)
    then have n: "\<forall>t \<in> set ss. loads t \<longrightarrow> (\<forall>w \<in> set (mmap_list ?m). no_overlap (seg_vma f t) w)"
      unfolding st using Cons.prems(5) by auto
    have srt: "sorted_wrt (\<lambda>s t. no_overlap (seg_vma f s) (seg_vma f t)) (filter loads ss)" using Cons.prems(4) True by simp
    from Cons.IH [OF m Cons.prems(2) _ srt n, of "i + 1"] Cons.prems(3) obtain m' where
      "load_segs mem f (i + 1) ss ?m = Some (True, m')" "mm_ok m'"
      "set (mmap_list m') = set (mmap_list ?m) \<union> seg_vma f ` {s \<in> set ss. loads s}" by auto
    moreover have "{t \<in> set (s # ss). loads t} = insert s {t \<in> set ss. loads t}" using True by auto
    moreover have "\<not> 4096 < p_align s" "p_type s = 1" "mem i" using ok(1) True Cons.prems(2) by (auto simp: seg_ok_def loads_def)
    ultimately show ?thesis unfolding st by (intro exI [of _ m']) auto
  qed
qed simp

lemma page_down_mono: "x \<le> y \<Longrightarrow> page_down x \<le> page_down y"
  by (simp add: word_le_nat_alt page_down_unat div_le_mono)

lemma elf_field_take: "off + n \<le> k \<Longrightarrow> elf_field (take k bs) off n = elf_field bs off n"
  by (simp add: elf_field_def drop_take min_def)

lemma le_bytes_less: "le_bytes bs < 256 ^ length bs"
proof (induction bs)
  case (Cons b bs)
  have "unat b < 256" using unsigned_less [of b] by simp
  then have "unat b + 256 * le_bytes bs < 256 * (le_bytes bs + 1)" by simp
  also have "\<dots> \<le> 256 * 256 ^ length bs" using Cons by (intro mult_le_mono2) simp
  finally show ?case by simp
qed simp

lemma elf_field_less: "elf_field bs off n < 256 ^ n"
proof -
  have "elf_field bs off n < 256 ^ length (take n (drop off bs))" unfolding elf_field_def by (rule le_bytes_less)
  also have "\<dots> \<le> 256 ^ n" by (rule power_increasing) auto
  finally show ?thesis .
qed

lemma elf64_pheader_take:
  assumes "i < n"
  shows "elf64_pheader (take (56 * n) tbl) i = elf64_pheader tbl i"
proof -
  have "56 * i + 56 \<le> 56 * n" using assms by simp
  then show ?thesis by (simp add: elf64_pheader_def Let_def elf_field_take)
qed

text \<open>A 64-bit program whose table is inside of the file.\<close>

definition elf64_file :: "u8 list \<Rightarrow> bool" where
  "elf64_file img \<longleftrightarrow> 64 \<le> length img \<and> elf_field img 0 4 = 0x464c457f \<and> elf_field img 4 1 = 2 \<and> elf_field img 18 2 = 0x3E
     \<and> elf_field img 54 2 = 56 \<and> 0 < elf_field img 56 2 \<and> elf_field img 32 8 + 56 * elf_field img 56 2 \<le> length img"

lemma elf_load_segs:
  assumes "elf64_file img" and "\<And>off n. rd f off n = Inr (take n (drop (unat off) img))"
  shows "elf_load rd mem junk True f m =
    map_option (\<lambda>(ok, m'). (if ok then of_nat (elf_field img 24 8) else 0, m')) (load_segs mem f 0 (elf64_segs img) m)"
proof -
  let ?num = "elf_field img 56 2" and ?off = "elf_field img 32 8"
  have h: "length (take 64 img) = 64" "elf_field (take 64 img) 0 4 = 0x464c457f" "elf_field (take 64 img) 4 1 = 2" "elf_field (take 64 img) 18 2 = 0x3E"
    "elf_field (take 64 img) 54 2 = 56" "elf_field (take 64 img) 56 2 = ?num" "elf_field (take 64 img) 32 8 = ?off"
    "elf_field (take 64 img) 24 8 = elf_field img 24 8"
    using assms(1) by (simp_all add: elf64_file_def elf_field_take)
  have "?off < 256 ^ 8" by (rule elf_field_less)
  then have o: "unat (of_nat ?off :: u64) = ?off" by (simp add: unsigned_of_nat take_bit_eq_mod)
  have n: "?num < 256 ^ 2" "0 < ?num" "?off + 56 * ?num \<le> length img" using assms(1) elf_field_less [of img 56 2] by (simp_all add: elf64_file_def)
  have lt: "\<not> 56 * ?num > 0x7FFFFFFF" using n(1) by simp
  let ?tbl = "take (56 * ?num) (drop ?off img)"
  have l: "length ?tbl = 56 * ?num" using n(3) by simp
  have ne: "?tbl \<noteq> []" using l n(2) by auto
  have r: "rd f 0 64 = Inr (take 64 img)" "rd f (of_nat ?off) (56 * ?num) = Inr ?tbl" using assms(2) o by simp_all
  have e: "?tbl @ map junk [length ?tbl..<56 * ?num] = ?tbl" unfolding l by simp
  have t: "map (elf64_pheader ?tbl) [0..<?num] = elf64_segs img"
    unfolding elf64_segs_def by (rule map_cong) (simp_all add: elf64_pheader_take)
  have c: "((2 :: nat) = 1) = False" "((56 * ?num) > 0x7FFFFFFF) = False" "(?num * 56 > 56 * ?num) = False" "(?tbl = []) = False" using lt ne by simp_all
  show ?thesis
    unfolding elf_load_def r(1) sum.case h elf64_load_def load_table_def Let_def r(2) e t c
    by (simp only: c not_True_eq_False refl if_False if_True simp_thms)
qed

text \<open>
  C31. What a 64-bit program finds in its memory after it was loaded, if the segments in its table are as a linker
  makes them and share no page: the mappings stay free of overlaps, and a fault at any address of any segment
  brings in the byte of the file that belongs there, or a zero behind the part that the file holds.  The
  write flag that the fault hands to \<open>map_page\<close> is that of the segment; the page in the tables is writable all the same (see \<open>Paging\<close>).
\<close>

theorem loaded_program_memory:
  assumes "elf64_file img" and "\<And>off n. rd f off n = Inr (take n (drop (unat off) img))" and "length img < 2 ^ 64"
    and "mm_ok m" and "\<forall>i. mem i" and "\<forall>s \<in> set (elf64_segs img). loads s \<longrightarrow> seg_ok img s"
    and "sorted_wrt (\<lambda>s t. no_overlap (seg_vma f s) (seg_vma f t)) (filter loads (elf64_segs img))"
    and "\<forall>s \<in> set (elf64_segs img). loads s \<longrightarrow> (\<forall>w \<in> set (mmap_list m). no_overlap (seg_vma f s) w)"
    and "s \<in> set (elf64_segs img)" and "loads s" and "p_vaddr s \<le> a" and "a < p_vaddr s + p_memsz s"
  shows "\<exists>m' v page. elf_load rd mem junk True f m = Some (of_nat (elf_field img 24 8), m') \<and> mm_ok m'
    \<and> find_vma (mmap_list m') a = Some v \<and> mm_fault junk' rd v a 4 = Some (FAULT_SUCCESS, Some (page, bit (p_flags s) 1))
    \<and> page ! (unat a mod 4096) =
        (let k = unat a - unat (p_vaddr s) in if k < unat (p_filesz s) then img ! (unat (p_offset s) + k) else 0)"
proof -
  have ok: "seg_ok img s" using assms(6,9,10) by blast
  from load_segs_ok [OF assms(4,5,6,7,8), of 0] obtain m' where m': "load_segs mem f 0 (elf64_segs img) m = Some (True, m')" "mm_ok m'"
    "set (mmap_list m') = set (mmap_list m) \<union> seg_vma f ` {s \<in> set (elf64_segs img). loads s}" by blast
  let ?v = "seg_vma f s"
  have "?v \<in> set (mmap_list m')" using m'(3) assms(9,10) by blast
  then have fv: "find_vma (mmap_list m') a = Some ?v"
    using find_vma_unique [OF _ _ seg_vma_not_empty(2) [OF ok assms(11,12)]] m'(2) by (simp add: mm_ok_def)
  have fs: "unat (ucast (p_filesz s) :: u32) = unat (p_filesz s)" using ok by (simp add: seg_ok_def unsigned_ucast_eq take_bit_eq_mod)
  have v: "vm_file ?v = Some f" "check_access ?v 4" "vm_fsize ?v = unat (p_filesz s)" "seg_vaddr ?v = p_vaddr s" "seg_offset ?v = p_offset s"
    by (simp_all add: seg_vma_def check_access_def fs)
  have w: "(vm_flags ?v AND 2 \<noteq> 0) = bit (p_flags s) 1"
    by (cases "bit (p_flags s) 2"; cases "bit (p_flags s) 1"; cases "bit (p_flags s) 0") (simp_all add: seg_vma_def)
  have bnd: "unat (seg_offset ?v) + vm_fsize ?v \<le> length img" "vm_fsize ?v < 2 ^ 32" using ok unfolding v by (simp_all add: seg_ok_def)
  have pd: "page_down (seg_vaddr ?v) \<le> page_down a" unfolding v by (rule page_down_mono [OF assms(11)])
  have "(4 :: u32) AND 8 = 0" by simp
  from file_fault_page [where f = f and content = img and rd = rd and junk = junk', OF v(1,2) this assms(2) bnd(1) assms(3) bnd(2) pd]
  obtain page where pg: "mm_fault junk' rd ?v a 4 = Some (FAULT_SUCCESS, Some (page, vm_flags ?v AND 2 \<noteq> 0))"
    and b: "\<forall>k < 4096. page ! k = (let b = unat (page_down a) + k in
        if unat (seg_vaddr ?v) \<le> b \<and> b < unat (seg_vaddr ?v) + vm_fsize ?v then img ! (unat (seg_offset ?v) + (b - unat (seg_vaddr ?v))) else 0)"
    by blast
  have a: "unat (page_down a) + unat a mod 4096 = unat a" unfolding page_down_unat by (rule div_mult_mod_eq)
  have ge: "unat (p_vaddr s) \<le> unat a" using assms(11) by (simp add: word_le_nat_alt)
  have "unat a < unat (p_vaddr s) + unat (p_filesz s) \<longleftrightarrow> unat a - unat (p_vaddr s) < unat (p_filesz s)" using ge by linarith
  then have "page ! (unat a mod 4096) = (let k = unat a - unat (p_vaddr s) in if k < unat (p_filesz s) then img ! (unat (p_offset s) + k) else 0)"
    using b [rule_format, of "unat a mod 4096"] ge unfolding a v Let_def by simp
  moreover have "elf_load rd mem junk True f m = Some (of_nat (elf_field img 24 8), m')"
    unfolding elf_load_segs [where rd = rd and f = f, OF assms(1,2)] m'(1) by simp
  ultimately show ?thesis using m'(2) fv pg unfolding w by blast
qed

text \<open>A program of one segment with three bytes.\<close>

definition tiny_elf :: "u8 list" where
  "tiny_elf = [0x7f, 0x45, 0x4c, 0x46, 2, 1, 1, 0, 0, 0, 0, 0, 0, 0, 0, 0,
     2, 0, 0x3e, 0, 1, 0, 0, 0, 0x78, 0, 0x40, 0, 0, 0, 0, 0, 64, 0, 0, 0, 0, 0, 0, 0,
     0, 0, 0, 0, 0, 0, 0, 0, 0, 0, 0, 0, 64, 0, 56, 0, 1, 0, 0, 0, 0, 0, 0, 0,
     1, 0, 0, 0, 5, 0, 0, 0, 0x78, 0, 0, 0, 0, 0, 0, 0, 0x78, 0, 0x40, 0, 0, 0, 0, 0,
     0, 0, 0, 0, 0, 0, 0, 0, 3, 0, 0, 0, 0, 0, 0, 0, 8, 0, 0, 0, 0, 0, 0, 0, 0, 0x10, 0, 0, 0, 0, 0, 0,
     0x0f, 0x0b, 0x90]"

definition no_mappings :: mm_info where
  "no_mappings = one_mapping\<lparr>mmap_list := [], total_vm := 0\<rparr>"

theorem loaded_program_memory_witness:
  "\<exists>m' v page. elf_load (\<lambda>f off n. Inr (take n (drop (unat off) tiny_elf))) (\<lambda>_. True) (\<lambda>_. 7) True 3 no_mappings = Some (0x400078, m')
     \<and> find_vma (mmap_list m') 0x400079 = Some v
     \<and> mm_fault (\<lambda>_. 9) (\<lambda>f off n. Inr (take n (drop (unat off) tiny_elf))) v 0x400079 4 = Some (FAULT_SUCCESS, Some (page, False))
     \<and> page ! 0x79 = 0x0b"
proof -
  let ?s = "\<lparr>p_type = 1, p_flags = 5, p_offset = 0x78, p_vaddr = 0x400078, p_filesz = 3, p_memsz = 8, p_align = 0x1000\<rparr>"
  have e: "elf_field tiny_elf 24 8 = 0x400078" "elf_field tiny_elf 32 8 = 64" "elf_field tiny_elf 56 2 = 1"
    by (simp_all add: elf_field_def tiny_elf_def)
  have f: "elf64_file tiny_elf"
    unfolding elf64_file_def e by (simp add: elf_field_def tiny_elf_def)
  have s: "elf64_segs tiny_elf = [?s]"
    unfolding elf64_segs_def e by (simp add: elf64_pheader_def elf_field_def tiny_elf_def)
  have ok: "seg_ok tiny_elf ?s" by (simp add: seg_ok_def tiny_elf_def)
  have m: "mm_ok no_mappings" by (simp add: mm_ok_def no_mappings_def vmas_ok_def)
  have l: "length tiny_elf = 123" by (simp add: tiny_elf_def)
  have b: "tiny_elf ! 121 = 0x0b" by (simp add: tiny_elf_def)
  show ?thesis
    using loaded_program_memory [OF f, where s = ?s and a = "0x400079" and rd = "\<lambda>f off n. Inr (take n (drop (unat off) tiny_elf))" and f = 3
      and m = no_mappings and mem = "\<lambda>_. True" and junk = "\<lambda>_. 7" and junk' = "\<lambda>_. 9"] m ok l e b
    by (simp add: s loads_def no_mappings_def) blast
qed

end
