(* ===== verification/Keyboard.thy ===== *)
theory Keyboard imports Format begin

unbundle bit_operations_syntax

text \<open>
  The keyboard (\<open>drivers/keyboard.c\<close>): from scan codes to what the terminal receives, and the queue of
  scan codes of the raw mode.

  Scan codes are bytes from the port.  What is sent to the terminal is a list of characters.
\<close>

section \<open>Tables\<close>

definition keyboard_map :: "nat list" where
  "keyboard_map = [
    0, 27, 49, 50, 51, 52, 53, 54, 55, 56, 57, 48, 45, 61, 8, 9, 113, 119, 101, 114, 116, 121, 117, 105,
     111, 112, 91, 93, 10, 0, 97, 115, 100, 102, 103, 104, 106, 107, 108, 59, 39, 96, 0, 92, 122, 120,
     99, 118, 98, 110, 109, 44, 46, 47, 0, 42, 0, 32, 0, 257, 258, 259, 260, 261, 262, 263, 264, 265,
     266, 0, 0, 267, 269, 268, 45, 270, 0, 271, 43, 273, 272, 274, 275, 276, 0, 0, 0, 277, 278, 0] @ replicate 38 0"

definition keyboard_map_shift :: "nat list" where
  "keyboard_map_shift = [
    0, 27, 33, 64, 35, 36, 37, 94, 38, 42, 40, 41, 95, 43, 8, 9, 81, 87, 69, 82, 84, 89, 85, 73, 79, 80,
     123, 125, 10, 0, 65, 83, 68, 70, 71, 72, 74, 75, 76, 58, 34, 126, 0, 124, 90, 88, 67, 86, 66, 78,
     77, 60, 62, 63, 0, 42, 0, 32, 0, 0, 0, 0, 0, 0, 0, 0, 0, 0, 0, 0, 0, 0, 0, 0, 95, 0, 0, 0, 43, 0,
     0, 0, 0, 0, 0, 0, 0, 0, 0, 0] @ replicate 38 0"

text \<open>The codes of the special keys, and what they send after an escape.\<close>

definition vt_keys :: "(nat \<times> string) list" where
  "vt_keys = [(257, ''OP''), (258, ''OQ''), (259, ''OR''), (260, ''OS''), (261, ''[16~''), (262, ''[17~''),
     (263, ''[18~''), (264, ''[19~''), (265, ''[20~''), (266, ''[21~''), (277, ''[23~''), (278, ''[24~''),
     (267, ''[1~''), (268, ''[5~''), (269, ''[A''), (270, ''[D''), (271, ''[C''), (272, ''[B''),
     (273, ''[4~''), (274, ''[6~''), (275, ''[2~''), (276, ''[3~'')]"

section \<open>Codes and keys\<close>

abbreviation KB_RAW :: int where "KB_RAW \<equiv> 0"
abbreviation KB_STD :: int where "KB_STD \<equiv> 1"
abbreviation SHIFT_PRESSED :: nat where "SHIFT_PRESSED \<equiv> 0x2A"
abbreviation CTRL_PRESSED :: nat where "CTRL_PRESSED \<equiv> 0x1D"
abbreviation ALT_PRESSED :: nat where "ALT_PRESSED \<equiv> 0x38"
abbreviation CAPS_LOCK :: nat where "CAPS_LOCK \<equiv> 0x3A"

record kbd =
  kb_mode :: int
  key_status :: "bool list"
  sc_queue :: "nat list"
  sc_start :: nat
  sc_end :: nat

definition kbd_boot :: kbd where
  "kbd_boot = \<lparr>kb_mode = KB_STD, key_status = replicate 256 False, sc_queue = replicate 32 0, sc_start = 0, sc_end = 0\<rparr>"

definition kbd_send :: "nat \<Rightarrow> string option" where
  "kbd_send keycode =
     (if keycode < 0x100 then Some [char_of keycode]
      else (case map_of vt_keys keycode of
              None \<Rightarrow> Some []
            | Some s \<Rightarrow> map_option (\<lambda>(buf, len). take (nat len) buf) (snprintf 8 (char_of (27 :: nat) # ''%s'') [VStr (Some s)])))"

definition scancode_add :: "nat \<Rightarrow> kbd \<Rightarrow> kbd" where
  "scancode_add sc k = k\<lparr>sc_queue := (sc_queue k)[sc_end k := sc], sc_end := (sc_end k + 1) mod 32\<rparr>"

definition scancode_pop :: "kbd \<Rightarrow> (nat \<times> kbd) option" where
  "scancode_pop k =
     (if sc_start k = sc_end k then None
      else Some (sc_queue k ! sc_start k, k\<lparr>sc_start := (sc_start k + 1) mod 32\<rparr>))"

definition set_key :: "nat \<Rightarrow> bool \<Rightarrow> kbd \<Rightarrow> kbd" where
  "set_key i b k = k\<lparr>key_status := (key_status k)[i := b]\<rparr>"

text \<open>The character or key code of a press, 0 if there is none.\<close>

definition key_code :: "nat \<Rightarrow> kbd \<Rightarrow> nat" where
  "key_code sc k =
     (if sc < 128 \<and> keyboard_map ! sc \<noteq> 0
      then (let c = (if key_status k ! SHIFT_PRESSED \<or> key_status k ! CAPS_LOCK then keyboard_map_shift ! sc else keyboard_map ! sc);
                c1 = (if key_status k ! CTRL_PRESSED then c AND 0x1f else c) in
            if key_status k ! ALT_PRESSED then c1 OR 0x80 else c1)
      else 0)"

definition kb_code :: "u8 \<Rightarrow> kbd \<Rightarrow> (string \<times> kbd) option" where
  "kb_code scancode k =
     (let sc = unat scancode in
      if kb_mode k = KB_RAW then Some ([], scancode_add sc k)
      else if sc = SHIFT_PRESSED then Some ([], set_key SHIFT_PRESSED True k)
      else if sc = 0xAA then Some ([], set_key SHIFT_PRESSED False k)
      else if sc = CTRL_PRESSED then Some ([], set_key CTRL_PRESSED True k)
      else if sc = 0x9D then Some ([], set_key CTRL_PRESSED False k)
      else if sc = ALT_PRESSED then Some ([], set_key ALT_PRESSED True k)
      else if sc = 0xB8 then Some ([], set_key ALT_PRESSED False k)
      else if sc = CAPS_LOCK then Some ([], set_key CAPS_LOCK (\<not> key_status k ! CAPS_LOCK) k)
      else (let c = key_code sc k in if c = 0 then Some ([], k) else map_option (\<lambda>s. (s, k)) (kbd_send c)))"

definition kb_set_mode :: "int \<Rightarrow> kbd \<Rightarrow> int \<times> kbd" where
  "kb_set_mode mode k = (if mode < KB_RAW \<or> mode > KB_STD then (- EINVAL, k) else (0, k\<lparr>kb_mode := mode\<rparr>))"

fun kb_read_raw :: "nat \<Rightarrow> kbd \<Rightarrow> u8 list \<times> kbd" where
  "kb_read_raw 0 k = ([], k)"
| "kb_read_raw (Suc n) k =
     (case scancode_pop k of
        None \<Rightarrow> ([], k)
      | Some (sc, k1) \<Rightarrow> (case kb_read_raw n k1 of (bs, k2) \<Rightarrow> (of_nat sc # bs, k2)))"

definition kb_ioctl :: "nat \<Rightarrow> int \<Rightarrow> kbd \<Rightarrow> int \<times> kbd" where
  "kb_ioctl op argp k =
     (if op = 0x4B01 then (kb_mode k, k) else if op = 0x4B02 then kb_set_mode argp k else (- EINVAL, k))"

section \<open>The raw queue\<close>

text \<open>What the raw mode promises: codes are read in the order in which they came, until 32 of them wait.\<close>

datatype kbd_event = Scan u8 | ReadRaw nat

fun kbd_run :: "kbd_event list \<Rightarrow> kbd \<Rightarrow> (u8 list list \<times> kbd) option" where
  "kbd_run [] k = Some ([], k)"
| "kbd_run (Scan c # es) k = (case kb_code c k of None \<Rightarrow> None | Some (_, k1) \<Rightarrow> kbd_run es k1)"
| "kbd_run (ReadRaw n # es) k =
     (case kb_read_raw n k of (bs, k1) \<Rightarrow> map_option (\<lambda>(rs, k2). (bs # rs, k2)) (kbd_run es k1))"

fun lossy_fifo :: "kbd_event list \<Rightarrow> u8 list \<Rightarrow> u8 list list \<times> u8 list" where
  "lossy_fifo [] q = ([], q)"
| "lossy_fifo (Scan c # es) q = lossy_fifo es (if length q = 31 then [] else q @ [c])"
| "lossy_fifo (ReadRaw n # es) q = (case lossy_fifo es (drop n q) of (rs, q') \<Rightarrow> (take n q # rs, q'))"

definition kbd_ok :: "kbd \<Rightarrow> bool" where
  "kbd_ok k \<longleftrightarrow> length (sc_queue k) = 32 \<and> sc_start k < 32 \<and> sc_end k < 32"

definition waiting_codes :: "kbd \<Rightarrow> nat" where
  "waiting_codes k = (sc_end k + 32 - sc_start k) mod 32"

definition raw_queue :: "kbd \<Rightarrow> u8 list" where
  "raw_queue k = map of_nat (ring_slice (sc_queue k) (sc_start k) (waiting_codes k))"

lemma waiting_codes_cases:
  assumes "kbd_ok k"
  obtains "sc_start k \<le> sc_end k" "waiting_codes k = sc_end k - sc_start k" | "sc_end k < sc_start k" "waiting_codes k = sc_end k + 32 - sc_start k"
proof (cases "sc_start k \<le> sc_end k")
  case True
  have "sc_end k + 32 - sc_start k = (sc_end k - sc_start k) + 32" using True by simp
  moreover have "sc_end k - sc_start k < 32" using assms unfolding kbd_ok_def by linarith
  ultimately have "waiting_codes k = sc_end k - sc_start k" unfolding waiting_codes_def by (simp only: mod_add_self2 mod_less)
  then show ?thesis using True that(1) by blast
next
  case False
  then have "sc_end k + 32 - sc_start k < 32" by linarith
  then have "waiting_codes k = sc_end k + 32 - sc_start k" unfolding waiting_codes_def by (rule mod_less)
  then show ?thesis using False that(2) by simp
qed

lemma waiting_codes_end:
  assumes "kbd_ok k"
  shows "(sc_start k + waiting_codes k) mod 32 = sc_end k \<and> waiting_codes k < 32"
proof (rule waiting_codes_cases [OF assms])
  have b: "sc_start k < 32" "sc_end k < 32" using assms by (simp_all add: kbd_ok_def)
  show ?thesis if "sc_start k \<le> sc_end k" "waiting_codes k = sc_end k - sc_start k"
    unfolding that(2) using that(1) b by simp
  show ?thesis if "sc_end k < sc_start k" "waiting_codes k = sc_end k + 32 - sc_start k"
  proof -
    have "sc_start k + (sc_end k + 32 - sc_start k) = sc_end k + 32" using b by linarith
    then show ?thesis unfolding that(2) using that(1) b by simp
  qed
qed

lemma scancode_add_queue:
  assumes "kbd_ok k"
  shows "kbd_ok (scancode_add (unat c) k)"
    "raw_queue (scancode_add (unat c) k) = (if length (raw_queue k) = 31 then [] else raw_queue k @ [c])"
proof -
  let ?k = "scancode_add (unat c) k"
  show "kbd_ok ?k" using assms by (simp add: kbd_ok_def scancode_add_def)
  have l: "length (sc_queue k) = 32" and e: "(sc_start k + waiting_codes k) mod 32 = sc_end k" "waiting_codes k < 32" "sc_start k < 32"
    using assms waiting_codes_end [OF assms] by (simp_all add: kbd_ok_def)
  have s: "sc_start ?k = sc_start k" "sc_end ?k = (sc_end k + 1) mod 32" "sc_queue ?k = (sc_queue k)[(sc_start k + waiting_codes k) mod length (sc_queue k) := unat c]"
    by (simp_all add: scancode_add_def l e)
  have w: "waiting_codes ?k = (if waiting_codes k = 31 then 0 else waiting_codes k + 1)"
    by (rule waiting_codes_cases [OF assms]; rule waiting_codes_cases [OF \<open>kbd_ok ?k\<close>]) (use assms in \<open>auto simp: s(1,2) kbd_ok_def mod_Suc split: if_splits\<close>)
  have out: "ring_slice (sc_queue ?k) (sc_start k) (waiting_codes k) = ring_slice (sc_queue k) (sc_start k) (waiting_codes k)"
    unfolding s(3) by (rule ring_slice_update_outside) (use l e in simp_all)
  have last: "sc_queue ?k ! ((sc_start k + waiting_codes k) mod length (sc_queue ?k)) = unat c"
    unfolding s(3) using l by simp
  show "raw_queue ?k = (if length (raw_queue k) = 31 then [] else raw_queue k @ [c])"
    unfolding raw_queue_def w s(1) using out last by (simp add: ring_slice_Suc)
qed

lemma kb_read_raw_queue:
  "kbd_ok k \<Longrightarrow> kb_read_raw n k = (bs, k') \<Longrightarrow>
   kbd_ok k' \<and> kb_mode k' = kb_mode k \<and> bs = take n (raw_queue k) \<and> raw_queue k' = drop n (raw_queue k)"
proof (induction n k arbitrary: bs k' rule: kb_read_raw.induct)
  case (2 n k)
  show ?case
  proof (cases "sc_start k = sc_end k")
    case True
    then have "raw_queue k = []" by (simp add: raw_queue_def waiting_codes_def)
    then show ?thesis using 2 True by (auto simp: scancode_pop_def)
  next
    case False
    let ?k = "k\<lparr>sc_start := (sc_start k + 1) mod 32\<rparr>"
    have ok: "kbd_ok ?k" using 2(2) by (simp add: kbd_ok_def)
    have pop: "scancode_pop k = Some (sc_queue k ! sc_start k, ?k)" using False by (simp add: scancode_pop_def)
    obtain bs1 k1 where r: "kb_read_raw n ?k = (bs1, k1)" by fastforce
    have l: "length (sc_queue k) = 32" "sc_start k < 32" using 2(2) by (simp_all add: kbd_ok_def)
    have w: "0 < waiting_codes k" "waiting_codes ?k = waiting_codes k - 1"
      by (rule waiting_codes_cases [OF 2(2)]; rule waiting_codes_cases [OF ok]; use 2(2) False in \<open>auto simp: kbd_ok_def mod_Suc split: if_splits\<close>)+
    have "ring_slice (sc_queue k) (sc_start k) (waiting_codes k) =
      sc_queue k ! sc_start k # ring_slice (sc_queue k) (Suc (sc_start k) mod length (sc_queue k)) (waiting_codes k - 1)"
      unfolding ring_slice_mod using ring_slice_Cons [OF w(1), of "sc_queue k" "sc_start k"] l by simp
    then have q: "raw_queue k = of_nat (sc_queue k ! sc_start k) # raw_queue ?k"
      using w(2) l by (simp add: raw_queue_def)
    from 2(1) [OF pop refl ok r] show ?thesis using 2(3) pop r by (auto simp: q)
  qed
qed simp

text \<open>
  C32. In the raw mode any sequence of scan codes and reads behaves as a queue: the reads return the codes in
  the order in which they came.  With one exception: the code that would be the 32nd in the queue empties it, and
  all of them are lost.
\<close>

theorem raw_codes_are_queued:
  assumes "kbd_ok k" and "kb_mode k = KB_RAW"
  shows "\<exists>k'. kbd_run es k = Some (fst (lossy_fifo es (raw_queue k)), k') \<and> raw_queue k' = snd (lossy_fifo es (raw_queue k))"
  using assms
proof (induction es arbitrary: k)
  case (Cons e es)
  show ?case
  proof (cases e)
    case (Scan c)
    let ?k = "scancode_add (unat c) k"
    have "kb_mode ?k = KB_RAW" using Cons.prems(2) by (simp add: scancode_add_def)
    from Cons.IH [OF scancode_add_queue(1) [OF Cons.prems(1)] this] show ?thesis
      using Cons.prems(2) scancode_add_queue(2) [OF Cons.prems(1), of c] by (simp add: Scan kb_code_def Let_def)
  next
    case (ReadRaw n)
    obtain bs k1 where r: "kb_read_raw n k = (bs, k1)" by fastforce
    note R = kb_read_raw_queue [OF Cons.prems(1) r]
    from Cons.IH [of k1] R Cons.prems(2) show ?thesis
      by (auto simp: ReadRaw r split: prod.splits)
  qed
qed simp

theorem raw_codes_are_queued_witness:
  "\<exists>k'. kbd_run [Scan 30, Scan 158, ReadRaw 1, ReadRaw 5] (kbd_boot\<lparr>kb_mode := 0\<rparr>) = Some ([[30], [158]], k')"
proof -
  have q: "raw_queue (kbd_boot\<lparr>kb_mode := 0\<rparr>) = []" by (simp add: raw_queue_def waiting_codes_def kbd_boot_def)
  show ?thesis
    using raw_codes_are_queued [of "kbd_boot\<lparr>kb_mode := 0\<rparr>" "[Scan 30, Scan 158, ReadRaw 1, ReadRaw 5]"]
    unfolding q by (auto simp: kbd_ok_def kbd_boot_def)
qed

section \<open>Special keys\<close>

text \<open>Every special key sends its whole sequence.\<close>

lemma special_keys_send: "(c, s) \<in> set vt_keys \<Longrightarrow> kbd_send c = Some (char_of (27 :: nat) # s)"
proof -
  have "list_all (\<lambda>(c, s). kbd_send c = Some (char_of (27 :: nat) # s)) vt_keys" by code_simp
  then show "(c, s) \<in> set vt_keys \<Longrightarrow> ?thesis" by (auto simp: list_all_iff)
qed

end
