(* ===== verification/Terminal.thy ===== *)
theory Terminal imports LineDisc Process Keyboard begin

unbundle bit_operations_syntax

text \<open>
  The terminal devices (\<open>drivers/tty/core.c\<close>): the keyboard and the serial line feed the active terminal,
  tasks open, read, write and control terminals, and the foreground group decides who may read and who gets the
  signals of the special characters.

  The state joins the processes (\<open>Process\<close>), the keyboard (\<open>Keyboard\<close>) and the eight terminals (\<open>LineDisc\<close>)
  with their reference counts, and the controlling terminal of each task.  The signals that the line discipline asks
  for are sent to their groups; the bytes it writes to the screen and the wake-ups of its readers stay in the list
  \<open>out\<close> of the terminal.
\<close>

section \<open>State\<close>

abbreviation SIGTSTP :: int where "SIGTSTP \<equiv> 20"
abbreviation SIGTTIN :: int where "SIGTTIN \<equiv> 21"
abbreviation SIGTTOU :: int where "SIGTTOU \<equiv> 22"
abbreviation ERESTART :: int where "ERESTART \<equiv> 85"
abbreviation TOSTOP :: u32 where "TOSTOP \<equiv> 0x100"
abbreviation NUM_STATIC_TTYS :: nat where "NUM_STATIC_TTYS \<equiv> 8"

record terminals =
  tsys :: ksys
  tkbd :: kbd
  ttys :: "tty list"
  refcount :: "u32 list"
  active :: nat
  ctty :: "tid \<Rightarrow> nat option"

abbreviation the_tty :: "terminals \<Rightarrow> nat \<Rightarrow> tty" where
  "the_tty T i \<equiv> ttys T ! i"

abbreviation set_tty :: "nat \<Rightarrow> tty \<Rightarrow> terminals \<Rightarrow> terminals" where
  "set_tty i t T \<equiv> T\<lparr>ttys := (ttys T)[i := t]\<rparr>"

definition default_termios :: termios where
  "default_termios = \<lparr>c_iflag = IXON OR ICRNL OR 2 OR IGNPAR, c_oflag = ONLCR, c_cflag = 0x0F OR 0x30 OR 0x80 OR 0x400 OR 0x800,
     c_lflag = ISIG OR ICANON OR ECHO OR ECHOE OR ECHOK OR ECHONL OR ECHOCTL OR 0x8000,
     c_cc = [3, 28, 8, 21, 4, 0, 0, 0, 17, 19, 26] @ replicate 8 0, c_ispeed = 15, c_ospeed = 15\<rparr>"

definition tty_boot :: tty where
  "tty_boot = \<lparr>ibuf = replicate 1024 0, rpos = 0, wpos = 0, epos = 0, line_start = 0, vmin_cnt = 0, line_ready = False,
     at_eof = False, termios = default_termios, ctl_pgrp = 0, ctl_session = 0, ctl_stopped = False, column = 0, out = []\<rparr>"

section \<open>Input\<close>

fun send_signals :: "tty_event list \<Rightarrow> ksys \<Rightarrow> ksys option" where
  "send_signals [] k = Some k"
| "send_signals (TKill pg sig # es) k =
     (case kill_pgrp (pgid_table k) pg sig (sch k) of None \<Rightarrow> None | Some (_, s) \<Rightarrow> send_signals es (k\<lparr>sch := s\<rparr>))"
| "send_signals (_ # es) k = send_signals es k"

definition tty_recv_buf :: "u8 list \<Rightarrow> terminals \<Rightarrow> terminals option" where
  "tty_recv_buf bs T =
     (let t = the_tty T (active T); t1 = default_tty_receive_buf bs t in
      map_option (\<lambda>k. set_tty (active T) t1 (T\<lparr>tsys := k\<rparr>)) (send_signals (drop (length (out t)) (out t1)) (tsys T)))"

definition tty_recv_char :: "u8 \<Rightarrow> terminals \<Rightarrow> terminals option" where
  "tty_recv_char c T = tty_recv_buf [c] T"

definition keyboard_int :: "u8 \<Rightarrow> terminals \<Rightarrow> terminals option" where
  "keyboard_int sc T =
     (case kb_code sc (tkbd T) of
        None \<Rightarrow> None
      | Some (s, kb) \<Rightarrow> tty_recv_buf (map of_char s) (T\<lparr>tkbd := kb\<rparr>))"

text \<open>The serial interrupt: \<open>line\<close> is what the line holds.\<close>

fun serial_int :: "u8 list \<Rightarrow> terminals \<Rightarrow> terminals option" where
  "serial_int [] T = Some T"
| "serial_int (c # line) T = (case tty_recv_char c T of None \<Rightarrow> None | Some T1 \<Rightarrow> serial_int line T1)"

section \<open>Opening and closing\<close>

text \<open>
  The number of the terminal is read from the last character of its name by \<open>atoi\<close>, which goes on to read what
  follows that character on the stack, \<open>stack\<close>.  \<open>mem\<close>: whether the private data can be allocated.
  The result of a successful call is the terminal that the file refers to.
\<close>

definition tty_of_name :: "tid \<Rightarrow> string \<Rightarrow> string \<Rightarrow> terminals \<Rightarrow> nat option option" where
  "tty_of_name cur name stack T =
     (if name = ''tty'' then Some (ctty T cur)
      else map_option (\<lambda>i. if i \<ge> int NUM_STATIC_TTYS \<or> i < 0 then None else Some (nat i)) (atoi (last name # stack)))"

definition tty_get :: "nat \<Rightarrow> terminals \<Rightarrow> terminals" where
  "tty_get i T = T\<lparr>refcount := (refcount T)[i := refcount T ! i + 1]\<rparr>"

definition tty_put :: "nat \<Rightarrow> terminals \<Rightarrow> terminals" where
  "tty_put i T = T\<lparr>refcount := (refcount T)[i := refcount T ! i - 1]\<rparr>"

definition tty_open :: "tid \<Rightarrow> string \<Rightarrow> string \<Rightarrow> bool \<Rightarrow> terminals \<Rightarrow> (int \<times> nat option \<times> terminals) option" where
  "tty_open cur name stack mem T =
     (case tty_of_name cur name stack T of
        None \<Rightarrow> None
      | Some None \<Rightarrow> Some (- ENXIO, None, T)
      | Some (Some i) \<Rightarrow>
          (let T1 = tty_get i T;
               T2 = (if refcount T1 ! i = 1
                     then set_tty i ((the_tty T1 i)\<lparr>ctl_session := sid (tsk (tsys T) cur), ctl_pgrp := pgid (tsk (tsys T) cur)\<rparr>)
                            (T1\<lparr>ctty := (ctty T1)(cur := Some i)\<rparr>)
                     else T1) in
           if mem then Some (0, Some i, T2) else Some (- ENOMEM, None, T2)))"

definition tty_release :: "nat \<Rightarrow> terminals \<Rightarrow> int \<times> terminals" where
  "tty_release i T = (0, tty_put i T)"

text \<open>A new session has no controlling terminal, and a child has that of its parent.\<close>

definition setsid_ctty :: "tid \<Rightarrow> terminals \<Rightarrow> int \<times> terminals" where
  "setsid_ctty cur T =
     (case sys_setsid cur (tsys T) of
        (r, k) \<Rightarrow> (r, if r < 0 then T\<lparr>tsys := k\<rparr> else T\<lparr>tsys := k, ctty := (ctty T)(cur := None)\<rparr>))"

section \<open>Job control\<close>

definition is_ignored :: "int \<Rightarrow> task \<Rightarrow> bool" where
  "is_ignored sig p \<longleftrightarrow> sigisblocked p sig \<or> sa_handler (actions p ! nat sig) = SIG_IGN"

definition tty_check_change :: "tid \<Rightarrow> nat \<Rightarrow> int \<Rightarrow> terminals \<Rightarrow> (int \<times> terminals) option" where
  "tty_check_change cur i sig T =
     (let p = tsk (tsys T) cur; fg = ctl_pgrp (the_tty T i) in
      if ctty T cur \<noteq> Some i then Some (0, T)
      else if fg \<noteq> 0 \<and> pgid p \<noteq> fg
      then (if is_ignored sig p then Some (if sig = SIGTTIN then - EIO else 0, T)
            else map_option (\<lambda>(_, s). (- ERESTART, T\<lparr>tsys := (tsys T)\<lparr>sch := s\<rparr>\<rparr>))
                   (kill_pgrp (pgid_table (tsys T)) (pgid p) sig (sch (tsys T))))
      else Some (0, T))"

definition tty_read :: "tid \<Rightarrow> nat \<Rightarrow> wakeups \<Rightarrow> nat \<Rightarrow> terminals \<Rightarrow> (rd_outcome \<times> terminals) option" where
  "tty_read cur i ws nr T =
     (case tty_check_change cur i SIGTTIN T of
        None \<Rightarrow> None
      | Some (ret, T1) \<Rightarrow>
          if ret < 0 then Some (Done ret [] (the_tty T1 i), T1)
          else map_option (\<lambda>r. (r, case r of Done _ _ t \<Rightarrow> set_tty i t T1 | Blocked _ t \<Rightarrow> set_tty i t T1 | Overrun \<Rightarrow> T1))
                 (default_tty_read ws nr (the_tty T1 i)))"

definition tty_write :: "tid \<Rightarrow> nat \<Rightarrow> (u8 list \<Rightarrow> int) \<Rightarrow> u8 list \<Rightarrow> terminals \<Rightarrow> (int \<times> terminals) option" where
  "tty_write cur i wr bs T =
     (case (if l_flag TOSTOP (the_tty T i) then tty_check_change cur i SIGTTOU T else Some (0, T)) of
        None \<Rightarrow> None
      | Some (ret, T1) \<Rightarrow>
          if ret < 0 then Some (ret, T1)
          else (case default_tty_write wr bs (the_tty T1 i) of (n, t) \<Rightarrow> Some (n, set_tty i t T1)))"

section \<open>Control\<close>

definition valid_baud :: "u32 \<Rightarrow> bool" where
  "valid_baud speed \<longleftrightarrow> speed \<in> {0, 1, 2, 3, 4, 5, 6, 7, 8, 9, 10, 11, 12, 13, 14, 15, 0x1001, 0x1002, 0x1003}"

definition valid_cflag :: "u32 \<Rightarrow> bool" where
  "valid_cflag cflag \<longleftrightarrow> cflag AND 0x30 \<in> {0, 0x10, 0x20, 0x30} \<and> valid_baud (cflag AND 0x100F)"

definition tcsetattr :: "termios option \<Rightarrow> tty \<Rightarrow> int \<times> tty" where
  "tcsetattr term t =
     (case term of
        None \<Rightarrow> (- EFAULT, t)
      | Some new \<Rightarrow>
          if \<not> valid_baud (c_ispeed new) \<or> \<not> valid_baud (c_ospeed new) then (- EINVAL, t)
          else if \<not> valid_cflag (c_cflag new) then (- EINVAL, t)
          else (0, default_tty_set_termios (Some (termios t)) (t\<lparr>termios := new\<rparr>)))"

definition tcsetpgrp :: "tid \<Rightarrow> int \<Rightarrow> ksys \<Rightarrow> tty \<Rightarrow> int \<times> tty" where
  "tcsetpgrp cur pg k t =
     (if pg < 0 then (- EINVAL, t)
      else case get_any_pgrp_member k pg of
          None \<Rightarrow> (- EINVAL, t)
        | Some p \<Rightarrow>
            if sid (tsk k p) \<noteq> sid (tsk k cur) then (- EPERM, t)
            else if ctl_session t \<noteq> sid (tsk k cur) then (- EPERM, t)
            else (0, t\<lparr>ctl_pgrp := pg\<rparr>))"

text \<open>
  A request with the address of its argument: \<open>ok\<close> whether the address can be used, and \<open>new\<close> or \<open>pg\<close>
  what is there.  The result has what is written to the user.
\<close>

datatype tty_reply = NoReply | RTermios termios | RPgrp int

definition tty_ioctl :: "tid \<Rightarrow> nat \<Rightarrow> nat \<Rightarrow> bool \<Rightarrow> termios \<Rightarrow> int \<Rightarrow> terminals \<Rightarrow> int \<times> tty_reply \<times> terminals" where
  "tty_ioctl cur i op ok new pg T =
     (let t = the_tty T i in
      if op = 0x5401 \<or> op = 0x5405 then (if ok then (0, RTermios (termios t), T) else (- EFAULT, NoReply, T))
      else if op \<in> {0x5402, 0x5406, 0x5403, 0x5407, 0x5404, 0x5408} then
        (case tcsetattr (if ok then Some new else None) t of (r, t1) \<Rightarrow> (r, NoReply, set_tty i t1 T))
      else if op = 0x540F then (if ok then (0, RPgrp (ctl_pgrp t), T) else (- EFAULT, NoReply, T))
      else if op = 0x5410 then
        (if \<not> ok then (- EFAULT, NoReply, T)
         else if sid (tsk (tsys T) cur) \<noteq> ctl_session t then (- ENOTTY, NoReply, T)
         else (case tcsetpgrp cur pg (tsys T) t of (r, t1) \<Rightarrow> (r, NoReply, set_tty i t1 T)))
      else (- EINVAL, NoReply, T))"

abbreviation TIOCSPGRP :: nat where "TIOCSPGRP \<equiv> 0x5410"
abbreviation TCSETS :: nat where "TCSETS \<equiv> 0x5402"
abbreviation TCGETS :: nat where "TCGETS \<equiv> 0x5401"

section \<open>Signals from the terminal\<close>

text \<open>
  A signal to a group: \<open>raised\<close> says what it does to each member, and all other tasks stay.
\<close>

definition group_signalled :: "ksys \<Rightarrow> int \<Rightarrow> int \<Rightarrow> ksys \<Rightarrow> bool" where
  "group_signalled k pg sig k' \<longleftrightarrow>
     (\<forall>p \<in> set (pgid_table k). pgid (tsk k p) = pg \<longrightarrow> raised sig (tsk k p) (tsk k' p))
     \<and> (\<forall>q. \<not> (q \<in> set (pgid_table k) \<and> pgid (tsk k q) = pg) \<longrightarrow> tsk k' q = tsk k q)"

lemma kill_pgrp_group:
  assumes "sched_inv (sch k)" and "distinct (pgid_table k)" and "0 < sig" "sig < NSIG" "sig \<noteq> SIGCONT" and "0 \<le> pg"
  shows "\<exists>r s. kill_pgrp (pgid_table k) pg sig (sch k) = Some (r, s) \<and> group_signalled k pg sig (k\<lparr>sch := s\<rparr>)"
proof -
  have "\<exists>s'. raise_each (pgrp_members (pgid_table k) pg (sch k)) sig (sch k) = Some s' \<and> group_signalled k pg sig (k\<lparr>sch := s'\<rparr>)"
    using raise_each_raised [of "sch k" sig "pgrp_members (pgid_table k) pg (sch k)"] assms
    unfolding group_signalled_def pgrp_members_def by auto
  then show ?thesis using assms by (auto simp: kill_pgrp_def)
qed

lemma send_signals_other: "list_all (\<lambda>e. \<forall>pg sig. e \<noteq> TKill pg sig) es \<Longrightarrow> send_signals es k = Some k"
  by (induction es k rule: send_signals.induct) auto

lemma echo_of_intr:
  assumes "l_flag ISIG t" and "INTR_CHAR t = 3" and "0 < ctl_pgrp t"
  shows "\<exists>es. out (receive_char 3 t) = out t @ TKill (ctl_pgrp t) SIGINT # es \<and> list_all (\<lambda>e. \<forall>pg sig. e \<noteq> TKill pg sig) es"
    and "l_flag ICANON t \<Longrightarrow> ld_inv t \<Longrightarrow> edited (receive_char 3 t) = [] \<and> committed (receive_char 3 t) = committed t"
proof -
  have i: "input_char t 3 = 3" by (simp add: input_char_def Let_def)
  show "\<exists>es. out (receive_char 3 t) = out t @ TKill (ctl_pgrp t) SIGINT # es \<and> list_all (\<lambda>e. \<forall>pg sig. e \<noteq> TKill pg sig) es"
    using assms by (auto simp: receive_char_def i Let_def signal_char_def flush_input_def tty_emit_def l_flag_def)
  show "edited (receive_char 3 t) = [] \<and> committed (receive_char 3 t) = committed t" if "l_flag ICANON t" "ld_inv t"
    using that assms by (auto simp: ld_inv_def ring_slice_def receive_char_def i Let_def signal_char_def flush_input_def tty_emit_def l_flag_def edited_def committed_def)
qed

lemma ctrl_c_typed:
  assumes "kb_mode kb = KB_STD" and "length (key_status kb) = 256" and "\<not> key_status kb ! ALT_PRESSED"
  shows "kb_code 0x1D kb = Some ([], set_key CTRL_PRESSED True kb)"
    and "kb_code 0x2E (set_key CTRL_PRESSED True kb) = Some ([char_of (3 :: nat)], set_key CTRL_PRESSED True kb)"
proof -
  show "kb_code 0x1D kb = Some ([], set_key CTRL_PRESSED True kb)" using assms by (simp add: kb_code_def Let_def)
  have "keyboard_map ! 0x2E = 99" "keyboard_map_shift ! 0x2E = 67" by (simp_all add: keyboard_map_def keyboard_map_shift_def)
  then have "key_code 0x2E (set_key CTRL_PRESSED True kb) = 3"
    using assms by (simp add: key_code_def Let_def set_key_def)
  then show "kb_code 0x2E (set_key CTRL_PRESSED True kb) = Some ([char_of (3 :: nat)], set_key CTRL_PRESSED True kb)"
    using assms by (simp add: kb_code_def Let_def kbd_send_def set_key_def)
qed

lemma tty_recv_nothing: "tty_recv_buf [] T = Some T"
  by (simp add: tty_recv_buf_def Let_def default_tty_receive_buf_def)

lemma ctrl_c_interrupts:
  assumes ready: "sched_inv (sch (tsys T))" "distinct (pgid_table (tsys T))"
    and kb: "kb_mode (tkbd T) = KB_STD" "length (key_status (tkbd T)) = 256" "\<not> key_status (tkbd T) ! ALT_PRESSED"
    and t: "active T < length (ttys T)" "l_flag ISIG (the_tty T (active T))" "INTR_CHAR (the_tty T (active T)) = 3" "0 < ctl_pgrp (the_tty T (active T))"
  shows "\<exists>T1 T2. keyboard_int 0x1D T = Some T1 \<and> keyboard_int 0x2E T1 = Some T2 \<and>
    group_signalled (tsys T) (ctl_pgrp (the_tty T (active T))) SIGINT (tsys T2) \<and>
    (l_flag ICANON (the_tty T (active T)) \<and> ld_inv (the_tty T (active T)) \<longrightarrow> contents (the_tty T2 (active T)) = (committed (the_tty T (active T)), []))"
proof -
  let ?T1 = "T\<lparr>tkbd := set_key CTRL_PRESSED True (tkbd T)\<rparr>" and ?t = "the_tty T (active T)"
  have 1: "keyboard_int 0x1D T = Some ?T1" by (simp add: keyboard_int_def ctrl_c_typed(1) [OF kb] tty_recv_nothing)
  from kill_pgrp_group [OF ready, of SIGINT "ctl_pgrp ?t"] t(4) obtain r s where k: "kill_pgrp (pgid_table (tsys T)) (ctl_pgrp ?t) SIGINT (sch (tsys T)) = Some (r, s)"
    "group_signalled (tsys T) (ctl_pgrp ?t) SIGINT ((tsys T)\<lparr>sch := s\<rparr>)" by (auto simp: NSIG_def)
  from echo_of_intr(1) [OF t(2,3,4)] obtain es where es: "out (receive_char 3 ?t) = out ?t @ TKill (ctl_pgrp ?t) SIGINT # es"
    "list_all (\<lambda>e. \<forall>pg sig. e \<noteq> TKill pg sig) es" by blast
  have c3: "of_char (char_of (3 :: nat)) = (3 :: u8)" by code_simp
  have "keyboard_int 0x2E ?T1 = Some (set_tty (active T) (receive_char 3 ?t) (?T1\<lparr>tsys := (tsys T)\<lparr>sch := s\<rparr>\<rparr>))"
    by (simp add: keyboard_int_def ctrl_c_typed(2) [OF kb] tty_recv_buf_def Let_def default_tty_receive_buf_def es(1) k(1) c3 send_signals_other [OF es(2)])
  with 1 k(2) echo_of_intr(2) [OF t(2,3,4)] t(1) show ?thesis by auto
qed

section \<open>Properties\<close>

text \<open>
  C33. Job control: once a task of the session has put a group in the foreground of the terminal in use, the scan codes
  of the keys Ctrl and C send SIGINT to every member of that group, wake those that sleep without blocking it, and
  touch no other task; in canonical mode the line being typed is thrown away, and the lines already committed stay.  A member that
  ignores SIGINT stays as it is, and so does one whose pending set has a bit in common with the number 2 (\<open>raised\<close>): with
  SIGHUP pending the SIGINT is lost.  The terminal has its signal characters on, and the interrupt character is Ctrl-C; the keyboard
  is in its standard mode with no Alt held; the run queues satisfy the invariant of the scheduler (\<open>sched_inv\<close>), and no task is twice in the table of groups.
\<close>

theorem foreground_job_gets_ctrl_c:
  assumes fg: "tty_ioctl cur (active T0) TIOCSPGRP ok new pg T0 = (0, rep, T)" and "0 < pg"
    and "sched_inv (sch (tsys T0))" and "distinct (pgid_table (tsys T0))"
    and "kb_mode (tkbd T0) = KB_STD" and "length (key_status (tkbd T0)) = 256" and "\<not> key_status (tkbd T0) ! ALT_PRESSED"
    and "active T0 < length (ttys T0)" and "l_flag ISIG (the_tty T0 (active T0))" and "INTR_CHAR (the_tty T0 (active T0)) = 3"
  shows "\<exists>T1 T2. keyboard_int 0x1D T = Some T1 \<and> keyboard_int 0x2E T1 = Some T2 \<and> group_signalled (tsys T0) pg SIGINT (tsys T2) \<and>
    (l_flag ICANON (the_tty T0 (active T0)) \<and> ld_inv (the_tty T0 (active T0)) \<longrightarrow>
     contents (the_tty T2 (active T0)) = (committed (the_tty T0 (active T0)), []))"
proof -
  have T: "T = set_tty (active T0) ((the_tty T0 (active T0))\<lparr>ctl_pgrp := pg\<rparr>) T0"
    using fg by (auto simp: tty_ioctl_def tcsetpgrp_def Let_def split: if_splits option.splits)
  have f: "the_tty T (active T0) = (the_tty T0 (active T0))\<lparr>ctl_pgrp := pg\<rparr>" "active T = active T0" "tsys T = tsys T0" "tkbd T = tkbd T0"
    "length (ttys T) = length (ttys T0)" unfolding T using assms by simp_all
  have g: "l_flag a ((the_tty T0 (active T0))\<lparr>ctl_pgrp := pg\<rparr>) = l_flag a (the_tty T0 (active T0))"
    "cc n ((the_tty T0 (active T0))\<lparr>ctl_pgrp := pg\<rparr>) = cc n (the_tty T0 (active T0))"
    "ld_inv ((the_tty T0 (active T0))\<lparr>ctl_pgrp := pg\<rparr>) = ld_inv (the_tty T0 (active T0))"
    "committed ((the_tty T0 (active T0))\<lparr>ctl_pgrp := pg\<rparr>) = committed (the_tty T0 (active T0))" for a n
    by (simp_all add: l_flag_def cc_def ld_inv_def committed_def)
  show ?thesis using ctrl_c_interrupts [of T] assms unfolding f by (simp add: g)
qed

text \<open>A shell (task 10, group 5) and a job (task 11, group 6) of its session.\<close>

definition shell_and_job :: terminals where
  "shell_and_job =
     (let task = root_task\<lparr>sid := 5, actions := replicate 32 \<lparr>sa_handler = SIG_DFL, sa_flags = 0, sa_mask = 0\<rparr>\<rparr> in
      \<lparr>tsys = \<lparr>sch = sched_boot 1\<lparr>tk := (\<lambda>_. root_task)(10 := task\<lparr>pid := 5, pgid := 5\<rparr>, 11 := task\<lparr>pid := 6, pgid := 6\<rparr>)\<rparr>,
          pid_table = [10, 11], pgid_table = [10, 11], sid_table = [10, 11], num_tasks = 7, waitq = [], freed = {}\<rparr>,
       tkbd = kbd_boot, ttys = replicate 8 (tty_boot\<lparr>ctl_session := 5, ctl_pgrp := 5\<rparr>), refcount = replicate 8 1, active = 0,
       ctty = (\<lambda>p. if p = 10 \<or> p = 11 then Some 0 else None)\<rparr>)"

lemma shell_and_job_ready:
  "sched_inv (sch (tsys shell_and_job))" "distinct (pgid_table (tsys shell_and_job))"
  "kb_mode (tkbd shell_and_job) = KB_STD" "length (key_status (tkbd shell_and_job)) = 256" "\<not> key_status (tkbd shell_and_job) ! ALT_PRESSED"
  "active shell_and_job = 0" "length (ttys shell_and_job) = 8" "the_tty shell_and_job 0 = tty_boot\<lparr>ctl_session := 5, ctl_pgrp := 5\<rparr>"
  "get_any_pgrp_member (tsys shell_and_job) 6 = Some 11"
  by (auto simp: shell_and_job_def Let_def sched_inv_at_def queue_ok_def sched_boot_def root_task_def kbd_boot_def get_any_pgrp_member_def)

lemma tty_boot_flags:
  "l_flag ISIG tty_boot" "l_flag ICANON tty_boot" "INTR_CHAR tty_boot = 3" "ld_inv tty_boot"
  by (simp_all add: tty_boot_def default_termios_def l_flag_def cc_def ld_inv_def)

theorem foreground_job_gets_ctrl_c_witness:
  "\<exists>T rep T1 T2. tty_ioctl 10 0 TIOCSPGRP True default_termios 6 shell_and_job = (0, rep, T) \<and>
     keyboard_int 0x1D T = Some T1 \<and> keyboard_int 0x2E T1 = Some T2 \<and> pending (tsk (tsys T2) 11) = 4"
proof -
  note sj = shell_and_job_ready
  have s: "sid (tsk (tsys shell_and_job) 10) = 5" "sid (tsk (tsys shell_and_job) 11) = 5" "pgid (tsk (tsys shell_and_job) 11) = 6"
    "pending (tsk (tsys shell_and_job) 11) = 0" "sa_handler (actions (tsk (tsys shell_and_job) 11) ! 2) \<noteq> SIG_IGN" "11 \<in> set (pgid_table (tsys shell_and_job))"
    by (simp_all add: shell_and_job_def Let_def root_task_def)
  obtain T where T: "tty_ioctl 10 0 TIOCSPGRP True default_termios 6 shell_and_job = (0, NoReply, T)"
    by (simp add: tty_ioctl_def Let_def sj s tcsetpgrp_def)
  have f: "l_flag ISIG (the_tty shell_and_job 0)" "INTR_CHAR (the_tty shell_and_job 0) = 3"
    using tty_boot_flags by (simp_all add: sj l_flag_def cc_def)
  from foreground_job_gets_ctrl_c [of 10 shell_and_job True default_termios 6 NoReply T] T f sj(1-7) obtain T1 T2 where
    "keyboard_int 0x1D T = Some T1" "keyboard_int 0x2E T1 = Some T2" "group_signalled (tsys shell_and_job) 6 SIGINT (tsys T2)"
    by auto
  moreover from this(3) s have "pending (tsk (tsys T2) 11) = 4" by (auto simp: group_signalled_def raised_def sigaddset_def sigbits_eval)
  ultimately show ?thesis using T by blast
qed

text \<open>
  C34. A task whose group is not in the foreground of its controlling terminal takes nothing from it: a read returns no
  byte and leaves every terminal as it is.  If the task ignores or blocks SIGTTIN the read fails with \<open>EIO\<close>;
  otherwise SIGTTIN goes to every member of its group, no other task is touched, and the call is to be restarted.  A member
  that ignores SIGTTIN stays as it is, and so does one whose pending set has a bit in common with the number 21 (\<open>raised\<close>): with SIGINT
  pending, the reader itself gets no SIGTTIN and restarts all the same.  The run queues satisfy the invariant of the scheduler (\<open>sched_inv\<close>), no task is
  twice in the table of groups, and the number of the group is not negative.
\<close>

theorem background_read_takes_nothing:
  assumes bg: "ctty T cur = Some i" "ctl_pgrp (the_tty T i) \<noteq> 0" "pgid (tsk (tsys T) cur) \<noteq> ctl_pgrp (the_tty T i)"
    and ready: "sched_inv (sch (tsys T))" "distinct (pgid_table (tsys T))" "0 \<le> pgid (tsk (tsys T) cur)"
  shows "\<exists>ret k. tty_read cur i ws nr T = Some (Done ret [] (the_tty T i), T\<lparr>tsys := k\<rparr>) \<and>
    (if is_ignored SIGTTIN (tsk (tsys T) cur) then ret = - EIO \<and> k = tsys T
     else ret = - ERESTART \<and> group_signalled (tsys T) (pgid (tsk (tsys T) cur)) SIGTTIN k)"
proof -
  from kill_pgrp_group [OF ready(1,2), of SIGTTIN, OF _ _ _ ready(3)] obtain r s where
    "kill_pgrp (pgid_table (tsys T)) (pgid (tsk (tsys T) cur)) SIGTTIN (sch (tsys T)) = Some (r, s)"
    "group_signalled (tsys T) (pgid (tsk (tsys T) cur)) SIGTTIN ((tsys T)\<lparr>sch := s\<rparr>)" by (auto simp: NSIG_def)
  moreover have "T = T\<lparr>tsys := tsys T\<rparr>" by simp
  ultimately show ?thesis using bg by (auto simp: tty_read_def tty_check_change_def Let_def)
qed

theorem background_read_takes_nothing_witness:
  "\<exists>k. tty_read 11 0 [] 80 shell_and_job = Some (Done (- ERESTART) [] (the_tty shell_and_job 0), shell_and_job\<lparr>tsys := k\<rparr>)"
proof -
  have s: "ctty shell_and_job 11 = Some 0" "pgid (tsk (tsys shell_and_job) 11) = 6" "\<not> is_ignored SIGTTIN (tsk (tsys shell_and_job) 11)"
    by (simp_all add: shell_and_job_def Let_def root_task_def is_ignored_def sigisblocked_def)
  show ?thesis
    using background_read_takes_nothing [of shell_and_job 11 0 "[]" 80] shell_and_job_ready(1,2,8) s by auto
qed

text \<open>Changing the modes is not checked: a task in the background changes them without a signal.\<close>

lemma background_task_sets_modes:
  "valid_baud (c_ispeed new) \<Longrightarrow> valid_baud (c_ospeed new) \<Longrightarrow> valid_cflag (c_cflag new) \<Longrightarrow>
   tty_ioctl cur i TCSETS True new pg T = (0, NoReply, set_tty i (default_tty_set_termios (Some (termios (the_tty T i))) ((the_tty T i)\<lparr>termios := new\<rparr>)) T)"
  by (simp add: tty_ioctl_def Let_def tcsetattr_def)

text \<open>A task in the background puts its own group in the foreground.\<close>

lemma background_task_takes_terminal:
  "fst (tty_ioctl 11 0 TIOCSPGRP True default_termios 6 shell_and_job) = 0"
  by (simp add: tty_ioctl_def Let_def shell_and_job_ready tcsetpgrp_def) (simp add: shell_and_job_def Let_def root_task_def)
text \<open>A reader in the background with SIGINT pending restarts its call without getting SIGTTIN.\<close>

lemma pending_sigint_drops_sigttin:
  assumes "pending t = sigbit SIGINT"
  shows "raised SIGTTIN t t' \<longleftrightarrow> t' = t"
  using assms by (simp add: raised_def sigbits_eval)

end
