(* ===== verification/Exec.thy ===== *)
theory Exec imports Elf begin

unbundle bit_operations_syntax

text \<open>
  Running a program (\<open>execve\<close> in \<open>kernel/process.c\<close>, with the copies of strings from user memory in
  \<open>arch/x86/kernel/user_copy.S\<close>): the arguments and the environment are copied into the kernel, the program is
  loaded (\<open>Elf\<close>), and the arguments are laid out for its start.

  User memory that is read is a function from addresses to bytes, \<open>None\<close> where an access faults.  The memory
  of the new program is a function from addresses to bytes as well (what its pages hold when they are brought in), which
  the kernel writes only where the mappings of the program allow it.  A vector of pointers in user memory is the
  list of the pointers before its null pointer.  Memory of the kernel is given, but for the two mappings that the start of a program makes.
  A result \<open>None\<close> is a fault of the kernel: the use of freed memory, a read past the end of a block, a failed
  assertion, a null pointer, a write to user memory without a mapping.
\<close>

section \<open>Strings from user memory\<close>

type_synonym umem = "u64 \<Rightarrow> u8 option"

text \<open>
  The loop of \<open>x86_strnlen_user_asm\<close>, with what is left of the counter at its end.  \<open>loopnz\<close> looks at the
  zero flag, but between the comparison of the byte and the jump stands an \<open>inc\<close> of the pointer, which sets the
  flag anew: the byte has no influence.
\<close>

fun strnlen_loop :: "nat \<Rightarrow> u64 \<Rightarrow> umem \<Rightarrow> nat option" where
  "strnlen_loop 0 p um = Some 0"
| "strnlen_loop (Suc n) p um =
     (case um p of
        None \<Rightarrow> None
      | Some _ \<Rightarrow> if n \<noteq> 0 \<and> p + 1 \<noteq> 0 then strnlen_loop n (p + 1) um else Some n)"

definition arch_strnlen_user :: "u64 \<Rightarrow> nat \<Rightarrow> umem \<Rightarrow> int" where
  "arch_strnlen_user p mx um =
     (case strnlen_loop mx p um of
        None \<Rightarrow> - EFAULT
      | Some n \<Rightarrow> if n = 0 then int mx else int mx - int (n + 1))"

definition strnlen_user :: "mm_info \<Rightarrow> umem \<Rightarrow> u64 \<Rightarrow> nat \<Rightarrow> int" where
  "strnlen_user m um p mx = (if access_ok p 1 m then arch_strnlen_user p mx um else - EFAULT)"

text \<open>The bytes that \<open>x86_strncpy_from_user_asm\<close> copies: up to and with a zero, at most \<open>n\<close>.\<close>

fun arch_strncpy_from_user :: "nat \<Rightarrow> u64 \<Rightarrow> umem \<Rightarrow> u8 list option" where
  "arch_strncpy_from_user 0 p um = Some []"
| "arch_strncpy_from_user (Suc n) p um =
     (case um p of
        None \<Rightarrow> None
      | Some c \<Rightarrow> if c = 0 then Some [c] else map_option (Cons c) (arch_strncpy_from_user n (p + 1) um))"

definition strncpy_from_user :: "mm_info \<Rightarrow> umem \<Rightarrow> u64 \<Rightarrow> nat \<Rightarrow> int + u8 list" where
  "strncpy_from_user m um p mx =
     (if \<not> access_ok p 1 m then Inl (- EFAULT)
      else (case arch_strncpy_from_user mx p um of None \<Rightarrow> Inl (- EFAULT) | Some bs \<Rightarrow> Inr bs))"

section \<open>The program of a task\<close>

text \<open>
  A vector of arguments in the kernel: what was copied into the block of each argument, and whether the vector has
  got its null pointer at the end.
\<close>

type_synonym kvec = "(u8 list list \<times> bool) option"

record task_info =
  ti_path :: "nat option"
  ti_file :: "nat option"
  ti_argv :: kvec
  ti_envp :: kvec

text \<open>The blocks of path names that are allocated, and the references that each open file has.\<close>

record exec_state =
  x_info :: task_info
  x_paths :: "nat set"
  x_refs :: "nat \<Rightarrow> nat"

definition kfree_path :: "nat \<Rightarrow> exec_state \<Rightarrow> exec_state option" where
  "kfree_path b x = (if b \<in> x_paths x then Some (x\<lparr>x_paths := x_paths x - {b}\<rparr>) else None)"

definition put_file :: "nat \<Rightarrow> exec_state \<Rightarrow> exec_state option" where
  "put_file f x = (if x_refs x f = 0 then None else Some (x\<lparr>x_refs := (x_refs x)(f := x_refs x f - 1)\<rparr>))"

text \<open>The loop that copies a vector; \<open>acc\<close> is the vector so far.\<close>

fun copy_vec :: "mm_info \<Rightarrow> umem \<Rightarrow> u64 list \<Rightarrow> u8 list list option \<Rightarrow> int \<times> kvec" where
  "copy_vec m um [] acc = (0, Some (case acc of None \<Rightarrow> [] | Some l \<Rightarrow> l, True))"
| "copy_vec m um (p # ps) acc =
     (let len = strnlen_user m um p 127 + 1; l = (case acc of None \<Rightarrow> [] | Some l \<Rightarrow> l) in
      if len < 0 then (- EFAULT, map_option (\<lambda>l. (l, False)) acc)
      else (case strncpy_from_user m um p (nat len + 1) of
              Inl e \<Rightarrow> (e, Some (l @ [[]], False))
            | Inr bs \<Rightarrow> copy_vec m um ps (Some (l @ [bs]))))"

text \<open>An old vector is freed first; without its null pointer the loop runs past its end.\<close>

definition vec_freed :: "kvec \<Rightarrow> bool" where
  "vec_freed v \<longleftrightarrow> (case v of None \<Rightarrow> True | Some (_, ended) \<Rightarrow> ended)"

definition set_task_args :: "mm_info \<Rightarrow> umem \<Rightarrow> u64 list \<Rightarrow> task_info \<Rightarrow> (int \<times> task_info) option" where
  "set_task_args m um argv info =
     (if \<not> vec_freed (ti_argv info) then None
      else (case copy_vec m um argv None of (err, v) \<Rightarrow> Some (err, info\<lparr>ti_argv := v\<rparr>)))"

definition set_task_env :: "mm_info \<Rightarrow> umem \<Rightarrow> u64 list \<Rightarrow> task_info \<Rightarrow> (int \<times> task_info) option" where
  "set_task_env m um envp info =
     (if \<not> vec_freed (ti_envp info) then None
      else (case copy_vec m um envp None of (err, v) \<Rightarrow> Some (err, info\<lparr>ti_envp := v\<rparr>)))"

datatype exec_result = ExecError int exec_state | ExecStarts exec_state

text \<open>\<open>opened\<close> is what \<open>vfs_open\<close> returns, \<open>isreg\<close> whether it is a regular file.\<close>

definition do_execve :: "int + nat \<Rightarrow> bool \<Rightarrow> nat \<Rightarrow> mm_info \<Rightarrow> umem \<Rightarrow> u64 list \<Rightarrow> u64 list \<Rightarrow> exec_state \<Rightarrow> exec_result option" where
  "do_execve opened isreg path m um argv envp x =
     (case opened of
        Inl e \<Rightarrow> Some (ExecError e x)
      | Inr f \<Rightarrow>
          (let x1 = x\<lparr>x_refs := (x_refs x)(f := 1)\<rparr> in
           if \<not> isreg then map_option (ExecError (- 13)) (put_file f x1)
           else
             (case (case ti_path (x_info x1) of None \<Rightarrow> Some x1 | Some old \<Rightarrow> kfree_path old x1) of
                None \<Rightarrow> None
              | Some x2 \<Rightarrow>
                  (case set_task_args m um argv ((x_info x2)\<lparr>ti_file := Some f, ti_path := Some path\<rparr>) of
                     None \<Rightarrow> None
                   | Some (err, info) \<Rightarrow>
                       if err \<noteq> 0 then map_option (ExecError err) (put_file f (x2\<lparr>x_info := info\<rparr>))
                       else (case set_task_env m um envp info of
                               None \<Rightarrow> None
                             | Some (err2, info2) \<Rightarrow>
                                 if err2 \<noteq> 0 then map_option (ExecError err2) (put_file f (x2\<lparr>x_info := info2\<rparr>))
                                 else Some (ExecStarts (x2\<lparr>x_info := info2\<rparr>)))))))"

text \<open>
  The call: the addresses of the path and of the two vectors, the path that \<open>get_user_path\<close> copied into the block
  \<open>b\<close> or its error.
\<close>

definition sys_execve :: "u64 \<Rightarrow> u64 \<Rightarrow> u64 \<Rightarrow> int + nat \<Rightarrow> int + nat \<Rightarrow> bool \<Rightarrow> mm_info \<Rightarrow> umem \<Rightarrow> u64 list \<Rightarrow> u64 list \<Rightarrow> exec_state \<Rightarrow> exec_result option" where
  "sys_execve pp ap ep upath opened isreg m um argv envp x =
     (if \<not> access_ok pp 1 m \<or> \<not> access_ok ap 1 m \<or> \<not> access_ok ep 1 m then Some (ExecError (- EFAULT) x)
      else (case upath of
              Inl e \<Rightarrow> Some (ExecError e x)
            | Inr b \<Rightarrow>
                (case do_execve opened isreg b m um argv envp (x\<lparr>x_paths := insert b (x_paths x)\<rparr>) of
                   None \<Rightarrow> None
                 | Some (ExecStarts x1) \<Rightarrow> Some (ExecStarts x1)
                 | Some (ExecError err x1) \<Rightarrow>
                     if err < 0 then map_option (ExecError err) (kfree_path b x1) else Some (ExecError err x1))))"

definition cleanup_task_info :: "exec_state \<Rightarrow> exec_state option" where
  "cleanup_task_info x =
     (case (case ti_path (x_info x) of
              None \<Rightarrow> Some x
            | Some b \<Rightarrow> map_option (\<lambda>x1. x1\<lparr>x_info := (x_info x1)\<lparr>ti_path := None\<rparr>\<rparr>) (kfree_path b x)) of
        None \<Rightarrow> None
      | Some x1 \<Rightarrow>
          (case (case ti_file (x_info x1) of
                   None \<Rightarrow> Some x1
                 | Some f \<Rightarrow> map_option (\<lambda>x2. x2\<lparr>x_info := (x_info x2)\<lparr>ti_file := None\<rparr>\<rparr>) (put_file f x1)) of
             None \<Rightarrow> None
           | Some x2 \<Rightarrow>
               if vec_freed (ti_argv (x_info x2)) then Some (x2\<lparr>x_info := (x_info x2)\<lparr>ti_argv := None\<rparr>\<rparr>) else None))"

section \<open>The start of a program\<close>

type_synonym pmem = "u64 \<Rightarrow> u8"

definition put_bytes :: "u64 \<Rightarrow> u8 list \<Rightarrow> pmem \<Rightarrow> pmem" where
  "put_bytes a bs pm = (\<lambda>x. if unat (x - a) < length bs then bs ! unat (x - a) else pm x)"

text \<open>
  A byte that the kernel can write: a fault there finds a mapping that allows it.  (Elsewhere the handler raises
  SIGSEGV and returns to the instruction that faulted, which faults again.)  The page of a file is taken to be readable.
\<close>

definition user_writable :: "mm_info \<Rightarrow> u64 \<Rightarrow> bool" where
  "user_writable m a \<longleftrightarrow> 0x1000 < a \<and> a \<le> USER_MAX_ADDR \<and>
     (case find_vma (mmap_list m) a of None \<Rightarrow> False | Some v \<Rightarrow> check_access v FAULT_WRITE)"

definition user_write :: "mm_info \<Rightarrow> u64 \<Rightarrow> u8 list \<Rightarrow> pmem \<Rightarrow> pmem option" where
  "user_write m a bs pm =
     (if list_all (\<lambda>i. user_writable m (a + of_nat i)) [0..<length bs] then Some (put_bytes a bs pm) else None)"

definition word_bytes :: "u64 \<Rightarrow> u8 list" where
  "word_bytes v = map (\<lambda>i. ucast (drop_bit (8 * i) v)) [0..<8]"

definition get_word :: "pmem \<Rightarrow> u64 \<Rightarrow> u64" where
  "get_word pm a = foldr (\<lambda>i w. push_bit 8 w OR ucast (pm (a + of_nat i))) [0..<8] 0"

definition put_word :: "mm_info \<Rightarrow> u64 \<Rightarrow> u64 \<Rightarrow> pmem \<Rightarrow> pmem option" where
  "put_word m a v pm = user_write m a (word_bytes v) pm"

definition put_string :: "mm_info \<Rightarrow> u64 \<Rightarrow> u8 list \<Rightarrow> pmem \<Rightarrow> pmem option" where
  "put_string m loc s pm = user_write m loc (s @ [0]) pm"

text \<open>The loop of \<open>prepare_task_args\<close> and \<open>prepare_task_env\<close>.\<close>

fun prepare_vec :: "mm_info \<Rightarrow> nat \<Rightarrow> u64 \<Rightarrow> u64 \<Rightarrow> u64 \<Rightarrow> u8 list list \<Rightarrow> pmem \<Rightarrow> pmem option" where
  "prepare_vec m c vec loc lim [] pm = put_word m (vec + 8 * of_nat c) 0 pm"
| "prepare_vec m c vec loc lim (b # bs) pm =
     (if c \<ge> 31 then put_word m (vec + 8 * of_nat c) 0 pm
      else if 0 \<notin> set b then None
      else do {
        let s = cstr b;
        let loc1 = loc + of_nat (length s + 1);
        pm1 \<leftarrow> put_string m loc s pm;
        pm2 \<leftarrow> put_word m (vec + 8 * of_nat c) loc pm1;
        (if loc1 < lim then prepare_vec m (c + 1) vec loc1 lim bs pm2 else None) })"

definition count_task_vec :: "kvec \<Rightarrow> nat" where
  "count_task_vec v = (case v of None \<Rightarrow> 0 | Some (l, _) \<Rightarrow> min 31 (length l))"

definition prepare :: "mm_info \<Rightarrow> u64 \<Rightarrow> u64 \<Rightarrow> u64 \<Rightarrow> kvec \<Rightarrow> pmem \<Rightarrow> pmem option" where
  "prepare m vec loc lim v pm =
     (case v of
        None \<Rightarrow> put_word m vec 0 pm
      | Some (l, ended) \<Rightarrow> if ended then prepare_vec m 0 vec loc lim l pm else None)"

definition initial_brk :: "mm_info \<Rightarrow> u64" where
  "initial_brk m =
     (case List.find (\<lambda>v. vm_flags v AND (VM_READ OR VM_WRITE) = VM_READ OR VM_WRITE) (mmap_list m) of
        None \<Rightarrow> 0 | Some v \<Rightarrow> vm_end v)"

definition set_vm_areas :: "mm_info \<Rightarrow> mm_info" where
  "set_vm_areas m = vma_list_insert (new_vma (start_stack m) USER_STACK (VM_READ OR VM_WRITE)) m"

definition initial_sp :: "nat \<Rightarrow> nat \<Rightarrow> u64" where
  "initial_sp argc envc = (USER_STACK - 8 * of_nat (1 + (argc + 1) + (envc + 1) + 2)) AND NOT 0xf"

datatype start_result = Exits int | UserMode u64 u64 mm_info pmem

text \<open>
  \<open>loaded\<close> is what \<open>elf_load\<close> gives for the file; \<open>smem\<close> and \<open>bmem\<close> say whether there is memory for the mapping
  of the stack, which is not tested, and for that of the break, where the result of \<open>sbrk\<close> is not looked at.
\<close>

definition start_process :: "u64 \<times> mm_info \<Rightarrow> bool \<Rightarrow> bool \<Rightarrow> task_info \<Rightarrow> pmem \<Rightarrow> start_result option" where
  "start_process loaded smem bmem info pm =
     (case loaded of (jmp, m) \<Rightarrow>
        if jmp = 0 then Some (Exits 1)
        else if \<not> smem then None
        else do {
          let b = initial_brk m;
          let m1 = set_vm_areas (m\<lparr>start_brk := b, brk_addr := b, start_stack := USER_STACK - 4096 * 32\<rparr>);
          let argc = count_task_vec (ti_argv info);
          let envc = count_task_vec (ti_envp info);
          let env_loc = b;
          let arg_loc = env_loc + 0x1400;
          let m2 = snd (sys_sbrk bmem 0x2000 m1);
          let sp = initial_sp argc envc;
          pm0 \<leftarrow> put_word m2 sp (of_nat argc) pm;
          let argv = sp + 8;
          let envp = argv + 8 * of_nat (argc + 1);
          pm1 \<leftarrow> prepare m2 argv arg_loc (arg_loc + 0xc00) (ti_argv info) pm0;
          pm2 \<leftarrow> prepare m2 envp env_loc arg_loc (ti_envp info) pm1;
          let aux = envp + 8 * of_nat (envc + 1);
          pm3 \<leftarrow> put_word m2 aux 0 pm2;
          pm4 \<leftarrow> put_word m2 (aux + 8) 0 pm3;
          Some (UserMode jmp sp m2 pm4) })"

section \<open>A failed call\<close>

lemma copy_vec_error: "copy_vec m um ps acc = (err, v) \<Longrightarrow> err \<noteq> 0 \<Longrightarrow> err = - EFAULT"
  by (induction ps arbitrary: acc) (auto simp: Let_def strncpy_from_user_def split: if_splits sum.splits option.splits)

lemma set_task_error:
  "set_task_args m um ps info = Some (err, info') \<Longrightarrow> (err \<noteq> 0 \<longrightarrow> err = - EFAULT) \<and> ti_path info' = ti_path info \<and> ti_file info' = ti_file info"
  "set_task_env m um ps info = Some (err, info') \<Longrightarrow> (err \<noteq> 0 \<longrightarrow> err = - EFAULT) \<and> ti_path info' = ti_path info \<and> ti_file info' = ti_file info"
  by (auto simp: set_task_args_def set_task_env_def split: if_splits prod.splits dest: copy_vec_error)

lemma do_execve_error:
  assumes "do_execve (Inr f) True b m um argv envp x = Some (ExecError e x1)"
  shows "e = - EFAULT \<and> ti_path (x_info x1) = Some b \<and> ti_file (x_info x1) = Some f \<and> x_refs x1 f = 0"
proof -
  let ?x1 = "x\<lparr>x_refs := (x_refs x)(f := 1)\<rparr>"
  from assms obtain x2 where x2: "(case ti_path (x_info ?x1) of None \<Rightarrow> Some ?x1 | Some old \<Rightarrow> kfree_path old ?x1) = Some x2"
    unfolding do_execve_def by (auto simp: Let_def simp del: fun_upd_apply split: option.splits)
  have rf: "x_refs x2 f = 1" using x2 by (auto simp: kfree_path_def split: option.splits if_splits)
  let ?i = "(x_info x2)\<lparr>ti_file := Some f, ti_path := Some b\<rparr>"
  from assms x2 obtain err info where a: "set_task_args m um argv ?i = Some (err, info)"
    unfolding do_execve_def by (auto simp: Let_def simp del: fun_upd_apply split: option.splits)
  note A = set_task_error(1) [OF a]
  show ?thesis
  proof (cases "err = 0")
    case False
    then show ?thesis using assms x2 a A rf by (auto simp: do_execve_def Let_def put_file_def split: option.splits if_splits)
  next
    case True
    with assms x2 a obtain err2 info2 where e: "set_task_env m um envp info = Some (err2, info2)"
      unfolding do_execve_def by (auto simp: Let_def simp del: fun_upd_apply split: option.splits)
    note E = set_task_error(2) [OF e]
    show ?thesis using assms x2 a e A E True rf by (auto simp: do_execve_def Let_def put_file_def split: option.splits if_splits)
  qed
qed

text \<open>
  C36. A call of \<open>execve\<close> on a regular file that fails after the file was opened, because an argument or a string of the environment cannot be
  read, dooms the task.  The block of the path is freed but stays the task's path, and the file has lost its last reference but
  stays the task's program.  The clean-up at the exit of the task frees the path again; if the task had no path, it
  would close the file again.
\<close>

theorem failed_exec_dooms_task:
  assumes "access_ok pp 1 m" and "access_ok ap 1 m" and "access_ok ep 1 m"
    and "sys_execve pp ap ep (Inr b) (Inr f) True m um argv envp x = Some (ExecError e x')"
  shows "e = - EFAULT
    \<and> ti_path (x_info x') = Some b \<and> b \<notin> x_paths x'
    \<and> ti_file (x_info x') = Some f \<and> x_refs x' f = 0
    \<and> cleanup_task_info x' = None
    \<and> cleanup_task_info (x'\<lparr>x_info := (x_info x')\<lparr>ti_path := None\<rparr>\<rparr>) = None
    \<and> cleanup_task_info (x'\<lparr>x_info := (x_info x')\<lparr>ti_file := None\<rparr>\<rparr>) = None"
proof -
  from assms obtain x1 where d: "do_execve (Inr f) True b m um argv envp (x\<lparr>x_paths := insert b (x_paths x)\<rparr>) = Some (ExecError e x1)"
    and k: "e < 0 \<longrightarrow> kfree_path b x1 = Some x'"
    by (auto simp: sys_execve_def split: option.splits exec_result.splits if_splits)
  from do_execve_error [OF d] have e: "e = - EFAULT" "ti_path (x_info x1) = Some b" "ti_file (x_info x1) = Some f" "x_refs x1 f = 0" by simp_all
  with k have p: "ti_path (x_info x') = Some b" "b \<notin> x_paths x'" and q: "ti_file (x_info x') = Some f" "x_refs x' f = 0"
    by (auto simp: kfree_path_def split: if_splits)
  then show ?thesis using e(1) by (simp add: cleanup_task_info_def kfree_path_def put_file_def)
qed

definition no_program :: exec_state where
  "no_program = \<lparr>x_info = \<lparr>ti_path = None, ti_file = None, ti_argv = None, ti_envp = None\<rparr>, x_paths = {}, x_refs = (\<lambda>_. 0)\<rparr>"

text \<open>All of user memory up to 128 KB belongs to the program.\<close>

definition low_mm :: mm_info where
  "low_mm = no_mappings\<lparr>mmap_list := [new_vma 0x1000 0x20000 (VM_READ OR VM_WRITE)]\<rparr>"

lemma low_mm_ok: "0x1000 \<le> p \<Longrightarrow> p < 0x20000 \<Longrightarrow> access_ok p 1 low_mm"
  by (simp add: access_ok_def low_mm_def find_vma_def vma_has_def new_vma_def)

theorem failed_exec_dooms_task_witness:
  "\<exists>x'. sys_execve 0x1000 0x1100 0x1200 (Inr 3) (Inr 5) True low_mm (\<lambda>_. None) [0x1300] [] no_program = Some (ExecError (- 14) x')
     \<and> ti_path (x_info x') = Some 3 \<and> 3 \<notin> x_paths x' \<and> ti_file (x_info x') = Some 5 \<and> x_refs x' 5 = 0 \<and> cleanup_task_info x' = None"
proof -
  have a: "access_ok 0x1000 1 low_mm" "access_ok 0x1100 1 low_mm" "access_ok 0x1200 1 low_mm" "access_ok 0x1300 1 low_mm"
    by (simp_all add: low_mm_ok)
  have n: "strnlen_user low_mm (\<lambda>_. None) 0x1300 127 = - 14"
    using strnlen_loop.simps(2) [of 126 "0x1300" "\<lambda>_. None"] by (simp add: strnlen_user_def a arch_strnlen_user_def)
  obtain x' where "sys_execve 0x1000 0x1100 0x1200 (Inr 3) (Inr 5) True low_mm (\<lambda>_. None) [0x1300] [] no_program = Some (ExecError (- 14) x')"
    by (simp add: sys_execve_def a do_execve_def Let_def no_program_def set_task_args_def vec_freed_def n put_file_def kfree_path_def)
  with failed_exec_dooms_task [OF a(1-3)] show ?thesis by blast
qed

section \<open>What a program finds\<close>

text \<open>A string in user memory that can be passed, and a vector of such strings.\<close>

definition user_string :: "mm_info \<Rightarrow> umem \<Rightarrow> u64 \<Rightarrow> u8 list \<Rightarrow> bool" where
  "user_string m um p s \<longleftrightarrow> access_ok p 1 m \<and> unat p + 128 < 2 ^ 64 \<and> (\<forall>j < 127. um (p + of_nat j) \<noteq> None)
     \<and> length s \<le> 128 \<and> 0 \<notin> set s \<and> (\<forall>j < length s. um (p + of_nat j) = Some (s ! j)) \<and> um (p + of_nat (length s)) = Some 0"

definition user_vec :: "mm_info \<Rightarrow> umem \<Rightarrow> u64 list \<Rightarrow> u8 list list \<Rightarrow> bool" where
  "user_vec m um ps ss \<longleftrightarrow> list_all2 (user_string m um) ps ss"

text \<open>A string and a vector in the memory of the program, and the stack as its start-up code reads it.\<close>

definition string_at :: "pmem \<Rightarrow> u64 \<Rightarrow> u8 list \<Rightarrow> bool" where
  "string_at pm p s \<longleftrightarrow> (\<forall>j < length s. pm (p + of_nat j) = s ! j) \<and> pm (p + of_nat (length s)) = 0"

definition vec_at :: "pmem \<Rightarrow> u64 \<Rightarrow> u8 list list \<Rightarrow> bool" where
  "vec_at pm a ss \<longleftrightarrow> (\<forall>k < length ss. get_word pm (a + 8 * of_nat k) \<noteq> 0 \<and> string_at pm (get_word pm (a + 8 * of_nat k)) (ss ! k))
     \<and> get_word pm (a + 8 * of_nat (length ss)) = 0"

definition program_sees :: "pmem \<Rightarrow> u64 \<Rightarrow> u8 list list \<Rightarrow> u8 list list \<Rightarrow> bool" where
  "program_sees pm sp args envs \<longleftrightarrow>
     (let argv = sp + 8; envp = argv + 8 * of_nat (length args + 1); aux = envp + 8 * of_nat (length envs + 1) in
      get_word pm sp = of_nat (length args) \<and> vec_at pm argv args \<and> vec_at pm envp envs \<and> get_word pm aux = 0 \<and> get_word pm (aux + 8) = 0)"

lemma strnlen_loop_readable:
  "(\<forall>j < n. um (p + of_nat j) \<noteq> None) \<Longrightarrow> unat p + n < 2 ^ 64 \<Longrightarrow> strnlen_loop n p um = Some 0"
proof (induction n arbitrary: p)
  case (Suc n)
  from Suc.prems(1) obtain c where c: "um p = Some c" by force
  have "unat (p + 1) = unat p + 1" using Suc.prems(2) by (simp add: unat_word_ariths)
  then have "p + 1 \<noteq> 0" "unat (p + 1) + n < 2 ^ 64" using Suc.prems(2) by auto
  moreover have "\<forall>j < n. um (p + 1 + of_nat j) \<noteq> None" using Suc.prems(1) by (metis Suc_less_eq add.assoc of_nat_Suc)
  ultimately show ?case using Suc.IH c by (cases n) auto
qed simp

lemma strncpy_string:
  "0 \<notin> set s \<Longrightarrow> length s < n \<Longrightarrow> (\<forall>j < length s. um (p + of_nat j) = Some (s ! j)) \<Longrightarrow> um (p + of_nat (length s)) = Some 0 \<Longrightarrow>
   arch_strncpy_from_user n p um = Some (s @ [0])"
proof (induction s arbitrary: n p)
  case Nil
  then show ?case by (cases n) auto
next
  case (Cons c s)
  obtain k where k: "n = Suc k" using Cons.prems(2) by (cases n) auto
  have "um p = Some c" using Cons.prems(3) by force
  moreover have "\<forall>j < length s. um (p + 1 + of_nat j) = Some (s ! j)"
    using Cons.prems(3) by (metis (no_types) Suc_less_eq add.assoc length_Cons nth_Cons_Suc of_nat_Suc)
  moreover have "um (p + 1 + of_nat (length s)) = Some 0" using Cons.prems(4) by (simp add: add.assoc)
  ultimately show ?case using Cons.IH [of k "p + 1"] Cons.prems(1,2) by (simp add: k)
qed

lemma user_string_copied:
  assumes "user_string m um p s"
  shows "strnlen_user m um p 127 = 127" and "strncpy_from_user m um p 129 = Inr (s @ [0])"
proof -
  have "strnlen_loop 127 p um = Some 0" using strnlen_loop_readable [of 127 um p] assms by (auto simp: user_string_def)
  then show "strnlen_user m um p 127 = 127" using assms by (simp add: strnlen_user_def arch_strnlen_user_def user_string_def)
  show "strncpy_from_user m um p 129 = Inr (s @ [0])"
    using strncpy_string [of s 129 um p] assms by (simp add: strncpy_from_user_def user_string_def)
qed

lemma copy_vec_strings:
  "user_vec m um ps ss \<Longrightarrow> copy_vec m um ps acc = (0, Some ((case acc of None \<Rightarrow> [] | Some l \<Rightarrow> l) @ map (\<lambda>s. s @ [0]) ss, True))"
  unfolding user_vec_def
proof (induction ps ss arbitrary: acc rule: list_all2_induct)
  case (Cons p ps s ss)
  then show ?case using user_string_copied [OF Cons(1)] by (simp add: Let_def del: arch_strncpy_from_user.simps)
qed simp

lemma cstr_string: "0 \<notin> set s \<Longrightarrow> cstr (s @ [0]) = s"
  by (simp add: cstr_def takeWhile_append)

lemma of_nat_u64_inj: "i < 2 ^ 64 \<Longrightarrow> j < 2 ^ 64 \<Longrightarrow> (of_nat i :: u64) = of_nat j \<longleftrightarrow> i = j"
proof -
  assume "i < 2 ^ 64" "j < 2 ^ 64"
  then have "unat (of_nat i :: u64) = i" "unat (of_nat j :: u64) = j" by (simp_all add: unsigned_of_nat take_bit_nat_eq_self)
  then show ?thesis by metis
qed

lemma slot_inj: "i < 2 ^ 60 \<Longrightarrow> j < 2 ^ 60 \<Longrightarrow> (a :: u64) + 8 * of_nat i = a + 8 * of_nat j \<longleftrightarrow> i = j"
  using of_nat_u64_inj [of "8 * i" "8 * j"] by simp

section \<open>The layout, with strings and stack apart\<close>

text \<open>
  The layout is first made in a memory of two parts, the bytes of the strings and the words of the stack.  Where the
  area of the strings does not reach the stack, the memory of bytes follows it (\<open>lays\<close>).
\<close>

record lay_mem =
  pbytes :: "u64 \<Rightarrow> u8"
  pwords :: "u64 \<Rightarrow> u64"

definition lay_word :: "u64 \<Rightarrow> u64 \<Rightarrow> lay_mem \<Rightarrow> lay_mem" where
  "lay_word a v pm = pm\<lparr>pwords := (pwords pm)(a := v)\<rparr>"

definition lay_string :: "u64 \<Rightarrow> u8 list \<Rightarrow> lay_mem \<Rightarrow> lay_mem" where
  "lay_string loc s pm = pm\<lparr>pbytes := put_bytes loc (s @ [0]) (pbytes pm)\<rparr>"

fun lay_vec :: "nat \<Rightarrow> u64 \<Rightarrow> u64 \<Rightarrow> u8 list list \<Rightarrow> lay_mem \<Rightarrow> lay_mem" where
  "lay_vec c vec loc [] pm = lay_word (vec + 8 * of_nat c) 0 pm"
| "lay_vec c vec loc (s # ss) pm =
     lay_vec (c + 1) vec (loc + of_nat (length s + 1)) ss (lay_word (vec + 8 * of_nat c) loc (lay_string loc s pm))"

definition lay_vec_at :: "lay_mem \<Rightarrow> u64 \<Rightarrow> u64 \<Rightarrow> u8 list list \<Rightarrow> bool" where
  "lay_vec_at pm B a ss \<longleftrightarrow>
     (\<forall>k < length ss. \<exists>d. d + length (ss ! k) < 8192 \<and> pwords pm (a + 8 * of_nat k) = B + of_nat d \<and> string_at (pbytes pm) (B + of_nat d) (ss ! k))
     \<and> pwords pm (a + 8 * of_nat (length ss)) = 0"

lemma lay_simps [simp]:
  "pwords (lay_word a v pm) = (pwords pm)(a := v)" "pbytes (lay_word a v pm) = pbytes pm"
  "pwords (lay_string loc s pm) = pwords pm" "pbytes (lay_string loc s pm) = put_bytes loc (s @ [0]) (pbytes pm)"
  by (simp_all add: lay_word_def lay_string_def)

lemma put_string_at:
  assumes "length s < 2 ^ 64"
  shows "string_at (put_bytes loc (s @ [0]) pm) loc s"
proof -
  have "unat (of_nat j :: u64) = j" if "j \<le> length s" for j using that assms by (simp add: unsigned_of_nat take_bit_nat_eq_self)
  then show ?thesis by (simp add: string_at_def put_bytes_def nth_append)
qed

lemma string_at_cong: "(\<And>j. j \<le> length s \<Longrightarrow> pm' (p + of_nat j) = pm (p + of_nat j)) \<Longrightarrow> string_at pm' p s = string_at pm p s"
  by (auto simp: string_at_def)

text \<open>An address outside a range is far from its start.\<close>

lemma outside_range:
  fixes a x :: u64
  assumes "unat a + n \<le> 2 ^ 64" and "unat x < unat a \<or> unat a + n \<le> unat x"
  shows "n \<le> unat (x - a)"
  using assms by (auto simp: unat_sub_if')

lemma put_bytes_outside:
  "unat a + length bs \<le> 2 ^ 64 \<Longrightarrow> unat x < unat a \<or> unat a + length bs \<le> unat x \<Longrightarrow> put_bytes a bs pm x = pm x"
  using outside_range [of a "length bs" x] by (simp add: put_bytes_def)

lemma unat_in_area:
  fixes B :: u64
  shows "unat B + lim < 2 ^ 64 \<Longrightarrow> d \<le> lim \<Longrightarrow> unat (B + of_nat d) = unat B + d"
  by (simp add: unat_word_ariths unsigned_of_nat take_bit_nat_eq_self)

lemma lay_vec_strings:
  assumes "\<forall>s \<in> set ss. 0 \<notin> set s" and "c + length ss \<le> 31" and "off + sum_list (map (\<lambda>s. length s + 1) ss) < lim" and "unat B + lim < 2 ^ 64"
    and "lim \<le> 8192" and "pm' = lay_vec c vec (B + of_nat off) ss pm"
  shows "(\<forall>k < length ss. \<exists>d. off \<le> d \<and> d + length (ss ! k) < lim \<and> pwords pm' (vec + 8 * of_nat (c + k)) = B + of_nat d \<and> string_at (pbytes pm') (B + of_nat d) (ss ! k)) \<and>
    pwords pm' (vec + 8 * of_nat (c + length ss)) = 0 \<and>
    (\<forall>a. (\<forall>k \<le> length ss. a \<noteq> vec + 8 * of_nat (c + k)) \<longrightarrow> pwords pm' a = pwords pm a) \<and>
    (\<forall>d. (d < off \<or> lim \<le> d) \<and> unat B + d < 2 ^ 64 \<longrightarrow> pbytes pm' (B + of_nat d) = pbytes pm (B + of_nat d))"
  using assms(1,2,3,6)
proof (induction ss arbitrary: c off pm)
  case (Cons s ss)
  let ?off = "off + length s + 1" and ?pm = "lay_word (vec + 8 * of_nat c) (B + of_nat off) (lay_string (B + of_nat off) s pm)"
  have lim: "off < lim" "?off < lim" using Cons.prems(3) by auto
  note u = unat_in_area [OF assms(4)]
  have e: "pm' = lay_vec (c + 1) vec (B + of_nat ?off) ss ?pm" using Cons.prems(4) by (simp add: ac_simps)
  have "?off + sum_list (map (\<lambda>s. length s + 1) ss) < lim" "\<forall>s \<in> set ss. 0 \<notin> set s" "c + 1 + length ss \<le> 31" using Cons.prems by auto
  from Cons.IH [OF this(2,3,1) e] have I:
    "\<forall>k < length ss. \<exists>d. ?off \<le> d \<and> d + length (ss ! k) < lim \<and> pwords pm' (vec + 8 * of_nat (c + 1 + k)) = B + of_nat d \<and> string_at (pbytes pm') (B + of_nat d) (ss ! k)"
    "pwords pm' (vec + 8 * of_nat (c + 1 + length ss)) = 0"
    "\<forall>a. (\<forall>k \<le> length ss. a \<noteq> vec + 8 * of_nat (c + 1 + k)) \<longrightarrow> pwords pm' a = pwords ?pm a"
    "\<forall>d. (d < ?off \<or> lim \<le> d) \<and> unat B + d < 2 ^ 64 \<longrightarrow> pbytes pm' (B + of_nat d) = pbytes ?pm (B + of_nat d)" by blast+
  have ns: "vec + 8 * of_nat (c + 1 + k) \<noteq> vec + 8 * of_nat c" if "k \<le> length ss" for k
    using slot_inj [of "c + 1 + k" c vec] that Cons.prems(2) by simp
  have "pwords pm' (vec + 8 * of_nat c) = pwords ?pm (vec + 8 * of_nat c)" using I(3) ns by metis
  then have first: "pwords pm' (vec + 8 * of_nat c) = B + of_nat off" by simp
  have "string_at (pbytes pm') (B + of_nat off) s = string_at (pbytes ?pm) (B + of_nat off) s"
  proof (rule string_at_cong)
    fix j assume "j \<le> length s"
    then show "pbytes pm' (B + of_nat off + of_nat j) = pbytes ?pm (B + of_nat off + of_nat j)"
      using I(4) [rule_format, of "off + j"] assms(4) lim by (simp add: add.assoc)
  qed
  then have head: "string_at (pbytes pm') (B + of_nat off) s" using put_string_at [of s] lim assms(5) by simp
  have strs: "\<exists>d. off \<le> d \<and> d + length ((s # ss) ! k) < lim \<and> pwords pm' (vec + 8 * of_nat (c + k)) = B + of_nat d
      \<and> string_at (pbytes pm') (B + of_nat d) ((s # ss) ! k)" if "k < length (s # ss)" for k
  proof (cases k)
    case 0
    then show ?thesis using first head lim by (intro exI [of _ off]) simp
  next
    case (Suc i)
    with that I(1) obtain d where "?off \<le> d" "d + length (ss ! i) < lim" "pwords pm' (vec + 8 * of_nat (c + 1 + i)) = B + of_nat d"
      "string_at (pbytes pm') (B + of_nat d) (ss ! i)" by auto
    then show ?thesis using Suc by (intro exI [of _ d]) (simp add: ac_simps)
  qed
  have frame: "pwords pm' a = pwords pm a" if "\<forall>k \<le> length (s # ss). a \<noteq> vec + 8 * of_nat (c + k)" for a
  proof -
    have "a \<noteq> vec + 8 * of_nat c" using that by (metis add.right_neutral le0)
    moreover have "\<forall>k \<le> length ss. a \<noteq> vec + 8 * of_nat (c + 1 + k)" using that by (metis Suc_le_mono add.assoc length_Cons plus_1_eq_Suc)
    ultimately show ?thesis using I(3) by simp
  qed
  have bytes: "pbytes pm' (B + of_nat d) = pbytes pm (B + of_nat d)" if "(d < off \<or> lim \<le> d) \<and> unat B + d < 2 ^ 64" for d
  proof -
    have "unat (B + of_nat d) = unat B + d" using that by (simp add: unat_word_ariths unsigned_of_nat take_bit_nat_eq_self)
    then have "put_bytes (B + of_nat off) (s @ [0]) (pbytes pm) (B + of_nat d) = pbytes pm (B + of_nat d)"
      using that lim assms(4) u [of off] by (intro put_bytes_outside) auto
    then show ?thesis using I(4) that by auto
  qed
  show ?case using strs I(2) frame bytes by (intro conjI) simp_all
qed simp

definition lay_sees :: "lay_mem \<Rightarrow> u64 \<Rightarrow> u64 \<Rightarrow> u8 list list \<Rightarrow> u8 list list \<Rightarrow> bool" where
  "lay_sees lm B sp args envs \<longleftrightarrow>
     (let argv = sp + 8; envp = argv + 8 * of_nat (length args + 1); aux = envp + 8 * of_nat (length envs + 1) in
      pwords lm sp = of_nat (length args) \<and> lay_vec_at lm B argv args \<and> lay_vec_at lm B envp envs \<and> pwords lm aux = 0 \<and> pwords lm (aux + 8) = 0)"

definition layout :: "u64 \<Rightarrow> u64 \<Rightarrow> u8 list list \<Rightarrow> u8 list list \<Rightarrow> lay_mem \<Rightarrow> lay_mem" where
  "layout B sp args envs lm =
     (let argv = sp + 8; envp = argv + 8 * of_nat (length args + 1); aux = envp + 8 * of_nat (length envs + 1);
          lm1 = lay_vec 0 argv (B + 0x1400) args (lay_word sp (of_nat (length args)) lm);
          lm2 = lay_vec 0 envp B envs lm1 in
      lay_word (aux + 8) 0 (lay_word aux 0 lm2))"

lemma layout_seen:
  assumes args: "\<forall>s \<in> set args. 0 \<notin> set s" "length args \<le> 31" "sum_list (map (\<lambda>s. length s + 1) args) < 0xc00"
    and envs: "\<forall>s \<in> set envs. 0 \<notin> set s" "length envs \<le> 31" "sum_list (map (\<lambda>s. length s + 1) envs) < 0x1400"
    and B: "unat B + 0x2000 < 2 ^ 64"
  shows "lay_sees (layout B sp args envs lm) B sp args envs"
proof -
  let ?n = "length args" and ?e = "length envs" and ?start = "lay_word sp (of_nat (length args)) lm"
  define sl :: "nat \<Rightarrow> u64" where "sl i = sp + 8 * of_nat i" for i
  have sl: "sp + 8 = sl 1" "sp + 8 + 8 * of_nat (?n + 1) = sl (?n + 2)" "sp = sl 0"
    "sp + 8 + 8 * of_nat (?n + 1) + 8 * of_nat (?e + 1) = sl (?n + ?e + 3)" "sl (?n + ?e + 3) + 8 = sl (?n + ?e + 4)"
    by (simp_all add: sl_def algebra_simps)
  have sk: "sl i + 8 * of_nat k = sl (i + k)" for i k by (simp add: sl_def algebra_simps)
  have inj: "sl i = sl j \<longleftrightarrow> i = j" if "i < 1000" "j < 1000" for i j using slot_inj [of i j sp] that by (simp add: sl_def)
  define lm1 where "lm1 = lay_vec 0 (sl 1) (B + of_nat 5120) args ?start"
  define lm2 where "lm2 = lay_vec 0 (sl (?n + 2)) (B + of_nat 0) envs lm1"
  have L: "layout B sp args envs lm = lay_word (sl (?n + ?e + 4)) 0 (lay_word (sl (?n + ?e + 3)) 0 lm2)"
    unfolding layout_def Let_def lm2_def lm1_def sl(4) unfolding sl(5) sl(2) unfolding sl(1) by simp
  have A: "5120 + sum_list (map (\<lambda>s. length s + 1) args) < 8192" "0 + ?n \<le> 31" and E: "0 + sum_list (map (\<lambda>s. length s + 1) envs) < 5120" "0 + ?e \<le> 31"
    using args(2,3) envs(2,3) by simp_all
  have lim: "unat B + 8192 < 2 ^ 64" "unat B + 5120 < 2 ^ 64" using B by simp_all
  note F1 = lay_vec_strings [OF args(1) A(2,1) lim(1) order_refl lm1_def, unfolded sk add_0]
  note F2 = lay_vec_strings [OF envs(1) E(2,1) lim(2) _ lm2_def, unfolded sk add_0]
  have w1: "\<forall>k < ?n. \<exists>d. 5120 \<le> d \<and> d + length (args ! k) < 8192 \<and> pwords lm1 (sl (1 + k)) = B + of_nat d \<and> string_at (pbytes lm1) (B + of_nat d) (args ! k)"
    and z1: "pwords lm1 (sl (1 + ?n)) = 0" and f1: "\<forall>a. (\<forall>k \<le> ?n. a \<noteq> sl (1 + k)) \<longrightarrow> pwords lm1 a = pwords ?start a"
    using F1 by blast+
  have w2: "\<forall>k < ?e. \<exists>d. d + length (envs ! k) < 5120 \<and> pwords lm2 (sl (?n + 2 + k)) = B + of_nat d \<and> string_at (pbytes lm2) (B + of_nat d) (envs ! k)"
    and z2: "pwords lm2 (sl (?n + 2 + ?e)) = 0" and f2: "\<forall>a. (\<forall>k \<le> ?e. a \<noteq> sl (?n + 2 + k)) \<longrightarrow> pwords lm2 a = pwords lm1 a"
    and b2: "\<forall>d. 5120 \<le> d \<and> unat B + d < 2 ^ 64 \<longrightarrow> pbytes lm2 (B + of_nat d) = pbytes lm1 (B + of_nat d)"
    using F2 by auto
  let ?lm = "layout B sp args envs lm"
  have p2: "pwords ?lm (sl i) = pwords lm2 (sl i)" if "i < ?n + ?e + 3" for i
    unfolding L using that args(2) envs(2) by (simp add: inj)
  have p1: "pwords ?lm (sl i) = pwords lm1 (sl i)" if "i < ?n + 2" for i
    using p2 [of i] f2 [rule_format, of "sl i"] that args(2) envs(2) by (simp add: inj)
  have "pwords lm1 (sl 0) = pwords ?start (sl 0)" using f1 args(2) by (simp add: inj)
  then have p0: "pwords ?lm (sl 0) = of_nat ?n" using p1 [of 0] sl(3) by simp
  have bytes: "pbytes ?lm = pbytes lm2" by (simp add: L)
  have v1: "lay_vec_at ?lm B (sl 1) args"
    unfolding lay_vec_at_def sk bytes
  proof (intro conjI allI impI)
    show "pwords ?lm (sl (1 + ?n)) = 0" using p1 [of "1 + ?n"] z1 by simp
    fix k assume k: "k < ?n"
    with w1 obtain d where d: "5120 \<le> d" "d + length (args ! k) < 8192" "pwords lm1 (sl (1 + k)) = B + of_nat d" "string_at (pbytes lm1) (B + of_nat d) (args ! k)" by blast
    have "string_at (pbytes lm2) (B + of_nat d) (args ! k)"
      using d(4) string_at_cong [of "args ! k" "pbytes lm2" "B + of_nat d" "pbytes lm1"] b2 d(1,2) lim(1)
      by (simp add: add.assoc of_nat_add [symmetric] del: of_nat_add)
    then show "\<exists>d. d + length (args ! k) < 8192 \<and> pwords ?lm (sl (1 + k)) = B + of_nat d \<and> string_at (pbytes lm2) (B + of_nat d) (args ! k)"
      using d(2,3) p1 [of "1 + k"] k by (intro exI [of _ d]) simp
  qed
  have v2: "lay_vec_at ?lm B (sl (?n + 2)) envs"
    unfolding lay_vec_at_def sk bytes
  proof (intro conjI allI impI)
    show "pwords ?lm (sl (?n + 2 + ?e)) = 0" using p2 [of "?n + 2 + ?e"] z2 by simp
    fix k assume k: "k < ?e"
    with w2 obtain d where "d + length (envs ! k) < 5120" "pwords lm2 (sl (?n + 2 + k)) = B + of_nat d" "string_at (pbytes lm2) (B + of_nat d) (envs ! k)" by blast
    then show "\<exists>d. d + length (envs ! k) < 8192 \<and> pwords ?lm (sl (?n + 2 + k)) = B + of_nat d \<and> string_at (pbytes lm2) (B + of_nat d) (envs ! k)"
      using p2 [of "?n + 2 + k"] k by (intro exI [of _ d]) simp
  qed
  have "pwords ?lm (sl (?n + ?e + 3)) = 0" "pwords ?lm (sl (?n + ?e + 4)) = 0"
    unfolding L using args(2) envs(2) by (simp_all add: inj)
  then show ?thesis unfolding lay_sees_def Let_def sl(4) unfolding sl(5) sl(2) unfolding sl(1) using p0 v1 v2 by (simp only: sl(3) [symmetric] simp_thms)
qed

section \<open>The memory of bytes follows the layout\<close>

lemma word_bytes_length [simp]: "length (word_bytes v) = 8"
  by (simp add: word_bytes_def)

lemma get_word_bytes:
  assumes "\<And>i. i < 8 \<Longrightarrow> pm (a + of_nat i) = ucast (drop_bit (8 * i) v)"
  shows "get_word pm a = v"
proof -
  have step: "push_bit 8 (drop_bit (8 * Suc i) v) OR ucast (ucast (drop_bit (8 * i) v) :: u8) = drop_bit (8 * i) v" for i
    by (rule bit_word_eqI) (auto simp: bit_simps algebra_simps)
  have "foldr (\<lambda>i w. push_bit 8 w OR ucast (pm (a + of_nat i))) [8 - k..<8] 0 = drop_bit (8 * (8 - k)) v" if "k \<le> 8" for k
    using that
  proof (induction k)
    case 0
    show ?case by (rule bit_word_eqI) (auto simp: bit_simps dest: bit_imp_le_length)
  next
    case (Suc k)
    have s: "8 - k = Suc (8 - Suc k)" using Suc.prems by simp
    have e: "[8 - Suc k..<8] = (8 - Suc k) # [8 - k..<8]" unfolding s by (rule upt_conv_Cons) (use Suc.prems in simp)
    have "foldr (\<lambda>i w. push_bit 8 w OR ucast (pm (a + of_nat i))) [8 - k..<8] 0 = drop_bit (8 * Suc (8 - Suc k)) v"
      using Suc s by simp
    then show ?case unfolding e using assms [of "8 - Suc k"] step [of "8 - Suc k"] by simp
  qed
  from this [of 8] show ?thesis by (simp add: get_word_def)
qed

lemma get_word_cong: "(\<And>i. i < 8 \<Longrightarrow> pm' (a + of_nat i) = pm (a + of_nat i)) \<Longrightarrow> get_word pm' a = get_word pm a"
  unfolding get_word_def by (rule foldr_cong) simp_all

text \<open>
  The strings get 8 KB at \<open>B\<close>, and the stack \<open>N\<close> words at \<open>sp\<close> above them; the kernel can write both.
\<close>

definition room :: "mm_info \<Rightarrow> u64 \<Rightarrow> u64 \<Rightarrow> nat \<Rightarrow> bool" where
  "room m B sp N \<longleftrightarrow> N < 1000 \<and> unat sp + 8 * N < 2 ^ 64 \<and> unat B + 8192 \<le> unat sp
     \<and> (\<forall>t < 8 * N. user_writable m (sp + of_nat t)) \<and> (\<forall>d < 8192. user_writable m (B + of_nat d))"

definition lays :: "u64 \<Rightarrow> u64 \<Rightarrow> nat \<Rightarrow> lay_mem \<Rightarrow> pmem \<Rightarrow> bool" where
  "lays B sp N lm pm \<longleftrightarrow> (\<forall>d < 8192. pm (B + of_nat d) = pbytes lm (B + of_nat d))
     \<and> (\<forall>i < N. get_word pm (sp + 8 * of_nat i) = pwords lm (sp + 8 * of_nat i))"

lemma slot_byte: "sp + 8 * of_nat k + of_nat i = sp + (of_nat (8 * k + i) :: u64)"
  by simp

lemma put_word_lays:
  assumes "room m B sp N" and "lays B sp N lm pm" and "k < N"
  shows "\<exists>pm'. put_word m (sp + 8 * of_nat k) v pm = Some pm' \<and> lays B sp N (lay_word (sp + 8 * of_nat k) v lm) pm'"
proof -
  let ?a = "sp + 8 * of_nat k" and ?pm = "put_bytes (sp + 8 * of_nat k) (word_bytes v) pm"
  have r: "unat sp + 8 * N < 2 ^ 64" "unat B + 8192 \<le> unat sp" "\<forall>t < 8 * N. user_writable m (sp + of_nat t)" "N < 1000"
    using assms(1) by (simp_all add: room_def)
  note u = unat_in_area [OF r(1)]
  have a: "unat (sp + of_nat (8 * k)) = unat sp + 8 * k" using assms(3) by (intro u) simp
  have w: "user_writable m (?a + of_nat i)" if "i < 8" for i
    unfolding slot_byte by (rule r(3) [rule_format]) (use assms(3) that in simp)
  then have p: "put_word m ?a v pm = Some ?pm" by (simp add: put_word_def user_write_def list_all_iff)
  have "?pm (B + of_nat d) = pm (B + of_nat d)" if "d < 8192" for d
    using that a r assms(3) unat_in_area [of B 8192 d] by (intro put_bytes_outside) auto
  moreover have "get_word ?pm ?a = v"
  proof (rule get_word_bytes)
    fix i :: nat assume i: "i < 8"
    have "unat (of_nat i :: u64) = i" using i by (simp add: unsigned_of_nat take_bit_nat_eq_self)
    then show "?pm (?a + of_nat i) = ucast (drop_bit (8 * i) v)" using i by (simp add: put_bytes_def) (simp add: word_bytes_def)
  qed
  moreover have "get_word ?pm (sp + 8 * of_nat j) = get_word pm (sp + 8 * of_nat j)" if j: "j < N" "j \<noteq> k" for j
  proof (rule get_word_cong)
    fix i :: nat assume i: "i < 8"
    have b: "unat (sp + of_nat (8 * j + i)) = unat sp + (8 * j + i)" using j i by (intro u) simp
    show "?pm (sp + 8 * of_nat j + of_nat i) = pm (sp + 8 * of_nat j + of_nat i)"
      unfolding slot_byte using a b j i assms(3) r(1) by (intro put_bytes_outside) auto
  qed
  moreover have "sp + 8 * of_nat j = ?a \<longleftrightarrow> j = k" if "j < N" for j
    using slot_inj [of j k sp] that assms(3) r(4) by simp
  ultimately have "lays B sp N (lay_word ?a v lm) ?pm" using assms(2) unfolding lays_def by auto
  then show ?thesis using p by blast
qed

lemma put_string_lays:
  assumes "room m B sp N" and "lays B sp N lm pm" and "off + length s < 8192"
  shows "\<exists>pm'. put_string m (B + of_nat off) s pm = Some pm' \<and> lays B sp N (lay_string (B + of_nat off) s lm) pm'"
proof -
  let ?a = "B + of_nat off :: u64" and ?pm = "put_bytes (B + of_nat off) (s @ [0]) pm"
  have r: "unat sp + 8 * N < 2 ^ 64" "unat B + 8192 \<le> unat sp" "\<forall>d < 8192. user_writable m (B + of_nat d)"
    using assms(1) by (simp_all add: room_def)
  have a: "unat ?a = unat B + off" using r(1,2) assms(3) unat_in_area [of B 8192 off] by simp
  have "user_writable m (?a + of_nat i)" if "i < length (s @ [0])" for i
    using r(3) [rule_format, of "off + i"] that assms(3) by (simp add: add.assoc)
  then have p: "put_string m ?a s pm = Some ?pm" by (simp add: put_string_def user_write_def list_all_iff)
  have "get_word ?pm (sp + 8 * of_nat j) = get_word pm (sp + 8 * of_nat j)" if j: "j < N" for j
  proof (rule get_word_cong)
    fix i :: nat assume i: "i < 8"
    have b: "unat (sp + of_nat (8 * j + i)) = unat sp + (8 * j + i)" using j i by (intro unat_in_area [OF r(1)]) simp
    show "?pm (sp + 8 * of_nat j + of_nat i) = pm (sp + 8 * of_nat j + of_nat i)"
      unfolding slot_byte using a b assms(3) r by (intro put_bytes_outside) auto
  qed
  then have "lays B sp N (lay_string ?a s lm) ?pm" using assms(2) unfolding lays_def by (simp add: put_bytes_def)
  then show ?thesis using p by blast
qed

lemma prepare_vec_lays:
  assumes "room m B sp N" and "unat B + 8192 < 2 ^ 64" and "lim \<le> 8192"
  shows "\<forall>s \<in> set ss. 0 \<notin> set s \<Longrightarrow> c + length ss \<le> 31 \<Longrightarrow> off + sum_list (map (\<lambda>s. length s + 1) ss) < lim \<Longrightarrow>
    k + c + length ss < N \<Longrightarrow> lays B sp N lm pm \<Longrightarrow>
    \<exists>pm'. prepare_vec m c (sp + 8 * of_nat k) (B + of_nat off) (B + of_nat lim) (map (\<lambda>s. s @ [0]) ss) pm = Some pm'
      \<and> lays B sp N (lay_vec c (sp + 8 * of_nat k) (B + of_nat off) ss lm) pm'"
proof (induction ss arbitrary: c off lm pm)
  case Nil
  have e: "sp + 8 * of_nat k + 8 * of_nat c = sp + 8 * of_nat (k + c)" by (simp add: algebra_simps)
  show ?case using put_word_lays [OF assms(1) Nil.prems(5), of "k + c" 0] Nil.prems(4) by (simp add: e)
next
  case (Cons s ss)
  have e: "sp + 8 * of_nat k + 8 * of_nat c = sp + 8 * of_nat (k + c)" by (simp add: algebra_simps)
  have o: "B + of_nat off + of_nat (length s + 1) = B + of_nat (off + length s + 1)" by (simp add: add.assoc)
  have b: "off + length s < 8192" "k + c < N" "off + length s + 1 < lim" "\<not> 31 \<le> c" using Cons.prems assms(3) by auto
  obtain pm1 where 1: "put_string m (B + of_nat off) s pm = Some pm1" "lays B sp N (lay_string (B + of_nat off) s lm) pm1"
    using put_string_lays [OF assms(1) Cons.prems(5) b(1)] by blast
  obtain pm2 where 2: "put_word m (sp + 8 * of_nat (k + c)) (B + of_nat off) pm1 = Some pm2"
    "lays B sp N (lay_word (sp + 8 * of_nat (k + c)) (B + of_nat off) (lay_string (B + of_nat off) s lm)) pm2"
    using put_word_lays [OF assms(1) 1(2) b(2)] by blast
  have lt: "B + of_nat (off + length s + 1) < B + of_nat lim"
    using b(3) assms(2,3) unat_in_area [of B 8192 "off + length s + 1"] unat_in_area [of B 8192 lim] by (simp add: word_less_nat_alt)
  have prems: "\<forall>s \<in> set ss. 0 \<notin> set s" "c + 1 + length ss \<le> 31" "off + length s + 1 + sum_list (map (\<lambda>s. length s + 1) ss) < lim"
    "k + (c + 1) + length ss < N" using Cons.prems by auto
  obtain pm3 where 3: "prepare_vec m (c + 1) (sp + 8 * of_nat k) (B + of_nat (off + length s + 1)) (B + of_nat lim) (map (\<lambda>s. s @ [0]) ss) pm2 = Some pm3"
    "lays B sp N (lay_vec (c + 1) (sp + 8 * of_nat k) (B + of_nat (off + length s + 1)) ss
      (lay_word (sp + 8 * of_nat (k + c)) (B + of_nat off) (lay_string (B + of_nat off) s lm))) pm3"
    using Cons.IH [OF prems 2(2)] by blast
  have z: "0 \<in> set (s @ [0])" "cstr (s @ [0]) = s" using Cons.prems(1) cstr_string by simp_all
  have "prepare_vec m c (sp + 8 * of_nat k) (B + of_nat off) (B + of_nat lim) (map (\<lambda>s. s @ [0]) (s # ss)) pm = Some pm3"
    unfolding list.map(2) prepare_vec.simps(2) z(2) o e Let_def using b(4) z(1) 1(1) 2(1) 3(1) lt by simp
  moreover have "lay_vec c (sp + 8 * of_nat k) (B + of_nat off) (s # ss) lm =
     lay_vec (c + 1) (sp + 8 * of_nat k) (B + of_nat (off + length s + 1)) ss (lay_word (sp + 8 * of_nat (k + c)) (B + of_nat off) (lay_string (B + of_nat off) s lm))"
    unfolding lay_vec.simps(2) o e ..
  ultimately show ?case using 3(2) by (intro exI [of _ pm3]) simp
qed

text \<open>What the layout shows, the memory of bytes shows.\<close>

lemma lays_vec_at:
  assumes "room m B sp N" and "0 < B" and "lays B sp N lm pm" and "lay_vec_at lm B (sp + 8 * of_nat k) ss" and "k + length ss < N"
  shows "vec_at pm (sp + 8 * of_nat k) ss"
  unfolding vec_at_def
proof (intro conjI allI impI)
  have e: "sp + 8 * of_nat k + 8 * of_nat i = sp + 8 * of_nat (k + i)" for i by (simp add: algebra_simps)
  have g: "get_word pm (sp + 8 * of_nat k + 8 * of_nat i) = pwords lm (sp + 8 * of_nat k + 8 * of_nat i)" if "i \<le> length ss" for i
    unfolding e by (rule assms(3) [unfolded lays_def, THEN conjunct2, rule_format]) (use that assms(5) in simp)
  show "get_word pm (sp + 8 * of_nat k + 8 * of_nat (length ss)) = 0" using g assms(4) by (simp add: lay_vec_at_def)
  fix i assume i: "i < length ss"
  with assms(4) obtain d where d: "d + length (ss ! i) < 8192" "pwords lm (sp + 8 * of_nat k + 8 * of_nat i) = B + of_nat d"
    "string_at (pbytes lm) (B + of_nat d) (ss ! i)" unfolding lay_vec_at_def by blast
  have "unat B + 8192 < 2 ^ 64 \<or> N = 0" "N \<noteq> 0" using assms(1,5) by (auto simp: room_def)
  then have "unat (B + of_nat d) = unat B + d" using d(1) by (intro unat_in_area [of B 8192]) auto
  moreover have "0 < unat B" using assms(2) by (simp add: word_less_nat_alt)
  ultimately show "get_word pm (sp + 8 * of_nat k + 8 * of_nat i) \<noteq> 0" using g i d(2) by force
  have "string_at pm (B + of_nat d) (ss ! i) = string_at (pbytes lm) (B + of_nat d) (ss ! i)"
  proof (rule string_at_cong)
    fix j assume "j \<le> length (ss ! i)"
    then show "pm (B + of_nat d + of_nat j) = pbytes lm (B + of_nat d + of_nat j)"
      using assms(3) d(1) unfolding lays_def by (simp add: add.assoc of_nat_add [symmetric] del: of_nat_add)
  qed
  then show "string_at pm (get_word pm (sp + 8 * of_nat k + 8 * of_nat i)) (ss ! i)" using g i d(2,3) by simp
qed

lemma lays_sees:
  assumes "room m B sp N" and "0 < B" and "lays B sp N lm pm" and "lay_sees lm B sp args envs" and "N = length args + length envs + 5"
  shows "program_sees pm sp args envs"
proof -
  have e: "sp + 8 = sp + 8 * of_nat 1" "sp + 8 + 8 * of_nat (length args + 1) = sp + 8 * of_nat (length args + 2)"
    "sp + 8 + 8 * of_nat (length args + 1) + 8 * of_nat (length envs + 1) = sp + 8 * of_nat (length args + length envs + 3)"
    "sp + 8 * of_nat (length args + length envs + 3) + 8 = sp + 8 * of_nat (length args + length envs + 4)" by (simp_all add: algebra_simps)
  have g: "get_word pm (sp + 8 * of_nat i) = pwords lm (sp + 8 * of_nat i)" if "i < N" for i using assms(3) that by (simp add: lays_def)
  have s: "pwords lm sp = of_nat (length args)" "lay_vec_at lm B (sp + 8 * of_nat 1) args" "lay_vec_at lm B (sp + 8 * of_nat (length args + 2)) envs"
    "pwords lm (sp + 8 * of_nat (length args + length envs + 3)) = 0" "pwords lm (sp + 8 * of_nat (length args + length envs + 4)) = 0"
    using assms(4) unfolding lay_sees_def Let_def e(3) unfolding e(4) unfolding e(2) unfolding e(1) by blast+
  have v: "vec_at pm (sp + 8 * of_nat 1) args" "vec_at pm (sp + 8 * of_nat (length args + 2)) envs"
    by (rule lays_vec_at [OF assms(1-3) s(2)], use assms(5) in simp) (rule lays_vec_at [OF assms(1-3) s(3)], use assms(5) in simp)
  have "get_word pm sp = of_nat (length args)" using g [of 0] s(1) assms(5) by simp
  moreover have "get_word pm (sp + 8 * of_nat (length args + length envs + 3)) = 0" "get_word pm (sp + 8 * of_nat (length args + length envs + 4)) = 0"
    by (subst g, use assms(5) s(4) in simp, use s(4) in simp) (subst g, use assms(5) s(5) in simp, use s(5) in simp)
  ultimately show ?thesis unfolding program_sees_def Let_def e(3) unfolding e(4) unfolding e(2) unfolding e(1) using v by blast
qed

section \<open>The mappings of a new program\<close>

text \<open>
  The 8 KB behind the first writable segment and the 128 KB of the stack belong to no mapping of the program that was
  loaded, and the former end below the latter.
\<close>

abbreviation STACK_LOW :: u64 where "STACK_LOW \<equiv> 0x7FFFFFFE0000"

definition break_is_free :: "mm_info \<Rightarrow> bool" where
  "break_is_free m \<longleftrightarrow> (let B = initial_brk m in
     0x1000 < B \<and> unat B + 0x2000 \<le> unat STACK_LOW \<and>
     (\<forall>v \<in> set (mmap_list m). vm_start v < vm_end v \<and> (vm_end v \<le> B \<or> B + 0x2000 \<le> vm_start v) \<and> (vm_end v \<le> STACK_LOW \<or> USER_STACK \<le> vm_start v)))"

lemma set_insert_after: "set (insert_after v x xs) = insert v (insert x (set xs))"
  by (induction xs arbitrary: x) auto

lemma set_vma_list_insert: "set (mmap_list (vma_list_insert v m)) = insert v (set (mmap_list m))"
  by (auto simp: vma_list_insert_def set_insert_after split: list.splits)

lemma set_upd_brk_vma:
  "v \<in> set vs \<Longrightarrow> vm_start v = b \<Longrightarrow> (\<forall>w \<in> set vs. vm_start w = b \<longrightarrow> w = v) \<Longrightarrow>
   f v \<in> set (upd_brk_vma b f vs) \<and> set (upd_brk_vma b f vs) \<subseteq> insert (f v) (set vs)"
proof (induction vs)
  case (Cons w vs)
  show ?case
  proof (cases "vm_start w = b")
    case True
    with Cons.prems(3) have "w = v" by (elim ballE [of _ _ w]) simp_all
    moreover have "upd_brk_vma b f (w # vs) = f w # vs" using True by simp
    ultimately show ?thesis by auto
  next
    case False
    then have "v \<in> set vs" using Cons.prems(1,2) by auto
    moreover have "\<forall>w \<in> set vs. vm_start w = b \<longrightarrow> w = v" using Cons.prems(3) by (meson list.set_intros(2))
    ultimately have "f v \<in> set (upd_brk_vma b f vs) \<and> set (upd_brk_vma b f vs) \<subseteq> insert (f v) (set vs)"
      by (rule Cons.IH [OF _ Cons.prems(2)])
    moreover have "upd_brk_vma b f (w # vs) = w # upd_brk_vma b f vs" using False by simp
    ultimately show ?thesis by auto
  qed
qed simp

lemma user_writable_by:
  assumes "v \<in> set (mmap_list m)" and "vma_has a v" and "\<forall>w \<in> set (mmap_list m). vma_has a w \<longrightarrow> vm_flags w = VM_READ OR VM_WRITE"
    and "0x1000 < a" and "a < USER_STACK"
  shows "user_writable m a"
proof -
  have "find_vma (mmap_list m) a \<noteq> None" using assms(1,2) find_vma_None by blast
  then obtain w where w: "find_vma (mmap_list m) a = Some w" by blast
  then have "w \<in> set (mmap_list m)" "vma_has a w" by (auto simp: find_vma_def find_Some_iff)
  then have "vm_flags w = VM_READ OR VM_WRITE" using assms(3) by blast
  moreover have "a \<le> USER_MAX_ADDR" using assms(5) by (simp add: word_less_nat_alt word_le_nat_alt)
  ultimately show ?thesis using w assms(4) by (simp add: user_writable_def check_access_def)
qed

lemma start_maps:
  assumes "break_is_free m" and "B = initial_brk m"
    and m2: "m2 = snd (sys_sbrk True 0x2000 (set_vm_areas (m\<lparr>start_brk := B, brk_addr := B, start_stack := USER_STACK - 4096 * 32\<rparr>)))"
  shows "B \<le> a \<Longrightarrow> a < B + 0x2000 \<Longrightarrow> user_writable m2 a" and "STACK_LOW \<le> a \<Longrightarrow> a < USER_STACK \<Longrightarrow> user_writable m2 a"
proof -
  have B: "0x1000 < B" "unat B + 0x2000 \<le> 0x7FFFFFFE0000"
    and fr: "\<And>v. v \<in> set (mmap_list m) \<Longrightarrow> vm_start v < vm_end v \<and> (vm_end v \<le> B \<or> B + 0x2000 \<le> vm_start v) \<and> (vm_end v \<le> STACK_LOW \<or> USER_STACK \<le> vm_start v)"
    using assms(1) unfolding break_is_free_def Let_def assms(2) [symmetric] by simp_all
  have u: "unat (B + 0x2000) = unat B + 0x2000" using B(2) by (simp add: unat_word_ariths)
  define m1 where "m1 = set_vm_areas (m\<lparr>start_brk := B, brk_addr := B, start_stack := USER_STACK - 4096 * 32\<rparr>)"
  define stk where "stk = new_vma STACK_LOW USER_STACK (VM_READ OR VM_WRITE)"
  define nv where "nv = new_vma B B (VM_READ OR VM_WRITE)"
  define bv where "bv = nv\<lparr>vm_end := B + 0x2000\<rparr>"
  have s1: "set (mmap_list m1) = insert stk (set (mmap_list m))" "start_brk m1 = B" "brk_addr m1 = B"
    by (simp_all add: m1_def set_vm_areas_def set_vma_list_insert stk_def) (simp_all add: vma_list_insert_def)
  have no: "vm_start v \<noteq> B" if "v \<in> set (mmap_list m1)" for v
  proof (cases "v = stk")
    case True
    then show ?thesis using B by (auto simp: stk_def new_vma_def)
  next
    case False
    then have "vm_start v < vm_end v" "vm_end v \<le> B \<or> B + 0x2000 \<le> vm_start v" using that fr s1(1) by auto
    then show ?thesis using u by (auto simp: word_less_nat_alt word_le_nat_alt)
  qed
  then have "brk_vma m1 = None" by (simp add: brk_vma_def find_None_iff s1(2))
  then have w: "with_brk_seg True m1 = Some (nv, vma_list_insert nv m1)"
    by (simp add: with_brk_seg_def create_brk_seg_def nv_def s1(2))
  have gt: "B < B + 0x2000" using u by (simp add: word_less_nat_alt)
  let ?f = "\<lambda>v. v\<lparr>vm_end := vm_end v + page_up 0x2000 div 4096 * 4096\<rparr>"
  have "page_up 0x2000 div 4096 * 4096 = (0x2000 :: u64)" by (simp add: page_up_def)
  then have f: "?f nv = bv" by (simp add: bv_def nv_def new_vma_def)
  have "mmap_list m2 = upd_brk_vma B ?f (mmap_list (vma_list_insert nv m1))"
    unfolding m2 m1_def [symmetric] sys_sbrk_def Let_def w s1(3) using gt s1(2) by (simp add: nv_def new_vma_def vma_list_insert_def)
  moreover have "\<forall>v \<in> set (mmap_list (vma_list_insert nv m1)). vm_start v = B \<longrightarrow> v = nv" using no by (auto simp: set_vma_list_insert)
  moreover have "nv \<in> set (mmap_list (vma_list_insert nv m1))" "vm_start nv = B" by (simp add: set_vma_list_insert) (simp add: nv_def new_vma_def)
  moreover have "set (mmap_list (vma_list_insert nv m1)) = insert nv (insert stk (set (mmap_list m)))" by (simp only: set_vma_list_insert s1(1))
  ultimately have s2: "bv \<in> set (mmap_list m2)" "set (mmap_list m2) \<subseteq> insert bv (insert nv (insert stk (set (mmap_list m))))"
    using set_upd_brk_vma [of nv "mmap_list (vma_list_insert nv m1)" B ?f, unfolded f] by simp_all
  have s3: "stk \<in> set (mmap_list m2)"
  proof -
    have "w \<in> set (upd_brk_vma b g vs)" if "w \<in> set vs" "vm_start w \<noteq> b" for w b g vs using that by (induction vs) auto
    then show ?thesis using \<open>mmap_list m2 = _\<close> no [of stk] by (simp add: set_vma_list_insert s1(1))
  qed
  have fl: "vm_flags bv = VM_READ OR VM_WRITE" "vm_flags nv = VM_READ OR VM_WRITE" "vm_flags stk = VM_READ OR VM_WRITE"
    by (simp_all add: bv_def nv_def stk_def new_vma_def)
  have hs: "vma_has a bv \<longleftrightarrow> B \<le> a \<and> a < B + 0x2000" "vma_has a stk \<longleftrightarrow> STACK_LOW \<le> a \<and> a < USER_STACK" for a
    by (simp_all add: vma_has_def bv_def nv_def stk_def new_vma_def)
  show "user_writable m2 a" if "B \<le> a" "a < B + 0x2000"
  proof (rule user_writable_by [OF s2(1)])
    show "vma_has a bv" using that hs by simp
    have "\<not> vma_has a v" if "v \<in> set (mmap_list m)" for v
      using fr [OF that] \<open>B \<le> a\<close> \<open>a < B + 0x2000\<close> unfolding vma_has_def by auto
    then show "\<forall>w \<in> set (mmap_list m2). vma_has a w \<longrightarrow> vm_flags w = VM_READ OR VM_WRITE" using s2(2) fl by auto
    show "0x1000 < a" "a < USER_STACK" using that B u by (auto simp: word_less_nat_alt word_le_nat_alt)
  qed
  show "user_writable m2 a" if "STACK_LOW \<le> a" "a < USER_STACK"
  proof (rule user_writable_by [OF s3])
    show "vma_has a stk" using that hs by simp
    have "\<not> vma_has a v" if "v \<in> set (mmap_list m)" for v
      using fr [OF that] \<open>STACK_LOW \<le> a\<close> \<open>a < USER_STACK\<close> unfolding vma_has_def by auto
    then show "\<forall>w \<in> set (mmap_list m2). vma_has a w \<longrightarrow> vm_flags w = VM_READ OR VM_WRITE" using s2(2) fl by auto
    show "0x1000 < a" "a < USER_STACK" using that by (auto simp: word_less_nat_alt word_le_nat_alt)
  qed
qed

section \<open>Properties\<close>

lemma initial_sp_unat:
  assumes "argc \<le> 31" and "envc \<le> 31"
  shows "unat (initial_sp argc envc) = (0x0000800000000000 - 8 * (argc + envc + 5)) div 16 * 16"
proof -
  let ?n = "argc + envc + 5"
  have n: "1 + (argc + 1) + (envc + 1) + 2 = ?n" by simp
  have u: "unat (8 * of_nat ?n :: u64) = 8 * ?n" using assms by (simp add: unsigned_of_nat take_bit_nat_eq_self unat_word_ariths)
  have sub: "unat (USER_STACK - 8 * of_nat ?n) = 0x0000800000000000 - 8 * ?n"
  proof -
    have "unat (USER_STACK - w) = 0x0000800000000000 - unat w" if "unat w \<le> 1000" for w :: u64
      using that by (simp add: unat_sub word_le_nat_alt)
    from this [of "8 * of_nat ?n"] show ?thesis unfolding u using assms by simp
  qed
  have m: "(0xf :: u64) = mask 4" by (simp add: mask_eq_decr_exp)
  have a: "unat (x AND NOT (0xf :: u64)) = unat x div 16 * 16" for x
  proof -
    have "x AND NOT 0xf = push_bit 4 (drop_bit 4 x)" unfolding m by (rule bit_word_eqI) (auto simp: bit_simps)
    then have "unat (x AND NOT 0xf) = take_bit 64 (unat x div 16 * 16)"
      by (simp add: push_bit_eq_mult unat_drop_bit_eq drop_bit_eq_div take_bit_eq_mod unat_word_ariths mod_mult_left_eq)
    moreover have "unat x div 16 * 16 < 2 ^ 64" 
    proof -
      have "unat x < 2 ^ 64" using unsigned_less [of x] by simp
      then show ?thesis using div_times_less_eq_dividend [of "unat x" 16] by linarith
    qed
    ultimately show ?thesis by (simp add: take_bit_eq_mod)
  qed
  show "unat (initial_sp argc envc) = (0x0000800000000000 - 8 * ?n) div 16 * 16"
    unfolding initial_sp_def n a sub ..
qed

lemma initial_sp_slots:
  assumes "argc \<le> 31" and "envc \<le> 31"
  shows "initial_sp argc envc mod 16 = 0" and "USER_STACK - 1024 \<le> initial_sp argc envc"
proof -
  note sp = initial_sp_unat [OF assms]
  have "unat (initial_sp argc envc mod 16) = 0" by (simp add: unat_mod_distrib sp)
  then show "initial_sp argc envc mod 16 = 0" by (simp only: unat_eq_zero)
  show "USER_STACK - 1024 \<le> initial_sp argc envc" unfolding word_le_nat_alt sp using assms by simp
qed

lemma user_vec_facts:
  "user_vec m um ps ss \<Longrightarrow> \<forall>s \<in> set ss. 0 \<notin> set s"
  by (auto simp: user_vec_def user_string_def list_all2_conv_all_nth in_set_conv_nth)

text \<open>The stack and the strings of a new program have their room.\<close>

lemma start_room:
  assumes "break_is_free m" and "B = initial_brk m" and "n \<le> 31" "e \<le> 31"
    and "m2 = snd (sys_sbrk True 0x2000 (set_vm_areas (m\<lparr>start_brk := B, brk_addr := B, start_stack := USER_STACK - 4096 * 32\<rparr>)))"
  shows "room m2 B (initial_sp n e) (n + e + 5)" and "0 < B" and "unat B + 0x2000 < 2 ^ 64"
proof -
  have B: "0x1000 < B" "unat B + 0x2000 \<le> 0x7FFFFFFE0000" using assms(1,2) by (simp_all add: break_is_free_def Let_def)
  then show "0 < B" "unat B + 0x2000 < 2 ^ 64" by (auto simp: word_less_nat_alt)
  note M = start_maps [OF assms(1,2,5)]
  have s: "unat (initial_sp n e) + 8 * (n + e + 5) \<le> 0x800000000000" "0x7FFFFFFFFC00 \<le> unat (initial_sp n e)"
    using initial_sp_unat [OF assms(3,4)] assms(3,4) by simp_all
  have u: "unat (initial_sp n e + of_nat t) = unat (initial_sp n e) + t" if "t < 8 * (n + e + 5)" for t
    using that s by (intro unat_in_area [of _ "8 * (n + e + 5)"]) auto
  have b: "unat (B + of_nat d) = unat B + d" if "d \<le> 8192" for d using that B by (intro unat_in_area [of _ 8192]) auto
  have "user_writable m2 (initial_sp n e + of_nat t)" if "t < 8 * (n + e + 5)" for t
    by (rule M(2)) (use u [OF that] s that in \<open>simp_all add: word_less_nat_alt word_le_nat_alt\<close>)
  moreover have "user_writable m2 (B + of_nat d)" if "d < 8192" for d
    by (rule M(1)) (use b [of d] b [of 8192] that in \<open>simp_all add: word_less_nat_alt word_le_nat_alt\<close>)
  ultimately show "room m2 B (initial_sp n e) (n + e + 5)"
    using s B assms(3,4) by (simp add: room_def)
qed

text \<open>The writes of \<open>start_process\<close>, all of which succeed, and what they leave.\<close>

lemma start_writes:
  assumes args: "\<forall>s \<in> set args. 0 \<notin> set s" "length args \<le> 31" "sum_list (map (\<lambda>s. length s + 1) args) < 0xc00"
    and envs: "\<forall>s \<in> set envs. 0 \<notin> set s" "length envs \<le> 31" "sum_list (map (\<lambda>s. length s + 1) envs) < 0x1400"
    and room: "room m B sp (length args + length envs + 5)" "0 < B" "unat B + 0x2000 < 2 ^ 64"
    and argv: "argv = sp + 8" and envp: "envp = argv + 8 * of_nat (length args + 1)" and aux: "aux = envp + 8 * of_nat (length envs + 1)"
  obtains pm0 pm1 pm2 pm3 pm4 where "put_word m sp (of_nat (length args)) pm = Some pm0"
    "prepare_vec m 0 argv (B + 0x1400) (B + 0x1400 + 0xc00) (map (\<lambda>s. s @ [0]) args) pm0 = Some pm1"
    "prepare_vec m 0 envp B (B + 0x1400) (map (\<lambda>s. s @ [0]) envs) pm1 = Some pm2"
    "put_word m aux 0 pm2 = Some pm3" "put_word m (aux + 8) 0 pm3 = Some pm4" "program_sees pm4 sp args envs"
proof -
  let ?n = "length args" and ?e = "length envs" and ?N = "length args + length envs + 5" and ?z = "map (\<lambda>s. s @ [0 :: u8])"
  let ?lm = "\<lparr>pbytes = pm, pwords = get_word pm\<rparr>"
  have a: "argv = sp + 8 * of_nat 1" "envp = sp + 8 * of_nat (?n + 2)" "aux = sp + 8 * of_nat (?n + ?e + 3)" "aux + 8 = sp + 8 * of_nat (?n + ?e + 4)"
    unfolding argv envp aux by (simp_all add: algebra_simps)
  have l0: "lays B sp ?N ?lm pm" by (simp add: lays_def)
  obtain pm0 where 0: "put_word m (sp + 8 * of_nat 0) (of_nat ?n) pm = Some pm0" "lays B sp ?N (lay_word (sp + 8 * of_nat 0) (of_nat ?n) ?lm) pm0"
    using put_word_lays [OF room(1) l0, of 0] by auto
  let ?la = "lay_word (sp + 8 * of_nat 0) (of_nat ?n) ?lm"
  let ?lb = "lay_vec 0 argv (B + of_nat 5120) args ?la"
  have "0 + ?n \<le> 31" "5120 + sum_list (map (\<lambda>s. length s + 1) args) < 8192" "1 + 0 + ?n < ?N" using args by simp_all
  from prepare_vec_lays [OF room(1) _ order_refl args(1) this 0(2)] room(3) obtain pm1 where
    1: "prepare_vec m 0 argv (B + of_nat 5120) (B + of_nat 8192) (?z args) pm0 = Some pm1" "lays B sp ?N ?lb pm1" unfolding a(1) by auto
  let ?lc = "lay_vec 0 envp (B + of_nat 0) envs ?lb"
  have "0 + ?e \<le> 31" "0 + sum_list (map (\<lambda>s. length s + 1) envs) < 5120" "?n + 2 + 0 + ?e < ?N" using envs by simp_all
  from prepare_vec_lays [OF room(1) _ _ envs(1) this 1(2)] room(3) obtain pm2 where
    2: "prepare_vec m 0 envp (B + of_nat 0) (B + of_nat 5120) (?z envs) pm1 = Some pm2" "lays B sp ?N ?lc pm2" unfolding a(2) by auto
  obtain pm3 where 3: "put_word m aux 0 pm2 = Some pm3" "lays B sp ?N (lay_word aux 0 ?lc) pm3"
    using put_word_lays [OF room(1) 2(2), of "?n + ?e + 3" 0] unfolding a(3) by auto
  obtain pm4 where 4: "put_word m (aux + 8) 0 pm3 = Some pm4" "lays B sp ?N (lay_word (aux + 8) 0 (lay_word aux 0 ?lc)) pm4"
    using put_word_lays [OF room(1) 3(2), of "?n + ?e + 4" 0] unfolding a(4) by auto
  have "lay_word (aux + 8) 0 (lay_word aux 0 ?lc) = layout B sp args envs ?lm"
    unfolding layout_def Let_def argv [symmetric] unfolding envp [symmetric] unfolding aux [symmetric] by simp
  then have "program_sees pm4 sp args envs"
    using lays_sees [OF room(1,2) 4(2) _ refl] layout_seen [OF args envs room(3)] by simp
  then show ?thesis using that [of pm0 pm1 pm2 pm3 pm4] 0(1) 1(1) 2(1) 3(1) 4(1) by (simp add: add.assoc)
qed

text \<open>
  C35. A program finds exactly the arguments and the environment that \<open>execve\<close> was called with.  They are strings of
  at most 128 characters, no more than 31 of each, that fit in 3 KB and 5 KB; \<open>strnlen_user\<close> makes it necessary that the 127 bytes from the start of
  each string can be read, however short it is (\<open>user_string\<close>).  The task has its path and its old vectors as a running task has
  them.  Then the call succeeds.  The start of the program is given memory for its two mappings, and the loaded program leaves room for the
  break and the stack (\<open>break_is_free\<close>).  Then no write of the kernel faults, and user mode is reached with a stack pointer
  that is aligned to 16 bytes, in the last KB of the stack, at the number of the arguments, the vector of their strings, that of the environment, and the empty auxiliary
  vector.
\<close>

theorem program_finds_arguments:
  assumes "access_ok pp 1 m" "access_ok ap 1 m" "access_ok ep 1 m"
    and vecs: "user_vec m um argv args" "user_vec m um envp envs" and len: "length args \<le> 31" "length envs \<le> 31"
    and size: "sum_list (map (\<lambda>s. length s + 1) args) < 0xc00" "sum_list (map (\<lambda>s. length s + 1) envs) < 0x1400"
    and x: "\<forall>p. ti_path (x_info x) = Some p \<longrightarrow> p \<in> x_paths x" "vec_freed (ti_argv (x_info x))" "vec_freed (ti_envp (x_info x))"
    and load: "jmp \<noteq> 0" "break_is_free m1"
  shows "\<exists>x' sp m' pm'. sys_execve pp ap ep (Inr b) (Inr f) True m um argv envp x = Some (ExecStarts x')
    \<and> start_process (jmp, m1) True True (x_info x') pm = Some (UserMode jmp sp m' pm')
    \<and> program_sees pm' sp args envs \<and> sp mod 16 = 0 \<and> USER_STACK - 1024 \<le> sp"
proof -
  let ?sp = "initial_sp (length args) (length envs)" and ?z = "map (\<lambda>s. s @ [0 :: u8])"
  obtain x' where x': "sys_execve pp ap ep (Inr b) (Inr f) True m um argv envp x = Some (ExecStarts x')"
    "ti_argv (x_info x') = Some (?z args, True)" "ti_envp (x_info x') = Some (?z envs, True)"
    using x assms(1-3) by (cases "ti_path (x_info x)")
      (auto simp: sys_execve_def do_execve_def Let_def kfree_path_def set_task_args_def set_task_env_def copy_vec_strings [OF vecs(1)] copy_vec_strings [OF vecs(2)])
  have c: "count_task_vec (Some (?z args, True)) = length args" "count_task_vec (Some (?z envs, True)) = length envs"
    using len by (simp_all add: count_task_vec_def)
  define B where "B = initial_brk m1"
  define m2 where "m2 = snd (sys_sbrk True 0x2000 (set_vm_areas (m1\<lparr>start_brk := B, brk_addr := B, start_stack := USER_STACK - 4096 * 32\<rparr>)))"
  define av where "av = ?sp + 8"
  define ev where "ev = av + 8 * of_nat (length args + 1)"
  define aux where "aux = ev + 8 * of_nat (length envs + 1)"
  obtain pm0 pm1 pm2 pm3 pm4 where P: "put_word m2 ?sp (of_nat (length args)) pm = Some pm0"
    "prepare_vec m2 0 av (B + 0x1400) (B + 0x1400 + 0xc00) (?z args) pm0 = Some pm1"
    "prepare_vec m2 0 ev B (B + 0x1400) (?z envs) pm1 = Some pm2"
    "put_word m2 aux 0 pm2 = Some pm3" "put_word m2 (aux + 8) 0 pm3 = Some pm4" "program_sees pm4 ?sp args envs"
    by (rule start_writes [OF user_vec_facts [OF vecs(1)] len(1) size(1) user_vec_facts [OF vecs(2)] len(2) size(2)
        start_room [OF load(2) B_def len m2_def] av_def ev_def aux_def, of pm])
  have p: "prepare mm v l u (Some (ss, True)) q = prepare_vec mm 0 v l u ss q" for mm v l u ss q by (simp add: prepare_def)
  have "start_process (jmp, m1) True True (x_info x') pm = Some (UserMode jmp ?sp m2 pm4)"
    unfolding start_process_def prod.case Let_def x'(2,3) c B_def [symmetric] unfolding m2_def [symmetric] av_def [symmetric] unfolding ev_def [symmetric]
    unfolding aux_def [symmetric] p P(1) bind.bind_lunit P(2) unfolding bind.bind_lunit P(3) unfolding bind.bind_lunit P(4) unfolding bind.bind_lunit P(5) using load(1) by simp
  then show ?thesis using x'(1) P(6) initial_sp_slots [OF len] by (intro exI conjI)
qed

text \<open>The memory of a caller with one argument \<open>ls\<close> at address 0x2000.\<close>

definition ls_memory :: umem where
  "ls_memory a = (if a < 0x1000 \<or> 0x20000 \<le> a then None else if a = 0x2000 then Some 0x6c else if a = 0x2001 then Some 0x73 else Some 0)"

theorem program_finds_arguments_witness:
  "\<exists>x' sp m' pm'. sys_execve 0x1000 0x1100 0x1200 (Inr 3) (Inr 5) True low_mm ls_memory [0x2000] [] no_program = Some (ExecStarts x')
    \<and> start_process (0x400000, low_mm) True True (x_info x') (\<lambda>_. 7) = Some (UserMode 0x400000 sp m' pm')
    \<and> program_sees pm' sp [[0x6c, 0x73]] [] \<and> sp mod 16 = 0 \<and> 0x7FFFFFFFFC00 \<le> sp"
proof -
  have a: "access_ok 0x1000 1 low_mm" "access_ok 0x1100 1 low_mm" "access_ok 0x1200 1 low_mm" "access_ok 0x2000 1 low_mm"
    by (simp_all add: low_mm_ok)
  have r: "ls_memory (0x2000 + of_nat j) \<noteq> None" if "j < 127" for j
  proof -
    have "unat (0x2000 + of_nat j :: u64) = 0x2000 + j" using that by (simp add: unat_word_ariths unsigned_of_nat take_bit_nat_eq_self)
    then have "\<not> (0x2000 + of_nat j < (0x1000 :: u64)) \<and> \<not> (0x20000 \<le> (0x2000 + of_nat j :: u64))" using that by (simp add: word_less_nat_alt word_le_nat_alt)
    then show ?thesis by (simp add: ls_memory_def)
  qed
  have s: "user_string low_mm ls_memory 0x2000 [0x6c, 0x73]"
  proof -
    have "ls_memory 0x2000 = Some 0x6c" "ls_memory (0x2000 + 1) = Some 0x73" "ls_memory (0x2000 + 2) = Some 0" by (simp_all add: ls_memory_def)
    then have "\<forall>j < 2. ls_memory (0x2000 + of_nat j) = Some ([0x6c, 0x73] ! j)" "ls_memory (0x2000 + of_nat 2) = Some 0"
      by (simp_all add: All_less_Suc numeral_2_eq_2)
    then show ?thesis unfolding user_string_def using r by (simp add: a)
  qed
  have v: "user_vec low_mm ls_memory [0x2000] [[0x6c, 0x73]]" "user_vec low_mm ls_memory [] []" using s by (simp_all add: user_vec_def)
  have b: "break_is_free low_mm" by (simp add: break_is_free_def initial_brk_def low_mm_def new_vma_def)
  show ?thesis
    using program_finds_arguments [OF a(1-3) v, of no_program "0x400000" low_mm 3 5 "\<lambda>_. 7"] b
    by (simp add: no_program_def vec_freed_def)
qed

text \<open>
  Without memory for the mapping of the break, the first argument faults: the result of \<open>sbrk\<close> is not looked at.
\<close>

lemma break_without_memory_faults:
  assumes "break_is_free m" and "jmp \<noteq> 0" and "0 \<notin> set s" and "ti_argv info = Some ((s @ [0]) # ss, True)"
  shows "start_process (jmp, m) True False info pm = None"
proof -
  define B where "B = initial_brk m"
  define M where "M = set_vm_areas (m\<lparr>start_brk := B, brk_addr := B, start_stack := USER_STACK - 4096 * 32\<rparr>)"
  have B: "0x1000 < B" "unat B + 0x2000 \<le> 0x7FFFFFFE0000"
    and fr: "\<And>v. v \<in> set (mmap_list m) \<Longrightarrow> vm_start v < vm_end v \<and> (vm_end v \<le> B \<or> B + 0x2000 \<le> vm_start v)"
    using assms(1) unfolding break_is_free_def Let_def B_def [symmetric] by simp_all
  have u: "unat (B + 0x2000) = unat B + 0x2000" "unat (B + 0x1400) = unat B + 0x1400" using B(2) by (simp_all add: unat_word_ariths)
  have M: "set (mmap_list M) = insert (new_vma STACK_LOW USER_STACK (VM_READ OR VM_WRITE)) (set (mmap_list m))" "start_brk M = B"
    by (simp_all add: M_def set_vm_areas_def set_vma_list_insert) (simp add: vma_list_insert_def)
  have no: "vm_start v \<noteq> B \<and> \<not> vma_has (B + 0x1400) v" if v: "v \<in> set (mmap_list M)" for v
  proof (cases "v \<in> set (mmap_list m)")
    case True
    then show ?thesis using fr [OF True] u by (auto simp: vma_has_def word_less_nat_alt word_le_nat_alt)
  next
    case False
    then have "v = new_vma STACK_LOW USER_STACK (VM_READ OR VM_WRITE)" using v M(1) by simp
    then show ?thesis using B u by (auto simp: vma_has_def new_vma_def word_le_nat_alt)
  qed
  then have "brk_vma M = None" by (simp add: brk_vma_def find_None_iff M(2))
  then have "with_brk_seg False M = None" by (simp add: with_brk_seg_def create_brk_seg_def)
  then have s: "snd (sys_sbrk False 0x2000 M) = M" unfolding sys_sbrk_def Let_def by simp
  have "find_vma (mmap_list M) (B + 0x1400) = None" using no unfolding find_vma_None by blast
  then have w: "\<not> user_writable M (B + 0x1400 + of_nat 0)" by (simp add: user_writable_def)
  have "put_string M (B + 0x1400) t q = None" for t q
    unfolding put_string_def user_write_def using w by (auto simp: list_all_iff simp del: of_nat_0 intro!: bexI [of _ 0])
  then have p: "prepare M v (B + 0x1400) l (Some ((s @ [0]) # ss, True)) q = None" for v l q
    by (simp add: prepare_def)
  show ?thesis
    unfolding start_process_def prod.case Let_def B_def [symmetric] unfolding M_def [symmetric] s assms(4) p using assms(2) by (simp add: bind_eq_None_conv)
qed

end
