(* ===== verification/Paging.thy ===== *)
theory Paging imports MemMap begin

unbundle bit_operations_syntax

text \<open>
  The page tables of a 64-bit machine (\<open>arch/x86/kernel/paging64.c\<close>, with the flags of
  \<open>arch/x86/kernel/kmm.c\<close>): mapping, unmapping and looking up pages in tables of four levels.

  All of physical memory is mapped, and a table is reached through its physical address: the state has the entries
  of the table at each address, the pages that the frame allocator will give next, and the addresses whose
  translations were flushed from the TLB, in order.  \<open>None\<close> is a panic: no memory, or a page that is mapped already.
\<close>

section \<open>Entries and indices\<close>

abbreviation PG_PRESENT :: u64 where "PG_PRESENT \<equiv> 1"
abbreviation PG_WRITE :: u64 where "PG_WRITE \<equiv> 2"

abbreviation MEM_PF_WRITE :: u32 where "MEM_PF_WRITE \<equiv> 1"
abbreviation MEM_PF_USER :: u32 where "MEM_PF_USER \<equiv> 2"

type_synonym tables = "u64 \<Rightarrow> nat \<Rightarrow> u64"

record paging =
  tabs :: tables
  next_pages :: "u64 list"
  flushed :: "u64 list"

definition entry_addr :: "u64 \<Rightarrow> u64" where
  "entry_addr x = (x AND NOT 0xfff) AND 0x0000ffffffffffff"

definition pml4_index :: "u64 \<Rightarrow> nat" where "pml4_index v = unat (drop_bit 39 v AND 0x1FF)"
definition pdpt_index :: "u64 \<Rightarrow> nat" where "pdpt_index v = unat (drop_bit 30 v AND 0x1FF)"
definition pd_index :: "u64 \<Rightarrow> nat" where "pd_index v = unat (drop_bit 21 v AND 0x1FF)"
definition pt_index :: "u64 \<Rightarrow> nat" where "pt_index v = unat (drop_bit 12 v AND 0x1FF)"

definition x86_to_page_flags :: "u32 \<Rightarrow> u32" where
  "x86_to_page_flags flags =
     (if flags AND 1 \<noteq> 0 then 2 else 0) OR (if flags AND 2 \<noteq> 0 then 4 else 0) OR (if flags AND 0x20 \<noteq> 0 then 0x10 else 0)
     OR (if flags AND 0x10 \<noteq> 0 then 8 else 0) OR (if flags AND 8 \<noteq> 0 then 0x100 else 0) OR (if flags AND 0x40 \<noteq> 0 then 0x18 else 0)"

section \<open>Operations\<close>

definition write_entry :: "u64 \<Rightarrow> nat \<Rightarrow> u64 \<Rightarrow> paging \<Rightarrow> paging" where
  "write_entry a i e p = p\<lparr>tabs := (tabs p)(a := (tabs p a)(i := e))\<rparr>"

text \<open>\<open>get_zeroed_page\<close>, by its physical address.\<close>

definition get_zeroed_page :: "paging \<Rightarrow> (u64 \<times> paging) option" where
  "get_zeroed_page p =
     (case next_pages p of [] \<Rightarrow> None | z # zs \<Rightarrow> Some (z, p\<lparr>tabs := (tabs p)(z := (\<lambda>_. 0)), next_pages := zs\<rparr>))"

definition get_or_alloc :: "u64 \<Rightarrow> u64 \<Rightarrow> nat \<Rightarrow> paging \<Rightarrow> (u64 \<times> paging) option" where
  "get_or_alloc flags a i p =
     (if bit (tabs p a i) 0 then Some (entry_addr (tabs p a i), p)
      else (case get_zeroed_page p of
              None \<Rightarrow> None
            | Some (z, p1) \<Rightarrow> Some (entry_addr (z OR flags), write_entry a i (z OR flags) p1)))"

definition get_or_alloc_pdpt :: "u64 \<Rightarrow> u64 \<Rightarrow> u16 \<Rightarrow> paging \<Rightarrow> (u64 \<times> paging) option" where
  "get_or_alloc_pdpt pml4 virt flags p = get_or_alloc (ucast flags OR PG_WRITE) pml4 (pml4_index virt) p"

definition get_or_alloc_pd :: "u64 \<Rightarrow> u64 \<Rightarrow> u16 \<Rightarrow> paging \<Rightarrow> (u64 \<times> paging) option" where
  "get_or_alloc_pd pdpt virt flags p = get_or_alloc (ucast flags OR PG_WRITE) pdpt (pdpt_index virt) p"

definition get_or_alloc_pt :: "u64 \<Rightarrow> u64 \<Rightarrow> u16 \<Rightarrow> paging \<Rightarrow> (u64 \<times> paging) option" where
  "get_or_alloc_pt pd virt flags p = get_or_alloc (ucast flags) pd (pd_index virt) p"

definition flush_tlb_single :: "u64 \<Rightarrow> paging \<Rightarrow> paging" where
  "flush_tlb_single v p = p\<lparr>flushed := flushed p @ [v]\<rparr>"

text \<open>One round of the loop of \<open>map_pages\<close>, and the loop; \<open>fl\<close> are the flags that it has computed.\<close>

definition map_one :: "u64 \<Rightarrow> u64 \<Rightarrow> u64 \<Rightarrow> u32 \<Rightarrow> paging \<Rightarrow> paging option" where
  "map_one cr3 phys virt fl p =
     (case get_or_alloc_pdpt (entry_addr cr3) virt (ucast fl) p of
        None \<Rightarrow> None
      | Some (pdpt, p1) \<Rightarrow>
          (case get_or_alloc_pd pdpt virt (ucast fl) p1 of
             None \<Rightarrow> None
           | Some (pd, p2) \<Rightarrow>
               (case get_or_alloc_pt pd virt (ucast fl) p2 of
                  None \<Rightarrow> None
                | Some (pt, p3) \<Rightarrow>
                    if bit (tabs p3 pt (pt_index virt)) 0 then None
                    else Some (flush_tlb_single virt (write_entry pt (pt_index virt) (phys OR scast fl) p3)))))"

fun map_loop :: "nat \<Rightarrow> u64 \<Rightarrow> u64 \<Rightarrow> u64 \<Rightarrow> u32 \<Rightarrow> paging \<Rightarrow> paging option" where
  "map_loop 0 cr3 phys virt fl p = Some p"
| "map_loop (Suc n) cr3 phys virt fl p =
     (case map_one cr3 phys virt fl p of None \<Rightarrow> None | Some p1 \<Rightarrow> map_loop n cr3 (phys + 4096) (virt + 4096) fl p1)"

definition map_pages :: "u64 \<Rightarrow> u64 \<Rightarrow> u64 \<Rightarrow> u32 \<Rightarrow> nat \<Rightarrow> paging \<Rightarrow> paging option" where
  "map_pages cr3 phys virt flags n p = map_loop n cr3 phys virt (flags OR (x86_to_page_flags flags OR 1)) p"

text \<open>The entry of a page in the last table, if all levels are present.\<close>

definition walk_pt :: "u64 \<Rightarrow> u64 \<Rightarrow> paging \<Rightarrow> u64 option" where
  "walk_pt cr3 virt p =
     (let e4 = tabs p (entry_addr cr3) (pml4_index virt) in
      if \<not> bit e4 0 then None
      else let e3 = tabs p (entry_addr e4) (pdpt_index virt) in
      if \<not> bit e3 0 then None
      else let e2 = tabs p (entry_addr e3) (pd_index virt) in
      if \<not> bit e2 0 then None else Some (entry_addr e2))"

fun unmap_loop_pt :: "nat \<Rightarrow> u64 \<Rightarrow> u64 \<Rightarrow> paging \<Rightarrow> bool \<times> u64 \<times> paging" where
  "unmap_loop_pt 0 cr3 virt p = (True, virt, p)"
| "unmap_loop_pt (Suc n) cr3 virt p =
     (case walk_pt cr3 virt p of
        None \<Rightarrow> (False, virt, p)
      | Some pt \<Rightarrow>
          if \<not> bit (tabs p pt (pt_index virt)) 0 then (False, virt, p)
          else unmap_loop_pt n cr3 (virt + 4096) (write_entry pt (pt_index virt) 0 p))"

definition unmap_pages :: "u64 \<Rightarrow> u64 \<Rightarrow> nat \<Rightarrow> paging \<Rightarrow> int \<times> paging" where
  "unmap_pages cr3 virt n p =
     (case unmap_loop_pt n cr3 virt p of (ok, v, p1) \<Rightarrow> if ok then (0, flush_tlb_single v p1) else (-1, p1))"

definition get_physaddr :: "u64 \<Rightarrow> u64 \<Rightarrow> paging \<Rightarrow> u64" where
  "get_physaddr cr3 virt p =
     (let e4 = tabs p (entry_addr cr3) (pml4_index virt) in
      if \<not> bit e4 0 then 0
      else let e3 = tabs p (entry_addr e4) (pdpt_index virt) in
      if \<not> bit e3 0 then 0
      else if bit e3 7 then (e3 AND NOT 0xFFF) + (virt AND 0xFFF)
      else let e2 = tabs p (entry_addr e3) (pd_index virt) in
      if \<not> bit e2 0 then 0
      else if bit e2 7 then (e2 AND NOT 0xFFF) + (virt AND 0xFFF)
      else let e1 = tabs p (entry_addr e2) (pt_index virt) in
      if \<not> bit e1 0 then 0 else (e1 AND NOT 0xFFF) + (virt AND 0xFFF))"

text \<open>\<open>kernel_pt_init\<close> for the part of the address space that starts at \<open>start\<close>, in \<open>n\<close> steps of 1 GB.\<close>

fun kernel_pt_loop :: "nat \<Rightarrow> u64 \<Rightarrow> u64 \<Rightarrow> paging \<Rightarrow> paging option" where
  "kernel_pt_loop 0 pdpt start p = Some p"
| "kernel_pt_loop (Suc n) pdpt start p =
     (if bit (tabs p pdpt (pdpt_index start)) 0 then None
      else (case get_zeroed_page p of
              None \<Rightarrow> None
            | Some (z, p1) \<Rightarrow> kernel_pt_loop n pdpt (start + 0x40000000) (write_entry pdpt (pdpt_index start) (z OR 0x103) p1)))"

definition kernel_pt_init :: "u64 \<Rightarrow> u64 \<Rightarrow> u64 \<Rightarrow> paging \<Rightarrow> paging option" where
  "kernel_pt_init cr3 start stop p =
     (let pml4 = entry_addr cr3; i = pml4_index start in
      if \<not> (start < stop \<and> start AND 0x3fffffff = 0 \<and> stop AND 0x3fffffff = 0) then None
      else (case (if bit (tabs p pml4 i) 0 then Some p
                  else map_option (\<lambda>(z, p1). write_entry pml4 i (z OR 3) p1) (get_zeroed_page p)) of
              None \<Rightarrow> None
            | Some p1 \<Rightarrow>
                map_option (\<lambda>p2. p2\<lparr>tabs := (tabs p2)(pml4 := (\<lambda>j. if j < 256 then 0 else tabs p2 pml4 j))\<rparr>)
                  (kernel_pt_loop (unat (stop - start) div 0x40000000) (entry_addr (tabs p1 pml4 i)) start p1)))"

definition copy_kernel_mappings :: "u64 \<Rightarrow> u64 \<Rightarrow> paging \<Rightarrow> paging" where
  "copy_kernel_mappings phys_cr3 cr3 p =
     p\<lparr>tabs := (tabs p)(phys_cr3 := (\<lambda>j. if j < 256 then 0 else tabs p (entry_addr cr3) j))\<rparr>"

text \<open>The frame bitmap behind the kernel gets one large page, in the tables made at the start; \<open>kend\<close> is the end of the kernel.\<close>

definition arch_map_frame_bitmap :: "u64 \<Rightarrow> u64 \<Rightarrow> nat \<Rightarrow> paging \<Rightarrow> (u64 \<times> paging) option" where
  "arch_map_frame_bitmap boot_pml4 kend bytes p =
     (let virt = (kend AND NOT 0x1fffff) + 0x200000; phys = virt - 0xffffffff80000000;
          e4 = tabs p boot_pml4 (pml4_index virt); e3 = tabs p (entry_addr e4) (pdpt_index virt) in
      if \<not> bit e4 0 then None
      else if \<not> bit e3 0 then None
      else if 0x200000 < bytes then None
      else Some (virt, flush_tlb_single virt (write_entry (entry_addr e3) (pd_index virt) (phys OR 0x83) p)))"


section \<open>The address map\<close>

text \<open>
  What the tables mean.  \<open>node\<close> follows a list of indices through the tables, \<open>leaf\<close> is the entry of the page of an
  address.  A path is a list of at most three indices of a table.
\<close>

definition next_table :: "u64 \<Rightarrow> u64 option" where
  "next_table e = (if bit e 0 \<and> \<not> bit e 7 then Some (entry_addr e) else None)"

fun node :: "tables \<Rightarrow> u64 \<Rightarrow> nat list \<Rightarrow> u64 option" where
  "node m a [] = Some a"
| "node m a (i # is) = (case next_table (m a i) of None \<Rightarrow> None | Some b \<Rightarrow> node m b is)"

definition indices :: "u64 \<Rightarrow> nat list" where
  "indices v = [pml4_index v, pdpt_index v, pd_index v]"

definition leaf :: "tables \<Rightarrow> u64 \<Rightarrow> u64 \<Rightarrow> u64 option" where
  "leaf m r v =
     (case node m r (indices v) of
        None \<Rightarrow> None | Some t \<Rightarrow> if bit (m t (pt_index v)) 0 then Some (m t (pt_index v)) else None)"

definition path :: "nat list \<Rightarrow> bool" where
  "path is \<longleftrightarrow> length is \<le> 3 \<and> (\<forall>i \<in> set is. i < 512)"

text \<open>
  No table is used in two places, the pages that the allocator gives next are all different and not in use.  \<open>on_way Q\<close>:
  \<open>Q\<close> holds of the entries of tables on the way to an address.
\<close>

definition paging_ok :: "u64 \<Rightarrow> paging \<Rightarrow> bool" where
  "paging_ok r p \<longleftrightarrow>
     (\<forall>is js a. path is \<longrightarrow> path js \<longrightarrow> node (tabs p) r is = Some a \<longrightarrow> node (tabs p) r js = Some a \<longrightarrow> is = js)
     \<and> distinct (next_pages p)
     \<and> (\<forall>z \<in> set (next_pages p). entry_addr z = z \<and> (\<forall>is. path is \<longrightarrow> node (tabs p) r is \<noteq> Some z))"

definition on_way :: "(u64 \<Rightarrow> bool) \<Rightarrow> tables \<Rightarrow> u64 \<Rightarrow> u64 \<Rightarrow> bool" where
  "on_way Q m r v \<longleftrightarrow>
     (\<forall>k < 3. \<forall>a. node m r (take k (indices v)) = Some a \<longrightarrow> bit (m a (indices v ! k)) 0 \<longrightarrow> Q (m a (indices v ! k)))"

abbreviation no_large_page :: "tables \<Rightarrow> u64 \<Rightarrow> u64 \<Rightarrow> bool" where
  "no_large_page \<equiv> on_way (\<lambda>e. \<not> bit e 7)"

definition same_page :: "u64 \<Rightarrow> u64 \<Rightarrow> bool" where
  "same_page v w \<longleftrightarrow> unat v div 4096 mod 2 ^ 36 = unat w div 4096 mod 2 ^ 36"

lemma node_append: "node m a (is @ js) = (case node m a is of None \<Rightarrow> None | Some b \<Rightarrow> node m b js)"
  by (induction "is" arbitrary: a) (auto split: option.splits)

lemma node_snoc: "node m a (is @ [i]) = (case node m a is of None \<Rightarrow> None | Some b \<Rightarrow> next_table (m b i))"
  by (simp add: node_append) (auto split: option.splits)

lemma path_snoc: "path (is @ [i]) \<longleftrightarrow> length is < 3 \<and> path is \<and> i < 512"
  by (auto simp: path_def)

lemma index_eqs:
  "pml4_index v = unat v div 2 ^ 39 mod 512" "pdpt_index v = unat v div 2 ^ 30 mod 512"
  "pd_index v = unat v div 2 ^ 21 mod 512" "pt_index v = unat v div 2 ^ 12 mod 512"
proof -
  have m: "(0x1FF :: u64) = mask 9" by (simp add: mask_eq_decr_exp)
  have "unat (drop_bit n v AND 0x1FF) = unat v div 2 ^ n mod 512" for n
    unfolding m take_bit_eq_mask [symmetric] unsigned_take_bit_eq unat_drop_bit_eq unfolding take_bit_eq_mod drop_bit_eq_div by simp
  then show "pml4_index v = unat v div 2 ^ 39 mod 512" "pdpt_index v = unat v div 2 ^ 30 mod 512"
    "pd_index v = unat v div 2 ^ 21 mod 512" "pt_index v = unat v div 2 ^ 12 mod 512"
    by (simp_all only: pml4_index_def pdpt_index_def pd_index_def pt_index_def)
qed

lemma same_page_indices: "same_page v w \<longleftrightarrow> indices v = indices w \<and> pt_index v = pt_index w"
proof -
  have split: "(x :: nat) mod 2 ^ 36 = 512 * (512 * (512 * (x div 512 div 512 div 512 mod 512) + x div 512 div 512 mod 512) + x div 512 mod 512) + x mod 512" for x
    using mod_mult2_eq [of x 512 "2 ^ 27"] mod_mult2_eq [of "x div 512" 512 "2 ^ 18"] mod_mult2_eq [of "x div 512 div 512" 512 512] by simp
  have d: "unat u div 2 ^ 21 = unat u div 4096 div 512" "unat u div 2 ^ 30 = unat u div 4096 div 512 div 512"
    "unat u div 2 ^ 39 = unat u div 4096 div 512 div 512 div 512" "unat u div 2 ^ 12 = unat u div 4096" for u :: u64
    by (simp_all add: div_mult2_eq [symmetric])
  let ?x = "unat v div 4096" and ?y = "unat w div 4096"
  have "same_page v w \<longleftrightarrow> ?x mod 512 = ?y mod 512 \<and> ?x div 512 mod 512 = ?y div 512 mod 512 \<and> ?x div 512 div 512 mod 512 = ?y div 512 div 512 mod 512
      \<and> ?x div 512 div 512 div 512 mod 512 = ?y div 512 div 512 div 512 mod 512" (is "_ \<longleftrightarrow> ?R")
  proof
    assume "same_page v w"
    then have e: "?x mod 2 ^ 36 = ?y mod 2 ^ 36" by (simp add: same_page_def)
    have g: "x mod (512 * c) div 512 = x div 512 mod c" "x mod (512 * c) mod 512 = x mod 512" for x c :: nat
      using mod_mult2_eq [of x 512 c] by (simp_all add: mod_mod_cancel)
    have pw: "(2 :: nat) ^ 36 = 512 * 2 ^ 27" "(2 :: nat) ^ 27 = 512 * 2 ^ 18" "(2 :: nat) ^ 18 = 512 * 512" by simp_all
    have h: "x mod 2 ^ 36 mod 512 = x mod 512" "x mod 2 ^ 36 div 512 = x div 512 mod 2 ^ 27" "x mod 2 ^ 27 mod 512 = x mod 512"
      "x mod 2 ^ 27 div 512 = x div 512 mod 2 ^ 18" "x mod 2 ^ 18 mod 512 = x mod 512" "x mod 2 ^ 18 div 512 = x div 512 mod 512" for x :: nat
      by (simp_all only: pw(1) g, simp_all only: pw(2) g, simp_all only: pw(3) g)
    have f: "x mod 512 = x mod 2 ^ 36 mod 512" "x div 512 mod 512 = x mod 2 ^ 36 div 512 mod 512"
      "x div 512 div 512 mod 512 = x mod 2 ^ 36 div 512 div 512 mod 512" "x div 512 div 512 div 512 mod 512 = x mod 2 ^ 36 div 512 div 512 div 512 mod 512" for x :: nat
      by (simp_all only: h mod_mod_trivial)
    show ?R unfolding f [of ?x] f [of ?y] e by simp
  next
    assume ?R
    then show "same_page v w" unfolding same_page_def split by simp
  qed
  then show ?thesis unfolding indices_def index_eqs d by auto
qed

lemma path_indices: "path (indices v)" "length (indices v) = 3" "pt_index v < 512"
  by (simp_all add: path_def indices_def index_eqs)

section \<open>Writing an entry\<close>

lemma path_take: "path is \<Longrightarrow> path (take k is)"
  using set_take_subset [of k "is"] by (auto simp: path_def)

text \<open>A new table below an absent entry: all other tables stay where they were.\<close>

lemma node_new_table:
  assumes ok: "paging_ok r p" and z: "z \<in> set (next_pages p)" and a: "node (tabs p) r is = Some a" and abs: "\<not> bit (tabs p a i) 0"
    and e: "next_table e = Some z" and pi: "path (is @ [i])" and pj: "path js"
  shows "node ((tabs p)(z := (\<lambda>_. 0), a := ((tabs p) a)(i := e))) r js =
    (if js = is @ [i] then Some z else node (tabs p) r js)"
  using pj
proof (induction js rule: rev_induct)
  case Nil
  then show ?case by simp
next
  case (snoc j js)
  let ?m = "(tabs p)(z := (\<lambda>_. 0), a := ((tabs p) a)(i := e))"
  have js: "path js" and "is": "path is" using snoc.prems pi by (simp_all add: path_snoc)
  have za: "z \<noteq> a" using ok z a "is" by (auto simp: paging_ok_def)
  note IH = snoc.IH [OF js]
  show ?case
  proof (cases "js = is @ [i]")
    case True
    have "next_table 0 = None" by (simp add: next_table_def)
    moreover have "node (tabs p) r (is @ [i]) = None" using a abs by (simp add: node_snoc next_table_def)
    moreover have "node ?m r js = Some z" using IH True by (simp only: if_True simp_thms)
    ultimately have A: "node ?m r js = Some z" "node (tabs p) r js = None" "next_table (?m z j) = None" "js \<noteq> is" using za True by simp_all
    show ?thesis unfolding node_snoc A using A(3,4) by simp
  next
    case False
    show ?thesis
    proof (cases "node (tabs p) r js")
      case None
      then have "js @ [j] \<noteq> is @ [i]" using a by auto
      then show ?thesis using IH False None by (simp add: node_snoc)
    next
      case (Some b)
      have bz: "b \<noteq> z" using ok z Some js by (auto simp: paging_ok_def)
      show ?thesis
      proof (cases "b = a")
        case True
        then have "js = is" using ok Some a js "is" by (auto simp: paging_ok_def)
        then show ?thesis using IH False Some True e za abs a by (auto simp: node_snoc)
      next
        case ba: False
        then have "js \<noteq> is" using Some a by auto
        then show ?thesis using IH False Some ba bz by (simp add: node_snoc)
      qed
    qed
  qed
qed

lemma leaf_new_table:
  assumes ok: "paging_ok r p" and z: "z \<in> set (next_pages p)" and a: "node (tabs p) r is = Some a" and abs: "\<not> bit (tabs p a i) 0"
    and e: "next_table e = Some z" and pi: "path (is @ [i])"
  shows "leaf ((tabs p)(z := (\<lambda>_. 0), a := ((tabs p) a)(i := e))) r v = leaf (tabs p) r v"
proof -
  let ?m = "(tabs p)(z := (\<lambda>_. 0), a := ((tabs p) a)(i := e))"
  note N = node_new_table [OF assms path_indices(1) [of v]]
  have "is": "path is" "length is < 3" using pi by (simp_all add: path_snoc)
  have za: "z \<noteq> a" using ok z a "is" by (auto simp: paging_ok_def)
  show ?thesis
  proof (cases "indices v = is @ [i]")
    case True
    have "node (tabs p) r (indices v) = None" using a abs True by (simp add: node_snoc next_table_def)
    then show ?thesis using N True za by (simp add: leaf_def)
  next
    case False
    show ?thesis
    proof (cases "node (tabs p) r (indices v)")
      case (Some b)
      have "b \<noteq> z" using ok z Some path_indices by (auto simp: paging_ok_def)
      moreover have "indices v \<noteq> is" using path_indices(2) [of v] "is"(2) by auto
      then have "b \<noteq> a" using ok Some a "is"(1) path_indices(1) by (auto simp: paging_ok_def)
      ultimately show ?thesis using N False Some by (simp add: leaf_def)
    qed (use N False in \<open>simp add: leaf_def\<close>)
  qed
qed

text \<open>A new entry in a last table: the tables stay, and only one page changes.\<close>

lemma node_leaf_entry:
  assumes ok: "paging_ok r p" and t: "node (tabs p) r (indices w) = Some t" and pj: "path js"
  shows "node ((tabs p)(t := ((tabs p) t)(i := e))) r js = node (tabs p) r js"
  using pj
proof (induction js rule: rev_induct)
  case (snoc j js)
  have js: "path js" "length js < 3" using snoc.prems by (simp_all add: path_snoc)
  note IH = snoc.IH [OF js(1)]
  show ?case
  proof (cases "node (tabs p) r js")
    case (Some b)
    have "js \<noteq> indices w" using js(2) path_indices(2) [of w] by auto
    then have "b \<noteq> t" using ok Some t js(1) path_indices(1) by (auto simp: paging_ok_def)
    then show ?thesis using IH Some by (simp add: node_snoc)
  qed (use IH in \<open>simp add: node_snoc\<close>)
qed simp

lemma leaf_entry:
  assumes ok: "paging_ok r p" and t: "node (tabs p) r (indices w) = Some t"
  shows "leaf ((tabs p)(t := ((tabs p) t)(pt_index w := e))) r v =
    (if same_page v w then (if bit e 0 then Some e else None) else leaf (tabs p) r v)"
proof -
  note N = node_leaf_entry [OF ok t path_indices(1) [of v]]
  show ?thesis
  proof (cases "node (tabs p) r (indices v)")
    case None
    then have "\<not> same_page v w" using t by (auto simp: same_page_indices)
    then show ?thesis using N None by (simp add: leaf_def)
  next
    case (Some b)
    have "b = t \<longleftrightarrow> indices v = indices w"
      using ok Some t path_indices(1) by (auto simp: paging_ok_def)
    then show ?thesis using N Some by (auto simp: leaf_def same_page_indices)
  qed
qed

lemma paging_ok_leaf_entry:
  assumes "paging_ok r p" and "node (tabs p) r (indices w) = Some t"
  shows "paging_ok r (write_entry t i e p)"
  using assms(1) node_leaf_entry [OF assms] unfolding paging_ok_def write_entry_def by simp

section \<open>One level\<close>

definition ways_kept :: "u64 \<Rightarrow> u64 set \<Rightarrow> paging \<Rightarrow> paging \<Rightarrow> bool" where
  "ways_kept r fs p p' \<longleftrightarrow> (\<forall>js b. path js \<longrightarrow> node (tabs p) r js = Some b \<longrightarrow> node (tabs p') r js = Some b)
     \<and> (\<forall>Q v. (\<forall>z. \<forall>f \<in> fs. entry_addr z = z \<longrightarrow> Q (z OR f)) \<longrightarrow> on_way Q (tabs p) r v \<longrightarrow> on_way Q (tabs p') r v)"

lemma ways_kept_trans: "ways_kept r fs p q \<Longrightarrow> ways_kept r fs q s \<Longrightarrow> ways_kept r fs p s"
  unfolding ways_kept_def by blast

lemma ways_kept_node: "ways_kept r fs p q \<Longrightarrow> path js \<Longrightarrow> node (tabs p) r js = Some b \<Longrightarrow> node (tabs q) r js = Some b"
  unfolding ways_kept_def by blast

lemma ways_kept_way:
  "ways_kept r fs p q \<Longrightarrow> (\<And>z f. f \<in> fs \<Longrightarrow> entry_addr z = z \<Longrightarrow> Q (z OR f)) \<Longrightarrow> on_way Q (tabs p) r v \<Longrightarrow> on_way Q (tabs q) r v"
  unfolding ways_kept_def by blast

lemma paging_ok_new_table:
  assumes ok: "paging_ok r p" and z: "next_pages p = z # zs" and a: "node (tabs p) r is = Some a" and abs: "\<not> bit (tabs p a i) 0"
    and e: "next_table e = Some z" and pi: "path (is @ [i])"
  shows "paging_ok r (write_entry a i e (p\<lparr>tabs := (tabs p)(z := (\<lambda>_. 0)), next_pages := zs\<rparr>))"
proof -
  let ?m = "(tabs p)(z := (\<lambda>_. 0), a := ((tabs p) a)(i := e))"
  have zin: "z \<in> set (next_pages p)" using z by simp
  note N = node_new_table [OF ok zin a abs e pi]
  have "is": "path is" using pi by (simp add: path_snoc)
  have za: "z \<noteq> a" using ok zin a "is" by (auto simp: paging_ok_def)
  have t: "tabs (write_entry a i e (p\<lparr>tabs := (tabs p)(z := (\<lambda>_. 0)), next_pages := zs\<rparr>)) = ?m"
    using za by (auto simp: write_entry_def)
  have inj: "xs = ys" if x: "path xs" "path ys" "node ?m r xs = Some b" "node ?m r ys = Some b" for xs ys b
  proof (cases "xs = is @ [i] \<or> ys = is @ [i]")
    case True
    have no: "node (tabs p) r us \<noteq> Some z" if "path us" for us using ok zin that by (auto simp: paging_ok_def)
    from True x show ?thesis unfolding N [OF x(1)] N [OF x(2)] using no [OF x(1)] no [OF x(2)] by (auto split: if_splits)
  next
    case False
    with x N [OF x(1)] N [OF x(2)] have "node (tabs p) r xs = Some b" "node (tabs p) r ys = Some b" by simp_all
    then show ?thesis using ok x(1,2) unfolding paging_ok_def by blast
  qed
  have fresh: "node ?m r xs \<noteq> Some y" if "y \<in> set zs" "path xs" for y xs
    unfolding N [OF that(2)] using ok z that by (auto simp: paging_ok_def)
  have n: "next_pages (write_entry a i e (p\<lparr>tabs := (tabs p)(z := (\<lambda>_. 0)), next_pages := zs\<rparr>)) = zs" by (simp add: write_entry_def)
  have d: "distinct zs" "\<forall>y \<in> set zs. entry_addr y = y" using ok z by (auto simp: paging_ok_def)
  show ?thesis unfolding paging_ok_def t n using inj fresh d by blast
qed

lemma ways_kept_new_table:
  assumes ok: "paging_ok r p" and z: "z \<in> set (next_pages p)" and a: "node (tabs p) r is = Some a" and abs: "\<not> bit (tabs p a i) 0"
    and e: "next_table e = Some z" and pi: "path (is @ [i])" and t: "tabs p' = (tabs p)(z := (\<lambda>_. 0), a := ((tabs p) a)(i := e))" and ef: "e = z OR f" "f \<in> fs"
  shows "ways_kept r fs p p'"
proof -
  note N = node_new_table [OF ok z a abs e pi]
  have none: "node (tabs p) r (is @ [i]) = None" using a abs by (simp add: node_snoc next_table_def)
  have "is": "path is" using pi by (simp add: path_snoc)
  have za: "z \<noteq> a" using ok z a "is" by (auto simp: paging_ok_def)
  have keep: "node (tabs p') r js = Some b" if "path js" "node (tabs p) r js = Some b" for js b
    unfolding t N [OF that(1)] using that(2) none by auto
  have way: "on_way Q (tabs p') r v" if Q: "\<forall>z. \<forall>f \<in> fs. entry_addr z = z \<longrightarrow> Q (z OR f)" and nl: "on_way Q (tabs p) r v" for Q v
    unfolding on_way_def
  proof (intro allI impI)
    fix k b assume k: "k < (3 :: nat)" and b: "node (tabs p') r (take k (indices v)) = Some b" and pr: "bit (tabs p' b (indices v ! k)) 0"
    have pk: "path (take k (indices v))" by (rule path_take [OF path_indices(1)])
    show "Q (tabs p' b (indices v ! k))"
    proof (cases "take k (indices v) = is @ [i]")
      case True
      then have "b = z" using b unfolding t N [OF pk] by simp
      then show ?thesis using pr za unfolding t by simp
    next
      case False
      then have b0: "node (tabs p) r (take k (indices v)) = Some b" using b unfolding t N [OF pk] by simp
      then have bz: "b \<noteq> z" using ok z pk by (auto simp: paging_ok_def)
      show ?thesis
      proof (cases "b = a \<and> indices v ! k = i")
        case True
        moreover have "Q e" using Q ef ok z by (auto simp: paging_ok_def)
        ultimately show ?thesis unfolding t by simp
      next
        case False
        then have "tabs p' b (indices v ! k) = tabs p b (indices v ! k)" unfolding t using bz by auto
        then show ?thesis using nl k b0 pr unfolding on_way_def by auto
      qed
    qed
  qed
  show ?thesis unfolding ways_kept_def using keep way by blast
qed

text \<open>The flags of a table: present, and nothing in the place of the address or of a large page.\<close>

definition table_flags :: "u64 \<Rightarrow> bool" where
  "table_flags f \<longleftrightarrow> bit f 0 \<and> \<not> bit f 7 \<and> f AND NOT 0xfff = 0"

lemma entry_addr_idem: "entry_addr (entry_addr x) = entry_addr x"
  by (simp add: entry_addr_def) (rule bit_word_eqI, auto simp: bit_simps)

lemma table_entry:
  assumes "table_flags f" and "entry_addr z = z"
  shows "next_table (z OR f) = Some z" and "entry_addr (z OR f) = z"
proof -
  have "(z OR f) AND NOT 0xfff = (z AND NOT 0xfff) OR (f AND NOT 0xfff)" by (rule bit_word_eqI) (auto simp: bit_simps)
  then have "entry_addr (z OR f) = entry_addr z" using assms(1) by (simp add: entry_addr_def table_flags_def)
  then show ea: "entry_addr (z OR f) = z" using assms(2) by simp
  have low: "(0xfff :: u64) = mask 12" by (simp add: mask_eq_decr_exp)
  have "\<not> bit z n" if "n < 12" for n
    using arg_cong [OF assms(2), of "\<lambda>x. bit x n"] that unfolding entry_addr_def low by (auto simp: bit_simps)
  then have "\<not> bit z 7" by simp
  then have "bit (z OR f) 0" "\<not> bit (z OR f) 7" using assms(1) by (auto simp: table_flags_def bit_or_iff)
  then show "next_table (z OR f) = Some z" using ea by (simp add: next_table_def)
qed

lemma get_or_alloc_step:
  assumes ok: "paging_ok r p" and a: "node (tabs p) r is = Some a" and pi: "path (is @ [i])" and f: "table_flags f" "f \<in> fs"
    and nl: "bit (tabs p a i) 0 \<Longrightarrow> \<not> bit (tabs p a i) 7" and s: "next_pages p \<noteq> []"
  obtains t p' where "get_or_alloc f a i p = Some (t, p')" "node (tabs p') r (is @ [i]) = Some t" "paging_ok r p'" "ways_kept r fs p p'"
    "\<forall>v. leaf (tabs p') r v = leaf (tabs p) r v" "length (next_pages p) \<le> length (next_pages p') + 1" "flushed p' = flushed p"
proof (cases "bit (tabs p a i) 0")
  case True
  have "node (tabs p) r (is @ [i]) = Some (entry_addr (tabs p a i))" using a True nl by (simp add: node_snoc next_table_def)
  then show ?thesis using True ok by (intro that [of "entry_addr (tabs p a i)" p]) (simp_all add: get_or_alloc_def ways_kept_def)
next
  case False
  obtain z zs where z: "next_pages p = z # zs" using s by (cases "next_pages p") auto
  have zin: "z \<in> set (next_pages p)" and ez: "entry_addr z = z" using z ok by (auto simp: paging_ok_def)
  note e = table_entry [OF f(1) ez]
  have "is": "path is" using pi by (simp add: path_snoc)
  have za: "z \<noteq> a" using ok zin a "is" by (auto simp: paging_ok_def)
  let ?p = "write_entry a i (z OR f) (p\<lparr>tabs := (tabs p)(z := (\<lambda>_. 0)), next_pages := zs\<rparr>)"
  have t: "tabs ?p = (tabs p)(z := (\<lambda>_. 0), a := ((tabs p) a)(i := z OR f))" using za by (auto simp: write_entry_def)
  show ?thesis
  proof (rule that [of z ?p])
    show "get_or_alloc f a i p = Some (z, ?p)" using False by (simp add: get_or_alloc_def get_zeroed_page_def z e(2))
    show "node (tabs ?p) r (is @ [i]) = Some z" unfolding t node_new_table [OF ok zin a False e(1) pi pi] by simp
    show "paging_ok r ?p" by (rule paging_ok_new_table [OF ok z a False e(1) pi])
    show "ways_kept r fs p ?p" by (rule ways_kept_new_table [OF ok zin a False e(1) pi t refl f(2)])
    show "\<forall>v. leaf (tabs ?p) r v = leaf (tabs p) r v" unfolding t using leaf_new_table [OF ok zin a False e(1) pi] by blast
    show "length (next_pages p) \<le> length (next_pages ?p) + 1" "flushed ?p = flushed p" by (simp_all add: write_entry_def z)
  qed
qed

section \<open>Mapping and unmapping\<close>

definition page_flags :: "u32 \<Rightarrow> bool" where
  "page_flags fl \<longleftrightarrow> bit fl 0 \<and> \<not> bit fl 7 \<and> fl < 0x1000"

lemma high_bits: "fl < 0x1000 \<Longrightarrow> 12 \<le> n \<Longrightarrow> \<not> bit (fl :: u32) n"
proof -
  assume f: "fl < 0x1000" and n: "12 \<le> n"
  have "unat fl < 2 ^ 12" using f by (simp add: word_less_nat_alt)
  then have "take_bit 12 (unat fl) = unat fl" by (rule take_bit_nat_eq_self)
  then have "bit (unat fl) n = bit (take_bit 12 (unat fl)) n" by simp
  then have "\<not> bit (unat fl) n" using n by (simp add: bit_take_bit_iff)
  then show ?thesis by (simp add: bit_unsigned_iff)
qed

lemma table_flags_of:
  assumes "page_flags fl"
  shows "table_flags (ucast (ucast fl :: u16))" and "table_flags (ucast (ucast fl :: u16) OR PG_WRITE)"
proof -
  have low: "(0xfff :: u64) = mask 12" by (simp add: mask_eq_decr_exp)
  have h: "\<not> bit fl n" if "12 \<le> n" for n using high_bits assms that by (simp add: page_flags_def)
  have "ucast (ucast fl :: u16) AND NOT (0xfff :: u64) = 0" unfolding low
    by (rule bit_word_eqI) (use h in \<open>auto simp: bit_simps not_less\<close>)
  moreover have "(ucast (ucast fl :: u16) OR 2) AND NOT (0xfff :: u64) = ucast (ucast fl :: u16) AND NOT 0xfff"
    by (simp add: bit.conj_disj_distrib2)
  moreover have "bit (ucast (ucast fl :: u16) :: u64) 0 = bit fl 0" "bit (ucast (ucast fl :: u16) :: u64) 7 = bit fl 7"
    by (simp_all add: bit_simps)
  moreover have "\<not> bit (2 :: u64) 7" "\<not> bit (2 :: u64) 0" by simp_all
  ultimately show "table_flags (ucast (ucast fl :: u16))" "table_flags (ucast (ucast fl :: u16) OR PG_WRITE)"
    using assms by (simp_all add: table_flags_def page_flags_def bit_or_iff)
qed

definition table_flag_set :: "u32 \<Rightarrow> u64 set" where
  "table_flag_set fl = {ucast (ucast fl :: u16), ucast (ucast fl :: u16) OR PG_WRITE}"

lemma map_one_step:
  assumes ok: "paging_ok (entry_addr cr3) p" and nl: "no_large_page (tabs p) (entry_addr cr3) virt" and un: "leaf (tabs p) (entry_addr cr3) virt = None"
    and s: "3 \<le> length (next_pages p)" and fl: "page_flags fl"
  obtains p' where "map_one cr3 phys virt fl p = Some p'" "paging_ok (entry_addr cr3) p'" "ways_kept (entry_addr cr3) (table_flag_set fl) p p'"
    "\<forall>v. leaf (tabs p') (entry_addr cr3) v = (if same_page v virt then Some (phys OR scast fl) else leaf (tabs p) (entry_addr cr3) v)"
    "length (next_pages p) \<le> length (next_pages p') + 3" "flushed p' = flushed p @ [virt]"
proof -
  let ?r = "entry_addr cr3" and ?f = "ucast (ucast fl :: u16) :: u64" and ?fs = "table_flag_set fl"
  note tf = table_flags_of [OF fl]
  have fin: "?f \<in> ?fs" "?f OR PG_WRITE \<in> ?fs" by (simp_all add: table_flag_set_def)
  have small: "\<not> bit (z OR f) 7" if "f \<in> ?fs" "entry_addr z = z" for z f
  proof -
    have "table_flags f" using tf that(1) by (auto simp: table_flag_set_def)
    from table_entry(1) [OF this that(2)] show ?thesis by (simp add: next_table_def split: if_splits)
  qed
  have ix: "path ([] @ [pml4_index virt])" "path ([pml4_index virt] @ [pdpt_index virt])" "path ([pml4_index virt, pdpt_index virt] @ [pd_index virt])"
    by (simp_all add: path_def index_eqs)
  have large: "\<not> bit (tabs q a (indices virt ! k)) 7"
    if "no_large_page (tabs q) ?r virt" "k < 3" "node (tabs q) ?r (take k (indices virt)) = Some a" "bit (tabs q a (indices virt ! k)) 0" for q a k
    using that unfolding on_way_def by blast
  have n0: "node (tabs p) ?r [] = Some ?r" by simp
  have l0: "bit (tabs p ?r (pml4_index virt)) 0 \<Longrightarrow> \<not> bit (tabs p ?r (pml4_index virt)) 7"
    using large [OF nl, of 0 ?r] by (simp add: indices_def)
  have s0: "next_pages p \<noteq> []" using s by auto
  obtain t1 p1 where 1: "get_or_alloc (?f OR PG_WRITE) ?r (pml4_index virt) p = Some (t1, p1)" "node (tabs p1) ?r ([] @ [pml4_index virt]) = Some t1"
    "paging_ok ?r p1" "ways_kept ?r ?fs p p1" "\<forall>v. leaf (tabs p1) ?r v = leaf (tabs p) ?r v" "length (next_pages p) \<le> length (next_pages p1) + 1" "flushed p1 = flushed p"
    by (rule get_or_alloc_step [OF ok n0 ix(1) tf(2) fin(2) l0 s0])
  have nl1: "no_large_page (tabs p1) ?r virt" by (rule ways_kept_way [OF 1(4) small nl])
  have n1: "node (tabs p1) ?r [pml4_index virt] = Some t1" using 1(2) by simp
  have l1: "bit (tabs p1 t1 (pdpt_index virt)) 0 \<Longrightarrow> \<not> bit (tabs p1 t1 (pdpt_index virt)) 7"
    using large [OF nl1, of 1 t1] n1 by (simp add: indices_def)
  have s1: "next_pages p1 \<noteq> []" using s 1(6) by auto
  obtain t2 p2 where 2: "get_or_alloc (?f OR PG_WRITE) t1 (pdpt_index virt) p1 = Some (t2, p2)" "node (tabs p2) ?r ([pml4_index virt] @ [pdpt_index virt]) = Some t2"
    "paging_ok ?r p2" "ways_kept ?r ?fs p1 p2" "\<forall>v. leaf (tabs p2) ?r v = leaf (tabs p1) ?r v" "length (next_pages p1) \<le> length (next_pages p2) + 1" "flushed p2 = flushed p1"
    by (rule get_or_alloc_step [OF 1(3) n1 ix(2) tf(2) fin(2) l1 s1])
  have nl2: "no_large_page (tabs p2) ?r virt" by (rule ways_kept_way [OF 2(4) small nl1])
  have n2: "node (tabs p2) ?r [pml4_index virt, pdpt_index virt] = Some t2" using 2(2) by simp
  have l2: "bit (tabs p2 t2 (pd_index virt)) 0 \<Longrightarrow> \<not> bit (tabs p2 t2 (pd_index virt)) 7"
    using large [OF nl2, of 2 t2] n2 by (simp add: indices_def)
  have s2: "next_pages p2 \<noteq> []" using s 1(6) 2(6) by auto
  obtain t3 p3 where 3: "get_or_alloc ?f t2 (pd_index virt) p2 = Some (t3, p3)" "node (tabs p3) ?r ([pml4_index virt, pdpt_index virt] @ [pd_index virt]) = Some t3"
    "paging_ok ?r p3" "ways_kept ?r ?fs p2 p3" "\<forall>v. leaf (tabs p3) ?r v = leaf (tabs p2) ?r v" "length (next_pages p2) \<le> length (next_pages p3) + 1" "flushed p3 = flushed p2"
    by (rule get_or_alloc_step [OF 2(3) n2 ix(3) tf(1) fin(1) l2 s2])
  have n3: "node (tabs p3) ?r (indices virt) = Some t3" using 3(2) by (simp add: indices_def)
  have lf: "leaf (tabs p3) ?r v = leaf (tabs p) ?r v" for v using 1(5) 2(5) 3(5) by simp
  have np: "\<not> bit (tabs p3 t3 (pt_index virt)) 0" using lf [of virt] un n3 by (simp add: leaf_def split: if_splits)
  let ?p = "flush_tlb_single virt (write_entry t3 (pt_index virt) (phys OR scast fl) p3)"
  have t: "tabs ?p = (tabs p3)(t3 := (tabs p3 t3)(pt_index virt := phys OR scast fl))" by (simp add: flush_tlb_single_def write_entry_def)
  have wk: "ways_kept ?r ?fs p3 ?p"
  proof -
    have N: "node (tabs ?p) ?r js = node (tabs p3) ?r js" if "path js" for js unfolding t by (rule node_leaf_entry [OF 3(3) n3 that])
    have "tabs ?p a i = tabs p3 a i" if "node (tabs p3) ?r js = Some a" "path js" "length js < 3" for a i js
    proof -
      have "js \<noteq> indices virt" using that(3) path_indices(2) [of virt] by auto
      then have "a \<noteq> t3" using 3(3) n3 that path_indices(1) [of virt] unfolding paging_ok_def by blast
      then show ?thesis unfolding t by simp
    qed
    moreover have "length (take k (indices v)) < 3" "path (take k (indices v))" if "k < 3" for k v
      using that path_indices(2) [of v] path_take [OF path_indices(1)] by simp_all
    ultimately have "on_way Q (tabs ?p) ?r v = on_way Q (tabs p3) ?r v" for Q v unfolding on_way_def using N by (metis (no_types, lifting))
    then show ?thesis using N by (simp add: ways_kept_def)
  qed
  have pb: "bit (phys OR scast fl) 0" using fl by (simp add: bit_or_iff bit_signed_iff page_flags_def)
  show ?thesis
  proof (rule that [of ?p])
    show "map_one cr3 phys virt fl p = Some ?p"
      using 1(1) 2(1) 3(1) np by (simp add: map_one_def get_or_alloc_pdpt_def get_or_alloc_pd_def get_or_alloc_pt_def)
    show "paging_ok ?r ?p" using paging_ok_leaf_entry [OF 3(3) n3] by (simp add: paging_ok_def flush_tlb_single_def)
    show "ways_kept ?r ?fs p ?p" using 1(4) 2(4) 3(4) wk by (blast intro: ways_kept_trans)
    show "\<forall>v. leaf (tabs ?p) ?r v = (if same_page v virt then Some (phys OR scast fl) else leaf (tabs p) ?r v)"
      unfolding t leaf_entry [OF 3(3) n3] lf using pb by simp
    show "length (next_pages p) \<le> length (next_pages ?p) + 3" using 1(6) 2(6) 3(6) by (simp add: flush_tlb_single_def write_entry_def)
    show "flushed ?p = flushed p @ [virt]" using 1(7) 2(7) 3(7) by (simp add: flush_tlb_single_def write_entry_def)
  qed
qed

lemma page_of_add: "unat ((v :: u64) + of_nat (4096 * j)) div 4096 mod 2 ^ 36 = (unat v div 4096 + j) mod (2 ^ 36 :: nat)"
proof -
  have "unat (v + w) = (unat v + unat w) mod 2 ^ 64" for w by (simp add: unat_word_ariths)
  moreover have "unat (of_nat (4096 * j) :: u64) = 4096 * j mod 2 ^ 64" by (simp add: unsigned_of_nat take_bit_eq_mod del: of_nat_mult)
  ultimately have "unat (v + of_nat (4096 * j)) = (unat v + 4096 * j) mod 2 ^ 64" by (simp only: mod_add_right_eq)
  also have "(2 :: nat) ^ 64 = 4096 * 2 ^ 52" by simp
  finally have "unat (v + of_nat (4096 * j)) div 4096 = (unat v + 4096 * j) div 4096 mod 2 ^ 52"
    using mod_mult2_eq [of "unat v + 4096 * j" 4096 "2 ^ 52"] by simp
  also have "(unat v + 4096 * j) div 4096 = unat v div 4096 + j" by simp
  finally show ?thesis by (simp add: mod_mod_cancel)
qed

lemma other_page: "0 < j \<Longrightarrow> j < 2 ^ 36 \<Longrightarrow> \<not> same_page (v + of_nat (4096 * j)) v"
proof
  assume j: "0 < j" "j < 2 ^ 36" and s: "same_page (v + of_nat (4096 * j)) v"
  have "(unat v div 4096 + j) mod 2 ^ 36 = unat v div 4096 mod 2 ^ 36" using s by (simp only: same_page_def page_of_add)
  then have "(2 ^ 36 :: nat) dvd (unat v div 4096 + j) - unat v div 4096" by (intro mod_eq_dvd_iff_nat [THEN iffD1]) simp_all
  then have "2 ^ 36 dvd j" by simp
  with j show False by (simp add: nat_dvd_not_less)
qed

lemma same_page_refl: "same_page v v" by (simp add: same_page_def)

lemma next_page: "v + 4096 + of_nat (4096 * k) = v + of_nat (4096 * (k + 1))" for v :: u64
  by (simp add: algebra_simps)

lemma leaf_same_page: "same_page v w \<Longrightarrow> leaf m r v = leaf m r w"
  by (cases "node m r (indices w)") (simp_all add: leaf_def same_page_indices)

lemma map_loop_maps:
  "paging_ok (entry_addr cr3) p \<Longrightarrow> page_flags fl \<Longrightarrow> 3 * n \<le> length (next_pages p) \<Longrightarrow> n < 2 ^ 36 \<Longrightarrow>
   \<forall>k < n. no_large_page (tabs p) (entry_addr cr3) (virt + of_nat (4096 * k)) \<and> leaf (tabs p) (entry_addr cr3) (virt + of_nat (4096 * k)) = None \<Longrightarrow>
   \<exists>p'. map_loop n cr3 phys virt fl p = Some p' \<and> paging_ok (entry_addr cr3) p' \<and> ways_kept (entry_addr cr3) (table_flag_set fl) p p'
     \<and> (\<forall>k < n. \<forall>v. same_page v (virt + of_nat (4096 * k)) \<longrightarrow> leaf (tabs p') (entry_addr cr3) v = Some ((phys + of_nat (4096 * k)) OR scast fl))
     \<and> (\<forall>v. (\<forall>k < n. \<not> same_page v (virt + of_nat (4096 * k))) \<longrightarrow> leaf (tabs p') (entry_addr cr3) v = leaf (tabs p) (entry_addr cr3) v)"
proof (induction n arbitrary: phys virt p)
  case 0
  then show ?case by (simp add: ways_kept_def)
next
  case (Suc n)
  let ?r = "entry_addr cr3"
  have z: "no_large_page (tabs p) ?r virt" "leaf (tabs p) ?r virt = None" using Suc.prems(5) by (auto dest: spec [of _ 0])
  have s: "3 \<le> length (next_pages p)" using Suc.prems(3) by simp
  obtain p1 where 1: "map_one cr3 phys virt fl p = Some p1" "paging_ok ?r p1" "ways_kept ?r (table_flag_set fl) p p1"
    "\<forall>v. leaf (tabs p1) ?r v = (if same_page v virt then Some (phys OR scast fl) else leaf (tabs p) ?r v)"
    "length (next_pages p) \<le> length (next_pages p1) + 3" "flushed p1 = flushed p @ [virt]"
    by (rule map_one_step [OF Suc.prems(1) z s Suc.prems(2)])
  have small: "\<not> bit (z OR f) 7" if "f \<in> table_flag_set fl" "entry_addr z = z" for z f
  proof -
    have "table_flags f" using table_flags_of [OF Suc.prems(2)] that(1) by (auto simp: table_flag_set_def)
    from table_entry(1) [OF this that(2)] show ?thesis by (simp add: next_table_def split: if_splits)
  qed
  have nl1: "no_large_page (tabs p1) ?r w" if "no_large_page (tabs p) ?r w" for w by (rule ways_kept_way [OF 1(3) small that])
  have later: "no_large_page (tabs p1) ?r (virt + 4096 + of_nat (4096 * k)) \<and> leaf (tabs p1) ?r (virt + 4096 + of_nat (4096 * k)) = None" if "k < n" for k
  proof -
    have "k + 1 < Suc n" using that by simp
    then have "no_large_page (tabs p) ?r (virt + of_nat (4096 * (k + 1)))" "leaf (tabs p) ?r (virt + of_nat (4096 * (k + 1))) = None"
      using Suc.prems(5) by blast+
    moreover have "\<not> same_page (virt + of_nat (4096 * (k + 1))) virt" using that Suc.prems(4) by (intro other_page) simp_all
    ultimately show ?thesis unfolding next_page using 1(4) nl1 by simp
  qed
  have len: "3 * n \<le> length (next_pages p1)" "n < 2 ^ 36" using 1(5) Suc.prems(3,4) by simp_all
  from Suc.IH [OF 1(2) Suc.prems(2) len, of "virt + 4096" "phys + 4096"] later obtain p' where
    p': "map_loop n cr3 (phys + 4096) (virt + 4096) fl p1 = Some p'" "paging_ok ?r p'" "ways_kept ?r (table_flag_set fl) p1 p'"
    "\<forall>k < n. \<forall>v. same_page v (virt + 4096 + of_nat (4096 * k)) \<longrightarrow> leaf (tabs p') ?r v = Some ((phys + 4096 + of_nat (4096 * k)) OR scast fl)"
    "\<forall>v. (\<forall>k < n. \<not> same_page v (virt + 4096 + of_nat (4096 * k))) \<longrightarrow> leaf (tabs p') ?r v = leaf (tabs p1) ?r v" by blast
  note q = p'(4) [unfolded next_page] and f = p'(5) [unfolded next_page]
  have mapped: "leaf (tabs p') ?r v = Some ((phys + of_nat (4096 * k)) OR scast fl)"
    if k: "k < Suc n" and v: "same_page v (virt + of_nat (4096 * k))" for k v
  proof (cases k)
    case 0
    have "\<not> same_page v (virt + of_nat (4096 * (i + 1)))" if "i < n" for i
      using other_page [of "i + 1" virt] that Suc.prems(4) v 0 by (auto simp: same_page_def)
    then have "leaf (tabs p') ?r v = leaf (tabs p1) ?r v" using f by blast
    then show ?thesis using 1(4) v 0 by simp
  next
    case (Suc i)
    then have "leaf (tabs p') ?r v = Some ((phys + of_nat (4096 * (i + 1))) OR scast fl)" using q k v by (metis Suc_eq_plus1 Suc_less_eq)
    then show ?thesis using Suc by simp
  qed
  have kept: "leaf (tabs p') ?r v = leaf (tabs p) ?r v" if v: "\<forall>k < Suc n. \<not> same_page v (virt + of_nat (4096 * k))" for v
  proof -
    have "\<not> same_page v virt" using v by (auto dest: spec [of _ 0])
    moreover have "\<forall>k < n. \<not> same_page v (virt + of_nat (4096 * (k + 1)))" using v by auto
    ultimately show ?thesis using f 1(4) by simp
  qed
  show ?case
  proof (intro exI [of _ p'] conjI)
    show "map_loop (Suc n) cr3 phys virt fl p = Some p'" using 1(1) p'(1) by simp
    show "paging_ok ?r p'" by (rule p'(2))
    show "ways_kept ?r (table_flag_set fl) p p'" by (rule ways_kept_trans [OF 1(3) p'(3)])
  qed (use mapped kept in blast)+
qed

text \<open>What the code's walks find, when no large page is in the way.\<close>

lemma way_entries:
  assumes "on_way Q m r v"
  shows "bit (m r (pml4_index v)) 0 \<Longrightarrow> Q (m r (pml4_index v))"
    and "next_table (m r (pml4_index v)) = Some b3 \<Longrightarrow> bit (m b3 (pdpt_index v)) 0 \<Longrightarrow> Q (m b3 (pdpt_index v))"
    and "next_table (m r (pml4_index v)) = Some b3 \<Longrightarrow> next_table (m b3 (pdpt_index v)) = Some b2 \<Longrightarrow> bit (m b2 (pd_index v)) 0 \<Longrightarrow> Q (m b2 (pd_index v))"
proof -
  have w: "Q (m a (indices v ! k))" if "k < 3" "node m r (take k (indices v)) = Some a" "bit (m a (indices v ! k)) 0" for k a
    using assms that unfolding on_way_def by blast
  show "bit (m r (pml4_index v)) 0 \<Longrightarrow> Q (m r (pml4_index v))" using w [of 0 r] by (simp add: indices_def)
  show "next_table (m r (pml4_index v)) = Some b3 \<Longrightarrow> bit (m b3 (pdpt_index v)) 0 \<Longrightarrow> Q (m b3 (pdpt_index v))"
    using w [of 1 b3] by (simp add: indices_def)
  show "next_table (m r (pml4_index v)) = Some b3 \<Longrightarrow> next_table (m b3 (pdpt_index v)) = Some b2 \<Longrightarrow> bit (m b2 (pd_index v)) 0 \<Longrightarrow> Q (m b2 (pd_index v))"
    using w [of 2 b2] by (simp add: indices_def)
qed

lemma walk_pt_node:
  assumes "no_large_page (tabs p) (entry_addr cr3) v"
  shows "walk_pt cr3 v p = node (tabs p) (entry_addr cr3) (indices v)"
proof -
  note w = way_entries [OF assms]
  show ?thesis
  proof (cases "bit (tabs p (entry_addr cr3) (pml4_index v)) 0")
    case True
    let ?b3 = "entry_addr (tabs p (entry_addr cr3) (pml4_index v))"
    have n4: "next_table (tabs p (entry_addr cr3) (pml4_index v)) = Some ?b3" using True w(1) by (simp add: next_table_def)
    show ?thesis
    proof (cases "bit (tabs p ?b3 (pdpt_index v)) 0")
      case T3: True
      let ?b2 = "entry_addr (tabs p ?b3 (pdpt_index v))"
      have n3: "next_table (tabs p ?b3 (pdpt_index v)) = Some ?b2" using T3 w(2) [OF n4] by (simp add: next_table_def)
      show ?thesis
      proof (cases "bit (tabs p ?b2 (pd_index v)) 0")
        case T2: True
        then have "next_table (tabs p ?b2 (pd_index v)) = Some (entry_addr (tabs p ?b2 (pd_index v)))" using w(3) [OF n4 n3] by (simp add: next_table_def)
        then show ?thesis using True T3 T2 n4 n3 by (simp add: walk_pt_def Let_def indices_def)
      next
        case False
        then have "next_table (tabs p ?b2 (pd_index v)) = None" by (simp add: next_table_def)
        then show ?thesis using True T3 False n4 n3 by (simp add: walk_pt_def Let_def indices_def)
      qed
    next
      case False
      then have "next_table (tabs p ?b3 (pdpt_index v)) = None" by (simp add: next_table_def)
      then show ?thesis using True False n4 by (simp add: walk_pt_def Let_def indices_def)
    qed
  next
    case False
    then have "next_table (tabs p (entry_addr cr3) (pml4_index v)) = None" by (simp add: next_table_def)
    then show ?thesis using False by (simp add: walk_pt_def Let_def indices_def)
  qed
qed

lemma get_physaddr_leaf:
  assumes nl: "no_large_page (tabs p) (entry_addr cr3) v"
  shows "get_physaddr cr3 v p = (case leaf (tabs p) (entry_addr cr3) v of None \<Rightarrow> 0 | Some e \<Rightarrow> (e AND NOT 0xFFF) + (v AND 0xFFF))"
proof -
  note w = way_entries [OF nl]
  let ?e4 = "tabs p (entry_addr cr3) (pml4_index v)" let ?e3 = "tabs p (entry_addr ?e4) (pdpt_index v)" let ?e2 = "tabs p (entry_addr ?e3) (pd_index v)"
  have b3: "bit ?e4 0 \<Longrightarrow> bit ?e3 0 \<Longrightarrow> \<not> bit ?e3 7" using w(1,2) by (simp add: next_table_def)
  have b2: "bit ?e4 0 \<Longrightarrow> bit ?e3 0 \<Longrightarrow> bit ?e2 0 \<Longrightarrow> \<not> bit ?e2 7" using w(1,3) b3 by (simp add: next_table_def)
  have "leaf (tabs p) (entry_addr cr3) v = (case walk_pt cr3 v p of None \<Rightarrow> None | Some t \<Rightarrow> if bit (tabs p t (pt_index v)) 0 then Some (tabs p t (pt_index v)) else None)"
    by (simp add: leaf_def walk_pt_node [OF nl])
  then show ?thesis using b3 b2 by (simp add: walk_pt_def get_physaddr_def Let_def)
qed

lemma below_4096: "(\<And>n. 12 \<le> n \<Longrightarrow> \<not> bit g n) \<Longrightarrow> (g :: u32) < 0x1000"
proof -
  assume h: "\<And>n. 12 \<le> n \<Longrightarrow> \<not> bit g n"
  have "n < 12" if "bit g n" for n using h that by (metis not_less)
  then have "take_bit 12 g = g" by (intro bit_word_eqI) (auto simp: bit_take_bit_iff)
  then have "take_bit 12 (unat g) = unat g" by (metis unsigned_take_bit_eq)
  then have "unat g < 2 ^ 12" by (metis take_bit_nat_less_exp)
  then show ?thesis by (simp add: word_less_nat_alt)
qed

lemma page_flags_of:
  assumes "flags < 0x80"
  shows "page_flags (flags OR (x86_to_page_flags flags OR 1))"
proof -
  have f: "\<not> bit flags n" if "7 \<le> n" for n
  proof -
    have "unat flags < 2 ^ 7" using assms by (simp add: word_less_nat_alt)
    then have "take_bit 7 (unat flags) = unat flags" by (rule take_bit_nat_eq_self)
    then have "bit (unat flags) n = bit (take_bit 7 (unat flags)) n" by simp
    then show ?thesis using that by (simp add: bit_take_bit_iff bit_unsigned_iff)
  qed
  let ?x = "x86_to_page_flags flags" and ?g = "flags OR (x86_to_page_flags flags OR 1)"
  have x: "?x AND NOT 0x13e = 0" by (simp add: x86_to_page_flags_def bit.conj_disj_distrib2)
  have xb: "\<not> bit ?x n" if "n = 7 \<or> 12 \<le> n" for n
  proof
    assume b: "bit ?x n"
    have "\<not> bit (0x13e :: u32) n" using that high_bits [of "0x13e" n] by auto
    moreover have "n < 32" using bit_imp_le_length [OF b] by simp
    moreover have "bit (?x AND NOT k) n" if "\<not> bit k n" "n < 32" for k using b that by (simp add: bit_and_iff bit_not_iff)
    ultimately have "bit (?x AND NOT 0x13e) n" by blast
    then show False unfolding x by simp
  qed
  have b7: "\<not> bit ?g 7" using f [of 7] xb [of 7] by (simp add: bit_or_iff)
  have hi: "\<not> bit ?g n" if "12 \<le> n" for n using f [of n] xb [of n] that by (auto simp: bit_or_iff bit_1_iff)
  then have "?g < 0x1000" by (rule below_4096)
  then show ?thesis using b7 by (simp add: page_flags_def bit_or_iff)
qed

lemma entry_page:
  assumes "page_flags fl" and "x AND 0xfff = (0 :: u64)"
  shows "(x OR scast fl) AND NOT 0xFFF = x"
proof -
  have low: "(0xfff :: u64) = mask 12" by (simp add: mask_eq_decr_exp)
  have h: "\<not> bit fl n" if "12 \<le> n" for n using high_bits assms(1) that by (simp add: page_flags_def)
  have "12 \<le> n" if "bit x n" for n
    using arg_cong [OF assms(2), of "\<lambda>y. bit y n"] that bit_imp_le_length [OF that] unfolding low by (simp add: bit_simps not_less)
  then show ?thesis unfolding low
    by (intro bit_word_eqI) (use h in \<open>auto simp: bit_simps not_less\<close>)
qed

lemma on_way_same_page: "same_page v w \<Longrightarrow> on_way Q m r v = on_way Q m r w"
  by (simp add: on_way_def same_page_indices)

lemma aligned_iff: "x AND 0xfff = (0 :: u64) \<longleftrightarrow> 4096 dvd unat x"
proof -
  have low: "(0xfff :: u64) = mask 12" by (simp add: mask_eq_decr_exp)
  have "unat (x AND 0xfff) = unat x mod 4096" unfolding low take_bit_eq_mask [symmetric] unsigned_take_bit_eq unfolding take_bit_eq_mod by simp
  then show ?thesis by (metis dvd_eq_mod_eq_0 unat_eq_0)
qed

lemma aligned_add:
  assumes "x AND 0xfff = (0 :: u64)"
  shows "(x + of_nat (4096 * k)) AND 0xfff = 0"
proof -
  have u: "unat (of_nat (4096 * k) :: u64) = 4096 * k mod 2 ^ 64" by (simp add: unsigned_of_nat take_bit_eq_mod del: of_nat_mult)
  have "unat (x + w) = (unat x + unat w) mod 2 ^ 64" for w by (simp add: unat_word_ariths)
  from this [of "of_nat (4096 * k)"] have "unat (x + of_nat (4096 * k)) = (unat x + 4096 * k) mod 2 ^ 64"
    unfolding u by (simp only: mod_add_right_eq)
  moreover have "4096 dvd unat x + 4096 * k" using assms by (simp add: aligned_iff)
  moreover have "(4096 :: nat) dvd 2 ^ 64" by simp
  ultimately show ?thesis unfolding aligned_iff by (metis dvd_mod)
qed

lemma small_flags:
  assumes "page_flags fl" and "f \<in> table_flag_set fl" and "entry_addr z = z"
  shows "\<not> bit (z OR f) 7"
proof -
  have "table_flags f" using table_flags_of [OF assms(1)] assms(2) by (auto simp: table_flag_set_def)
  from table_entry(1) [OF this assms(3)] show ?thesis by (simp add: next_table_def split: if_splits)
qed

lemma indices_page: "indices v = indices w \<Longrightarrow> on_way Q m r v = on_way Q m r w"
  by (simp add: on_way_def)

lemma unmap_loop_unmaps:
  "paging_ok (entry_addr cr3) p \<Longrightarrow> n < 2 ^ 36 \<Longrightarrow>
   \<forall>k < n. no_large_page (tabs p) (entry_addr cr3) (virt + of_nat (4096 * k)) \<and> leaf (tabs p) (entry_addr cr3) (virt + of_nat (4096 * k)) \<noteq> None \<Longrightarrow>
   \<exists>p'. unmap_loop_pt n cr3 virt p = (True, virt + of_nat (4096 * n), p') \<and> paging_ok (entry_addr cr3) p' \<and> flushed p' = flushed p
     \<and> next_pages p' = next_pages p \<and> (\<forall>v. no_large_page (tabs p) (entry_addr cr3) v \<longrightarrow> no_large_page (tabs p') (entry_addr cr3) v)
     \<and> (\<forall>v. leaf (tabs p') (entry_addr cr3) v
             = (if \<exists>k < n. same_page v (virt + of_nat (4096 * k)) then None else leaf (tabs p) (entry_addr cr3) v))"
proof (induction n arbitrary: virt p)
  case 0
  then show ?case by simp
next
  case (Suc n)
  let ?r = "entry_addr cr3"
  have nl: "no_large_page (tabs p) ?r virt" and m: "leaf (tabs p) ?r virt \<noteq> None" using Suc.prems(3) by (auto dest: spec [of _ 0])
  from m obtain t where t: "node (tabs p) ?r (indices virt) = Some t" and b: "bit (tabs p t (pt_index virt)) 0"
    by (auto simp: leaf_def split: option.splits if_splits)
  let ?p = "write_entry t (pt_index virt) 0 p"
  have tab: "tabs ?p = (tabs p)(t := (tabs p t)(pt_index virt := 0))" by (simp add: write_entry_def)
  have ok: "paging_ok ?r ?p" by (rule paging_ok_leaf_entry [OF Suc.prems(1) t])
  have lf: "leaf (tabs ?p) ?r v = (if same_page v virt then None else leaf (tabs p) ?r v)" for v
    unfolding tab leaf_entry [OF Suc.prems(1) t] by simp
  have way: "no_large_page (tabs ?p) ?r v" if v: "no_large_page (tabs p) ?r v" for v
    unfolding on_way_def
  proof (intro allI impI)
    fix k a assume k: "k < (3 :: nat)" "node (tabs ?p) ?r (take k (indices v)) = Some a" "bit (tabs ?p a (indices v ! k)) 0"
    have pk: "path (take k (indices v))" by (rule path_take [OF path_indices(1)])
    have a: "node (tabs p) ?r (take k (indices v)) = Some a" using k(2) node_leaf_entry [OF Suc.prems(1) t pk] tab by simp
    have "length (take k (indices v)) \<noteq> length (indices virt)" using k(1) by (simp add: path_indices(2))
    then have "take k (indices v) \<noteq> indices virt" by metis
    then have "a \<noteq> t" using Suc.prems(1) a t pk path_indices(1) unfolding paging_ok_def by blast
    then have e: "tabs ?p a = tabs p a" unfolding tab by simp
    show "\<not> bit (tabs ?p a (indices v ! k)) 7" using v k(1,3) a unfolding on_way_def e by blast
  qed
  have later: "\<forall>k < n. no_large_page (tabs ?p) ?r (virt + 4096 + of_nat (4096 * k)) \<and> leaf (tabs ?p) ?r (virt + 4096 + of_nat (4096 * k)) \<noteq> None"
  proof (intro allI impI)
    fix k assume "k < n"
    then have k: "k + 1 < Suc n" "0 < k + 1" "k + 1 < 2 ^ 36" using Suc.prems(2) by simp_all
    note Suc.prems(3) [rule_format, OF k(1)] and other_page [OF k(2,3), of virt]
    then show "no_large_page (tabs ?p) ?r (virt + 4096 + of_nat (4096 * k)) \<and> leaf (tabs ?p) ?r (virt + 4096 + of_nat (4096 * k)) \<noteq> None"
      unfolding next_page lf using way by simp
  qed
  have "n < 2 ^ 36" using Suc.prems(2) by simp
  from Suc.IH [OF ok this later] obtain p' where
    p': "unmap_loop_pt n cr3 (virt + 4096) ?p = (True, virt + 4096 + of_nat (4096 * n), p')" "paging_ok ?r p'" "flushed p' = flushed ?p"
    "next_pages p' = next_pages ?p" "\<And>v. no_large_page (tabs ?p) ?r v \<Longrightarrow> no_large_page (tabs p') ?r v"
    "\<And>v. leaf (tabs p') ?r v = (if \<exists>k < n. same_page v (virt + 4096 + of_nat (4096 * k)) then None else leaf (tabs ?p) ?r v)" by blast
  have ex: "(\<exists>k < Suc n. same_page v (virt + of_nat (4096 * k))) \<longleftrightarrow>
      same_page v virt \<or> (\<exists>k < n. same_page v (virt + 4096 + of_nat (4096 * k)))" for v
    unfolding next_page by (subst Ex_less_Suc2) simp
  show ?case
  proof (intro exI [of _ p'] conjI allI)
    show "unmap_loop_pt (Suc n) cr3 virt p = (True, virt + of_nat (4096 * Suc n), p')"
      using p'(1) b by (simp add: walk_pt_node [OF nl] t next_page [simplified])
    show "leaf (tabs p') ?r v = (if \<exists>k < Suc n. same_page v (virt + of_nat (4096 * k)) then None else leaf (tabs p) ?r v)" for v
      unfolding p'(6) ex lf by (simp only: if_distrib [of Not] split: if_split) blast
    show "no_large_page (tabs p) ?r v \<longrightarrow> no_large_page (tabs p') ?r v" for v using way p'(5) by blast
  qed (use p' in \<open>simp_all add: write_entry_def\<close>)
qed

lemma unmap_pages_leaves:
  assumes "paging_ok (entry_addr cr3) p" and "n < 2 ^ 36"
    and "\<forall>k < n. no_large_page (tabs p) (entry_addr cr3) (virt + of_nat (4096 * k)) \<and> leaf (tabs p) (entry_addr cr3) (virt + of_nat (4096 * k)) \<noteq> None"
  obtains p' where "unmap_pages cr3 virt n p = (0, p')" "paging_ok (entry_addr cr3) p'" "flushed p' = flushed p @ [virt + of_nat (4096 * n)]"
    "\<And>v. no_large_page (tabs p) (entry_addr cr3) v \<Longrightarrow> no_large_page (tabs p') (entry_addr cr3) v"
    "\<And>v. leaf (tabs p') (entry_addr cr3) v
       = (if \<exists>k < n. same_page v (virt + of_nat (4096 * k)) then None else leaf (tabs p) (entry_addr cr3) v)"
proof -
  let ?r = "entry_addr cr3" and ?w = "virt + of_nat (4096 * n)"
  from unmap_loop_unmaps [OF assms] obtain p1 where
    p1: "unmap_loop_pt n cr3 virt p = (True, ?w, p1)" "paging_ok ?r p1" "flushed p1 = flushed p"
    "\<And>v. no_large_page (tabs p) ?r v \<Longrightarrow> no_large_page (tabs p1) ?r v"
    "\<And>v. leaf (tabs p1) ?r v = (if \<exists>k < n. same_page v (virt + of_nat (4096 * k)) then None else leaf (tabs p) ?r v)" by blast
  show ?thesis
  proof (rule that [of "flush_tlb_single ?w p1"])
    show "unmap_pages cr3 virt n p = (0, flush_tlb_single ?w p1)" using p1(1) by (simp add: unmap_pages_def)
  qed (use p1 in \<open>simp_all add: flush_tlb_single_def paging_ok_def\<close>)
qed

lemma map_pages_leaves:
  assumes "paging_ok (entry_addr cr3) p" and "flags < 0x80" and "3 * n \<le> length (next_pages p)" and "n < 2 ^ 36" and "phys AND 0xfff = 0"
    and "\<forall>k < n. no_large_page (tabs p) (entry_addr cr3) (virt + of_nat (4096 * k)) \<and> leaf (tabs p) (entry_addr cr3) (virt + of_nat (4096 * k)) = None"
  obtains p' where "map_pages cr3 phys virt flags n p = Some p'" "paging_ok (entry_addr cr3) p'"
    "\<And>v. no_large_page (tabs p) (entry_addr cr3) v \<Longrightarrow> no_large_page (tabs p') (entry_addr cr3) v"
    "\<And>v. \<forall>k < n. \<not> same_page v (virt + of_nat (4096 * k)) \<Longrightarrow> leaf (tabs p') (entry_addr cr3) v = leaf (tabs p) (entry_addr cr3) v"
    "\<And>k v. k < n \<Longrightarrow> same_page v (virt + of_nat (4096 * k)) \<Longrightarrow> leaf (tabs p') (entry_addr cr3) v \<noteq> None"
    "\<And>k v. k < n \<Longrightarrow> same_page v (virt + of_nat (4096 * k)) \<Longrightarrow> get_physaddr cr3 v p' = phys + of_nat (4096 * k) + (v AND 0xfff)"
proof -
  let ?r = "entry_addr cr3" and ?fl = "flags OR (x86_to_page_flags flags OR 1)"
  have fl: "page_flags ?fl" by (rule page_flags_of [OF assms(2)])
  from map_loop_maps [OF assms(1) fl assms(3,4,6)] obtain p' where
    p': "map_loop n cr3 phys virt ?fl p = Some p'" "paging_ok ?r p'" "ways_kept ?r (table_flag_set ?fl) p p'"
    "\<And>k v. k < n \<Longrightarrow> same_page v (virt + of_nat (4096 * k)) \<Longrightarrow> leaf (tabs p') ?r v = Some ((phys + of_nat (4096 * k)) OR scast ?fl)"
    "\<And>v. \<forall>k < n. \<not> same_page v (virt + of_nat (4096 * k)) \<Longrightarrow> leaf (tabs p') ?r v = leaf (tabs p) ?r v" by blast
  have way: "no_large_page (tabs p') ?r v" if "no_large_page (tabs p) ?r v" for v
    by (rule ways_kept_way [OF p'(3) small_flags [OF fl] that])
  have phys: "get_physaddr cr3 v p' = phys + of_nat (4096 * k) + (v AND 0xfff)" if k: "k < n" and v: "same_page v (virt + of_nat (4096 * k))" for k v
  proof -
    have "no_large_page (tabs p) ?r v" using assms(6) k on_way_same_page [OF v] by blast
    from get_physaddr_leaf [OF way [OF this]] show ?thesis
      unfolding p'(4) [OF k v] option.case entry_page [OF fl aligned_add [OF assms(5)]] .
  qed
  show ?thesis
  proof (rule that)
    show "map_pages cr3 phys virt flags n p = Some p'" using p'(1) by (simp add: map_pages_def)
    show "leaf (tabs p') ?r v \<noteq> None" if "k < n" "same_page v (virt + of_nat (4096 * k))" for k v using p'(4) [OF that] by simp
  qed (use p'(2,5) way phys in \<open>blast+\<close>)
qed

text \<open>The permissions of the processor: every level has to allow a write of the user.\<close>

definition user_writes :: "tables \<Rightarrow> u64 \<Rightarrow> u64 \<Rightarrow> bool" where
  "user_writes m r v \<longleftrightarrow> on_way (\<lambda>e. bit e 1 \<and> bit e 2) m r v \<and> (\<exists>e. leaf m r v = Some e \<and> bit e 1 \<and> bit e 2)"

section \<open>Properties\<close>

text \<open>
  C37. Mapping extends the address map.  Pages that no large page covers and that are not mapped, with a table for every
  level in the allocator, are mapped one after the other: every address in them is translated to its place in the
  physical range, and all other addresses are translated as before.
\<close>

theorem map_pages_extends_map:
  assumes "paging_ok (entry_addr cr3) p" and "flags < 0x80" and "3 * n \<le> length (next_pages p)" and "n < 2 ^ 36" and "phys AND 0xfff = 0"
    and "\<forall>k < n. no_large_page (tabs p) (entry_addr cr3) (virt + of_nat (4096 * k)) \<and> leaf (tabs p) (entry_addr cr3) (virt + of_nat (4096 * k)) = None"
  shows "\<exists>p'. map_pages cr3 phys virt flags n p = Some p' \<and> paging_ok (entry_addr cr3) p'
    \<and> (\<forall>k < n. \<forall>v. same_page v (virt + of_nat (4096 * k)) \<longrightarrow> get_physaddr cr3 v p' = phys + of_nat (4096 * k) + (v AND 0xfff))
    \<and> (\<forall>v. no_large_page (tabs p) (entry_addr cr3) v \<longrightarrow> (\<forall>k < n. \<not> same_page v (virt + of_nat (4096 * k)))
             \<longrightarrow> get_physaddr cr3 v p' = get_physaddr cr3 v p)"
proof -
  obtain p' where p': "map_pages cr3 phys virt flags n p = Some p'" "paging_ok (entry_addr cr3) p'"
    "\<And>v. no_large_page (tabs p) (entry_addr cr3) v \<Longrightarrow> no_large_page (tabs p') (entry_addr cr3) v"
    "\<And>v. \<forall>k < n. \<not> same_page v (virt + of_nat (4096 * k)) \<Longrightarrow> leaf (tabs p') (entry_addr cr3) v = leaf (tabs p) (entry_addr cr3) v"
    "\<And>k v. k < n \<Longrightarrow> same_page v (virt + of_nat (4096 * k)) \<Longrightarrow> get_physaddr cr3 v p' = phys + of_nat (4096 * k) + (v AND 0xfff)"
    by (rule map_pages_leaves [OF assms]) blast
  moreover have "get_physaddr cr3 v p' = get_physaddr cr3 v p"
    if "no_large_page (tabs p) (entry_addr cr3) v" "\<forall>k < n. \<not> same_page v (virt + of_nat (4096 * k))" for v
    unfolding get_physaddr_leaf [OF p'(3) [OF that(1)]] get_physaddr_leaf [OF that(1)] p'(4) [OF that(2)] ..
  ultimately show ?thesis by blast
qed

text \<open>
  C39. Unmapping takes the pages out of the address map and no other page, and the rest of the tables stays.  But the
  one translation it flushes is that of the page behind the range: no page it has unmapped is flushed from the TLB.
\<close>

theorem unmap_pages_flushes_next:
  assumes "paging_ok (entry_addr cr3) p" and "n < 2 ^ 36"
    and "\<forall>k < n. no_large_page (tabs p) (entry_addr cr3) (virt + of_nat (4096 * k)) \<and> leaf (tabs p) (entry_addr cr3) (virt + of_nat (4096 * k)) \<noteq> None"
  shows "case unmap_pages cr3 virt n p of (r, p') \<Rightarrow> r = 0 \<and> paging_ok (entry_addr cr3) p'
    \<and> (\<forall>v. leaf (tabs p') (entry_addr cr3) v
            = (if \<exists>k < n. same_page v (virt + of_nat (4096 * k)) then None else leaf (tabs p) (entry_addr cr3) v))
    \<and> flushed p' = flushed p @ [virt + of_nat (4096 * n)]
    \<and> (\<forall>k < n. \<not> same_page (virt + of_nat (4096 * n)) (virt + of_nat (4096 * k)))"
proof -
  obtain p1 where p1: "unmap_pages cr3 virt n p = (0, p1)" "paging_ok (entry_addr cr3) p1" "flushed p1 = flushed p @ [virt + of_nat (4096 * n)]"
    "\<And>v. leaf (tabs p1) (entry_addr cr3) v = (if \<exists>k < n. same_page v (virt + of_nat (4096 * k)) then None else leaf (tabs p) (entry_addr cr3) v)"
    by (rule unmap_pages_leaves [OF assms]) blast
  have far: "\<not> same_page (virt + of_nat (4096 * n)) (virt + of_nat (4096 * k))" if "k < n" for k
  proof -
    have "virt + of_nat (4096 * n) = virt + of_nat (4096 * k) + of_nat (4096 * (n - k))"
      using that by (simp only: add.assoc of_nat_add [symmetric] add_mult_distrib2 [symmetric] le_add_diff_inverse less_imp_le)
    moreover have "0 < n - k" "n - k < 2 ^ 36" using that assms(2) by simp_all
    note other_page [OF this, of "virt + of_nat (4096 * k)"]
    ultimately show ?thesis by metis
  qed
  show ?thesis unfolding p1(1) prod.case p1(4) using p1(2,3) far by blast
qed

text \<open>
  C38. A page that is mapped for the user without write permission is writable by the user.  The software flags are left
  in the entry beside the flags of the processor, and \<open>MEM_PF_USER\<close> is the write bit; this is how faults on segments
  that are only readable are served.
\<close>

theorem read_only_page_is_writable:
  assumes "paging_ok (entry_addr cr3) p" and "3 \<le> length (next_pages p)" and "no_large_page (tabs p) (entry_addr cr3) virt"
    and "leaf (tabs p) (entry_addr cr3) virt = None" and "on_way (\<lambda>e. bit e 1 \<and> bit e 2) (tabs p) (entry_addr cr3) virt"
  shows "\<exists>p'. map_pages cr3 phys virt MEM_PF_USER 1 p = Some p' \<and> user_writes (tabs p') (entry_addr cr3) virt"
proof -
  let ?r = "entry_addr cr3"
  have e: "MEM_PF_USER OR (x86_to_page_flags MEM_PF_USER OR 1) = 7" by (simp add: x86_to_page_flags_def)
  have fl: "page_flags 7" by (simp add: page_flags_def)
  obtain p' where p': "map_one cr3 phys virt 7 p = Some p'" "ways_kept ?r (table_flag_set 7) p p'"
    "\<forall>v. leaf (tabs p') ?r v = (if same_page v virt then Some (phys OR scast (7 :: u32)) else leaf (tabs p) ?r v)"
    by (rule map_one_step [OF assms(1,3,4,2) fl])
  have "on_way (\<lambda>e. bit e 1 \<and> bit e 2) (tabs p') ?r virt"
    by (rule ways_kept_way [OF p'(2) _ assms(5)]) (auto simp: table_flag_set_def bit_or_iff)
  moreover have "leaf (tabs p') ?r virt = Some (phys OR 7)" using p'(3) same_page_refl by (simp add: signed_numeral)
  moreover have "bit (phys OR 7) 1" "bit (phys OR 7) 2" by (simp_all add: bit_or_iff)
  ultimately have "user_writes (tabs p') ?r virt" unfolding user_writes_def by blast
  then show ?thesis unfolding map_pages_def e One_nat_def map_loop.simps p'(1) option.case by blast
qed

section \<open>Examples\<close>

definition blank_paging :: paging where
  "blank_paging = \<lparr>tabs = (\<lambda>_ _. 0), next_pages = [0x2000, 0x3000, 0x4000, 0x5000, 0x6000, 0x7000], flushed = []\<rparr>"

lemma blank_node: "node (tabs blank_paging) r is = (if is = [] then Some r else None)"
  by (cases "is") (simp_all add: blank_paging_def next_table_def)

lemma blank_leaf: "leaf (tabs blank_paging) r v = None"
  unfolding leaf_def blank_node by (simp add: indices_def)

lemma blank_way: "on_way Q (tabs blank_paging) r v"
  by (simp add: on_way_def blank_paging_def)

lemma root_1000: "entry_addr 0x1000 = 0x1000"
  by (simp add: entry_addr_def)

lemma blank_ok: "paging_ok 0x1000 blank_paging"
  unfolding paging_ok_def blank_node by (auto simp: blank_paging_def entry_addr_def)

theorem map_pages_extends_map_witness:
  "\<exists>p'. map_pages 0x1000 0x9000 0x400000 1 2 blank_paging = Some p' \<and> paging_ok 0x1000 p' \<and> get_physaddr 0x1000 0x401234 p' = 0xa234"
proof -
  have pages: "same_page 0x401234 (0x400000 + of_nat (4096 * 1))" by (simp add: same_page_def)
  have "3 * 2 \<le> length (next_pages blank_paging)" by (simp add: blank_paging_def)
  from map_pages_extends_map [of "0x1000" blank_paging 1 2 "0x9000" "0x400000", unfolded root_1000, OF blank_ok _ this]
  obtain p' where "map_pages 0x1000 0x9000 0x400000 1 2 blank_paging = Some p'" "paging_ok 0x1000 p'"
    "\<forall>k < 2. \<forall>v. same_page v (0x400000 + of_nat (4096 * k)) \<longrightarrow> get_physaddr 0x1000 v p' = 0x9000 + of_nat (4096 * k) + (v AND 0xfff)"
    using blank_leaf blank_way by auto
  moreover from this(3) have "get_physaddr 0x1000 0x401234 p' = 0x9000 + of_nat (4096 * 1) + (0x401234 AND 0xfff)"
    using pages by (metis one_less_numeral_iff semiring_norm(76))
  ultimately show ?thesis by simp
qed

theorem unmap_pages_flushes_next_witness:
  "\<exists>p. map_pages 0x1000 0x9000 0x400000 1 1 blank_paging = Some p
    \<and> (case unmap_pages 0x1000 0x400000 1 p of (r, p') \<Rightarrow> r = 0 \<and> leaf (tabs p') 0x1000 0x400000 = None \<and> flushed p' = [0x400000, 0x401000])"
proof -
  have e: "MEM_PF_WRITE OR (x86_to_page_flags MEM_PF_WRITE OR 1) = 3" by (simp add: x86_to_page_flags_def)
  have fl: "page_flags 3" by (simp add: page_flags_def)
  have s: "3 \<le> length (next_pages blank_paging)" by (simp add: blank_paging_def)
  obtain p where p: "map_one 0x1000 0x9000 0x400000 3 blank_paging = Some p" "paging_ok 0x1000 p" "ways_kept 0x1000 (table_flag_set 3) blank_paging p"
    "\<forall>v. leaf (tabs p) 0x1000 v = (if same_page v 0x400000 then Some (0x9000 OR scast (3 :: u32)) else leaf (tabs blank_paging) 0x1000 v)"
    "flushed p = flushed blank_paging @ [0x400000]"
    using map_one_step [of "0x1000" blank_paging "0x400000" 3 "0x9000", unfolded root_1000, OF blank_ok blank_way blank_leaf s fl] by metis
  have "no_large_page (tabs p) 0x1000 0x400000" using small_flags [OF fl] by (intro ways_kept_way [OF p(3)]) (simp_all add: blank_way)
  then have "\<forall>k < 1. no_large_page (tabs p) (entry_addr 0x1000) (0x400000 + of_nat (4096 * k)) \<and> leaf (tabs p) (entry_addr 0x1000) (0x400000 + of_nat (4096 * k)) \<noteq> None"
    using p(4) same_page_refl by (simp add: root_1000)
  from unmap_pages_flushes_next [OF _ _ this] have
    "case unmap_pages 0x1000 0x400000 1 p of (r, p') \<Rightarrow> r = 0 \<and> leaf (tabs p') 0x1000 0x400000 = None \<and> flushed p' = flushed p @ [0x401000]"
    using p(2) same_page_refl by (auto simp: root_1000)
  moreover have "flushed p @ [0x401000] = [0x400000, 0x401000]" using p(5) by (simp add: blank_paging_def)
  moreover have "map_pages 0x1000 0x9000 0x400000 1 1 blank_paging = Some p"
    unfolding map_pages_def e One_nat_def map_loop.simps p(1) option.case ..
  ultimately show ?thesis by (auto split: prod.splits)
qed

theorem read_only_page_is_writable_witness:
  "\<exists>p'. map_pages 0x1000 0x9000 0x400000 MEM_PF_USER 1 blank_paging = Some p' \<and> user_writes (tabs p') 0x1000 0x400000"
  using read_only_page_is_writable [of "0x1000" blank_paging "0x400000" "0x9000", unfolded root_1000, OF blank_ok _ blank_way blank_leaf blank_way]
  by (simp add: blank_paging_def)

end
