(* ===== verification/Valloc.thy ===== *)
theory Valloc imports Paging FrameAlloc begin

text \<open>
  Virtual memory for the kernel (\<open>mm/valloc.c\<close>): addresses of the kernel heap area from a bitmap of its pages, and
  mapping devices and memory there, over the page tables of \<open>Paging\<close> and the frames of \<open>FrameAlloc\<close>.

  \<open>None\<close> is a panic or an access outside the bitmap.
\<close>

section \<open>Addresses of the heap area\<close>

abbreviation KHEAP_START_ADDR :: u64 where "KHEAP_START_ADDR \<equiv> 0xfffffffa00000000"
abbreviation KHEAP_WORDS :: nat where "KHEAP_WORDS \<equiv> 16384"

text \<open>\<open>start * PAGE_SIZE\<close> is an \<open>int\<close>, that of \<open>frame_addr\<close>.\<close>

definition do_page_alloc :: "nat \<Rightarrow> nat \<Rightarrow> bitmap \<Rightarrow> u64 \<times> bitmap" where
  "do_page_alloc start n bm = (KHEAP_START_ADDR + frame_addr start, fold set_frame [start..<start + n] bm)"

definition check_heap_bitmap :: "nat \<Rightarrow> nat \<Rightarrow> bitmap \<Rightarrow> nat \<times> nat \<Rightarrow> (u64 \<times> bitmap) option \<times> nat \<times> nat" where
  "check_heap_bitmap i n bm cs =
     (case check_bitmap i n bm cs of (None, cs1) \<Rightarrow> (None, cs1) | (Some s, cs1) \<Rightarrow> (Some (do_page_alloc s n bm), cs1))"

fun vaddr_loop :: "nat \<Rightarrow> bitmap \<Rightarrow> nat list \<Rightarrow> nat \<times> nat \<Rightarrow> (u64 \<times> bitmap) option" where
  "vaddr_loop n bm [] cs = None"
| "vaddr_loop n bm (i # is) cs =
     (if bm ! i \<noteq> - 1 then
        (case check_heap_bitmap i n bm cs of
           (Some (ptr, bm1), cs1) \<Rightarrow> if ptr \<noteq> 0 then Some (ptr, bm1) else vaddr_loop n bm1 is cs1
         | (None, cs1) \<Rightarrow> vaddr_loop n bm is cs1)
      else vaddr_loop n bm is (0, snd cs))"

definition find_vaddr :: "int \<Rightarrow> bitmap \<Rightarrow> (u64 \<times> bitmap) option" where
  "find_vaddr n bm = (if n \<le> 0 then Some (0, bm) else vaddr_loop (nat n) bm [0..<length bm] (0, 0))"

definition free_one_vaddr :: "u64 \<Rightarrow> bitmap \<Rightarrow> bitmap option" where
  "free_one_vaddr page bm =
     (let index = unat (page - KHEAP_START_ADDR) div (64 * 4096) mod 2 ^ 32;
          off = unat (page - KHEAP_START_ADDR) div 4096 mod 64 in
      if index < length bm then Some (bm[index := unset_bit off (bm ! index)]) else None)"

fun free_vaddr_loop :: "nat \<Rightarrow> u64 \<Rightarrow> bitmap \<Rightarrow> bitmap option" where
  "free_vaddr_loop 0 page bm = Some bm"
| "free_vaddr_loop (Suc n) page bm = Option.bind (free_one_vaddr page bm) (free_vaddr_loop n (page + 4096))"

text \<open>The number of bytes is an \<open>unsigned int\<close>; the loop runs while the page is below the end.\<close>

definition free_vaddr :: "u64 \<Rightarrow> nat \<Rightarrow> bitmap \<Rightarrow> bitmap option" where
  "free_vaddr page n bm =
     (let stop = page + of_nat (n * 4096 mod 2 ^ 32) in
      if page < stop then free_vaddr_loop ((unat stop - unat page + 4095) div 4096) page bm else Some bm)"

section \<open>Mapping\<close>

text \<open>\<open>PAGE_ROUND_UP (size) / PAGE_SIZE\<close> for a size of type \<open>int\<close>, as an \<open>int\<close>.\<close>

definition page_count :: "int \<Rightarrow> int" where
  "page_count sz = s32 (int (unat (((word_of_int sz :: u64) + 4095) AND NOT 4095) div 4096))"

record vmem =
  page_tables :: paging
  kheap_bm :: bitmap

definition map_to_self :: "u64 \<Rightarrow> u64 \<Rightarrow> int \<Rightarrow> u32 \<Rightarrow> vmem \<Rightarrow> vmem option" where
  "map_to_self cr3 addr sz flags m =
     map_option (\<lambda>p. m\<lparr>page_tables := p\<rparr>) (map_pages cr3 addr addr flags (nat (page_count sz)) (page_tables m))"

definition unmap_from_self :: "u64 \<Rightarrow> u64 \<Rightarrow> int \<Rightarrow> vmem \<Rightarrow> vmem" where
  "unmap_from_self cr3 addr sz m = m\<lparr>page_tables := snd (unmap_pages cr3 addr (nat (page_count sz)) (page_tables m))\<rparr>"

definition map_phys :: "u64 \<Rightarrow> u64 \<Rightarrow> int \<Rightarrow> u32 \<Rightarrow> vmem \<Rightarrow> (u64 \<times> vmem) option" where
  "map_phys cr3 to_map sz flags m =
     (let n = page_count sz; phys = to_map AND NOT 0xfff in
      case find_vaddr n (kheap_bm m) of
        None \<Rightarrow> None
      | Some (virt, bm) \<Rightarrow>
          map_option (\<lambda>p. (virt, \<lparr>page_tables = p, kheap_bm = bm\<rparr>)) (map_pages cr3 phys virt flags (nat n) (page_tables m)))"

definition unmap_phys :: "u64 \<Rightarrow> u64 \<Rightarrow> int \<Rightarrow> vmem \<Rightarrow> vmem option" where
  "unmap_phys cr3 addr sz m =
     (let n = page_count sz; a = addr AND NOT 0xfff; p = snd (unmap_pages cr3 a (nat n) (page_tables m)) in
      map_option (\<lambda>bm. \<lparr>page_tables = p, kheap_bm = bm\<rparr>) (free_vaddr a (nat (n mod 2 ^ 32)) (kheap_bm m)))"

text \<open>With frames of their own; \<open>fb\<close> is the bitmap of frames.\<close>

definition map_virt :: "u64 \<Rightarrow> u64 \<Rightarrow> int \<Rightarrow> u32 \<Rightarrow> bitmap \<Rightarrow> vmem \<Rightarrow> (u64 \<times> bitmap \<times> vmem) option" where
  "map_virt cr3 virt sz flags fb m =
     (let n = page_count sz in
      case alloc_frames (nat (n mod 2 ^ 32)) fb of
        None \<Rightarrow> None
      | Some (phys, fb1) \<Rightarrow>
          map_option (\<lambda>p. (phys, fb1, m\<lparr>page_tables := p\<rparr>)) (map_pages cr3 phys virt flags (nat n) (page_tables m)))"

definition unmap_virt :: "u64 \<Rightarrow> u64 \<Rightarrow> int \<Rightarrow> bitmap \<Rightarrow> vmem \<Rightarrow> (bitmap \<times> vmem) option" where
  "unmap_virt cr3 virt sz fb m =
     (let n = page_count sz in
      map_option (\<lambda>fb1. (fb1, m\<lparr>page_tables := snd (unmap_pages cr3 virt (nat n) (page_tables m))\<rparr>))
        (free_frames (get_physaddr cr3 virt (page_tables m)) (nat (n mod 2 ^ 32)) fb))"

section \<open>The search and its addresses\<close>

lemma page_count_eq:
  assumes "0 \<le> sz" and "sz < 2 ^ 31"
  shows "page_count sz = (sz + 4095) div 4096"
proof -
  have low: "(4095 :: u64) = mask 12" by (simp add: mask_eq_decr_exp)
  have "drop_bit 12 (x AND NOT (mask 12)) = drop_bit 12 x" for x :: u64
    by (rule bit_word_eqI) (auto simp: bit_simps dest: bit_imp_le_length)
  then have "unat (drop_bit 12 (x AND NOT (mask 12))) = unat (drop_bit 12 x)" for x :: u64 by simp
  then have d: "unat (x AND NOT 4095) div 4096 = unat x div 4096" for x :: u64
    unfolding low unat_drop_bit_eq unfolding drop_bit_eq_div by simp
  have "(word_of_int sz :: u64) + 4095 = word_of_int (sz + 4095)" by simp
  then have "int (unat ((word_of_int sz :: u64) + 4095)) = (sz + 4095) mod 2 ^ 64"
    by (simp only: unsigned_of_int int_nat_eq of_nat_unat uint_word_of_int) (simp add: take_bit_eq_mod)
  also have "\<dots> = sz + 4095" using assms by simp
  finally have u: "int (unat ((word_of_int sz :: u64) + 4095)) = sz + 4095" .
  have "page_count sz = s32 (int (unat ((word_of_int sz :: u64) + 4095) div 4096))" by (simp only: page_count_def d)
  also have "\<dots> = s32 ((sz + 4095) div 4096)" unfolding zdiv_int u by simp
  also have "\<dots> = (sz + 4095) div 4096" unfolding s32_def by (rule signed_take_bit_int_eq_self) (use assms in simp_all)
  finally show ?thesis .
qed

lemma heap_addr_nonzero: "KHEAP_START_ADDR + frame_addr s \<noteq> 0"
proof
  assume "KHEAP_START_ADDR + frame_addr s = 0"
  then have "frame_addr s = - KHEAP_START_ADDR" by (simp add: eq_neg_iff_add_eq_0 add.commute)
  then have "frame_addr s = 0x600000000" by simp
  then have "sint (frame_addr s) = sint (0x600000000 :: u64)" by simp
  moreover have r: "- (2 ^ 31) \<le> s32 x" "s32 x < 2 ^ 31" for x
    unfolding s32_def using signed_take_bit_int_greater_eq_minus_exp [of 31 x] signed_take_bit_int_less_exp [of 31 x] by simp_all
  have "sint (frame_addr s) = s32 (int s * 4096)"
    unfolding frame_addr_def signed_of_int of_int_eq_id id_apply by (rule signed_take_bit_int_eq_self) (use r [of "int s * 4096"] in simp_all)
  moreover note r(2) [of "int s * 4096"]
  ultimately show False by simp
qed

lemma vaddr_loop_scan:
  "vaddr_loop n bm is cs = map_option (\<lambda>s. do_page_alloc s n bm) (alloc_scan n bm is cs)"
proof (induction "is" arbitrary: cs)
  case (Cons i "is")
  show ?case
  proof (cases "bm ! i = - 1")
    case True
    then show ?thesis using Cons.IH [of "(0, snd cs)"] by simp
  next
    case False
    obtain r cs1 where "check_bitmap i n bm cs = (r, cs1)" by (cases "check_bitmap i n bm cs")
    with False Cons.IH [of cs1] show ?thesis
      using heap_addr_nonzero by (cases r) (simp_all add: check_heap_bitmap_def do_page_alloc_def)
  qed
qed simp

lemma find_vaddr_eq:
  "0 < n \<Longrightarrow> find_vaddr (int n) bm = map_option (\<lambda>s. (KHEAP_START_ADDR + frame_addr s, fold set_frame [s..<s + n] bm)) (first_fit n bm)"
  by (simp add: find_vaddr_def vaddr_loop_scan first_fit_eq do_page_alloc_def)

lemma free_one_vaddr_eq: "free_one_vaddr page bm = free_frame (page - KHEAP_START_ADDR) bm"
  by (simp add: free_one_vaddr_def free_frame_def get_index_def get_offset_def Let_def)

lemma free_vaddr_loop_eq: "free_vaddr_loop n page bm = free_frames (page - KHEAP_START_ADDR) n bm"
proof (induction n arbitrary: page bm)
  case (Suc n)
  have "free_vaddr_loop n (page + 4096) = free_frames (page - KHEAP_START_ADDR + 4096) n"
    by (rule ext) (simp add: Suc.IH algebra_simps)
  then show ?case by (simp add: free_one_vaddr_eq)
qed simp

text \<open>The page of the area with a number below \<open>2 ^ 19\<close>.\<close>

definition heap_page :: "nat \<Rightarrow> u64" where
  "heap_page k = KHEAP_START_ADDR + of_nat (4096 * k)"

lemma unat_heap_page: "k \<le> 2 ^ 20 \<Longrightarrow> unat (heap_page k) = 0xfffffffa00000000 + 4096 * k"
proof -
  assume k: "k \<le> 2 ^ 20"
  have "unat (of_nat (4096 * k) :: u64) = 4096 * k" using k by (simp only: unat_of_nat) simp
  then show ?thesis using k unfolding heap_page_def by (subst unat_word_ariths(1)) simp
qed

lemma heap_page_add: "heap_page s + of_nat (4096 * k) = heap_page (s + k)"
  by (simp add: heap_page_def algebra_simps)

lemma same_heap_page: "k < 2 ^ 20 \<Longrightarrow> j < 2 ^ 20 \<Longrightarrow> same_page (heap_page k) (heap_page j) \<longleftrightarrow> k = j"
proof -
  have *: "\<not> same_page (heap_page (a + d)) (heap_page a)" if "0 < d" "d < 2 ^ 20" for a d
    using other_page [of d "heap_page a"] that unfolding heap_page_add by simp
  assume kj: "k < 2 ^ 20" "j < 2 ^ 20"
  show ?thesis
  proof (cases k j rule: linorder_cases)
    case less
    then have "\<not> same_page (heap_page j) (heap_page k)" using * [of "j - k" k] kj by simp
    then show ?thesis using less by (auto simp: same_page_def)
  next
    case greater
    then show ?thesis using * [of "k - j" j] kj by auto
  qed (simp add: same_page_refl)
qed

lemma free_vaddr_heap_page:
  assumes "s + n \<le> 2 ^ 20" and "n < 2 ^ 20"
  shows "free_vaddr (heap_page s) n bm = free_frames (of_nat (s * 4096)) n bm"
proof (cases "n = 0")
  case True
  then show ?thesis by (simp add: free_vaddr_def)
next
  case False
  have "n * 4096 mod 2 ^ 32 = 4096 * n" using assms by simp
  then have stop: "heap_page s + of_nat (n * 4096 mod 2 ^ 32) = heap_page (s + n)" by (simp only: heap_page_add)
  have u: "unat (heap_page s) = 0xfffffffa00000000 + 4096 * s" "unat (heap_page (s + n)) = 0xfffffffa00000000 + 4096 * (s + n)"
    using assms by (simp_all only: unat_heap_page add_leD1)
  have "heap_page s < heap_page (s + n)" using False by (simp add: word_less_nat_alt u)
  moreover have "(unat (heap_page (s + n)) - unat (heap_page s) + 4095) div 4096 = n" unfolding u by simp
  moreover have "heap_page s - KHEAP_START_ADDR = of_nat (s * 4096)" by (simp add: heap_page_def mult.commute)
  ultimately show ?thesis unfolding free_vaddr_def Let_def stop by (simp add: free_vaddr_loop_eq)
qed

section \<open>Mappings in the heap area\<close>

text \<open>
  The bitmap and the tables agree: a page of the first 2 GB of the area that the bitmap has free is not mapped.
\<close>

definition vm_ok :: "u64 \<Rightarrow> vmem \<Rightarrow> bool" where
  "vm_ok cr3 m \<longleftrightarrow> paging_ok (entry_addr cr3) (page_tables m) \<and> length (kheap_bm m) = KHEAP_WORDS
     \<and> (\<forall>k < 2 ^ 19. no_large_page (tabs (page_tables m)) (entry_addr cr3) (heap_page k))
     \<and> (\<forall>k < 2 ^ 19. \<not> used (kheap_bm m) k \<longrightarrow> leaf (tabs (page_tables m)) (entry_addr cr3) (heap_page k) = None)"

lemma unat_low12: "unat (x AND 0xfff :: u64) = unat x mod 4096"
proof -
  have low: "(0xfff :: u64) = mask 12" by (simp add: mask_eq_decr_exp)
  show ?thesis unfolding low take_bit_eq_mask [symmetric] unsigned_take_bit_eq unfolding take_bit_eq_mod by simp
qed

lemma heap_area_mod: "(0xfffffffa00000000 + 4096 * s + off) mod 4096 = (off mod 4096 :: nat)"
proof -
  have "0xfffffffa00000000 + 4096 * s + off = off + 4096 * (0xfffffffa00000 + s)" by simp
  then show ?thesis by (simp only: mod_mult_self2)
qed

lemma and_not_0: "x AND y = 0 \<Longrightarrow> x AND NOT y = (x :: u64)"
proof (rule bit_word_eqI)
  fix n assume "x AND y = 0"
  then have "\<not> bit (x AND y) n" by simp
  then show "n < LENGTH(64) \<Longrightarrow> bit (x AND NOT y) n = bit x n" by (auto simp: bit_simps)
qed

lemma heap_page_aligned: "k \<le> 2 ^ 20 \<Longrightarrow> heap_page k AND NOT 0xfff = heap_page k"
proof -
  assume "k \<le> 2 ^ 20"
  then have "unat (heap_page k AND 0xfff) = 0" unfolding unat_low12 using heap_area_mod [of k 0] by (simp add: unat_heap_page)
  then show ?thesis by (intro and_not_0) (simp only: unat_eq_0)
qed

lemma heap_offset:
  assumes "s + off div 4096 < 2 ^ 20"
  shows "same_page (heap_page s + of_nat off) (heap_page s + of_nat (4096 * (off div 4096)))"
    and "(heap_page s + of_nat off) AND 0xfff = of_nat (off mod 4096)"
proof -
  have o: "off < 2 ^ 32" "4096 * s + off < 2 ^ 32" using assms by simp_all
  have "unat (of_nat off :: u64) = off" using o(1) by (simp only: unat_of_nat) simp
  then have u: "unat (heap_page s + of_nat off) = 0xfffffffa00000000 + 4096 * s + off"
    using o assms unat_heap_page [of s] by (subst unat_word_ariths(1)) simp
  show "same_page (heap_page s + of_nat off) (heap_page s + of_nat (4096 * (off div 4096)))"
  proof -
    have "(0xfffffffa00000000 + 4096 * s + off) div 4096 = 0xfffffffa00000 + s + off div 4096" by simp
    moreover have "unat (heap_page (s + off div 4096)) div 4096 = 0xfffffffa00000 + s + off div 4096"
      using assms unat_heap_page [of "s + off div 4096"] by simp
    ultimately show ?thesis unfolding same_page_def heap_page_add u by simp
  qed
  have "unat ((heap_page s + of_nat off) AND 0xfff) = off mod 4096" unfolding unat_low12 u by (rule heap_area_mod)
  then show "(heap_page s + of_nat off) AND 0xfff = of_nat (off mod 4096)" 
    using unat_of_nat [of "off mod 4096", where 'a = 64] by (simp add: word_eq_iff_unsigned [where ?'a = nat])
qed

lemma page_start_aligned: "(x AND NOT 0xfff) AND 0xfff = (0 :: u64)"
  by (rule bit_word_eqI) (auto simp: bit_simps)

lemma vm_ok_pages:
  assumes "vm_ok cr3 m" and "first_fit n (kheap_bm m) = Some s" and "0 < n" and "s + n \<le> 2 ^ 19"
  shows "\<forall>k < n. no_large_page (tabs (page_tables m)) (entry_addr cr3) (heap_page s + of_nat (4096 * k))
    \<and> leaf (tabs (page_tables m)) (entry_addr cr3) (heap_page s + of_nat (4096 * k)) = None"
proof (intro allI impI)
  fix k assume k: "k < n"
  have "\<not> used (kheap_bm m) (s + k)" using first_fit_SomeD [OF assms(3,2)] k by (simp add: free_run_def)
  moreover have "s + k < 2 ^ 19" using k assms(4) by simp
  ultimately show "no_large_page (tabs (page_tables m)) (entry_addr cr3) (heap_page s + of_nat (4096 * k))
    \<and> leaf (tabs (page_tables m)) (entry_addr cr3) (heap_page s + of_nat (4096 * k)) = None"
    using assms(1) unfolding heap_page_add vm_ok_def by blast
qed

lemma map_phys_step:
  assumes ok: "vm_ok cr3 m" and sz: "0 < sz" "sz < 2 ^ 31" and n: "int n = (sz + 4095) div 4096" and ff: "first_fit n (kheap_bm m) = Some s"
    and s: "s + n \<le> 2 ^ 19" and tables: "3 * n \<le> length (next_pages (page_tables m))" and fl: "flags < 0x80"
  obtains m1 where "map_phys cr3 phys sz flags m = Some (heap_page s, m1)" "vm_ok cr3 m1" "kheap_bm m1 = fold set_frame [s..<s + n] (kheap_bm m)"
    "\<And>k v. k < n \<Longrightarrow> same_page v (heap_page s + of_nat (4096 * k)) \<Longrightarrow> leaf (tabs (page_tables m1)) (entry_addr cr3) v \<noteq> None"
    "\<And>k v. k < n \<Longrightarrow> same_page v (heap_page s + of_nat (4096 * k)) \<Longrightarrow>
       get_physaddr cr3 v (page_tables m1) = (phys AND NOT 0xfff) + of_nat (4096 * k) + (v AND 0xfff)"
    "\<And>v. \<forall>k < n. \<not> same_page v (heap_page s + of_nat (4096 * k)) \<Longrightarrow>
       leaf (tabs (page_tables m1)) (entry_addr cr3) v = leaf (tabs (page_tables m)) (entry_addr cr3) v"
proof -
  let ?r = "entry_addr cr3" and ?ph = "phys AND NOT 0xfff" and ?bm = "fold set_frame [s..<s + n] (kheap_bm m)"
  have n0: "0 < n" and n36: "n < 2 ^ 36" using n sz s by simp_all
  have pc: "page_count sz = int n" using page_count_eq [of sz] sz n by simp
  have r: "s + n \<le> 64 * length (kheap_bm m)" using first_fit_SomeD [OF n0 ff] by simp
  have "frame_addr s = of_nat (s * 4096)" using s n0 by (intro frame_addr_small) simp
  then have fv: "find_vaddr (int n) (kheap_bm m) = Some (heap_page s, ?bm)"
    using find_vaddr_eq [OF n0] ff by (simp add: heap_page_def mult.commute)
  have pok: "paging_ok ?r (page_tables m)" using ok by (simp add: vm_ok_def)
  note pages = vm_ok_pages [OF ok ff n0 s]
  obtain p where p: "map_pages cr3 ?ph (heap_page s) flags n (page_tables m) = Some p" "paging_ok ?r p"
    "\<And>v. no_large_page (tabs (page_tables m)) ?r v \<Longrightarrow> no_large_page (tabs p) ?r v"
    "\<And>v. \<forall>k < n. \<not> same_page v (heap_page s + of_nat (4096 * k)) \<Longrightarrow> leaf (tabs p) ?r v = leaf (tabs (page_tables m)) ?r v"
    "\<And>k v. k < n \<Longrightarrow> same_page v (heap_page s + of_nat (4096 * k)) \<Longrightarrow> leaf (tabs p) ?r v \<noteq> None"
    "\<And>k v. k < n \<Longrightarrow> same_page v (heap_page s + of_nat (4096 * k)) \<Longrightarrow> get_physaddr cr3 v p = ?ph + of_nat (4096 * k) + (v AND 0xfff)"
    by (rule map_pages_leaves [OF pok fl tables n36 page_start_aligned pages]) blast
  let ?m = "\<lparr>page_tables = p, kheap_bm = ?bm\<rparr>"
  note u = fold_set_frame [OF r]
  have vm: "vm_ok cr3 ?m"
    unfolding vm_ok_def vmem.simps
  proof (intro conjI allI impI)
    show "paging_ok ?r p" by (rule p(2))
    show "length ?bm = KHEAP_WORDS" using u ok by (simp add: vm_ok_def)
    show "no_large_page (tabs p) ?r (heap_page k)" if "k < 2 ^ 19" for k using p(3) ok that by (simp add: vm_ok_def)
    show "leaf (tabs p) ?r (heap_page k) = None" if k: "k < 2 ^ 19" "\<not> used ?bm k" for k
    proof -
      have uk: "used ?bm k \<longleftrightarrow> (s \<le> k \<and> k < s + n) \<or> used (kheap_bm m) k" using u by blast
      have "\<not> same_page (heap_page k) (heap_page s + of_nat (4096 * j))" if j: "j < n" for j
      proof -
        have "k \<noteq> s + j" using uk k(2) j by auto
        then show ?thesis unfolding heap_page_add using same_heap_page [of k "s + j"] k(1) j s by simp
      qed
      then have "leaf (tabs p) ?r (heap_page k) = leaf (tabs (page_tables m)) ?r (heap_page k)" using p(4) by blast
      also have "\<dots> = None" using ok k uk by (simp add: vm_ok_def)
      finally show ?thesis .
    qed
  qed
  show ?thesis
  proof (rule that [of ?m])
    show "map_phys cr3 phys sz flags m = Some (heap_page s, ?m)" unfolding map_phys_def Let_def pc fv option.case prod.case nat_int p(1) option.map ..
    show "vm_ok cr3 ?m" by (rule vm)
  qed (simp_all only: vmem.simps p(4-6), simp_all)
qed

lemma unmap_phys_step:
  assumes ok: "vm_ok cr3 m" and sz: "0 < sz" "sz < 2 ^ 31" and n: "int n = (sz + 4095) div 4096" and s: "s + n \<le> 2 ^ 19"
    and mapped: "\<And>k. k < n \<Longrightarrow> leaf (tabs (page_tables m)) (entry_addr cr3) (heap_page s + of_nat (4096 * k)) \<noteq> None"
  obtains m1 where "unmap_phys cr3 (heap_page s) sz m = Some m1" "vm_ok cr3 m1"
    "\<And>j. used (kheap_bm m1) j \<longleftrightarrow> used (kheap_bm m) j \<and> \<not> (s \<le> j \<and> j < s + n)"
    "\<And>v. leaf (tabs (page_tables m1)) (entry_addr cr3) v
       = (if \<exists>k < n. same_page v (heap_page s + of_nat (4096 * k)) then None else leaf (tabs (page_tables m)) (entry_addr cr3) v)"
proof -
  let ?r = "entry_addr cr3"
  have n36: "n < 2 ^ 36" and s': "s \<le> 2 ^ 20" using s by simp_all
  have pc: "page_count sz = int n" using page_count_eq [of sz] sz n by simp
  have pok: "paging_ok ?r (page_tables m)" and len: "length (kheap_bm m) = KHEAP_WORDS" using ok by (simp_all add: vm_ok_def)
  have pages: "\<forall>k < n. no_large_page (tabs (page_tables m)) ?r (heap_page s + of_nat (4096 * k)) \<and> leaf (tabs (page_tables m)) ?r (heap_page s + of_nat (4096 * k)) \<noteq> None"
    using mapped ok s unfolding vm_ok_def heap_page_add by simp
  obtain p where p: "unmap_pages cr3 (heap_page s) n (page_tables m) = (0, p)" "paging_ok ?r p"
    "\<And>v. no_large_page (tabs (page_tables m)) ?r v \<Longrightarrow> no_large_page (tabs p) ?r v"
    "\<And>v. leaf (tabs p) ?r v = (if \<exists>k < n. same_page v (heap_page s + of_nat (4096 * k)) then None else leaf (tabs (page_tables m)) ?r v)"
    by (rule unmap_pages_leaves [OF pok n36 pages]) blast
  have "s + n \<le> 64 * length (kheap_bm m)" "64 * length (kheap_bm m) \<le> 2 ^ 20" using s len by simp_all
  from free_frames_clears [OF this] obtain bm where
    bm: "free_frames (of_nat (s * 4096)) n (kheap_bm m) = Some bm" "length bm = length (kheap_bm m)"
      "\<forall>j. used bm j \<longleftrightarrow> used (kheap_bm m) j \<and> \<not> (s \<le> j \<and> j < s + n)" by blast
  have fv: "free_vaddr (heap_page s) n (kheap_bm m) = Some bm" using free_vaddr_heap_page [of s n] bm(1) s by simp
  let ?m = "\<lparr>page_tables = p, kheap_bm = bm\<rparr>"
  have u: "unmap_phys cr3 (heap_page s) sz m = Some ?m"
    unfolding unmap_phys_def Let_def pc heap_page_aligned [OF s'] using s by (simp add: p(1) fv)
  have "vm_ok cr3 ?m"
    unfolding vm_ok_def vmem.simps
  proof (intro conjI allI impI)
    show "paging_ok ?r p" by (rule p(2))
    show "length bm = KHEAP_WORDS" using bm(2) len by simp
    show "no_large_page (tabs p) ?r (heap_page k)" if "k < 2 ^ 19" for k using p(3) ok that by (simp add: vm_ok_def)
    show "leaf (tabs p) ?r (heap_page k) = None" if k: "k < 2 ^ 19" "\<not> used bm k" for k
    proof (cases "s \<le> k \<and> k < s + n")
      case True
      then have "k - s < n" "heap_page k = heap_page s + of_nat (4096 * (k - s))" by (simp_all only: heap_page_add) auto
      then show ?thesis unfolding p(4) using same_page_refl by metis
    next
      case False
      then show ?thesis unfolding p(4) using bm(3) k ok by (simp add: vm_ok_def)
    qed
  qed
  then show ?thesis using that [of ?m] u bm(3) p(4) by simp
qed

section \<open>Properties\<close>

text \<open>
  C40. \<open>map_phys\<close> maps as many fresh pages of the heap area as its size rounded up has, to the physical pages from the start of the
  device's page on: byte \<open>off\<close> from the returned address is byte \<open>off\<close> of the physical memory from \<open>phys AND NOT 0xfff\<close>.  For a device that
  starts on a page that is the device byte by byte.  For another the returned address is the start of its page,
  not the device, and its last bytes may lie behind the pages that are mapped.  \<open>unmap_phys\<close> of the returned address brings back the
  bitmap and the address map.  The mapping never hits a page that is mapped already.  The size is positive and an \<open>int\<close>, the flags are those of
  the processor below 0x80, the run that is free lies in the first half of the bitmap (\<open>heap_area_wraps\<close>), and there are
  frames for the tables.
\<close>

theorem map_phys_then_unmap:
  assumes "vm_ok cr3 m" and "0 < sz" and "sz < 2 ^ 31" and "int n = (sz + 4095) div 4096" and "first_fit n (kheap_bm m) = Some s"
    and "s + n \<le> 2 ^ 19" and "3 * n \<le> length (next_pages (page_tables m))" and "flags < 0x80"
  shows "\<exists>m1 m2. map_phys cr3 phys sz flags m = Some (heap_page s, m1) \<and> vm_ok cr3 m1
    \<and> (\<forall>off < 4096 * n. get_physaddr cr3 (heap_page s + of_nat off) (page_tables m1) = (phys AND NOT 0xfff) + of_nat off)
    \<and> unmap_phys cr3 (heap_page s) sz m1 = Some m2 \<and> vm_ok cr3 m2
    \<and> (\<forall>k. used (kheap_bm m2) k = used (kheap_bm m) k)
    \<and> (\<forall>v. leaf (tabs (page_tables m2)) (entry_addr cr3) v = leaf (tabs (page_tables m)) (entry_addr cr3) v)"
proof -
  let ?r = "entry_addr cr3"
  have n0: "0 < n" using assms(2,4) by simp
  have r: "s + n \<le> 64 * length (kheap_bm m)" "free_run (used (kheap_bm m)) n s" using first_fit_SomeD [OF n0 assms(5)] by simp_all
  obtain m1 where m1: "map_phys cr3 phys sz flags m = Some (heap_page s, m1)" "vm_ok cr3 m1" "kheap_bm m1 = fold set_frame [s..<s + n] (kheap_bm m)"
    "\<And>k v. k < n \<Longrightarrow> same_page v (heap_page s + of_nat (4096 * k)) \<Longrightarrow> leaf (tabs (page_tables m1)) ?r v \<noteq> None"
    "\<And>k v. k < n \<Longrightarrow> same_page v (heap_page s + of_nat (4096 * k)) \<Longrightarrow>
       get_physaddr cr3 v (page_tables m1) = (phys AND NOT 0xfff) + of_nat (4096 * k) + (v AND 0xfff)"
    "\<And>v. \<forall>k < n. \<not> same_page v (heap_page s + of_nat (4096 * k)) \<Longrightarrow> leaf (tabs (page_tables m1)) ?r v = leaf (tabs (page_tables m)) ?r v"
    by (rule map_phys_step [OF assms]) blast
  obtain m2 where m2: "unmap_phys cr3 (heap_page s) sz m1 = Some m2" "vm_ok cr3 m2"
    "\<And>j. used (kheap_bm m2) j \<longleftrightarrow> used (kheap_bm m1) j \<and> \<not> (s \<le> j \<and> j < s + n)"
    "\<And>v. leaf (tabs (page_tables m2)) ?r v = (if \<exists>k < n. same_page v (heap_page s + of_nat (4096 * k)) then None else leaf (tabs (page_tables m1)) ?r v)"
    by (rule unmap_phys_step [OF m1(2) assms(2-4,6) m1(4) [OF _ same_page_refl]], assumption, rule that)
  have bytes: "get_physaddr cr3 (heap_page s + of_nat off) (page_tables m1) = (phys AND NOT 0xfff) + of_nat off" if off: "off < 4096 * n" for off
  proof -
    have k: "off div 4096 < n" "s + off div 4096 < 2 ^ 20" using off assms(6) by (simp_all add: less_mult_imp_div_less mult.commute)
    note o = heap_offset [OF k(2)]
    have "(of_nat (4096 * (off div 4096)) :: u64) + of_nat (off mod 4096) = of_nat off" unfolding of_nat_add [symmetric] by simp
    then show ?thesis unfolding m1(5) [OF k(1) o(1)] o(2) by (simp only: add.assoc)
  qed
  have bits: "used (kheap_bm m2) k = used (kheap_bm m) k" for k
  proof -
    have "\<not> used (kheap_bm m) k" if "s \<le> k" "k < s + n"
      using r(2) that unfolding free_run_def by (metis le_add_diff_inverse less_diff_conv2 add.commute)
    moreover have "used (fold set_frame [s..<s + n] (kheap_bm m)) k \<longleftrightarrow> (s \<le> k \<and> k < s + n) \<or> used (kheap_bm m) k"
      using fold_set_frame [OF r(1)] by blast
    ultimately show ?thesis unfolding m2(3) m1(3) by blast
  qed
  have map: "leaf (tabs (page_tables m2)) ?r v = leaf (tabs (page_tables m)) ?r v" for v
  proof (cases "\<exists>k < n. same_page v (heap_page s + of_nat (4096 * k))")
    case True
    then obtain k where k: "k < n" "same_page v (heap_page s + of_nat (4096 * k))" by blast
    have "leaf (tabs (page_tables m)) ?r v = None"
      unfolding leaf_same_page [OF k(2)] using vm_ok_pages [OF assms(1,5) n0 assms(6)] k(1) by blast
    then show ?thesis unfolding m2(4) using True by simp
  next
    case False
    then have "leaf (tabs (page_tables m1)) ?r v = leaf (tabs (page_tables m)) ?r v" by (intro m1(6)) blast
    then show ?thesis unfolding m2(4) by (simp only: False if_False)
  qed
  show ?thesis using m1(1,2) m2(1,2) bytes bits map by blast
qed

text \<open>
  When the first 2 GB of the heap area are in use, the address that is given out lies below the area: the distance
  of the page from the start is computed in \<open>int\<close>, and has wrapped.
\<close>

theorem heap_area_wraps:
  assumes "length bm = KHEAP_WORDS" and "0 < n" and "first_fit n bm = Some s" and "2 ^ 19 \<le> s"
  shows "\<exists>bm'. find_vaddr (int n) bm = Some (of_nat (0xfffffff900000000 + 4096 * s), bm')
    \<and> (of_nat (0xfffffff900000000 + 4096 * s) :: u64) < KHEAP_START_ADDR"
proof -
  have s: "s < 2 ^ 20" using first_fit_SomeD [OF assms(2,3)] assms(1,2) by simp
  have "s32 (int s * 4096) = int s * 4096 - 2 ^ 32"
  proof -
    have "s32 (int s * 4096) = s32 (int s * 4096 - 2 ^ 32)"
      unfolding s32_def signed_take_bit_eq_take_bit_shift unfolding take_bit_eq_mod
      using mod_add_self2 [of "int s * 4096 - 2 ^ 31" "2 ^ 32"] by (simp add: add.commute [of "int s * 4096"])
    also have "\<dots> = int s * 4096 - 2 ^ 32" unfolding s32_def by (rule signed_take_bit_int_eq_self) (use s assms(4) in simp_all)
    finally show ?thesis .
  qed
  then have f: "frame_addr s = of_nat (4096 * s) - 0x100000000" unfolding frame_addr_def by simp
  have a: "KHEAP_START_ADDR + frame_addr s = of_nat (0xfffffff900000000 + 4096 * s)" unfolding f by simp
  have "unat (of_nat (0xfffffff900000000 + 4096 * s) :: u64) = 0xfffffff900000000 + 4096 * s"
    using s by (simp only: unat_of_nat) simp
  then have "(of_nat (0xfffffff900000000 + 4096 * s) :: u64) < KHEAP_START_ADDR" using s by (simp add: word_less_nat_alt)
  then show ?thesis using find_vaddr_eq [OF assms(2)] assms(3) a by simp
qed

section \<open>Examples\<close>

lemma used_replicate: "k < 64 * c \<Longrightarrow> used (replicate c w) k = bit w (k mod 64)"
  by (simp add: used_def less_mult_imp_div_less mult.commute)

lemma first_fit_SomeI:
  "0 < n \<Longrightarrow> s + n \<le> 64 * length bm \<Longrightarrow> free_run (used bm) n s \<Longrightarrow> (\<And>r. r < s \<Longrightarrow> \<not> free_run (used bm) n r) \<Longrightarrow> first_fit n bm = Some s"
  unfolding first_fit_def find_Some_iff by (rule exI [of _ s]) auto

theorem map_phys_then_unmap_witness:
  "\<exists>m1. map_phys 0x1000 0xfed00400 5000 1 \<lparr>page_tables = blank_paging, kheap_bm = replicate KHEAP_WORDS 0\<rparr> = Some (KHEAP_START_ADDR, m1)
    \<and> get_physaddr 0x1000 0xfffffffa00001404 (page_tables m1) = 0xfed01404"
proof -
  let ?m = "\<lparr>page_tables = blank_paging, kheap_bm = replicate KHEAP_WORDS 0\<rparr>"
  have vm: "vm_ok 0x1000 ?m" by (simp add: vm_ok_def root_1000 blank_ok blank_way blank_leaf)
  have ff: "first_fit 2 (kheap_bm ?m) = Some 0"
    by (rule first_fit_SomeI) (auto simp: free_run_def used_replicate)
  have tables: "3 * 2 \<le> length (next_pages (page_tables ?m))" by (simp add: blank_paging_def)
  from map_phys_then_unmap [OF vm _ _ _ ff _ tables, of 5000 1 "0xfed00400"] obtain m1 where
    m1: "map_phys 0x1000 0xfed00400 5000 1 ?m = Some (heap_page 0, m1)"
    "\<forall>off < 4096 * 2. get_physaddr 0x1000 (heap_page 0 + of_nat off) (page_tables m1) = (0xfed00400 AND NOT 0xfff) + of_nat off" by auto
  have "get_physaddr 0x1000 (heap_page 0 + of_nat 0x1404) (page_tables m1) = (0xfed00400 AND NOT 0xfff) + of_nat 0x1404"
    by (rule m1(2) [rule_format]) simp
  then show ?thesis using m1(1) by (simp add: heap_page_def)
qed

theorem heap_area_wraps_witness:
  "\<exists>bm. find_vaddr 1 (replicate 8192 (- 1) @ replicate 8192 0) = Some (0xfffffff980000000, bm)"
proof -
  let ?bm = "replicate 8192 (- 1) @ replicate 8192 0 :: bitmap"
  have "first_fit 1 ?bm = Some 524288"
  proof (rule first_fit_SomeI)
    show "free_run (used ?bm) 1 524288" by (simp add: free_run_def used_def nth_append)
    show "\<not> free_run (used ?bm) 1 r" if "r < 524288" for r
    proof -
      have "r div 64 < 8192" using that by simp
      then show ?thesis by (simp add: free_run_def used_def nth_append)
    qed
  qed simp_all
  from heap_area_wraps [OF _ _ this] show ?thesis by auto
qed

end
