(* ===== verification/Spec2Isabelle.thy ===== *)
theory Spec2Isabelle
  imports Sched Signals WaitQueue Sync Process Pipe FdTable LineDisc VtConsole
    Clock Timers FrameAlloc KHeap FatFile FatDir CString PathNames
    Tmpfs Namespace DirCache NameOps FileIO MemMap
    Rtc Format Elf Keyboard Terminal Exec Paging Valloc
begin

text \<open>
  Lilac, a small Unix-like kernel for x86, and what is proved about it.

  The kernel (\<open>src/kernel\<close>, C) runs processes with their own address spaces, schedules them on several
  processors, and gives them files, pipes, terminals, signals and timers through system calls.  This development
  models the parts that have logic of their own as HOL functions over explicit states, in one theory per part, and
  proves of each what makes it correct, or how it fails.

  \<^bold>\<open>Conventions.\<close>  A C structure is a record, an enumeration or tagged union a datatype, an integer of fixed width a
  word, or a natural number or integer with the wrap-around written out (\<open>s32\<close>, \<open>u32_add\<close>).  Operations take and
  return the state they read and change.  An error return is the negated error code; \<open>None\<close>, or a constructor of its
  own where there are several, is a panic, an access out of bounds or another use of undefined behaviour.  What is not
  under \<open>src/kernel\<close>, or is hardware (a disk transfer, the value of a clock, the keys of a user), is an argument.
  Where tasks interleave (mutexes, semaphores, the sleeps of pipes and wait queues) each atomic operation is a step of
  an inductive relation; elsewhere a section under a lock is atomic.

  \<^bold>\<open>The prelude.\<close>  \<open>LilacBase\<close> has the integer types, the error codes, blocks of memory with bounds-checked copies, and
  the interfaces between parts, as locales with their client lemmas: \<open>stepped_component\<close> (a part driven by events with
  an invariant), \<open>step_system\<close> (interleaved steps with an invariant), \<open>byte_channel\<close> (what is put in comes out in
  order), \<open>region_allocator\<close> (disjoint regions from one store) and \<open>block_allocator\<close> (blocks that clients own never
  overlap); \<open>WaitQueue\<close> has \<open>waker\<close> (what waking a task does to the run queues), and \<open>FatFile\<close> has \<open>block_store\<close>
  (numbered blocks that are read and written).  Each is interpreted on the model of the code that provides it: \<open>ld\<close>
  and \<open>rc\<close> on the line discipline, \<open>pp\<close> on pipes, \<open>mx\<close> and \<open>sm\<close> on mutexes and semaphores, \<open>fd\<close> on descriptors,
  \<open>fr\<close> on frames, \<open>kh\<close> on the heap, \<open>sw\<close> on the scheduler, \<open>clst\<close> on the clusters of a FAT32 volume.

  \<^bold>\<open>Tasks.\<close>
  \<^item> \<open>Sched\<close> (\<open>kernel/sched.c\<close>): the run queues in order of virtual run time, waking, choosing, stealing between
    processors, and the tick.  The red-black tree is its in-order sequence.  A run is a sequence of labelled steps; the labels
    name the two disorders of the code, a tick that charges a task while it is queued and a state that is assigned without the
    queues.  In every run the queues and the marks of the tasks agree; without a disorder the queues are sorted, hold running
    tasks only, and a task of least run time is chosen.
  \<^item> \<open>WaitQueue\<close> and \<open>Process\<close> (\<open>kernel/wait.c\<close>, \<open>kernel/process.c\<close>): sleeping and waking, fork, exit, groups and
    sessions, waiting for children; what fork copies and what a parent is told.
  \<^item> \<open>Sync\<close> (\<open>kernel/sync.c\<close>): mutexes and semaphores for any number of tasks.  Mutual exclusion holds; a wake-up can
    be lost, and the state in which it is lost is reached.
  \<^item> \<open>Signals\<close> (\<open>kernel/signal.c\<close>): raising, sending, masks, actions and the choice of a pending signal; which signals
    the test for a pending one drops.
  \<^item> \<open>Exec\<close> and \<open>Elf\<close> (\<open>kernel/process.c\<close>, \<open>kernel/elf.c\<close>, \<open>arch/x86/kernel/user_copy.S\<close>): execve, the arguments on
    the stack of a program, the segments of a program file.  A loaded program finds its arguments and, with the faults
    of \<open>MemMap\<close>, the bytes of its file.  The arguments are written to a memory of bytes, where the mappings allow it; a memory of
    strings and words is the specification that it refines (\<open>lays\<close>).
  \<^item> \<open>Clock\<close>, \<open>Timers\<close> and \<open>Rtc\<close> (\<open>kernel/time.c\<close>, \<open>arch/x86/hardware/rtc.c\<close>): dates, timer events (a tick fires
    what has expired, the earliest first), the clock chip (which dates survive from the chip to the screen, and which do not).

  \<^bold>\<open>Memory.\<close>
  \<^item> \<open>FrameAlloc\<close> (\<open>mm/pmem.c\<close>): the bitmap of frames, equal to a first-fit search; no frame has two owners.
  \<^item> \<open>KHeap\<close> (\<open>mm/kmalloc.c\<close>): the heap in superblocks and buckets per processor, over the interface of the frames.
    Blocks that are in use never overlap.
  \<^item> \<open>Paging\<close> (\<open>arch/x86/kernel/paging64.c\<close>): tables of four levels as a map from the address of a table to its
    entries, refining a map from addresses to pages.  \<open>paging_ok\<close> says that no table is used twice.
  \<^item> \<open>Valloc\<close> (\<open>mm/valloc.c\<close>): addresses for the kernel from a bitmap, and devices mapped there.  \<open>vm_ok\<close> relates the
    bitmap and the tables, and is kept by mapping and unmapping.
  \<^item> \<open>MemMap\<close> (\<open>mm/mm.c\<close>, \<open>mm/fault.c\<close>): the mappings of a process, mmap, brk, and what a fault brings in.

  \<^bold>\<open>Files.\<close>
  \<^item> \<open>FdTable\<close> (\<open>fs/fd.c\<close>, \<open>fs/file.c\<close>, \<open>fs/fcntl.c\<close>): descriptors and the counts of open files, over any sequence of
    calls in which no pipe gets only one of its descriptors, and what such a pipe leaves behind.
  \<^item> \<open>Pipe\<close> (\<open>kernel/pipe.c\<close>): the ring buffer refines a queue of bytes.
  \<^item> \<open>PathNames\<close>, \<open>Tmpfs\<close>, \<open>Namespace\<close>, \<open>DirCache\<close>, \<open>NameOps\<close> (\<open>fs/name_utils.c\<close>, \<open>fs/tmpfs\<close>, \<open>fs/dcache.c\<close>,
    \<open>fs/vfs.c\<close>): names, the objects of a file system tree, the cache of directory entries and the calls on paths.  The
    cache agrees with the directories as long as nothing is removed and nothing that exists is made again, so that a lookup is a walk through them.
  \<^item> \<open>FileIO\<close> (\<open>fs/vfs.c\<close>, \<open>fs/stat.c\<close>): the calls on an open file, which refine a stream up to the byte 0
    at which tmpfs stops, for positions and counts whose sum does not wrap.
  \<^item> \<open>FatFile\<close> and \<open>FatDir\<close> (\<open>fs/fat32\<close>): volumes, cluster chains, files and directories.

  \<^bold>\<open>Terminals.\<close>
  \<^item> \<open>Keyboard\<close> (\<open>drivers/keyboard.c\<close>) turns scan codes into characters, \<open>Terminal\<close> (\<open>drivers/tty/core.c\<close>) gives
    them to the active terminal and applies job control, \<open>LineDisc\<close> (\<open>drivers/tty/ldisc.c\<close>) edits lines, and
    \<open>VtConsole\<close> (\<open>drivers/tty/vt.c\<close>, with the regions of \<open>drivers/tty/fbcon.c\<close>) shows output.  The line discipline
    refines an abstract line editor in canonical mode and, for plain bytes, a queue in raw mode; the console stays inside the screen, and Ctrl and C reach the members of the foreground group that the
    signal is not lost on.
  \<^item> \<open>Format\<close> and \<open>CString\<close> (\<open>lib/stdio\<close>, \<open>lib/string\<close>, \<open>kernel/log.c\<close>): formatted output and the string functions.

  \<^bold>\<open>Bounds and fuel.\<close>  Loops over data are structural or have a measure.  The loops that may not end are partial
  functions, of which \<open>None\<close> is a loop that never ends: the output of the console, of which one request is proved never
  to return, the blocking reads of the line discipline, and the reading of a FAT directory, whose chain may have a
  cycle.  The name of the working directory has fuel, one unit for each directory on the way up to
  the root.  The allocator of frames is proved correct for up to 2 GB of memory, and the kernel's addresses for the first
  2 GB of their area, where the \<open>int\<close> arithmetic of the code does not wrap; theorems say what happens beyond.

  \<^bold>\<open>Not modelled.\<close>  ACPICA and the red-black trees are third-party code kept in the repository.  Interrupt entry, the
  context switch, interrupt controllers, processors, PCI, the disk controller and the frame buffer are registers of
  hardware with little logic.  The 32-bit port's tables, the memory type registers, the code that runs before the kernel
  has memory, mounting and the scan of partitions, and the user programs are left out.  Allocation fails only where a
  theory says so.
\<close>

end
